(* ===== verification/Prelude.thy ===== *)
theory Prelude
  imports Main "HOL-Library.Word"
begin

unbundle bit_operations_syntax

text \<open>
  Shared vocabulary of the development: Rust's machine integers, big-endian conversion,
  ASCII case folding, the list facts the codecs need and the two proof collections
  \<open>codec_simps\<close> (equations that drive symbolic evaluation of the readers and writers) and
  \<open>wf_intros\<close> (closure rules of the well-formedness invariants).

  \<open>usize\<close> is modelled by \<^typ>\<open>nat\<close>: every position and length handled here is bounded by
  the length of a byte buffer, and where the source guards an addition with
  \<open>checked_add\<close> the error it returns is the one the following bound check returns too,
  so an unbounded addition followed by that check has the same outcome.
\<close>

named_theorems codec_simps \<open>evaluation equations of readers and writers\<close>
named_theorems wf_intros \<open>closure rules of the well-formedness invariants\<close>

section \<open>Machine integers\<close>

type_synonym u8 = "8 word"
type_synonym u16 = "16 word"
type_synonym u32 = "32 word"
type_synonym u64 = "64 word"
type_synonym bytes = "u8 list"

text \<open>\<open>u16::to_be_bytes\<close>, \<open>u32::to_be_bytes\<close> and their inverses.\<close>

definition u16_to_be_bytes :: "u16 \<Rightarrow> bytes" where
  "u16_to_be_bytes v = [ucast (drop_bit 8 v), ucast v]"

definition u32_to_be_bytes :: "u32 \<Rightarrow> bytes" where
  "u32_to_be_bytes v =
     [ucast (drop_bit 24 v), ucast (drop_bit 16 v), ucast (drop_bit 8 v), ucast v]"

definition u16_from_be_bytes :: "u8 \<Rightarrow> u8 \<Rightarrow> u16" where
  "u16_from_be_bytes hi lo = push_bit 8 (ucast hi) OR ucast lo"

definition u32_from_halves :: "u16 \<Rightarrow> u16 \<Rightarrow> u32" where
  "u32_from_halves a b = push_bit 16 (ucast a) OR ucast b"

lemma u16_from_to_be [simp]:
  "u16_from_be_bytes (ucast (drop_bit 8 v)) (ucast v) = v"
  unfolding u16_from_be_bytes_def
  by (rule bit_word_eqI) (auto simp: bit_simps)

lemma u32_from_halves_id [simp]: "u32_from_halves (ucast (drop_bit 16 v)) (ucast v) = v"
  unfolding u32_from_halves_def
  by (rule bit_word_eqI) (auto simp: bit_simps)

lemma u32_to_be_split:
  "u32_to_be_bytes v = u16_to_be_bytes (ucast (drop_bit 16 v)) @ u16_to_be_bytes (ucast v)"
proof -
  have "ucast (drop_bit 8 (ucast (drop_bit 16 v) :: u16)) = (ucast (drop_bit 24 v) :: u8)"
    and "ucast (ucast (drop_bit 16 v) :: u16) = (ucast (drop_bit 16 v) :: u8)"
    and "ucast (drop_bit 8 (ucast v :: u16)) = (ucast (drop_bit 8 v) :: u8)"
    and "ucast (ucast v :: u16) = (ucast v :: u8)"
    by (rule bit_word_eqI, auto simp: bit_simps)+
  then show ?thesis by (simp add: u32_to_be_bytes_def u16_to_be_bytes_def)
qed

lemma length_u16_to_be [simp]: "length (u16_to_be_bytes v) = 2"
  by (simp add: u16_to_be_bytes_def)

lemma length_u32_to_be [simp]: "length (u32_to_be_bytes v) = 4"
  by (simp add: u32_to_be_bytes_def)

text \<open>\<open>u32::from_be_bytes\<close>.\<close>

definition u32_from_be_bytes :: "bytes \<Rightarrow> u32" where
  "u32_from_be_bytes b =
     u32_from_halves (u16_from_be_bytes (b ! 0) (b ! 1)) (u16_from_be_bytes (b ! 2) (b ! 3))"

lemma u32_be_roundtrip [simp]: "u32_from_be_bytes (u32_to_be_bytes v) = v"
  by (simp add: u32_from_be_bytes_def u32_to_be_split u16_to_be_bytes_def nth_append)

lemma unat_u8_lt [simp]: "unat (b :: u8) < 256"
  using unsigned_less [of b, where ?'a = nat] by simp

lemma unat_u16_lt [simp]: "unat (b :: u16) < 65536"
  using unsigned_less [of b, where ?'a = nat] by simp

lemma unat_of_nat_u8 [simp]: "n < 256 \<Longrightarrow> unat (of_nat n :: u8) = n"
  by (simp add: unat_of_nat)

lemma unat_of_nat_u16 [simp]: "n < 65536 \<Longrightarrow> unat (of_nat n :: u16) = n"
  by (simp add: unat_of_nat)

text \<open>The two top bits of a length octet, and the 14-bit offset of a compression pointer.\<close>

lemma mask_numerals:
  "(0x3F :: u16) = mask 6" "(0x3FFF :: u16) = mask 14"
  "(0xC0 :: u8) = NOT (mask 6)" "(0xC000 :: u16) = NOT (mask 14)"
  by (simp_all add: mask_eq_exp_minus_1)

lemma take_bit_word_self: "take_bit n w = w \<longleftrightarrow> unat w < 2 ^ n" for w :: "'a::len word"
proof -
  have "take_bit n w = w \<longleftrightarrow> unat (take_bit n w) = unat w"
    by (simp add: word_unat_eq_iff)
  then show ?thesis by (simp add: unsigned_take_bit_eq take_bit_nat_eq_self_iff)
qed

lemma and_C0_zero: "b AND 0xC0 = 0 \<longleftrightarrow> unat b < 64" for b :: u8
proof -
  have "b AND 0xC0 = 0 \<longleftrightarrow> take_bit 6 b = b"
    unfolding mask_numerals by (auto simp: bit_eq_iff bit_simps)
  then show ?thesis by (simp add: take_bit_word_self)
qed

lemma ptr_kind: "ucast (drop_bit 8 (0xC000 OR off)) AND (0xC0 :: u8) = 0xC0" for off :: u16
  unfolding mask_numerals by (rule bit_word_eqI) (auto simp: bit_simps)

lemma ptr_bytes:
  "push_bit 8 (ucast hi AND 0x3F) OR ucast lo = u16_from_be_bytes hi lo AND 0x3FFF"
  unfolding mask_numerals u16_from_be_bytes_def
  by (rule bit_word_eqI) (auto simp: bit_simps dest: bit_imp_le_length)

lemma ptr_bytes_simp:
  "push_bit 8 (ucast hi) AND 0x3F00 OR ucast lo = u16_from_be_bytes hi lo AND 0x3FFF"
  using ptr_bytes [of hi lo] by simp

lemma ptr_off:
  assumes "unat off < 0x4000"
  shows "(0xC000 OR off) AND 0x3FFF = (off :: u16)"
proof -
  have "take_bit 14 off = off" using assms by (simp add: take_bit_word_self)
  then show ?thesis unfolding mask_numerals by (auto simp: bit_eq_iff bit_simps)
qed

text \<open>\<open>usize::checked_add\<close> on a 64-bit target, where its overflow has an error of its own.\<close>

definition checked_add :: "nat \<Rightarrow> nat \<Rightarrow> nat option" where
  "checked_add a b = (if a + b < 2 ^ 64 then Some (a + b) else None)"

lemma checked_add_small [simp]: "a + b < 2 ^ 64 \<Longrightarrow> checked_add a b = Some (a + b)"
  by (simp add: checked_add_def)

text \<open>\<open>to_be_bytes\<close> of a number at a width of \<open>k\<close> bytes, and the number big-endian bytes spell.\<close>

fun be_bytes :: "nat \<Rightarrow> nat \<Rightarrow> bytes" where
  "be_bytes 0 n = []"
| "be_bytes (Suc k) n = be_bytes k (n div 256) @ [of_nat n]"

definition be_value :: "bytes \<Rightarrow> nat" where
  "be_value bs = foldl (\<lambda>acc b. acc * 256 + unat b) 0 bs"

lemma length_be_bytes [simp]: "length (be_bytes k n) = k"
  by (induction k arbitrary: n) auto

lemma be_value_snoc: "be_value (bs @ [b]) = be_value bs * 256 + unat b"
  by (simp add: be_value_def)

lemma be_value_be_bytes: "be_value (be_bytes k n) = n mod 256 ^ k"
proof (induction k arbitrary: n)
  case 0
  then show ?case by (simp add: be_value_def)
next
  case (Suc k)
  have "be_value (be_bytes (Suc k) n) = (n div 256 mod 256 ^ k) * 256 + n mod 256"
    by (simp add: be_value_snoc Suc unat_of_nat)
  also have "\<dots> = n mod (256 * 256 ^ k)" by (simp add: mod_mult2_eq)
  finally show ?case by simp
qed

section \<open>ASCII case\<close>

text \<open>\<open>u8::to_ascii_lowercase\<close>, \<open>u8::is_ascii_uppercase\<close>, \<open>u8::is_ascii_digit\<close>.\<close>

definition is_ascii_uppercase :: "u8 \<Rightarrow> bool" where
  "is_ascii_uppercase b \<longleftrightarrow> 65 \<le> b \<and> b \<le> 90"

definition is_ascii_digit :: "u8 \<Rightarrow> bool" where
  "is_ascii_digit b \<longleftrightarrow> 48 \<le> b \<and> b \<le> 57"

definition to_ascii_lowercase :: "u8 \<Rightarrow> u8" where
  "to_ascii_lowercase b = (if is_ascii_uppercase b then b + 32 else b)"

definition eq_ignore_ascii_case :: "bytes \<Rightarrow> bytes \<Rightarrow> bool" where
  "eq_ignore_ascii_case xs ys \<longleftrightarrow> map to_ascii_lowercase xs = map to_ascii_lowercase ys"

lemma to_ascii_lowercase_small [simp]: "b < 65 \<Longrightarrow> to_ascii_lowercase b = b"
  by (auto simp: to_ascii_lowercase_def is_ascii_uppercase_def)

lemma not_upper_lowercase [simp]: "\<not> is_ascii_uppercase b \<Longrightarrow> to_ascii_lowercase b = b"
  by (simp add: to_ascii_lowercase_def)

lemma not_upper_to_ascii_lowercase: "\<not> is_ascii_uppercase (to_ascii_lowercase b)"
proof (cases "is_ascii_uppercase b")
  case True
  then have "unat b \<le> 90" "65 \<le> unat b"
    by (simp_all add: is_ascii_uppercase_def word_le_nat_alt)
  then have "unat (b + 32) = unat b + 32"
    by (simp add: unat_word_ariths)
  with True \<open>65 \<le> unat b\<close> show ?thesis
    by (simp add: to_ascii_lowercase_def is_ascii_uppercase_def word_le_nat_alt)
qed (simp add: to_ascii_lowercase_def)

lemma to_ascii_lowercase_idem [simp]:
  "to_ascii_lowercase (to_ascii_lowercase b) = to_ascii_lowercase b"
  using not_upper_to_ascii_lowercase [of b] by simp

lemma map_lowercase_idem [simp]:
  "map to_ascii_lowercase (map to_ascii_lowercase xs) = map to_ascii_lowercase xs"
  by simp

lemma eq_ignore_ascii_case_refl [simp]: "eq_ignore_ascii_case xs xs"
  by (simp add: eq_ignore_ascii_case_def)

section \<open>Lists\<close>

text \<open>\<open>slice.get(a..b)\<close>: the bytes from \<open>a\<close> up to \<open>b\<close>, when that range is inside.\<close>

definition slice :: "'a list \<Rightarrow> nat \<Rightarrow> nat \<Rightarrow> 'a list" where
  "slice xs a b = take (b - a) (drop a xs)"

lemma length_slice [simp]: "a \<le> b \<Longrightarrow> b \<le> length xs \<Longrightarrow> length (slice xs a b) = b - a"
  by (simp add: slice_def)

lemma nth_slice [simp]: "i < b - a \<Longrightarrow> b \<le> length xs \<Longrightarrow> slice xs a b ! i = xs ! (a + i)"
  by (simp add: slice_def add.commute)

lemma slice_append_mid [simp]:
  "slice (xs @ ys @ zs) (length xs) (length xs + length ys) = ys"
  by (simp add: slice_def)

lemma slice_append1: "b \<le> length xs \<Longrightarrow> slice (xs @ ys) a b = slice xs a b"
  by (simp add: slice_def)

lemma nth_append_mid [simp]: "(xs @ y # zs) ! length xs = y"
  by simp

end
