(* ===== verification/NameMap.thy ===== *)
theory NameMap
  imports Prelude
begin

text \<open>
  The compression offset table of \<open>onetdns-proto/src/name.rs\<close>: an arena of entries, a hash
  index of chain heads and a logical length. The table is refined to a finite map: the
  interface every client of the table relies on is the locale \<open>offset_table\<close>, and the
  arena satisfies it for every hash function (the source seeds it at random, so the hash
  is a field of the state here).
\<close>

section \<open>The interface\<close>

locale offset_table =
  fixes inv :: "'t \<Rightarrow> bool"
    and get :: "'t \<Rightarrow> 'k \<Rightarrow> 'v option"
    and ins :: "'t \<Rightarrow> 'k \<Rightarrow> 'v \<Rightarrow> 't"
    and clr :: "'t \<Rightarrow> 't"
    and emp :: "'t \<Rightarrow> bool"
  assumes get_ins: "inv t \<Longrightarrow> get (ins t k v) = (get t)(k \<mapsto> v)"
    and get_clr: "inv t \<Longrightarrow> get (clr t) = Map.empty"
    and inv_ins: "inv t \<Longrightarrow> inv (ins t k v)"
    and inv_clr: "inv t \<Longrightarrow> inv (clr t)"
    and emp_get: "inv t \<Longrightarrow> emp t \<Longrightarrow> get t = Map.empty"
    and emp_clr: "inv t \<Longrightarrow> emp (clr t)"
begin

lemma inv_inserts: "inv t \<Longrightarrow> inv (fold (\<lambda>(k, v) t. ins t k v) kvs t)"
  by (induction kvs arbitrary: t) (auto simp: inv_ins)

lemma get_inserts:
  "inv t \<Longrightarrow> get (fold (\<lambda>(k, v) t. ins t k v) kvs t) = get t ++ map_of (rev kvs)"
proof (induction kvs arbitrary: t)
  case (Cons kv kvs)
  then show ?case
    by (cases kv) (simp add: inv_ins get_ins map_add_def fun_eq_iff split: option.splits)
qed simp

lemma get_after_reuse:
  assumes "inv t"
  shows "get (fold (\<lambda>(k, v) t. ins t k v) kvs (clr t)) = map_of (rev kvs)"
  using assms by (simp add: get_inserts inv_clr get_clr)

end

section \<open>The arena\<close>

record name_map_entry =
  nme_key :: bytes
  nme_offset :: u16
  nme_next :: "nat option"

record name_map =
  nm_heads :: "u64 \<rightharpoonup> nat"
  nm_entries :: "name_map_entry list"
  nm_active :: nat
  nm_hash_builder :: "bytes \<Rightarrow> u64"

definition MAX_RETAINED_NAME_ENTRIES :: nat where
  "MAX_RETAINED_NAME_ENTRIES = 64"

text \<open>\<open>NameMap::default\<close> with the hash function the random seed selects.\<close>

definition name_map_default :: "(bytes \<Rightarrow> u64) \<Rightarrow> name_map" where
  "name_map_default hb =
     \<lparr>nm_heads = Map.empty, nm_entries = [], nm_active = 0, nm_hash_builder = hb\<rparr>"

definition name_map_hash :: "name_map \<Rightarrow> bytes \<Rightarrow> u64" where
  "name_map_hash nm key = nm_hash_builder nm key"

text \<open>
  The \<open>while let\<close> loop of \<open>NameMap::get\<close>. The fuel bounds the chain length; the chain
  visits strictly decreasing arena indices, so one unit per entry is enough
  (\<open>chain_get_last_idx\<close>).
\<close>

fun chain_get :: "nat \<Rightarrow> name_map_entry list \<Rightarrow> bytes \<Rightarrow> nat option \<Rightarrow> u16 option" where
  "chain_get 0 es key cur = None"
| "chain_get (Suc fuel) es key None = None"
| "chain_get (Suc fuel) es key (Some index) =
     (if index < length es then
        (if nme_key (es ! index) = key then Some (nme_offset (es ! index))
         else chain_get fuel es key (nme_next (es ! index)))
      else None)"

definition name_map_get :: "name_map \<Rightarrow> bytes \<Rightarrow> u16 option" where
  "name_map_get nm key =
     chain_get (Suc (length (nm_entries nm))) (nm_entries nm) key
       (nm_heads nm (name_map_hash nm key))"

definition name_map_insert :: "name_map \<Rightarrow> bytes \<Rightarrow> u16 \<Rightarrow> name_map" where
  "name_map_insert nm key offset =
     (let hash = name_map_hash nm key;
          next = nm_heads nm hash;
          entry = \<lparr>nme_key = key, nme_offset = offset, nme_next = next\<rparr>
      in nm\<lparr>nm_heads := (nm_heads nm)(hash \<mapsto> nm_active nm),
            nm_entries :=
              (if nm_active nm < length (nm_entries nm)
               then (nm_entries nm)[nm_active nm := entry]
               else nm_entries nm @ [entry]),
            nm_active := Suc (nm_active nm)\<rparr>)"

definition name_map_clear :: "name_map \<Rightarrow> name_map" where
  "name_map_clear nm =
     (if length (nm_entries nm) > MAX_RETAINED_NAME_ENTRIES
      then nm\<lparr>nm_entries := [], nm_heads := Map.empty, nm_active := 0\<rparr>
      else nm\<lparr>nm_heads := Map.empty, nm_active := 0\<rparr>)"

definition name_map_is_empty :: "name_map \<Rightarrow> bool" where
  "name_map_is_empty nm \<longleftrightarrow> nm_active nm = 0"

section \<open>Invariant\<close>

text \<open>\<open>last_idx P n\<close> is the greatest index below \<open>n\<close> that satisfies \<open>P\<close>.\<close>

fun last_idx :: "(nat \<Rightarrow> bool) \<Rightarrow> nat \<Rightarrow> nat option" where
  "last_idx P 0 = None"
| "last_idx P (Suc n) = (if P n then Some n else last_idx P n)"

text \<open>
  Every chain head is the newest active entry of its hash, and every active entry links to
  the next older one of the same hash. Slots from \<open>nm_active\<close> on are leftovers of an
  earlier message and are not reachable.
\<close>

definition name_map_inv :: "name_map \<Rightarrow> bool" where
  "name_map_inv nm \<longleftrightarrow>
     nm_active nm \<le> length (nm_entries nm) \<and>
     (\<forall>h. nm_heads nm h =
        last_idx (\<lambda>i. name_map_hash nm (nme_key (nm_entries nm ! i)) = h) (nm_active nm)) \<and>
     (\<forall>i < nm_active nm. nme_next (nm_entries nm ! i) =
        last_idx (\<lambda>j. name_map_hash nm (nme_key (nm_entries nm ! j)) =
                      name_map_hash nm (nme_key (nm_entries nm ! i))) i)"

lemma last_idx_cong: "(\<And>i. i < n \<Longrightarrow> P i = Q i) \<Longrightarrow> last_idx P n = last_idx Q n"
  by (induction n) auto

lemma last_idx_lt: "last_idx P n = Some i \<Longrightarrow> i < n"
  by (induction n) (auto split: if_splits simp: less_Suc_eq)

lemma last_idx_sat: "last_idx P n = Some i \<Longrightarrow> P i"
  by (induction n) (auto split: if_splits)

text \<open>Searching a narrower predicate can resume below the greatest hit of a wider one.\<close>

lemma last_idx_resume:
  assumes "\<And>i. Q i \<Longrightarrow> P i" and "last_idx P n = Some i"
  shows "last_idx Q n = (if Q i then Some i else last_idx Q i)"
  using assms(2) by (induction n) (auto split: if_splits dest: assms(1))

lemma last_idx_None_mono:
  assumes "\<And>i. Q i \<Longrightarrow> P i" and "last_idx P n = None"
  shows "last_idx Q n = None"
  using assms(2) by (induction n) (auto split: if_splits dest: assms(1))

lemma last_idx_map_of:
  "n \<le> length es \<Longrightarrow>
   map_option (\<lambda>i. nme_offset (es ! i)) (last_idx (\<lambda>i. nme_key (es ! i) = key) n) =
   map_of (rev (map (\<lambda>e. (nme_key e, nme_offset e)) (take n es))) key"
  by (induction n) (auto simp: take_Suc_conv_app_nth)

section \<open>Refinement to a map\<close>

definition name_map_abs :: "name_map \<Rightarrow> bytes \<rightharpoonup> u16" where
  "name_map_abs nm =
     map_of (rev (map (\<lambda>e. (nme_key e, nme_offset e)) (take (nm_active nm) (nm_entries nm))))"

lemma chain_get_last_idx:
  fixes es key hb
  defines "P \<equiv> \<lambda>i. hb (nme_key (es ! i)) = hb key"
  assumes links: "\<And>i. i < m \<Longrightarrow> nme_next (es ! i) =
            last_idx (\<lambda>j. hb (nme_key (es ! j)) = hb (nme_key (es ! i))) i"
    and m: "m \<le> length es"
  shows "n \<le> m \<Longrightarrow> n < fuel \<Longrightarrow>
     chain_get fuel es key (last_idx P n) =
     map_option (\<lambda>i. nme_offset (es ! i)) (last_idx (\<lambda>i. nme_key (es ! i) = key) n)"
proof (induction fuel arbitrary: n)
  case (Suc fuel)
  let ?Q = "\<lambda>i. nme_key (es ! i) = key"
  have QP: "\<And>i. ?Q i \<Longrightarrow> P i" by (simp add: P_def)
  show ?case
  proof (cases "last_idx P n")
    case None
    with last_idx_None_mono [of ?Q P n] QP show ?thesis by simp
  next
    case (Some i)
    then have i: "i < n" "P i" by (auto dest: last_idx_lt last_idx_sat)
    show ?thesis
    proof (cases "?Q i")
      case True
      with Some i m Suc.prems show ?thesis
        by (simp add: last_idx_resume [OF QP Some])
    next
      case False
      have nxt: "nme_next (es ! i) = last_idx P i"
        using links [of i] i Suc.prems by (simp add: P_def)
      have "chain_get fuel es key (last_idx P i) =
          map_option (\<lambda>i. nme_offset (es ! i)) (last_idx ?Q i)"
        using Suc.prems i by (intro Suc.IH) auto
      with False Some i m Suc.prems nxt show ?thesis
        by (simp add: last_idx_resume [OF QP Some])
    qed
  qed
qed simp

lemma name_map_get_abs: "name_map_inv nm \<Longrightarrow> name_map_get nm = name_map_abs nm"
proof (rule ext)
  fix key
  assume inv: "name_map_inv nm"
  have "name_map_get nm key =
      map_option (\<lambda>i. nme_offset (nm_entries nm ! i))
        (last_idx (\<lambda>i. nme_key (nm_entries nm ! i) = key) (nm_active nm))"
    using inv unfolding name_map_get_def name_map_inv_def name_map_hash_def
    by (auto simp del: chain_get.simps
        intro!: chain_get_last_idx [where m = "nm_active nm" and hb = "nm_hash_builder nm"])
  also have "\<dots> = name_map_abs nm key"
    using inv by (simp add: name_map_abs_def name_map_inv_def last_idx_map_of)
  finally show "name_map_get nm key = name_map_abs nm key" .
qed

lemma name_map_inv_default [wf_intros]: "name_map_inv (name_map_default hb)"
  by (simp add: name_map_inv_def name_map_default_def)

lemma name_map_inv_clear: "name_map_inv (name_map_clear nm)"
  by (simp add: name_map_inv_def name_map_clear_def)

lemma name_map_insert_nth:
  assumes "nm_active nm \<le> length (nm_entries nm)" and "i \<le> nm_active nm"
  shows "nm_entries (name_map_insert nm key off) ! i =
     (if i = nm_active nm
      then \<lparr>nme_key = key, nme_offset = off, nme_next = nm_heads nm (name_map_hash nm key)\<rparr>
      else nm_entries nm ! i)"
  using assms by (auto simp: name_map_insert_def Let_def nth_append)

lemma name_map_inv_insert:
  assumes inv: "name_map_inv nm"
  shows "name_map_inv (name_map_insert nm key off)"
proof -
  let ?nm = "name_map_insert nm key off"
  have act: "nm_active nm \<le> length (nm_entries nm)"
    using inv by (simp add: name_map_inv_def)
  have hash: "name_map_hash ?nm = name_map_hash nm"
    by (simp add: name_map_insert_def name_map_hash_def Let_def fun_eq_iff)
  have act': "nm_active ?nm = Suc (nm_active nm)" "nm_active ?nm \<le> length (nm_entries ?nm)"
    using act by (auto simp: name_map_insert_def Let_def)
  have old: "\<And>i. i < nm_active nm \<Longrightarrow> nm_entries ?nm ! i = nm_entries nm ! i"
    and new: "nm_entries ?nm ! nm_active nm =
        \<lparr>nme_key = key, nme_offset = off, nme_next = nm_heads nm (name_map_hash nm key)\<rparr>"
    using act by (simp_all add: name_map_insert_nth)
  have same: "last_idx (\<lambda>j. name_map_hash nm (nme_key (nm_entries ?nm ! j)) = h) n =
      last_idx (\<lambda>j. name_map_hash nm (nme_key (nm_entries nm ! j)) = h) n"
    if "n \<le> nm_active nm" for h n
    using that by (intro last_idx_cong) (simp add: old)
  have heads: "nm_heads ?nm h =
      last_idx (\<lambda>i. name_map_hash ?nm (nme_key (nm_entries ?nm ! i)) = h) (nm_active ?nm)" for h
  proof (cases "h = name_map_hash nm key")
    case True
    have "nm_heads ?nm h = Some (nm_active nm)"
      using True by (simp add: name_map_insert_def Let_def)
    with True show ?thesis by (simp add: act' hash new)
  next
    case False
    then have "nm_heads ?nm h = nm_heads nm h"
      by (auto simp: name_map_insert_def Let_def)
    also have "\<dots> = last_idx (\<lambda>i. name_map_hash nm (nme_key (nm_entries nm ! i)) = h)
        (nm_active nm)"
      using inv by (simp add: name_map_inv_def)
    finally show ?thesis using False by (simp add: act' hash new same)
  qed
  have links: "nme_next (nm_entries ?nm ! i) =
      last_idx (\<lambda>j. name_map_hash ?nm (nme_key (nm_entries ?nm ! j)) =
                    name_map_hash ?nm (nme_key (nm_entries ?nm ! i))) i"
    if "i < nm_active ?nm" for i
  proof (cases "i = nm_active nm")
    case True
    have "nme_next (nm_entries ?nm ! i) = last_idx
        (\<lambda>j. name_map_hash nm (nme_key (nm_entries nm ! j)) = name_map_hash nm key) i"
      using inv True by (simp add: new name_map_inv_def)
    then show ?thesis using same [of i] True by (simp add: new hash)
  next
    case False
    with that act' have i: "i < nm_active nm" by simp
    then have "nme_next (nm_entries ?nm ! i) = nme_next (nm_entries nm ! i)"
      by (simp add: old)
    also have "\<dots> = last_idx (\<lambda>j. name_map_hash nm (nme_key (nm_entries nm ! j)) =
        name_map_hash nm (nme_key (nm_entries nm ! i))) i"
      using inv i by (simp add: name_map_inv_def)
    finally show ?thesis using same [of i] i by (simp add: old hash)
  qed
  show ?thesis
    unfolding name_map_inv_def using act' heads links by blast
qed

lemma name_map_abs_insert:
  assumes "name_map_inv nm"
  shows "name_map_abs (name_map_insert nm key off) = (name_map_abs nm)(key \<mapsto> off)"
  using assms
  by (auto simp: name_map_abs_def name_map_insert_def name_map_inv_def Let_def
      take_Suc_conv_app_nth nth_append)

interpretation nm: offset_table name_map_inv name_map_get name_map_insert name_map_clear
  name_map_is_empty
proof unfold_locales
  fix t k v
  assume inv: "name_map_inv t"
  show ins: "name_map_inv (name_map_insert t k v)"
    using inv by (rule name_map_inv_insert)
  show "name_map_get (name_map_insert t k v) = (name_map_get t)(k \<mapsto> v)"
    using inv ins by (simp add: name_map_get_abs name_map_abs_insert)
  show clr: "name_map_inv (name_map_clear t)"
    by (rule name_map_inv_clear)
  show "name_map_get (name_map_clear t) = Map.empty"
    by (simp add: name_map_get_abs [OF clr]) (simp add: name_map_abs_def name_map_clear_def)
  show "name_map_is_empty (name_map_clear t)"
    by (simp add: name_map_is_empty_def name_map_clear_def)
  show "name_map_is_empty t \<Longrightarrow> name_map_get t = Map.empty"
    by (simp add: name_map_get_abs [OF inv]) (simp add: name_map_abs_def name_map_is_empty_def)
qed

lemma name_map_get_default [simp]: "name_map_get (name_map_default hb) = Map.empty"
  by (rule nm.emp_get [OF name_map_inv_default])
    (simp add: name_map_is_empty_def name_map_default_def)

end
