(* ===== verification/Wire.thy ===== *)
theory Wire
  imports NameMap
begin

text \<open>
  \<open>onetdns-proto/src/wire.rs\<close> and the error type of \<open>onetdns-proto/src/lib.rs\<close>: the
  bounds-checked byte cursor every parser reads through and the fail-once encoding buffer
  every encoder writes through. A fallible method of the cursor returns its result
  together with the cursor it leaves behind, also on the error path, as the Rust method
  does through its mutable reference.
\<close>

section \<open>Errors\<close>

text \<open>
  \<open>ProtoError\<close>. The message strings of the source are named by constructors, one per
  literal: those of \<open>ProtoError::Name\<close>, those of the SVCB parameter check, those a writer
  fails with (\<open>SvcbDisplayed\<close> is the rendering of an SVCB error that \<open>RData::encode\<close> passes
  to \<open>fail\<close>) and the other \<open>ProtoError::Message\<close> strings.
\<close>

datatype name_reason =
    LabelLength | NameTooLong | EscapeValue | EscapeUnfinished | EmptyLabel
  | PointerLoop | BadPointer | ReservedLabelBits | UncompressedLabel | RdataLength

datatype svcb_reason =
    SvcbOrder | SvcbReservedKey | SvcbMandatoryShape | SvcbMandatoryList | SvcbAlpnLength
  | SvcbAlpnEmpty | SvcbNoDefaultAlpn | SvcbPort | SvcbIpv4Hint | SvcbIpv6Hint

datatype write_reason =
    LengthArithmetic | WireLimit nat | PlaceholderArithmetic | PlaceholderRange
  | RdataLengthRange | RdataTooLong | CanonicalKeyTooLong | CharStringTooLong
  | TxtChunkTooLong | CaaTagTooLong | SvcbParamTooLong | SvcbDisplayed svcb_reason

datatype msg_reason =
    Writing write_reason | SvcbInvalid svcb_reason | UnsupportedRdata u16
  | MessageTooLong | SectionCounts | OptPlacement | TrailingBytes | DuplicateOpt
  | EncoderNotEmpty | OpcodeRange | RcodeRange | TooManyQuestions | TooManyAnswers
  | TooManyAuthorities | TooManyAdditionals | TypeMismatch u16 u16 | OptOwner | NotOpt
  | BadOptRdata | OptionHeader | OptionArithmetic | OptionData | OptionTooLong u16
  | OptionsTooLong

datatype proto_error = Eof | NameError name_reason | MessageError msg_reason

section \<open>Reader\<close>

record reader =
  rd_buf :: bytes
  rd_pos :: nat
  rd_limit :: nat

type_synonym 'a rd = "reader \<Rightarrow> (proto_error + 'a) \<times> reader"

text \<open>The \<open>?\<close> operator: stop at the first error, keeping the cursor where it is.\<close>

definition rd_return :: "'a \<Rightarrow> 'a rd" where
  "rd_return x r = (Inr x, r)"

definition rd_fail :: "proto_error \<Rightarrow> 'a rd" where
  "rd_fail e r = (Inl e, r)"

definition rd_bind :: "'a rd \<Rightarrow> ('a \<Rightarrow> 'b rd) \<Rightarrow> 'b rd" where
  "rd_bind m f r = (case m r of (Inl e, r') \<Rightarrow> (Inl e, r') | (Inr x, r') \<Rightarrow> f x r')"

definition reader_new :: "bytes \<Rightarrow> reader" where
  "reader_new buf = \<lparr>rd_buf = buf, rd_pos = 0, rd_limit = length buf\<rparr>"

definition rd_u8 :: "u8 rd" where
  "rd_u8 r =
     (if rd_pos r \<ge> rd_limit r then (Inl Eof, r)
      else if rd_pos r < length (rd_buf r)
      then (Inr (rd_buf r ! rd_pos r), r\<lparr>rd_pos := rd_pos r + 1\<rparr>)
      else (Inl Eof, r))"

definition rd_u16 :: "u16 rd" where
  "rd_u16 = rd_bind rd_u8 (\<lambda>hi. rd_bind rd_u8 (\<lambda>lo. rd_return (u16_from_be_bytes hi lo)))"

definition rd_u32 :: "u32 rd" where
  "rd_u32 = rd_bind rd_u16 (\<lambda>a. rd_bind rd_u16 (\<lambda>b. rd_return (u32_from_halves a b)))"

definition rd_bytes :: "nat \<Rightarrow> bytes rd" where
  "rd_bytes n r =
     (let end = rd_pos r + n in
      if end > rd_limit r then (Inl Eof, r)
      else if end \<le> length (rd_buf r)
      then (Inr (slice (rd_buf r) (rd_pos r) end), r\<lparr>rd_pos := end\<rparr>)
      else (Inl Eof, r))"

definition remaining :: "reader \<Rightarrow> nat" where
  "remaining r = rd_limit r - rd_pos r"

text \<open>The invariant the struct's documentation states.\<close>

definition reader_wf :: "reader \<Rightarrow> bool" where
  "reader_wf r \<longleftrightarrow> rd_pos r \<le> rd_limit r \<and> rd_limit r \<le> length (rd_buf r)"

section \<open>Writer\<close>

definition MAX_DNS_WIRE_LEN :: nat where
  "MAX_DNS_WIRE_LEN = 65535"

record writer =
  wr_buf :: bytes
  wr_names :: name_map
  wr_error :: "proto_error option"
  wr_limit :: nat

definition writer_new :: "(bytes \<Rightarrow> u64) \<Rightarrow> writer" where
  "writer_new hb =
     \<lparr>wr_buf = [], wr_names = name_map_default hb, wr_error = None, wr_limit = MAX_DNS_WIRE_LEN\<rparr>"

definition writer_with_limit :: "(bytes \<Rightarrow> u64) \<Rightarrow> nat \<Rightarrow> writer" where
  "writer_with_limit hb limit = (writer_new hb)\<lparr>wr_limit := min limit MAX_DNS_WIRE_LEN\<rparr>"

definition writer_clear :: "writer \<Rightarrow> writer" where
  "writer_clear w =
     w\<lparr>wr_buf := [], wr_names := name_map_clear (wr_names w), wr_error := None\<rparr>"

definition writer_fail :: "writer \<Rightarrow> write_reason \<Rightarrow> writer" where
  "writer_fail w m = (if wr_error w = None then w\<lparr>wr_error := Some (MessageError (Writing m))\<rparr> else w)"

definition is_failed :: "writer \<Rightarrow> bool" where
  "is_failed w \<longleftrightarrow> wr_error w \<noteq> None"

definition reserve_append :: "writer \<Rightarrow> nat \<Rightarrow> bool \<times> writer" where
  "reserve_append w additional =
     (if wr_error w \<noteq> None then (False, w)
      else case checked_add (length (wr_buf w)) additional of
        None \<Rightarrow> (False, writer_fail w LengthArithmetic)
      | Some total_len \<Rightarrow>
          if total_len > wr_limit w then (False, writer_fail w (WireLimit (wr_limit w)))
          else (True, w))"

definition push_u8 :: "writer \<Rightarrow> u8 \<Rightarrow> writer" where
  "push_u8 w v =
     (case reserve_append w 1 of (ok, w) \<Rightarrow> if ok then w\<lparr>wr_buf := wr_buf w @ [v]\<rparr> else w)"

definition push_u16 :: "writer \<Rightarrow> u16 \<Rightarrow> writer" where
  "push_u16 w v =
     (case reserve_append w 2 of (ok, w) \<Rightarrow>
        if ok then w\<lparr>wr_buf := wr_buf w @ u16_to_be_bytes v\<rparr> else w)"

definition push_u32 :: "writer \<Rightarrow> u32 \<Rightarrow> writer" where
  "push_u32 w v =
     (case reserve_append w 4 of (ok, w) \<Rightarrow>
        if ok then w\<lparr>wr_buf := wr_buf w @ u32_to_be_bytes v\<rparr> else w)"

definition push_bytes :: "writer \<Rightarrow> bytes \<Rightarrow> writer" where
  "push_bytes w b =
     (case reserve_append w (length b) of (ok, w) \<Rightarrow>
        if ok then w\<lparr>wr_buf := wr_buf w @ b\<rparr> else w)"

text \<open>The returned pair is the region the caller may overwrite.\<close>

definition reserve_block :: "writer \<Rightarrow> nat \<Rightarrow> (nat \<times> nat) option \<times> writer" where
  "reserve_block w additional =
     (case reserve_append w additional of (ok, w) \<Rightarrow>
        if \<not> ok then (None, w)
        else (let start = length (wr_buf w)
              in (Some (start, start + additional),
                  w\<lparr>wr_buf := wr_buf w @ replicate additional 0\<rparr>)))"

definition placeholder_u16 :: "writer \<Rightarrow> nat \<times> writer" where
  "placeholder_u16 w = (length (wr_buf w), push_u16 w 0)"

definition backpatch_len :: "writer \<Rightarrow> nat \<Rightarrow> writer" where
  "backpatch_len w at =
     (if wr_error w \<noteq> None then w
      else case checked_add at 2 of
        None \<Rightarrow> writer_fail w PlaceholderArithmetic
      | Some start \<Rightarrow>
          if \<not> start \<le> length (wr_buf w) then writer_fail w PlaceholderRange
          else if length (wr_buf w) < start then writer_fail w RdataLengthRange
          else (let len = length (wr_buf w) - start
                in if len \<ge> 65536 then writer_fail w RdataTooLong
                   else w\<lparr>wr_buf := take at (wr_buf w) @ u16_to_be_bytes (of_nat len) @
                                    drop start (wr_buf w)\<rparr>))"

definition writer_finish :: "writer \<Rightarrow> proto_error + bytes" where
  "writer_finish w = (case wr_error w of Some e \<Rightarrow> Inl e | None \<Rightarrow> Inr (wr_buf w))"

section \<open>Facts about the reader\<close>

lemma rd_bind_Inr: "m r = (Inr x, r') \<Longrightarrow> rd_bind m f r = f x r'"
  by (simp add: rd_bind_def)

lemma rd_bind_Inl: "m r = (Inl e, r') \<Longrightarrow> rd_bind m f r = (Inl e, r')"
  by (simp add: rd_bind_def)

lemma rd_bind_InrE:
  assumes "rd_bind m f r = (Inr y, r'')"
  obtains x r' where "m r = (Inr x, r')" and "f x r' = (Inr y, r'')"
  using assms by (auto simp: rd_bind_def split: prod.splits sum.splits)

lemma rd_return_eq [simp]: "rd_return x r = (Inr x, r)"
  by (simp add: rd_return_def)

lemma rd_fail_eq [simp]: "rd_fail e r = (Inl e, r)"
  by (simp add: rd_fail_def)

text \<open>\<open>bytes_at buf p bs\<close>: the bytes \<open>bs\<close> stand in \<open>buf\<close> at position \<open>p\<close>.\<close>

definition bytes_at :: "bytes \<Rightarrow> nat \<Rightarrow> bytes \<Rightarrow> bool" where
  "bytes_at buf p bs \<longleftrightarrow> p + length bs \<le> length buf \<and> slice buf p (p + length bs) = bs"

lemma bytes_at_append [simp]:
  "bytes_at buf p (xs @ ys) \<longleftrightarrow> bytes_at buf p xs \<and> bytes_at buf (p + length xs) ys"
proof -
  have "take (length xs + length ys) (drop p buf) =
      take (length xs) (drop p buf) @ take (length ys) (drop (p + length xs) buf)"
    by (simp add: take_add add.commute)
  then show ?thesis
    by (auto simp: bytes_at_def slice_def add.assoc append_eq_append_conv)
qed

lemma bytes_at_Nil [simp]: "bytes_at buf p [] \<longleftrightarrow> p \<le> length buf"
  by (simp add: bytes_at_def slice_def)

lemma bytes_at_Cons:
  "bytes_at buf p (x # xs) \<longleftrightarrow> p < length buf \<and> buf ! p = x \<and> bytes_at buf (Suc p) xs"
proof -
  have "bytes_at buf p [x] \<longleftrightarrow> p < length buf \<and> buf ! p = x"
    by (auto simp: bytes_at_def slice_def take_Suc_conv_app_nth)
  then show ?thesis using bytes_at_append [of buf p "[x]" xs] by simp
qed

lemma bytes_at_mid [simp]: "bytes_at (xs @ ys @ zs) (length xs) ys"
  by (simp add: bytes_at_def)

lemma bytes_at_end [simp]: "bytes_at (xs @ ys) (length xs) ys"
  by (simp add: bytes_at_def slice_def)

lemma bytes_at_extend: "bytes_at buf p bs \<Longrightarrow> bytes_at (buf @ rest) p bs"
  by (simp add: bytes_at_def slice_append1)

lemma bytes_at_u16: 
  "bytes_at buf p (u16_to_be_bytes v) \<longleftrightarrow> Suc p < length buf \<and>
     buf ! p = ucast (drop_bit 8 v) \<and> buf ! Suc p = ucast v"
  by (auto simp: u16_to_be_bytes_def bytes_at_Cons)

text \<open>
  \<open>decodes m buf p q x\<close>: started at \<open>p\<close> with any limit that leaves room, \<open>m\<close> reads \<open>x\<close> and
  stops at \<open>q\<close>. The relation composes along \<open>?\<close>, so a codec is read back field by field.
\<close>

definition decodes :: "'a rd \<Rightarrow> bytes \<Rightarrow> nat \<Rightarrow> nat \<Rightarrow> 'a \<Rightarrow> bool" where
  "decodes m buf p q x \<longleftrightarrow> p \<le> q \<and>
     (\<forall>lim \<ge> q. m \<lparr>rd_buf = buf, rd_pos = p, rd_limit = lim\<rparr> =
        (Inr x, \<lparr>rd_buf = buf, rd_pos = q, rd_limit = lim\<rparr>))"

lemma decodes_le: "decodes m buf p q x \<Longrightarrow> p \<le> q"
  by (simp add: decodes_def)

lemma decodesD:
  "decodes m buf p q x \<Longrightarrow> rd_buf r = buf \<Longrightarrow> rd_pos r = p \<Longrightarrow> q \<le> rd_limit r \<Longrightarrow>
   m r = (Inr x, r\<lparr>rd_pos := q\<rparr>)"
  by (cases r) (simp add: decodes_def)

lemma decodes_bind:
  assumes "decodes m buf p q x" and "decodes (f x) buf q s y"
  shows "decodes (rd_bind m f) buf p s y"
  using assms by (auto simp: decodes_def rd_bind_def)

lemma decodes_return: "decodes (rd_return x) buf p p x"
  by (simp add: decodes_def)

lemma decodes_u8: "bytes_at buf p [v] \<Longrightarrow> q = p + 1 \<Longrightarrow> decodes rd_u8 buf p q v"
  by (simp add: decodes_def rd_u8_def bytes_at_Cons)

lemma decodes_u16: "bytes_at buf p (u16_to_be_bytes v) \<Longrightarrow> q = p + 2 \<Longrightarrow> decodes rd_u16 buf p q v"
  by (simp add: decodes_def rd_u16_def rd_bind_def rd_u8_def bytes_at_u16)

lemma decodes_u32: "bytes_at buf p (u32_to_be_bytes v) \<Longrightarrow> q = p + 4 \<Longrightarrow> decodes rd_u32 buf p q v"
  unfolding rd_u32_def
  by (rule decodes_bind [OF decodes_u16 [where v = "ucast (drop_bit 16 v)"]
        decodes_bind [OF decodes_u16 [where v = "ucast v" and q = q]]])
    (simp_all add: u32_to_be_split decodes_def)

lemma decodes_bytes:
  "bytes_at buf p bs \<Longrightarrow> n = length bs \<Longrightarrow> q = p + n \<Longrightarrow> decodes (rd_bytes n) buf p q bs"
  by (simp add: decodes_def rd_bytes_def bytes_at_def Let_def)

text \<open>What every reading step keeps: the buffer, the limit and the invariant; it only advances.\<close>

definition advances :: "reader \<Rightarrow> reader \<Rightarrow> bool" where
  "advances r r' \<longleftrightarrow> rd_buf r' = rd_buf r \<and> rd_limit r' = rd_limit r \<and> rd_pos r \<le> rd_pos r' \<and>
     (reader_wf r \<longrightarrow> reader_wf r')"

lemma advances_refl [simp]: "advances r r"
  by (simp add: advances_def)

lemma advances_trans [trans]: "advances r s \<Longrightarrow> advances s t \<Longrightarrow> advances r t"
  by (auto simp: advances_def)

definition advancing :: "'a rd \<Rightarrow> bool" where
  "advancing m \<longleftrightarrow> (\<forall>r. advances r (snd (m r)))"

lemma advancingD: "advancing m \<Longrightarrow> m r = (x, r') \<Longrightarrow> advances r r'"
  unfolding advancing_def by (metis snd_conv)

lemma advancing_bind [wf_intros]:
  assumes "advancing m" and "\<And>x. advancing (f x)"
  shows "advancing (rd_bind m f)"
  unfolding advancing_def
proof
  fix r
  obtain res r' where m: "m r = (res, r')" by (cases "m r")
  have r': "advances r r'" using assms(1) m by (rule advancingD)
  show "advances r (snd (rd_bind m f r))"
  proof (cases res)
    case (Inr x)
    have "advances r' (snd (f x r'))" using assms(2) by (simp add: advancing_def)
    with r' show ?thesis by (auto simp: rd_bind_def m Inr intro: advances_trans)
  qed (simp add: rd_bind_def m r')
qed

lemma advancing_basic [wf_intros]:
  "advancing (rd_return x)" "advancing (rd_fail e)" "advancing rd_u8" "advancing (rd_bytes n)"
  by (auto simp: advancing_def advances_def rd_u8_def rd_bytes_def Let_def reader_wf_def)

lemma advancing_u16 [wf_intros]: "advancing rd_u16"
  unfolding rd_u16_def by (intro wf_intros)

lemma advancing_u32 [wf_intros]: "advancing rd_u32"
  unfolding rd_u32_def by (intro wf_intros)

section \<open>Facts about the writer\<close>

text \<open>
  The invariant: a consistent offset table and \<open>buf.len() <= limit <= 65535\<close>. A writer
  that has not failed and satisfies it is \<open>live\<close>.
\<close>

definition writer_wf :: "writer \<Rightarrow> bool" where
  "writer_wf w \<longleftrightarrow> name_map_inv (wr_names w) \<and> length (wr_buf w) \<le> wr_limit w \<and>
     wr_limit w \<le> MAX_DNS_WIRE_LEN"

lemma writer_wf_small: "writer_wf w \<Longrightarrow> wr_limit w < 2 ^ 64"
  by (simp add: writer_wf_def MAX_DNS_WIRE_LEN_def)

lemma reserve_append_cases:
  assumes "writer_wf w"
  shows "(wr_error w = None \<and> length (wr_buf w) + n \<le> wr_limit w \<and> reserve_append w n = (True, w)) \<or>
     (\<exists>e. reserve_append w n = (False, w\<lparr>wr_error := Some e\<rparr>) \<and>
          (wr_error w = None \<longrightarrow> wr_limit w < length (wr_buf w) + n) \<and>
          (wr_error w \<noteq> None \<longrightarrow> wr_error w = Some e))"
proof (cases "wr_error w")
  case None
  with writer_wf_small [OF assms] show ?thesis
    by (auto simp: reserve_append_def checked_add_def writer_fail_def)
qed (auto simp: reserve_append_def intro!: writer.equality)

lemma push_as_bytes:
  "push_u8 w v = push_bytes w [v]"
  "push_u16 w a = push_bytes w (u16_to_be_bytes a)"
  "push_u32 w b = push_bytes w (u32_to_be_bytes b)"
  by (simp_all add: push_u8_def push_u16_def push_u32_def push_bytes_def)

lemma push_bytes_ok:
  assumes "writer_wf w"
  shows "wr_error (push_bytes w b) = None \<longleftrightarrow>
     wr_error w = None \<and> length (wr_buf w) + length b \<le> wr_limit w"
  using reserve_append_cases [OF assms, of "length b"] by (auto simp: push_bytes_def)

lemma push_bytes_eq:
  assumes "writer_wf w" and "wr_error (push_bytes w b) = None"
  shows "push_bytes w b = w\<lparr>wr_buf := wr_buf w @ b\<rparr>"
  using reserve_append_cases [OF assms(1), of "length b"] assms(2)
  by (auto simp: push_bytes_def)

lemma push_bytes_names [simp]: "wr_names (push_bytes w b) = wr_names w"
  by (simp add: push_bytes_def reserve_append_def writer_fail_def split: option.split)

lemma push_bytes_limit [simp]: "wr_limit (push_bytes w b) = wr_limit w"
  by (simp add: push_bytes_def reserve_append_def writer_fail_def split: option.split)

lemma push_bytes_wf [wf_intros]:
  assumes "writer_wf w" shows "writer_wf (push_bytes w b)"
  using reserve_append_cases [OF assms, of "length b"] assms
  by (auto simp: push_bytes_def writer_wf_def)

lemma push_wf [wf_intros]:
  "writer_wf w \<Longrightarrow> writer_wf (push_u8 w a)"
  "writer_wf w \<Longrightarrow> writer_wf (push_u16 w b)"
  "writer_wf w \<Longrightarrow> writer_wf (push_u32 w c)"
  by (simp_all add: push_as_bytes push_bytes_wf)

lemma writer_fail_wf [wf_intros]: "writer_wf w \<Longrightarrow> writer_wf (writer_fail w m)"
  by (simp add: writer_fail_def writer_wf_def)

lemma writer_fail_error [simp]: "wr_error (writer_fail w m) \<noteq> None"
  by (simp add: writer_fail_def)

lemma backpatch_len_length [simp]: "length (wr_buf (backpatch_len w at)) = length (wr_buf w)"
  by (auto simp: backpatch_len_def writer_fail_def Let_def checked_add_def split: option.split)

lemma backpatch_len_rest [simp]:
  "wr_names (backpatch_len w at) = wr_names w" "wr_limit (backpatch_len w at) = wr_limit w"
  by (auto simp: backpatch_len_def writer_fail_def Let_def split: option.split)

lemma backpatch_len_wf [wf_intros]: "writer_wf w \<Longrightarrow> writer_wf (backpatch_len w at)"
  by (simp add: writer_wf_def)

lemma backpatch_len_eq:
  assumes "wr_error (backpatch_len w at) = None"
  shows "wr_error w = None" and "at + 2 \<le> length (wr_buf w)"
    and "length (wr_buf w) - (at + 2) < 65536"
    and "backpatch_len w at =
      w\<lparr>wr_buf := take at (wr_buf w) @ u16_to_be_bytes (of_nat (length (wr_buf w) - (at + 2))) @
                 drop (at + 2) (wr_buf w)\<rparr>"
  using assms
  by (auto simp: backpatch_len_def writer_fail_def Let_def checked_add_def
      split: option.splits if_splits)

lemma writer_new_wf [wf_intros]: "writer_wf (writer_new hb)"
  by (simp add: writer_wf_def writer_new_def wf_intros)

lemma writer_with_limit_wf [wf_intros]: "writer_wf (writer_with_limit hb n)"
  by (simp add: writer_wf_def writer_with_limit_def writer_new_def wf_intros)

lemma writer_clear_wf [wf_intros]: "writer_wf w \<Longrightarrow> writer_wf (writer_clear w)"
  by (simp add: writer_wf_def writer_clear_def nm.inv_clr)

text \<open>
  Errors are sticky: a failed writer is left alone by every writing operation, so a writer
  that is live at the end was live throughout.
\<close>

lemma push_bytes_failed: "wr_error w \<noteq> None \<Longrightarrow> push_bytes w b = w"
  by (simp add: push_bytes_def reserve_append_def)

lemma push_failed:
  assumes "wr_error w \<noteq> None"
  shows "push_u8 w a = w" and "push_u16 w c = w" and "push_u32 w d = w"
    and "push_bytes w b = w" and "backpatch_len w at = w" and "writer_fail w m = w"
    and "reserve_block w n = (None, w)"
  using assms
  by (auto simp: push_as_bytes push_bytes_failed backpatch_len_def writer_fail_def
      reserve_block_def reserve_append_def)

section \<open>Runs of a writer\<close>

text \<open>
  Every way a caller can drive a writer through its public writing methods, starting from a
  fresh one; \<open>clear\<close> begins the next message.
\<close>

inductive writer_step :: "writer \<Rightarrow> writer \<Rightarrow> bool" where
  step_u8: "writer_step w (push_u8 w a)"
| step_u16: "writer_step w (push_u16 w b)"
| step_u32: "writer_step w (push_u32 w c)"
| step_bytes: "writer_step w (push_bytes w bs)"
| step_block: "writer_step w (snd (reserve_block w n))"
| step_placeholder: "writer_step w (snd (placeholder_u16 w))"
| step_backpatch: "writer_step w (backpatch_len w at)"
| step_fail: "writer_step w (writer_fail w m)"

lemma reserve_block_wf [wf_intros]:
  assumes "writer_wf w" shows "writer_wf (snd (reserve_block w n))"
  using reserve_append_cases [OF assms, of n] assms
  by (auto simp: reserve_block_def writer_wf_def Let_def)

lemma writer_step_wf: "writer_step w w' \<Longrightarrow> writer_wf w \<Longrightarrow> writer_wf w'"
  by (induction rule: writer_step.induct) (auto simp: placeholder_u16_def intro: wf_intros)

lemma writer_step_failed: "writer_step w w' \<Longrightarrow> wr_error w \<noteq> None \<Longrightarrow> w' = w"
  by (induction rule: writer_step.induct) (auto simp: placeholder_u16_def push_failed)

lemma writer_steps_wf: "writer_step\<^sup>*\<^sup>* w w' \<Longrightarrow> writer_wf w \<Longrightarrow> writer_wf w'"
  by (induction rule: rtranclp_induct) (auto dest: writer_step_wf)

lemma writer_steps_failed: "writer_step\<^sup>*\<^sup>* w w' \<Longrightarrow> wr_error w \<noteq> None \<Longrightarrow> w' = w"
  by (induction rule: converse_rtranclp_induct) (auto dest: writer_step_failed)

end
