(* ===== verification/Name.thy ===== *)
theory Name
  imports Wire
begin

text \<open>
  Domain names, \<open>onetdns-proto/src/name.rs\<close>: the label iterator, construction from text,
  labels and wire bytes, the case-insensitive operations, and the compressing encoder with
  its pointer-following parser. A name is its uncompressed wire form; the specification
  side of this theory reads it as a list of labels (\<open>wire_of\<close>, \<open>labels_ok\<close>) and the lemmas
  show each operation to be the expected operation on label lists.
\<close>

section \<open>Model\<close>

definition MAX_JUMPS :: nat where "MAX_JUMPS = 20"
definition MAX_NAME_LEN :: nat where "MAX_NAME_LEN = 255"

subsection \<open>The label iterator\<close>

record labels =
  lb_wire :: bytes
  lb_front :: nat
  lb_back :: nat

definition labels_next :: "labels \<Rightarrow> bytes option \<times> labels" where
  "labels_next l =
     (if lb_front l \<ge> lb_back l then (None, l)
      else if \<not> lb_front l < length (lb_wire l) then (None, l)
      else (let len = unat (lb_wire l ! lb_front l);
                start = lb_front l + 1;
                end = start + len
            in if end > lb_back l then (None, l)
               else if \<not> end \<le> length (lb_wire l) then (None, l)
               else (Some (slice (lb_wire l) start end), l\<lparr>lb_front := end\<rparr>)))"

definition labels_first :: "labels \<Rightarrow> bytes option" where
  "labels_first l = fst (labels_next l)"

definition labels_is_empty :: "labels \<Rightarrow> bool" where
  "labels_is_empty l \<longleftrightarrow> lb_front l \<ge> lb_back l"

function labels_len_loop :: "bytes \<Rightarrow> nat \<Rightarrow> nat \<Rightarrow> nat \<Rightarrow> nat" where
  "labels_len_loop w back cursor count =
     (if cursor < back then
        (if cursor < length w
         then labels_len_loop w back (cursor + (unat (w ! cursor) + 1)) (count + 1)
         else count)
      else count)"
  by pat_completeness auto
termination
  by (relation "measure (\<lambda>(w, back, cursor, count). back - cursor)") auto

declare labels_len_loop.simps [simp del]

definition labels_len :: "labels \<Rightarrow> nat" where
  "labels_len l = labels_len_loop (lb_wire l) (lb_back l) (lb_front l) 0"

text \<open>The scan of \<open>next_back\<close>: the start of the last label before \<open>back\<close>.\<close>

function last_label_start :: "bytes \<Rightarrow> nat \<Rightarrow> nat \<Rightarrow> nat \<Rightarrow> nat option" where
  "last_label_start w back cursor prev =
     (if cursor < back then
        (if cursor < length w
         then last_label_start w back (cursor + (unat (w ! cursor) + 1)) cursor
         else None)
      else Some prev)"
  by pat_completeness auto
termination
  by (relation "measure (\<lambda>(w, back, cursor, prev). back - cursor)") auto

declare last_label_start.simps [simp del]

definition labels_next_back :: "labels \<Rightarrow> bytes option \<times> labels" where
  "labels_next_back l =
     (if lb_front l \<ge> lb_back l then (None, l)
      else case last_label_start (lb_wire l) (lb_back l) (lb_front l) (lb_front l) of
        None \<Rightarrow> (None, l)
      | Some lst \<Rightarrow>
          if \<not> lst < length (lb_wire l) then (None, l)
          else (let len = unat (lb_wire l ! lst); l' = l\<lparr>lb_back := lst\<rparr>
                in if lst + 1 + len \<le> length (lb_wire l)
                   then (Some (slice (lb_wire l) (lst + 1) (lst + 1 + len)), l')
                   else (None, l')))"

text \<open>What a \<open>for label in \<dots>\<close> loop visits.\<close>

lemma labels_next_progress:
  "labels_next l = (Some x, l') \<Longrightarrow>
   lb_front l < lb_front l' \<and> lb_front l' \<le> lb_back l \<and> lb_back l' = lb_back l"
  by (auto simp: labels_next_def Let_def split: if_splits)

function labels_list :: "labels \<Rightarrow> bytes list" where
  "labels_list l =
     (case labels_next l of (None, _) \<Rightarrow> [] | (Some x, l') \<Rightarrow> x # labels_list l')"
  by pat_completeness auto
termination
  by (relation "measure (\<lambda>l. lb_back l - lb_front l)")
    (auto dest!: sym [of _ "labels_next _"] labels_next_progress)

declare labels_list.simps [simp del]

subsection \<open>Names\<close>

record name =
  wire :: bytes

definition name_root :: name where
  "name_root = \<lparr>wire = [0]\<rparr>"

definition is_root :: "name \<Rightarrow> bool" where
  "is_root n \<longleftrightarrow> length (wire n) = 1"

definition name_labels :: "name \<Rightarrow> labels" where
  "name_labels n = \<lparr>lb_wire = wire n, lb_front = 0, lb_back = length (wire n) - 1\<rparr>"

definition num_labels :: "name \<Rightarrow> nat" where
  "num_labels n = labels_len (name_labels n)"

definition digit_value :: "u8 \<Rightarrow> nat" where
  "digit_value b = unat (b - 48)"

text \<open>The scanning loop of \<open>from_str\<close>, on the bytes not yet consumed.\<close>

function from_str_loop ::
    "bytes \<Rightarrow> bytes list \<Rightarrow> bytes \<Rightarrow> bool \<Rightarrow> proto_error + bytes list" where
  "from_str_loop [] labels current ended = Inr (if ended then labels else labels @ [current])"
| "from_str_loop (b # rest) labels current ended =
     (if b = 92 then
        (if 3 \<le> length rest \<and> list_all is_ascii_digit (take 3 rest) then
           (let value = foldl (\<lambda>acc d. acc * 10 + digit_value d) 0 (take 3 rest)
            in if value > 255 then Inl (NameError EscapeValue)
               else from_str_loop (drop 3 rest) labels (current @ [of_nat value]) False)
         else case rest of
           x # rest' \<Rightarrow> from_str_loop rest' labels (current @ [x]) False
         | [] \<Rightarrow> Inl (NameError EscapeUnfinished))
      else if b = 46 then from_str_loop rest (labels @ [current]) [] True
      else from_str_loop rest labels (current @ [b]) False)"
  by pat_completeness auto
termination
  by (relation "measure (\<lambda>(s, labels, current, ended). length s)") auto

definition from_labels :: "bytes list \<Rightarrow> proto_error + name" where
  "from_labels labels =
     (if list_ex (\<lambda>l. l = [] \<or> length l > 63) labels then Inl (NameError LabelLength)
      else if 1 + sum_list (map (\<lambda>l. length l + 1) labels) > MAX_NAME_LEN
      then Inl (NameError NameTooLong)
      else Inr \<lparr>wire = concat (map (\<lambda>l. of_nat (length l) # l) labels) @ [0]\<rparr>)"

definition from_str :: "bytes \<Rightarrow> proto_error + name" where
  "from_str s =
     (case from_str_loop s [] [] False of
        Inl e \<Rightarrow> Inl e
      | Inr labels \<Rightarrow>
          if labels = [] \<or> labels = [[]] then Inr name_root
          else if list_ex (\<lambda>l. l = []) labels then Inl (NameError EmptyLabel)
          else from_labels labels)"

text \<open>The bytes \<open>. \ " ( ) ; @ $\<close> that \<open>to_master_lower\<close> escapes.\<close>

definition master_special :: "u8 \<Rightarrow> bool" where
  "master_special b \<longleftrightarrow> b \<in> {46, 92, 34, 40, 41, 59, 64, 36}"

definition decimal3 :: "u8 \<Rightarrow> bytes" where
  "decimal3 b = map (\<lambda>d. of_nat (48 + d)) [unat b div 100, unat b div 10 mod 10, unat b mod 10]"

definition master_byte :: "u8 \<Rightarrow> bytes" where
  "master_byte b =
     (if master_special b then [92, b]
      else if 0x21 \<le> b \<and> b \<le> 0x7e then [to_ascii_lowercase b]
      else 92 # decimal3 b)"

fun join_labels :: "(bytes \<Rightarrow> bytes) \<Rightarrow> bytes list \<Rightarrow> bytes" where
  "join_labels f [] = []"
| "join_labels f [l] = f l"
| "join_labels f (l # ls) = f l @ 46 # join_labels f ls"

definition to_master_lower :: "name \<Rightarrow> bytes" where
  "to_master_lower n =
     join_labels (\<lambda>l. concat (map master_byte l)) (labels_list (name_labels n))"

definition canonical_key :: "name \<Rightarrow> bytes" where
  "canonical_key n =
     concat (map (\<lambda>l. of_nat (length l) # map to_ascii_lowercase l)
                 (labels_list (name_labels n))) @ [0]"

text \<open>
  \<open>out\<close> is the caller's buffer; the loop overwrites its beginning and the result is the
  slice of it the function returns.
\<close>

definition write_canonical_from :: "name \<Rightarrow> nat \<Rightarrow> bytes \<Rightarrow> bytes option" where
  "write_canonical_from n start out =
     (if \<not> start \<le> length (wire n) then None
      else (let needed = length (wire n) - start in
        if needed > length out then None
        else if length (wire n) = 0 then None
        else (let written =
                concat (map (\<lambda>l. of_nat (length l) # map to_ascii_lowercase l)
                  (labels_list \<lparr>lb_wire = wire n, lb_front = start, lb_back = length (wire n) - 1\<rparr>))
                @ [0]
              in Some (take needed (written @ drop (length written) out)))))"

definition canonical_key_into :: "name \<Rightarrow> bytes \<Rightarrow> bytes option" where
  "canonical_key_into n out = write_canonical_from n 0 out"

text \<open>
  Skipping \<open>k\<close> labels from an offset. \<open>None\<close> is \<open>get\<close> failing in
  \<open>canonical_suffix_key_into\<close> and the out-of-bounds panic of the indexing expression in
  \<open>suffix\<close> and \<open>ends_with_ignore_case\<close>.
\<close>

fun skip_labels :: "bytes \<Rightarrow> nat \<Rightarrow> nat \<Rightarrow> nat option" where
  "skip_labels w 0 start = Some start"
| "skip_labels w (Suc k) start =
     (if start < length w then skip_labels w k (start + unat (w ! start) + 1) else None)"

definition canonical_suffix_key_into :: "name \<Rightarrow> nat \<Rightarrow> bytes \<Rightarrow> bytes option" where
  "canonical_suffix_key_into n label_count out =
     (let tot = num_labels n; skip = tot - min label_count tot in
      case skip_labels (wire n) skip 0 of
        None \<Rightarrow> None
      | Some start \<Rightarrow> write_canonical_from n start out)"

definition to_ascii_lower_name :: "name \<Rightarrow> name" where
  "to_ascii_lower_name n =
     (if \<not> list_ex is_ascii_uppercase (wire n) then n
      else \<lparr>wire = map to_ascii_lowercase (wire n)\<rparr>)"

text \<open>\<open>None\<close> is the out-of-bounds panic.\<close>

definition name_suffix :: "name \<Rightarrow> nat \<Rightarrow> name option" where
  "name_suffix n k =
     (let tot = num_labels n; skip = tot - min k tot in
      case skip_labels (wire n) skip 0 of
        None \<Rightarrow> None
      | Some start \<Rightarrow>
          if start \<le> length (wire n) then Some \<lparr>wire = drop start (wire n)\<rparr> else None)"

definition eq_ignore_case :: "name \<Rightarrow> name \<Rightarrow> bool" where
  "eq_ignore_case a b \<longleftrightarrow> eq_ignore_ascii_case (wire a) (wire b)"

definition ends_with_ignore_case :: "name \<Rightarrow> name \<Rightarrow> bool option" where
  "ends_with_ignore_case n suffix =
     (let own_labels = num_labels n; suffix_labels = num_labels suffix in
      if own_labels < suffix_labels then Some False
      else case skip_labels (wire n) (own_labels - suffix_labels) 0 of
        None \<Rightarrow> None
      | Some start \<Rightarrow>
          if start \<le> length (wire n)
          then Some (eq_ignore_ascii_case (drop start (wire n)) (wire suffix))
          else None)"

function from_uncompressed_loop :: "bytes \<Rightarrow> nat \<Rightarrow> name option" where
  "from_uncompressed_loop bs pos =
     (if pos < length bs then
        (let len = unat (bs ! pos) in
         if len = 0 then
           (if pos + 1 = length bs
            then Some (if length bs = 1 then name_root else \<lparr>wire = bs\<rparr>) else None)
         else if bs ! pos AND 0xC0 \<noteq> 0 then None
         else from_uncompressed_loop bs (pos + 1 + len))
      else None)"
  by pat_completeness auto
termination
  by (relation "measure (\<lambda>(bs, pos). length bs - pos)") auto

declare from_uncompressed_loop.simps [simp del]

definition from_uncompressed_wire :: "bytes \<Rightarrow> name option" where
  "from_uncompressed_wire bs =
     (if bs = [] \<or> length bs > MAX_NAME_LEN then None else from_uncompressed_loop bs 0)"

subsection \<open>Parsing\<close>

text \<open>
  The loop of \<open>Name::parse\<close>. \<open>acc\<close> is the filled part of the 255-byte array \<open>wire\<close>; the
  result is that part and the position the cursor is set to. Every iteration either adds a
  label, which raises \<open>tot\<close> towards 255, or follows a pointer, which raises \<open>jumps\<close>
  towards \<open>MAX_JUMPS\<close>: the loop ends on every input.
\<close>

function parse_loop ::
    "bytes \<Rightarrow> nat \<Rightarrow> bytes \<Rightarrow> nat \<Rightarrow> bool \<Rightarrow> nat \<Rightarrow> nat \<Rightarrow> nat \<Rightarrow> proto_error + (bytes \<times> nat)" where
  "parse_loop buf limit acc pos jumped jumps end tot =
     (if \<not> jumped \<and> pos \<ge> limit then Inl Eof
      else if \<not> pos < length buf then Inl Eof
      else (let len = unat (buf ! pos); kind = buf ! pos AND 0xC0 in
        if kind = 0 then
          (if len = 0 then Inr (acc, if \<not> jumped then pos + 1 else end)
           else (let start = pos + 1; label_end = start + len in
             if \<not> jumped \<and> label_end > limit then Inl Eof
             else if \<not> label_end \<le> length buf then Inl Eof
             else if tot + (len + 1) > MAX_NAME_LEN then Inl (NameError NameTooLong)
             else parse_loop buf limit (acc @ [of_nat len] @ slice buf start label_end)
                    label_end jumped jumps end (tot + (len + 1))))
        else if kind = 0xC0 then
          (if \<not> jumped \<and> pos + 2 > limit then Inl Eof
           else if \<not> pos + 1 < length buf then Inl Eof
           else (let b2 = buf ! (pos + 1);
                     end' = (if \<not> jumped then pos + 2 else end);
                     jumps' = jumps + 1 in
             if jumps' > MAX_JUMPS then Inl (NameError PointerLoop)
             else (let ptr = unat (push_bit 8 (ucast (buf ! pos) AND 0x3F) OR ucast b2 :: u16) in
               if ptr \<ge> pos then Inl (NameError BadPointer)
               else parse_loop buf limit acc ptr True jumps' end' tot)))
        else Inl (NameError ReservedLabelBits)))"
  by pat_completeness auto
termination
  by (relation "measures [\<lambda>(buf, limit, acc, pos, jumped, jumps, end, tot). Suc MAX_JUMPS - jumps,
                          \<lambda>(buf, limit, acc, pos, jumped, jumps, end, tot). Suc MAX_NAME_LEN - tot]")
    auto

declare parse_loop.simps [simp del]

definition name_parse :: "name rd" where
  "name_parse r =
     (case parse_loop (rd_buf r) (rd_limit r) [] (rd_pos r) False 0 (rd_pos r) 1 of
        Inl e \<Rightarrow> (Inl e, r)
      | Inr (acc, end) \<Rightarrow>
          (Inr (if acc = [] then name_root else \<lparr>wire = acc @ [0]\<rparr>), r\<lparr>rd_pos := end\<rparr>))"

function parse_uncompressed_loop :: "bytes \<Rightarrow> nat \<Rightarrow> name rd" where
  "parse_uncompressed_loop acc tot r =
     (case rd_u8 r of
        (Inl e, r1) \<Rightarrow> (Inl e, r1)
      | (Inr b, r1) \<Rightarrow>
          (let len = unat b in
           if len = 0 then (Inr (if acc = [] then name_root else \<lparr>wire = acc @ [0]\<rparr>), r1)
           else if b AND 0xC0 \<noteq> 0 \<or> len > 63 then (Inl (NameError UncompressedLabel), r1)
           else if tot + (len + 1) > MAX_NAME_LEN then (Inl (NameError NameTooLong), r1)
           else (case rd_bytes len r1 of
                   (Inl e, r2) \<Rightarrow> (Inl e, r2)
                 | (Inr lab, r2) \<Rightarrow>
                     parse_uncompressed_loop (acc @ [b] @ lab) (tot + (len + 1)) r2)))"
  by pat_completeness auto
termination
  by (relation "measure (\<lambda>(acc, tot, r). Suc MAX_NAME_LEN - tot)") auto

declare parse_uncompressed_loop.simps [simp del]

definition parse_uncompressed :: "name rd" where
  "parse_uncompressed = parse_uncompressed_loop [] 1"

subsection \<open>Encoding\<close>

fun name_encode_loop :: "bytes list \<Rightarrow> bytes \<Rightarrow> writer \<Rightarrow> writer" where
  "name_encode_loop [] key w = push_u8 w 0"
| "name_encode_loop (label # rest) key w =
     (case name_map_get (wr_names w) key of
        Some off \<Rightarrow> push_u16 w (0xC000 OR off)
      | None \<Rightarrow>
          (let w1 = (if \<not> is_failed w \<and> length (wr_buf w) < 0x4000
                     then w\<lparr>wr_names :=
                              name_map_insert (wr_names w) key (of_nat (length (wr_buf w)))\<rparr>
                     else w);
               w2 = push_u8 w1 (of_nat (length label));
               w3 = push_bytes w2 label
           in name_encode_loop rest (drop (length label + 1) key) w3))"

definition name_encode :: "name \<Rightarrow> writer \<Rightarrow> writer" where
  "name_encode n w =
     (case canonical_key_into n (replicate MAX_NAME_LEN 0) of
        None \<Rightarrow> writer_fail w CanonicalKeyTooLong
      | Some key \<Rightarrow> name_encode_loop (labels_list (name_labels n)) key w)"

definition encode_uncompressed :: "name \<Rightarrow> writer \<Rightarrow> writer" where
  "encode_uncompressed n w = push_bytes w (wire n)"

section \<open>Names as label lists\<close>

definition label_ok :: "bytes \<Rightarrow> bool" where
  "label_ok l \<longleftrightarrow> l \<noteq> [] \<and> length l \<le> 63"

definition flat :: "bytes list \<Rightarrow> bytes" where
  "flat ls = concat (map (\<lambda>l. of_nat (length l) # l) ls)"

definition wire_of :: "bytes list \<Rightarrow> bytes" where
  "wire_of ls = flat ls @ [0]"

definition labels_ok :: "bytes list \<Rightarrow> bool" where
  "labels_ok ls \<longleftrightarrow> list_all label_ok ls \<and> length (wire_of ls) \<le> MAX_NAME_LEN"

definition name_of :: "bytes list \<Rightarrow> name" where
  "name_of ls = \<lparr>wire = wire_of ls\<rparr>"

definition name_wf :: "name \<Rightarrow> bool" where
  "name_wf n \<longleftrightarrow> (\<exists>ls. labels_ok ls \<and> n = name_of ls)"

definition lower_labels :: "bytes list \<Rightarrow> bytes list" where
  "lower_labels = map (map to_ascii_lowercase)"

lemma flat_simps [simp]:
  "flat [] = []" "flat (l # ls) = of_nat (length l) # l @ flat ls" "flat (xs @ ys) = flat xs @ flat ys"
  by (simp_all add: flat_def)

lemma length_flat: "length (flat ls) = sum_list (map (\<lambda>l. length l + 1) ls)"
  by (induction ls) auto

lemma label_ok_len: "label_ok l \<Longrightarrow> length l < 256 \<and> unat (of_nat (length l) :: u8) = length l"
  by (simp add: label_ok_def)

lemma label_ok_nonzero: "label_ok l \<Longrightarrow> (of_nat (length l) :: u8) \<noteq> 0"
  by (auto simp: label_ok_def word_unat_eq_iff)

lemma labels_next_at:
  assumes "label_ok l"
  shows "labels_next \<lparr>lb_wire = pre @ of_nat (length l) # l @ post, lb_front = length pre, lb_back = back\<rparr> =
    (if length pre + length l < back
     then (Some l, \<lparr>lb_wire = pre @ of_nat (length l) # l @ post, lb_front = length pre + 1 + length l, lb_back = back\<rparr>)
     else (None, \<lparr>lb_wire = pre @ of_nat (length l) # l @ post, lb_front = length pre, lb_back = back\<rparr>))"
proof -
  have "slice (pre @ of_nat (length l) # l @ post) (Suc (length pre)) (Suc (length pre + length l)) = l"
    by (simp add: slice_def)
  with label_ok_len [OF assms] show ?thesis by (auto simp: labels_next_def Let_def)
qed

lemma labels_list_at:
  "list_all label_ok ls \<Longrightarrow>
   labels_list \<lparr>lb_wire = pre @ flat ls @ post, lb_front = length pre,
                lb_back = length pre + length (flat ls)\<rparr> = ls"
proof (induction ls arbitrary: pre)
  case Nil
  then show ?case by (simp add: labels_list.simps labels_next_def)
next
  case (Cons l ls)
  have IH: "labels_list \<lparr>lb_wire = (pre @ of_nat (length l) # l) @ flat ls @ post,
      lb_front = length (pre @ of_nat (length l) # l),
      lb_back = length (pre @ of_nat (length l) # l) + length (flat ls)\<rparr> = ls"
    using Cons.prems by (intro Cons.IH) simp
  show ?case
    using Cons.prems IH
    by (subst labels_list.simps) (simp add: labels_next_at add.assoc [symmetric])
qed

lemma labels_list_name_of [simp]: "labels_ok ls \<Longrightarrow> labels_list (name_labels (name_of ls)) = ls"
  using labels_list_at [of ls "[]" "[0]"]
  by (simp add: name_labels_def name_of_def wire_of_def labels_ok_def)

lemma labels_len_loop_at:
  "list_all label_ok ls \<Longrightarrow>
   labels_len_loop (pre @ flat ls @ post) (length pre + length (flat ls)) (length pre) c = c + length ls"
proof (induction ls arbitrary: pre c)
  case Nil
  then show ?case by (simp add: labels_len_loop.simps)
next
  case (Cons l ls)
  have "labels_len_loop ((pre @ of_nat (length l) # l) @ flat ls @ post)
      (length (pre @ of_nat (length l) # l) + length (flat ls))
      (length (pre @ of_nat (length l) # l)) (c + 1) = c + 1 + length ls"
    using Cons.prems by (intro Cons.IH) simp
  with Cons.prems label_ok_len [of l] show ?case
    by (subst labels_len_loop.simps) (simp add: add_ac)
qed

lemma num_labels_name_of [simp]: "labels_ok ls \<Longrightarrow> num_labels (name_of ls) = length ls"
  using labels_len_loop_at [of ls "[]" "[0]" 0]
  by (simp add: num_labels_def labels_len_def name_labels_def name_of_def wire_of_def labels_ok_def)

lemma skip_labels_at:
  "list_all label_ok ls \<Longrightarrow> k \<le> length ls \<Longrightarrow>
   skip_labels (pre @ flat ls @ post) k (length pre) = Some (length pre + length (flat (take k ls)))"
proof (induction k arbitrary: pre ls)
  case (Suc k)
  then obtain l ls' where ls: "ls = l # ls'" by (cases ls) auto
  have "skip_labels ((pre @ of_nat (length l) # l) @ flat ls' @ post) k (length (pre @ of_nat (length l) # l)) =
      Some (length (pre @ of_nat (length l) # l) + length (flat (take k ls')))"
    using Suc.prems by (intro Suc.IH) (auto simp: ls)
  with Suc.prems label_ok_len [of l] show ?case by (simp add: ls add_ac)
qed simp

lemma wire_of_drop: "wire_of ls = flat (take k ls) @ wire_of (drop k ls)"
  by (metis append_take_drop_id append.assoc flat_simps(3) wire_of_def)

lemma labels_ok_drop [simp]: "labels_ok ls \<Longrightarrow> labels_ok (drop k ls)"
  using wire_of_drop [of ls k] by (auto simp: labels_ok_def list_all_iff dest: in_set_dropD)

lemma lower_flat: "list_all label_ok ls \<Longrightarrow> map to_ascii_lowercase (flat ls) = flat (lower_labels ls)"
proof (induction ls)
  case (Cons l ls)
  have "to_ascii_lowercase (of_nat (length l)) = of_nat (length l)"
    using Cons.prems label_ok_len [of l] by (simp add: label_ok_def word_less_nat_alt)
  with Cons show ?case by (simp add: lower_labels_def)
qed (simp add: lower_labels_def)

lemma lower_wire_of: "labels_ok ls \<Longrightarrow> map to_ascii_lowercase (wire_of ls) = wire_of (lower_labels ls)"
  by (simp add: wire_of_def lower_flat labels_ok_def)

lemma length_flat_lower [simp]: "length (flat (lower_labels ls)) = length (flat ls)"
  by (simp add: length_flat lower_labels_def comp_def)

lemma labels_ok_lower [simp]: "labels_ok (lower_labels ls) = labels_ok ls"
  by (simp add: labels_ok_def wire_of_def) (simp add: lower_labels_def list_all_iff label_ok_def)

lemma canonical_flat: "concat (map (\<lambda>l. of_nat (length l) # map to_ascii_lowercase l) ls) = flat (lower_labels ls)"
  by (simp add: flat_def lower_labels_def comp_def)

lemma flat_inj: "list_all label_ok xs \<Longrightarrow> list_all label_ok ys \<Longrightarrow> wire_of xs = wire_of ys \<Longrightarrow> xs = ys"
proof (induction xs arbitrary: ys)
  case Nil
  then show ?case by (cases ys) (auto simp: wire_of_def dest: label_ok_nonzero)
next
  case (Cons x xs)
  then obtain y ys' where ys: "ys = y # ys'"
    using label_ok_nonzero [of x] by (cases ys) (auto simp: wire_of_def)
  have hd_tl: "(of_nat (length x) :: u8) = of_nat (length y)" "x @ wire_of xs = y @ wire_of ys'"
    using Cons.prems(3) by (simp_all only: ys wire_of_def flat_simps append_Cons append.assoc list.inject)
  have "length x = length y"
    using hd_tl(1) Cons.prems(1,2) label_ok_len [of x] label_ok_len [of y]
    by (metis list.pred_inject(2) ys)
  with hd_tl(2) have "x = y" "wire_of xs = wire_of ys'" by simp_all
  with Cons.IH [of ys'] Cons.prems(1,2) show ?case by (simp add: ys)
qed

lemma name_of_inj: "labels_ok xs \<Longrightarrow> labels_ok ys \<Longrightarrow> name_of xs = name_of ys \<longleftrightarrow> xs = ys"
  using flat_inj by (auto simp: labels_ok_def name_of_def)


section \<open>The operations on label lists\<close>

lemma name_of_wire [simp]: "wire (name_of ls) = wire_of ls"
  by (simp add: name_of_def)

lemma length_wire_of: "length (wire_of ls) = length (flat ls) + 1"
  by (simp add: wire_of_def)

lemma labels_ok_size: "labels_ok ls \<Longrightarrow> length (flat ls) \<le> 254"
  by (simp add: labels_ok_def length_wire_of MAX_NAME_LEN_def)

lemma labels_ok_Nil [simp]: "labels_ok []"
  by (simp add: labels_ok_def wire_of_def MAX_NAME_LEN_def)

lemma name_root_of: "name_root = name_of []"
  by (simp add: name_root_def name_of_def wire_of_def)

lemma is_root_name_of [simp]: "is_root (name_of ls) \<longleftrightarrow> ls = []"
  by (cases ls) (simp_all add: is_root_def length_wire_of)

lemma name_wf_name_of [simp]: "labels_ok ls \<Longrightarrow> name_wf (name_of ls)"
  by (auto simp: name_wf_def)

lemma name_wf_root [simp]: "name_wf name_root"
  by (simp add: name_root_of)

lemma name_wfE:
  assumes "name_wf n"
  obtains ls where "labels_ok ls" and "n = name_of ls"
  using assms by (auto simp: name_wf_def)

lemma canonical_key_name_of [simp]:
  "labels_ok ls \<Longrightarrow> canonical_key (name_of ls) = wire_of (lower_labels ls)"
  by (simp add: canonical_key_def canonical_flat wire_of_def)

lemma write_canonical_at:
  assumes "labels_ok ls" and "k \<le> length ls"
  shows "write_canonical_from (name_of ls) (length (flat (take k ls))) out =
    (if length (wire_of (drop k ls)) \<le> length out
     then Some (wire_of (lower_labels (drop k ls))) else None)"
proof -
  let ?pre = "flat (take k ls)" and ?rest = "drop k ls"
  have w: "wire_of ls = ?pre @ wire_of ?rest" by (rule wire_of_drop)
  have "labels_list \<lparr>lb_wire = ?pre @ flat ?rest @ [0], lb_front = length ?pre,
      lb_back = length ?pre + length (flat ?rest)\<rparr> = ?rest"
    using labels_ok_drop [OF assms(1)] by (intro labels_list_at) (simp add: labels_ok_def)
  then have ll: "labels_list \<lparr>lb_wire = wire_of ls, lb_front = length ?pre,
      lb_back = length (wire_of ls) - 1\<rparr> = ?rest"
    unfolding w by (simp add: wire_of_def)
  have len: "length (wire_of ls) = length ?pre + length (wire_of ?rest)" by (simp add: w)
  have low: "flat (lower_labels ?rest) @ [0] = wire_of (lower_labels ?rest)"
    by (simp add: wire_of_def)
  have "length (wire_of (lower_labels ?rest)) = length (wire_of ?rest)"
    by (simp add: length_wire_of)
  moreover have "length (wire_of ls) \<noteq> 0" by (simp add: length_wire_of)
  ultimately show ?thesis
    unfolding write_canonical_from_def name_of_wire ll canonical_flat low
    by (simp add: len Let_def)
qed

lemma canonical_key_into_name_of [simp]:
  "labels_ok ls \<Longrightarrow> canonical_key_into (name_of ls) out =
    (if length (wire_of ls) \<le> length out then Some (wire_of (lower_labels ls)) else None)"
  using write_canonical_at [of ls 0 out] by (simp add: canonical_key_into_def)

lemma skip_labels_name_of [simp]:
  "labels_ok ls \<Longrightarrow> k \<le> length ls \<Longrightarrow>
   skip_labels (wire_of ls) k 0 = Some (length (flat (take k ls)))"
  using skip_labels_at [of ls k "[]" "[0]"] by (simp add: wire_of_def labels_ok_def)

lemma drop_wire_of: "drop (length (flat (take k ls))) (wire_of ls) = wire_of (drop k ls)"
  by (subst wire_of_drop [of ls k]) simp

lemma flat_take_le: "length (flat (take k ls)) \<le> length (wire_of ls)"
  using arg_cong [OF wire_of_drop [of ls k], of length] by simp

lemma name_suffix_name_of:
  assumes "labels_ok ls"
  shows "name_suffix (name_of ls) k = Some (name_of (drop (length ls - k) ls))"
proof -
  have "length ls - min k (length ls) = length ls - k" by simp
  then show ?thesis
    using assms flat_take_le
    by (simp add: name_suffix_def Let_def drop_wire_of name_of_def [of "drop _ _"])
qed

lemma canonical_suffix_key_name_of:
  assumes "labels_ok ls"
  shows "canonical_suffix_key_into (name_of ls) k out =
    (if length (wire_of (drop (length ls - k) ls)) \<le> length out
     then Some (wire_of (lower_labels (drop (length ls - k) ls))) else None)"
proof -
  have "length ls - min k (length ls) = length ls - k" by simp
  then show ?thesis
    using assms by (simp add: canonical_suffix_key_into_def Let_def write_canonical_at)
qed

lemma eq_ignore_case_name_of:
  assumes "labels_ok xs" and "labels_ok ys"
  shows "eq_ignore_case (name_of xs) (name_of ys) \<longleftrightarrow> lower_labels xs = lower_labels ys"
proof -
  have "eq_ignore_case (name_of xs) (name_of ys) \<longleftrightarrow>
      name_of (lower_labels xs) = name_of (lower_labels ys)"
    using assms by (simp add: eq_ignore_case_def eq_ignore_ascii_case_def lower_wire_of name_of_def)
  with assms show ?thesis by (simp add: name_of_inj)
qed

lemma ends_with_name_of:
  assumes "labels_ok xs" and "labels_ok ys"
  shows "ends_with_ignore_case (name_of xs) (name_of ys) =
    Some (\<exists>pre. lower_labels xs = pre @ lower_labels ys)"
proof (cases "length xs < length ys")
  case True
  have "\<nexists>pre. lower_labels xs = pre @ lower_labels ys"
  proof
    assume "\<exists>pre. lower_labels xs = pre @ lower_labels ys"
    then have "length ys \<le> length xs"
      by (metis length_append length_map lower_labels_def le_add2)
    with True show False by simp
  qed
  with True assms show ?thesis by (simp add: ends_with_ignore_case_def)
next
  case False
  let ?k = "length xs - length ys"
  have "ends_with_ignore_case (name_of xs) (name_of ys) =
      Some (eq_ignore_case (name_of (drop ?k xs)) (name_of ys))"
    using False assms flat_take_le
    by (simp add: ends_with_ignore_case_def Let_def drop_wire_of eq_ignore_case_def)
  also have "\<dots> = Some (drop ?k (lower_labels xs) = lower_labels ys)"
    using assms by (simp add: eq_ignore_case_name_of) (simp add: lower_labels_def drop_map)
  also have "(drop ?k (lower_labels xs) = lower_labels ys) \<longleftrightarrow>
      (\<exists>pre. lower_labels xs = pre @ lower_labels ys)"
  proof
    assume "drop ?k (lower_labels xs) = lower_labels ys"
    then show "\<exists>pre. lower_labels xs = pre @ lower_labels ys"
      by (metis append_take_drop_id)
  next
    assume "\<exists>pre. lower_labels xs = pre @ lower_labels ys"
    then obtain pre where pre: "lower_labels xs = pre @ lower_labels ys" ..
    then have "length pre = ?k"
      by (metis add_diff_cancel_right' length_append length_map lower_labels_def)
    with pre show "drop ?k (lower_labels xs) = lower_labels ys" by simp
  qed
  finally show ?thesis .
qed

lemma to_ascii_lower_name_of:
  assumes "labels_ok ls"
  shows "to_ascii_lower_name (name_of ls) = name_of (lower_labels ls)"
proof (cases "list_ex is_ascii_uppercase (wire_of ls)")
  case False
  then have "map to_ascii_lowercase (wire_of ls) = wire_of ls"
    by (intro map_idI) (auto simp: list_ex_iff)
  with False assms show ?thesis
    by (simp add: to_ascii_lower_name_def name_of_def lower_wire_of)
qed (simp add: to_ascii_lower_name_def name_of_def lower_wire_of assms)

lemma from_labels_iff:
  "from_labels ls = (if \<not> list_all label_ok ls then Inl (NameError LabelLength)
     else if labels_ok ls then Inr (name_of ls) else Inl (NameError NameTooLong))"
proof -
  have ex: "list_ex (\<lambda>l. l = [] \<or> length l > 63) ls \<longleftrightarrow> \<not> list_all label_ok ls"
    by (auto simp: list_ex_iff list_all_iff label_ok_def not_le)
  have "1 + sum_list (map (\<lambda>l. length l + 1) ls) = length (wire_of ls)"
    by (simp add: length_wire_of length_flat)
  then show ?thesis
    unfolding from_labels_def ex
    by (auto simp: labels_ok_def name_of_def wire_of_def flat_def)
qed

lemma from_uncompressed_loop_sound:
  "from_uncompressed_loop bs pos = Some n \<Longrightarrow>
   \<exists>ls. list_all label_ok ls \<and> drop pos bs = wire_of ls \<and> n = \<lparr>wire = bs\<rparr>"
proof (induction bs pos rule: from_uncompressed_loop.induct)
  case (1 bs pos)
  let ?len = "unat (bs ! pos)"
  have pos: "pos < length bs"
    using "1.prems" by (subst (asm) from_uncompressed_loop.simps) (auto split: if_splits)
  then have drop: "drop pos bs = bs ! pos # drop (Suc pos) bs"
    by (simp add: Cons_nth_drop_Suc)
  show ?case
  proof (cases "?len = 0")
    case True
    with "1.prems" pos have "pos + 1 = length bs"
      and n: "n = (if length bs = 1 then name_root else \<lparr>wire = bs\<rparr>)"
      by (auto simp: from_uncompressed_loop.simps [of bs pos] split: if_splits)
    then have bs: "drop pos bs = [0]" using True drop by (simp add: unat_eq_0)
    moreover have "n = \<lparr>wire = bs\<rparr>"
      using n bs \<open>pos + 1 = length bs\<close> by (auto simp: name_root_def)
    ultimately show ?thesis by (intro exI [of _ "[]"]) (simp add: wire_of_def)
  next
    case False
    with "1.prems" pos have bits: "bs ! pos AND 0xC0 = 0"
      and rec: "from_uncompressed_loop bs (pos + 1 + ?len) = Some n"
      by (auto simp: from_uncompressed_loop.simps [of bs pos] Let_def split: if_splits)
    obtain ls where ls: "list_all label_ok ls" "drop (pos + 1 + ?len) bs = wire_of ls"
        "n = \<lparr>wire = bs\<rparr>"
      using "1.IH" [OF pos refl False _ rec] bits by auto
    let ?l = "take ?len (drop (Suc pos) bs)"
    have "length (drop (pos + 1 + ?len) bs) \<noteq> 0" using ls(2) by (simp add: length_wire_of)
    then have "length ?l = ?len" by simp
    moreover have "?len < 64" using bits by (simp add: and_C0_zero)
    ultimately have "label_ok ?l" and "of_nat (length ?l) = bs ! pos"
      using False by (auto simp: label_ok_def)
    moreover have "drop (Suc pos) bs = ?l @ wire_of ls"
      using ls(2) append_take_drop_id [of ?len "drop (Suc pos) bs"] by (simp add: add_ac)
    ultimately show ?thesis
      using ls drop by (intro exI [of _ "?l # ls"]) (simp add: wire_of_def)
  qed
qed

lemma from_uncompressed_loop_complete:
  "list_all label_ok ls \<Longrightarrow> from_uncompressed_loop (pre @ wire_of ls) (length pre) =
     Some \<lparr>wire = pre @ wire_of ls\<rparr>"
proof (induction ls arbitrary: pre)
  case Nil
  then show ?case
    by (auto simp: from_uncompressed_loop.simps wire_of_def name_root_def)
next
  case (Cons l ls)
  let ?b = "of_nat (length l) :: u8"
  have "from_uncompressed_loop ((pre @ ?b # l) @ wire_of ls) (length (pre @ ?b # l)) =
      Some \<lparr>wire = (pre @ ?b # l) @ wire_of ls\<rparr>"
    using Cons.prems by (intro Cons.IH) simp
  moreover have "?b AND 0xC0 = 0" "unat ?b = length l" "length l \<noteq> 0"
    using Cons.prems label_ok_len [of l] by (auto simp: and_C0_zero label_ok_def)
  ultimately show ?case
    by (subst from_uncompressed_loop.simps) (simp add: wire_of_def Let_def add_ac)
qed

lemma from_uncompressed_wire_iff:
  "from_uncompressed_wire bs = Some n \<longleftrightarrow> (\<exists>ls. labels_ok ls \<and> bs = wire_of ls \<and> n = name_of ls)"
proof
  assume bs: "from_uncompressed_wire bs = Some n"
  then have "from_uncompressed_loop bs 0 = Some n" and "length bs \<le> MAX_NAME_LEN"
    by (auto simp: from_uncompressed_wire_def split: if_splits)
  then show "\<exists>ls. labels_ok ls \<and> bs = wire_of ls \<and> n = name_of ls"
    by (auto dest!: from_uncompressed_loop_sound simp: labels_ok_def name_of_def)
next
  assume "\<exists>ls. labels_ok ls \<and> bs = wire_of ls \<and> n = name_of ls"
  then obtain ls where ls: "labels_ok ls" "bs = wire_of ls" "n = name_of ls" by blast
  moreover have "wire_of ls \<noteq> []" by (simp add: wire_of_def)
  ultimately show "from_uncompressed_wire bs = Some n"
    using from_uncompressed_loop_complete [of ls "[]"]
    by (simp add: from_uncompressed_wire_def labels_ok_def name_of_def)
qed

section \<open>Text form\<close>

lemma digit_of_nat: "d < 10 \<Longrightarrow> is_ascii_digit (of_nat (48 + d)) \<and> digit_value (of_nat (48 + d)) = d"
proof -
  assume d: "d < 10"
  then have u: "unat (of_nat (48 + d) :: u8) = 48 + d" by (intro unat_of_nat_u8) simp
  have "of_nat (48 + d) - (48 :: u8) = of_nat d" by simp
  with d u show ?thesis
    by (simp add: is_ascii_digit_def digit_value_def word_le_nat_alt del: of_nat_add)
qed

lemma decimal3_digits:
  "list_all is_ascii_digit (decimal3 b)"
  "foldl (\<lambda>acc d. acc * 10 + digit_value d) 0 (decimal3 b) = unat b"
proof -
  have "unat b < 10 * 100" using unat_u8_lt [of b] by linarith
  then have "unat b div 100 < 10" by (rule less_mult_imp_div_less)
  moreover have "unat b div 10 mod 10 < 10" "unat b mod 10 < 10" by simp_all
  ultimately have "unat b div 100 < 10" "unat b div 10 mod 10 < 10" "unat b mod 10 < 10" .
  note d = this [THEN digit_of_nat]
  show "list_all is_ascii_digit (decimal3 b)"
    unfolding decimal3_def using d by (simp del: of_nat_add)
  have "foldl (\<lambda>acc d. acc * 10 + digit_value d) 0 (decimal3 b) =
      (unat b div 100 * 10 + unat b div 10 mod 10) * 10 + unat b mod 10"
    unfolding decimal3_def using d by (simp del: of_nat_add)
  also have "\<dots> = unat b"
    using div_mult2_eq [of "unat b" 10 10] by simp
  finally show "foldl (\<lambda>acc d. acc * 10 + digit_value d) 0 (decimal3 b) = unat b" .
qed

lemma from_str_byte:
  "from_str_loop (master_byte b @ rest) labels cur ended =
   from_str_loop rest labels (cur @ [to_ascii_lowercase b]) False"
proof (cases "master_special b")
  case True
  then have "\<not> is_ascii_digit b" "\<not> is_ascii_uppercase b"
    by (auto simp: master_special_def is_ascii_digit_def is_ascii_uppercase_def)
  with True show ?thesis by (simp add: master_byte_def)
next
  case special: False
  show ?thesis
  proof (cases "0x21 \<le> b \<and> b \<le> 0x7e")
    case True
    have "to_ascii_lowercase b \<noteq> 92 \<and> to_ascii_lowercase b \<noteq> 46"
    proof (cases "is_ascii_uppercase b")
      case up: True
      then have u: "65 \<le> unat b" "unat b \<le> 90"
        by (auto simp: is_ascii_uppercase_def word_le_nat_alt)
      then have "unat (b + 32) = unat b + 32" by (simp add: unat_word_ariths)
      with u have "97 \<le> unat (b + 32)" by simp
      with up show ?thesis by (auto simp: to_ascii_lowercase_def)
    next
      case False
      with special show ?thesis by (auto simp: to_ascii_lowercase_def master_special_def)
    qed
    with True special show ?thesis by (simp add: master_byte_def)
  next
    case False
    then have low: "to_ascii_lowercase b = b"
      by (auto simp: to_ascii_lowercase_def is_ascii_uppercase_def word_le_nat_alt)
    obtain d1 d2 d3 where d: "decimal3 b = [d1, d2, d3]" by (simp add: decimal3_def)
    have "from_str_loop (92 # decimal3 b @ rest) labels cur ended =
        from_str_loop rest labels (cur @ [b]) False"
      using decimal3_digits [of b] unat_u8_lt [of b]
      by (simp add: d Let_def numeral_3_eq_3 del: unat_u8_lt)
    moreover have "master_byte b = 92 # decimal3 b"
      using False special by (auto simp: master_byte_def)
    ultimately show ?thesis by (simp only: low append_Cons)
  qed
qed

lemma from_str_label:
  "from_str_loop (concat (map master_byte l) @ rest) labels cur ended =
   from_str_loop rest labels (cur @ map to_ascii_lowercase l) (if l = [] then ended else False)"
  by (induction l arbitrary: cur ended) (auto simp: from_str_byte)

lemma from_str_join:
  "list_all label_ok ls \<Longrightarrow> ls \<noteq> [] \<Longrightarrow>
   from_str_loop (join_labels (\<lambda>l. concat (map master_byte l)) ls) labels [] ended =
   Inr (labels @ lower_labels ls)"
proof (induction ls arbitrary: labels ended rule: induct_list012)
  case (2 l)
  then show ?case
    using from_str_label [of l "[]"] by (simp add: label_ok_def lower_labels_def)
next
  case (3 l l' ls)
  then show ?case
    using from_str_label [of l "46 # join_labels (\<lambda>l. concat (map master_byte l)) (l' # ls)"]
    by (simp add: label_ok_def lower_labels_def)
qed simp

lemma from_str_to_master_lower:
  assumes "labels_ok ls"
  shows "from_str (to_master_lower (name_of ls)) = Inr (name_of (lower_labels ls))"
proof (cases "ls = []")
  case True
  then show ?thesis
    using assms by (simp add: to_master_lower_def from_str_def name_root_of lower_labels_def)
next
  case False
  have ne: "lower_labels ls \<noteq> []" "\<not> list_ex (\<lambda>l. l = []) (lower_labels ls)"
    using assms False
    by (auto simp: lower_labels_def labels_ok_def list_all_iff label_ok_def list_ex_iff)
  then have "lower_labels ls \<noteq> [[]]" by auto
  moreover have "from_labels (lower_labels ls) = Inr (name_of (lower_labels ls))"
    using assms labels_ok_lower [of ls] by (auto simp: from_labels_iff labels_ok_def)
  ultimately show ?thesis
    using assms False ne from_str_join [of ls "[]" False]
    by (simp add: to_master_lower_def from_str_def labels_ok_def)
qed

text \<open>Every name \<open>from_str\<close> returns is well formed.\<close>

lemma from_str_wf: "from_str s = Inr n \<Longrightarrow> name_wf n"
  by (auto simp: from_str_def from_labels_iff split: sum.splits if_splits)

end
