(* ===== verification/NameCodec.thy ===== *)
theory NameCodec
  imports Name
begin

text \<open>
  The name codec against a declarative reading of compressed names. First half: the parser
  accepts exactly the names \<open>name_at\<close> describes within the length and jump limits. Second
  half: the compressing encoder writes names that \<open>name_at\<close> reads back up to letter case,
  whatever was written before, and keeps every offset it has recorded valid. The
  \<open>codec\<close> relation packages that argument so that records and messages are read back
  field by field.
\<close>

section \<open>What the parsers accept\<close>

text \<open>
  The declarative meaning of a compressed name (RFC 1035, section 4.1.4):
  \<open>name_at H buf p q ls j\<close> says that the name written at \<open>p\<close> has the labels \<open>ls\<close>, that its
  own bytes end at \<open>q\<close>, that reading it follows \<open>j\<close> pointers, each strictly backwards, and
  that no byte at a position in \<open>H\<close> is looked at. \<open>H\<close> holds the length slots an encoder
  has reserved and not yet filled; for the parser it is empty.
\<close>

inductive name_at :: "nat set \<Rightarrow> bytes \<Rightarrow> nat \<Rightarrow> nat \<Rightarrow> bytes list \<Rightarrow> nat \<Rightarrow> bool"
  for H :: "nat set" and buf :: bytes where
  at_root: "p < length buf \<Longrightarrow> buf ! p = 0 \<Longrightarrow> p \<notin> H \<Longrightarrow> name_at H buf p (p + 1) [] 0"
| at_label: "label_ok l \<Longrightarrow> bytes_at buf p (of_nat (length l) # l) \<Longrightarrow> {p..p + length l} \<inter> H = {} \<Longrightarrow>
     name_at H buf (p + 1 + length l) q ls j \<Longrightarrow> name_at H buf p q (l # ls) j"
| at_ptr: "p + 1 < length buf \<Longrightarrow> buf ! p AND 0xC0 = 0xC0 \<Longrightarrow> {p, p + 1} \<inter> H = {} \<Longrightarrow>
     t = unat (u16_from_be_bytes (buf ! p) (buf ! (p + 1)) AND 0x3FFF) \<Longrightarrow> t < p \<Longrightarrow>
     name_at H buf t q ls j \<Longrightarrow> name_at H buf p (p + 2) ls (Suc j)"

lemma name_at_bounds: "name_at H buf p q ls j \<Longrightarrow> p < q \<and> q \<le> length buf"
  by (induction rule: name_at.induct) (auto simp: bytes_at_def)

lemma name_at_labels: "name_at H buf p q ls j \<Longrightarrow> list_all label_ok ls"
  by (induction rule: name_at.induct) auto

lemma label_head: "label_ok l \<Longrightarrow> (of_nat (length l) :: u8) \<noteq> 0 \<and> of_nat (length l) AND (0xC0 :: u8) = 0"
  using label_ok_nonzero [of l] label_ok_len [of l] by (auto simp: and_C0_zero label_ok_def)

lemma bytes_at_same_length: "bytes_at buf p l \<Longrightarrow> bytes_at buf p l' \<Longrightarrow> length l = length l' \<Longrightarrow> l = l'"
  by (simp add: bytes_at_def)

lemma name_at_unique:
  "name_at H buf p q ls j \<Longrightarrow> name_at H buf p q' ls' j' \<Longrightarrow> q' = q \<and> ls' = ls \<and> j' = j"
proof (induction arbitrary: q' ls' j' rule: name_at.induct)
  case (at_root p)
  from at_root(4) show ?case
    using at_root(1-3) by cases (auto simp: bytes_at_Cons dest: label_head)
next
  case (at_label l p q ls j)
  note at = \<open>bytes_at buf p (of_nat (length l) # l)\<close>
  from at_label(6) show ?case
  proof (cases rule: name_at.cases [case_names root lab ptr])
    case (lab l' ls'')
    have "length l' = length l"
      using lab(2,3) at \<open>label_ok l\<close> label_ok_len [of l] label_ok_len [of l'] by (metis bytes_at_Cons)
    with lab(3) at have "l' = l"
      by (auto simp: bytes_at_Cons intro: bytes_at_same_length)
    with lab at_label.IH show ?thesis by auto
  qed (use at_label(1) at label_head in \<open>auto simp: bytes_at_Cons\<close>)
next
  case (at_ptr p t q ls j)
  from at_ptr.prems show ?case
  proof (cases rule: name_at.cases [case_names root lab ptr])
    case (lab l')
    then show ?thesis using at_ptr(2) label_head [of l'] by (auto simp: bytes_at_Cons)
  next
    case (ptr t' q'' j'')
    with at_ptr.IH [of q'' ls' j''] at_ptr(4) show ?thesis by simp
  qed (use at_ptr(2) in simp)
qed

lemma parse_loop_complete:
  "name_at {} buf pos q ls j \<Longrightarrow> jumped \<or> q \<le> limit \<Longrightarrow> jumps + j \<le> MAX_JUMPS \<Longrightarrow>
   tot + length (flat ls) \<le> MAX_NAME_LEN \<Longrightarrow>
   parse_loop buf limit acc pos jumped jumps end tot =
     Inr (acc @ flat ls, if jumped then end else q)"
proof (induction arbitrary: acc jumped jumps "end" tot rule: name_at.induct)
  case (at_root p)
  then show ?case by (subst parse_loop.simps) auto
next
  case (at_label l p q ls j)
  let ?b = "of_nat (length l) :: u8"
  have b: "unat ?b = length l" "length l \<noteq> 0" "?b AND 0xC0 = 0"
    using at_label.hyps(1) label_ok_len [of l] by (auto simp: label_ok_def and_C0_zero)
  have at: "p < length buf" "buf ! p = ?b" "Suc (p + length l) \<le> length buf"
      "slice buf (Suc p) (Suc (p + length l)) = l"
    using at_label.hyps(2) by (auto simp: bytes_at_Cons) (auto simp: bytes_at_def)
  have "q \<ge> p + 1 + length l" using name_at_bounds [OF at_label.hyps(4)] by simp
  with at_label.prems(1) have lim: "jumped \<or> Suc (p + length l) \<le> limit" by auto
  have IH: "parse_loop buf limit (acc @ ?b # l) (Suc (p + length l)) jumped jumps end
      (tot + (length l + 1)) = Inr ((acc @ ?b # l) @ flat ls, if jumped then end else q)"
    using at_label.IH [OF at_label.prems(1,2), of "tot + (length l + 1)" "acc @ ?b # l"]
      at_label.prems(3) by simp
  show ?case
    using b at lim IH at_label.prems(3) by (subst parse_loop.simps) (auto simp: Let_def)
next
  case (at_ptr p t q ls j)
  have nz: "buf ! p AND 0xC0 \<noteq> 0" using at_ptr.hyps(2) by simp
  have t: "unat (push_bit 8 (ucast (buf ! p) AND 0x3F) OR ucast (buf ! (p + 1)) :: u16) = t"
    by (simp add: at_ptr.hyps(4) ptr_bytes_simp)
  have IH: "parse_loop buf limit acc t True (jumps + 1) e tot = Inr (acc @ flat ls, e)" for e
    using at_ptr.IH [of True "jumps + 1" tot acc e] at_ptr.prems by simp
  show ?case
    using at_ptr.hyps(1,2,5) at_ptr.prems nz IH
    by (subst parse_loop.simps) (auto simp: Let_def t [simplified])
qed

lemma parse_loop_sound:
  "parse_loop buf limit acc pos jumped jumps end tot = Inr (acc', end') \<Longrightarrow>
   tot \<le> MAX_NAME_LEN \<Longrightarrow> jumps \<le> MAX_JUMPS \<Longrightarrow>
   \<exists>q ls j. name_at {} buf pos q ls j \<and> acc' = acc @ flat ls \<and>
     end' = (if jumped then end else q) \<and> (jumped \<or> q \<le> limit) \<and>
     jumps + j \<le> MAX_JUMPS \<and> tot + length (flat ls) \<le> MAX_NAME_LEN"
proof (induction buf limit acc pos jumped jumps "end" tot rule: parse_loop.induct)
  case (1 buf limit acc pos jumped jumps "end" tot)
  let ?len = "unat (buf ! pos)"
  let ?lab = "slice buf (pos + 1) (pos + 1 + ?len)"
  note eq = parse_loop.simps [of buf limit acc pos jumped jumps "end" tot]
  have guards: "\<not> (\<not> jumped \<and> pos \<ge> limit)" "pos < length buf"
    using "1.prems"(1) by (auto simp: eq split: if_splits)
  consider (stop) "buf ! pos AND 0xC0 = 0" "?len = 0"
    | (label) "buf ! pos AND 0xC0 = 0" "?len \<noteq> 0"
    | (ptr) "buf ! pos AND 0xC0 = 0xC0"
    using "1.prems"(1) guards by (auto simp: eq Let_def split: if_splits)
  then show ?case
  proof cases
    case stop
    then have "name_at {} buf pos (pos + 1) [] 0"
      using guards by (intro at_root) (auto simp: unat_eq_0)
    with stop "1.prems" guards show ?thesis
      by (intro exI [of _ "pos + 1"] exI [of _ "[]"] exI [of _ 0])
        (auto simp: eq Let_def split: if_splits)
  next
    case label
    then have fits: "\<not> (\<not> jumped \<and> pos + 1 + ?len > limit)" "pos + 1 + ?len \<le> length buf"
        "tot + (?len + 1) \<le> MAX_NAME_LEN"
      and rec: "parse_loop buf limit (acc @ [of_nat ?len] @ ?lab) (pos + 1 + ?len) jumped jumps
          end (tot + (?len + 1)) = Inr (acc', end')"
      using "1.prems"(1) guards by (auto simp: eq Let_def split: if_splits)
    obtain q ls j where IH: "name_at {} buf (pos + 1 + ?len) q ls j"
        "acc' = (acc @ [of_nat ?len] @ ?lab) @ flat ls" "end' = (if jumped then end else q)"
        "jumped \<or> q \<le> limit" "jumps + j \<le> MAX_JUMPS"
        "tot + (?len + 1) + length (flat ls) \<le> MAX_NAME_LEN"
      using "1.IH"(1) [OF guards(1) _ refl refl label(1,2) refl refl fits(1) _ _ rec]
        guards fits "1.prems"(3) by auto
    have len: "length ?lab = ?len" using fits by simp
    moreover have "?len < 64" using label by (simp add: and_C0_zero)
    ultimately have "label_ok ?lab" using label by (auto simp: label_ok_def)
    moreover have "bytes_at buf pos (of_nat (length ?lab) # ?lab)"
      using guards fits by (simp add: bytes_at_Cons) (simp add: bytes_at_def)
    ultimately have "name_at {} buf pos q (?lab # ls) j"
      using IH(1) len by (intro at_label) auto
    with IH len show ?thesis
      by (intro exI [of _ q] exI [of _ "?lab # ls"] exI [of _ j]) (simp add: add_ac)
  next
    case ptr
    let ?t = "unat (u16_from_be_bytes (buf ! pos) (buf ! (pos + 1)) AND 0x3FFF)"
    let ?fin = "if \<not> jumped then pos + 2 else end"
    have fits: "jumps + 1 \<le> MAX_JUMPS" "?t < pos" "pos + 1 < length buf" "jumped \<or> pos + 2 \<le> limit"
      and rec: "parse_loop buf limit acc ?t True (jumps + 1) ?fin tot = Inr (acc', end')"
      using "1.prems"(1) guards ptr by (auto simp: eq Let_def ptr_bytes_simp split: if_splits)
    obtain q ls j where IH: "name_at {} buf ?t q ls j" "acc' = acc @ flat ls" "end' = ?fin"
        "jumps + 1 + j \<le> MAX_JUMPS" "tot + length (flat ls) \<le> MAX_NAME_LEN"
      using "1.IH"(2) [OF guards(1) _ refl refl _ ptr _ _ refl refl refl _ refl]
        guards ptr fits rec "1.prems"(2)
      by (auto simp: ptr_bytes_simp)
    have "name_at {} buf pos (pos + 2) ls (Suc j)"
      using IH(1) ptr fits by (intro at_ptr [where t = ?t]) auto
    with IH fits show ?thesis
      by (intro exI [of _ "pos + 2"] exI [of _ ls] exI [of _ "Suc j"]) auto
  qed
qed

text \<open>\<open>Name::parse\<close> accepts exactly the names the declarative reading allows within the limits.\<close>

lemma acc_name_of: "(if flat ls = [] then name_root else \<lparr>wire = flat ls @ [0]\<rparr>) = name_of ls"
  by (simp add: name_of_def wire_of_def name_root_def)

lemma name_parse_iff:
  "name_parse r = (Inr n, r') \<longleftrightarrow>
   (\<exists>q ls j. name_at {} (rd_buf r) (rd_pos r) q ls j \<and> labels_ok ls \<and> j \<le> MAX_JUMPS \<and>
      q \<le> rd_limit r \<and> n = name_of ls \<and> r' = r\<lparr>rd_pos := q\<rparr>)" (is "?L \<longleftrightarrow> ?R")
proof
  assume ?L
  then obtain acc e where p: "parse_loop (rd_buf r) (rd_limit r) [] (rd_pos r) False 0 (rd_pos r) 1 =
        Inr (acc, e)"
      and n: "n = (if acc = [] then name_root else \<lparr>wire = acc @ [0]\<rparr>)" "r' = r\<lparr>rd_pos := e\<rparr>"
    by (auto simp: name_parse_def split: sum.splits)
  from parse_loop_sound [OF p] obtain q ls j where
    at: "name_at {} (rd_buf r) (rd_pos r) q ls j" and
    "acc = flat ls" "e = q" "q \<le> rd_limit r" "j \<le> MAX_JUMPS" "1 + length (flat ls) \<le> MAX_NAME_LEN"
    by (auto simp: MAX_NAME_LEN_def MAX_JUMPS_def)
  with n name_at_labels [OF at] show ?R
    unfolding labels_ok_def length_wire_of by (metis acc_name_of add.commute)
next
  assume ?R
  then obtain q ls j where R: "name_at {} (rd_buf r) (rd_pos r) q ls j" "labels_ok ls"
      "j \<le> MAX_JUMPS" "q \<le> rd_limit r" "n = name_of ls" "r' = r\<lparr>rd_pos := q\<rparr>"
    by blast
  then have "parse_loop (rd_buf r) (rd_limit r) [] (rd_pos r) False 0 (rd_pos r) 1 = Inr (flat ls, q)"
    using parse_loop_complete [OF R(1), of False "rd_limit r" 0 1 "[]" "rd_pos r"]
    by (simp add: labels_ok_def length_wire_of)
  with R show ?L by (simp add: name_parse_def acc_name_of)
qed

lemma decodes_name:
  assumes "name_at {} buf p q ls j" and "labels_ok ls" and "j \<le> MAX_JUMPS"
  shows "decodes name_parse buf p q (name_of ls)"
  using assms name_at_bounds [OF assms(1)]
  by (auto simp: decodes_def name_parse_iff)

lemma advancing_name_parse [wf_intros]: "advancing name_parse"
  unfolding advancing_def
proof
  fix r
  obtain res r' where r': "name_parse r = (res, r')" by (cases "name_parse r")
  have "advances r r'"
  proof (cases res)
    case (Inl e)
    with r' have "r' = r" by (auto simp: name_parse_def split: sum.splits)
    then show ?thesis by simp
  next
    case (Inr n)
    with r' show ?thesis
      by (auto simp: name_parse_iff advances_def reader_wf_def dest!: name_at_bounds)
  qed
  with r' show "advances r (snd (name_parse r))" by simp
qed

lemma parse_uncompressed_loop_advances: "advances r (snd (parse_uncompressed_loop acc tot r))"
proof (induction acc tot r rule: parse_uncompressed_loop.induct)
  case (1 acc tot r)
  obtain x r1 where r1: "rd_u8 r = (x, r1)" by (cases "rd_u8 r")
  have a1: "advances r r1" using advancing_basic(3) r1 by (rule advancingD)
  show ?case
  proof (cases x)
    case (Inr b)
    obtain y r2 where r2: "rd_bytes (unat b) r1 = (y, r2)" by (cases "rd_bytes (unat b) r1")
    have a2: "advances r r2"
      using a1 advancingD [OF advancing_basic(4) r2] by (rule advances_trans)
    show ?thesis
    proof (cases y)
      case lab: (Inr lab)
      have "advances r (snd (parse_uncompressed_loop (acc @ [b] @ lab) (tot + (unat b + 1)) r2))"
        if "unat b \<noteq> 0" "\<not> (b AND 0xC0 \<noteq> 0 \<or> unat b > 63)" "\<not> tot + (unat b + 1) > MAX_NAME_LEN"
        using "1.IH" [OF r1 [symmetric] Inr refl that(1,2,3) r2 [symmetric] lab] a2
        by (auto intro: advances_trans)
      then show ?thesis
        using a1 by (subst parse_uncompressed_loop.simps) (auto simp: r1 Inr r2 lab Let_def)
    qed (use a1 a2 in \<open>subst parse_uncompressed_loop.simps, auto simp: r1 Inr r2 Let_def\<close>)
  qed (use a1 in \<open>subst parse_uncompressed_loop.simps, auto simp: r1\<close>)
qed

lemma advancing_parse_uncompressed [wf_intros]: "advancing parse_uncompressed"
  by (simp add: advancing_def parse_uncompressed_def parse_uncompressed_loop_advances)

lemma decodes_uncompressed_loop:
  "list_all label_ok ls \<Longrightarrow> bytes_at buf p (wire_of ls) \<Longrightarrow> tot + length (flat ls) \<le> MAX_NAME_LEN \<Longrightarrow>
   decodes (parse_uncompressed_loop (flat done) tot) buf p (p + length (wire_of ls)) (name_of (done @ ls))"
proof (induction ls arbitrary: p "done" tot)
  case Nil
  then have "rd_u8 \<lparr>rd_buf = buf, rd_pos = p, rd_limit = lim\<rparr> =
      (Inr 0, \<lparr>rd_buf = buf, rd_pos = p + 1, rd_limit = lim\<rparr>)" if "p + 1 \<le> lim" for lim
    using decodes_u8 [of buf p 0] that by (simp add: wire_of_def decodes_def)
  then show ?case
    by (simp add: decodes_def wire_of_def parse_uncompressed_loop.simps acc_name_of)
next
  case (Cons l ls)
  let ?b = "of_nat (length l) :: u8"
  have at: "bytes_at buf p [?b]" "bytes_at buf (p + 1) l" "bytes_at buf (p + 1 + length l) (wire_of ls)"
    using Cons.prems(2) by (simp_all add: wire_of_def bytes_at_Cons)
  have b: "unat ?b = length l" "length l \<noteq> 0" "?b AND 0xC0 = 0" "length l \<le> 63"
    using Cons.prems(1) label_ok_len [of l] by (auto simp: label_ok_def and_C0_zero)
  have IH: "decodes (parse_uncompressed_loop (flat (done @ [l])) (tot + (length l + 1))) buf
      (p + 1 + length l) (p + 1 + length l + length (wire_of ls)) (name_of ((done @ [l]) @ ls))"
    using Cons.prems at by (intro Cons.IH) auto
  show ?case
    unfolding decodes_def
  proof (intro conjI allI impI)
    fix lim
    assume lim: "p + length (wire_of (l # ls)) \<le> lim"
    then have "rd_u8 \<lparr>rd_buf = buf, rd_pos = p, rd_limit = lim\<rparr> =
        (Inr ?b, \<lparr>rd_buf = buf, rd_pos = p + 1, rd_limit = lim\<rparr>)"
      and "rd_bytes (length l) \<lparr>rd_buf = buf, rd_pos = p + 1, rd_limit = lim\<rparr> =
        (Inr l, \<lparr>rd_buf = buf, rd_pos = p + 1 + length l, rd_limit = lim\<rparr>)"
      using decodes_u8 [OF at(1) refl] decodes_bytes [OF at(2) refl refl]
      by (simp_all add: decodes_def wire_of_def)
    then show "parse_uncompressed_loop (flat done) tot \<lparr>rd_buf = buf, rd_pos = p, rd_limit = lim\<rparr> =
        (Inr (name_of (done @ l # ls)),
         \<lparr>rd_buf = buf, rd_pos = p + length (wire_of (l # ls)), rd_limit = lim\<rparr>)"
      using IH lim b Cons.prems(3)
      by (subst parse_uncompressed_loop.simps) (simp add: Let_def decodes_def wire_of_def add_ac)
  qed simp
qed

lemma decodes_uncompressed:
  "labels_ok ls \<Longrightarrow> bytes_at buf p (wire_of ls) \<Longrightarrow> q = p + length (wire_of ls) \<Longrightarrow>
   decodes parse_uncompressed buf p q (name_of ls)"
  using decodes_uncompressed_loop [of ls buf p 1 "[]"]
  by (simp add: parse_uncompressed_def labels_ok_def length_wire_of)

section \<open>Reading back what an encoder wrote\<close>

text \<open>
  \<open>agree H buf buf'\<close>: \<open>buf'\<close> extends \<open>buf\<close> and differs from it at most in the reserved
  positions \<open>H\<close>. \<open>robust\<close> decoding is decoding in every such buffer, so it survives both
  further writes and the later patching of reserved length slots.
\<close>

definition agree :: "nat set \<Rightarrow> bytes \<Rightarrow> bytes \<Rightarrow> bool" where
  "agree H buf buf' \<longleftrightarrow> length buf \<le> length buf' \<and>
     (\<forall>i < length buf. i \<notin> H \<longrightarrow> buf' ! i = buf ! i)"

definition robust :: "nat set \<Rightarrow> 'a rd \<Rightarrow> bytes \<Rightarrow> nat \<Rightarrow> nat \<Rightarrow> 'a \<Rightarrow> bool" where
  "robust H m buf p q x \<longleftrightarrow> (\<forall>buf'. agree H buf buf' \<longrightarrow> decodes m buf' p q x)"

lemma agree_refl [simp]: "agree H buf buf"
  by (simp add: agree_def)

lemma agree_append [simp]: "agree H buf (buf @ new)"
  by (simp add: agree_def nth_append)

lemma agree_trans: "agree H a b \<Longrightarrow> agree H b c \<Longrightarrow> agree H a c"
  by (auto simp: agree_def)

lemma agree_bytes_at:
  assumes "agree H buf buf'" and "bytes_at buf p bs" and "{p..<p + length bs} \<inter> H = {}"
  shows "bytes_at buf' p bs"
proof -
  have b: "p + length bs \<le> length buf" "slice buf p (p + length bs) = bs"
    using assms(2) by (auto simp: bytes_at_def)
  have "buf' ! (p + i) = bs ! i" if i: "i < length bs" for i
  proof -
    have "p + i \<notin> H" using assms(3) i by (auto simp: disjoint_iff)
    then have "buf' ! (p + i) = buf ! (p + i)"
      using assms(1) b(1) i by (simp add: agree_def)
    also have "\<dots> = bs ! i"
      using b i by (metis add_diff_cancel_left' nth_slice)
    finally show ?thesis .
  qed
  moreover have "p + length bs \<le> length buf'" using assms(1) b(1) by (simp add: agree_def)
  ultimately show ?thesis
    by (auto simp: bytes_at_def intro!: nth_equalityI)
qed

lemma agree_name_at:
  assumes "name_at H buf p q ls j" and "agree H buf buf'"
  shows "name_at H buf' p q ls j"
  using assms(1)
proof (induction rule: name_at.induct)
  case (at_root p)
  with assms(2) show ?case by (intro name_at.at_root) (auto simp: agree_def)
next
  case (at_label l p q ls j)
  have "bytes_at buf' p (of_nat (length l) # l)"
    using assms(2) at_label.hyps(2)
    by (rule agree_bytes_at) (use at_label.hyps(3) in \<open>auto simp: disjoint_iff\<close>)
  then show ?case using at_label.hyps(1,3) at_label.IH by (intro name_at.at_label)
next
  case (at_ptr p t q ls j)
  have "buf' ! p = buf ! p" "buf' ! (p + 1) = buf ! (p + 1)" "p + 1 < length buf'"
    using assms(2) at_ptr.hyps(1,3) by (auto simp: agree_def)
  then show ?case using at_ptr.hyps(2-5) at_ptr.IH by (intro name_at.at_ptr [where t = t]) auto
qed

lemma name_at_antimono: "name_at H buf p q ls j \<Longrightarrow> H' \<subseteq> H \<Longrightarrow> name_at H' buf p q ls j"
proof (induction rule: name_at.induct)
  case (at_root p)
  then show ?case by (intro name_at.at_root) auto
next
  case (at_label l p q ls j)
  then show ?case by (intro name_at.at_label) auto
next
  case (at_ptr p t q ls j)
  then show ?case by (intro name_at.at_ptr [where t = t]) blast+
qed

lemma name_at_fresh: "name_at H buf p q ls j \<Longrightarrow> (\<forall>h \<in> H'. length buf \<le> h) \<Longrightarrow> name_at (H \<union> H') buf p q ls j"
proof (induction rule: name_at.induct)
  case (at_root p)
  then show ?case by (intro name_at.at_root) auto
next
  case (at_label l p q ls j)
  have "p + length l < length buf" using at_label.hyps(2) by (simp add: bytes_at_def)
  with at_label show ?case by (intro name_at.at_label) (auto simp: disjoint_iff)
next
  case (at_ptr p t q ls j)
  then show ?case by (intro name_at.at_ptr [where t = t]) auto
qed

lemma robust_bytes_field:
  assumes "bytes_at buf p bs" and "{p..<p + length bs} \<inter> H = {}"
    and "\<And>buf'. bytes_at buf' p bs \<Longrightarrow> decodes m buf' p q x"
  shows "robust H m buf p q x"
  using assms by (auto simp: robust_def intro: agree_bytes_at)

lemma robust_name:
  assumes "name_at H buf p q ls j" and "labels_ok ls" and "j \<le> MAX_JUMPS"
  shows "robust H name_parse buf p q (name_of ls)"
  unfolding robust_def
proof (intro allI impI)
  fix buf' assume "agree H buf buf'"
  with assms(1) have "name_at {} buf' p q ls j"
    by (meson agree_name_at empty_subsetI name_at_antimono)
  then show "decodes name_parse buf' p q (name_of ls)" using assms(2,3) by (rule decodes_name)
qed

lemma robust_bind: "robust H m buf p q x \<Longrightarrow> robust H (f x) buf q s y \<Longrightarrow> robust H (rd_bind m f) buf p s y"
  by (auto simp: robust_def intro: decodes_bind)

lemma robust_agree: "robust H m buf p q x \<Longrightarrow> agree H buf buf' \<Longrightarrow> robust H m buf' p q x"
  by (auto simp: robust_def intro: agree_trans)

section \<open>Recorded offsets stay valid\<close>

definition entry_ok :: "nat set \<Rightarrow> bytes \<Rightarrow> bytes \<Rightarrow> u16 \<Rightarrow> bool" where
  "entry_ok H buf key off \<longleftrightarrow> unat off < 0x4000 \<and> unat off < length buf \<and>
     (\<exists>q ls j. name_at H buf (unat off) q ls j \<and> labels_ok ls \<and>
        wire_of (lower_labels ls) = key \<and> j < length ls)"

definition names_ok :: "nat set \<Rightarrow> writer \<Rightarrow> bool" where
  "names_ok H w \<longleftrightarrow> (\<forall>key off. name_map_get (wr_names w) key = Some off \<longrightarrow>
     entry_ok H (wr_buf w) key off)"

definition ready :: "nat set \<Rightarrow> writer \<Rightarrow> bool" where
  "ready H w \<longleftrightarrow> writer_wf w \<and> names_ok H w \<and> (\<forall>h \<in> H. h < length (wr_buf w))"

lemma entry_okI:
  "unat off < 0x4000 \<Longrightarrow> unat off < length buf \<Longrightarrow> name_at H buf (unat off) q ls j \<Longrightarrow>
   labels_ok ls \<Longrightarrow> wire_of (lower_labels ls) = key \<Longrightarrow> j < length ls \<Longrightarrow> entry_ok H buf key off"
  unfolding entry_ok_def by blast

lemma entry_okE:
  assumes "entry_ok H buf key off"
  obtains q ls j where "unat off < 0x4000" and "unat off < length buf"
    and "name_at H buf (unat off) q ls j" and "labels_ok ls"
    and "wire_of (lower_labels ls) = key" and "j < length ls"
  using assms unfolding entry_ok_def by blast

lemma entry_ok_agree:
  assumes "entry_ok H buf key off" and "agree H buf buf'"
  shows "entry_ok H buf' key off"
  using assms(1)
proof (rule entry_okE)
  fix q ls j
  assume e: "unat off < 0x4000" "unat off < length buf" "name_at H buf (unat off) q ls j"
    "labels_ok ls" "wire_of (lower_labels ls) = key" "j < length ls"
  have "unat off < length buf'" using e(2) assms(2) by (simp add: agree_def)
  with e agree_name_at [OF e(3) assms(2)] show ?thesis by (intro entry_okI)
qed

lemma lower_labels_length [simp]: "length (lower_labels ls) = length ls"
  by (simp add: lower_labels_def)

lemma lower_key_inj:
  "labels_ok xs \<Longrightarrow> labels_ok ys \<Longrightarrow> wire_of (lower_labels xs) = wire_of (lower_labels ys) \<longleftrightarrow>
   lower_labels xs = lower_labels ys"
  using name_of_inj [of "lower_labels xs" "lower_labels ys"] by (simp add: name_of_def)

lemma pointer_at:
  assumes "unat off < 0x4000" and "unat off < length buf" and "\<forall>h \<in> H. h < length buf"
    and "name_at H buf (unat off) q ls j"
  shows "name_at H (buf @ u16_to_be_bytes (0xC000 OR off)) (length buf) (length buf + 2) ls (Suc j)"
proof (rule at_ptr [where t = "unat off" and q = q])
  let ?v = "0xC000 OR off" and ?buf = "buf @ u16_to_be_bytes (0xC000 OR off)"
  have at: "?buf ! length buf = ucast (drop_bit 8 ?v)" "?buf ! (length buf + 1) = ucast ?v"
    by (simp_all add: u16_to_be_bytes_def nth_append)
  show "?buf ! length buf AND 0xC0 = 0xC0" unfolding at by (rule ptr_kind)
  show "unat off = unat (u16_from_be_bytes (?buf ! length buf) (?buf ! (length buf + 1)) AND 0x3FFF)"
    unfolding at u16_from_to_be by (simp only: ptr_off [OF assms(1)])
  show "name_at H ?buf (unat off) q ls j" using assms(4) by (rule agree_name_at) simp
qed (use assms(2,3) in auto)

lemma name_encode_loop_failed: "wr_error w \<noteq> None \<Longrightarrow> name_encode_loop ls key w = w"
  by (induction ls key w rule: name_encode_loop.induct)
    (auto simp: push_failed is_failed_def Let_def split: option.split)

text \<open>
  The encoding loop records the key of every suffix before the suffix is complete. \<open>P\<close> holds
  the keys recorded by the iterations already under way; they are longer than the current
  key, so no lookup meets them, and their entries become valid as the iterations return.
\<close>

definition emitted :: "nat set \<Rightarrow> bytes set \<Rightarrow> writer \<Rightarrow> writer \<Rightarrow> bytes list \<Rightarrow> bool" where
  "emitted H P w w' ls \<longleftrightarrow> writer_wf w' \<and> wr_error w = None \<and>
     (\<exists>new. wr_buf w' = wr_buf w @ new) \<and>
     (\<exists>ls' j. name_at H (wr_buf w') (length (wr_buf w)) (length (wr_buf w')) ls' j \<and>
        labels_ok ls' \<and> lower_labels ls' = lower_labels ls \<and> j \<le> length ls) \<and>
     (\<forall>k \<in> P. name_map_get (wr_names w') k = name_map_get (wr_names w) k) \<and>
     (\<forall>k off. k \<notin> P \<longrightarrow> name_map_get (wr_names w') k = Some off \<longrightarrow> entry_ok H (wr_buf w') k off)"

lemma encode_root:
  assumes wf: "writer_wf w" and err: "wr_error (push_u8 w 0) = None"
    and entries: "\<forall>k off. k \<notin> P \<longrightarrow> name_map_get (wr_names w) k = Some off \<longrightarrow> entry_ok H (wr_buf w) k off"
    and H: "\<forall>h \<in> H. h < length (wr_buf w)"
  shows "emitted H P w (push_u8 w 0) []"
proof -
  have w': "push_u8 w 0 = w\<lparr>wr_buf := wr_buf w @ [0]\<rparr>" "wr_error w = None"
    using wf err by (auto simp: push_as_bytes push_bytes_eq push_bytes_ok)
  have "name_at H (wr_buf w @ [0]) (length (wr_buf w)) (length (wr_buf w) + 1) [] 0"
    using H by (intro at_root) auto
  then have "\<exists>ls' j. name_at H (wr_buf w @ [0]) (length (wr_buf w)) (length (wr_buf w) + 1) ls' j \<and>
      labels_ok ls' \<and> lower_labels ls' = lower_labels [] \<and> j \<le> length ([] :: bytes list)"
    by (intro exI [of _ "[]"] exI [of _ 0]) simp
  moreover have "entry_ok H (wr_buf w @ [0]) k off"
    if "k \<notin> P" "name_map_get (wr_names w) k = Some off" for k off
    using entries that by (auto intro: entry_ok_agree [OF _ agree_append])
  moreover have "writer_wf (push_u8 w 0)" using wf by (rule push_wf)
  ultimately show ?thesis by (simp add: emitted_def w')
qed

lemma encode_pointer:
  assumes wf: "writer_wf w" and err: "wr_error (push_u16 w (0xC000 OR off)) = None"
    and entries: "\<forall>k off. k \<notin> P \<longrightarrow> name_map_get (wr_names w) k = Some off \<longrightarrow> entry_ok H (wr_buf w) k off"
    and H: "\<forall>h \<in> H. h < length (wr_buf w)" and ls: "labels_ok ls"
    and hit: "entry_ok H (wr_buf w) (wire_of (lower_labels ls)) off"
  shows "emitted H P w (push_u16 w (0xC000 OR off)) ls"
proof -
  let ?new = "u16_to_be_bytes (0xC000 OR off)"
  have w': "push_u16 w (0xC000 OR off) = w\<lparr>wr_buf := wr_buf w @ ?new\<rparr>" "wr_error w = None"
    using wf err by (auto simp: push_as_bytes push_bytes_eq push_bytes_ok)
  obtain q ls' j where e: "unat off < 0x4000" "unat off < length (wr_buf w)"
      "name_at H (wr_buf w) (unat off) q ls' j" "labels_ok ls'"
      "wire_of (lower_labels ls') = wire_of (lower_labels ls)" "j < length ls'"
    using hit by (rule entry_okE)
  have same: "lower_labels ls' = lower_labels ls" using e ls by (simp add: lower_key_inj)
  then have "length ls' = length ls" by (metis lower_labels_length)
  then have "\<exists>ls' j. name_at H (wr_buf w @ ?new) (length (wr_buf w)) (length (wr_buf w) + 2) ls' j \<and>
      labels_ok ls' \<and> lower_labels ls' = lower_labels ls \<and> j \<le> length ls"
    using e same pointer_at [OF e(1,2) H e(3)]
    by (intro exI [of _ ls'] exI [of _ "Suc j"]) auto
  moreover have "entry_ok H (wr_buf w @ ?new) k off'"
    if "k \<notin> P" "name_map_get (wr_names w) k = Some off'" for k off'
    using entries that by (auto intro: entry_ok_agree [OF _ agree_append])
  moreover have "writer_wf (push_u16 w (0xC000 OR off))" using wf by (rule push_wf)
  ultimately show ?thesis by (simp add: emitted_def w')
qed


lemma encode_label:
  assumes wf: "writer_wf w" and err: "wr_error w3 = None" and l: "label_ok l"
    and w1: "w1 = (if \<not> is_failed w \<and> length (wr_buf w) < 0x4000
        then w\<lparr>wr_names := name_map_insert (wr_names w) key (of_nat (length (wr_buf w)))\<rparr> else w)"
    and w3: "w3 = push_bytes (push_u8 w1 (of_nat (length l))) l"
  shows "writer_wf w3" and "wr_error w = None"
    and "wr_buf w3 = wr_buf w @ of_nat (length l) # l"
    and "name_map_get (wr_names w3) k =
      (if k = key \<and> length (wr_buf w) < 0x4000 then Some (of_nat (length (wr_buf w)))
       else name_map_get (wr_names w) k)"
proof -
  have inv: "name_map_inv (wr_names w)" using wf by (simp add: writer_wf_def)
  have wf1: "writer_wf w1" using wf by (simp add: w1 writer_wf_def nm.inv_ins)
  then show "writer_wf w3" unfolding w3 by (intro wf_intros)
  have wf2: "writer_wf (push_u8 w1 (of_nat (length l)))" using wf1 by (rule push_wf)
  have e2: "wr_error (push_u8 w1 (of_nat (length l))) = None"
    using err wf2 by (simp add: w3 push_bytes_ok)
  then have "wr_error w1 = None" using wf1 by (simp add: push_as_bytes push_bytes_ok)
  then show e: "wr_error w = None" by (simp add: w1 split: if_splits)
  have w2: "push_u8 w1 (of_nat (length l)) = w1\<lparr>wr_buf := wr_buf w1 @ [of_nat (length l)]\<rparr>"
    using wf1 e2 by (simp add: push_as_bytes push_bytes_eq)
  have w3': "w3 = w1\<lparr>wr_buf := wr_buf w1 @ of_nat (length l) # l\<rparr>"
    using push_bytes_eq [OF wf2, of l] err by (simp add: w3 w2)
  then show "wr_buf w3 = wr_buf w @ of_nat (length l) # l" by (simp add: w1)
  show "name_map_get (wr_names w3) k =
      (if k = key \<and> length (wr_buf w) < 0x4000 then Some (of_nat (length (wr_buf w)))
       else name_map_get (wr_names w) k)"
    using e by (simp add: w3' w1 is_failed_def nm.get_ins [OF inv])
qed

lemma labels_ok_ConsD: "labels_ok (l # ls) \<Longrightarrow> label_ok l \<and> labels_ok ls"
  by (auto simp: labels_ok_def wire_of_def)

lemma encode_loop_emitted:
  assumes "writer_wf w" and "labels_ok ls" and "key = wire_of (lower_labels ls)"
    and "\<forall>k off. k \<notin> P \<longrightarrow> name_map_get (wr_names w) k = Some off \<longrightarrow> entry_ok H (wr_buf w) k off"
    and "\<forall>k \<in> P. length key < length k" and "\<forall>h \<in> H. h < length (wr_buf w)"
    and "wr_error (name_encode_loop ls key w) = None"
  shows "emitted H P w (name_encode_loop ls key w) ls"
  using assms
proof (induction ls arbitrary: w key P)
  case Nil
  then show ?case using encode_root by simp
next
  case (Cons l ls)
  note [simp del] = push_u8_def
  have l: "label_ok l" "labels_ok ls" using Cons.prems(2) by (auto dest: labels_ok_ConsD)
  show ?case
  proof (cases "name_map_get (wr_names w) key")
    case (Some off)
    have "key \<notin> P" using Cons.prems(5) by auto
    with Some Cons.prems show ?thesis
      by (simp, intro encode_pointer) auto
  next
    case None
    define w1 where "w1 = (if \<not> is_failed w \<and> length (wr_buf w) < 0x4000
        then w\<lparr>wr_names := name_map_insert (wr_names w) key (of_nat (length (wr_buf w)))\<rparr> else w)"
    define w3 where "w3 = push_bytes (push_u8 w1 (of_nat (length l))) l"
    define key' where "key' = wire_of (lower_labels ls)"
    define w' where "w' = name_encode_loop ls key' w3"
    have key': "drop (length l + 1) key = key'" "length key' < length key"
      by (simp_all add: Cons.prems(3) key'_def wire_of_def lower_labels_def)
    have w': "name_encode_loop (l # ls) key w = w'"
      using None by (simp add: w'_def w3_def w1_def key'(1) [simplified])
    have err': "wr_error w' = None" using Cons.prems(7) w' by simp
    then have err: "wr_error w3 = None"
      by (metis name_encode_loop_failed w'_def)
    note step = encode_label [OF Cons.prems(1) err l(1) w1_def w3_def]
    have len3: "length (wr_buf w3) = length (wr_buf w) + 1 + length l" by (simp add: step(3))
    have ag: "agree H (wr_buf w) (wr_buf w3)" by (simp add: step(3))
    have IH: "emitted H (insert key P) w3 w' ls"
      unfolding w'_def
    proof (rule Cons.IH [OF step(1) l(2) key'_def])
      show "\<forall>k off. k \<notin> insert key P \<longrightarrow> name_map_get (wr_names w3) k = Some off \<longrightarrow>
          entry_ok H (wr_buf w3) k off"
        using Cons.prems(4) ag by (auto simp: step(4) intro: entry_ok_agree)
      show "\<forall>k \<in> insert key P. length key' < length k"
        using key'(2) Cons.prems(5) by auto
      show "\<forall>h \<in> H. h < length (wr_buf w3)" using Cons.prems(6) len3 by auto
      show "wr_error (name_encode_loop ls key' w3) = None" using err' by (simp add: w'_def)
    qed
    obtain new ls' j where tail: "wr_buf w' = wr_buf w3 @ new" "writer_wf w'"
        "name_at H (wr_buf w') (length (wr_buf w3)) (length (wr_buf w')) ls' j"
        "labels_ok ls'" "lower_labels ls' = lower_labels ls" "j \<le> length ls"
      using IH by (auto simp: emitted_def)
    have "bytes_at (wr_buf w') (length (wr_buf w)) (of_nat (length l) # l)"
      using bytes_at_mid [of "wr_buf w" "of_nat (length l) # l" new] tail(1) step(3) by simp
    then have at: "name_at H (wr_buf w') (length (wr_buf w)) (length (wr_buf w')) (l # ls') j"
      using tail(3) l(1) Cons.prems(6) len3 by (intro at_label) (auto simp: disjoint_iff)
    have low: "lower_labels (l # ls') = lower_labels (l # ls)"
      using tail(5) by (simp add: lower_labels_def)
    have ok: "labels_ok (l # ls')"
      using Cons.prems(2) by (metis labels_ok_lower low)
    have len': "length ls' = length ls" by (metis lower_labels_length tail(5))
    have entry: "entry_ok H (wr_buf w') key (of_nat (length (wr_buf w)))"
      if "length (wr_buf w) < 0x4000"
    proof -
      have off: "unat (of_nat (length (wr_buf w)) :: u16) = length (wr_buf w)" using that by simp
      show ?thesis
        by (rule entry_okI [where ls = "l # ls'" and j = j])
          (use that off at ok low tail(1,6) step(3) Cons.prems(3) len' in simp_all)
    qed
    have "entry_ok H (wr_buf w') k off"
      if "k \<notin> P" "name_map_get (wr_names w') k = Some off" for k off
    proof (cases "k = key")
      case True
      then have "name_map_get (wr_names w3) k = Some off"
        using IH that by (auto simp: emitted_def)
      with True None entry show ?thesis by (auto simp: step(4) split: if_splits)
    next
      case False
      with IH that show ?thesis by (auto simp: emitted_def)
    qed
    moreover have "name_map_get (wr_names w') k = name_map_get (wr_names w) k" if "k \<in> P" for k
      using IH that Cons.prems(5) by (auto simp: emitted_def step(4))
    ultimately show ?thesis
      unfolding w' emitted_def
      using tail at ok low step(2,3) by (auto intro!: exI [of _ "l # ls'"] exI [of _ j])
  qed
qed


section \<open>Codecs\<close>

text \<open>
  \<open>codec H f m R\<close>: whenever the writing action \<open>f\<close> succeeds from a ready writer, it only
  appends, leaves the writer ready, and the reading action \<open>m\<close> reads the appended bytes back,
  to the last, as a value that satisfies \<open>R\<close>.
\<close>

definition codec :: "nat set \<Rightarrow> (writer \<Rightarrow> writer) \<Rightarrow> 'a rd \<Rightarrow> ('a \<Rightarrow> bool) \<Rightarrow> bool" where
  "codec H f m R \<longleftrightarrow> (\<forall>w. ready H w \<longrightarrow> wr_error (f w) = None \<longrightarrow>
     ready H (f w) \<and> wr_error w = None \<and> (\<exists>new. wr_buf (f w) = wr_buf w @ new) \<and>
     (\<exists>x. R x \<and> robust H m (wr_buf (f w)) (length (wr_buf w)) (length (wr_buf (f w))) x))"

lemma codecI:
  assumes "\<And>w. ready H w \<Longrightarrow> wr_error (f w) = None \<Longrightarrow> ready H (f w)"
    and "\<And>w. ready H w \<Longrightarrow> wr_error (f w) = None \<Longrightarrow> wr_error w = None"
    and "\<And>w. ready H w \<Longrightarrow> wr_error (f w) = None \<Longrightarrow> \<exists>new. wr_buf (f w) = wr_buf w @ new"
    and "\<And>w. ready H w \<Longrightarrow> wr_error (f w) = None \<Longrightarrow>
      \<exists>x. R x \<and> robust H m (wr_buf (f w)) (length (wr_buf w)) (length (wr_buf (f w))) x"
  shows "codec H f m R"
  using assms by (simp add: codec_def)

lemma codecD:
  assumes "codec H f m R" and "ready H w" and "wr_error (f w) = None"
  shows "ready H (f w)" and "wr_error w = None" and "\<exists>new. wr_buf (f w) = wr_buf w @ new"
    and "\<exists>x. R x \<and> robust H m (wr_buf (f w)) (length (wr_buf w)) (length (wr_buf (f w))) x"
  using assms by (auto simp: codec_def)

lemma codec_weaken: "codec H f m R \<Longrightarrow> (\<And>x. R x \<Longrightarrow> S x) \<Longrightarrow> codec H f m S"
  unfolding codec_def by blast

text \<open>A failing action never recovers, so a success of the whole is a success of its parts.\<close>

definition sticky :: "(writer \<Rightarrow> writer) \<Rightarrow> bool" where
  "sticky f \<longleftrightarrow> (\<forall>w. wr_error w \<noteq> None \<longrightarrow> f w = w)"

lemma sticky_comp: "sticky f \<Longrightarrow> sticky g \<Longrightarrow> sticky (\<lambda>w. g (f w))"
  by (simp add: sticky_def)

lemma stickyD: "sticky f \<Longrightarrow> wr_error (f w) = None \<Longrightarrow> wr_error w = None"
  unfolding sticky_def by metis

lemma codec_bind:
  assumes f: "codec H f m R" and g: "\<And>x. R x \<Longrightarrow> codec H g (k x) S" and stick: "sticky g"
  shows "codec H (\<lambda>w. g (f w)) (rd_bind m k) S"
proof (unfold codec_def, intro allI impI)
  fix w
  assume w: "ready H w" and err: "wr_error (g (f w)) = None"
  have errf: "wr_error (f w) = None" using stick err by (rule stickyD)
  note F = codecD [OF f w errf]
  obtain x new where x: "R x" "robust H m (wr_buf (f w)) (length (wr_buf w)) (length (wr_buf (f w))) x"
      and new: "wr_buf (f w) = wr_buf w @ new"
    using F(3,4) by blast
  note G = codecD [OF g [OF x(1)] F(1) err]
  obtain y new' where y: "S y"
      "robust H (k x) (wr_buf (g (f w))) (length (wr_buf (f w))) (length (wr_buf (g (f w)))) y"
      and new': "wr_buf (g (f w)) = wr_buf (f w) @ new'"
    using G(3,4) by blast
  have "robust H m (wr_buf (g (f w))) (length (wr_buf w)) (length (wr_buf (f w))) x"
    using x(2) by (rule robust_agree) (simp add: new')
  then have "robust H (rd_bind m k) (wr_buf (g (f w))) (length (wr_buf w)) (length (wr_buf (g (f w)))) y"
    using y(2) by (rule robust_bind)
  with y(1) G(1) F(2) new new' show "ready H (g (f w)) \<and> wr_error w = None \<and>
      (\<exists>new. wr_buf (g (f w)) = wr_buf w @ new) \<and>
      (\<exists>x. S x \<and> robust H (rd_bind m k) (wr_buf (g (f w))) (length (wr_buf w))
        (length (wr_buf (g (f w)))) x)"
    by auto
qed

lemma codec_last:
  assumes f: "codec H f m R" and h: "\<And>x. R x \<Longrightarrow> S (h x)"
  shows "codec H f (rd_bind m (\<lambda>x. rd_return (h x))) S"
proof (unfold codec_def, intro allI impI)
  fix w
  assume w: "ready H w" "wr_error (f w) = None"
  note F = codecD [OF f w]
  obtain x where x: "R x" "robust H m (wr_buf (f w)) (length (wr_buf w)) (length (wr_buf (f w))) x"
    using F(4) by blast
  have "robust H (rd_bind m (\<lambda>x. rd_return (h x))) (wr_buf (f w)) (length (wr_buf w))
      (length (wr_buf (f w))) (h x)"
    using x(2) by (rule robust_bind) (simp add: robust_def decodes_return)
  with x(1) h F show "ready H (f w) \<and> wr_error w = None \<and> (\<exists>new. wr_buf (f w) = wr_buf w @ new) \<and>
      (\<exists>x. S x \<and> robust H (rd_bind m (\<lambda>x. rd_return (h x))) (wr_buf (f w)) (length (wr_buf w))
        (length (wr_buf (f w))) x)"
    by blast
qed

lemma ready_push_bytes: "ready H w \<Longrightarrow> wr_error (push_bytes w b) = None \<Longrightarrow> ready H (push_bytes w b)"
proof -
  assume w: "ready H w" and err: "wr_error (push_bytes w b) = None"
  then have eq: "push_bytes w b = w\<lparr>wr_buf := wr_buf w @ b\<rparr>"
    by (intro push_bytes_eq) (auto simp: ready_def)
  have "writer_wf (push_bytes w b)" using w by (auto simp: ready_def intro: push_bytes_wf)
  moreover have "names_ok H (push_bytes w b)"
    using w by (auto simp: eq names_ok_def ready_def intro: entry_ok_agree [OF _ agree_append])
  ultimately show ?thesis using w by (auto simp: ready_def eq)
qed

lemma codec_push:
  assumes "\<And>buf p. bytes_at buf p b \<Longrightarrow> decodes m buf p (p + length b) x" and "R x"
  shows "codec H (\<lambda>w. push_bytes w b) m R"
proof (rule codecI)
  fix w
  assume w: "ready H w" and err: "wr_error (push_bytes w b) = None"
  have wf: "writer_wf w" using w by (simp add: ready_def)
  show "ready H (push_bytes w b)" using w err by (rule ready_push_bytes)
  show "wr_error w = None" using err by (simp add: push_bytes_ok [OF wf])
  show "\<exists>new. wr_buf (push_bytes w b) = wr_buf w @ new"
    by (simp add: push_bytes_eq [OF wf err])
  have "robust H m (wr_buf w @ b) (length (wr_buf w)) (length (wr_buf w @ b)) x"
  proof (rule robust_bytes_field [where bs = b])
    show "{length (wr_buf w)..<length (wr_buf w) + length b} \<inter> H = {}"
      using w by (auto simp: ready_def)
  qed (simp_all add: assms(1))
  with assms(2) show "\<exists>x. R x \<and> robust H m (wr_buf (push_bytes w b)) (length (wr_buf w))
      (length (wr_buf (push_bytes w b))) x"
    by (auto simp: push_bytes_eq [OF wf err])
qed

lemma codec_u8: "codec H (\<lambda>w. push_u8 w v) rd_u8 (\<lambda>x. x = v)"
  unfolding push_as_bytes by (rule codec_push) (auto intro: decodes_u8)

lemma codec_u16: "codec H (\<lambda>w. push_u16 w v) rd_u16 (\<lambda>x. x = v)"
  unfolding push_as_bytes by (rule codec_push) (auto intro: decodes_u16)

lemma codec_u32: "codec H (\<lambda>w. push_u32 w v) rd_u32 (\<lambda>x. x = v)"
  unfolding push_as_bytes by (rule codec_push) (auto intro: decodes_u32)

lemma codec_bytes: "n = length b \<Longrightarrow> codec H (\<lambda>w. push_bytes w b) (rd_bytes n) (\<lambda>x. x = b)"
  by (rule codec_push) (auto intro: decodes_bytes)

text \<open>A decoded name is well formed and equal to the encoded one up to ASCII case.\<close>

definition same_name :: "name \<Rightarrow> name \<Rightarrow> bool" where
  "same_name n x \<longleftrightarrow> name_wf x \<and> eq_ignore_case x n"

lemma sticky_push:
  "sticky (\<lambda>w. push_u8 w a)" "sticky (\<lambda>w. push_u16 w b)" "sticky (\<lambda>w. push_u32 w c)"
  "sticky (\<lambda>w. push_bytes w bs)" "sticky (\<lambda>w. writer_fail w m)" "sticky (\<lambda>w. backpatch_len w at)"
  by (simp_all add: sticky_def push_failed)

lemma sticky_name_encode: "sticky (name_encode n)"
  by (auto simp: sticky_def name_encode_def name_encode_loop_failed push_failed split: option.split)

lemma sticky_encode_uncompressed: "sticky (encode_uncompressed n)"
  by (simp add: sticky_def encode_uncompressed_def push_failed)

lemmas sticky_intros = sticky_comp sticky_push sticky_name_encode sticky_encode_uncompressed

lemma codec_name:
  assumes n: "name_wf n" and jumps: "num_labels n \<le> MAX_JUMPS"
  shows "codec H (name_encode n) name_parse (same_name n)"
proof -
  obtain ls where ls: "labels_ok ls" "n = name_of ls" using n by (rule name_wfE)
  let ?key = "wire_of (lower_labels ls)"
  have enc: "name_encode n w = name_encode_loop ls ?key w" for w
    using ls by (simp add: name_encode_def labels_ok_def)
  have em: "emitted H {} w (name_encode n w) ls" if "ready H w" "wr_error (name_encode n w) = None" for w
    using that ls(1) unfolding enc by (intro encode_loop_emitted) (auto simp: ready_def names_ok_def)
  show ?thesis
  proof (rule codecI)
    fix w
    assume w: "ready H w" and err: "wr_error (name_encode n w) = None"
    note E = em [OF w err, unfolded emitted_def]
    show "wr_error w = None" "\<exists>new. wr_buf (name_encode n w) = wr_buf w @ new" using E by auto
    then show "ready H (name_encode n w)"
      using E w by (auto simp: ready_def names_ok_def)
    obtain ls' j where at: "name_at H (wr_buf (name_encode n w)) (length (wr_buf w))
          (length (wr_buf (name_encode n w))) ls' j"
        "labels_ok ls'" "lower_labels ls' = lower_labels ls" "j \<le> length ls"
      using E by blast
    have "j \<le> MAX_JUMPS" using at(4) jumps ls by simp
    with at have "robust H name_parse (wr_buf (name_encode n w)) (length (wr_buf w))
        (length (wr_buf (name_encode n w))) (name_of ls')"
      by (intro robust_name)
    moreover have "same_name n (name_of ls')"
      using at ls by (simp add: same_name_def eq_ignore_case_name_of)
    ultimately show "\<exists>x. same_name n x \<and> robust H name_parse (wr_buf (name_encode n w))
        (length (wr_buf w)) (length (wr_buf (name_encode n w))) x"
      by blast
  qed
qed

lemma name_at_uncompressed:
  "list_all label_ok ls \<Longrightarrow> bytes_at buf p (wire_of ls) \<Longrightarrow> name_at {} buf p (p + length (wire_of ls)) ls 0"
proof (induction ls arbitrary: p)
  case Nil
  then show ?case using at_root [of p buf "{}"] by (simp add: wire_of_def bytes_at_Cons)
next
  case (Cons l ls)
  have at: "bytes_at buf p (of_nat (length l) # l)" "bytes_at buf (p + 1 + length l) (wire_of ls)"
    using Cons.prems(2) bytes_at_append [of buf p "of_nat (length l) # l" "wire_of ls"]
    by (simp_all add: wire_of_def)
  have "name_at {} buf p (p + 1 + length l + length (wire_of ls)) (l # ls) 0"
    using Cons.prems(1) at by (intro at_label Cons.IH) auto
  then show ?case by (simp add: wire_of_def add_ac)
qed

lemma codec_uncompressed:
  assumes "name_wf n"
  shows "codec H (encode_uncompressed n) parse_uncompressed (\<lambda>x. x = n)"
    and "codec H (encode_uncompressed n) name_parse (\<lambda>x. x = n)"
proof -
  obtain ls where ls: "labels_ok ls" "n = name_of ls" using assms by (rule name_wfE)
  have *: "encode_uncompressed n = (\<lambda>w. push_bytes w (wire_of ls))"
    by (simp add: encode_uncompressed_def ls fun_eq_iff)
  show "codec H (encode_uncompressed n) parse_uncompressed (\<lambda>x. x = n)"
    unfolding * using ls by (intro codec_push [where x = "name_of ls"] decodes_uncompressed) auto
  show "codec H (encode_uncompressed n) name_parse (\<lambda>x. x = n)"
    unfolding * using ls
    by (intro codec_push [where x = "name_of ls"] decodes_name [where j = 0] name_at_uncompressed)
      (auto simp: labels_ok_def)
qed

end
