(* ===== verification/RData.thy ===== *)
theory RData
  imports NameCodec
begin

text \<open>
  Record types, typed record data and resource records, \<open>onetdns-proto/src/rdata.rs\<close>:
  parsing and encoding of every RDATA variant, the SVCB parameter rules, the record codec
  with its RDLENGTH bracket, and the RFC 2181 TTL normalisation of a section.
\<close>

section \<open>Types\<close>

text \<open>
  \<open>RecordType\<close> and \<open>DnsClass\<close> are newtypes over \<open>u16\<close>; the constants the code compares with
  are abbreviations. \<open>Ipv4Addr\<close> and \<open>Ipv6Addr\<close> are their 4 and 16 octets.
\<close>

abbreviation "RT_A \<equiv> (1 :: u16)"
abbreviation "RT_NS \<equiv> (2 :: u16)"
abbreviation "RT_CNAME \<equiv> (5 :: u16)"
abbreviation "RT_SOA \<equiv> (6 :: u16)"
abbreviation "RT_PTR \<equiv> (12 :: u16)"
abbreviation "RT_MX \<equiv> (15 :: u16)"
abbreviation "RT_TXT \<equiv> (16 :: u16)"
abbreviation "RT_AAAA \<equiv> (28 :: u16)"
abbreviation "RT_SRV \<equiv> (33 :: u16)"
abbreviation "RT_NAPTR \<equiv> (35 :: u16)"
abbreviation "RT_DNAME \<equiv> (39 :: u16)"
abbreviation "RT_OPT \<equiv> (41 :: u16)"
abbreviation "RT_SSHFP \<equiv> (44 :: u16)"
abbreviation "RT_RRSIG \<equiv> (46 :: u16)"
abbreviation "RT_TLSA \<equiv> (52 :: u16)"
abbreviation "RT_SVCB \<equiv> (64 :: u16)"
abbreviation "RT_HTTPS \<equiv> (65 :: u16)"
abbreviation "RT_URI \<equiv> (256 :: u16)"
abbreviation "RT_CAA \<equiv> (257 :: u16)"
abbreviation "CLASS_IN \<equiv> (1 :: u16)"

definition record_type_name :: "u16 \<Rightarrow> string" where
  "record_type_name t =
     (if t = 1 then ''A'' else if t = 2 then ''NS'' else if t = 5 then ''CNAME''
      else if t = 6 then ''SOA'' else if t = 12 then ''PTR'' else if t = 15 then ''MX''
      else if t = 16 then ''TXT'' else if t = 28 then ''AAAA'' else if t = 33 then ''SRV''
      else if t = 35 then ''NAPTR'' else if t = 39 then ''DNAME'' else if t = 41 then ''OPT''
      else if t = 43 then ''DS'' else if t = 46 then ''RRSIG'' else if t = 47 then ''NSEC''
      else if t = 48 then ''DNSKEY'' else if t = 50 then ''NSEC3'' else if t = 59 then ''CDS''
      else if t = 60 then ''CDNSKEY'' else if t = 64 then ''SVCB'' else if t = 65 then ''HTTPS''
      else if t = 257 then ''CAA'' else if t = 255 then ''ANY'' else ''UNKNOWN'')"

record naptr =
  naptr_order :: u16
  naptr_preference :: u16
  naptr_flags :: bytes
  naptr_services :: bytes
  naptr_regexp :: bytes
  naptr_replacement :: name

record soa =
  soa_mname :: name
  soa_rname :: name
  soa_serial :: u32
  soa_refresh :: u32
  soa_retry :: u32
  soa_expire :: u32
  soa_minimum :: u32

type_synonym svc_params = "(u16 \<times> bytes) list"

datatype rdata =
    A bytes
  | Aaaa bytes
  | Ns name
  | Cname name
  | Dname name
  | Ptr name
  | Mx u16 name
  | Txt "bytes list"
  | Soa soa
  | Srv u16 u16 u16 name
  | Caa u8 bytes bytes
  | Tlsa u8 u8 u8 bytes
  | Sshfp u8 u8 bytes
  | Naptr naptr
  | Uri u16 u16 bytes
  | Svcb u16 name svc_params
  | Https u16 name svc_params
  | Unknown u16 bytes

fun record_type :: "rdata \<Rightarrow> u16" where
  "record_type (A _) = RT_A"
| "record_type (Aaaa _) = RT_AAAA"
| "record_type (Ns _) = RT_NS"
| "record_type (Cname _) = RT_CNAME"
| "record_type (Dname _) = RT_DNAME"
| "record_type (Ptr _) = RT_PTR"
| "record_type (Mx _ _) = RT_MX"
| "record_type (Txt _) = RT_TXT"
| "record_type (Soa _) = RT_SOA"
| "record_type (Srv _ _ _ _) = RT_SRV"
| "record_type (Caa _ _ _) = RT_CAA"
| "record_type (Tlsa _ _ _ _) = RT_TLSA"
| "record_type (Sshfp _ _ _) = RT_SSHFP"
| "record_type (Naptr _) = RT_NAPTR"
| "record_type (Uri _ _ _) = RT_URI"
| "record_type (Svcb _ _ _) = RT_SVCB"
| "record_type (Https _ _ _) = RT_HTTPS"
| "record_type (Unknown t _) = t"

section \<open>Character strings and SVCB parameters\<close>

definition read_char_string :: "bytes rd" where
  "read_char_string = rd_bind rd_u8 (\<lambda>n. rd_bytes (unat n))"

definition write_char_string :: "bytes \<Rightarrow> writer \<Rightarrow> writer" where
  "write_char_string s w =
     (if length s \<ge> 256 then writer_fail w CharStringTooLong
      else push_bytes (push_u8 w (of_nat (length s))) s)"

definition is_unsupported_name_bearing :: "u16 \<Rightarrow> bool" where
  "is_unsupported_name_bearing t \<longleftrightarrow> t \<in> {3, 4, 7, 8, 9, 14, 17, 18, 21, 23, 26, 30, 36}"

fun strictly_ascending :: "svc_params \<Rightarrow> bool" where
  "strictly_ascending (x # y # rest) \<longleftrightarrow> fst x < fst y \<and> strictly_ascending (y # rest)"
| "strictly_ascending _ \<longleftrightarrow> True"

text \<open>The \<open>chunks_exact(2)\<close> loop over a \<open>mandatory\<close> value.\<close>

fun mandatory_list_ok :: "(u16 \<Rightarrow> bool) \<Rightarrow> u16 option \<Rightarrow> bytes \<Rightarrow> bool" where
  "mandatory_list_ok has previous (hi # lo # rest) \<longleftrightarrow>
     (let listed = u16_from_be_bytes hi lo in
      listed \<noteq> 0 \<and> (case previous of Some p \<Rightarrow> p < listed | None \<Rightarrow> True) \<and> has listed \<and>
      mandatory_list_ok has (Some listed) rest)"
| "mandatory_list_ok has previous _ \<longleftrightarrow> True"

text \<open>The \<open>alpn\<close> loop over the bytes not yet consumed.\<close>

function alpn_list_ok :: "bytes \<Rightarrow> bool" where
  "alpn_list_ok [] \<longleftrightarrow> True"
| "alpn_list_ok (len # rest) \<longleftrightarrow>
     unat len \<noteq> 0 \<and> unat len \<le> length rest \<and> alpn_list_ok (drop (unat len) rest)"
  by pat_completeness auto
termination
  by (relation "measure length") auto

definition svcb_param_check :: "(u16 \<Rightarrow> bool) \<Rightarrow> u16 \<Rightarrow> bytes \<Rightarrow> svcb_reason option" where
  "svcb_param_check has key value =
     (if key = 0 then
        (if value = [] \<or> length value mod 2 \<noteq> 0 then Some SvcbMandatoryShape
         else if \<not> mandatory_list_ok has None value then Some SvcbMandatoryList
         else None)
      else if key = 1 then
        (if \<not> alpn_list_ok value then Some SvcbAlpnLength
         else if value = [] then Some SvcbAlpnEmpty
         else None)
      else if key = 2 \<and> (value \<noteq> [] \<or> \<not> has 1) then Some SvcbNoDefaultAlpn
      else if key = 3 \<and> length value \<noteq> 2 then Some SvcbPort
      else if key = 4 \<and> (value = [] \<or> length value mod 4 \<noteq> 0) then Some SvcbIpv4Hint
      else if key = 6 \<and> (value = [] \<or> length value mod 16 \<noteq> 0) then Some SvcbIpv6Hint
      else None)"

fun svcb_params_loop :: "(u16 \<Rightarrow> bool) \<Rightarrow> svc_params \<Rightarrow> svcb_reason option" where
  "svcb_params_loop has [] = None"
| "svcb_params_loop has ((key, value) # rest) =
     (case svcb_param_check has key value of
        Some e \<Rightarrow> Some e
      | None \<Rightarrow> svcb_params_loop has rest)"

text \<open>
  \<open>None\<close> is success. The keys are in strictly ascending order where \<open>has\<close> is used, so the
  binary search of the source succeeds exactly on the keys present.
\<close>

definition validate_svcb_params :: "u16 \<Rightarrow> svc_params \<Rightarrow> svcb_reason option" where
  "validate_svcb_params priority params =
     (if \<not> strictly_ascending params then Some SvcbOrder
      else if params \<noteq> [] \<and> fst (last params) = 0xFFFF then Some SvcbReservedKey
      else if priority = 0 then None
      else svcb_params_loop (\<lambda>key. key \<in> set (map fst params)) params)"

definition rdata_validate :: "rdata \<Rightarrow> svcb_reason option" where
  "rdata_validate rd =
     (case rd of
        Svcb priority _ params \<Rightarrow> validate_svcb_params priority params
      | Https priority _ params \<Rightarrow> validate_svcb_params priority params
      | _ \<Rightarrow> None)"

section \<open>Parsing record data\<close>

lemma rd_u8_pos: "rd_u8 r = (Inr b, r') \<Longrightarrow> rd_pos r' = rd_pos r + 1"
  by (auto simp: rd_u8_def split: if_splits)

lemma rd_bytes_pos: "rd_bytes n r = (Inr b, r') \<Longrightarrow> rd_pos r' = rd_pos r + n"
  by (auto simp: rd_bytes_def Let_def split: if_splits)

lemma rd_u16_pos: "rd_u16 r = (Inr b, r') \<Longrightarrow> rd_pos r' = rd_pos r + 2"
  by (auto simp: rd_u16_def dest!: rd_u8_pos elim!: rd_bind_InrE)

text \<open>One \<open>character-string\<close> of a TXT record, and the loop that reads them up to \<open>end\<close>.\<close>

function txt_loop :: "nat \<Rightarrow> bytes list \<Rightarrow> bytes list rd" where
  "txt_loop end chunks r =
     (if rd_pos r < end then
        (case rd_u8 r of
           (Inl e, r1) \<Rightarrow> (Inl e, r1)
         | (Inr n, r1) \<Rightarrow>
             (case rd_bytes (unat n) r1 of
                (Inl e, r2) \<Rightarrow> (Inl e, r2)
              | (Inr c, r2) \<Rightarrow> txt_loop end (chunks @ [c]) r2))
      else (Inr chunks, r))"
  by pat_completeness auto
termination
  by (relation "measure (\<lambda>(end, chunks, r). end - rd_pos r)")
    (auto dest!: sym [of _ "rd_u8 _"] sym [of _ "rd_bytes _ _"] rd_u8_pos rd_bytes_pos)

declare txt_loop.simps [simp del]

text \<open>One SVCB parameter (key, length, value), and the loop that reads them up to \<open>end\<close>.\<close>

definition read_svc_param :: "(u16 \<times> bytes) rd" where
  "read_svc_param =
     rd_bind rd_u16 (\<lambda>key. rd_bind rd_u16 (\<lambda>plen. rd_bind (rd_bytes (unat plen)) (\<lambda>v.
       rd_return (key, v))))"

lemma read_svc_param_pos: "read_svc_param r = (Inr p, r') \<Longrightarrow> rd_pos r < rd_pos r'"
  by (auto simp: read_svc_param_def dest!: rd_u16_pos rd_bytes_pos elim!: rd_bind_InrE)

function svc_loop :: "nat \<Rightarrow> svc_params \<Rightarrow> svc_params rd" where
  "svc_loop end params r =
     (if rd_pos r < end then
        (case read_svc_param r of
           (Inl e, r1) \<Rightarrow> (Inl e, r1)
         | (Inr p, r1) \<Rightarrow> svc_loop end (params @ [p]) r1)
      else (Inr params, r))"
  by pat_completeness auto
termination
  by (relation "measure (\<lambda>(end, params, r). end - rd_pos r)")
    (auto dest!: sym [of _ "read_svc_param _"] read_svc_param_pos)

declare svc_loop.simps [simp del]

text \<open>\<open>rdlen.checked_sub(k).ok_or(Eof)\<close> followed by reading that many bytes.\<close>

definition rd_rest :: "nat \<Rightarrow> nat \<Rightarrow> bytes rd" where
  "rd_rest rdlen k = (if k \<le> rdlen then rd_bytes (rdlen - k) else rd_fail Eof)"

definition parse_soa :: "rdata rd" where
  "parse_soa =
     rd_bind name_parse (\<lambda>mname. rd_bind name_parse (\<lambda>rname.
     rd_bind rd_u32 (\<lambda>serial. rd_bind rd_u32 (\<lambda>refresh. rd_bind rd_u32 (\<lambda>retry.
     rd_bind rd_u32 (\<lambda>expire. rd_bind rd_u32 (\<lambda>minimum.
       rd_return (Soa \<lparr>soa_mname = mname, soa_rname = rname, soa_serial = serial,
         soa_refresh = refresh, soa_retry = retry, soa_expire = expire,
         soa_minimum = minimum\<rparr>))))))))"

definition parse_naptr :: "rdata rd" where
  "parse_naptr =
     rd_bind rd_u16 (\<lambda>order. rd_bind rd_u16 (\<lambda>preference.
     rd_bind read_char_string (\<lambda>flags. rd_bind read_char_string (\<lambda>services.
     rd_bind read_char_string (\<lambda>regexp. rd_bind name_parse (\<lambda>replacement.
       rd_return (Naptr \<lparr>naptr_order = order, naptr_preference = preference,
         naptr_flags = flags, naptr_services = services, naptr_regexp = regexp,
         naptr_replacement = replacement\<rparr>)))))))"

definition parse_svcb :: "u16 \<Rightarrow> nat \<Rightarrow> rdata rd" where
  "parse_svcb rtype rdlen r =
     (let end = rd_pos r + rdlen in
      rd_bind rd_u16 (\<lambda>priority. rd_bind parse_uncompressed (\<lambda>target.
      rd_bind (svc_loop end []) (\<lambda>params.
        case validate_svcb_params priority params of
          Some e \<Rightarrow> rd_fail (MessageError (SvcbInvalid e))
        | None \<Rightarrow> rd_return (if rtype = RT_SVCB then Svcb priority target params
                             else Https priority target params)))) r)"

definition rdata_parse :: "u16 \<Rightarrow> nat \<Rightarrow> rdata rd" where
  "rdata_parse rtype rdlen =
     (if rtype = RT_A then rd_bind (rd_bytes 4) (\<lambda>b. rd_return (A b))
      else if rtype = RT_AAAA then rd_bind (rd_bytes 16) (\<lambda>b. rd_return (Aaaa b))
      else if rtype = RT_NS then rd_bind name_parse (\<lambda>n. rd_return (Ns n))
      else if rtype = RT_CNAME then rd_bind name_parse (\<lambda>n. rd_return (Cname n))
      else if rtype = RT_DNAME then rd_bind name_parse (\<lambda>n. rd_return (Dname n))
      else if rtype = RT_PTR then rd_bind name_parse (\<lambda>n. rd_return (Ptr n))
      else if rtype = RT_MX then
        rd_bind rd_u16 (\<lambda>p. rd_bind name_parse (\<lambda>n. rd_return (Mx p n)))
      else if rtype = RT_TXT then
        (\<lambda>r. rd_bind (txt_loop (rd_pos r + rdlen) []) (\<lambda>cs. rd_return (Txt cs)) r)
      else if rtype = RT_SOA then parse_soa
      else if rtype = RT_SRV then
        rd_bind rd_u16 (\<lambda>pr. rd_bind rd_u16 (\<lambda>we. rd_bind rd_u16 (\<lambda>po.
        rd_bind name_parse (\<lambda>t. rd_return (Srv pr we po t)))))
      else if rtype = RT_CAA then
        rd_bind rd_u8 (\<lambda>flags. rd_bind rd_u8 (\<lambda>tag_len. rd_bind (rd_bytes (unat tag_len)) (\<lambda>tag.
        rd_bind (rd_rest rdlen (2 + unat tag_len)) (\<lambda>value. rd_return (Caa flags tag value)))))
      else if rtype = RT_TLSA then
        rd_bind rd_u8 (\<lambda>u. rd_bind rd_u8 (\<lambda>s. rd_bind rd_u8 (\<lambda>m.
        rd_bind (rd_rest rdlen 3) (\<lambda>d. rd_return (Tlsa u s m d)))))
      else if rtype = RT_SSHFP then
        rd_bind rd_u8 (\<lambda>a. rd_bind rd_u8 (\<lambda>t.
        rd_bind (rd_rest rdlen 2) (\<lambda>f. rd_return (Sshfp a t f))))
      else if rtype = RT_NAPTR then parse_naptr
      else if rtype = RT_URI then
        rd_bind rd_u16 (\<lambda>p. rd_bind rd_u16 (\<lambda>we.
        rd_bind (rd_rest rdlen 4) (\<lambda>t. rd_return (Uri p we t))))
      else if rtype = RT_SVCB \<or> rtype = RT_HTTPS then parse_svcb rtype rdlen
      else if is_unsupported_name_bearing rtype
      then rd_fail (MessageError (UnsupportedRdata rtype))
      else rd_bind (rd_bytes rdlen) (\<lambda>b. rd_return (Unknown rtype b)))"

section \<open>Encoding record data\<close>

fun encode_txt :: "bytes list \<Rightarrow> writer \<Rightarrow> writer" where
  "encode_txt [] w = w"
| "encode_txt (c # cs) w =
     (if length c \<ge> 256 then writer_fail w TxtChunkTooLong
      else encode_txt cs (push_bytes (push_u8 w (of_nat (length c))) c))"

fun encode_svc_params :: "svc_params \<Rightarrow> writer \<Rightarrow> writer" where
  "encode_svc_params [] w = w"
| "encode_svc_params ((key, v) # rest) w =
     (let w1 = push_u16 w key in
      if length v \<ge> 65536 then writer_fail w1 SvcbParamTooLong
      else encode_svc_params rest (push_bytes (push_u16 w1 (of_nat (length v))) v))"

definition encode_svcb :: "u16 \<Rightarrow> name \<Rightarrow> svc_params \<Rightarrow> writer \<Rightarrow> writer" where
  "encode_svcb priority target params w =
     (case validate_svcb_params priority params of
        Some e \<Rightarrow> writer_fail w (SvcbDisplayed e)
      | None \<Rightarrow> encode_svc_params params (encode_uncompressed target (push_u16 w priority)))"

fun rdata_encode :: "rdata \<Rightarrow> writer \<Rightarrow> writer" where
  "rdata_encode (A ip) w = push_bytes w ip"
| "rdata_encode (Aaaa ip) w = push_bytes w ip"
| "rdata_encode (Ns n) w = name_encode n w"
| "rdata_encode (Cname n) w = name_encode n w"
| "rdata_encode (Ptr n) w = name_encode n w"
| "rdata_encode (Dname n) w = encode_uncompressed n w"
| "rdata_encode (Mx preference exchange) w = name_encode exchange (push_u16 w preference)"
| "rdata_encode (Txt chunks) w = encode_txt chunks w"
| "rdata_encode (Soa s) w =
     push_u32 (push_u32 (push_u32 (push_u32 (push_u32
       (name_encode (soa_rname s) (name_encode (soa_mname s) w))
       (soa_serial s)) (soa_refresh s)) (soa_retry s)) (soa_expire s)) (soa_minimum s)"
| "rdata_encode (Srv priority weight port target) w =
     encode_uncompressed target (push_u16 (push_u16 (push_u16 w priority) weight) port)"
| "rdata_encode (Caa flags tag value) w =
     (let w1 = push_u8 w flags in
      if length tag \<ge> 256 then writer_fail w1 CaaTagTooLong
      else push_bytes (push_bytes (push_u8 w1 (of_nat (length tag))) tag) value)"
| "rdata_encode (Tlsa usage selector matching data) w =
     push_bytes (push_u8 (push_u8 (push_u8 w usage) selector) matching) data"
| "rdata_encode (Sshfp algorithm fp_type fingerprint) w =
     push_bytes (push_u8 (push_u8 w algorithm) fp_type) fingerprint"
| "rdata_encode (Naptr n) w =
     encode_uncompressed (naptr_replacement n)
       (write_char_string (naptr_regexp n)
         (write_char_string (naptr_services n)
           (write_char_string (naptr_flags n)
             (push_u16 (push_u16 w (naptr_order n)) (naptr_preference n)))))"
| "rdata_encode (Uri priority weight target) w =
     push_bytes (push_u16 (push_u16 w priority) weight) target"
| "rdata_encode (Svcb priority target params) w = encode_svcb priority target params w"
| "rdata_encode (Https priority target params) w = encode_svcb priority target params w"
| "rdata_encode (Unknown t b) w = push_bytes w b"

section \<open>Resource records\<close>

record rr =
  rr_name :: name
  rr_rtype :: u16
  rr_class :: u16
  rr_ttl :: u32
  rr_rdata :: rdata

definition rr_new :: "name \<Rightarrow> u32 \<Rightarrow> rdata \<Rightarrow> rr" where
  "rr_new n ttl rd =
     \<lparr>rr_name = n, rr_rtype = record_type rd, rr_class = CLASS_IN, rr_ttl = ttl, rr_rdata = rd\<rparr>"

text \<open>
  The second half of \<open>parse_inner\<close>: RDATA is read with the limit narrowed to the declared end
  and the limit is restored before the result is looked at.
\<close>

definition parse_rdata_section ::
    "u16 list option \<Rightarrow> name \<Rightarrow> u16 \<Rightarrow> u16 \<Rightarrow> u32 \<Rightarrow> nat \<Rightarrow> rr rd" where
  "parse_rdata_section empty_rdata_classes n rtype class ttl rdlen r =
     (let end = rd_pos r + rdlen in
      if end > rd_limit r then (Inl Eof, r)
      else (let previous_limit = rd_limit r;
                r1 = r\<lparr>rd_limit := end\<rparr>;
                (parsed, r2) =
                  (if rdlen = 0 \<and> (case empty_rdata_classes of None \<Rightarrow> False
                                   | Some classes \<Rightarrow> class \<in> set classes)
                   then (Inr (Unknown rtype []), r1)
                   else rdata_parse rtype rdlen r1);
                r3 = r2\<lparr>rd_limit := previous_limit\<rparr>
            in case parsed of
                 Inl e \<Rightarrow> (Inl e, r3)
               | Inr rd \<Rightarrow>
                   if rd_pos r3 \<noteq> end then (Inl (NameError RdataLength), r3)
                   else (Inr \<lparr>rr_name = n, rr_rtype = rtype, rr_class = class, rr_ttl = ttl,
                              rr_rdata = rd\<rparr>, r3)))"

definition parse_inner :: "u16 list option \<Rightarrow> rr rd" where
  "parse_inner empty_rdata_classes =
     rd_bind name_parse (\<lambda>n. rd_bind rd_u16 (\<lambda>rtype. rd_bind rd_u16 (\<lambda>class.
     rd_bind rd_u32 (\<lambda>ttl. rd_bind rd_u16 (\<lambda>rdlen.
       parse_rdata_section empty_rdata_classes n rtype class ttl (unat rdlen))))))"

definition rr_parse :: "rr rd" where
  "rr_parse = parse_inner None"

definition parse_update_empty :: "rr rd" where
  "parse_update_empty = parse_inner (Some [254, 255])"

definition parse_update_operation :: "rr rd" where
  "parse_update_operation = parse_inner (Some [255])"

definition encode_with_ttl :: "rr \<Rightarrow> u32 \<Rightarrow> writer \<Rightarrow> writer" where
  "encode_with_ttl rec ttl w =
     (let w1 = name_encode (rr_name rec) w;
          w2 = push_u16 w1 (rr_rtype rec);
          w3 = push_u16 w2 (rr_class rec);
          w4 = push_u32 w3 ttl;
          (at, w5) = placeholder_u16 w4;
          w6 = rdata_encode (rr_rdata rec) w5
      in backpatch_len w6 at)"

definition rr_encode :: "rr \<Rightarrow> writer \<Rightarrow> writer" where
  "rr_encode rec w = encode_with_ttl rec (rr_ttl rec) w"

section \<open>TTL normalisation\<close>

definition MAX_TTL :: u32 where "MAX_TTL = 0x7fffffff"

definition ttl_field_is_not_a_lifetime :: "u16 \<Rightarrow> bool" where
  "ttl_field_is_not_a_lifetime t \<longleftrightarrow> t \<in> {41, 249, 250}"

type_synonym rrset_key = "bytes \<times> u16 \<times> u16 \<times> u16"

definition rrset_key :: "rr \<Rightarrow> rrset_key" where
  "rrset_key rec =
     (let covered =
        (if rr_rtype rec = RT_RRSIG then
           (case rr_rdata rec of
              Unknown _ raw \<Rightarrow>
                if length raw \<ge> 2 then u16_from_be_bytes (raw ! 0) (raw ! 1) else 0
            | _ \<Rightarrow> 0)
         else 0)
      in (canonical_key (rr_name rec), rr_rtype rec, rr_class rec, covered))"

definition clamp_ttl :: "rr \<Rightarrow> rr" where
  "clamp_ttl rec =
     (if \<not> ttl_field_is_not_a_lifetime (rr_rtype rec) \<and> rr_ttl rec > MAX_TTL
      then rec\<lparr>rr_ttl := 0\<rparr> else rec)"

text \<open>
  The \<open>HashMap\<close> of lowest lifetimes as an association list with distinct keys:
  \<open>entry(key).and_modify(min).or_insert(ttl)\<close>.
\<close>

fun lowest_entry :: "rrset_key \<Rightarrow> u32 \<Rightarrow> (rrset_key \<times> u32) list \<Rightarrow> (rrset_key \<times> u32) list" where
  "lowest_entry k ttl [] = [(k, ttl)]"
| "lowest_entry k ttl ((k', ttl') # m) =
     (if k' = k then (k', min ttl' ttl) # m else (k', ttl') # lowest_entry k ttl m)"

fun collect_lowest :: "rr list \<Rightarrow> (rrset_key \<times> u32) list \<Rightarrow> (rrset_key \<times> u32) list" where
  "collect_lowest [] m = m"
| "collect_lowest (rec # rest) m =
     collect_lowest rest
       (if ttl_field_is_not_a_lifetime (rr_rtype rec) then m
        else lowest_entry (rrset_key rec) (rr_ttl rec) m)"

definition normalize_ttls :: "rr list \<Rightarrow> rr list" where
  "normalize_ttls records =
     (let clamped = map clamp_ttl records; lowest = collect_lowest clamped [] in
      if length lowest = length clamped then clamped
      else map (\<lambda>rec. if ttl_field_is_not_a_lifetime (rr_rtype rec) then rec
                      else case map_of lowest (rrset_key rec) of
                             Some ttl \<Rightarrow> rec\<lparr>rr_ttl := ttl\<rparr>
                           | None \<Rightarrow> rec) clamped)"

end
