(* ===== verification/RDataCodec.thy ===== *)
theory RDataCodec
  imports RData
begin

text \<open>
  The record codec reads back what it wrote: for every kind of record data, \<open>RData::parse\<close>
  inverts \<open>RData::encode\<close> (\<open>codec_rdata\<close>), and a whole record, with its compressed owner name
  and its back-patched RDLENGTH, is inverted by \<open>Record::parse_inner\<close> (\<open>codec_rr\<close>).
\<close>

section \<open>Reading record data back\<close>

text \<open>
  \<open>codec_len\<close> is \<open>codec\<close> for a reader that is told how many bytes were written, as
  \<open>RData::parse\<close> is told RDLENGTH.
\<close>

definition codec_len :: "nat set \<Rightarrow> (writer \<Rightarrow> writer) \<Rightarrow> (nat \<Rightarrow> 'a rd) \<Rightarrow> ('a \<Rightarrow> bool) \<Rightarrow> bool" where
  "codec_len H f m R \<longleftrightarrow> (\<forall>w. ready H w \<longrightarrow> wr_error (f w) = None \<longrightarrow>
     ready H (f w) \<and> wr_error w = None \<and> (\<exists>new. wr_buf (f w) = wr_buf w @ new \<and>
     (\<exists>x. R x \<and> robust H (m (length new)) (wr_buf (f w)) (length (wr_buf w))
        (length (wr_buf (f w))) x)))"

lemma codec_len_const: "codec H f m R \<Longrightarrow> codec_len H f (\<lambda>_. m) R"
  unfolding codec_def codec_len_def by blast

lemma codec_len_bytes:
  assumes f: "\<And>w. writer_wf w \<Longrightarrow> wr_error (f w) = None \<Longrightarrow> f w = push_bytes w bs"
    and m: "\<And>buf p. bytes_at buf p bs \<Longrightarrow> decodes (m (length bs)) buf p (p + length bs) x"
    and x: "R x"
  shows "codec_len H f m R"
  unfolding codec_len_def
proof (intro allI impI)
  fix w
  assume w: "ready H w" and err: "wr_error (f w) = None"
  have wf: "writer_wf w" using w by (simp add: ready_def)
  have eq: "f w = push_bytes w bs" using f wf err .
  have err': "wr_error (push_bytes w bs) = None" using err eq by simp
  have c: "codec H (\<lambda>w. push_bytes w bs) (m (length bs)) R"
    using m x by (intro codec_push)
  show "ready H (f w) \<and> wr_error w = None \<and> (\<exists>new. wr_buf (f w) = wr_buf w @ new \<and>
     (\<exists>x. R x \<and> robust H (m (length new)) (wr_buf (f w)) (length (wr_buf w))
        (length (wr_buf (f w))) x))"
    using codecD [OF c w err'] push_bytes_eq [OF wf err'] unfolding eq by auto
qed

lemma push_bytes_Nil: "writer_wf w \<Longrightarrow> push_bytes w [] = w"
  using reserve_append_cases [of w 0]
  by (cases "wr_error w") (auto simp: push_bytes_def writer_wf_def)

lemma push_push:
  assumes "writer_wf w" and "wr_error (push_bytes (push_bytes w a) b) = None"
  shows "push_bytes (push_bytes w a) b = push_bytes w (a @ b)"
proof -
  have wf: "writer_wf (push_bytes w a)" using assms(1) by (rule push_bytes_wf)
  have ok: "wr_error (push_bytes w a) = None"
      "length (wr_buf (push_bytes w a)) + length b \<le> wr_limit w"
    using assms(2) by (simp_all add: push_bytes_ok [OF wf])
  have eq: "push_bytes w a = w\<lparr>wr_buf := wr_buf w @ a\<rparr>" using assms(1) ok(1) by (rule push_bytes_eq)
  have two: "push_bytes (push_bytes w a) b = w\<lparr>wr_buf := wr_buf w @ a @ b\<rparr>"
    using push_bytes_eq [OF wf assms(2)] by (simp add: eq)
  have "wr_error (push_bytes w (a @ b)) = None"
    using ok by (simp add: push_bytes_ok [OF assms(1)]) (simp add: eq)
  then show ?thesis using push_bytes_eq [OF assms(1), of "a @ b"] two by simp
qed

lemma foldl_push:
  "writer_wf w \<Longrightarrow> wr_error (foldl push_bytes w bss) = None \<Longrightarrow>
   foldl push_bytes w bss = push_bytes w (concat bss)"
proof (induction bss arbitrary: w)
  case (Cons b bss)
  have "foldl push_bytes (push_bytes w b) bss = push_bytes (push_bytes w b) (concat bss)"
    using Cons.prems by (intro Cons.IH) (auto intro: wf_intros)
  with Cons.prems push_push [of w b "concat bss"] show ?case by simp
qed (simp add: push_bytes_Nil)

definition char_string :: "bytes \<Rightarrow> bytes" where
  "char_string c = of_nat (length c) # c"

definition svc_param_bytes :: "u16 \<times> bytes \<Rightarrow> bytes" where
  "svc_param_bytes p = u16_to_be_bytes (fst p) @ u16_to_be_bytes (of_nat (length (snd p))) @ snd p"

lemma encode_txt_foldl:
  "wr_error (encode_txt cs w) = None \<Longrightarrow>
   list_all (\<lambda>c. length c < 256) cs \<and>
   encode_txt cs w = foldl push_bytes w (concat (map (\<lambda>c. [[of_nat (length c)], c]) cs))"
  by (induction cs arbitrary: w) (auto simp: push_as_bytes split: if_splits)

lemma encode_svc_params_foldl:
  "wr_error (encode_svc_params ps w) = None \<Longrightarrow>
   list_all (\<lambda>p. length (snd p) < 65536) ps \<and>
   encode_svc_params ps w = foldl push_bytes w (concat (map (\<lambda>p.
     [u16_to_be_bytes (fst p), u16_to_be_bytes (of_nat (length (snd p))), snd p]) ps))"
  by (induction ps w rule: encode_svc_params.induct) (auto simp: push_as_bytes Let_def split: if_splits)

lemma concat_concat_map: "concat (concat (map f xs)) = concat (map (\<lambda>x. concat (f x)) xs)"
  by (induction xs) auto

lemma decodes_txt_loop:
  "list_all (\<lambda>c. length c < 256) cs \<Longrightarrow> bytes_at buf p (concat (map char_string cs)) \<Longrightarrow>
   q = p + length (concat (map char_string cs)) \<Longrightarrow> decodes (txt_loop q acc) buf p q (acc @ cs)"
proof (induction cs arbitrary: p acc)
  case Nil
  then show ?case by (simp add: decodes_def txt_loop.simps)
next
  case (Cons c cs)
  have len: "unat (of_nat (length c) :: u8) = length c" using Cons.prems(1) by simp
  have at: "bytes_at buf p [of_nat (length c)]" "bytes_at buf (p + 1) c"
      "bytes_at buf (p + 1 + length c) (concat (map char_string cs))"
    using Cons.prems(2) by (simp_all add: char_string_def [of c] bytes_at_Cons)
  have IH: "decodes (txt_loop q (acc @ [c])) buf (p + 1 + length c) q ((acc @ [c]) @ cs)"
    using Cons.prems at by (intro Cons.IH) (auto simp: char_string_def [of c])
  note d8 = decodes_u8 [OF at(1) refl] and db = decodes_bytes [OF at(2) refl refl]
  have "p < q" using Cons.prems(3) by (simp add: char_string_def [of c])
  show ?case
    unfolding decodes_def
  proof (intro conjI allI impI)
    fix lim assume lim: "q \<le> lim"
    have "p + 1 + length c \<le> q" using decodes_le [OF IH] .
    with lim d8 db IH \<open>p < q\<close> len
    show "txt_loop q acc \<lparr>rd_buf = buf, rd_pos = p, rd_limit = lim\<rparr> =
        (Inr (acc @ c # cs), \<lparr>rd_buf = buf, rd_pos = q, rd_limit = lim\<rparr>)"
      by (subst txt_loop.simps) (simp add: decodes_def)
  qed (use \<open>p < q\<close> in simp)
qed

lemma decodes_svc_param:
  "length v < 65536 \<Longrightarrow> bytes_at buf p (svc_param_bytes (k, v)) \<Longrightarrow> q = p + length (svc_param_bytes (k, v)) \<Longrightarrow>
   decodes read_svc_param buf p q (k, v)"
proof -
  assume v: "length v < 65536" and at: "bytes_at buf p (svc_param_bytes (k, v))"
    and q: "q = p + length (svc_param_bytes (k, v))"
  have len: "unat (of_nat (length v) :: u16) = length v" using v by simp
  have "decodes rd_u16 buf p (p + 2) k" "decodes rd_u16 buf (p + 2) (p + 4) (of_nat (length v))"
      "decodes (rd_bytes (unat (of_nat (length v) :: u16))) buf (p + 4) q v"
    unfolding len using at q
    by (auto simp: svc_param_bytes_def numeral_eq_Suc intro!: decodes_u16 decodes_bytes)
  then show ?thesis
    unfolding read_svc_param_def by (meson decodes_bind decodes_return)
qed

lemma decodes_svc_loop:
  "list_all (\<lambda>p. length (snd p) < 65536) ps \<Longrightarrow> bytes_at buf p (concat (map svc_param_bytes ps)) \<Longrightarrow>
   q = p + length (concat (map svc_param_bytes ps)) \<Longrightarrow> decodes (svc_loop q acc) buf p q (acc @ ps)"
proof (induction ps arbitrary: p acc)
  case Nil
  then show ?case by (simp add: decodes_def svc_loop.simps)
next
  case (Cons kv ps)
  let ?n = "length (svc_param_bytes kv)"
  have at: "bytes_at buf p (svc_param_bytes kv)" "bytes_at buf (p + ?n) (concat (map svc_param_bytes ps))"
    using Cons.prems(2) by simp_all
  have IH: "decodes (svc_loop q (acc @ [kv])) buf (p + ?n) q ((acc @ [kv]) @ ps)"
    using Cons.prems at by (intro Cons.IH) auto
  have one: "decodes read_svc_param buf p (p + ?n) kv"
    using decodes_svc_param [of "snd kv" buf p "fst kv"] at Cons.prems(1) by simp
  have n: "0 < ?n" by (simp add: svc_param_bytes_def)
  have le: "p + ?n \<le> q" using decodes_le [OF IH] .
  show ?case
    unfolding decodes_def
  proof (intro conjI allI impI)
    fix lim assume lim: "q \<le> lim"
    have "p < q" using n le by linarith
    with lim one IH le show "svc_loop q acc \<lparr>rd_buf = buf, rd_pos = p, rd_limit = lim\<rparr> =
        (Inr (acc @ kv # ps), \<lparr>rd_buf = buf, rd_pos = q, rd_limit = lim\<rparr>)"
      by (subst svc_loop.simps) (simp add: decodes_def)
  qed (use le in simp)
qed


text \<open>A list of writing actions run in order, and its codec rules.\<close>

definition seqw :: "(writer \<Rightarrow> writer) list \<Rightarrow> writer \<Rightarrow> writer" where
  "seqw fs w = foldl (\<lambda>w f. f w) w fs"

lemma sticky_seqw: "list_all sticky fs \<Longrightarrow> sticky (seqw fs)"
  unfolding seqw_def sticky_def by (induction fs) auto

lemma codec_Cons:
  assumes "codec H f m R" and "\<And>x. R x \<Longrightarrow> codec H (seqw fs) (k x) S" and "list_all sticky fs"
  shows "codec H (seqw (f # fs)) (rd_bind m k) S"
proof -
  have "seqw (f # fs) = (\<lambda>w. seqw fs (f w))" by (simp add: seqw_def fun_eq_iff)
  then show ?thesis using codec_bind [OF assms(1,2) sticky_seqw [OF assms(3)]] by simp
qed

lemma codec_one:
  "codec H f m R \<Longrightarrow> (\<And>x. R x \<Longrightarrow> S (h x)) \<Longrightarrow> codec H (seqw [f]) (rd_bind m (\<lambda>x. rd_return (h x))) S"
  using codec_last [of H f m R S h] by (simp add: seqw_def [abs_def])

lemma sticky_write_char_string: "sticky (write_char_string s)"
  by (simp add: sticky_def write_char_string_def push_failed)

lemma codec_char_string: "codec H (write_char_string s) read_char_string (\<lambda>x. x = s)"
proof (cases "length s < 256")
  case True
  then have len: "unat (of_nat (length s) :: u8) = length s" by simp
  have "codec H (\<lambda>w. push_bytes (push_u8 w (of_nat (length s))) s)
      (rd_bind rd_u8 (\<lambda>n. rd_bytes (unat n))) (\<lambda>x. x = s)"
    by (rule codec_bind [OF codec_u8]) (auto simp: len intro: codec_bytes sticky_push)
  with True show ?thesis
    by (simp add: read_char_string_def write_char_string_def [abs_def])
next
  case False
  then show ?thesis by (simp add: codec_def write_char_string_def)
qed

definition name_ok :: "name \<Rightarrow> bool" where
  "name_ok n \<longleftrightarrow> name_wf n \<and> num_labels n \<le> MAX_JUMPS"

definition typed_rtypes :: "u16 set" where
  "typed_rtypes = {RT_A, RT_NS, RT_CNAME, RT_SOA, RT_PTR, RT_MX, RT_TXT, RT_AAAA, RT_SRV, RT_NAPTR,
     RT_DNAME, RT_SSHFP, RT_TLSA, RT_SVCB, RT_HTTPS, RT_URI, RT_CAA}"

text \<open>
  The record data the codec is meant for: addresses of the right size, well-formed names (with
  few enough labels where they are compressed), and raw bytes only for types that are not
  interpreted and cannot hide compressed names.
\<close>

fun rdata_wf :: "rdata \<Rightarrow> bool" where
  "rdata_wf (A b) \<longleftrightarrow> length b = 4"
| "rdata_wf (Aaaa b) \<longleftrightarrow> length b = 16"
| "rdata_wf (Ns n) \<longleftrightarrow> name_ok n"
| "rdata_wf (Cname n) \<longleftrightarrow> name_ok n"
| "rdata_wf (Ptr n) \<longleftrightarrow> name_ok n"
| "rdata_wf (Dname n) \<longleftrightarrow> name_wf n"
| "rdata_wf (Mx p n) \<longleftrightarrow> name_ok n"
| "rdata_wf (Soa s) \<longleftrightarrow> name_ok (soa_mname s) \<and> name_ok (soa_rname s)"
| "rdata_wf (Srv a b c n) \<longleftrightarrow> name_wf n"
| "rdata_wf (Naptr n) \<longleftrightarrow> name_wf (naptr_replacement n)"
| "rdata_wf (Svcb p n ps) \<longleftrightarrow> name_wf n"
| "rdata_wf (Https p n ps) \<longleftrightarrow> name_wf n"
| "rdata_wf (Unknown t b) \<longleftrightarrow> t \<notin> typed_rtypes \<and> \<not> is_unsupported_name_bearing t"
| "rdata_wf _ \<longleftrightarrow> True"

text \<open>Equal up to the letter case of the names the encoder compresses.\<close>

fun same_rdata :: "rdata \<Rightarrow> rdata \<Rightarrow> bool" where
  "same_rdata (Ns n) x \<longleftrightarrow> (\<exists>n'. x = Ns n' \<and> same_name n n')"
| "same_rdata (Cname n) x \<longleftrightarrow> (\<exists>n'. x = Cname n' \<and> same_name n n')"
| "same_rdata (Ptr n) x \<longleftrightarrow> (\<exists>n'. x = Ptr n' \<and> same_name n n')"
| "same_rdata (Mx p n) x \<longleftrightarrow> (\<exists>n'. x = Mx p n' \<and> same_name n n')"
| "same_rdata (Soa s) x \<longleftrightarrow> (\<exists>m r. x = Soa (s\<lparr>soa_mname := m, soa_rname := r\<rparr>) \<and>
     same_name (soa_mname s) m \<and> same_name (soa_rname s) r)"
| "same_rdata rd x \<longleftrightarrow> x = rd"

lemma codec_name_ok: "name_ok n \<Longrightarrow> codec H (name_encode n) name_parse (same_name n)"
  by (simp add: name_ok_def codec_name)

lemmas codec_fields = codec_u8 codec_u16 codec_u32 codec_char_string codec_name_ok codec_uncompressed(2)

lemma codec_len_I: "f = f' \<Longrightarrow> (\<And>n. m n = m') \<Longrightarrow> codec H f' m' R \<Longrightarrow> codec_len H f m R"
  using codec_len_const [of H f' m' R] by (simp add: codec_len_def)

lemma codec_rdata_name:
  assumes "name_ok n"
  shows "codec_len H (rdata_encode (Ns n)) (rdata_parse RT_NS) (same_rdata (Ns n))"
    and "codec_len H (rdata_encode (Cname n)) (rdata_parse RT_CNAME) (same_rdata (Cname n))"
    and "codec_len H (rdata_encode (Ptr n)) (rdata_parse RT_PTR) (same_rdata (Ptr n))"
  using assms
  by (auto intro!: codec_len_I [OF _ _ codec_last [OF codec_name_ok]] simp: rdata_parse_def fun_eq_iff)

lemma codec_rdata_dname:
  assumes "name_wf n"
  shows "codec_len H (rdata_encode (Dname n)) (rdata_parse RT_DNAME) (same_rdata (Dname n))"
  using assms
  by (auto intro!: codec_len_I [OF _ _ codec_last [OF codec_uncompressed(2)]] simp: rdata_parse_def fun_eq_iff)

lemma codec_rdata_mx:
  assumes "name_ok n"
  shows "codec_len H (rdata_encode (Mx p n)) (rdata_parse RT_MX) (same_rdata (Mx p n))"
proof (rule codec_len_I)
  show "rdata_encode (Mx p n) = seqw [\<lambda>w. push_u16 w p, name_encode n]"
    by (simp add: seqw_def fun_eq_iff)
  show "rdata_parse RT_MX k = rd_bind rd_u16 (\<lambda>p. rd_bind name_parse (\<lambda>n. rd_return (Mx p n)))" for k
    by (simp add: rdata_parse_def)
qed (use assms in \<open>auto intro!: codec_Cons codec_one codec_fields sticky_intros\<close>)

lemma codec_rdata_soa:
  assumes "name_ok (soa_mname s)" and "name_ok (soa_rname s)"
  shows "codec_len H (rdata_encode (Soa s)) (rdata_parse RT_SOA) (same_rdata (Soa s))"
proof (rule codec_len_I)
  show "rdata_encode (Soa s) = seqw [name_encode (soa_mname s), name_encode (soa_rname s),
      \<lambda>w. push_u32 w (soa_serial s), \<lambda>w. push_u32 w (soa_refresh s), \<lambda>w. push_u32 w (soa_retry s),
      \<lambda>w. push_u32 w (soa_expire s), \<lambda>w. push_u32 w (soa_minimum s)]"
    by (simp add: seqw_def fun_eq_iff)
  show "rdata_parse RT_SOA k = parse_soa" for k by (simp add: rdata_parse_def)
qed (use assms in \<open>cases s, auto simp: parse_soa_def
      intro!: codec_Cons codec_one codec_fields sticky_intros\<close>)

lemma codec_rdata_srv:
  assumes "name_wf t"
  shows "codec_len H (rdata_encode (Srv a b c t)) (rdata_parse RT_SRV) (same_rdata (Srv a b c t))"
proof (rule codec_len_I)
  show "rdata_encode (Srv a b c t) =
      seqw [\<lambda>w. push_u16 w a, \<lambda>w. push_u16 w b, \<lambda>w. push_u16 w c, encode_uncompressed t]"
    by (simp add: seqw_def fun_eq_iff)
  show "rdata_parse RT_SRV k = rd_bind rd_u16 (\<lambda>pr. rd_bind rd_u16 (\<lambda>we. rd_bind rd_u16 (\<lambda>po.
      rd_bind name_parse (\<lambda>t. rd_return (Srv pr we po t)))))" for k
    by (simp add: rdata_parse_def)
qed (use assms in \<open>auto intro!: codec_Cons codec_one codec_fields sticky_intros\<close>)

lemma codec_rdata_naptr:
  assumes "name_wf (naptr_replacement n)"
  shows "codec_len H (rdata_encode (Naptr n)) (rdata_parse RT_NAPTR) (same_rdata (Naptr n))"
proof (rule codec_len_I)
  show "rdata_encode (Naptr n) = seqw [\<lambda>w. push_u16 w (naptr_order n),
      \<lambda>w. push_u16 w (naptr_preference n), write_char_string (naptr_flags n),
      write_char_string (naptr_services n), write_char_string (naptr_regexp n),
      encode_uncompressed (naptr_replacement n)]"
    by (simp add: seqw_def fun_eq_iff)
  show "rdata_parse RT_NAPTR k = parse_naptr" for k by (simp add: rdata_parse_def)
qed (use assms in \<open>auto simp: parse_naptr_def
      intro!: codec_Cons codec_one codec_fields sticky_intros sticky_write_char_string\<close>)


lemma decodes_rest:
  "bytes_at buf p bs \<Longrightarrow> rdlen = k + length bs \<Longrightarrow> q = p + length bs \<Longrightarrow> decodes (rd_rest rdlen k) buf p q bs"
  by (simp add: rd_rest_def decodes_bytes)

lemma codec_rdata_raw:
  shows "length ip = 4 \<Longrightarrow> codec_len H (rdata_encode (A ip)) (rdata_parse RT_A) (same_rdata (A ip))"
    and "length ip = 16 \<Longrightarrow> codec_len H (rdata_encode (Aaaa ip)) (rdata_parse RT_AAAA) (same_rdata (Aaaa ip))"
    and "t \<notin> typed_rtypes \<Longrightarrow> \<not> is_unsupported_name_bearing t \<Longrightarrow>
      codec_len H (rdata_encode (Unknown t ip)) (rdata_parse t) (same_rdata (Unknown t ip))"
proof -
  assume "length ip = 4"
  then show "codec_len H (rdata_encode (A ip)) (rdata_parse RT_A) (same_rdata (A ip))"
    by (intro codec_len_bytes [where bs = ip and x = "A ip"])
      (auto simp: rdata_parse_def intro!: decodes_bind [OF decodes_bytes decodes_return])
next
  assume "length ip = 16"
  then show "codec_len H (rdata_encode (Aaaa ip)) (rdata_parse RT_AAAA) (same_rdata (Aaaa ip))"
    by (intro codec_len_bytes [where bs = ip and x = "Aaaa ip"])
      (auto simp: rdata_parse_def intro!: decodes_bind [OF decodes_bytes decodes_return])
next
  assume "t \<notin> typed_rtypes" "\<not> is_unsupported_name_bearing t"
  then show "codec_len H (rdata_encode (Unknown t ip)) (rdata_parse t) (same_rdata (Unknown t ip))"
    by (intro codec_len_bytes [where bs = ip and x = "Unknown t ip"])
      (auto simp: rdata_parse_def typed_rtypes_def
        intro!: decodes_bind [OF decodes_bytes decodes_return])
qed

lemma codec_rdata_txt: "codec_len H (rdata_encode (Txt cs)) (rdata_parse RT_TXT) (same_rdata (Txt cs))"
proof (cases "list_all (\<lambda>c. length c < 256) cs")
  case True
  show ?thesis
  proof (rule codec_len_bytes [where bs = "concat (map char_string cs)" and x = "Txt cs"])
    fix w
    assume "writer_wf w" "wr_error (rdata_encode (Txt cs) w) = None"
    then show "rdata_encode (Txt cs) w = push_bytes w (concat (map char_string cs))"
      using encode_txt_foldl [of cs w]
        foldl_push [of w "concat (map (\<lambda>c. [[of_nat (length c)], c]) cs)"]
      by (simp add: concat_concat_map char_string_def [abs_def])
  next
    fix buf p
    assume "bytes_at buf p (concat (map char_string cs))"
    from decodes_txt_loop [OF True this refl, of "[]"]
    show "decodes (rdata_parse RT_TXT (length (concat (map char_string cs)))) buf p
        (p + length (concat (map char_string cs))) (Txt cs)"
      by (simp add: rdata_parse_def decodes_def rd_bind_def)
  qed simp
next
  case False
  then show ?thesis by (auto simp: codec_len_def dest: encode_txt_foldl)
qed

lemma foldl_push_bytes:
  "(\<And>w. f w = foldl push_bytes w bss) \<Longrightarrow> writer_wf w \<Longrightarrow> wr_error (f w) = None \<Longrightarrow>
   f w = push_bytes w (concat bss)"
  using foldl_push by simp

lemma codec_rdata_caa: "codec_len H (rdata_encode (Caa f t v)) (rdata_parse RT_CAA) (same_rdata (Caa f t v))"
proof (cases "length t < 256")
  case True
  let ?bss = "[[f], [of_nat (length t)], t, v]"
  have len: "unat (of_nat (length t) :: u8) = length t" using True by simp
  show ?thesis
  proof (rule codec_len_bytes [where bs = "concat ?bss" and x = "Caa f t v"])
    show "writer_wf w \<Longrightarrow> wr_error (rdata_encode (Caa f t v) w) = None \<Longrightarrow>
        rdata_encode (Caa f t v) w = push_bytes w (concat ?bss)" for w
      using True by (intro foldl_push_bytes) (simp_all add: push_as_bytes)
  next
    fix buf p
    assume "bytes_at buf p (concat ?bss)"
    then have at: "bytes_at buf p [f]" "bytes_at buf (p + 1) [of_nat (length t)]"
        "bytes_at buf (p + 2) t" "bytes_at buf (p + 2 + length t) v"
      by (simp_all add: bytes_at_Cons)
    let ?n = "length (concat ?bss)"
    have "decodes rd_u8 buf p (p + 1) f" "decodes rd_u8 buf (p + 1) (p + 2) (of_nat (length t))"
        "decodes (rd_bytes (unat (of_nat (length t) :: u8))) buf (p + 2) (p + 2 + length t) t"
        "decodes (rd_rest ?n (2 + unat (of_nat (length t) :: u8))) buf (p + 2 + length t) (p + ?n) v"
      using at by (auto simp: len intro!: decodes_u8 decodes_bytes decodes_rest)
    then show "decodes (rdata_parse RT_CAA ?n) buf p (p + ?n) (Caa f t v)"
      unfolding rdata_parse_def by (auto intro!: decodes_bind decodes_return)
  qed simp
next
  case False
  then show ?thesis by (simp add: codec_len_def Let_def)
qed

lemma codec_rdata_tlsa:
  "codec_len H (rdata_encode (Tlsa u s m d)) (rdata_parse RT_TLSA) (same_rdata (Tlsa u s m d))"
proof (rule codec_len_bytes [where bs = "concat [[u], [s], [m], d]" and x = "Tlsa u s m d"])
  show "writer_wf w \<Longrightarrow> wr_error (rdata_encode (Tlsa u s m d) w) = None \<Longrightarrow>
      rdata_encode (Tlsa u s m d) w = push_bytes w (concat [[u], [s], [m], d])" for w
    by (intro foldl_push_bytes) (simp_all add: push_as_bytes)
next
  fix buf p
  assume "bytes_at buf p (concat [[u], [s], [m], d])"
  then have "decodes rd_u8 buf p (p + 1) u" "decodes rd_u8 buf (p + 1) (p + 2) s"
      "decodes rd_u8 buf (p + 2) (p + 3) m"
      "decodes (rd_rest (length (concat [[u], [s], [m], d])) 3) buf (p + 3)
        (p + length (concat [[u], [s], [m], d])) d"
    by (auto simp: bytes_at_Cons numeral_eq_Suc intro!: decodes_u8 decodes_rest)
  then show "decodes (rdata_parse RT_TLSA (length (concat [[u], [s], [m], d]))) buf p
      (p + length (concat [[u], [s], [m], d])) (Tlsa u s m d)"
    unfolding rdata_parse_def by (auto intro!: decodes_bind decodes_return)
qed simp

lemma codec_rdata_sshfp:
  "codec_len H (rdata_encode (Sshfp a t d)) (rdata_parse RT_SSHFP) (same_rdata (Sshfp a t d))"
proof (rule codec_len_bytes [where bs = "concat [[a], [t], d]" and x = "Sshfp a t d"])
  show "writer_wf w \<Longrightarrow> wr_error (rdata_encode (Sshfp a t d) w) = None \<Longrightarrow>
      rdata_encode (Sshfp a t d) w = push_bytes w (concat [[a], [t], d])" for w
    by (intro foldl_push_bytes) (simp_all add: push_as_bytes)
next
  fix buf p
  assume "bytes_at buf p (concat [[a], [t], d])"
  then have "decodes rd_u8 buf p (p + 1) a" "decodes rd_u8 buf (p + 1) (p + 2) t"
      "decodes (rd_rest (length (concat [[a], [t], d])) 2) buf (p + 2)
        (p + length (concat [[a], [t], d])) d"
    by (auto simp: bytes_at_Cons numeral_eq_Suc intro!: decodes_u8 decodes_rest)
  then show "decodes (rdata_parse RT_SSHFP (length (concat [[a], [t], d]))) buf p
      (p + length (concat [[a], [t], d])) (Sshfp a t d)"
    unfolding rdata_parse_def by (auto intro!: decodes_bind decodes_return)
qed simp

lemma codec_rdata_uri:
  "codec_len H (rdata_encode (Uri a b d)) (rdata_parse RT_URI) (same_rdata (Uri a b d))"
proof (rule codec_len_bytes [where bs = "concat [u16_to_be_bytes a, u16_to_be_bytes b, d]" and x = "Uri a b d"])
  show "writer_wf w \<Longrightarrow> wr_error (rdata_encode (Uri a b d) w) = None \<Longrightarrow>
      rdata_encode (Uri a b d) w = push_bytes w (concat [u16_to_be_bytes a, u16_to_be_bytes b, d])" for w
    by (intro foldl_push_bytes) (simp_all add: push_as_bytes)
next
  fix buf p
  let ?n = "length (concat [u16_to_be_bytes a, u16_to_be_bytes b, d])"
  assume "bytes_at buf p (concat [u16_to_be_bytes a, u16_to_be_bytes b, d])"
  then have "decodes rd_u16 buf p (p + 2) a" "decodes rd_u16 buf (p + 2) (p + 4) b"
      "decodes (rd_rest ?n 4) buf (p + 4) (p + ?n) d"
    by (auto simp: numeral_eq_Suc intro!: decodes_u16 decodes_rest)
  then show "decodes (rdata_parse RT_URI ?n) buf p (p + ?n) (Uri a b d)"
    unfolding rdata_parse_def by (auto intro!: decodes_bind decodes_return)
qed simp

lemma encode_svcb_bytes:
  assumes "writer_wf w" and "wr_error (encode_svcb p n ps w) = None"
  shows "validate_svcb_params p ps = None" and "list_all (\<lambda>p. length (snd p) < 65536) ps"
    and "encode_svcb p n ps w =
      push_bytes w (u16_to_be_bytes p @ wire n @ concat (map svc_param_bytes ps))"
proof -
  show v: "validate_svcb_params p ps = None"
    using assms(2) by (auto simp: encode_svcb_def split: option.splits)
  let ?bss = "concat (map (\<lambda>p. [u16_to_be_bytes (fst p), u16_to_be_bytes (of_nat (length (snd p))), snd p]) ps)"
  let ?w = "push_bytes (push_bytes w (u16_to_be_bytes p)) (wire n)"
  have eq: "encode_svcb p n ps w = encode_svc_params ps ?w"
    by (simp add: encode_svcb_def v encode_uncompressed_def push_as_bytes)
  from assms(2) eq encode_svc_params_foldl [of ps ?w]
  show "list_all (\<lambda>p. length (snd p) < 65536) ps"
    and "encode_svcb p n ps w =
      push_bytes w (u16_to_be_bytes p @ wire n @ concat (map svc_param_bytes ps))"
    using foldl_push [OF assms(1), of "u16_to_be_bytes p # wire n # ?bss"]
    by (simp_all add: concat_concat_map svc_param_bytes_def [abs_def])
qed

lemma decodes_svcb:
  assumes "name_wf n" and "validate_svcb_params p ps = None"
    and "list_all (\<lambda>p. length (snd p) < 65536) ps"
    and at: "bytes_at buf pos (u16_to_be_bytes p @ wire n @ concat (map svc_param_bytes ps))"
    and len: "len = length (u16_to_be_bytes p @ wire n @ concat (map svc_param_bytes ps))"
  shows "decodes (parse_svcb t len) buf pos (pos + len)
    (if t = RT_SVCB then Svcb p n ps else Https p n ps)"
proof -
  obtain ls where ls: "labels_ok ls" "n = name_of ls" using assms(1) by (rule name_wfE)
  have at': "bytes_at buf pos (u16_to_be_bytes p)" "bytes_at buf (pos + 2) (wire_of ls)"
      "bytes_at buf (pos + 2 + length (wire n)) (concat (map svc_param_bytes ps))"
    using at ls by simp_all
  have d: "decodes rd_u16 buf pos (pos + 2) p"
      "decodes parse_uncompressed buf (pos + 2) (pos + 2 + length (wire n)) n"
      "decodes (svc_loop (pos + len) []) buf (pos + 2 + length (wire n)) (pos + len) ps"
    using decodes_u16 [OF at'(1) refl] decodes_uncompressed [OF ls(1) at'(2) refl]
      decodes_svc_loop [OF assms(3) at'(3), of "pos + len" "[]"] ls(2) len
    by (simp_all add: add.assoc)
  have "decodes (rd_bind rd_u16 (\<lambda>priority. rd_bind parse_uncompressed (\<lambda>target.
      rd_bind (svc_loop (pos + len) []) (\<lambda>params.
        case validate_svcb_params priority params of
          Some e \<Rightarrow> rd_fail (MessageError (SvcbInvalid e))
        | None \<Rightarrow> rd_return (if t = RT_SVCB then Svcb priority target params
                             else Https priority target params))))) buf pos (pos + len)
      (if t = RT_SVCB then Svcb p n ps else Https p n ps)"
    by (rule decodes_bind [OF d(1) decodes_bind [OF d(2) decodes_bind [OF d(3)]]])
      (simp add: assms(2) decodes_return del: rd_return_eq)
  then show ?thesis unfolding decodes_def parse_svcb_def Let_def by simp
qed

lemma codec_rdata_svcb:
  assumes "name_wf n"
  shows "codec_len H (rdata_encode (Svcb p n ps)) (rdata_parse RT_SVCB) (same_rdata (Svcb p n ps))"
    and "codec_len H (rdata_encode (Https p n ps)) (rdata_parse RT_HTTPS) (same_rdata (Https p n ps))"
proof -
  let ?bs = "u16_to_be_bytes p @ wire n @ concat (map svc_param_bytes ps)"
  have ok: "codec_len H (encode_svcb p n ps) (parse_svcb t)
      (\<lambda>x. x = (if t = RT_SVCB then Svcb p n ps else Https p n ps))" for t
  proof (cases "validate_svcb_params p ps = None \<and> list_all (\<lambda>p. length (snd p) < 65536) ps")
    case True
    show ?thesis
    proof (rule codec_len_bytes [where bs = ?bs])
      show "encode_svcb p n ps w = push_bytes w ?bs"
        if "writer_wf w" "wr_error (encode_svcb p n ps w) = None" for w
        using that by (rule encode_svcb_bytes(3))
      show "decodes (parse_svcb t (length ?bs)) buf pos (pos + length ?bs)
          (if t = RT_SVCB then Svcb p n ps else Https p n ps)" if "bytes_at buf pos ?bs" for buf pos
        by (rule decodes_svcb [OF assms _ _ that refl]) (use True in auto)
    qed simp
  next
    case False
    then show ?thesis
      using encode_svcb_bytes(1,2) by (auto simp: codec_len_def ready_def)
  qed
  show "codec_len H (rdata_encode (Svcb p n ps)) (rdata_parse RT_SVCB) (same_rdata (Svcb p n ps))"
    using ok [of RT_SVCB] by (simp add: rdata_parse_def [abs_def] codec_len_def)
  show "codec_len H (rdata_encode (Https p n ps)) (rdata_parse RT_HTTPS) (same_rdata (Https p n ps))"
    using ok [of RT_HTTPS] by (simp add: rdata_parse_def [abs_def] codec_len_def)
qed

lemma codec_rdata:
  "rdata_wf rd \<Longrightarrow> codec_len H (rdata_encode rd) (rdata_parse (record_type rd)) (same_rdata rd)"
  by (cases rd)
    (auto simp del: rdata_encode.simps same_rdata.simps intro: codec_rdata_name codec_rdata_dname
      codec_rdata_mx codec_rdata_soa codec_rdata_srv codec_rdata_naptr codec_rdata_raw
      codec_rdata_txt codec_rdata_caa codec_rdata_tlsa codec_rdata_sshfp codec_rdata_uri
      codec_rdata_svcb)

section \<open>Reading records back\<close>

definition allows_empty :: "u16 list option \<Rightarrow> u16 \<Rightarrow> bool" where
  "allows_empty cls class \<longleftrightarrow> (case cls of None \<Rightarrow> False | Some classes \<Rightarrow> class \<in> set classes)"

definition parse_or_empty :: "u16 list option \<Rightarrow> u16 \<Rightarrow> u16 \<Rightarrow> nat \<Rightarrow> rdata rd" where
  "parse_or_empty cls class rtype rdlen =
     (if rdlen = 0 \<and> allows_empty cls class then rd_return (Unknown rtype [])
      else rdata_parse rtype rdlen)"

text \<open>
  A record the codec is meant for: its type field names its data, and, in a section where an
  empty body stands for an UPDATE operation, an empty body is written as such.
\<close>

definition rr_ok :: "u16 list option \<Rightarrow> rr \<Rightarrow> bool" where
  "rr_ok cls rec \<longleftrightarrow> name_ok (rr_name rec) \<and> rr_rtype rec = record_type (rr_rdata rec) \<and>
     (allows_empty cls (rr_class rec) \<and> rr_rdata rec = Unknown (rr_rtype rec) [] \<or>
      rdata_wf (rr_rdata rec) \<and> (allows_empty cls (rr_class rec) \<longrightarrow> rr_rdata rec \<noteq> Txt []))"

definition same_rr :: "rr \<Rightarrow> u32 \<Rightarrow> rr \<Rightarrow> bool" where
  "same_rr rec ttl x \<longleftrightarrow> same_name (rr_name rec) (rr_name x) \<and> rr_rtype x = rr_rtype rec \<and>
     rr_class x = rr_class rec \<and> rr_ttl x = ttl \<and> same_rdata (rr_rdata rec) (rr_rdata x)"

lemma rdata_parse_nothing:
  assumes "decodes (rdata_parse t 0) buf p p x"
  shows "x = Txt [] \<or> x = Unknown t []"
proof -
  let ?r = "\<lparr>rd_buf = buf, rd_pos = p, rd_limit = p\<rparr>"
  have eq: "rdata_parse t 0 ?r = (Inr x, ?r)" using assms by (simp add: decodes_def)
  have fails: "rd_u8 ?r = (Inl Eof, ?r)" "rd_u16 ?r = (Inl Eof, ?r)" "rd_bytes 4 ?r = (Inl Eof, ?r)"
      "rd_bytes 16 ?r = (Inl Eof, ?r)" "name_parse ?r = (Inl Eof, ?r)"
    by (simp_all add: rd_u8_def rd_u16_def rd_bind_def rd_bytes_def name_parse_def parse_loop.simps)
  show ?thesis
    using eq unfolding rdata_parse_def
    by (auto simp: rd_bind_def fails parse_soa_def parse_naptr_def parse_svcb_def rd_bytes_def
        txt_loop.simps slice_def split: if_splits)
qed

lemma codec_rdata_or_empty:
  assumes "rr_ok cls rec"
  shows "codec_len H (rdata_encode (rr_rdata rec))
    (parse_or_empty cls (rr_class rec) (rr_rtype rec)) (same_rdata (rr_rdata rec))"
proof (cases "allows_empty cls (rr_class rec) \<and> rr_rdata rec = Unknown (rr_rtype rec) []")
  case True
  have "decodes (rd_return (Unknown (rr_rtype rec) [])) buf p p (Unknown (rr_rtype rec) [])" for buf p
    by (rule decodes_return)
  with True show ?thesis
    by (intro codec_len_bytes [where bs = "[]" and x = "Unknown (rr_rtype rec) []"])
      (auto simp: parse_or_empty_def simp del: rd_return_eq)
next
  case False
  with assms have wf: "rdata_wf (rr_rdata rec)" "rr_rtype rec = record_type (rr_rdata rec)"
    and not_txt: "allows_empty cls (rr_class rec) \<Longrightarrow> rr_rdata rec \<noteq> Txt []"
    by (auto simp: rr_ok_def)
  note C = codec_rdata [OF wf(1), of H, unfolded codec_len_def]
  have "\<exists>y. same_rdata (rr_rdata rec) y \<and>
      robust H (parse_or_empty cls (rr_class rec) (rr_rtype rec) n) buf p (p + n) y"
    if x: "same_rdata (rr_rdata rec) x"
      "robust H (rdata_parse (record_type (rr_rdata rec)) n) buf p (p + n) x" for n buf p x
  proof (cases "n = 0 \<and> allows_empty cls (rr_class rec)")
    case True
    then have "decodes (rdata_parse (record_type (rr_rdata rec)) 0) buf p p x"
      using x(2) by (auto simp: robust_def)
    then have "x = Txt [] \<or> x = Unknown (rr_rtype rec) []"
      using wf(2) by (auto dest: rdata_parse_nothing)
    with not_txt True x(1) have "x = Unknown (rr_rtype rec) []"
      by (cases "rr_rdata rec") auto
    with x(1) True show ?thesis
      by (auto simp: parse_or_empty_def robust_def decodes_return simp del: rd_return_eq)
  next
    case False
    with x wf(2) show ?thesis by (auto simp: parse_or_empty_def)
  qed
  then show ?thesis
    using C unfolding codec_len_def by (metis length_append)
qed

text \<open>The RDLENGTH bracket: reserve the slot, write the data, patch the length in.\<close>

definition rdata_block :: "rdata \<Rightarrow> writer \<Rightarrow> writer" where
  "rdata_block rd w =
     (let (at, w5) = placeholder_u16 w; w6 = rdata_encode rd w5 in backpatch_len w6 at)"

lemma encode_with_ttl_seqw:
  "encode_with_ttl rec ttl = seqw [name_encode (rr_name rec), \<lambda>w. push_u16 w (rr_rtype rec),
     \<lambda>w. push_u16 w (rr_class rec), \<lambda>w. push_u32 w ttl, rdata_block (rr_rdata rec)]"
  by (simp add: encode_with_ttl_def seqw_def rdata_block_def Let_def fun_eq_iff placeholder_u16_def)

lemma sticky_encode_txt: "wr_error w \<noteq> None \<Longrightarrow> encode_txt cs w = w"
  by (induction cs w rule: encode_txt.induct) (auto simp: push_failed)

lemma sticky_encode_svc_params: "wr_error w \<noteq> None \<Longrightarrow> encode_svc_params ps w = w"
  by (induction ps w rule: encode_svc_params.induct) (auto simp: push_failed Let_def)

lemma sticky_rdata_encode: "sticky (rdata_encode rd)"
  using sticky_name_encode sticky_encode_uncompressed sticky_write_char_string
  by (cases rd) (auto simp: sticky_def push_failed Let_def sticky_encode_txt
      sticky_encode_svc_params encode_svcb_def split: option.splits)

lemma sticky_rdata_block: "sticky (rdata_block rd)"
  using sticky_rdata_encode [of rd]
  by (simp add: sticky_def rdata_block_def placeholder_u16_def push_failed Let_def)

lemma decodes_rdata_section:
  assumes d: "decodes (parse_or_empty cls class rtype rdlen) buf p (p + rdlen) rd"
  shows "decodes (parse_rdata_section cls n rtype class ttl rdlen) buf p (p + rdlen)
    \<lparr>rr_name = n, rr_rtype = rtype, rr_class = class, rr_ttl = ttl, rr_rdata = rd\<rparr>"
  unfolding decodes_def
proof (intro conjI allI impI)
  fix lim
  assume lim: "p + rdlen \<le> lim"
  have "(if rdlen = 0 \<and> allows_empty cls class
         then (Inr (Unknown rtype []), \<lparr>rd_buf = buf, rd_pos = p, rd_limit = p + rdlen\<rparr>)
         else rdata_parse rtype rdlen \<lparr>rd_buf = buf, rd_pos = p, rd_limit = p + rdlen\<rparr>) =
      (Inr rd, \<lparr>rd_buf = buf, rd_pos = p + rdlen, rd_limit = p + rdlen\<rparr>)"
    using d by (auto simp: decodes_def parse_or_empty_def split: if_splits)
  with lim show "parse_rdata_section cls n rtype class ttl rdlen
      \<lparr>rd_buf = buf, rd_pos = p, rd_limit = lim\<rparr> =
      (Inr \<lparr>rr_name = n, rr_rtype = rtype, rr_class = class, rr_ttl = ttl, rr_rdata = rd\<rparr>,
       \<lparr>rd_buf = buf, rd_pos = p + rdlen, rd_limit = lim\<rparr>)"
    by (simp add: parse_rdata_section_def allows_empty_def [symmetric] Let_def)
qed simp

lemma entry_ok_map:
  "(\<And>q ls j. name_at H buf (unat off) q ls j \<Longrightarrow> name_at H' buf (unat off) q ls j) \<Longrightarrow>
   entry_ok H buf key off \<Longrightarrow> entry_ok H' buf key off"
  by (elim entry_okE) (rule entry_okI)

lemma ready_reserve:
  assumes "ready {} w" and "wr_error (push_u16 w 0) = None"
  shows "ready {length (wr_buf w), length (wr_buf w) + 1} (push_u16 w 0)"
    and "wr_buf (push_u16 w 0) = wr_buf w @ [0, 0]"
proof -
  let ?H = "{length (wr_buf w), length (wr_buf w) + 1}"
  have wf: "writer_wf w" using assms(1) by (simp add: ready_def)
  have eq: "push_u16 w 0 = w\<lparr>wr_buf := wr_buf w @ [0, 0]\<rparr>"
    using push_bytes_eq [OF wf] assms(2) by (simp add: push_as_bytes u16_to_be_bytes_def)
  then show "wr_buf (push_u16 w 0) = wr_buf w @ [0, 0]" by simp
  have "entry_ok ?H (wr_buf w @ [0, 0]) k off" if "name_map_get (wr_names w) k = Some off" for k off
  proof -
    have "entry_ok {} (wr_buf w) k off" using assms(1) that by (auto simp: ready_def names_ok_def)
    then have "entry_ok ({} \<union> ?H) (wr_buf w) k off"
      by (rule entry_ok_map [rotated]) (rule name_at_fresh, auto)
    then show ?thesis by (auto intro: entry_ok_agree [OF _ agree_append])
  qed
  moreover have "writer_wf (push_u16 w 0)" using wf by (rule push_wf)
  ultimately show "ready ?H (push_u16 w 0)" by (auto simp: ready_def names_ok_def eq)
qed

lemma ready_patch:
  assumes w: "ready {at, at + 1} w" and err: "wr_error (backpatch_len w at) = None"
  shows "ready {} (backpatch_len w at)"
    and "agree {at, at + 1} (wr_buf w) (wr_buf (backpatch_len w at))"
proof -
  note B = backpatch_len_eq [OF err]
  have buf: "wr_buf (backpatch_len w at) = take at (wr_buf w) @
      u16_to_be_bytes (of_nat (length (wr_buf w) - (at + 2))) @ drop (at + 2) (wr_buf w)"
    using B(4) by simp
  show ag: "agree {at, at + 1} (wr_buf w) (wr_buf (backpatch_len w at))"
    unfolding agree_def
  proof (intro conjI allI impI)
    fix i assume i: "i < length (wr_buf w)" "i \<notin> {at, at + 1}"
    show "wr_buf (backpatch_len w at) ! i = wr_buf w ! i"
    proof (cases "i < at")
      case True
      with B(2) show ?thesis unfolding buf by (simp add: nth_append)
    next
      case False
      with i have "at + 2 \<le> i" by simp
      then obtain k where k: "i = at + 2 + k" by (auto simp: le_iff_add)
      show ?thesis using B(2) i(1) unfolding buf k by (simp add: nth_append)
    qed
  qed simp
  have "entry_ok {} (wr_buf (backpatch_len w at)) k off"
    if "name_map_get (wr_names w) k = Some off" for k off
  proof -
    have "entry_ok {at, at + 1} (wr_buf w) k off" using w that by (auto simp: ready_def names_ok_def)
    then have "entry_ok {at, at + 1} (wr_buf (backpatch_len w at)) k off"
      using ag by (rule entry_ok_agree)
    then show ?thesis
      by (rule entry_ok_map [rotated]) (auto intro: name_at_antimono)
  qed
  then show "ready {} (backpatch_len w at)"
    using w by (auto simp: ready_def names_ok_def intro: wf_intros)
qed

lemma codec_rdata_block:
  assumes m: "\<And>H. codec_len H (rdata_encode rd) (parse_or_empty cls class rtype) R"
  shows "codec {} (rdata_block rd)
    (rd_bind rd_u16 (\<lambda>rdlen. parse_rdata_section cls n rtype class ttl (unat rdlen)))
    (\<lambda>x. \<exists>rd'. R rd' \<and>
       x = \<lparr>rr_name = n, rr_rtype = rtype, rr_class = class, rr_ttl = ttl, rr_rdata = rd'\<rparr>)"
proof (unfold codec_def, intro allI impI)
  fix w
  assume w: "ready {} w" and err: "wr_error (rdata_block rd w) = None"
  let ?at = "length (wr_buf w)"
  define w5 where "w5 = push_u16 w 0"
  define w6 where "w6 = rdata_encode rd w5"
  have blk: "rdata_block rd w = backpatch_len w6 ?at"
    by (simp add: rdata_block_def placeholder_u16_def w6_def w5_def)
  have err': "wr_error (backpatch_len w6 ?at) = None" using err by (simp add: blk)
  note B = backpatch_len_eq [OF err']
  have e5: "wr_error w5 = None"
    using B(1) sticky_rdata_encode [of rd] unfolding w6_def by (metis stickyD)
  note w5 = ready_reserve [OF w e5 [unfolded w5_def], folded w5_def]
  obtain new rd' where w6: "ready {?at, ?at + 1} w6" "wr_buf w6 = wr_buf w5 @ new" "R rd'"
      and rob: "robust {?at, ?at + 1} (parse_or_empty cls class rtype (length new)) (wr_buf w6)
        (length (wr_buf w5)) (length (wr_buf w6)) rd'"
    using m [unfolded codec_len_def] w5(1) B(1) unfolding w6_def by blast
  let ?w' = "backpatch_len w6 ?at"
  note P = ready_patch [OF w6(1) err']
  have small: "length new < 65536" using B(3) by (simp add: w6(2) w5(2))
  have len: "unat (of_nat (length new) :: u16) = length new" using small by simp
  have buf': "wr_buf ?w' = wr_buf w @ u16_to_be_bytes (of_nat (length new)) @ new"
    using B(4) by (simp add: w6(2) w5(2))
  let ?rec = "\<lparr>rr_name = n, rr_rtype = rtype, rr_class = class, rr_ttl = ttl, rr_rdata = rd'\<rparr>"
  have rob': "robust {} (rd_bind rd_u16 (\<lambda>rdlen. parse_rdata_section cls n rtype class ttl (unat rdlen)))
      (wr_buf ?w') ?at (length (wr_buf ?w')) ?rec"
    unfolding robust_def
  proof (intro allI impI)
    fix b assume b: "agree {} (wr_buf ?w') b"
    have "bytes_at b ?at (u16_to_be_bytes (of_nat (length new)))"
      using b by (rule agree_bytes_at) (simp_all add: buf')
    then have d1: "decodes rd_u16 b ?at (?at + 2) (of_nat (length new))" by (rule decodes_u16) simp
    have "agree {?at, ?at + 1} (wr_buf ?w') b" using b by (auto simp: agree_def)
    then have "agree {?at, ?at + 1} (wr_buf w6) b" using P(2) agree_trans by blast
    then have "decodes (parse_or_empty cls class rtype (length new)) b (length (wr_buf w5))
        (length (wr_buf w6)) rd'"
      using rob by (simp add: robust_def)
    then have "decodes (parse_or_empty cls class rtype (length new)) b (?at + 2)
        (?at + 2 + length new) rd'"
      by (simp add: w6(2) w5(2))
    then have d2: "decodes (parse_rdata_section cls n rtype class ttl (length new)) b (?at + 2)
        (?at + 2 + length new) ?rec"
      by (rule decodes_rdata_section)
    show "decodes (rd_bind rd_u16 (\<lambda>rdlen. parse_rdata_section cls n rtype class ttl (unat rdlen)))
        b ?at (length (wr_buf ?w')) ?rec"
      using d1 d2 len by (intro decodes_bind [OF d1]) (simp add: buf')
  qed
  have "wr_error w = None"
    using e5 sticky_push(2) unfolding w5_def by (metis stickyD)
  with P(1) buf' rob' w6(3) show "ready {} (rdata_block rd w) \<and> wr_error w = None \<and>
      (\<exists>new. wr_buf (rdata_block rd w) = wr_buf w @ new) \<and>
      (\<exists>x. (\<exists>rd'. R rd' \<and> x = \<lparr>rr_name = n, rr_rtype = rtype, rr_class = class, rr_ttl = ttl,
              rr_rdata = rd'\<rparr>) \<and>
        robust {} (rd_bind rd_u16 (\<lambda>rdlen. parse_rdata_section cls n rtype class ttl (unat rdlen)))
          (wr_buf (rdata_block rd w)) (length (wr_buf w)) (length (wr_buf (rdata_block rd w))) x)"
    unfolding blk by blast
qed

lemma codec_rr:
  assumes ok: "rr_ok cls rec"
  shows "codec {} (encode_with_ttl rec ttl) (parse_inner cls) (same_rr rec ttl)"
proof -
  have block: "codec {} (seqw [rdata_block (rr_rdata rec)])
      (rd_bind rd_u16 (\<lambda>rdlen. parse_rdata_section cls n (rr_rtype rec) (rr_class rec) ttl (unat rdlen)))
      (same_rr rec ttl)" if "same_name (rr_name rec) n" for n
  proof -
    have "seqw [rdata_block (rr_rdata rec)] = rdata_block (rr_rdata rec)"
      by (simp add: seqw_def fun_eq_iff)
    moreover have "codec {} (rdata_block (rr_rdata rec))
        (rd_bind rd_u16 (\<lambda>rdlen. parse_rdata_section cls n (rr_rtype rec) (rr_class rec) ttl (unat rdlen)))
        (same_rr rec ttl)"
      using that codec_rdata_or_empty [OF ok]
      by (intro codec_weaken [OF codec_rdata_block [where R = "same_rdata (rr_rdata rec)"]])
        (auto simp: same_rr_def)
    ultimately show ?thesis by simp
  qed
  have name: "name_ok (rr_name rec)" using ok by (simp add: rr_ok_def)
  show ?thesis
    unfolding encode_with_ttl_seqw parse_inner_def
    by (rule codec_Cons [OF codec_name_ok [OF name]], rule codec_Cons [OF codec_u16],
        rule codec_Cons [OF codec_u16], rule codec_Cons [OF codec_u32])
      (auto simp: block intro: sticky_intros sticky_rdata_block)
qed

end
