(* ===== verification/Message.thy ===== *)
theory Message
  imports RDataCodec
begin

text \<open>
  DNS messages, \<open>onetdns-proto/src/message.rs\<close>: the header flags, the four sections, EDNS(0),
  the strict parser and the checked encoder, and the in-place edits of the OPT record
  (padding, TCP keepalive, client subnet).
\<close>

section \<open>Header\<close>

record header =
  h_id :: u16
  h_response :: bool
  h_opcode :: u8
  h_authoritative :: bool
  h_truncated :: bool
  h_recursion_desired :: bool
  h_recursion_available :: bool
  h_authentic_data :: bool
  h_checking_disabled :: bool
  h_rcode :: u16

definition header_default :: header where
  "header_default =
     \<lparr>h_id = 0, h_response = False, h_opcode = 0, h_authoritative = False, h_truncated = False,
      h_recursion_desired = False, h_recursion_available = False, h_authentic_data = False,
      h_checking_disabled = False, h_rcode = 0\<rparr>"

definition flag :: "bool \<Rightarrow> u16 \<Rightarrow> u16" where
  "flag b m = (if b then m else 0)"

definition header_flags :: "header \<Rightarrow> u16" where
  "header_flags h =
     flag (h_response h) 0x8000
     OR push_bit 11 (ucast (h_opcode h) AND 0xF)
     OR flag (h_authoritative h) 0x0400
     OR flag (h_truncated h) 0x0200
     OR flag (h_recursion_desired h) 0x0100
     OR flag (h_recursion_available h) 0x0080
     OR flag (h_authentic_data h) 0x0020
     OR flag (h_checking_disabled h) 0x0010
     OR (h_rcode h AND 0xF)"

definition from_flags :: "u16 \<Rightarrow> u16 \<Rightarrow> header" where
  "from_flags i f =
     \<lparr>h_id = i,
      h_response = (f AND 0x8000 \<noteq> 0),
      h_opcode = ucast (drop_bit 11 f AND 0xF),
      h_authoritative = (f AND 0x0400 \<noteq> 0),
      h_truncated = (f AND 0x0200 \<noteq> 0),
      h_recursion_desired = (f AND 0x0100 \<noteq> 0),
      h_recursion_available = (f AND 0x0080 \<noteq> 0),
      h_authentic_data = (f AND 0x0020 \<noteq> 0),
      h_checking_disabled = (f AND 0x0010 \<noteq> 0),
      h_rcode = f AND 0xF\<rparr>"

section \<open>Messages\<close>

record question =
  q_name :: name
  q_qtype :: u16
  q_qclass :: u16

record message =
  msg_header :: header
  msg_questions :: "question list"
  msg_answers :: "rr list"
  msg_authorities :: "rr list"
  msg_additionals :: "rr list"

section \<open>EDNS\<close>

record edns =
  e_udp_payload :: u16
  e_extended_rcode :: u8
  e_version :: u8
  e_dnssec_ok :: bool
  e_options :: "(u16 \<times> bytes) list"

abbreviation "EDE_OPTION \<equiv> (15 :: u16)"
abbreviation "EDNS_TCP_KEEPALIVE \<equiv> (11 :: u16)"
abbreviation "EDNS_CLIENT_SUBNET \<equiv> (8 :: u16)"
abbreviation "EDNS_PADDING \<equiv> (12 :: u16)"

definition edns_default :: edns where
  "edns_default =
     \<lparr>e_udp_payload = 1232, e_extended_rcode = 0, e_version = 0, e_dnssec_ok = False,
      e_options = []\<rparr>"

definition record_parts :: "rr \<Rightarrow> proto_error + (u32 \<times> bytes)" where
  "record_parts rec =
     (if rr_rtype rec \<noteq> RT_OPT then Inl (MessageError NotOpt)
      else if \<not> is_root (rr_name rec) then Inl (MessageError OptOwner)
      else case rr_rdata rec of
             Unknown _ raw \<Rightarrow> Inr (rr_ttl rec, raw)
           | _ \<Rightarrow> Inl (MessageError BadOptRdata))"

text \<open>
  \<open>visit_options\<close> on the bytes not yet consumed. The result lists the (code, data) pairs the
  callback is called with, in order. The offset addition cannot overflow: the length comes
  from two bytes.
\<close>

function visit_options :: "bytes \<Rightarrow> proto_error + (u16 \<times> bytes) list" where
  "visit_options raw =
     (if raw = [] then Inr []
      else if length raw < 4 then Inl (MessageError OptionHeader)
      else (let code = u16_from_be_bytes (raw ! 0) (raw ! 1);
                len = unat (u16_from_be_bytes (raw ! 2) (raw ! 3));
                rest = drop 4 raw
            in if len > length rest then Inl (MessageError OptionData)
               else case visit_options (drop len rest) of
                      Inl e \<Rightarrow> Inl e
                    | Inr os \<Rightarrow> Inr ((code, take len rest) # os)))"
  by pat_completeness auto
termination
  by (relation "measure length") auto

declare visit_options.simps [simp del]

definition extended_of_ttl :: "u32 \<Rightarrow> u8" where
  "extended_of_ttl ttl = ucast (drop_bit 24 ttl AND 0xff)"

definition validate_record :: "rr \<Rightarrow> proto_error + u8" where
  "validate_record rec =
     (case record_parts rec of
        Inl e \<Rightarrow> Inl e
      | Inr (ttl, raw) \<Rightarrow>
          (case visit_options raw of Inl e \<Rightarrow> Inl e | Inr _ \<Rightarrow> Inr (extended_of_ttl ttl)))"

definition try_from_record :: "rr \<Rightarrow> proto_error + edns" where
  "try_from_record rec =
     (case record_parts rec of
        Inl e \<Rightarrow> Inl e
      | Inr (ttl, raw) \<Rightarrow>
          (case visit_options raw of
             Inl e \<Rightarrow> Inl e
           | Inr os \<Rightarrow>
               Inr \<lparr>e_udp_payload = rr_class rec,
                    e_extended_rcode = extended_of_ttl ttl,
                    e_version = ucast (drop_bit 16 ttl AND 0xff),
                    e_dnssec_ok = (ttl AND 0x00008000 \<noteq> 0),
                    e_options = os\<rparr>))"

definition edns_from_record :: "rr \<Rightarrow> edns option" where
  "edns_from_record rec = (case try_from_record rec of Inl _ \<Rightarrow> None | Inr e \<Rightarrow> Some e)"

definition push_ede :: "edns \<Rightarrow> u16 \<Rightarrow> bytes \<Rightarrow> edns" where
  "push_ede e info_code extra_text =
     e\<lparr>e_options := e_options e @ [(EDE_OPTION, u16_to_be_bytes info_code @ extra_text)]\<rparr>"

definition has_option :: "edns \<Rightarrow> u16 \<Rightarrow> bool" where
  "has_option e code \<longleftrightarrow> list_ex (\<lambda>(c, _). c = code) (e_options e)"

definition edns_set_tcp_keepalive :: "edns \<Rightarrow> u16 \<Rightarrow> edns" where
  "edns_set_tcp_keepalive e timeout_100ms =
     e\<lparr>e_options := filter (\<lambda>(c, _). c \<noteq> EDNS_TCP_KEEPALIVE) (e_options e) @
        [(EDNS_TCP_KEEPALIVE, u16_to_be_bytes timeout_100ms)]\<rparr>"

definition edns_set_client_subnet :: "edns \<Rightarrow> bytes \<Rightarrow> edns" where
  "edns_set_client_subnet e opt =
     e\<lparr>e_options := filter (\<lambda>(c, _). c \<noteq> EDNS_CLIENT_SUBNET) (e_options e) @
        [(EDNS_CLIENT_SUBNET, opt)]\<rparr>"

definition client_subnet :: "edns \<Rightarrow> bytes option" where
  "client_subnet e =
     map_option snd (find (\<lambda>(c, _). c = EDNS_CLIENT_SUBNET) (e_options e))"

text \<open>The loop of \<open>try_to_record\<close> over the options, \<open>raw\<close> being what was written so far.\<close>

fun options_to_raw :: "(u16 \<times> bytes) list \<Rightarrow> bytes \<Rightarrow> proto_error + bytes" where
  "options_to_raw [] raw = Inr raw"
| "options_to_raw ((code, data) # rest) raw =
     (if length data \<ge> 65536 then Inl (MessageError (OptionTooLong code))
      else if length raw + 4 + length data > 65535 then Inl (MessageError OptionsTooLong)
      else options_to_raw rest
             (raw @ u16_to_be_bytes code @ u16_to_be_bytes (of_nat (length data)) @ data))"

definition try_to_record :: "edns \<Rightarrow> proto_error + rr" where
  "try_to_record e =
     (case options_to_raw (e_options e) [] of
        Inl err \<Rightarrow> Inl err
      | Inr raw \<Rightarrow>
          Inr \<lparr>rr_name = name_root, rr_rtype = RT_OPT, rr_class = e_udp_payload e,
               rr_ttl = push_bit 24 (ucast (e_extended_rcode e))
                        OR push_bit 16 (ucast (e_version e))
                        OR (if e_dnssec_ok e then 0x00008000 else 0),
               rr_rdata = Unknown RT_OPT raw\<rparr>)"

section \<open>Parsing messages\<close>

definition MAX_SECTION_ITEMS :: nat where "MAX_SECTION_ITEMS = 4096"

definition parse_question :: "question rd" where
  "parse_question =
     rd_bind name_parse (\<lambda>n. rd_bind rd_u16 (\<lambda>qtype. rd_bind rd_u16 (\<lambda>qclass.
       rd_return \<lparr>q_name = n, q_qtype = qtype, q_qclass = qclass\<rparr>)))"

fun read_n :: "'a rd \<Rightarrow> nat \<Rightarrow> 'a list rd" where
  "read_n m 0 = rd_return []"
| "read_n m (Suc n) = rd_bind m (\<lambda>x. rd_bind (read_n m n) (\<lambda>xs. rd_return (x # xs)))"

definition record_reader :: "u8 \<Rightarrow> rr rd" where
  "record_reader update_section =
     (if update_section = 1 then parse_update_empty
      else if update_section = 2 then parse_update_operation
      else rr_parse)"

definition is_opt :: "rr \<Rightarrow> bool" where
  "is_opt rec \<longleftrightarrow> rr_rtype rec = RT_OPT"

definition rd_check :: "(reader \<Rightarrow> bool) \<Rightarrow> proto_error \<Rightarrow> unit rd" where
  "rd_check ok e r = (if ok r then (Inr (), r) else (Inl e, r))"

definition section_counts_ok :: "nat \<Rightarrow> nat \<Rightarrow> nat \<Rightarrow> nat \<Rightarrow> reader \<Rightarrow> bool" where
  "section_counts_ok qd an ns ar r \<longleftrightarrow>
     qd \<le> MAX_SECTION_ITEMS \<and> an \<le> MAX_SECTION_ITEMS \<and> ns \<le> MAX_SECTION_ITEMS \<and>
     ar \<le> MAX_SECTION_ITEMS \<and> qd * 5 \<le> remaining r \<and> (an + ns + ar) * 11 \<le> remaining r"

text \<open>The last step: at most one OPT record, whose upper RCODE bits join the header's.\<close>

definition merge_opt :: "header \<Rightarrow> rr list \<Rightarrow> proto_error + header" where
  "merge_opt h additionals =
     (case filter is_opt additionals of
        [] \<Rightarrow> Inr h
      | opt # others \<Rightarrow>
          if others \<noteq> [] then Inl (MessageError DuplicateOpt)
          else case validate_record opt of
                 Inl e \<Rightarrow> Inl e
               | Inr ext \<Rightarrow> Inr (h\<lparr>h_rcode := h_rcode h OR push_bit 4 (ucast ext)\<rparr>))"

definition is_update :: "header \<Rightarrow> bool" where
  "is_update h \<longleftrightarrow> h_opcode h = 5 \<and> \<not> h_response h"

definition parse_sections :: "header \<Rightarrow> nat \<Rightarrow> nat \<Rightarrow> nat \<Rightarrow> nat \<Rightarrow> message rd" where
  "parse_sections h qd an ns ar =
     rd_bind (rd_check (section_counts_ok qd an ns ar) (MessageError SectionCounts)) (\<lambda>_.
     rd_bind (read_n parse_question qd) (\<lambda>questions.
     rd_bind (read_n (record_reader (if is_update h then 1 else 0)) an) (\<lambda>answers.
     rd_bind (read_n (record_reader (if is_update h then 2 else 0)) ns) (\<lambda>authorities.
     rd_bind (rd_check (\<lambda>_. \<not> list_ex is_opt (answers @ authorities))
       (MessageError OptPlacement)) (\<lambda>_.
     rd_bind (read_n (record_reader 0) ar) (\<lambda>additionals.
     rd_bind (rd_check (\<lambda>r. remaining r = 0) (MessageError TrailingBytes)) (\<lambda>_.
       case merge_opt h additionals of
         Inl e \<Rightarrow> rd_fail e
       | Inr h' \<Rightarrow>
           rd_return \<lparr>msg_header = h', msg_questions = questions, msg_answers = answers,
                      msg_authorities = authorities, msg_additionals = additionals\<rparr>)))))))"

definition parse_body :: "message rd" where
  "parse_body =
     rd_bind rd_u16 (\<lambda>i. rd_bind rd_u16 (\<lambda>flags.
     rd_bind rd_u16 (\<lambda>qd. rd_bind rd_u16 (\<lambda>an. rd_bind rd_u16 (\<lambda>ns. rd_bind rd_u16 (\<lambda>ar.
       parse_sections (from_flags i flags) (unat qd) (unat an) (unat ns) (unat ar)))))))"

definition message_parse :: "bytes \<Rightarrow> proto_error + message" where
  "message_parse buf =
     (if length buf > MAX_DNS_WIRE_LEN then Inl (MessageError MessageTooLong)
      else fst (parse_body (reader_new buf)))"

section \<open>Encoding messages\<close>

definition stop_on_writer_error :: "writer \<Rightarrow> proto_error + unit" where
  "stop_on_writer_error w = (case wr_error w of Some e \<Rightarrow> Inl e | None \<Rightarrow> Inr ())"

text \<open>A loop that writes one item per iteration and stops at the first writer error.\<close>

fun encode_all :: "(writer \<Rightarrow> writer) list \<Rightarrow> writer \<Rightarrow> (proto_error + unit) \<times> writer" where
  "encode_all [] w = (Inr (), w)"
| "encode_all (f # fs) w =
     (let w' = f w in
      case stop_on_writer_error w' of Inl e \<Rightarrow> (Inl e, w') | Inr _ \<Rightarrow> encode_all fs w')"

fun check_records :: "rr list \<Rightarrow> proto_error option" where
  "check_records [] = None"
| "check_records (rec # rest) =
     (if rr_rtype rec \<noteq> record_type (rr_rdata rec)
      then Some (MessageError (TypeMismatch (rr_rtype rec) (record_type (rr_rdata rec))))
      else case rdata_validate (rr_rdata rec) of
             Some e \<Rightarrow> Some (MessageError (SvcbInvalid e))
           | None \<Rightarrow> check_records rest)"

definition message_opt :: "message \<Rightarrow> rr option" where
  "message_opt m = find is_opt (msg_additionals m)"

definition check_opt :: "rr option \<Rightarrow> proto_error option" where
  "check_opt o' =
     (case o' of
        None \<Rightarrow> None
      | Some opt \<Rightarrow>
          if \<not> is_root (rr_name opt) then Some (MessageError OptOwner)
          else case try_from_record opt of Inl e \<Rightarrow> Some e | Inr _ \<Rightarrow> None)"

definition opt_count :: "message \<Rightarrow> nat" where
  "opt_count m = length (filter is_opt (msg_additionals m))"

definition needs_synthetic_opt :: "message \<Rightarrow> bool" where
  "needs_synthetic_opt m \<longleftrightarrow> h_rcode (msg_header m) > 0x0f \<and> opt_count m = 0"

definition additional_count :: "message \<Rightarrow> nat" where
  "additional_count m = length (msg_additionals m) + (if needs_synthetic_opt m then 1 else 0)"

text \<open>The checks before the first byte is written, in order; \<open>None\<close> is success.\<close>

definition precheck :: "message \<Rightarrow> proto_error option" where
  "precheck m =
     (if h_opcode (msg_header m) > 0x0f then Some (MessageError OpcodeRange)
      else if h_rcode (msg_header m) > 0x0fff then Some (MessageError RcodeRange)
      else if length (msg_questions m) \<ge> 65536 then Some (MessageError TooManyQuestions)
      else if length (msg_answers m) \<ge> 65536 then Some (MessageError TooManyAnswers)
      else if length (msg_authorities m) \<ge> 65536 then Some (MessageError TooManyAuthorities)
      else if opt_count m > 1 then Some (MessageError DuplicateOpt)
      else if list_ex is_opt (msg_answers m @ msg_authorities m)
      then Some (MessageError OptPlacement)
      else case check_records (msg_answers m @ msg_authorities m @ msg_additionals m) of
             Some e \<Rightarrow> Some e
           | None \<Rightarrow>
               (case check_opt (message_opt m) of
                  Some e \<Rightarrow> Some e
                | None \<Rightarrow>
                    if additional_count m \<ge> 65536
                    then Some (MessageError TooManyAdditionals) else None))"

definition ext_rcode :: "header \<Rightarrow> u8" where
  "ext_rcode h = ucast (drop_bit 4 (h_rcode h) AND 0xff)"

definition opt_ttl :: "header \<Rightarrow> rr \<Rightarrow> u32" where
  "opt_ttl h rec = (rr_ttl rec AND 0x00ffffff) OR push_bit 24 (ucast (ext_rcode h))"

definition encode_header :: "message \<Rightarrow> writer \<Rightarrow> writer" where
  "encode_header m w =
     push_u16 (push_u16 (push_u16 (push_u16 (push_u16 (push_u16 w
       (h_id (msg_header m))) (header_flags (msg_header m)))
       (of_nat (length (msg_questions m)))) (of_nat (length (msg_answers m))))
       (of_nat (length (msg_authorities m)))) (of_nat (additional_count m))"

definition encode_question :: "question \<Rightarrow> writer \<Rightarrow> writer" where
  "encode_question q w = push_u16 (push_u16 (name_encode (q_name q) w) (q_qtype q)) (q_qclass q)"

definition encode_additional :: "header \<Rightarrow> rr \<Rightarrow> writer \<Rightarrow> writer" where
  "encode_additional h rec w =
     (if is_opt rec then encode_with_ttl rec (opt_ttl h rec) w else rr_encode rec w)"

definition synthetic_opt :: "header \<Rightarrow> proto_error + rr" where
  "synthetic_opt h = try_to_record (edns_default\<lparr>e_extended_rcode := ext_rcode h\<rparr>)"

definition encode_checked_into :: "message \<Rightarrow> writer \<Rightarrow> (proto_error + unit) \<times> writer" where
  "encode_checked_into m w =
     (case precheck m of
        Some e \<Rightarrow> (Inl e, w)
      | None \<Rightarrow>
          (case encode_all
                  (encode_header m # map encode_question (msg_questions m)
                   @ map rr_encode (msg_answers m) @ map rr_encode (msg_authorities m)
                   @ map (encode_additional (msg_header m)) (msg_additionals m)) w of
             (Inl e, w1) \<Rightarrow> (Inl e, w1)
           | (Inr _, w1) \<Rightarrow>
               if needs_synthetic_opt m
               then (case synthetic_opt (msg_header m) of
                       Inl e \<Rightarrow> (Inl e, w1)
                     | Inr opt \<Rightarrow> encode_all [rr_encode opt] w1)
               else (Inr (), w1)))"

definition try_encode :: "(bytes \<Rightarrow> u64) \<Rightarrow> message \<Rightarrow> proto_error + bytes" where
  "try_encode hb m =
     (case encode_checked_into m (writer_new hb) of
        (Inl e, _) \<Rightarrow> Inl e
      | (Inr _, w) \<Rightarrow> writer_finish w)"

definition try_encode_into :: "message \<Rightarrow> writer \<Rightarrow> (proto_error + unit) \<times> writer" where
  "try_encode_into m w =
     (if wr_buf w \<noteq> [] \<or> \<not> name_map_is_empty (wr_names w) \<or> is_failed w
      then (Inl (MessageError EncoderNotEmpty), w)
      else encode_checked_into m w)"

section \<open>Building and editing messages\<close>

definition message_query :: "u16 \<Rightarrow> name \<Rightarrow> u16 \<Rightarrow> message" where
  "message_query i n qtype =
     \<lparr>msg_header = header_default\<lparr>h_id := i, h_recursion_desired := True\<rparr>,
      msg_questions = [\<lparr>q_name = n, q_qtype = qtype, q_qclass = CLASS_IN\<rparr>],
      msg_answers = [], msg_authorities = [], msg_additionals = []\<rparr>"

definition requested_padding :: "message \<Rightarrow> bool" where
  "requested_padding m =
     (case message_opt m of
        None \<Rightarrow> False
      | Some opt \<Rightarrow>
          (case edns_from_record opt of None \<Rightarrow> False | Some e \<Rightarrow> has_option e EDNS_PADDING))"

fun position :: "('a \<Rightarrow> bool) \<Rightarrow> 'a list \<Rightarrow> nat option" where
  "position P [] = None"
| "position P (x # xs) = (if P x then Some 0 else map_option Suc (position P xs))"

definition set_additional :: "message \<Rightarrow> nat \<Rightarrow> rr \<Rightarrow> message" where
  "set_additional m idx rec = m\<lparr>msg_additionals := (msg_additionals m)[idx := rec]\<rparr>"

text \<open>The message is returned as the method leaves it, also when the method fails.\<close>

definition pad_to :: "(bytes \<Rightarrow> u64) \<Rightarrow> message \<Rightarrow> nat \<Rightarrow> (proto_error + unit) \<times> message" where
  "pad_to hb m block =
     (if block = 0 then (Inr (), m)
      else case position is_opt (msg_additionals m) of
        None \<Rightarrow> (Inr (), m)
      | Some idx \<Rightarrow>
          (case try_from_record (msg_additionals m ! idx) of
             Inl e \<Rightarrow> (Inl e, m)
           | Inr edns0 \<Rightarrow>
               (let edns = edns0\<lparr>e_options := filter (\<lambda>(c, _). c \<noteq> EDNS_PADDING) (e_options edns0)\<rparr>
                in case try_to_record edns of
                     Inl e \<Rightarrow> (Inl e, m)
                   | Inr rec \<Rightarrow>
                       (let m1 = set_additional m idx rec in
                        case try_encode hb m1 of
                          Inl e \<Rightarrow> (Inl e, m1)
                        | Inr wire0 \<Rightarrow>
                            (let base = length wire0;
                                 pad_len = (block - ((base + 4) mod block)) mod block;
                                 edns' = edns\<lparr>e_options := e_options edns @
                                           [(EDNS_PADDING, replicate pad_len 0)]\<rparr>
                             in case try_to_record edns' of
                                  Inl e \<Rightarrow> (Inl e, m1)
                                | Inr rec' \<Rightarrow> (Inr (), set_additional m1 idx rec'))))))"

text \<open>The shared shape of \<open>set_tcp_keepalive\<close> and \<open>set_client_subnet\<close>.\<close>

definition edit_opt :: "(edns \<Rightarrow> edns) \<Rightarrow> message \<Rightarrow> (proto_error + unit) \<times> message" where
  "edit_opt f m =
     (case position is_opt (msg_additionals m) of
        Some idx \<Rightarrow>
          (case try_from_record (msg_additionals m ! idx) of
             Inl e \<Rightarrow> (Inl e, m)
           | Inr e0 \<Rightarrow>
               (case try_to_record (f e0) of
                  Inl e \<Rightarrow> (Inl e, m)
                | Inr rec \<Rightarrow> (Inr (), set_additional m idx rec)))
      | None \<Rightarrow>
          (case try_to_record (f edns_default) of
             Inl e \<Rightarrow> (Inl e, m)
           | Inr rec \<Rightarrow> (Inr (), m\<lparr>msg_additionals := msg_additionals m @ [rec]\<rparr>)))"

definition set_tcp_keepalive :: "message \<Rightarrow> u16 \<Rightarrow> (proto_error + unit) \<times> message" where
  "set_tcp_keepalive m t = edit_opt (\<lambda>e. edns_set_tcp_keepalive e t) m"

definition set_client_subnet :: "message \<Rightarrow> bytes \<Rightarrow> (proto_error + unit) \<times> message" where
  "set_client_subnet m opt = edit_opt (\<lambda>e. edns_set_client_subnet e opt) m"

end
