(* ===== verification/MessageCodec.thy ===== *)
theory MessageCodec
  imports Message
begin

unbundle bit_operations_syntax

text \<open>
  The codec of whole messages: the header word and the OPT record as bit fields, what the
  parser accepts, and that the parser reads back whatever the checked encoder writes.
\<close>

section \<open>Readers only advance\<close>

lemma advancing_read_char_string [wf_intros]: "advancing read_char_string"
  unfolding read_char_string_def by (intro wf_intros)

lemma txt_loop_advances: "advances r (snd (txt_loop end cs r))"
proof (induction "end" cs r rule: txt_loop.induct)
  case (1 "end" cs r)
  show ?case
  proof (cases "rd_pos r < end")
    case True
    obtain n r1 where u: "rd_u8 r = (n, r1)" by (cases "rd_u8 r")
    note a1 = advancingD [OF advancing_basic(3) u]
    show ?thesis
    proof (cases n)
      case (Inr l)
      obtain c r2 where b: "rd_bytes (unat l) r1 = (c, r2)" by (cases "rd_bytes (unat l) r1")
      note a2 = advances_trans [OF a1 advancingD [OF advancing_basic(4) b]]
      show ?thesis
      proof (cases c)
        case (Inr bs)
        with 1 True u b \<open>n = Inr l\<close> a2 show ?thesis
          by (subst txt_loop.simps) (auto intro: advances_trans)
      qed (use True u b \<open>n = Inr l\<close> a2 in \<open>simp add: txt_loop.simps\<close>)
    qed (use True u a1 in \<open>simp add: txt_loop.simps\<close>)
  qed (simp add: txt_loop.simps)
qed

lemma advancing_svc_param [wf_intros]: "advancing read_svc_param"
  unfolding read_svc_param_def by (intro wf_intros)

lemma svc_loop_advances: "advances r (snd (svc_loop end ps r))"
proof (induction "end" ps r rule: svc_loop.induct)
  case (1 "end" ps r)
  obtain p r1 where u: "read_svc_param r = (p, r1)" by (cases "read_svc_param r")
  note a1 = advancingD [OF advancing_svc_param u]
  with 1 u show ?case
    by (subst svc_loop.simps) (auto intro: advances_trans split: sum.splits)
qed

lemma advancing_loops [wf_intros]: "advancing (txt_loop end cs)" "advancing (svc_loop end ps)"
  by (simp_all add: advancing_def txt_loop_advances svc_loop_advances)

lemma advancing_rest [wf_intros]: "advancing (rd_rest n k)"
  by (simp add: rd_rest_def advancing_basic)

lemma advancing_pos: "(\<And>p. advancing (f p)) \<Longrightarrow> advancing (\<lambda>r. f (rd_pos r) r)"
  by (simp add: advancing_def)

lemma advancing_svcb [wf_intros]: "advancing (parse_svcb t n)"
proof -
  have "advancing (\<lambda>r. (\<lambda>p. rd_bind rd_u16 (\<lambda>priority. rd_bind parse_uncompressed (\<lambda>target.
      rd_bind (svc_loop (p + n) []) (\<lambda>params.
        case validate_svcb_params priority params of
          Some e \<Rightarrow> rd_fail (MessageError (SvcbInvalid e))
        | None \<Rightarrow> rd_return (if t = RT_SVCB then Svcb priority target params
                             else Https priority target params))))) (rd_pos r) r)"
    by (rule advancing_pos, intro wf_intros) (auto split: option.split intro: wf_intros)
  then show ?thesis by (simp add: parse_svcb_def [abs_def])
qed

lemma advancing_if: "advancing m \<Longrightarrow> advancing n \<Longrightarrow> advancing (if b then m else n)"
  by simp

lemma advancing_rdata_parse [wf_intros]: "advancing (rdata_parse t n)"
proof -
  have txt_case: "advancing (\<lambda>r. rd_bind (txt_loop (rd_pos r + n) []) (\<lambda>cs. rd_return (Txt cs)) r)"
    using advancing_pos [of "\<lambda>p. rd_bind (txt_loop (p + n) []) (\<lambda>cs. rd_return (Txt cs))"]
    by (simp add: wf_intros)
  show ?thesis
    unfolding rdata_parse_def parse_soa_def parse_naptr_def
    by (intro txt_case advancing_if wf_intros)
qed

lemma advancing_rdata_section [wf_intros]: "advancing (parse_rdata_section cls n t c ttl len)"
  unfolding advancing_def
proof
  fix r :: reader
  let ?r1 = "r\<lparr>rd_limit := rd_pos r + len\<rparr>"
  obtain x r2 where x: "rdata_parse t len ?r1 = (x, r2)" by (cases "rdata_parse t len ?r1")
  have "advances ?r1 r2" using advancing_rdata_parse x by (rule advancingD)
  with x show "advances r (snd (parse_rdata_section cls n t c ttl len r))"
    by (auto simp: parse_rdata_section_def Let_def advances_def reader_wf_def split: sum.split)
qed

lemma advancing_record [wf_intros]: "advancing (parse_inner cls)"
  unfolding parse_inner_def by (intro wf_intros)

lemma advancing_read_n [wf_intros]: "advancing m \<Longrightarrow> advancing (read_n m n)"
  by (induction n) (auto intro: wf_intros simp del: rd_return_eq)

lemma advancing_question [wf_intros]: "advancing parse_question"
  unfolding parse_question_def by (intro wf_intros)

section \<open>Header word\<close>

lemma flag_masks:
  "(f :: u16) AND 0x8000 = 0 \<longleftrightarrow> \<not> bit f 15" "f AND 0x0400 = 0 \<longleftrightarrow> \<not> bit f 10"
  "f AND 0x0200 = 0 \<longleftrightarrow> \<not> bit f 9" "f AND 0x0100 = 0 \<longleftrightarrow> \<not> bit f 8"
  "f AND 0x0080 = 0 \<longleftrightarrow> \<not> bit f 7" "f AND 0x0020 = 0 \<longleftrightarrow> \<not> bit f 5"
  "f AND 0x0010 = 0 \<longleftrightarrow> \<not> bit f 4"
  using and_exp_eq_0_iff_not_bit [of f 15] and_exp_eq_0_iff_not_bit [of f 10]
    and_exp_eq_0_iff_not_bit [of f 9] and_exp_eq_0_iff_not_bit [of f 8]
    and_exp_eq_0_iff_not_bit [of f 7] and_exp_eq_0_iff_not_bit [of f 5]
    and_exp_eq_0_iff_not_bit [of f 4] by simp_all

lemma bit_flag_exp: "bit (flag b (2 ^ k)) n \<longleftrightarrow> b \<and> n = k \<and> k < 16"
  by (auto simp: flag_def bit_exp_iff)

lemmas bit_flag =
  bit_flag_exp [of _ 15, simplified] bit_flag_exp [of _ 10, simplified]
  bit_flag_exp [of _ 9, simplified] bit_flag_exp [of _ 8, simplified]
  bit_flag_exp [of _ 7, simplified] bit_flag_exp [of _ 5, simplified]
  bit_flag_exp [of _ 4, simplified]

lemma bit_nibble: "bit ((x :: 'a::len word) AND 0xF) n \<longleftrightarrow> bit x n \<and> n < 4"
proof -
  have m: "(0xF :: 'a word) = mask 4" by (simp add: mask_eq_exp_minus_1)
  show ?thesis unfolding m by (auto simp: bit_and_iff bit_mask_iff dest: bit_imp_le_length)
qed

lemma bit_byte: "bit ((x :: 'a::len word) AND 0xff) n \<longleftrightarrow> bit x n \<and> n < 8"
proof -
  have m: "(0xff :: 'a word) = mask 8" by (simp add: mask_eq_exp_minus_1)
  show ?thesis unfolding m by (auto simp: bit_and_iff bit_mask_iff dest: bit_imp_le_length)
qed

lemma bit_header_flags:
  "bit (header_flags h) n \<longleftrightarrow>
     n = 15 \<and> h_response h \<or> 11 \<le> n \<and> n < 15 \<and> bit (h_opcode h) (n - 11) \<or>
     n = 10 \<and> h_authoritative h \<or> n = 9 \<and> h_truncated h \<or> n = 8 \<and> h_recursion_desired h \<or>
     n = 7 \<and> h_recursion_available h \<or> n = 5 \<and> h_authentic_data h \<or>
     n = 4 \<and> h_checking_disabled h \<or> n < 4 \<and> bit (h_rcode h) n"
proof -
  have "bit (push_bit 11 (ucast (h_opcode h) AND 0xF) :: u16) n \<longleftrightarrow>
      11 \<le> n \<and> n < 15 \<and> bit (h_opcode h) (n - 11)"
    unfolding bit_push_bit_iff bit_nibble bit_ucast_iff by (auto dest: bit_imp_le_length)
  then show ?thesis
    unfolding header_flags_def bit_or_iff bit_flag bit_nibble by (simp only: conj_commute disj_assoc)
qed

lemma from_flags_header_flags:
  assumes "h_opcode h \<le> 0x0f"
  shows "from_flags (h_id h) (header_flags h) = h\<lparr>h_rcode := h_rcode h AND 0xF\<rparr>"
proof -
  have op: "take_bit 4 (h_opcode h) = h_opcode h"
    using assms by (simp add: take_bit_word_self word_le_nat_alt)
  have *: "h_opcode h = ucast (drop_bit 11 (header_flags h) AND 0xF)"
  proof (rule bit_eqI)
    fix n
    show "bit (h_opcode h) n = bit (ucast (drop_bit 11 (header_flags h) AND 0xF) :: u8) n"
      using arg_cong [OF op, where f = "\<lambda>w. bit w n"]
      by (auto simp: bit_ucast_iff bit_nibble bit_drop_bit_eq bit_header_flags bit_take_bit_iff
        dest: bit_imp_le_length)
  qed
  have "header_flags h AND 0xF = h_rcode h AND 0xF"
    by (rule bit_eqI) (auto simp: bit_nibble bit_header_flags)
  with * show ?thesis
    by (cases h) (simp add: from_flags_def flag_masks bit_header_flags)
qed

lemma header_flags_from_flags: "header_flags (from_flags i f) = f AND 0xFFBF"
proof (rule bit_word_eqI)
  fix n :: nat
  assume n: "n < LENGTH(16)"
  have z: "(0xFFBF :: u16) = NOT (2 ^ 6)" by simp
  have "bit (0xFFBF :: u16) n \<longleftrightarrow> n \<noteq> 6"
    using n unfolding z bit_not_iff bit_exp_iff by auto
  moreover have "bit (header_flags (from_flags i f)) n \<longleftrightarrow> bit f n \<and> n \<noteq> 6"
  proof -
    have "(n = 15 \<or> n = 10 \<or> n = 9 \<or> n = 8) \<or> 11 \<le> n \<and> n < 15 \<or> (n = 7 \<or> n = 6) \<or> (n = 5 \<or> n = 4) \<or> n < 4"
      using n by simp linarith
    then show ?thesis
      unfolding bit_header_flags from_flags_def header.simps bit_ucast_iff bit_nibble
        bit_drop_bit_eq flag_masks by (elim disjE) auto
  qed
  ultimately show "bit (header_flags (from_flags i f)) n = bit (f AND 0xFFBF) n"
    unfolding bit_and_iff by blast
qed

lemma rcode_split:
  assumes "h_rcode h \<le> 0x0fff"
  shows "(h_rcode h AND 0xF) OR push_bit 4 (ucast (ext_rcode h)) = h_rcode h"
proof (rule bit_eqI)
  fix n :: nat
  have r: "take_bit 12 (h_rcode h) = h_rcode h"
    using assms by (simp add: take_bit_word_self word_le_nat_alt)
  have x: "bit ((h_rcode h AND 0xF) OR push_bit 4 (ucast (ext_rcode h))) n \<longleftrightarrow>
      bit (h_rcode h) n \<and> n < 12"
    unfolding ext_rcode_def bit_or_iff bit_nibble bit_push_bit_iff bit_ucast_iff bit_byte bit_drop_bit_eq
    by (auto simp: le_add_diff_inverse dest: bit_imp_le_length)
  show "bit ((h_rcode h AND 0xF) OR push_bit 4 (ucast (ext_rcode h))) n = bit (h_rcode h) n"
    unfolding x using arg_cong [OF r, where f = "\<lambda>w. bit w n"] by (auto simp: bit_take_bit_iff)
qed

section \<open>EDNS options\<close>

definition option_bytes :: "u16 \<times> bytes \<Rightarrow> bytes" where
  "option_bytes = (\<lambda>(code, data). u16_to_be_bytes code @ u16_to_be_bytes (of_nat (length data)) @ data)"

definition option_ok :: "u16 \<times> bytes \<Rightarrow> bool" where
  "option_ok = (\<lambda>(code, data). length data < 65536)"

lemma options_to_raw_iff:
  "options_to_raw os raw = Inr raw' \<longleftrightarrow> raw' = raw @ concat (map option_bytes os) \<and>
     list_all option_ok os \<and> (os \<noteq> [] \<longrightarrow> length raw' \<le> 65535)"
  by (induction os raw rule: options_to_raw.induct)
    (auto simp: option_bytes_def option_ok_def u16_to_be_bytes_def)

lemma u16_to_from_be: "u16_to_be_bytes (u16_from_be_bytes hi lo) = [hi, lo]"
proof -
  have "ucast (drop_bit 8 (u16_from_be_bytes hi lo)) = hi" "ucast (u16_from_be_bytes hi lo) = lo"
    unfolding u16_from_be_bytes_def
    by (rule bit_word_eqI; auto simp: bit_simps dest: bit_imp_le_length)+
  then show ?thesis by (simp add: u16_to_be_bytes_def)
qed

lemma visit_options_append:
  assumes "length data < 65536"
  shows "visit_options (option_bytes (code, data) @ rest) =
    (case visit_options rest of Inl e \<Rightarrow> Inl e | Inr os \<Rightarrow> Inr ((code, data) # os))"
  using assms by (subst visit_options.simps)
    (simp add: option_bytes_def u16_to_be_bytes_def numeral_2_eq_2 numeral_3_eq_3
      split: sum.split)

lemma visit_options_concat: "list_all option_ok os \<Longrightarrow> visit_options (concat (map option_bytes os)) = Inr os"
  by (induction os) (auto simp: visit_options.simps [of "[]"] visit_options_append option_ok_def)

lemma visit_options_sound:
  "visit_options raw = Inr os \<Longrightarrow> raw = concat (map option_bytes os) \<and> list_all option_ok os"
proof (induction raw arbitrary: os rule: visit_options.induct)
  case (1 raw)
  show ?case
  proof (cases "raw = []")
    case False
    define code where "code = u16_from_be_bytes (raw ! 0) (raw ! 1)"
    define n where "n = u16_from_be_bytes (raw ! 2) (raw ! 3)"
    have len: "\<not> length raw < 4" "\<not> unat n > length (drop 4 raw)"
      using 1(2) False by (auto simp: visit_options.simps [of raw] n_def split: if_splits)
    then obtain os' where os': "visit_options (drop (unat n) (drop 4 raw)) = Inr os'"
      and os: "os = (code, take (unat n) (drop 4 raw)) # os'"
      using 1(2) False by (auto simp: visit_options.simps [of raw] n_def code_def Let_def
        split: if_splits sum.splits)
    have rest: "drop (unat n) (drop 4 raw) = concat (map option_bytes os')" "list_all option_ok os'"
      using 1(1) [OF False len(1) code_def refl refl _ os' [unfolded n_def]] len n_def by auto
    have hd: "raw = [raw ! 0, raw ! 1, raw ! 2, raw ! 3] @ drop 4 raw"
      using len(1)
      by (cases raw; cases "tl raw"; cases "tl (tl raw)"; cases "tl (tl (tl raw))")
        (auto simp: numeral_2_eq_2 numeral_3_eq_3)
    have "length (take (unat n) (drop 4 raw)) \<le> unat n" by simp
    also have "unat n < 65536" using unsigned_less [of n] by simp
    finally have b: "length (take (unat n) (drop 4 raw)) < 65536" .
    have "option_bytes (code, take (unat n) (drop 4 raw)) =
        [raw ! 0, raw ! 1, raw ! 2, raw ! 3] @ take (unat n) (drop 4 raw)"
      using len by (simp add: option_bytes_def code_def n_def min_def u16_to_from_be)
    then have "raw = option_bytes (code, take (unat n) (drop 4 raw)) @ drop (unat n) (drop 4 raw)"
      using hd by (metis append.assoc append_take_drop_id)
    with rest b show ?thesis by (simp add: os option_ok_def del: length_take)
  qed (use 1(2) in \<open>simp add: visit_options.simps\<close>)
qed

lemma visit_options_iff:
  "visit_options raw = Inr os \<longleftrightarrow> raw = concat (map option_bytes os) \<and> list_all option_ok os"
  using visit_options_sound visit_options_concat by blast

lemma opt_ttl_fields:
  fixes e v :: u8 and d :: bool
  defines "ttl \<equiv> push_bit 24 (ucast e) OR push_bit 16 (ucast v) OR (if d then 0x00008000 else 0 :: u32)"
  shows "extended_of_ttl ttl = e" and "ucast (drop_bit 16 ttl AND 0xff) = v"
    and "ttl AND 0x00008000 \<noteq> 0 \<longleftrightarrow> d"
proof -
  have p: "(0x00008000 :: u32) = 2 ^ 15" by simp
  have bit: "bit ttl n \<longleftrightarrow> 24 \<le> n \<and> bit e (n - 24) \<or> 16 \<le> n \<and> bit v (n - 16) \<or> n = 15 \<and> d" for n
    unfolding ttl_def p bit_or_iff bit_push_bit_iff bit_ucast_iff
    by (auto simp: bit_exp_iff dest: bit_imp_le_length simp del: power_numeral split: if_splits)
  show "extended_of_ttl ttl = e" unfolding extended_of_ttl_def
    by (rule bit_word_eqI)
      (auto simp: bit_ucast_iff bit_byte bit_drop_bit_eq bit dest: bit_imp_le_length)
  show "ucast (drop_bit 16 ttl AND 0xff) = v"
    by (rule bit_word_eqI)
      (auto simp: bit_ucast_iff bit_byte bit_drop_bit_eq bit dest: bit_imp_le_length)
  show "ttl AND 0x00008000 \<noteq> 0 \<longleftrightarrow> d"
    unfolding p and_exp_eq_0_iff_not_bit by (simp add: bit)
qed

lemma is_root_root [simp]: "is_root name_root" by (simp add: is_root_def name_root_def)

lemma try_from_to_record:
  assumes "try_to_record e = Inr rec"
  shows "try_from_record rec = Inr e"
proof -
  obtain raw where raw: "options_to_raw (e_options e) [] = Inr raw"
    using assms by (auto simp: try_to_record_def split: sum.splits)
  then have "visit_options raw = Inr (e_options e)"
    by (simp add: options_to_raw_iff visit_options_iff)
  moreover define ttl where "ttl = push_bit 24 (ucast (e_extended_rcode e)) OR
    push_bit 16 (ucast (e_version e)) OR (if e_dnssec_ok e then 0x00008000 else 0 :: u32)"
  moreover have "rec = \<lparr>rr_name = name_root, rr_rtype = RT_OPT, rr_class = e_udp_payload e,
      rr_ttl = ttl, rr_rdata = Unknown RT_OPT raw\<rparr>"
    using assms raw by (simp add: try_to_record_def ttl_def)
  moreover note opt_ttl_fields [of "e_extended_rcode e" "e_version e" "e_dnssec_ok e", folded ttl_def]
  ultimately show ?thesis by (simp add: try_from_record_def record_parts_def)
qed

lemma opt_ttl_ext: "extended_of_ttl (opt_ttl h rec) = ext_rcode h"
  unfolding extended_of_ttl_def opt_ttl_def
proof (rule bit_word_eqI)
  fix n assume "n < LENGTH(8)"
  have m: "(0x00ffffff :: u32) = mask 24" by (simp add: mask_eq_exp_minus_1)
  show "bit (ucast (drop_bit 24 ((rr_ttl rec AND 0x00ffffff) OR push_bit 24 (ucast (ext_rcode h))) AND 0xff) :: u8) n
    = bit (ext_rcode h) n"
    unfolding m bit_ucast_iff bit_byte by (auto simp: bit_ucast_iff bit_drop_bit_eq bit_or_iff bit_and_iff bit_mask_iff
       bit_push_bit_iff dest: bit_imp_le_length)
qed

section \<open>Lists of items\<close>

lemma codec_append:
  assumes "codec H (seqw fs) m R" and "\<And>x. R x \<Longrightarrow> codec H (seqw gs) (k x) S" and "list_all sticky gs"
  shows "codec H (seqw (fs @ gs)) (rd_bind m k) S"
proof -
  have "seqw (fs @ gs) = (\<lambda>w. seqw gs (seqw fs w))" by (simp add: seqw_def fun_eq_iff)
  then show ?thesis using codec_bind [OF assms(1,2) sticky_seqw [OF assms(3)]] by simp
qed

lemma codec_Nil: "S x \<Longrightarrow> codec H (seqw []) (rd_return x) S"
proof (rule codecI)
  fix w assume "ready H w"
  have "robust H (rd_return x) (wr_buf w) p p x" for p
    by (simp add: robust_def decodes_return del: rd_return_eq)
  moreover assume "S x"
  ultimately show "\<exists>y. S y \<and> robust H (rd_return x) (wr_buf (seqw [] w)) (length (wr_buf w))
      (length (wr_buf (seqw [] w))) y"
    by (auto simp: seqw_def)
qed (auto simp: seqw_def)

lemma codec_list:
  assumes "\<And>x. x \<in> set xs \<Longrightarrow> codec H (f x) m (R x)" and "\<And>x. x \<in> set xs \<Longrightarrow> sticky (f x)"
  shows "codec H (seqw (map f xs)) (read_n m (length xs)) (list_all2 R xs)"
  using assms
proof (induction xs)
  case Nil
  have "codec H (seqw []) (rd_return []) (list_all2 R [])" by (rule codec_Nil) simp
  then show ?case by (simp del: rd_return_eq list_all2_Nil)
next
  case (Cons x xs)
  have one: "codec H (f x) m (R x)" and stick: "list_all sticky (map f xs)"
    using Cons.prems by (auto simp: list_all_iff)
  have "codec H (seqw (map f xs)) (rd_bind (read_n m (length xs)) (\<lambda>ys. rd_return (y # ys)))
      (list_all2 R (x # xs))" if "R x y" for y
    using Cons.IH Cons.prems that by (intro codec_last [where R = "list_all2 R xs"]) auto
  then show ?case by (simp add: codec_Cons [OF one _ stick])
qed

section \<open>How much a reading step consumes\<close>

definition consumes :: "nat \<Rightarrow> 'a rd \<Rightarrow> bool" where
  "consumes k m \<longleftrightarrow> (\<forall>r x r'. m r = (Inr x, r') \<longrightarrow> rd_pos r + k \<le> rd_pos r')"

lemma consumesD: "consumes k m \<Longrightarrow> m r = (Inr x, r') \<Longrightarrow> rd_pos r + k \<le> rd_pos r'"
  unfolding consumes_def by blast

lemma consumes_bind:
  assumes "consumes a m" and "\<And>x. consumes b (f x)" and "c \<le> a + b"
  shows "consumes c (rd_bind m f)"
  unfolding consumes_def
proof (intro allI impI)
  fix r y r''
  assume "rd_bind m f r = (Inr y, r'')"
  then obtain x r' where "m r = (Inr x, r')" "f x r' = (Inr y, r'')" by (rule rd_bind_InrE)
  with assms show "rd_pos r + c \<le> rd_pos r''"
    using consumesD [of a m r x r'] consumesD [of b "f x" r' y r''] by fastforce
qed

lemma consumes_return: "consumes 0 (rd_return x)" by (simp add: consumes_def)

lemma consumes_u8: "consumes 1 rd_u8"
  by (auto simp: consumes_def rd_u8_def split: if_splits)

lemma consumes_u16: "consumes 2 rd_u16"
  unfolding rd_u16_def
  by (rule consumes_bind [OF consumes_u8 consumes_bind [OF consumes_u8 consumes_return order.refl]])
      simp

lemma consumes_u32: "consumes 4 rd_u32"
  unfolding rd_u32_def
  by (rule consumes_bind [OF consumes_u16 consumes_bind [OF consumes_u16 consumes_return order.refl]])
      simp

lemma consumes_name: "consumes 1 name_parse"
  by (auto simp: consumes_def name_parse_iff dest: name_at_bounds)

lemma consumes_question: "consumes 5 parse_question"
  unfolding parse_question_def
  by (rule consumes_bind [OF consumes_name consumes_bind [OF consumes_u16 consumes_bind [OF
          consumes_u16 consumes_return order.refl] order.refl]]) simp

lemma consumes_rdata_section: "consumes 0 (parse_rdata_section cls n t c ttl len)"
  by (auto simp: consumes_def parse_rdata_section_def Let_def split: if_splits prod.splits sum.splits)

lemma consumes_record: "consumes 11 (parse_inner cls)"
  unfolding parse_inner_def
  by (rule consumes_bind [OF consumes_name consumes_bind [OF consumes_u16 consumes_bind [OF
          consumes_u16 consumes_bind [OF consumes_u32 consumes_bind [OF consumes_u16
          consumes_rdata_section order.refl] order.refl] order.refl] order.refl]]) simp

lemma consumes_read_n: "consumes k m \<Longrightarrow> consumes (n * k) (read_n m n)"
proof (induction n)
  case 0
  show ?case by (simp add: consumes_def)
next
  case (Suc n)
  then show ?case
    by (auto intro: consumes_bind [OF _ consumes_bind [OF _ consumes_return order.refl]])
qed

lemma read_n_length: "read_n m n r = (Inr xs, r') \<Longrightarrow> length xs = n"
  by (induction n arbitrary: r xs) (auto elim!: rd_bind_InrE)

lemma record_reader_eq: "record_reader u = parse_inner (if u = 1 then Some [254, 255] else if u = 2 then Some [255] else None)"
  by (simp add: record_reader_def parse_update_empty_def parse_update_operation_def rr_parse_def)

lemma encode_all_ok:
  "encode_all fs w = (Inr (), w') \<Longrightarrow> wr_error w = None \<Longrightarrow> w' = seqw fs w \<and> wr_error w' = None"
  by (induction fs w rule: encode_all.induct)
    (auto simp: seqw_def Let_def stop_on_writer_error_def split: option.splits)

lemma decodes_question:
  assumes "decodes name_parse buf p q n" and "bytes_at buf q (u16_to_be_bytes t @ u16_to_be_bytes c)"
  shows "decodes parse_question buf p (q + 4) \<lparr>q_name = n, q_qtype = t, q_qclass = c\<rparr>"
proof -
  have "length (u16_to_be_bytes t) = 2" by (simp add: u16_to_be_bytes_def)
  then have "decodes rd_u16 buf q (q + 2) t" "decodes rd_u16 buf (q + 2) (q + 4) c"
    using assms(2) by (auto intro: decodes_u16)
  moreover have "decodes (rd_return x) buf (q + 4) (q + 4) x" for x by (rule decodes_return)
  ultimately show ?thesis
    unfolding parse_question_def by (intro decodes_bind [OF assms(1)] decodes_bind)
qed

section \<open>What the message parser accepts\<close>

record raw_message =
  raw_id :: u16
  raw_flags :: u16
  raw_questions :: "question list"
  raw_answers :: "rr list"
  raw_authorities :: "rr list"
  raw_additionals :: "rr list"

definition update_classes :: "header \<Rightarrow> nat \<Rightarrow> u16 list option" where
  "update_classes h k = (if is_update h then (if k = 1 then Some [254, 255] else if k = 2 then Some [255] else None) else None)"

definition read_raw_sections :: "u16 \<Rightarrow> u16 \<Rightarrow> nat \<Rightarrow> nat \<Rightarrow> nat \<Rightarrow> nat \<Rightarrow> raw_message rd" where
  "read_raw_sections i f qd an ns ar =
     rd_bind (read_n parse_question qd) (\<lambda>questions.
     rd_bind (read_n (parse_inner (update_classes (from_flags i f) 1)) an) (\<lambda>answers.
     rd_bind (read_n (parse_inner (update_classes (from_flags i f) 2)) ns) (\<lambda>authorities.
     rd_bind (read_n (parse_inner None) ar) (\<lambda>additionals.
       rd_return \<lparr>raw_id = i, raw_flags = f, raw_questions = questions, raw_answers = answers,
                  raw_authorities = authorities, raw_additionals = additionals\<rparr>))))"

definition read_raw :: "raw_message rd" where
  "read_raw =
     rd_bind rd_u16 (\<lambda>i. rd_bind rd_u16 (\<lambda>flags.
     rd_bind rd_u16 (\<lambda>qd. rd_bind rd_u16 (\<lambda>an. rd_bind rd_u16 (\<lambda>ns. rd_bind rd_u16 (\<lambda>ar.
       read_raw_sections i flags (unat qd) (unat an) (unat ns) (unat ar)))))))"

definition raw_ok :: "raw_message \<Rightarrow> header \<Rightarrow> bool" where
  "raw_ok x h \<longleftrightarrow>
     length (raw_questions x) \<le> MAX_SECTION_ITEMS \<and> length (raw_answers x) \<le> MAX_SECTION_ITEMS \<and>
     length (raw_authorities x) \<le> MAX_SECTION_ITEMS \<and> length (raw_additionals x) \<le> MAX_SECTION_ITEMS \<and>
     \<not> list_ex is_opt (raw_answers x @ raw_authorities x) \<and>
     merge_opt (from_flags (raw_id x) (raw_flags x)) (raw_additionals x) = Inr h"

definition message_of :: "raw_message \<Rightarrow> header \<Rightarrow> message" where
  "message_of x h = \<lparr>msg_header = h, msg_questions = raw_questions x, msg_answers = raw_answers x,
     msg_authorities = raw_authorities x, msg_additionals = raw_additionals x\<rparr>"

lemma readers_update:
  "record_reader (if is_update h then 1 else 0) = parse_inner (update_classes h 1)"
  "record_reader (if is_update h then 2 else 0) = parse_inner (update_classes h 2)"
  "record_reader 0 = parse_inner None"
  by (simp_all add: record_reader_eq update_classes_def)

lemma rd_check_Inr: "rd_check ok e r = (Inr u, r') \<longleftrightarrow> ok r \<and> r' = r"
  by (auto simp: rd_check_def)

lemma parse_sections_iff:
  assumes wf: "reader_wf r"
  shows "fst (parse_sections (from_flags i f) qd an ns ar r) = Inr m \<longleftrightarrow>
    (\<exists>x h r'. read_raw_sections i f qd an ns ar r = (Inr x, r') \<and> remaining r' = 0 \<and> raw_ok x h \<and> m = message_of x h)"
proof
  assume L: "fst (parse_sections (from_flags i f) qd an ns ar r) = Inr m"
  then obtain r'' where "parse_sections (from_flags i f) qd an ns ar r = (Inr m, r'')"
    by (metis prod.collapse)
  then obtain qs r1 as r2 bs r3 cs r4 where
     "section_counts_ok qd an ns ar r"
    "read_n parse_question qd r = (Inr qs, r1)"
    "read_n (parse_inner (update_classes (from_flags i f) 1)) an r1 = (Inr as, r2)"
    "read_n (parse_inner (update_classes (from_flags i f) 2)) ns r2 = (Inr bs, r3)"
    "\<not> list_ex is_opt (as @ bs)"
    "read_n (parse_inner None) ar r3 = (Inr cs, r4)" "remaining r4 = 0"
    "(case merge_opt (from_flags i f) cs of Inl e \<Rightarrow> rd_fail e
       | Inr h' \<Rightarrow> rd_return \<lparr>msg_header = h', msg_questions = qs, msg_answers = as,
                      msg_authorities = bs, msg_additionals = cs\<rparr>) r4 = (Inr m, r'')"
    unfolding parse_sections_def readers_update
    by (auto elim!: rd_bind_InrE simp: rd_check_Inr)
  moreover note read_n_length [OF this(2)] read_n_length [OF this(3)] read_n_length [OF this(4)] read_n_length [OF this(6)]
  ultimately show "\<exists>x h r'. read_raw_sections i f qd an ns ar r = (Inr x, r') \<and> remaining r' = 0 \<and> raw_ok x h \<and> m = message_of x h"
    by (intro exI [of _ "\<lparr>raw_id = i, raw_flags = f, raw_questions = qs, raw_answers = as,
                  raw_authorities = bs, raw_additionals = cs\<rparr>"] exI [of _ r4])
      (auto simp: read_raw_sections_def rd_bind_def raw_ok_def section_counts_ok_def message_of_def
        split: sum.splits)
next
  assume "\<exists>x h r'. read_raw_sections i f qd an ns ar r = (Inr x, r') \<and> remaining r' = 0 \<and> raw_ok x h \<and> m = message_of x h"
  then obtain x h r' where x: "read_raw_sections i f qd an ns ar r = (Inr x, r')" "remaining r' = 0" "raw_ok x h" "m = message_of x h"
    by blast
  then obtain qs r1 as r2 bs r3 cs where
    q: "read_n parse_question qd r = (Inr qs, r1)" and
    a: "read_n (parse_inner (update_classes (from_flags i f) 1)) an r1 = (Inr as, r2)" and
    b: "read_n (parse_inner (update_classes (from_flags i f) 2)) ns r2 = (Inr bs, r3)" and
    c: "read_n (parse_inner None) ar r3 = (Inr cs, r')" and
    xeq: "x = \<lparr>raw_id = i, raw_flags = f, raw_questions = qs, raw_answers = as,
                  raw_authorities = bs, raw_additionals = cs\<rparr>"
    unfolding read_raw_sections_def by (auto elim!: rd_bind_InrE)
  note len = read_n_length [OF q] read_n_length [OF a] read_n_length [OF b] read_n_length [OF c]
  have "advances r r'"
    using x(1) by (rule advancingD [rotated]) (unfold read_raw_sections_def, intro wf_intros)
  then have "rd_limit r' = rd_limit r" "rd_pos r' = rd_limit r"
    using x(2) wf by (auto simp: advances_def reader_wf_def remaining_def)
  with consumesD [OF consumes_read_n [OF consumes_question] q]
      consumesD [OF consumes_read_n [OF consumes_record] a]
      consumesD [OF consumes_read_n [OF consumes_record] b]
      consumesD [OF consumes_read_n [OF consumes_record] c] x(3) len
  have "section_counts_ok qd an ns ar r"
    by (auto simp: section_counts_ok_def raw_ok_def xeq remaining_def algebra_simps)
  with x q a b c len show "fst (parse_sections (from_flags i f) qd an ns ar r) = Inr m"
    by (simp add: parse_sections_def readers_update rd_bind_def rd_check_def xeq raw_ok_def message_of_def)
qed

lemma message_parse_iff:
  "message_parse buf = Inr m \<longleftrightarrow> length buf \<le> MAX_DNS_WIRE_LEN \<and>
     (\<exists>x h r'. read_raw (reader_new buf) = (Inr x, r') \<and> remaining r' = 0 \<and> raw_ok x h \<and> m = message_of x h)"
proof -
  define hdr :: "(u16 \<times> u16 \<times> u16 \<times> u16 \<times> u16 \<times> u16) rd" where
    "hdr = rd_bind rd_u16 (\<lambda>i. rd_bind rd_u16 (\<lambda>flags.
     rd_bind rd_u16 (\<lambda>qd. rd_bind rd_u16 (\<lambda>an. rd_bind rd_u16 (\<lambda>ns. rd_bind rd_u16 (\<lambda>ar.
       rd_return (i, flags, qd, an, ns, ar)))))))"
  have assoc: "rd_bind hdr (\<lambda>(i, f, qd, an, ns, ar). k i f qd an ns ar) =
    rd_bind rd_u16 (\<lambda>i. rd_bind rd_u16 (\<lambda>flags.
     rd_bind rd_u16 (\<lambda>qd. rd_bind rd_u16 (\<lambda>an. rd_bind rd_u16 (\<lambda>ns. rd_bind rd_u16 (\<lambda>ar.
       k i flags qd an ns ar))))))" for k :: "u16 \<Rightarrow> u16 \<Rightarrow> u16 \<Rightarrow> u16 \<Rightarrow> u16 \<Rightarrow> u16 \<Rightarrow> 'b rd"
    unfolding hdr_def by (auto simp: rd_bind_def fun_eq_iff split: prod.split sum.split)
  let ?r = "reader_new buf"
  obtain v r0 where v: "hdr ?r = (v, r0)" by (cases "hdr ?r")
  have "advancing hdr" unfolding hdr_def by (intro wf_intros)
  then have "advances ?r r0" using v by (rule advancingD)
  then have wf: "reader_wf r0" by (simp add: advances_def reader_wf_def reader_new_def)
  show ?thesis
  proof (cases v)
    case (Inl e)
    then show ?thesis using v
      by (auto simp: message_parse_def parse_body_def read_raw_def rd_bind_Inl simp flip: assoc)
  next
    case (Inr t)
    then show ?thesis using v parse_sections_iff [OF wf]
      by (cases t) (auto simp: message_parse_def parse_body_def read_raw_def rd_bind_Inr simp flip: assoc)
  qed
qed

section \<open>What the encoder writes is read back\<close>

definition question_ok :: "question \<Rightarrow> bool" where
  "question_ok q \<longleftrightarrow> name_ok (q_name q)"

definition same_question :: "question \<Rightarrow> question \<Rightarrow> bool" where
  "same_question q x \<longleftrightarrow> same_name (q_name q) (q_name x) \<and> q_qtype x = q_qtype q \<and> q_qclass x = q_qclass q"

text \<open>The additional records that reach the wire: the OPT record with the upper RCODE bits, or a new one.\<close>

definition wire_additionals :: "message \<Rightarrow> rr list" where
  "wire_additionals m =
     map (\<lambda>rec. if is_opt rec then rec\<lparr>rr_ttl := opt_ttl (msg_header m) rec\<rparr> else rec) (msg_additionals m) @
     (if needs_synthetic_opt m
      then [\<lparr>rr_name = name_root, rr_rtype = RT_OPT, rr_class = 1232,
             rr_ttl = push_bit 24 (ucast (ext_rcode (msg_header m))), rr_rdata = Unknown RT_OPT []\<rparr>]
      else [])"

definition message_ok :: "message \<Rightarrow> bool" where
  "message_ok m \<longleftrightarrow>
     length (msg_questions m) \<le> MAX_SECTION_ITEMS \<and> length (msg_answers m) \<le> MAX_SECTION_ITEMS \<and>
     length (msg_authorities m) \<le> MAX_SECTION_ITEMS \<and> additional_count m \<le> MAX_SECTION_ITEMS \<and>
     list_all question_ok (msg_questions m) \<and>
     list_all (rr_ok (update_classes (msg_header m) 1)) (msg_answers m) \<and>
     list_all (rr_ok (update_classes (msg_header m) 2)) (msg_authorities m) \<and>
     list_all (rr_ok None) (msg_additionals m)"

definition same_message :: "message \<Rightarrow> message \<Rightarrow> bool" where
  "same_message m x \<longleftrightarrow> msg_header x = msg_header m \<and>
     list_all2 same_question (msg_questions m) (msg_questions x) \<and>
     list_all2 (\<lambda>rec. same_rr rec (rr_ttl rec)) (msg_answers m) (msg_answers x) \<and>
     list_all2 (\<lambda>rec. same_rr rec (rr_ttl rec)) (msg_authorities m) (msg_authorities x) \<and>
     list_all2 (\<lambda>rec. same_rr rec (rr_ttl rec)) (wire_additionals m) (msg_additionals x)"

lemma sticky_encode_with_ttl: "sticky (encode_with_ttl rec ttl)"
  unfolding encode_with_ttl_seqw
  by (rule sticky_seqw) (auto intro: sticky_intros sticky_rdata_block)

lemma sticky_rr_encode: "sticky (rr_encode rec)"
  using sticky_encode_with_ttl by (simp add: sticky_def rr_encode_def)

lemma encode_question_seqw:
  "encode_question q = seqw [name_encode (q_name q), \<lambda>w. push_u16 w (q_qtype q), \<lambda>w. push_u16 w (q_qclass q)]"
  by (simp add: encode_question_def seqw_def fun_eq_iff)

lemma sticky_encode_question: "sticky (encode_question q)"
  unfolding encode_question_seqw by (rule sticky_seqw) (auto intro: sticky_intros)

lemma codec_question:
  "question_ok q \<Longrightarrow> codec H (encode_question q) parse_question (same_question q)"
  unfolding encode_question_seqw parse_question_def
  by (rule codec_Cons [OF codec_name_ok], simp add: question_ok_def,
      rule codec_Cons [OF codec_u16], rule codec_one [OF codec_u16])
    (auto simp: same_question_def intro: sticky_intros)

lemma codec_rr_encode: "rr_ok cls rec \<Longrightarrow> codec {} (rr_encode rec) (parse_inner cls) (same_rr rec (rr_ttl rec))"
  using codec_rr [of cls rec "rr_ttl rec"] by (simp add: rr_encode_def [abs_def])

lemma codec_records:
  "list_all (rr_ok cls) recs \<Longrightarrow> codec {} (seqw (map rr_encode recs)) (read_n (parse_inner cls) (length recs))
     (list_all2 (\<lambda>rec. same_rr rec (rr_ttl rec)) recs)"
  by (rule codec_list) (auto simp: list_all_iff intro: codec_rr_encode sticky_rr_encode)

definition header_actions :: "message \<Rightarrow> (writer \<Rightarrow> writer) list" where
  "header_actions m = [\<lambda>w. push_u16 w (h_id (msg_header m)), \<lambda>w. push_u16 w (header_flags (msg_header m)),
     \<lambda>w. push_u16 w (of_nat (length (msg_questions m))), \<lambda>w. push_u16 w (of_nat (length (msg_answers m))),
     \<lambda>w. push_u16 w (of_nat (length (msg_authorities m))), \<lambda>w. push_u16 w (of_nat (additional_count m))]"

definition section_actions :: "message \<Rightarrow> (writer \<Rightarrow> writer) list" where
  "section_actions m = map encode_question (msg_questions m) @ map rr_encode (msg_answers m) @
     map rr_encode (msg_authorities m) @ map rr_encode (wire_additionals m)"

lemma sticky_sections: "list_all sticky (section_actions m)"
  by (auto simp: section_actions_def list_all_iff sticky_rr_encode sticky_encode_question)

lemma length_wire_additionals [simp]: "length (wire_additionals m) = additional_count m"
  by (simp add: wire_additionals_def additional_count_def)

lemma encode_additional_eq:
  "encode_additional h rec = rr_encode (if is_opt rec then rec\<lparr>rr_ttl := opt_ttl h rec\<rparr> else rec)"
  by (simp add: encode_additional_def rr_encode_def encode_with_ttl_def fun_eq_iff)

lemma synthetic_opt_eq:
  "synthetic_opt h = Inr \<lparr>rr_name = name_root, rr_rtype = RT_OPT, rr_class = 1232,
     rr_ttl = push_bit 24 (ucast (ext_rcode h)), rr_rdata = Unknown RT_OPT []\<rparr>"
  by (simp add: synthetic_opt_def try_to_record_def edns_default_def)

lemma encode_all_append:
  "encode_all (fs @ gs) w = (case encode_all fs w of (Inl e, w') \<Rightarrow> (Inl e, w') | (Inr _, w') \<Rightarrow> encode_all gs w')"
  by (induction fs w rule: encode_all.induct) (auto simp: Let_def split: sum.splits)

lemma encode_checked_into_eq:
  "precheck m = None \<Longrightarrow>
     encode_checked_into m w = encode_all (encode_header m # section_actions m) w"
  unfolding encode_checked_into_def section_actions_def wire_additionals_def synthetic_opt_eq
  by (auto simp: encode_all_append comp_def encode_additional_eq [abs_def] stop_on_writer_error_def
      Let_def split: sum.splits prod.splits option.splits)

lemma codec_sections:
  assumes ok: "message_ok m" and qd: "is_update (from_flags i f) = is_update (msg_header m)"
    and wa: "list_all (rr_ok None) (wire_additionals m)"
  shows "codec {} (seqw (section_actions m))
    (read_raw_sections i f (length (msg_questions m)) (length (msg_answers m))
       (length (msg_authorities m)) (additional_count m))
    (\<lambda>x. raw_id x = i \<and> raw_flags x = f \<and>
       list_all2 same_question (msg_questions m) (raw_questions x) \<and>
       list_all2 (\<lambda>rec. same_rr rec (rr_ttl rec)) (msg_answers m) (raw_answers x) \<and>
       list_all2 (\<lambda>rec. same_rr rec (rr_ttl rec)) (msg_authorities m) (raw_authorities x) \<and>
       list_all2 (\<lambda>rec. same_rr rec (rr_ttl rec)) (wire_additionals m) (raw_additionals x))"
proof -
  have upd: "update_classes (from_flags i f) k = update_classes (msg_header m) k" for k
    by (simp add: update_classes_def qd)
  have qs: "codec {} (seqw (map encode_question (msg_questions m)))
      (read_n parse_question (length (msg_questions m))) (list_all2 same_question (msg_questions m))"
    using ok by (intro codec_list) (auto simp: message_ok_def list_all_iff codec_question sticky_encode_question)
  have recs: "list_all (rr_ok (update_classes (msg_header m) 1)) (msg_answers m)"
      "list_all (rr_ok (update_classes (msg_header m) 2)) (msg_authorities m)"
    using ok by (auto simp: message_ok_def)
  show ?thesis
    unfolding section_actions_def read_raw_sections_def upd length_wire_additionals [symmetric]
    by (rule codec_append [OF qs], rule codec_append [OF codec_records [OF recs(1)]],
        rule codec_append [OF codec_records [OF recs(2)]],
        rule codec_last [OF codec_records [OF wa]])
      (auto simp: list_all_iff sticky_rr_encode)
qed

lemma list_all2_filter:
  assumes "\<And>a b. R a b \<Longrightarrow> P a \<longleftrightarrow> Q b"
  shows "list_all2 R xs ys \<Longrightarrow> list_all2 R (filter P xs) (filter Q ys)"
  by (induction rule: list_all2_induct) (auto dest: assms)

lemma same_rr_is_opt: "same_rr rec ttl x \<Longrightarrow> is_opt rec \<longleftrightarrow> is_opt x"
  by (simp add: same_rr_def is_opt_def)

lemma list_all2_is_opt:
  "list_all2 (\<lambda>rec. same_rr rec (rr_ttl rec)) xs ys \<Longrightarrow> list_ex is_opt xs \<longleftrightarrow> list_ex is_opt ys"
  by (induction rule: list_all2_induct) (auto dest: same_rr_is_opt)

lemma filter_opt_wire:
  "filter is_opt (wire_additionals m) =
     map (\<lambda>rec. rec\<lparr>rr_ttl := opt_ttl (msg_header m) rec\<rparr>) (filter is_opt (msg_additionals m)) @
     (if needs_synthetic_opt m then drop (length (msg_additionals m)) (wire_additionals m) else [])"
proof -
  have "filter is_opt (map (\<lambda>rec. if is_opt rec then rec\<lparr>rr_ttl := opt_ttl h rec\<rparr> else rec) recs) =
      map (\<lambda>rec. rec\<lparr>rr_ttl := opt_ttl h rec\<rparr>) (filter is_opt recs)" for h recs
    by (induction recs) (auto simp: is_opt_def)
  then show ?thesis by (simp add: wire_additionals_def is_opt_def)
qed

lemma same_root: "same_name n x \<Longrightarrow> is_root n \<Longrightarrow> is_root x"
  by (auto simp: same_name_def is_root_def eq_ignore_case_def eq_ignore_ascii_case_def
      dest: map_eq_imp_length_eq)

lemma validate_same:
  assumes "same_rr opt ttl x" and "check_opt (Some opt) = None" and "rr_rtype opt = RT_OPT"
  shows "validate_record x = Inr (extended_of_ttl ttl)"
  using assms same_root
  by (auto simp: check_opt_def try_from_record_def validate_record_def record_parts_def same_rr_def
      split: if_splits sum.splits rdata.splits)

lemma precheck_NoneD:
  assumes "precheck m = None"
  shows "h_opcode (msg_header m) \<le> 0x0f" and "h_rcode (msg_header m) \<le> 0x0fff"
    and "opt_count m \<le> 1" and "\<not> list_ex is_opt (msg_answers m @ msg_authorities m)"
    and "check_opt (message_opt m) = None"
  using assms by (auto simp: precheck_def not_less split: if_splits option.splits)

lemma find_filter: "filter P xs = y # ys \<Longrightarrow> find P xs = Some y"
  by (induction xs) (auto split: if_splits)

lemma merge_opt_wire:
  assumes pre: "precheck m = None"
    and adds: "list_all2 (\<lambda>rec. same_rr rec (rr_ttl rec)) (wire_additionals m) xs"
  shows "merge_opt (from_flags (h_id (msg_header m)) (header_flags (msg_header m))) xs = Inr (msg_header m)"
proof -
  let ?h = "msg_header m"
  note P = precheck_NoneD [OF pre]
  have opts: "list_all2 (\<lambda>rec. same_rr rec (rr_ttl rec)) (filter is_opt (wire_additionals m)) (filter is_opt xs)"
    using same_rr_is_opt adds by (rule list_all2_filter)
  have ext: "merge_opt (from_flags (h_id ?h) (header_flags ?h)) xs = Inr ?h"
    if "filter is_opt xs = [x]" "validate_record x = Inr (ext_rcode ?h)" for x
    using that rcode_split [OF P(2)] by (simp add: merge_opt_def from_flags_header_flags [OF P(1)])
  consider (none) "filter is_opt (msg_additionals m) = []" "\<not> needs_synthetic_opt m"
    | (synth) "filter is_opt (msg_additionals m) = []" "needs_synthetic_opt m"
    | (one) opt where "filter is_opt (msg_additionals m) = [opt]" "\<not> needs_synthetic_opt m"
    using P(3) by (cases "filter is_opt (msg_additionals m)")
      (auto simp: opt_count_def needs_synthetic_opt_def)
  then show ?thesis
  proof cases
    case none
    then have "h_rcode ?h \<le> 0x0f" by (auto simp: needs_synthetic_opt_def opt_count_def not_less)
    then have "take_bit 4 (h_rcode ?h) = h_rcode ?h"
      by (simp add: take_bit_word_self word_le_nat_alt)
    then have "h_rcode ?h AND 0xF = h_rcode ?h"
      by (simp add: take_bit_eq_mask mask_eq_exp_minus_1)
    with opts none show ?thesis
      by (simp add: filter_opt_wire merge_opt_def from_flags_header_flags [OF P(1)])
  next
    case synth
    let ?syn = "\<lparr>rr_name = name_root, rr_rtype = RT_OPT, rr_class = 1232,
       rr_ttl = push_bit 24 (ucast (ext_rcode ?h)), rr_rdata = Unknown RT_OPT []\<rparr>"
    have "filter is_opt (wire_additionals m) = [?syn]"
      using synth by (simp add: filter_opt_wire) (simp add: wire_additionals_def)
    then obtain x where x: "filter is_opt xs = [x]" "same_rr ?syn (rr_ttl ?syn) x"
      using opts by (auto simp: list_all2_Cons1)
    have "check_opt (Some ?syn) = None"
      by (simp add: check_opt_def try_from_record_def record_parts_def visit_options.simps)
    with x(2) have "validate_record x = Inr (extended_of_ttl (rr_ttl ?syn))"
      by (rule validate_same) simp
    moreover have "extended_of_ttl (rr_ttl ?syn) = ext_rcode ?h"
      using opt_ttl_fields(1) [of "ext_rcode ?h" 0 False] by simp
    ultimately show ?thesis using x(1) by (simp add: ext)
  next
    case one
    let ?opt = "opt\<lparr>rr_ttl := opt_ttl ?h opt\<rparr>"
    obtain x where x: "filter is_opt xs = [x]" "same_rr ?opt (opt_ttl ?h opt) x"
      using opts one by (auto simp: list_all2_Cons1 filter_opt_wire)
    have "is_opt opt" using one(1) by (metis filter_eq_ConsD)
    moreover have "check_opt (Some opt) = None"
      using P(5) find_filter [OF one(1)] by (simp add: message_opt_def)
    moreover have "same_rr opt (opt_ttl ?h opt) x" using x(2) by (simp add: same_rr_def)
    ultimately have "validate_record x = Inr (ext_rcode ?h)"
      using validate_same [of opt "opt_ttl ?h opt" x] by (simp add: is_opt_def opt_ttl_ext)
    with x(1) show ?thesis by (rule ext)
  qed
qed

lemma wire_additionals_ok:
  assumes "list_all (rr_ok None) (msg_additionals m)"
  shows "list_all (rr_ok None) (wire_additionals m)"
proof -
  have "rr_ok None (rec\<lparr>rr_ttl := t\<rparr>) = rr_ok None rec" for rec t by (simp add: rr_ok_def)
  moreover have "name_ok name_root"
    using num_labels_name_of [of "[]"] by (simp add: name_ok_def name_root_of)
  then have "rr_ok None \<lparr>rr_name = name_root, rr_rtype = RT_OPT, rr_class = c, rr_ttl = t,
      rr_rdata = Unknown RT_OPT []\<rparr>" for c t
    by (simp add: rr_ok_def typed_rtypes_def is_unsupported_name_bearing_def)
  ultimately show ?thesis using assms by (auto simp: wire_additionals_def list_all_iff)
qed

lemma ready_new: "ready {} (writer_new hb)"
  using writer_new_wf [of hb] nm.emp_get [of "name_map_default hb"]
  by (auto simp: ready_def names_ok_def writer_new_def writer_wf_def name_map_is_empty_def name_map_default_def)

lemma codec_message:
  assumes ok: "message_ok m" and pre: "precheck m = None"
  shows "codec {} (seqw (encode_header m # section_actions m)) read_raw
    (\<lambda>x. raw_ok x (msg_header m) \<and> same_message m (message_of x (msg_header m)))"
proof -
  let ?h = "msg_header m"
  note P = precheck_NoneD [OF pre]
  have upd: "is_update (from_flags (h_id ?h) (header_flags ?h)) = is_update ?h"
    by (simp add: from_flags_header_flags [OF P(1)] is_update_def)
  have wa: "list_all (rr_ok None) (wire_additionals m)"
    using ok by (intro wire_additionals_ok) (simp add: message_ok_def)
  have seq: "seqw (encode_header m # section_actions m) = seqw (header_actions m @ section_actions m)"
    by (simp add: seqw_def encode_header_def header_actions_def fun_eq_iff)
  have cnt: "unat (of_nat n :: u16) = n" if "n \<le> MAX_SECTION_ITEMS" for n
    using that by (simp add: MAX_SECTION_ITEMS_def)
  have C: "codec {} (seqw (section_actions m))
      (read_raw_sections (h_id ?h) (header_flags ?h) (length (msg_questions m)) (length (msg_answers m))
       (length (msg_authorities m)) (additional_count m))
      (\<lambda>x. raw_ok x ?h \<and> same_message m (message_of x ?h))"
  proof (rule codec_weaken [OF codec_sections [OF ok upd wa]], elim conjE)
    fix x :: raw_message
    assume x: "raw_id x = h_id ?h" "raw_flags x = header_flags ?h"
       "list_all2 same_question (msg_questions m) (raw_questions x)"
       "list_all2 (\<lambda>rec. same_rr rec (rr_ttl rec)) (msg_answers m) (raw_answers x)"
       "list_all2 (\<lambda>rec. same_rr rec (rr_ttl rec)) (msg_authorities m) (raw_authorities x)"
       "list_all2 (\<lambda>rec. same_rr rec (rr_ttl rec)) (wire_additionals m) (raw_additionals x)"
    have "length (raw_additionals x) = additional_count m"
      using list_all2_lengthD [OF x(6)] by simp
    with x ok P(4) list_all2_is_opt [OF x(4)] list_all2_is_opt [OF x(5)] merge_opt_wire [OF pre x(6)]
    show "raw_ok x ?h \<and> same_message m (message_of x ?h)"
      by (auto simp: raw_ok_def message_ok_def same_message_def message_of_def
          dest: list_all2_lengthD)
  qed
  have "list_all sticky (section_actions m)" by (rule sticky_sections)
  with C ok show ?thesis
    unfolding seq read_raw_def header_actions_def append.simps
    by (intro codec_Cons [OF codec_u16])
      (auto simp: cnt message_ok_def intro: sticky_intros)
qed

lemma message_roundtrip:
  assumes ok: "message_ok m" and enc: "try_encode hb m = Inr bs"
  shows "\<exists>m'. message_parse bs = Inr m' \<and> same_message m m'"
proof -
  obtain w where w: "encode_checked_into m (writer_new hb) = (Inr (), w)" and fin: "writer_finish w = Inr bs"
    using enc by (auto simp: try_encode_def split: prod.splits sum.splits)
  have pre: "precheck m = None"
    using w by (auto simp: encode_checked_into_def split: option.splits)
  have wr: "w = seqw (encode_header m # section_actions m) (writer_new hb)" and err: "wr_error w = None"
    using encode_all_ok [OF w [unfolded encode_checked_into_eq [OF pre]]] by (auto simp: writer_new_def)
  have bs: "wr_buf w = bs" using fin err by (simp add: writer_finish_def)
  note C = codecD [OF codec_message [OF ok pre] ready_new [of hb], folded wr, OF err]
  obtain x where x: "raw_ok x (msg_header m)" "same_message m (message_of x (msg_header m))"
      and "robust {} read_raw bs 0 (length bs) x"
    using C(4) by (auto simp: bs writer_new_def)
  then have "decodes read_raw bs 0 (length bs) x" by (auto simp: robust_def)
  then have "read_raw (reader_new bs) = (Inr x, (reader_new bs)\<lparr>rd_pos := length bs\<rparr>)"
    by (rule decodesD) (simp_all add: reader_new_def)
  moreover have "length bs \<le> MAX_DNS_WIRE_LEN"
    using C(1) by (auto simp: ready_def writer_wf_def bs)
  ultimately show ?thesis using x
    by (auto simp: message_parse_iff remaining_def reader_new_def)
qed

section \<open>What parsed messages satisfy\<close>

definition yields :: "('a \<Rightarrow> bool) \<Rightarrow> 'a rd \<Rightarrow> bool" where
  "yields P m \<longleftrightarrow> (\<forall>r x r'. m r = (Inr x, r') \<longrightarrow> P x)"

lemma yieldsD: "yields P m \<Longrightarrow> m r = (Inr x, r') \<Longrightarrow> P x"
  unfolding yields_def by blast

lemma yields_bind: "yields Q m \<Longrightarrow> (\<And>x. Q x \<Longrightarrow> yields P (f x)) \<Longrightarrow> yields P (rd_bind m f)"
  unfolding yields_def by (blast elim: rd_bind_InrE)

lemma yields_any: "yields (\<lambda>_. True) m"
  by (simp add: yields_def)

lemma yields_skip: "(\<And>x. yields P (f x)) \<Longrightarrow> yields P (rd_bind m f)"
  by (rule yields_bind [OF yields_any])

lemma yields_return: "P x \<Longrightarrow> yields P (rd_return x)"
  by (simp add: yields_def)

lemma yields_fail: "yields P (rd_fail e)"
  by (simp add: yields_def)

lemma yields_if: "(b \<Longrightarrow> yields P m) \<Longrightarrow> (\<not> b \<Longrightarrow> yields P n) \<Longrightarrow> yields P (if b then m else n)"
  by simp

lemma yields_name: "yields name_wf name_parse"
  by (auto simp: yields_def name_parse_iff name_wf_def)

fun rdata_names :: "rdata \<Rightarrow> name list" where
  "rdata_names (Ns n) = [n]"
| "rdata_names (Cname n) = [n]"
| "rdata_names (Dname n) = [n]"
| "rdata_names (Ptr n) = [n]"
| "rdata_names (Mx p n) = [n]"
| "rdata_names (Soa s) = [soa_mname s, soa_rname s]"
| "rdata_names (Srv a b c n) = [n]"
| "rdata_names (Naptr n) = [naptr_replacement n]"
| "rdata_names (Svcb p n ps) = [n]"
| "rdata_names (Https p n ps) = [n]"
| "rdata_names _ = []"

definition rdata_parsed :: "u16 \<Rightarrow> rdata \<Rightarrow> bool" where
  "rdata_parsed t rd \<longleftrightarrow> record_type rd = t \<and> rdata_validate rd = None \<and> list_all name_wf (rdata_names rd)"

lemma yields_bytes: "yields (\<lambda>b. length b = n) (rd_bytes n)"
  by (auto simp: yields_def rd_bytes_def Let_def slice_def split: if_splits)

lemma parse_uncompressed_loop_sound:
  "parse_uncompressed_loop (flat done) tot r = (Inr n, r') \<Longrightarrow> list_all label_ok done \<Longrightarrow>
   tot = 1 + length (flat done) \<Longrightarrow> tot \<le> MAX_NAME_LEN \<Longrightarrow> name_wf n"
proof (induction "flat done" tot r arbitrary: "done" rule: parse_uncompressed_loop.induct)
  case (1 tot r)
  note eq = parse_uncompressed_loop.simps [of "flat done" tot r]
  obtain b r1 where b: "rd_u8 r = (Inr b, r1)"
    using 1(2) by (cases "rd_u8 r") (auto simp: eq split: sum.splits)
  show ?case
  proof (cases "unat b = 0")
    case True
    with 1(2) b have "n = name_of done" by (simp add: eq acc_name_of)
    with 1(3-) show ?thesis by (auto simp: name_wf_def labels_ok_def length_wire_of)
  next
    case False
    with 1(2) b obtain lab r2 where lab: "rd_bytes (unat b) r1 = (Inr lab, r2)"
        and ok: "\<not> (b AND 0xC0 \<noteq> 0 \<or> unat b > 63)" "\<not> tot + (unat b + 1) > MAX_NAME_LEN"
        and rec: "parse_uncompressed_loop (flat done @ [b] @ lab) (tot + (unat b + 1)) r2 = (Inr n, r')"
      by (auto simp: eq Let_def split: if_splits prod.splits sum.splits)
    have len: "length lab = unat b" using yieldsD [OF yields_bytes lab] .
    then have fl: "flat done @ [b] @ lab = flat (done @ [lab])" by (simp add: flat_def)
    have lb: "label_ok lab" using len ok False by (auto simp: label_ok_def)
    from 1(1) [OF b [symmetric] refl refl False ok lab [symmetric] refl fl rec [unfolded fl]]
    show ?thesis using 1(3-) lb ok len by (simp add: fl)
  qed
qed

lemma yields_uncompressed: "yields name_wf parse_uncompressed"
  using parse_uncompressed_loop_sound [of "[]" 1]
  by (auto simp: yields_def parse_uncompressed_def MAX_NAME_LEN_def)

lemma yields_svcb: "t = RT_SVCB \<or> t = RT_HTTPS \<Longrightarrow> yields (rdata_parsed t) (parse_svcb t n)"
proof -
  assume t: "t = RT_SVCB \<or> t = RT_HTTPS"
  have "yields (rdata_parsed t) (rd_bind rd_u16 (\<lambda>priority. rd_bind parse_uncompressed (\<lambda>target.
      rd_bind (svc_loop e []) (\<lambda>params.
        case validate_svcb_params priority params of
          Some e \<Rightarrow> rd_fail (MessageError (SvcbInvalid e))
        | None \<Rightarrow> rd_return (if t = RT_SVCB then Svcb priority target params
                             else Https priority target params)))))" for e
    using t
    by (intro yields_skip yields_bind [OF yields_uncompressed])
      (auto simp: yields_def rdata_parsed_def rdata_validate_def split: option.splits)
  then show ?thesis by (simp add: yields_def parse_svcb_def)
qed

lemma yields_rdata: "yields (rdata_parsed t) (rdata_parse t n)"
proof -
  have txt_case: "yields (rdata_parsed t) (\<lambda>r. rd_bind (txt_loop (rd_pos r + n) []) (\<lambda>cs. rd_return (Txt cs)) r)"
    if "t = RT_TXT"
    using that by (auto simp: yields_def rdata_parsed_def rdata_validate_def elim!: rd_bind_InrE)
  note ret = yields_return [where P = "rdata_parsed t", unfolded rdata_parsed_def rdata_validate_def]
  show ?thesis
    unfolding rdata_parse_def parse_soa_def parse_naptr_def
    apply (intro yields_if yields_fail txt_case yields_svcb yields_bind [OF yields_name] yields_skip)
    by (auto simp: yields_def rdata_parsed_def rdata_validate_def)
qed

definition rr_parsed :: "rr \<Rightarrow> bool" where
  "rr_parsed rec \<longleftrightarrow> name_wf (rr_name rec) \<and> rdata_parsed (rr_rtype rec) (rr_rdata rec)"

lemma yields_record: "yields rr_parsed (parse_inner cls)"
proof -
  have "yields rr_parsed (parse_rdata_section cls n t c ttl len)" if "name_wf n" for n t c ttl len
    using that yieldsD [OF yields_rdata]
    by (auto simp: yields_def parse_rdata_section_def Let_def rr_parsed_def rdata_parsed_def
        rdata_validate_def split: if_splits prod.splits sum.splits)
  then show ?thesis
    unfolding parse_inner_def
    by (intro yields_bind [OF yields_name] yields_skip)
qed

lemma yields_read_n: "yields P m \<Longrightarrow> yields (list_all P) (read_n m n)"
proof (induction n)
  case 0
  show ?case by (simp add: yields_def)
next
  case (Suc n)
  then show ?case
    by (auto intro!: yields_bind [where Q = P] yields_bind [where Q = "list_all P"] yields_return
        simp del: rd_return_eq)
qed

lemma yields_question: "yields (\<lambda>q. name_wf (q_name q)) parse_question"
  unfolding parse_question_def
  by (intro yields_bind [OF yields_name] yields_skip yields_return) simp

lemma yields_raw:
  "yields (\<lambda>x. list_all (\<lambda>q. name_wf (q_name q)) (raw_questions x) \<and>
     list_all rr_parsed (raw_answers x @ raw_authorities x @ raw_additionals x)) read_raw"
  unfolding read_raw_def read_raw_sections_def
  by (rule yields_skip, rule yields_skip, rule yields_skip, rule yields_skip, rule yields_skip,
      rule yields_skip, rule yields_bind [OF yields_read_n [OF yields_question]],
      (rule yields_bind [OF yields_read_n [OF yields_record]])+, rule yields_return) simp

lemma check_records_None:
  "list_all rr_parsed recs \<Longrightarrow> check_records recs = None"
  by (induction recs) (auto simp: rr_parsed_def rdata_parsed_def)

lemma bits_bound:
  fixes w :: "'a::len word"
  assumes "\<And>k. bit w k \<Longrightarrow> k < n"
  shows "unat w < 2 ^ n"
proof -
  have "take_bit n w = w"
    by (rule bit_word_eqI) (auto simp: bit_take_bit_iff dest: assms)
  then show ?thesis by (simp add: take_bit_word_self)
qed

lemma from_flags_bounds: "h_opcode (from_flags i f) \<le> 0x0f" "h_rcode (from_flags i f) \<le> 0x0f"
proof -
  have "unat (ucast (drop_bit 11 f AND 0xF) :: u8) < 2 ^ 4"
    by (rule bits_bound) (simp add: bit_ucast_iff bit_nibble)
  moreover have "unat (f AND 0xF) < 2 ^ 4" by (rule bits_bound) (simp add: bit_nibble)
  ultimately show "h_opcode (from_flags i f) \<le> 0x0f" "h_rcode (from_flags i f) \<le> 0x0f"
    by (simp_all add: from_flags_def word_le_nat_alt)
qed

lemma merged_rcode_bound:
  assumes "r \<le> (0x0f :: u16)"
  shows "r OR push_bit 4 (ucast (e :: u8)) \<le> 0x0fff"
proof -
  have r: "take_bit 4 r = r" using assms by (simp add: take_bit_word_self word_le_nat_alt)
  have "k < 4" if "bit r k" for k
    using arg_cong [OF r, where f = "\<lambda>w. bit w k"] that by (simp add: bit_take_bit_iff)
  then have "unat (r OR push_bit 4 (ucast e)) < 2 ^ 12"
    by (intro bits_bound) (fastforce simp: bit_or_iff bit_push_bit_iff bit_ucast_iff dest: bit_imp_le_length)
  then show ?thesis by (simp add: word_le_nat_alt)
qed

lemma merge_optE:
  assumes "merge_opt h adds = Inr h'"
  obtains (none) "filter is_opt adds = []" "h' = h"
  | (one) opt e where "filter is_opt adds = [opt]" "validate_record opt = Inr e"
      "h' = h\<lparr>h_rcode := h_rcode h OR push_bit 4 (ucast e)\<rparr>"
  using assms by (auto simp: merge_opt_def split: list.splits if_splits sum.splits)

lemma merge_opt_rcode:
  assumes "merge_opt h adds = Inr h'" and "h_rcode h \<le> 0x0f"
  shows "h_rcode h' \<le> 0x0fff" and "h_opcode h' = h_opcode h"
    and "h_rcode h' > 0x0f \<Longrightarrow> filter is_opt adds \<noteq> []"
  using assms order.trans [OF assms(2), where c = "0x0fff"]
  by (auto elim!: merge_optE simp: merged_rcode_bound)

lemma check_opt_merged:
  assumes "merge_opt h adds = Inr h'"
  shows "check_opt (find is_opt adds) = None" "length (filter is_opt adds) \<le> 1"
proof -
  show "check_opt (find is_opt adds) = None"
    using assms
  proof (cases rule: merge_optE)
    case none
    then have "find is_opt adds = None" by (simp add: find_None_iff filter_empty_conv)
    then show ?thesis by (simp add: check_opt_def)
  next
    case (one opt e)
    then show ?thesis using find_filter [OF one(1)]
      by (auto simp: check_opt_def validate_record_def try_from_record_def record_parts_def
          split: sum.splits if_splits rdata.splits)
  qed
  show "length (filter is_opt adds) \<le> 1" using assms by (auto elim!: merge_optE)
qed

lemma parsed_precheck:
  assumes "message_parse bs = Inr m"
  shows "precheck m = None"
proof -
  obtain x h r' where x: "read_raw (reader_new bs) = (Inr x, r')" "raw_ok x h" "m = message_of x h"
    using assms by (auto simp: message_parse_iff)
  note P = yieldsD [OF yields_raw x(1)]
  have merge: "merge_opt (from_flags (raw_id x) (raw_flags x)) (raw_additionals x) = Inr h"
    using x(2) by (simp add: raw_ok_def)
  note M = merge_opt_rcode [OF merge from_flags_bounds(2)] check_opt_merged [OF merge]
  have "\<not> needs_synthetic_opt m"
    using M(3) by (auto simp: needs_synthetic_opt_def opt_count_def x(3) message_of_def)
  with x(2) M P from_flags_bounds(1) [of "raw_id x" "raw_flags x"] check_records_None
  show ?thesis
    by (auto simp: precheck_def x(3) message_of_def raw_ok_def MAX_SECTION_ITEMS_def opt_count_def
      message_opt_def additional_count_def not_less)
qed

end
