(* ===== verification/Samples.thy ===== *)
theory Samples
  imports MessageCodec
begin

unbundle bit_operations_syntax

text \<open>
  Concrete messages and the equations that evaluate the encoder on them for every hash
  function: the offset table is evaluated through its interface, not through its arena.
\<close>

section \<open>Evaluating the encoder\<close>

lemma push_bytes_eval [codec_simps]:
  "length buf + length b \<le> lim \<Longrightarrow> lim \<le> 65535 \<Longrightarrow>
   push_bytes \<lparr>wr_buf = buf, wr_names = nm, wr_error = None, wr_limit = lim\<rparr> b =
   \<lparr>wr_buf = buf @ b, wr_names = nm, wr_error = None, wr_limit = lim\<rparr>"
  by (simp add: push_bytes_def reserve_append_def checked_add_def)

lemma backpatch_eval [codec_simps]:
  "at + 2 \<le> length buf \<Longrightarrow> length buf \<le> 65535 \<Longrightarrow>
   backpatch_len \<lparr>wr_buf = buf, wr_names = nm, wr_error = None, wr_limit = lim\<rparr> at =
   \<lparr>wr_buf = take at buf @ u16_to_be_bytes (of_nat (length buf - (at + 2))) @ drop (at + 2) buf,
    wr_names = nm, wr_error = None, wr_limit = lim\<rparr>"
  by (simp add: backpatch_len_def checked_add_def Let_def)

lemma name_encode_of [codec_simps]:
  "labels_ok ls \<Longrightarrow> name_encode (name_of ls) w = name_encode_loop ls (wire_of (lower_labels ls)) w"
  by (simp add: name_encode_def labels_ok_def)

lemma name_map_default_eval [codec_simps]: "name_map_get (name_map_default hb) = Map.empty"
  using nm.emp_get [of "name_map_default hb"] writer_new_wf [of hb]
  by (simp add: writer_wf_def writer_new_def name_map_is_empty_def name_map_default_def)

lemma name_map_default_inv [codec_simps]: "name_map_inv (name_map_default hb)"
  using writer_new_wf [of hb] by (simp add: writer_wf_def writer_new_def)

lemmas eval_simps [codec_simps] = push_as_bytes nm.get_ins nm.inv_ins is_failed_def encode_question_def
  encode_header_def rr_encode_def encode_with_ttl_def placeholder_u16_def stop_on_writer_error_def
  u16_to_be_bytes_def u32_to_be_bytes_def wire_of_def flat_def lower_labels_def labels_ok_def label_ok_def
  to_ascii_lowercase_def is_ascii_uppercase_def MAX_NAME_LEN_def

section \<open>A sample response\<close>

text \<open>A response with a compressed CNAME and an extended response code.\<close>

definition sample_message :: message where
  "sample_message =
     \<lparr>msg_header = header_default\<lparr>h_id := 7, h_response := True, h_rcode := 0x10\<rparr>,
      msg_questions = [\<lparr>q_name = name_of [[97], [98]], q_qtype = 1, q_qclass = 1\<rparr>],
      msg_answers = [\<lparr>rr_name = name_of [[65], [98]], rr_rtype = RT_CNAME, rr_class = 1, rr_ttl = 60,
                      rr_rdata = Cname (name_of [[99], [98]])\<rparr>],
      msg_authorities = [], msg_additionals = []\<rparr>"

lemmas encode_simps = section_actions_def wire_additionals_def header_default_def
  needs_synthetic_opt_def is_opt_def opt_count_def additional_count_def header_flags_def flag_def
  ext_rcode_def Let_def name_root_of writer_finish_def

lemmas precheck_simps = precheck_def header_default_def opt_count_def is_opt_def message_opt_def
  check_opt_def rdata_validate_def additional_count_def needs_synthetic_opt_def

lemma sample_precheck: "precheck sample_message = None"
  by (simp add: precheck_simps sample_message_def)

lemma sample_encodes: "\<exists>bs. try_encode hb sample_message = Inr bs"
  by (simp add: try_encode_def encode_checked_into_eq [OF sample_precheck] writer_new_def
      MAX_DNS_WIRE_LEN_def) (simp add: sample_message_def encode_simps codec_simps)

lemma sample_ok: "message_ok sample_message"
proof -
  have "labels_ok [[a], [b]]" for a b by (simp add: codec_simps)
  then have "name_ok (name_of [[a], [b]])" for a b
    unfolding name_ok_def name_wf_def MAX_JUMPS_def by force
  then show ?thesis
    by (simp add: message_ok_def sample_message_def question_ok_def rr_ok_def allows_empty_def
        update_classes_def is_update_def header_default_def additional_count_def
        needs_synthetic_opt_def opt_count_def is_opt_def MAX_SECTION_ITEMS_def)
qed

section \<open>A message the encoder writes and the parser rejects\<close>

text \<open>
  Twenty-two questions, each name one label longer than the one before: every name is a label
  and a pointer to the previous name, so reading the last one follows 21 pointers, one more
  than the parser allows.
\<close>

fun nested :: "nat \<Rightarrow> bytes list" where
  "nested 0 = []"
| "nested (Suc n) = [97 + of_nat n] # nested n"

definition deep_message :: message where
  "deep_message = \<lparr>msg_header = header_default,
     msg_questions = map (\<lambda>k. \<lparr>q_name = name_of (nested k), q_qtype = 1, q_qclass = 1\<rparr>) [1..<23],
     msg_answers = [], msg_authorities = [], msg_additionals = []\<rparr>"

lemma deep_precheck: "precheck deep_message = None"
  by (simp add: precheck_simps deep_message_def)

lemma nested_simps: "nested 1 = [[97]]" "nested (numeral k) = [97 + of_nat (pred_numeral k)] # nested (pred_numeral k)"
  by (simp_all add: numeral_eq_Suc)


definition deep_wire :: bytes where
  "deep_wire =
     [0, 0, 0, 0, 0, 22, 0, 0, 0, 0, 0, 0, 1, 97, 0, 0, 1, 0, 1, 1, 98, 192, 12, 0, 1, 0, 1,
      1, 99, 192, 19, 0, 1, 0, 1, 1, 100, 192, 27, 0, 1, 0, 1, 1, 101, 192, 35, 0, 1, 0, 1,
      1, 102, 192, 43, 0, 1, 0, 1, 1, 103, 192, 51, 0, 1, 0, 1, 1, 104, 192, 59, 0, 1, 0, 1,
      1, 105, 192, 67, 0, 1, 0, 1, 1, 106, 192, 75, 0, 1, 0, 1, 1, 107, 192, 83, 0, 1, 0, 1,
      1, 108, 192, 91, 0, 1, 0, 1, 1, 109, 192, 99, 0, 1, 0, 1, 1, 110, 192, 107, 0, 1, 0, 1,
      1, 111, 192, 115, 0, 1, 0, 1, 1, 112, 192, 123, 0, 1, 0, 1, 1, 113, 192, 131, 0, 1, 0,
      1, 1, 114, 192, 139, 0, 1, 0, 1, 1, 115, 192, 147, 0, 1, 0, 1, 1, 116, 192, 155, 0, 1,
      0, 1, 1, 117, 192, 163, 0, 1, 0, 1, 1, 118, 192, 171, 0, 1, 0, 1]"

lemma deep_encodes: "try_encode hb deep_message = Inr deep_wire"
  by (simp add: try_encode_def encode_checked_into_eq [OF deep_precheck] writer_new_def
      MAX_DNS_WIRE_LEN_def)
    (simp add: deep_message_def encode_simps codec_simps upt_conv_Cons nested_simps deep_wire_def)

lemma deep_length: "length deep_wire = 187" by (simp add: deep_wire_def)

lemma deep_nth:
  "deep_wire ! 0 = 0"
  "deep_wire ! Suc 0 = 0"
  "deep_wire ! 2 = 0"
  "deep_wire ! 3 = 0"
  "deep_wire ! 4 = 0"
  "deep_wire ! 5 = 22"
  "deep_wire ! 6 = 0"
  "deep_wire ! 7 = 0"
  "deep_wire ! 8 = 0"
  "deep_wire ! 9 = 0"
  "deep_wire ! 10 = 0"
  "deep_wire ! 11 = 0"
  "deep_wire ! 12 = 1"
  "deep_wire ! 13 = 97"
  "deep_wire ! 14 = 0"
  "deep_wire ! 15 = 0"
  "deep_wire ! 16 = 1"
  "deep_wire ! 17 = 0"
  "deep_wire ! 18 = 1"
  "deep_wire ! 19 = 1"
  "deep_wire ! 20 = 98"
  "deep_wire ! 21 = 192"
  "deep_wire ! 22 = 12"
  "deep_wire ! 23 = 0"
  "deep_wire ! 24 = 1"
  "deep_wire ! 25 = 0"
  "deep_wire ! 26 = 1"
  "deep_wire ! 27 = 1"
  "deep_wire ! 28 = 99"
  "deep_wire ! 29 = 192"
  "deep_wire ! 30 = 19"
  "deep_wire ! 31 = 0"
  "deep_wire ! 32 = 1"
  "deep_wire ! 33 = 0"
  "deep_wire ! 34 = 1"
  "deep_wire ! 35 = 1"
  "deep_wire ! 36 = 100"
  "deep_wire ! 37 = 192"
  "deep_wire ! 38 = 27"
  "deep_wire ! 39 = 0"
  "deep_wire ! 40 = 1"
  "deep_wire ! 41 = 0"
  "deep_wire ! 42 = 1"
  "deep_wire ! 43 = 1"
  "deep_wire ! 44 = 101"
  "deep_wire ! 45 = 192"
  "deep_wire ! 46 = 35"
  "deep_wire ! 47 = 0"
  "deep_wire ! 48 = 1"
  "deep_wire ! 49 = 0"
  "deep_wire ! 50 = 1"
  "deep_wire ! 51 = 1"
  "deep_wire ! 52 = 102"
  "deep_wire ! 53 = 192"
  "deep_wire ! 54 = 43"
  "deep_wire ! 55 = 0"
  "deep_wire ! 56 = 1"
  "deep_wire ! 57 = 0"
  "deep_wire ! 58 = 1"
  "deep_wire ! 59 = 1"
  "deep_wire ! 60 = 103"
  "deep_wire ! 61 = 192"
  "deep_wire ! 62 = 51"
  "deep_wire ! 63 = 0"
  "deep_wire ! 64 = 1"
  "deep_wire ! 65 = 0"
  "deep_wire ! 66 = 1"
  "deep_wire ! 67 = 1"
  "deep_wire ! 68 = 104"
  "deep_wire ! 69 = 192"
  "deep_wire ! 70 = 59"
  "deep_wire ! 71 = 0"
  "deep_wire ! 72 = 1"
  "deep_wire ! 73 = 0"
  "deep_wire ! 74 = 1"
  "deep_wire ! 75 = 1"
  "deep_wire ! 76 = 105"
  "deep_wire ! 77 = 192"
  "deep_wire ! 78 = 67"
  "deep_wire ! 79 = 0"
  "deep_wire ! 80 = 1"
  "deep_wire ! 81 = 0"
  "deep_wire ! 82 = 1"
  "deep_wire ! 83 = 1"
  "deep_wire ! 84 = 106"
  "deep_wire ! 85 = 192"
  "deep_wire ! 86 = 75"
  "deep_wire ! 87 = 0"
  "deep_wire ! 88 = 1"
  "deep_wire ! 89 = 0"
  "deep_wire ! 90 = 1"
  "deep_wire ! 91 = 1"
  "deep_wire ! 92 = 107"
  "deep_wire ! 93 = 192"
  "deep_wire ! 94 = 83"
  "deep_wire ! 95 = 0"
  "deep_wire ! 96 = 1"
  "deep_wire ! 97 = 0"
  "deep_wire ! 98 = 1"
  "deep_wire ! 99 = 1"
  "deep_wire ! 100 = 108"
  "deep_wire ! 101 = 192"
  "deep_wire ! 102 = 91"
  "deep_wire ! 103 = 0"
  "deep_wire ! 104 = 1"
  "deep_wire ! 105 = 0"
  "deep_wire ! 106 = 1"
  "deep_wire ! 107 = 1"
  "deep_wire ! 108 = 109"
  "deep_wire ! 109 = 192"
  "deep_wire ! 110 = 99"
  "deep_wire ! 111 = 0"
  "deep_wire ! 112 = 1"
  "deep_wire ! 113 = 0"
  "deep_wire ! 114 = 1"
  "deep_wire ! 115 = 1"
  "deep_wire ! 116 = 110"
  "deep_wire ! 117 = 192"
  "deep_wire ! 118 = 107"
  "deep_wire ! 119 = 0"
  "deep_wire ! 120 = 1"
  "deep_wire ! 121 = 0"
  "deep_wire ! 122 = 1"
  "deep_wire ! 123 = 1"
  "deep_wire ! 124 = 111"
  "deep_wire ! 125 = 192"
  "deep_wire ! 126 = 115"
  "deep_wire ! 127 = 0"
  "deep_wire ! 128 = 1"
  "deep_wire ! 129 = 0"
  "deep_wire ! 130 = 1"
  "deep_wire ! 131 = 1"
  "deep_wire ! 132 = 112"
  "deep_wire ! 133 = 192"
  "deep_wire ! 134 = 123"
  "deep_wire ! 135 = 0"
  "deep_wire ! 136 = 1"
  "deep_wire ! 137 = 0"
  "deep_wire ! 138 = 1"
  "deep_wire ! 139 = 1"
  "deep_wire ! 140 = 113"
  "deep_wire ! 141 = 192"
  "deep_wire ! 142 = 131"
  "deep_wire ! 143 = 0"
  "deep_wire ! 144 = 1"
  "deep_wire ! 145 = 0"
  "deep_wire ! 146 = 1"
  "deep_wire ! 147 = 1"
  "deep_wire ! 148 = 114"
  "deep_wire ! 149 = 192"
  "deep_wire ! 150 = 139"
  "deep_wire ! 151 = 0"
  "deep_wire ! 152 = 1"
  "deep_wire ! 153 = 0"
  "deep_wire ! 154 = 1"
  "deep_wire ! 155 = 1"
  "deep_wire ! 156 = 115"
  "deep_wire ! 157 = 192"
  "deep_wire ! 158 = 147"
  "deep_wire ! 159 = 0"
  "deep_wire ! 160 = 1"
  "deep_wire ! 161 = 0"
  "deep_wire ! 162 = 1"
  "deep_wire ! 163 = 1"
  "deep_wire ! 164 = 116"
  "deep_wire ! 165 = 192"
  "deep_wire ! 166 = 155"
  "deep_wire ! 167 = 0"
  "deep_wire ! 168 = 1"
  "deep_wire ! 169 = 0"
  "deep_wire ! 170 = 1"
  "deep_wire ! 171 = 1"
  "deep_wire ! 172 = 117"
  "deep_wire ! 173 = 192"
  "deep_wire ! 174 = 163"
  "deep_wire ! 175 = 0"
  "deep_wire ! 176 = 1"
  "deep_wire ! 177 = 0"
  "deep_wire ! 178 = 1"
  "deep_wire ! 179 = 1"
  "deep_wire ! 180 = 118"
  "deep_wire ! 181 = 192"
  "deep_wire ! 182 = 171"
  "deep_wire ! 183 = 0"
  "deep_wire ! 184 = 1"
  "deep_wire ! 185 = 0"
  "deep_wire ! 186 = 1"
  by (simp_all add: deep_wire_def)


lemma pointer_low: "u16_from_be_bytes 192 b AND 0x3FFF = ucast b"
proof -
  have m: "(192 :: u8) = NOT (mask 6)" by (simp add: mask_eq_exp_minus_1)
  show ?thesis
    unfolding m mask_numerals u16_from_be_bytes_def
    by (rule bit_word_eqI) (auto simp: bit_simps dest: bit_imp_le_length)
qed

definition deep_pos :: "nat \<Rightarrow> nat" where
  "deep_pos k = (if k = 0 then 12 else 11 + 8 * k)"

lemma deep_bytes:
  assumes "0 < k" "k < 22"
  shows "deep_wire ! (11 + 8 * k) = 1 \<and> deep_wire ! (12 + 8 * k) = 97 + of_nat k \<and> deep_wire ! (13 + 8 * k) = 192 \<and>
     deep_wire ! (14 + 8 * k) = of_nat (deep_pos (k - 1)) \<and> deep_wire ! (15 + 8 * k) = 0 \<and> deep_wire ! (16 + 8 * k) = 1 \<and>
      deep_wire ! (17 + 8 * k) = 0 \<and> deep_wire ! (18 + 8 * k) = 1"
proof -
  have "[1..<22] = [1,2,3,4,5,6,7,8,9,10,11,12,13,14,15,16,17,18,19,20,21::nat]" by code_simp
  moreover have "k \<in> set [1..<22]" using assms by simp
  ultimately have "k \<in> {1,2,3,4,5,6,7,8,9,10,11,12,13,14,15,16,17,18,19,20,21}" by simp
  then show ?thesis
    by (elim insertE) (simp_all add: deep_nth deep_pos_def)
qed

lemma deep_name_at:
  "k < 22 \<Longrightarrow> name_at {} deep_wire (deep_pos k) (deep_pos (Suc k) - 4) (nested (Suc k)) k"
proof (induction k)
  case 0
  have "name_at {} deep_wire 14 15 [] 0" using at_root [of 14 deep_wire "{}"] by (simp add: deep_length deep_nth)
  then have "name_at {} deep_wire 12 15 [[97]] 0"
    by (intro at_label) (simp_all add: label_ok_def bytes_at_Cons deep_nth deep_length)
  then show ?case by (simp add: deep_pos_def)
next
  case (Suc k)
  define p where "p = deep_pos (Suc k)"
  have p: "p = 19 + 8 * k" by (simp add: p_def deep_pos_def)
  have B: "deep_wire ! p = 1" "deep_wire ! (p + 1) = 97 + of_nat (Suc k)" "deep_wire ! (p + 2) = 192"
      "deep_wire ! (p + 3) = of_nat (deep_pos k)"
    using deep_bytes [of "Suc k"] Suc.prems by (simp_all add: p)
  have d: "deep_pos k < 256" "deep_pos k < p" using Suc.prems by (auto simp: deep_pos_def p)
  have "name_at {} deep_wire (p + 2) (p + 2 + 2) (nested (Suc k)) (Suc k)"
  proof (rule at_ptr)
    show "deep_pos k = unat (u16_from_be_bytes (deep_wire ! (p + 2)) (deep_wire ! (p + 2 + 1)) AND 0x3FFF)"
      using B d by (simp add: pointer_low numeral_3_eq_3 unsigned_ucast_eq unsigned_of_nat take_bit_nat_eq_self)
  qed (use Suc B d in \<open>auto simp: p deep_length\<close>)
  then have "name_at {} deep_wire p (p + 4) ([97 + of_nat (Suc k)] # nested (Suc k)) (Suc k)"
    using Suc.prems B
    by (intro at_label) (simp_all add: label_ok_def bytes_at_Cons deep_length p)
  moreover have "deep_pos (Suc (Suc k)) - 4 = p + 4" by (simp add: deep_pos_def p)
  ultimately show ?case by (simp add: p_def)
qed

lemma deep_question:
  assumes "k < 21"
  shows "\<exists>q. parse_question \<lparr>rd_buf = deep_wire, rd_pos = deep_pos k, rd_limit = 187\<rparr> =
    (Inr q, \<lparr>rd_buf = deep_wire, rd_pos = deep_pos (Suc k), rd_limit = 187\<rparr>)"
proof -
  let ?q = "deep_pos (Suc k) - 4"
  have l: "labels_ok (nested (Suc k))"
  proof -
    have "list_all label_ok (nested n) \<and> length (flat (nested n)) = 2 * n" for n
      by (induction n) (auto simp: label_ok_def)
    with assms show ?thesis by (simp add: labels_ok_def length_wire_of MAX_NAME_LEN_def label_ok_def)
  qed
  have "decodes name_parse deep_wire (deep_pos k) ?q (name_of (nested (Suc k)))"
    using assms l deep_name_at [of k] by (intro decodes_name) (auto simp: MAX_JUMPS_def)
  moreover have "bytes_at deep_wire ?q (u16_to_be_bytes 1 @ u16_to_be_bytes 1)"
  proof (cases k)
    case (Suc n)
    then show ?thesis using assms deep_bytes [of k]
      by (simp add: bytes_at_Cons deep_length deep_pos_def u16_to_be_bytes_def)
  qed (simp add: bytes_at_Cons deep_length deep_pos_def u16_to_be_bytes_def deep_nth)
  ultimately have "decodes parse_question deep_wire (deep_pos k) (?q + 4)
      \<lparr>q_name = name_of (nested (Suc k)), q_qtype = 1, q_qclass = 1\<rparr>"
    by (rule decodes_question)
  moreover have "?q + 4 = deep_pos (Suc k)" "deep_pos (Suc k) \<le> 187" using assms by (auto simp: deep_pos_def)
  ultimately show ?thesis by (auto simp: decodes_def)
qed

lemma deep_stuck:
  "d < 22 \<Longrightarrow> read_n parse_question (Suc d) \<lparr>rd_buf = deep_wire, rd_pos = deep_pos (21 - d), rd_limit = 187\<rparr> \<noteq> (Inr xs, r')"
proof (induction d arbitrary: xs)
  case 0
  let ?r = "\<lparr>rd_buf = deep_wire, rd_pos = deep_pos 21, rd_limit = 187\<rparr>"
  have "name_parse ?r \<noteq> (Inr n, r1)" for n r1
    using name_at_unique [OF deep_name_at [of 21]] by (fastforce simp: name_parse_iff MAX_JUMPS_def)
  then show ?case by (auto simp: parse_question_def elim!: rd_bind_InrE)
next
  case (Suc d)
  then have k: "21 - Suc d < 21" "Suc (21 - Suc d) = 21 - d" by simp_all
  obtain q where q: "parse_question \<lparr>rd_buf = deep_wire, rd_pos = deep_pos (21 - Suc d), rd_limit = 187\<rparr> =
    (Inr q, \<lparr>rd_buf = deep_wire, rd_pos = deep_pos (21 - d), rd_limit = 187\<rparr>)"
    using deep_question [OF k(1)] unfolding k(2) by blast
  have "\<forall>ys. read_n parse_question (Suc d)
      \<lparr>rd_buf = deep_wire, rd_pos = deep_pos (21 - d), rd_limit = 187\<rparr> \<noteq> (Inr ys, r')"
    using Suc by simp
  moreover have "read_n parse_question (Suc (Suc d)) r = rd_bind parse_question
      (\<lambda>x. rd_bind (read_n parse_question (Suc d)) (\<lambda>xs. rd_return (x # xs))) r" for r
    by (rule read_n.simps(2) [THEN fun_cong])
  ultimately show ?case using q by (auto elim!: rd_bind_InrE simp del: read_n.simps)
qed

lemma deep_rejected: "message_parse deep_wire \<noteq> Inr m"
proof
  assume "message_parse deep_wire = Inr m"
  moreover have "rd_u16 \<lparr>rd_buf = deep_wire, rd_pos = 0, rd_limit = 187\<rparr> =
      (Inr 0, \<lparr>rd_buf = deep_wire, rd_pos = 2, rd_limit = 187\<rparr>)"
    "rd_u16 \<lparr>rd_buf = deep_wire, rd_pos = 2, rd_limit = 187\<rparr> =
      (Inr 0, \<lparr>rd_buf = deep_wire, rd_pos = 4, rd_limit = 187\<rparr>)"
    "rd_u16 \<lparr>rd_buf = deep_wire, rd_pos = 4, rd_limit = 187\<rparr> =
      (Inr 22, \<lparr>rd_buf = deep_wire, rd_pos = 6, rd_limit = 187\<rparr>)"
    "rd_u16 \<lparr>rd_buf = deep_wire, rd_pos = 6, rd_limit = 187\<rparr> =
      (Inr 0, \<lparr>rd_buf = deep_wire, rd_pos = 8, rd_limit = 187\<rparr>)"
    "rd_u16 \<lparr>rd_buf = deep_wire, rd_pos = 8, rd_limit = 187\<rparr> =
      (Inr 0, \<lparr>rd_buf = deep_wire, rd_pos = 10, rd_limit = 187\<rparr>)"
    "rd_u16 \<lparr>rd_buf = deep_wire, rd_pos = 10, rd_limit = 187\<rparr> =
      (Inr 0, \<lparr>rd_buf = deep_wire, rd_pos = 12, rd_limit = 187\<rparr>)"
    by (simp_all add: rd_u16_def rd_bind_def rd_u8_def deep_length deep_nth u16_from_be_bytes_def)
  ultimately obtain xs r' where "read_n parse_question 22 \<lparr>rd_buf = deep_wire, rd_pos = 12, rd_limit = 187\<rparr> = (Inr xs, r')"
    unfolding message_parse_iff read_raw_def read_raw_sections_def
    by (auto elim!: rd_bind_InrE simp: reader_new_def deep_length)
  with deep_stuck [of 21 xs r'] show False by (simp add: deep_pos_def)
qed

section \<open>Sample names and records\<close>

lemma sample_labels: "labels_ok [[65, 46], [98]]" "labels_ok [[97, 46], [66]]" "labels_ok [[66]]" "labels_ok [[98]]"
  "labels_ok [[97]]" "labels_ok [[65]]"
  by (simp_all add: labels_ok_def label_ok_def MAX_NAME_LEN_def wire_of_def)

definition two_ttls :: "rr list" where
  "two_ttls = [\<lparr>rr_name = name_of [[97]], rr_rtype = RT_A, rr_class = 1, rr_ttl = 60, rr_rdata = A [1, 2, 3, 4]\<rparr>,
     \<lparr>rr_name = name_of [[65]], rr_rtype = RT_A, rr_class = 1, rr_ttl = 30, rr_rdata = A [1, 2, 3, 5]\<rparr>]"

end
