(* ===== verification/RRset.thy ===== *)
theory RRset
  imports RData
begin

text \<open>
  TTL normalisation of one section (\<open>normalize_ttls\<close> of \<open>onetdns-proto/src/rdata.rs\<close>, RFC 2181
  sections 5.2 and 8) against its specification: every record of an RRset carries the least of
  the set's clamped lifetimes.
\<close>

abbreviation lifetime :: "rr \<Rightarrow> bool" where
  "lifetime rec \<equiv> \<not> ttl_field_is_not_a_lifetime (rr_rtype rec)"

lemma map_of_lowest_entry:
  "map_of (lowest_entry k ttl m) k' =
     (if k' = k then Some (case map_of m k of None \<Rightarrow> ttl | Some t \<Rightarrow> min t ttl) else map_of m k')"
  by (induction k ttl m rule: lowest_entry.induct) auto

lemma length_lowest_entry:
  "length (lowest_entry k ttl m) = (if k \<in> fst ` set m then length m else Suc (length m))"
  by (induction k ttl m rule: lowest_entry.induct) (auto simp: image_iff)

definition ttls_of :: "rrset_key \<Rightarrow> rr list \<Rightarrow> u32 list" where
  "ttls_of k recs = map rr_ttl (filter (\<lambda>rec. lifetime rec \<and> rrset_key rec = k) recs)"

lemma collect_lowest_map:
  "map_of (collect_lowest recs m) k =
     (case (map_of m k, ttls_of k recs) of
        (None, []) \<Rightarrow> None
      | (Some t, ts) \<Rightarrow> Some (fold min ts t)
      | (None, t # ts) \<Rightarrow> Some (fold min ts t))"
proof (induction recs m rule: collect_lowest.induct)
  case (1 m)
  then show ?case by (simp add: ttls_of_def split: option.splits)
next
  case (2 rec rest m)
  then show ?case
    by (cases "map_of m k"; cases "lifetime rec \<and> rrset_key rec = k")
      (auto simp: ttls_of_def map_of_lowest_entry min.commute split: list.splits)
qed

lemma fold_min_Min: "fold min ts (t :: u32) = Min (set (t # ts))"
  by (metis Min.set_eq_fold)

lemma collect_lowest_Min:
  "map_of (collect_lowest recs []) k =
     (if ttls_of k recs = [] then None else Some (Min (set (ttls_of k recs))))"
  by (auto simp: collect_lowest_map fold_min_Min split: list.splits)

lemma length_collect_lowest: 
  "length (collect_lowest recs m) \<le> length recs + length m"
  by (induction recs m rule: collect_lowest.induct) (auto simp: length_lowest_entry le_Suc_eq split: if_splits intro: order.trans)

lemma collect_lowest_full:
  assumes "length (collect_lowest recs m) = length recs + length m"
  shows "list_all lifetime recs \<and> distinct (map rrset_key recs) \<and> fst ` set m \<inter> rrset_key ` set recs = {}"
  using assms
proof (induction recs m rule: collect_lowest.induct)
  case (2 rec rest m)
  let ?m' = "lowest_entry (rrset_key rec) (rr_ttl rec) m"
  have life: "lifetime rec"
  proof (rule ccontr)
    assume "\<not> lifetime rec"
    with 2(2) length_collect_lowest [of rest m] show False by simp
  qed
  have fresh: "rrset_key rec \<notin> fst ` set m"
  proof
    assume "rrset_key rec \<in> fst ` set m"
    with 2(2) life length_collect_lowest [of rest ?m'] show False by (simp add: length_lowest_entry)
  qed
  have keys: "fst ` set ?m' = insert (rrset_key rec) (fst ` set m)"
    by (induction "rrset_key rec" "rr_ttl rec" m rule: lowest_entry.induct) auto
  from 2 life fresh have "list_all lifetime rest \<and> distinct (map rrset_key rest) \<and>
      fst ` set ?m' \<inter> rrset_key ` set rest = {}"
    by (simp add: length_lowest_entry)
  with life fresh keys show ?case by auto
qed simp

lemma ttls_of_distinct:
  assumes "distinct (map rrset_key recs)" and "rec \<in> set recs" and "lifetime rec"
  shows "ttls_of (rrset_key rec) recs = [rr_ttl rec]"
  using assms by (induction recs) (auto simp: ttls_of_def image_iff filter_empty_conv)

text \<open>The specification: every record of an RRset gets the least of the set's clamped lifetimes.\<close>

definition normalized :: "rr list \<Rightarrow> rr \<Rightarrow> rr" where
  "normalized recs rec =
     (if lifetime rec
      then rec\<lparr>rr_ttl := Min (set (ttls_of (rrset_key rec) (map clamp_ttl recs)))\<rparr> else rec)"

lemma clamp_simps [simp]: "rr_rtype (clamp_ttl rec) = rr_rtype rec" "rrset_key (clamp_ttl rec) = rrset_key rec"
  "\<not> lifetime rec \<Longrightarrow> clamp_ttl rec = rec" "(clamp_ttl rec)\<lparr>rr_ttl := t\<rparr> = rec\<lparr>rr_ttl := t\<rparr>"
  by (auto simp: clamp_ttl_def rrset_key_def)

lemma clamp_as_update: "clamp_ttl rec = rec\<lparr>rr_ttl := rr_ttl (clamp_ttl rec)\<rparr>"
  by (simp add: clamp_ttl_def)

lemma normalize_ttls_spec: "normalize_ttls recs = map (normalized recs) recs"
proof -
  let ?c = "map clamp_ttl recs"
  have mem: "ttls_of (rrset_key rec) ?c \<noteq> []" if "rec \<in> set recs" "lifetime rec" for rec
    using that by (auto simp: ttls_of_def filter_empty_conv)
  show ?thesis
  proof (cases "length (collect_lowest ?c []) = length ?c")
    case True
    then have d: "distinct (map rrset_key ?c)" using collect_lowest_full [of ?c "[]"] by simp
    have "clamp_ttl rec = normalized recs rec" if "rec \<in> set recs" for rec
      using ttls_of_distinct [OF d, of "clamp_ttl rec"] that
      by (cases "lifetime rec") (simp_all add: normalized_def flip: clamp_as_update)
    with True show ?thesis by (simp add: normalize_ttls_def)
  next
    case False
    with mem show ?thesis
      by (auto simp: normalize_ttls_def Let_def collect_lowest_Min normalized_def)
  qed
qed

lemma clamp_le: "rr_ttl (clamp_ttl rec) \<le> rr_ttl rec" "lifetime rec \<Longrightarrow> rr_ttl (clamp_ttl rec) \<le> MAX_TTL"
  by (auto simp: clamp_ttl_def)

lemma normalized_ttl:
  assumes "rec \<in> set recs" and "lifetime rec"
  shows "rr_ttl (normalized recs rec) \<in> set (ttls_of (rrset_key rec) (map clamp_ttl recs))"
    and "t \<in> set (ttls_of (rrset_key rec) (map clamp_ttl recs)) \<Longrightarrow> rr_ttl (normalized recs rec) \<le> t"
proof -
  have "ttls_of (rrset_key rec) (map clamp_ttl recs) \<noteq> []"
    using assms by (auto simp: ttls_of_def filter_empty_conv)
  with assms show "rr_ttl (normalized recs rec) \<in> set (ttls_of (rrset_key rec) (map clamp_ttl recs))"
    "t \<in> set (ttls_of (rrset_key rec) (map clamp_ttl recs)) \<Longrightarrow> rr_ttl (normalized recs rec) \<le> t"
    by (auto simp: normalized_def simp del: set_map)
qed

lemma normalize_ttls_same_rrset:
  assumes "a \<in> set recs" "b \<in> set recs" "rrset_key a = rrset_key b" "lifetime a" "lifetime b"
  shows "rr_ttl (normalized recs a) = rr_ttl (normalized recs b)"
  using assms by (simp add: normalized_def)

lemma normalized_lowers:
  assumes "rec \<in> set recs"
  shows "rr_ttl (normalized recs rec) \<le> rr_ttl rec"
    and "lifetime rec \<Longrightarrow> rr_ttl (normalized recs rec) \<le> MAX_TTL"
proof -
  have "rr_ttl (normalized recs rec) \<le> rr_ttl (clamp_ttl rec)"
  proof (cases "lifetime rec")
    case True
    have "rr_ttl (clamp_ttl rec) \<in> set (ttls_of (rrset_key rec) (map clamp_ttl recs))"
      using assms True by (auto simp: ttls_of_def image_iff)
    with assms True show ?thesis by (intro normalized_ttl(2)) auto
  qed (simp add: normalized_def)
  then show "rr_ttl (normalized recs rec) \<le> rr_ttl rec"
    and "lifetime rec \<Longrightarrow> rr_ttl (normalized recs rec) \<le> MAX_TTL"
    using clamp_le [of rec] order.trans by blast+
qed

end
