(* ===== verification/Raft.thy ===== *)
theory Raft
  imports Prelude
begin

text \<open>
  The Raft state machine of \<open>onetdns-cluster/src/raft.rs\<close>: one \<open>RaftNode\<close>, its timers, the
  handlers of the six messages, proposals, snapshots and the bookkeeping of applied entries.

  The machine does no I/O except for persistence. 64-bit counters are natural numbers with the
  source's checked and saturating additions written out. The outcome of writing the state to
  disk is decided by the environment: \<open>disk\<close> maps the state to be written to an error, if
  writing it fails. Two fields are ghosts: \<open>rn_durable\<close> is the state of the last write that
  succeeded, \<open>rn_requests\<close> lists every write asked for, with the bookkeeping it went out with.
\<close>

unbundle bit_operations_syntax

section \<open>Integers\<close>

definition U64_MAX :: nat where "U64_MAX = 2 ^ 64 - 1"

definition U32_MAX :: nat where "U32_MAX = 2 ^ 32 - 1"

definition sat_add :: "nat \<Rightarrow> nat \<Rightarrow> nat" where
  "sat_add a b = min (a + b) U64_MAX"

definition sat_add32 :: "nat \<Rightarrow> nat \<Rightarrow> nat" where
  "sat_add32 a b = min (a + b) U32_MAX"

section \<open>Limits\<close>

definition MAX_LOG_ENTRIES :: nat where "MAX_LOG_ENTRIES = 100000"

definition SNAPSHOT_LOG_THRESHOLD :: nat where "SNAPSHOT_LOG_THRESHOLD = 4096"

definition SNAPSHOT_CHUNK_BYTES :: nat where "SNAPSHOT_CHUNK_BYTES = 256 * 1024"

definition MAX_SNAPSHOT_BYTES :: nat where "MAX_SNAPSHOT_BYTES = 2 * 1024 * 1024"

definition MAX_ENTRY_BYTES :: nat where "MAX_ENTRY_BYTES = 256 * 1024"

definition MAX_APPEND_ENTRIES :: nat where "MAX_APPEND_ENTRIES = 256"

definition MAX_APPEND_BYTES :: nat where "MAX_APPEND_BYTES = 512 * 1024"

section \<open>State\<close>

type_synonym node_id = nat

datatype role = Follower | Candidate | Leader

record log_entry =
  le_term :: nat
  le_index :: nat
  le_data :: bytes

record snapshot =
  sn_index :: nat
  sn_term :: nat
  sn_data :: bytes

text \<open>Messages, with the fields in the order of the source.\<close>

datatype msg =
    RequestVote (rv_term: nat) (rv_candidate: node_id) (rv_last_log_index: nat) (rv_last_log_term: nat)
  | RequestVoteResp (rvr_term: nat) (rvr_granted: bool)
  | AppendEntries (ae_term: nat) (ae_leader: node_id) (ae_prev_log_index: nat) (ae_prev_log_term: nat)
      (ae_entries: "log_entry list") (ae_leader_commit: nat)
  | AppendEntriesResp (aer_term: nat) (aer_success: bool) (aer_match_index: nat)
  | InstallSnapshot (is_term: nat) (is_leader_id: node_id) (is_last_included_index: nat)
      (is_last_included_term: nat) (is_offset: nat) (is_data: bytes) (is_done: bool)
  | InstallSnapshotResp (isr_term: nat) (isr_last_included_index: nat) (isr_next_offset: nat)
      (isr_installed: bool)

record raft_output =
  out_to :: node_id
  out_msg :: msg

record config =
  election_base :: nat
  heartbeat :: nat

definition config_default :: config where
  "config_default = \<lparr>election_base = 10, heartbeat = 3\<rparr>"

record stable_state =
  st_current_term :: nat
  st_voted_for :: "node_id option"
  st_log :: "log_entry list"
  st_commit_index :: nat
  st_last_applied :: nat
  st_boot_counter :: nat
  st_snapshot :: "snapshot option"

definition stable_default :: stable_state where
  "stable_default =
     \<lparr>st_current_term = 0, st_voted_for = None, st_log = [], st_commit_index = 0,
      st_last_applied = 0, st_boot_counter = 0, st_snapshot = None\<rparr>"

record incoming_snapshot =
  inc_leader :: node_id
  inc_leader_term :: nat
  inc_index :: nat
  inc_term :: nat
  inc_data :: bytes
  inc_complete :: bool

text \<open>The reasons the source reports as text; \<open>DiskError\<close> carries what the disk said.\<close>

datatype raft_error =
    SnapshotSize | SnapshotPosition | SnapshotTerm | SnapshotLogRange
  | NotLeader | BatchCount | EntrySize | BatchBytes | LogLimit | IndexOverflow | TermOverflow
  | CommittedRewrite nat | AppliedOrder | NoPendingSnapshot | SessionOverflow | DiskError string
  | External string

text \<open>A call of \<open>persist_at\<close>: the state, the bookkeeping it reads, and whether it succeeded.\<close>

record persist_request =
  rq_view :: stable_state
  rq_durable_log_len :: nat
  rq_snapshot_dirty :: bool
  rq_saved :: bool

record raft_node =
  rn_id :: node_id
  rn_peers :: "node_id list"
  rn_role :: role
  rn_current_term :: nat
  rn_voted_for :: "node_id option"
  rn_log :: "log_entry list"
  rn_commit_index :: nat
  rn_last_applied :: nat
  rn_leader_id :: "node_id option"
  rn_next_index :: "node_id \<rightharpoonup> nat"
  rn_match_index :: "node_id \<rightharpoonup> nat"
  rn_votes :: "node_id set"
  rn_election_elapsed :: nat
  rn_heartbeat_elapsed :: nat
  rn_election_timeout :: nat
  rn_rng_state :: u64
  rn_cfg :: config
  rn_storage :: bool
  rn_fatal :: "raft_error option"
  rn_boot_counter :: nat
  rn_snapshot :: "snapshot option"
  rn_incoming :: "incoming_snapshot option"
  rn_snapshot_offsets :: "node_id \<rightharpoonup> nat"
  rn_snapshot_dirty :: bool
  rn_durable_log_len :: nat
  rn_durable :: stable_state
  rn_requests :: "persist_request list"

type_synonym disk = "stable_state \<Rightarrow> string option"

section \<open>Reading the log\<close>

definition snapshot_index :: "raft_node \<Rightarrow> nat" where
  "snapshot_index n = (case rn_snapshot n of None \<Rightarrow> 0 | Some s \<Rightarrow> sn_index s)"

definition last_index :: "raft_node \<Rightarrow> nat" where
  "last_index n = (if rn_log n = [] then snapshot_index n else le_index (List.last (rn_log n)))"

definition term_at :: "raft_node \<Rightarrow> nat \<Rightarrow> nat" where
  "term_at n index =
     (if index = 0 then 0
      else case rn_snapshot n of
        Some s \<Rightarrow>
          if index = sn_index s then sn_term s
          else if index < sn_index s then 0
          else (let offset = index - sn_index s - 1 in
                if offset < length (rn_log n) then le_term (rn_log n ! offset) else 0)
      | None \<Rightarrow>
          (let offset = index - 0 - 1 in
           if offset < length (rn_log n) then le_term (rn_log n ! offset) else 0))"

definition last_log_term :: "raft_node \<Rightarrow> nat" where
  "last_log_term n = (if rn_log n = [] then 0 else le_term (List.last (rn_log n)))"

definition is_leader :: "raft_node \<Rightarrow> bool" where
  "is_leader n \<longleftrightarrow> rn_role n = Leader \<and> rn_fatal n = None"

definition quorum :: "raft_node \<Rightarrow> nat" where
  "quorum n = (length (rn_peers n) + 1) div 2 + 1"

definition snapshot_due :: "raft_node \<Rightarrow> bool" where
  "snapshot_due n \<longleftrightarrow> rn_last_applied n - snapshot_index n \<ge> SNAPSHOT_LOG_THRESHOLD"

definition applied_entries_after_snapshot :: "raft_node \<Rightarrow> log_entry list" where
  "applied_entries_after_snapshot n =
     take (min (rn_last_applied n - snapshot_index n) (length (rn_log n))) (rn_log n)"

definition log_up_to_date :: "nat \<Rightarrow> nat \<Rightarrow> nat \<Rightarrow> nat \<Rightarrow> bool" where
  "log_up_to_date candidate_term candidate_index my_term my_index \<longleftrightarrow>
     candidate_term > my_term \<or> candidate_term = my_term \<and> candidate_index \<ge> my_index"

section \<open>Timers\<close>

definition xorshift :: "u64 \<Rightarrow> u64" where
  "xorshift x =
     (let x = x XOR push_bit 13 x; x = x XOR drop_bit 7 x in x XOR push_bit 17 x)"

definition next_random :: "raft_node \<Rightarrow> u64 \<times> raft_node" where
  "next_random n =
     (let x = xorshift (rn_rng_state n);
          x = (if x = 0 then 0xa0761d6478bd642f XOR of_nat (rn_id n) else x)
      in (x, n\<lparr>rn_rng_state := x\<rparr>))"

definition reset_election_timeout :: "raft_node \<Rightarrow> raft_node" where
  "reset_election_timeout n =
     (let base = max (election_base (rn_cfg n)) 2; (x, n) = next_random n;
          jitter = unat x mod base
      in n\<lparr>rn_election_timeout := max (sat_add32 base jitter) 2, rn_election_elapsed := 0\<rparr>)"

definition election_timeout_ceiling :: "raft_node \<Rightarrow> nat" where
  "election_timeout_ceiling n = min (max (election_base (rn_cfg n)) 2 * 2) U32_MAX"

section \<open>Persistence\<close>

definition stable_view :: "raft_node \<Rightarrow> stable_state" where
  "stable_view n =
     \<lparr>st_current_term = rn_current_term n, st_voted_for = rn_voted_for n, st_log = rn_log n,
      st_commit_index = rn_commit_index n, st_last_applied = rn_last_applied n,
      st_boot_counter = rn_boot_counter n, st_snapshot = rn_snapshot n\<rparr>"

definition fail_stop :: "raft_node \<Rightarrow> raft_error \<Rightarrow> raft_node" where
  "fail_stop n e = n\<lparr>rn_fatal := Some e, rn_role := Follower, rn_leader_id := None\<rparr>"

definition requested :: "bool \<Rightarrow> raft_node \<Rightarrow> raft_node" where
  "requested ok n = n\<lparr>rn_requests := rn_requests n @
     [\<lparr>rq_view = stable_view n, rq_durable_log_len = rn_durable_log_len n,
       rq_snapshot_dirty = rn_snapshot_dirty n, rq_saved = ok\<rparr>]\<rparr>"

text \<open>
  After a write the length known to be on disk is that of the log, and no snapshot is waiting: a
  waiting one makes \<open>persist_at\<close> write the whole state, which clears the flag.
\<close>

definition persisted :: "raft_node \<Rightarrow> raft_node" where
  "persisted n = (requested True n)\<lparr>rn_snapshot_dirty := False, rn_durable_log_len := length (rn_log n),
     rn_durable := stable_view n\<rparr>"

definition persist :: "disk \<Rightarrow> raft_node \<Rightarrow> bool \<times> raft_node" where
  "persist disk n =
     (if \<not> rn_storage n then (True, n)
      else case disk (stable_view n) of
             Some e \<Rightarrow> (False, fail_stop (requested False n) (DiskError e))
           | None \<Rightarrow> (True, persisted n))"

definition from_stable ::
    "node_id \<Rightarrow> node_id list \<Rightarrow> config \<Rightarrow> bool \<Rightarrow> stable_state \<Rightarrow> u64 \<Rightarrow> raft_node" where
  "from_stable i peers cfg storage saved now =
     reset_election_timeout
       \<lparr>rn_id = i, rn_peers = remdups_adj (sort (filter (\<lambda>p. p \<noteq> i) peers)), rn_role = Follower,
        rn_current_term = st_current_term saved, rn_voted_for = st_voted_for saved,
        rn_log = st_log saved, rn_commit_index = st_commit_index saved,
        rn_last_applied = st_last_applied saved, rn_leader_id = None,
        rn_next_index = Map.empty, rn_match_index = Map.empty, rn_votes = {},
        rn_election_elapsed = 0, rn_heartbeat_elapsed = 0, rn_election_timeout = 0,
        rn_rng_state = now XOR word_rotl 17 (of_nat i) XOR 0x9e3779b97f4a7c15,
        rn_cfg = cfg, rn_storage = storage, rn_fatal = None,
        rn_boot_counter = st_boot_counter saved, rn_snapshot = st_snapshot saved,
        rn_incoming = None, rn_snapshot_offsets = Map.empty, rn_snapshot_dirty = False,
        rn_durable_log_len = 0, rn_durable = saved, rn_requests = []\<rparr>"

definition raft_new :: "node_id \<Rightarrow> node_id list \<Rightarrow> config \<Rightarrow> u64 \<Rightarrow> raft_node" where
  "raft_new i peers cfg now = from_stable i peers cfg False stable_default now"

text \<open>A node over the state \<open>load_state\<close> returned; the fields about the files are in \<open>RaftStore\<close>.\<close>

definition from_loaded :: "node_id \<Rightarrow> node_id list \<Rightarrow> config \<Rightarrow> stable_state \<Rightarrow> u64 \<Rightarrow> raft_node" where
  "from_loaded i peers cfg saved now =
     (from_stable i peers cfg True saved now)\<lparr>rn_durable_log_len := length (st_log saved)\<rparr>"

definition next_boot_session :: "disk \<Rightarrow> nat \<Rightarrow> raft_node \<Rightarrow> (raft_error + nat) \<times> raft_node" where
  "next_boot_session disk now n =
     (case checked_add (max (rn_boot_counter n) now) 1 of
        None \<Rightarrow> (Inl SessionOverflow, n)
      | Some nxt \<Rightarrow>
          (case persist disk (n\<lparr>rn_boot_counter := nxt\<rparr>) of
             (True, n) \<Rightarrow> (Inr nxt, n)
           | (False, n) \<Rightarrow> (Inl (the (rn_fatal n)), n)))"

section \<open>Commit\<close>

definition replicated_count :: "raft_node \<Rightarrow> nat \<Rightarrow> nat" where
  "replicated_count n index =
     1 + length (filter (\<lambda>p. (case rn_match_index n p of None \<Rightarrow> 0 | Some m \<Rightarrow> m) \<ge> index) (rn_peers n))"

text \<open>The descending scan stops at the first index of the current term a quorum has.\<close>

definition advance_commit :: "raft_node \<Rightarrow> raft_node" where
  "advance_commit n =
     (case find (\<lambda>index. term_at n index = rn_current_term n \<and> replicated_count n index \<ge> quorum n)
             (rev [sat_add (rn_commit_index n) 1..<last_index n + 1]) of
        Some index \<Rightarrow> n\<lparr>rn_commit_index := index\<rparr>
      | None \<Rightarrow> n)"

section \<open>Replication messages\<close>

definition snapshot_for :: "raft_node \<Rightarrow> snapshot \<Rightarrow> node_id \<Rightarrow> raft_output" where
  "snapshot_for n s peer =
     (let requested = (case rn_snapshot_offsets n peer of None \<Rightarrow> 0 | Some off \<Rightarrow> off);
          offset = (if requested \<le> length (sn_data s) then requested else 0);
          end = min (offset + SNAPSHOT_CHUNK_BYTES) (length (sn_data s))
      in \<lparr>out_to = peer,
          out_msg = InstallSnapshot (rn_current_term n) (rn_id n) (sn_index s) (sn_term s) offset
                      (slice (sn_data s) offset end) (end = length (sn_data s))\<rparr>)"

definition encoded_size :: "log_entry \<Rightarrow> nat" where
  "encoded_size entry = 8 + 8 + 4 + length (le_data entry)"

text \<open>The loop that fills one batch: \<open>entries\<close> and \<open>nbytes\<close> are what was collected so far.\<close>

fun collect_batch :: "log_entry list \<Rightarrow> log_entry list \<Rightarrow> nat \<Rightarrow> log_entry list" where
  "collect_batch [] entries nbytes = entries"
| "collect_batch (entry # rest) entries nbytes =
     (let encoded = encoded_size entry in
      if entries \<noteq> [] \<and> (length entries \<ge> MAX_APPEND_ENTRIES \<or> nbytes + encoded > MAX_APPEND_BYTES)
      then entries
      else if encoded > MAX_APPEND_BYTES then entries
      else collect_batch rest (entries @ [entry]) (nbytes + encoded))"

definition append_for :: "raft_node \<Rightarrow> node_id \<Rightarrow> raft_output" where
  "append_for n peer =
     (let nxt = (case rn_next_index n peer of None \<Rightarrow> 1 | Some i \<Rightarrow> i);
          plain = (let prev_log_index = nxt - 1 in
            \<lparr>out_to = peer,
             out_msg = AppendEntries (rn_current_term n) (rn_id n) prev_log_index
                         (term_at n prev_log_index)
                         (collect_batch (filter (\<lambda>e. le_index e \<ge> nxt) (rn_log n)) [] 0)
                         (rn_commit_index n)\<rparr>)
      in case rn_snapshot n of
           Some s \<Rightarrow> if nxt \<le> sn_index s then snapshot_for n s peer else plain
         | None \<Rightarrow> plain)"

definition broadcast_append :: "raft_node \<Rightarrow> raft_output list" where
  "broadcast_append n = map (append_for n) (rn_peers n)"

definition force_replicate :: "raft_node \<Rightarrow> raft_output list \<times> raft_node" where
  "force_replicate n =
     (if is_leader n
      then (broadcast_append (n\<lparr>rn_heartbeat_elapsed := 0\<rparr>), n\<lparr>rn_heartbeat_elapsed := 0\<rparr>)
      else ([], n))"

section \<open>Elections\<close>

definition lead :: "raft_node \<Rightarrow> raft_node" where
  "lead n = n\<lparr>rn_role := Leader, rn_leader_id := Some (rn_id n),
              rn_heartbeat_elapsed := max (heartbeat (rn_cfg n)) 1\<rparr>"

definition push_noop :: "nat \<Rightarrow> raft_node \<Rightarrow> raft_node" where
  "push_noop noop_index n =
     advance_commit
       (n\<lparr>rn_log := rn_log n @ [\<lparr>le_term = rn_current_term n, le_index = noop_index, le_data = []\<rparr>]\<rparr>)"

definition init_progress :: "raft_node \<Rightarrow> raft_node" where
  "init_progress n =
     (let nxt = sat_add (last_index n) 1 in
      n\<lparr>rn_next_index := map_of (map (\<lambda>p. (p, nxt)) (rn_peers n)),
        rn_match_index := map_of (map (\<lambda>p. (p, 0)) (rn_peers n)),
        rn_snapshot_offsets := Map.empty\<rparr>)"

definition become_leader :: "disk \<Rightarrow> raft_node \<Rightarrow> raft_node" where
  "become_leader disk n =
     (if length (rn_log n) \<ge> MAX_LOG_ENTRIES then fail_stop (lead n) LogLimit
      else case checked_add (last_index n) 1 of
        None \<Rightarrow> fail_stop (lead n) IndexOverflow
      | Some noop_index \<Rightarrow>
          (case persist disk (push_noop noop_index (lead n)) of
             (False, n) \<Rightarrow> n
           | (True, n) \<Rightarrow> init_progress n))"

definition stand :: "nat \<Rightarrow> raft_node \<Rightarrow> raft_node" where
  "stand next_term n =
     reset_election_timeout
       (n\<lparr>rn_current_term := next_term, rn_role := Candidate, rn_voted_for := Some (rn_id n),
         rn_leader_id := None, rn_votes := {rn_id n}\<rparr>)"

definition start_election :: "disk \<Rightarrow> raft_node \<Rightarrow> raft_output list \<times> raft_node" where
  "start_election disk n =
     (case checked_add (rn_current_term n) 1 of
        None \<Rightarrow> ([], fail_stop n TermOverflow)
      | Some next_term \<Rightarrow>
          (case persist disk (stand next_term n) of
             (False, n) \<Rightarrow> ([], n)
           | (True, n) \<Rightarrow>
               if quorum n = 1
               then (broadcast_append (become_leader disk n), become_leader disk n)
               else (map (\<lambda>peer. \<lparr>out_to = peer,
                           out_msg = RequestVote (rn_current_term n) (rn_id n) (last_index n)
                                       (last_log_term n)\<rparr>) (rn_peers n), n)))"

definition tick :: "disk \<Rightarrow> raft_node \<Rightarrow> raft_output list \<times> raft_node" where
  "tick disk n =
     (if rn_fatal n \<noteq> None then ([], n)
      else case rn_role n of
        Leader \<Rightarrow>
          (let n = n\<lparr>rn_heartbeat_elapsed := sat_add32 (rn_heartbeat_elapsed n) 1\<rparr> in
           if rn_heartbeat_elapsed n \<ge> max (heartbeat (rn_cfg n)) 1
           then (let n = n\<lparr>rn_heartbeat_elapsed := 0\<rparr> in (broadcast_append n, n))
           else ([], n))
      | _ \<Rightarrow>
          (let n = n\<lparr>rn_election_elapsed := sat_add32 (rn_election_elapsed n) 1\<rparr> in
           if rn_election_elapsed n \<ge> rn_election_timeout n then start_election disk n
           else ([], n)))"

definition handle_request_vote ::
    "disk \<Rightarrow> nat \<Rightarrow> node_id \<Rightarrow> nat \<Rightarrow> nat \<Rightarrow> raft_node \<Rightarrow> raft_output list \<times> raft_node" where
  "handle_request_vote disk term' candidate last_log_index cand_log_term n =
     (let response = (\<lambda>n granted.
            [\<lparr>out_to = candidate, out_msg = RequestVoteResp (rn_current_term n) granted\<rparr>]) in
      if term' = rn_current_term n \<and>
         (case rn_voted_for n of None \<Rightarrow> True | Some voted \<Rightarrow> voted = candidate) \<and>
         log_up_to_date cand_log_term last_log_index (last_log_term n) (last_index n)
      then (let n = reset_election_timeout (n\<lparr>rn_voted_for := Some candidate\<rparr>) in
            case persist disk n of
              (False, n) \<Rightarrow> ([], n)
            | (True, n) \<Rightarrow> (response n True, n))
      else (response n False, n))"

definition handle_vote_resp ::
    "disk \<Rightarrow> node_id \<Rightarrow> nat \<Rightarrow> bool \<Rightarrow> raft_node \<Rightarrow> raft_output list \<times> raft_node" where
  "handle_vote_resp disk from term' granted n =
     (if rn_role n \<noteq> Candidate \<or> term' \<noteq> rn_current_term n then ([], n)
      else if granted then
        (let n = n\<lparr>rn_votes := insert from (rn_votes n)\<rparr> in
         if card (rn_votes n) \<ge> quorum n
         then (broadcast_append (become_leader disk n), become_leader disk n)
         else ([], n))
      else ([], n))"

section \<open>Log replication\<close>

definition append_response :: "raft_node \<Rightarrow> node_id \<Rightarrow> bool \<Rightarrow> nat \<Rightarrow> raft_output" where
  "append_response n leader success match_index =
     \<lparr>out_to = leader, out_msg = AppendEntriesResp (rn_current_term n) success match_index\<rparr>"

fun consecutive_from :: "nat \<Rightarrow> log_entry list \<Rightarrow> bool" where
  "consecutive_from expected [] \<longleftrightarrow> True"
| "consecutive_from expected (e # es) \<longleftrightarrow> le_index e = expected \<and> consecutive_from (sat_add expected 1) es"

text \<open>
  The loop over the received entries. \<open>Inl\<close> is a return out of the handler with the given
  messages, \<open>Inr changed\<close> is falling out of the loop.
\<close>

fun append_entries_loop ::
    "node_id \<Rightarrow> nat \<Rightarrow> log_entry list \<Rightarrow> bool \<Rightarrow> raft_node \<Rightarrow> (raft_output list + bool) \<times> raft_node" where
  "append_entries_loop leader base [] changed n = (Inr changed, n)"
| "append_entries_loop leader base (entry # rest) changed n =
     (if le_index entry < sat_add base 1
      then (Inl [append_response n leader False (last_index n)], n)
      else let offset = le_index entry - sat_add base 1 in
        if offset < length (rn_log n) then
          (if le_term (rn_log n ! offset) \<noteq> le_term entry \<or> le_data (rn_log n ! offset) \<noteq> le_data entry
           then (if le_index entry \<le> rn_commit_index n
                 then (Inl [], fail_stop n (CommittedRewrite (le_index entry)))
                 else append_entries_loop leader base rest True
                        (n\<lparr>rn_log := take offset (rn_log n) @ [entry],
                           rn_durable_log_len := min (rn_durable_log_len n) offset\<rparr>))
           else append_entries_loop leader base rest changed n)
        else if offset = length (rn_log n)
        then append_entries_loop leader base rest True (n\<lparr>rn_log := rn_log n @ [entry]\<rparr>)
        else (Inl [append_response n leader False (last_index n)], n))"

text \<open>
  What \<open>handle_append\<close> does once the message is credible: forget another leader's snapshot and
  follow the sender.
\<close>

definition follow :: "node_id \<Rightarrow> nat \<Rightarrow> raft_node \<Rightarrow> raft_node" where
  "follow leader term' n =
     reset_election_timeout
       (n\<lparr>rn_incoming :=
           (case rn_incoming n of
              Some inc \<Rightarrow> if inc_leader inc \<noteq> leader \<or> inc_leader_term inc \<noteq> term' then None
                          else Some inc
            | None \<Rightarrow> None),
         rn_role := Follower, rn_leader_id := Some leader\<rparr>)"

text \<open>The end of \<open>handle_append\<close>: the log bound, the commit index, and the answer.\<close>

definition finish_append :: "disk \<Rightarrow> node_id \<Rightarrow> nat \<Rightarrow> nat \<Rightarrow> bool \<Rightarrow> raft_node \<Rightarrow> raft_output list \<times> raft_node" where
  "finish_append disk leader leader_commit last_new log_changed n =
     (if length (rn_log n) > MAX_LOG_ENTRIES then ([], fail_stop n LogLimit)
      else
        (let n = (if leader_commit > rn_commit_index n
                  then n\<lparr>rn_commit_index := min leader_commit (last_index n)\<rparr> else n)
         in if log_changed
            then (case persist disk n of
                    (False, n) \<Rightarrow> ([], n)
                  | (True, n) \<Rightarrow> ([append_response n leader True last_new], n))
            else ([append_response n leader True last_new], n)))"

definition handle_append ::
    "disk \<Rightarrow> nat \<Rightarrow> node_id \<Rightarrow> nat \<Rightarrow> nat \<Rightarrow> log_entry list \<Rightarrow> nat \<Rightarrow> raft_node \<Rightarrow>
     raft_output list \<times> raft_node" where
  "handle_append disk term' leader prev_log_index prev_log_term entries leader_commit n =
     (if term' < rn_current_term n then ([append_response n leader False (last_index n)], n)
      else if term' \<noteq> rn_current_term n \<or> length entries > MAX_APPEND_ENTRIES
      then ([append_response n leader False (last_index n)], n)
      else if list_ex (\<lambda>e. length (le_data e) > MAX_ENTRY_BYTES) entries \<or>
              sum_list (map (length \<circ> le_data) entries) > MAX_APPEND_BYTES
      then ([append_response n leader False (last_index n)], n)
      else
        (let n = follow leader term' n in
         if prev_log_index > last_index n \<or> term_at n prev_log_index \<noteq> prev_log_term
         then ([append_response n leader False (last_index n)], n)
         else if \<not> consecutive_from (sat_add prev_log_index 1) entries
         then ([append_response n leader False (last_index n)], n)
         else case append_entries_loop leader (snapshot_index n) entries False n of
                (Inl out, n) \<Rightarrow> (out, n)
              | (Inr log_changed, n) \<Rightarrow>
                  finish_append disk leader leader_commit
                    (if entries = [] then prev_log_index else le_index (List.last entries))
                    log_changed n))"

definition match_of :: "raft_node \<Rightarrow> node_id \<Rightarrow> nat" where
  "match_of n p = (case rn_match_index n p of None \<Rightarrow> 0 | Some m \<Rightarrow> m)"

definition handle_append_resp ::
    "node_id \<Rightarrow> nat \<Rightarrow> bool \<Rightarrow> nat \<Rightarrow> raft_node \<Rightarrow> raft_output list \<times> raft_node" where
  "handle_append_resp from term' success match_index n =
     (if rn_role n \<noteq> Leader \<or> term' \<noteq> rn_current_term n then ([], n)
      else if success then
        (let bounded = max (min match_index (last_index n)) (match_of n from);
             n = n\<lparr>rn_match_index := (rn_match_index n)(from \<mapsto> bounded),
                   rn_next_index := (rn_next_index n)(from \<mapsto> sat_add bounded 1)\<rparr>;
             n = advance_commit n
         in (if bounded < last_index n then [append_for n from] else [], n))
      else
        (let nxt = (case rn_next_index n from of None \<Rightarrow> 1 | Some i \<Rightarrow> i);
             fallback = max (nxt - 1) 1;
             hinted = max (sat_add match_index 1) 1;
             n = n\<lparr>rn_next_index := (rn_next_index n)(from \<mapsto> min fallback hinted)\<rparr>
         in ([append_for n from], n)))"

section \<open>Snapshots\<close>

definition snapshot_response :: "raft_node \<Rightarrow> node_id \<Rightarrow> nat \<Rightarrow> nat \<Rightarrow> bool \<Rightarrow> raft_output" where
  "snapshot_response n leader last_included_index next_offset installed =
     \<lparr>out_to = leader,
      out_msg = InstallSnapshotResp (rn_current_term n) last_included_index next_offset installed\<rparr>"

text \<open>The part of \<open>handle_install_snapshot\<close> after the receiving state is in place.\<close>

definition receive_chunk ::
    "incoming_snapshot \<Rightarrow> node_id \<Rightarrow> nat \<Rightarrow> nat \<Rightarrow> bytes \<Rightarrow> bool \<Rightarrow> raft_node \<Rightarrow>
     raft_output list \<times> raft_node" where
  "receive_chunk inc leader last_included_index offset data chunk_done n =
     (let expected = length (inc_data inc) in
      if offset < expected then
        (if offset + length data \<le> expected \<and> slice (inc_data inc) offset (offset + length data) = data
         then ([snapshot_response n leader last_included_index expected False], n)
         else ([snapshot_response n leader last_included_index 0 False], n\<lparr>rn_incoming := None\<rparr>))
      else if offset \<noteq> expected \<or> data = [] \<and> \<not> (chunk_done \<and> offset > 0) \<or>
              length (inc_data inc) + length data > MAX_SNAPSHOT_BYTES
      then ([snapshot_response n leader last_included_index expected False], n)
      else
        (let inc = inc\<lparr>inc_data := inc_data inc @ data, inc_complete := chunk_done\<rparr>;
             n = n\<lparr>rn_incoming := Some inc\<rparr>
         in (if chunk_done then []
             else [snapshot_response n leader last_included_index (length (inc_data inc)) False], n)))"

definition handle_install_snapshot ::
    "nat \<Rightarrow> node_id \<Rightarrow> nat \<Rightarrow> nat \<Rightarrow> nat \<Rightarrow> bytes \<Rightarrow> bool \<Rightarrow> raft_node \<Rightarrow> raft_output list \<times> raft_node" where
  "handle_install_snapshot term' leader last_included_index last_included_term offset data chunk_done n =
     (if term' \<noteq> rn_current_term n \<or> last_included_index = 0 \<or> last_included_term = 0 \<or>
         length data > SNAPSHOT_CHUNK_BYTES
      then ([snapshot_response n leader last_included_index 0 False], n)
      else
        (let n = reset_election_timeout (n\<lparr>rn_role := Follower, rn_leader_id := Some leader\<rparr>) in
         if last_included_index \<le> rn_last_applied n
         then (let n = n\<lparr>rn_incoming := None\<rparr>
               in ([snapshot_response n leader last_included_index 0 True], n))
         else
           (let fresh = \<lparr>inc_leader = leader, inc_leader_term = term', inc_index = last_included_index,
                         inc_term = last_included_term, inc_data = [], inc_complete = False\<rparr>;
                same = (case rn_incoming n of
                          None \<Rightarrow> False
                        | Some inc \<Rightarrow> inc_leader inc = leader \<and> inc_leader_term inc = term' \<and>
                            inc_index inc = last_included_index \<and> inc_term inc = last_included_term)
            in if \<not> same then
                 (if offset \<noteq> 0
                  then ([snapshot_response n leader last_included_index 0 False],
                        n\<lparr>rn_incoming := None\<rparr>)
                  else receive_chunk fresh leader last_included_index offset data chunk_done
                         (n\<lparr>rn_incoming := Some fresh\<rparr>))
               else receive_chunk (the (rn_incoming n)) leader last_included_index offset data
                      chunk_done n)))"

definition incoming_ready :: "raft_node \<Rightarrow> incoming_snapshot option" where
  "incoming_ready n =
     (case rn_incoming n of
        None \<Rightarrow> None
      | Some inc \<Rightarrow>
          if inc_complete inc \<and> inc_leader_term inc = rn_current_term n \<and>
             rn_leader_id n = Some (inc_leader inc)
          then Some inc else None)"

definition pending_snapshot :: "raft_node \<Rightarrow> snapshot option" where
  "pending_snapshot n =
     map_option (\<lambda>inc. \<lparr>sn_index = inc_index inc, sn_term = inc_term inc, sn_data = inc_data inc\<rparr>)
       (incoming_ready n)"

text \<open>The state the snapshot replaces: the log up to it, the commit and the applied index.\<close>

definition install :: "incoming_snapshot \<Rightarrow> raft_node \<Rightarrow> raft_node" where
  "install inc n =
     (let retain_suffix = (term_at n (inc_index inc) = inc_term inc);
          remove = inc_index inc - snapshot_index n
      in n\<lparr>rn_log := (if retain_suffix \<and> remove \<le> length (rn_log n)
                      then drop remove (rn_log n) else []),
           rn_snapshot := Some \<lparr>sn_index = inc_index inc, sn_term = inc_term inc,
                                sn_data = inc_data inc\<rparr>,
           rn_commit_index := max (rn_commit_index n) (inc_index inc),
           rn_last_applied := inc_index inc, rn_durable_log_len := 0, rn_snapshot_dirty := True\<rparr>)"

definition finish_snapshot_install ::
    "disk \<Rightarrow> nat \<Rightarrow> raft_node \<Rightarrow> (raft_error + raft_output) \<times> raft_node" where
  "finish_snapshot_install disk index n =
     (case incoming_ready n of
        None \<Rightarrow> (Inl NoPendingSnapshot, n)
      | Some inc \<Rightarrow>
          if inc_index inc \<noteq> index then (Inl NoPendingSnapshot, n)
          else case persist disk (install inc n) of
                 (False, n) \<Rightarrow> (Inl (the (rn_fatal n)), n)
               | (True, n) \<Rightarrow>
                   (Inr (snapshot_response n (inc_leader inc) (inc_index inc) 0 True),
                    n\<lparr>rn_incoming := None\<rparr>))"

definition handle_install_snapshot_resp ::
    "node_id \<Rightarrow> nat \<Rightarrow> nat \<Rightarrow> nat \<Rightarrow> bool \<Rightarrow> raft_node \<Rightarrow> raft_output list \<times> raft_node" where
  "handle_install_snapshot_resp from term' last_included_index next_offset installed n =
     (if rn_role n \<noteq> Leader \<or> term' \<noteq> rn_current_term n then ([], n)
      else case rn_snapshot n of
        None \<Rightarrow> ([], n)
      | Some s \<Rightarrow>
          if sn_index s \<noteq> last_included_index then ([], n)
          else if installed then
            (let bounded = max (min last_included_index (last_index n)) (match_of n from);
                 n = n\<lparr>rn_snapshot_offsets := (rn_snapshot_offsets n)(from := None),
                       rn_match_index := (rn_match_index n)(from \<mapsto> bounded),
                       rn_next_index := (rn_next_index n)(from \<mapsto> sat_add bounded 1)\<rparr>;
                 n = advance_commit n
             in (if bounded < last_index n then [append_for n from] else [], n))
          else
            (let offset = (if next_offset \<le> length (sn_data s) then next_offset else 0);
                 n = n\<lparr>rn_snapshot_offsets := (rn_snapshot_offsets n)(from \<mapsto> offset)\<rparr>
             in ([snapshot_for n s from], n)))"

definition compact_check :: "raft_node \<Rightarrow> bytes \<Rightarrow> raft_error option" where
  "compact_check n data =
     (if data = [] \<or> length data > MAX_SNAPSHOT_BYTES then Some SnapshotSize
      else if rn_last_applied n \<le> snapshot_index n \<or> rn_last_applied n > rn_commit_index n
      then Some SnapshotPosition
      else if term_at n (rn_last_applied n) = 0 then Some SnapshotTerm
      else if rn_last_applied n - snapshot_index n > length (rn_log n) then Some SnapshotLogRange
      else None)"

definition compacted :: "bytes \<Rightarrow> raft_node \<Rightarrow> raft_node" where
  "compacted data n =
     n\<lparr>rn_log := drop (rn_last_applied n - snapshot_index n) (rn_log n),
       rn_snapshot := Some \<lparr>sn_index = rn_last_applied n, sn_term = term_at n (rn_last_applied n),
                            sn_data = data\<rparr>,
       rn_snapshot_offsets := Map.empty, rn_durable_log_len := 0, rn_snapshot_dirty := True\<rparr>"

definition compact :: "disk \<Rightarrow> bytes \<Rightarrow> raft_node \<Rightarrow> (raft_error + unit) \<times> raft_node" where
  "compact disk data n =
     (case compact_check n data of
        Some e \<Rightarrow> (Inl e, n)
      | None \<Rightarrow>
          (case persist disk (compacted data n) of
             (False, n) \<Rightarrow> (Inl (the (rn_fatal n)), n)
           | (True, n) \<Rightarrow> (Inr (), n)))"

section \<open>Proposing and applying\<close>

text \<open>The guards of a proposal; the result is the index of its first entry.\<close>

definition propose_check :: "raft_node \<Rightarrow> bytes list \<Rightarrow> raft_error + nat" where
  "propose_check n entries =
     (if \<not> is_leader n then Inl (case rn_fatal n of Some e \<Rightarrow> e | None \<Rightarrow> NotLeader)
      else if entries = [] \<or> length entries > MAX_APPEND_ENTRIES then Inl BatchCount
      else if list_ex (\<lambda>d. d = [] \<or> length d > MAX_ENTRY_BYTES) entries then Inl EntrySize
      else if sum_list (map (\<lambda>d. 8 + 8 + 4 + length d) entries) > MAX_APPEND_BYTES
      then Inl BatchBytes
      else if length (rn_log n) + length entries > MAX_LOG_ENTRIES then Inl LogLimit
      else case checked_add (last_index n) 1 of
        None \<Rightarrow> Inl IndexOverflow
      | Some first_index \<Rightarrow>
          if checked_add first_index (length entries - 1) = None then Inl IndexOverflow
          else Inr first_index)"

definition new_entries :: "nat \<Rightarrow> nat \<Rightarrow> bytes list \<Rightarrow> log_entry list" where
  "new_entries t first_index entries =
     map (\<lambda>offset. \<lparr>le_term = t, le_index = first_index + offset, le_data = entries ! offset\<rparr>)
       [0..<length entries]"

definition propose_batch :: "disk \<Rightarrow> bytes list \<Rightarrow> raft_node \<Rightarrow> (raft_error + nat list) \<times> raft_node" where
  "propose_batch disk entries n =
     (case propose_check n entries of
        Inl e \<Rightarrow> (Inl e, n)
      | Inr first_index \<Rightarrow>
          (case persist disk (advance_commit
                  (n\<lparr>rn_log := rn_log n @ new_entries (rn_current_term n) first_index entries\<rparr>)) of
             (False, n) \<Rightarrow> (Inl (the (rn_fatal n)), n)
           | (True, n) \<Rightarrow> (Inr (map (\<lambda>offset. first_index + offset) [0..<length entries]), n)))"

definition propose :: "disk \<Rightarrow> bytes \<Rightarrow> raft_node \<Rightarrow> (raft_error + nat) \<times> raft_node" where
  "propose disk data n =
     (case propose_batch disk [data] n of
        (Inl e, n) \<Rightarrow> (Inl e, n) | (Inr indexes, n) \<Rightarrow> (Inr (indexes ! 0), n))"

definition next_committed :: "raft_node \<Rightarrow> log_entry option" where
  "next_committed n =
     (if rn_last_applied n \<ge> rn_commit_index n then None
      else case checked_add (rn_last_applied n) 1 of
        None \<Rightarrow> None
      | Some index \<Rightarrow>
          if index < snapshot_index n \<or> index - snapshot_index n < 1 then None
          else (let offset = index - snapshot_index n - 1 in
                if offset < length (rn_log n) then Some (rn_log n ! offset) else None))"

definition next_committed_batch :: "raft_node \<Rightarrow> nat \<Rightarrow> log_entry list" where
  "next_committed_batch n limit =
     (if limit = 0 \<or> rn_last_applied n \<ge> rn_commit_index n then []
      else
        (let start = rn_last_applied n - snapshot_index n;
             count = min (rn_commit_index n - rn_last_applied n) limit
         in if start + count \<le> length (rn_log n) then slice (rn_log n) start (start + count) else []))"

definition mark_applied_batch :: "disk \<Rightarrow> nat \<Rightarrow> nat \<Rightarrow> raft_node \<Rightarrow> (raft_error + unit) \<times> raft_node" where
  "mark_applied_batch disk first final n =
     (if first \<noteq> sat_add (rn_last_applied n) 1 \<or> final < first \<or> final > rn_commit_index n
      then (Inl AppliedOrder, n)
      else case persist disk (n\<lparr>rn_last_applied := final\<rparr>) of
             (False, n) \<Rightarrow> (Inl (the (rn_fatal n)), n)
           | (True, n) \<Rightarrow> (Inr (), n))"

definition mark_applied :: "disk \<Rightarrow> nat \<Rightarrow> raft_node \<Rightarrow> (raft_error + unit) \<times> raft_node" where
  "mark_applied disk index n = mark_applied_batch disk index index n"

section \<open>The message entry point\<close>

fun msg_term :: "msg \<Rightarrow> nat" where
  "msg_term (RequestVote t _ _ _) = t"
| "msg_term (RequestVoteResp t _) = t"
| "msg_term (AppendEntries t _ _ _ _ _) = t"
| "msg_term (AppendEntriesResp t _ _) = t"
| "msg_term (InstallSnapshot t _ _ _ _ _ _) = t"
| "msg_term (InstallSnapshotResp t _ _ _) = t"

text \<open>A message that names its sender must name the authenticated one.\<close>

fun claims_sender :: "node_id \<Rightarrow> msg \<Rightarrow> bool" where
  "claims_sender from (RequestVote _ candidate _ _) \<longleftrightarrow> candidate = from"
| "claims_sender from (AppendEntries _ leader _ _ _ _) \<longleftrightarrow> leader = from"
| "claims_sender from (InstallSnapshot _ leader _ _ _ _ _) \<longleftrightarrow> leader = from"
| "claims_sender from _ \<longleftrightarrow> True"

fun handle :: "disk \<Rightarrow> node_id \<Rightarrow> msg \<Rightarrow> raft_node \<Rightarrow> raft_output list \<times> raft_node" where
  "handle disk from (RequestVote t c li lt) n = handle_request_vote disk t c li lt n"
| "handle disk from (RequestVoteResp t g) n = handle_vote_resp disk from t g n"
| "handle disk from (AppendEntries t l pi pt es lc) n = handle_append disk t l pi pt es lc n"
| "handle disk from (AppendEntriesResp t s mi) n = handle_append_resp from t s mi n"
| "handle disk from (InstallSnapshot t l li lt off d dn) n = handle_install_snapshot t l li lt off d dn n"
| "handle disk from (InstallSnapshotResp t li no inst) n =
     handle_install_snapshot_resp from t li no inst n"

definition observe_term :: "disk \<Rightarrow> nat \<Rightarrow> raft_node \<Rightarrow> bool \<times> raft_node" where
  "observe_term disk t n =
     (if t > rn_current_term n
      then persist disk (reset_election_timeout
             (n\<lparr>rn_current_term := t, rn_role := Follower, rn_voted_for := None,
               rn_leader_id := None, rn_incoming := None\<rparr>))
      else (True, n))"

definition raft_step :: "disk \<Rightarrow> node_id \<Rightarrow> msg \<Rightarrow> raft_node \<Rightarrow> raft_output list \<times> raft_node" where
  "raft_step disk from m n =
     (if rn_fatal n \<noteq> None \<or> from \<notin> set (rn_peers n) then ([], n)
      else if \<not> claims_sender from m then ([], n)
      else case observe_term disk (msg_term m) n of
             (False, n) \<Rightarrow> ([], n)
           | (True, n) \<Rightarrow> handle disk from m n)"

end
