(* ===== verification/RaftFrames.thy ===== *)
theory RaftFrames
  imports Raft
begin

text \<open>
  What the helper functions of the Raft node leave alone, the operations of a node as events,
  and the interface \<open>event_invariant\<close>: a property kept by every allowed operation holds after
  every run.
\<close>

section \<open>What operations keep\<close>

lemma reset_fields [simp]:
  "rn_id (reset_election_timeout n) = rn_id n" "rn_peers (reset_election_timeout n) = rn_peers n"
  "rn_role (reset_election_timeout n) = rn_role n"
  "rn_current_term (reset_election_timeout n) = rn_current_term n"
  "rn_voted_for (reset_election_timeout n) = rn_voted_for n"
  "rn_log (reset_election_timeout n) = rn_log n"
  "rn_commit_index (reset_election_timeout n) = rn_commit_index n"
  "rn_last_applied (reset_election_timeout n) = rn_last_applied n"
  "rn_leader_id (reset_election_timeout n) = rn_leader_id n"
  "rn_next_index (reset_election_timeout n) = rn_next_index n"
  "rn_match_index (reset_election_timeout n) = rn_match_index n"
  "rn_votes (reset_election_timeout n) = rn_votes n"
  "rn_cfg (reset_election_timeout n) = rn_cfg n"
  "rn_storage (reset_election_timeout n) = rn_storage n"
  "rn_fatal (reset_election_timeout n) = rn_fatal n"
  "rn_boot_counter (reset_election_timeout n) = rn_boot_counter n"
  "rn_snapshot (reset_election_timeout n) = rn_snapshot n"
  "rn_incoming (reset_election_timeout n) = rn_incoming n"
  "rn_snapshot_offsets (reset_election_timeout n) = rn_snapshot_offsets n"
  "rn_durable (reset_election_timeout n) = rn_durable n"
  "rn_snapshot_dirty (reset_election_timeout n) = rn_snapshot_dirty n"
  "rn_durable_log_len (reset_election_timeout n) = rn_durable_log_len n"
  "rn_requests (reset_election_timeout n) = rn_requests n"
  by (simp_all add: reset_election_timeout_def next_random_def Let_def)

lemma snapshot_index_update [simp]:
  "snapshot_index (n\<lparr>rn_durable_log_len := d\<rparr>) = snapshot_index n"
  by (simp add: snapshot_index_def)

lemma find_SomeD: "find P xs = Some x \<Longrightarrow> x \<in> set xs \<and> P x"
  by (induction xs) (auto split: if_splits)

lemma advance_commit_cases:
  obtains (same) "advance_commit n = n"
  | (moved) index where "advance_commit n = n\<lparr>rn_commit_index := index\<rparr>"
      "sat_add (rn_commit_index n) 1 \<le> index" "index \<le> last_index n"
      "term_at n index = rn_current_term n" "replicated_count n index \<ge> quorum n"
proof (cases "find (\<lambda>index. term_at n index = rn_current_term n \<and> replicated_count n index \<ge> quorum n)
             (rev [sat_add (rn_commit_index n) 1..<last_index n + 1])")
  case None
  then show ?thesis using same by (simp add: advance_commit_def)
next
  case (Some index)
  with find_SomeD [OF Some] show ?thesis
    by (intro moved [of index]) (auto simp: advance_commit_def)
qed

lemma advance_commit_fields [simp]:
  "rn_id (advance_commit n) = rn_id n" "rn_peers (advance_commit n) = rn_peers n"
  "rn_role (advance_commit n) = rn_role n"
  "rn_current_term (advance_commit n) = rn_current_term n"
  "rn_voted_for (advance_commit n) = rn_voted_for n"
  "rn_log (advance_commit n) = rn_log n"
  "rn_last_applied (advance_commit n) = rn_last_applied n"
  "rn_leader_id (advance_commit n) = rn_leader_id n"
  "rn_votes (advance_commit n) = rn_votes n"
  "rn_storage (advance_commit n) = rn_storage n"
  "rn_fatal (advance_commit n) = rn_fatal n"
  "rn_boot_counter (advance_commit n) = rn_boot_counter n"
  "rn_snapshot (advance_commit n) = rn_snapshot n"
  "rn_incoming (advance_commit n) = rn_incoming n"
  "rn_durable (advance_commit n) = rn_durable n"
  "rn_snapshot_dirty (advance_commit n) = rn_snapshot_dirty n"
  "rn_durable_log_len (advance_commit n) = rn_durable_log_len n"
  "rn_requests (advance_commit n) = rn_requests n"
  by (cases n rule: advance_commit_cases; simp)+

lemma fail_stop_fields [simp]:
  "rn_id (fail_stop n e) = rn_id n" "rn_peers (fail_stop n e) = rn_peers n"
  "rn_role (fail_stop n e) = Follower" "rn_current_term (fail_stop n e) = rn_current_term n"
  "rn_voted_for (fail_stop n e) = rn_voted_for n" "rn_log (fail_stop n e) = rn_log n"
  "rn_commit_index (fail_stop n e) = rn_commit_index n"
  "rn_last_applied (fail_stop n e) = rn_last_applied n" "rn_leader_id (fail_stop n e) = None"
  "rn_votes (fail_stop n e) = rn_votes n" "rn_storage (fail_stop n e) = rn_storage n"
  "rn_fatal (fail_stop n e) = Some e" "rn_boot_counter (fail_stop n e) = rn_boot_counter n"
  "rn_snapshot (fail_stop n e) = rn_snapshot n" "rn_incoming (fail_stop n e) = rn_incoming n"
  "rn_durable (fail_stop n e) = rn_durable n"
  "rn_snapshot_dirty (fail_stop n e) = rn_snapshot_dirty n"
  "rn_durable_log_len (fail_stop n e) = rn_durable_log_len n"
  "rn_requests (fail_stop n e) = rn_requests n"
  by (simp_all add: fail_stop_def)

lemma requested_fields [simp]:
  "rn_id (requested ok n) = rn_id n" "rn_peers (requested ok n) = rn_peers n"
  "rn_role (requested ok n) = rn_role n" "rn_current_term (requested ok n) = rn_current_term n"
  "rn_voted_for (requested ok n) = rn_voted_for n" "rn_log (requested ok n) = rn_log n"
  "rn_commit_index (requested ok n) = rn_commit_index n"
  "rn_last_applied (requested ok n) = rn_last_applied n"
  "rn_leader_id (requested ok n) = rn_leader_id n" "rn_votes (requested ok n) = rn_votes n"
  "rn_storage (requested ok n) = rn_storage n" "rn_fatal (requested ok n) = rn_fatal n"
  "rn_boot_counter (requested ok n) = rn_boot_counter n"
  "rn_snapshot (requested ok n) = rn_snapshot n" "rn_incoming (requested ok n) = rn_incoming n"
  "rn_durable (requested ok n) = rn_durable n"
  "rn_snapshot_dirty (requested ok n) = rn_snapshot_dirty n"
  "rn_durable_log_len (requested ok n) = rn_durable_log_len n"
  by (simp_all add: requested_def)

lemma persisted_fields [simp]:
  "rn_id (persisted n) = rn_id n" "rn_peers (persisted n) = rn_peers n" "rn_role (persisted n) = rn_role n"
  "rn_current_term (persisted n) = rn_current_term n" "rn_voted_for (persisted n) = rn_voted_for n"
  "rn_log (persisted n) = rn_log n" "rn_commit_index (persisted n) = rn_commit_index n"
  "rn_last_applied (persisted n) = rn_last_applied n" "rn_leader_id (persisted n) = rn_leader_id n"
  "rn_votes (persisted n) = rn_votes n" "rn_storage (persisted n) = rn_storage n"
  "rn_fatal (persisted n) = rn_fatal n" "rn_boot_counter (persisted n) = rn_boot_counter n"
  "rn_snapshot (persisted n) = rn_snapshot n" "rn_incoming (persisted n) = rn_incoming n"
  "rn_durable (persisted n) = stable_view n" "\<not> rn_snapshot_dirty (persisted n)"
  "rn_durable_log_len (persisted n) = length (rn_log n)"
  by (simp_all add: persisted_def)

lemma persist_cases:
  obtains (memory) "\<not> rn_storage n" "persist disk n = (True, n)"
  | (ok) "rn_storage n" "persist disk n = (True, persisted n)"
  | (failed) e where "rn_storage n" "persist disk n = (False, fail_stop (requested False n) (DiskError e))"
proof (cases "rn_storage n")
  case False
  then show ?thesis by (intro memory) (simp_all add: persist_def)
next
  case True
  then show ?thesis
    by (cases "disk (stable_view n)") (simp_all add: persist_def ok failed)
qed

lemma append_entries_loop_shape:
  "\<exists>es' d. snd (append_entries_loop l b es ch n) = n\<lparr>rn_log := es', rn_durable_log_len := d\<rparr> \<or>
     (\<exists>e. append_entries_loop l b es ch n =
        (Inl [], fail_stop (n\<lparr>rn_log := es', rn_durable_log_len := d\<rparr>) e))"
proof (induction l b es ch n rule: append_entries_loop.induct)
  case (1 l b ch n)
  then show ?case by (intro exI [of _ "rn_log n"] exI [of _ "rn_durable_log_len n"]) simp
next
  case (2 l b entry rest ch n)
  let ?off = "le_index entry - sat_add b 1"
  have stop: "\<exists>es' d. n = n\<lparr>rn_log := es', rn_durable_log_len := d\<rparr>"
    by (intro exI [of _ "rn_log n"] exI [of _ "rn_durable_log_len n"]) simp
  consider (low) "le_index entry < sat_add b 1"
    | (rewrite) "\<not> le_index entry < sat_add b 1" "?off < length (rn_log n)"
        "le_term (rn_log n ! ?off) \<noteq> le_term entry \<or> le_data (rn_log n ! ?off) \<noteq> le_data entry"
        "le_index entry \<le> rn_commit_index n"
    | (cut) "\<not> le_index entry < sat_add b 1" "?off < length (rn_log n)"
        "le_term (rn_log n ! ?off) \<noteq> le_term entry \<or> le_data (rn_log n ! ?off) \<noteq> le_data entry"
        "\<not> le_index entry \<le> rn_commit_index n"
    | (keep) "\<not> le_index entry < sat_add b 1" "?off < length (rn_log n)"
        "\<not> (le_term (rn_log n ! ?off) \<noteq> le_term entry \<or> le_data (rn_log n ! ?off) \<noteq> le_data entry)"
    | (push) "\<not> le_index entry < sat_add b 1" "?off = length (rn_log n)"
    | (gap) "\<not> le_index entry < sat_add b 1" "?off > length (rn_log n)"
    by linarith
  then show ?case
  proof cases
    case cut
    then show ?thesis using 2(1) [OF cut(1) refl cut(2,3,4)] by (simp add: Let_def)
  next
    case keep
    then show ?thesis using 2(2) [OF keep(1) refl keep(2,3)] by (simp add: Let_def)
  next
    case push
    then show ?thesis using 2(3) [OF push(1) refl _ push(2)] by (simp add: Let_def)
  next
    case rewrite
    then show ?thesis
      by (intro exI [of _ "rn_log n"] exI [of _ "rn_durable_log_len n"]) (auto simp: Let_def)
  qed (use stop in \<open>auto simp: Let_def\<close>)
qed

lemma append_entries_loopE:
  assumes "append_entries_loop l b es ch n = (res, n')"
  obtains (live) es' d where "n' = n\<lparr>rn_log := es', rn_durable_log_len := d\<rparr>"
  | (dead) es' d e where "n' = fail_stop (n\<lparr>rn_log := es', rn_durable_log_len := d\<rparr>) e" "res = Inl []"
  using append_entries_loop_shape [of l b es ch n] assms by auto

lemma persist_fields:
  assumes "persist disk m = (ok, n')"
  shows "rn_id n' = rn_id m" "rn_peers n' = rn_peers m" "rn_storage n' = rn_storage m"
    "rn_current_term n' = rn_current_term m" "rn_voted_for n' = rn_voted_for m"
    "rn_votes n' = rn_votes m" "rn_log n' = rn_log m" "rn_snapshot n' = rn_snapshot m"
    "rn_commit_index n' = rn_commit_index m" "rn_last_applied n' = rn_last_applied m"
    "ok \<Longrightarrow> rn_role n' = rn_role m" "\<not> ok \<Longrightarrow> rn_role n' = Follower"
    "ok \<Longrightarrow> rn_fatal n' = rn_fatal m" "\<not> ok \<Longrightarrow> rn_fatal n' \<noteq> None"
    "ok \<Longrightarrow> rn_leader_id n' = rn_leader_id m" "rn_boot_counter n' = rn_boot_counter m"
    "rn_incoming n' = rn_incoming m"
  using assms by (cases rule: persist_cases [where disk = disk and n = m]; auto)+

definition all_saved :: "persist_request list \<Rightarrow> bool" where
  "all_saved rs \<longleftrightarrow> list_all rq_saved rs"

lemma all_saved_simps [simp]:
  "all_saved []" "all_saved (rs @ [r]) \<longleftrightarrow> all_saved rs \<and> rq_saved r"
  "all_saved (rn_requests (persisted n)) = all_saved (rn_requests n)"
  "\<not> all_saved (rn_requests (requested False n))"
  by (auto simp: all_saved_def persisted_def requested_def)

text \<open>
  What a restart may read: the state of the last write that succeeded, or that of a write that
  failed, since it can have reached the disk all the same and writes after it can have been lost.
\<close>

definition failed_views :: "persist_request list \<Rightarrow> stable_state list" where
  "failed_views rs = map rq_view (filter (\<lambda>r. \<not> rq_saved r) rs)"

definition restart_states :: "raft_node \<Rightarrow> stable_state set" where
  "restart_states n = insert (rn_durable n) (set (failed_views (rn_requests n)))"

lemma failed_views_Nil [simp]: "failed_views [] = []"
  by (simp add: failed_views_def)

lemma failed_views_saved: "all_saved rs \<Longrightarrow> failed_views rs = []"
  by (auto simp: failed_views_def all_saved_def list_all_iff filter_empty_conv)

lemma restart_states_persisted:
  "restart_states (persisted n) = insert (stable_view n) (set (failed_views (rn_requests n)))"
  "restart_states (requested False n) = insert (stable_view n) (restart_states n)"
  by (auto simp: restart_states_def failed_views_def persisted_def requested_def)

lemma restart_states_fail_stop [simp]: "restart_states (fail_stop n e) = restart_states n"
  by (simp add: restart_states_def)

lemma restart_states_saved: "all_saved (rn_requests n) \<Longrightarrow> restart_states n = {rn_durable n}"
  by (simp add: restart_states_def failed_views_saved)

lemma persist_restart:
  "persist disk m = (ok, n') \<Longrightarrow> rn_storage m \<Longrightarrow> restart_states n' \<subseteq> insert (stable_view m) (restart_states m)"
  by (cases rule: persist_cases [where disk = disk and n = m])
    (auto simp: restart_states_persisted, simp add: restart_states_def)

lemma restart_states_cong:
  "rn_durable m = rn_durable n \<Longrightarrow> rn_requests m = rn_requests n \<Longrightarrow> restart_states m = restart_states n"
  by (simp add: restart_states_def)

section \<open>All operations of a node\<close>

datatype raft_event =
    Tick | Receive node_id msg | Propose "bytes list" | Compact bytes | MarkApplied nat nat
  | FinishInstall nat | BootSession nat | ForceReplicate | FailStop raft_error

fun apply_event :: "disk \<Rightarrow> raft_event \<Rightarrow> raft_node \<Rightarrow> raft_output list \<times> raft_node" where
  "apply_event disk Tick n = tick disk n"
| "apply_event disk (Receive from m) n = raft_step disk from m n"
| "apply_event disk (Propose es) n = ([], snd (propose_batch disk es n))"
| "apply_event disk (Compact d) n = ([], snd (compact disk d n))"
| "apply_event disk (MarkApplied f l) n = ([], snd (mark_applied_batch disk f l n))"
| "apply_event disk (FinishInstall i) n =
     (case finish_snapshot_install disk i n of (Inr out, n') \<Rightarrow> ([out], n') | (Inl _, n') \<Rightarrow> ([], n'))"
| "apply_event disk (BootSession now) n = ([], snd (next_boot_session disk now n))"
| "apply_event disk ForceReplicate n = force_replicate n"
| "apply_event disk (FailStop e) n = ([], fail_stop n e)"

section \<open>Runs\<close>

fun run_events :: "(disk \<times> raft_event) list \<Rightarrow> raft_node \<Rightarrow> raft_node" where
  "run_events [] n = n"
| "run_events ((disk, ev) # evs) n = run_events evs (snd (apply_event disk ev n))"

fun allowed_run :: "(raft_event \<Rightarrow> raft_node \<Rightarrow> bool) \<Rightarrow> (disk \<times> raft_event) list \<Rightarrow> raft_node \<Rightarrow> bool" where
  "allowed_run G [] n \<longleftrightarrow> True"
| "allowed_run G ((disk, ev) # evs) n \<longleftrightarrow> G ev n \<and> allowed_run G evs (snd (apply_event disk ev n))"

locale event_invariant =
  fixes P :: "raft_node \<Rightarrow> bool" and G :: "raft_event \<Rightarrow> raft_node \<Rightarrow> bool"
  assumes kept: "P n \<Longrightarrow> G ev n \<Longrightarrow> apply_event disk ev n = (outs, n') \<Longrightarrow> P n'"
begin

lemma run_kept: "P n \<Longrightarrow> allowed_run G evs n \<Longrightarrow> P (run_events evs n)"
proof (induction evs arbitrary: n)
  case (Cons de evs)
  then show ?case
    by (cases de) (auto intro: kept [OF _ _ surjective_pairing])
qed simp

end

end
