(* ===== verification/RaftElection.thy ===== *)
theory RaftElection
  imports RaftFrames
begin

text \<open>
  Votes and elections: what an operation may do to the vote of its node, the cluster as a
  transition system over an unreliable but authenticated network with restarts, and election
  safety, by an invariant over all reachable states.
\<close>

section \<open>Votes\<close>

text \<open>
  \<open>pledged n t c\<close>: the node can no longer vote for anyone but \<open>c\<close> in term \<open>t\<close>, not even after a
  restart; \<open>firm\<close> is the pledge for the current term.
\<close>

definition pledged :: "raft_node \<Rightarrow> nat \<Rightarrow> node_id \<Rightarrow> bool" where
  "pledged n t c \<longleftrightarrow>
     (rn_current_term n > t \<or> rn_current_term n = t \<and> rn_voted_for n = Some c) \<and>
     (rn_storage n \<longrightarrow> (\<forall>s \<in> restart_states n. st_current_term s > t \<or>
        st_current_term s = t \<and> st_voted_for s = Some c))"

definition firm :: "raft_node \<Rightarrow> node_id \<Rightarrow> bool" where
  "firm n c \<longleftrightarrow> rn_voted_for n = Some c \<and>
     (rn_storage n \<longrightarrow> (\<forall>s \<in> restart_states n. st_current_term s = rn_current_term n \<and>
        st_voted_for s = Some c))"

lemma firm_pledged: "firm n c \<Longrightarrow> pledged n (rn_current_term n) c"
  by (auto simp: firm_def pledged_def)

lemma pledged_vote: "pledged n t c \<Longrightarrow> rn_current_term n = t \<Longrightarrow> rn_voted_for n = Some c"
  by (auto simp: pledged_def)

text \<open>What an operation may do to the vote: the contract every operation of the node keeps.\<close>

definition vote_kept :: "raft_node \<Rightarrow> raft_output list \<Rightarrow> raft_node \<Rightarrow> bool" where
  "vote_kept n outs n' \<longleftrightarrow>
     rn_id n' = rn_id n \<and> rn_peers n' = rn_peers n \<and> rn_storage n' = rn_storage n \<and>
     (\<forall>t c. pledged n t c \<longrightarrow> pledged n' t c) \<and>
     (\<forall>to t. \<lparr>out_to = to, out_msg = RequestVoteResp t True\<rparr> \<in> set outs \<longrightarrow>
        t = rn_current_term n' \<and> firm n' to)"

text \<open>
  A candidate or leader has firmly voted for itself; a leader has a quorum of votes; a node with a
  failed write has stopped.
\<close>

definition candidacy_ok :: "raft_node \<Rightarrow> bool" where
  "candidacy_ok n \<longleftrightarrow>
     (rn_role n \<noteq> Follower \<longrightarrow> firm n (rn_id n)) \<and>
     (rn_role n = Leader \<longrightarrow> card (rn_votes n) \<ge> quorum n) \<and>
     (all_saved (rn_requests n) \<or> rn_fatal n \<noteq> None \<and> rn_role n = Follower)"


definition grants :: "raft_output list \<Rightarrow> bool" where
  "grants outs \<longleftrightarrow> (\<exists>o'\<in>set outs. \<exists>t. out_msg o' = RequestVoteResp t True)"

lemma no_grants [simp]:
  "\<not> grants []" "\<not> grants [append_for n p]" "\<not> grants (broadcast_append n)"
  "\<not> grants [append_response n l s m]" "\<not> grants [snapshot_response n l i k b]"
  "\<not> grants [snapshot_for n s' p]"
  by (auto simp: grants_def broadcast_append_def append_for_def snapshot_for_def Let_def
      append_response_def snapshot_response_def split: option.splits if_splits)

definition same_ballot :: "raft_node \<Rightarrow> raft_node \<Rightarrow> bool" where
  "same_ballot n m \<longleftrightarrow> rn_id m = rn_id n \<and> rn_peers m = rn_peers n \<and> rn_storage m = rn_storage n \<and>
     rn_durable m = rn_durable n \<and> rn_requests m = rn_requests n \<and>
     rn_current_term m = rn_current_term n \<and> rn_voted_for m = rn_voted_for n"

lemma same_ballot_trans: "same_ballot a b \<Longrightarrow> same_ballot b c \<Longrightarrow> same_ballot a c"
  by (simp add: same_ballot_def)

lemma same_ballot_firm: "same_ballot n m \<Longrightarrow> firm m c = firm n c"
  by (simp add: same_ballot_def firm_def restart_states_def)

lemma vote_kept_same: "same_ballot n m \<Longrightarrow> \<not> grants outs \<Longrightarrow> vote_kept n outs m"
  by (auto simp: vote_kept_def same_ballot_def pledged_def grants_def restart_states_def)

lemma vote_kept_trans:
  assumes "vote_kept n [] m" and "vote_kept m outs n'" shows "vote_kept n outs n'"
  using assms by (simp add: vote_kept_def)

definition ballot_at_least :: "raft_node \<Rightarrow> raft_node \<Rightarrow> bool" where
  "ballot_at_least n m \<longleftrightarrow> rn_current_term m > rn_current_term n \<or>
     rn_current_term m = rn_current_term n \<and> (rn_voted_for n = None \<or> rn_voted_for m = rn_voted_for n)"

lemma persist_vote_kept:
  assumes p: "persist disk m = (ok, n')" and ids: "rn_id m = rn_id n" "rn_peers m = rn_peers n"
      "rn_storage m = rn_storage n" "rn_durable m = rn_durable n" "rn_requests m = rn_requests n"
    and ge: "ballot_at_least n m" and outs: "\<not> grants outs"
  shows "vote_kept n outs n'"
proof -
  note F = persist_fields [OF p]
  have R: "restart_states n' \<subseteq> insert (stable_view m) (restart_states n)" if "rn_storage n"
    using persist_restart [OF p] restart_states_cong [OF ids(4,5)] ids(3) that by simp
  have "pledged n' t c" if n: "pledged n t c" for t c
  proof -
    have m: "rn_current_term m > t \<or> rn_current_term m = t \<and> rn_voted_for m = Some c"
      using n ge by (auto simp: pledged_def ballot_at_least_def)
    have "st_current_term s > t \<or> st_current_term s = t \<and> st_voted_for s = Some c"
      if "rn_storage n" "s \<in> restart_states n'" for s
      using subsetD [OF R [OF that(1)] that(2)] n m that(1) by (auto simp: pledged_def stable_view_def)
    with m F ids(3) show ?thesis by (simp add: pledged_def)
  qed
  with F ids outs show ?thesis by (auto simp: vote_kept_def grants_def)
qed

lemma persist_firm:
  "persist disk m = (True, n') \<Longrightarrow> all_saved (rn_requests m) \<Longrightarrow> rn_voted_for m = Some c \<Longrightarrow> firm n' c"
  by (cases rule: persist_cases [where disk = disk and n = m])
    (auto simp: firm_def stable_view_def restart_states_saved)

lemma persist_requests:
  assumes "persist disk m = (ok, n')"
  shows "ok \<Longrightarrow> all_saved (rn_requests n') = all_saved (rn_requests m)"
  using assms by (cases rule: persist_cases [where disk = disk and n = m]) auto

definition election_ok :: "node_id set \<Rightarrow> raft_node \<Rightarrow> raft_output list \<Rightarrow> raft_node \<Rightarrow> bool" where
  "election_ok S n outs n' \<longleftrightarrow> vote_kept n outs n' \<and> (candidacy_ok n \<longrightarrow> candidacy_ok n') \<and>
     (rn_role n' \<noteq> Follower \<longrightarrow>
        rn_votes n' \<subseteq> {rn_id n} \<union> S \<union>
          (if rn_role n \<noteq> Follower \<and> rn_current_term n' = rn_current_term n then rn_votes n else {}))"

definition quiet :: "raft_node \<Rightarrow> raft_node \<Rightarrow> bool" where
  "quiet n m \<longleftrightarrow> same_ballot n m \<and> rn_votes m = rn_votes n \<and> (rn_role m = rn_role n \<or> rn_role m = Follower) \<and>
     (rn_fatal n \<noteq> None \<longrightarrow> rn_fatal m \<noteq> None)"

lemma quiet_refl [simp]: "quiet n n"
  by (simp add: quiet_def same_ballot_def)

lemma quiet_trans: "quiet a b \<Longrightarrow> quiet b c \<Longrightarrow> quiet a c"
  by (auto simp: quiet_def same_ballot_def)

lemma quorum_peers: "rn_peers m = rn_peers n \<Longrightarrow> quorum m = quorum n"
  by (simp add: quorum_def)

lemma election_ok_quiet:
  assumes "quiet n m" and "\<not> grants outs"
  shows "election_ok S n outs m"
  using assms vote_kept_same [of n m outs] same_ballot_firm [of n m]
  by (auto simp: election_ok_def quiet_def candidacy_ok_def same_ballot_def quorum_def)

lemma election_ok_persist:
  assumes q: "quiet n m" and p: "persist disk m = (ok, n')" and outs: "\<not> grants outs"
  shows "election_ok S n outs n'"
proof -
  note F = persist_fields [OF p] persist_requests [OF p]
  have "vote_kept n outs n'"
    using q by (intro persist_vote_kept [OF p]) (auto simp: quiet_def same_ballot_def ballot_at_least_def outs)
  moreover have "candidacy_ok n'" if c: "candidacy_ok n"
  proof (cases ok)
    case True
    have "firm n' (rn_id n)" if "rn_role n \<noteq> Follower"
      using persist_firm [of disk m n'] p True c q that
      by (auto simp: candidacy_ok_def firm_def quiet_def same_ballot_def)
    then show ?thesis using c q F True
      by (auto simp: candidacy_ok_def quiet_def same_ballot_def quorum_def)
  qed (use F in \<open>simp add: candidacy_ok_def\<close>)
  ultimately show ?thesis using q F
    by (cases ok) (auto simp: election_ok_def quiet_def same_ballot_def)
qed

lemma election_ok_pre:
  assumes "quiet n m" and "election_ok S m outs n'"
  shows "election_ok S n outs n'"
proof -
  have "vote_kept n [] m" "candidacy_ok n \<longrightarrow> candidacy_ok m"
    using election_ok_quiet [OF assms(1), of "[]" S] by (simp_all add: election_ok_def)
  with assms vote_kept_trans [of n m outs n'] show ?thesis
    by (auto simp: election_ok_def quiet_def same_ballot_def split: if_splits)
qed

subsection \<open>Every operation keeps the vote\<close>

lemma leader_ballot:
  "same_ballot n (lead n)" "rn_votes (lead n) = rn_votes n" "rn_role (lead n) = Leader"
  "same_ballot n (push_noop i (lead n))" "rn_votes (push_noop i (lead n)) = rn_votes n"
  "rn_role (push_noop i (lead n)) = Leader"
  by (simp_all add: lead_def push_noop_def same_ballot_def)

lemma init_progress_ballot:
  "same_ballot n (init_progress n)" "rn_votes (init_progress n) = rn_votes n"
  "rn_role (init_progress n) = rn_role n" "rn_fatal (init_progress n) = rn_fatal n"
  by (simp_all add: init_progress_def same_ballot_def Let_def)

definition elected_ok :: "raft_node \<Rightarrow> raft_node \<Rightarrow> bool" where
  "elected_ok n m \<longleftrightarrow> vote_kept n [] m \<and> candidacy_ok m \<and> rn_votes m = rn_votes n \<and>
     rn_current_term m = rn_current_term n \<and> rn_id m = rn_id n"

lemma become_leader_ok:
  assumes firm: "firm n (rn_id n)" and votes: "card (rn_votes n) \<ge> quorum n"
    and saved: "all_saved (rn_requests n)"
  shows "elected_ok n (become_leader disk n)"
proof -
  have same: "elected_ok n m" if "same_ballot n m" "rn_votes m = rn_votes n" for m
    using that firm votes saved vote_kept_same [of n m "[]"] same_ballot_firm [of n m]
    by (simp add: elected_ok_def candidacy_ok_def same_ballot_def quorum_def)
  have dead: "elected_ok n (fail_stop (lead n) e)" for e
    using leader_ballot(1,2) [of n] by (intro same) (simp_all add: same_ballot_def)
  show ?thesis
  proof (cases "length (rn_log n) \<ge> MAX_LOG_ENTRIES \<or> checked_add (last_index n) 1 = None")
    case True
    then show ?thesis by (auto simp: become_leader_def dead split: option.split)
  next
    case False
    then obtain i where i: "checked_add (last_index n) 1 = Some i" by auto
    let ?b = "push_noop i (lead n)"
    obtain ok m where p: "persist disk ?b = (ok, m)" by (cases "persist disk ?b")
    note F = persist_fields [OF p] persist_requests [OF p] and B = leader_ballot(4,5,6) [where n = n and i = i]
    have kept: "vote_kept n [] m"
      using B(1) by (intro persist_vote_kept [OF p]) (simp_all add: same_ballot_def ballot_at_least_def)
    have "candidacy_ok m" if ok
    proof -
      have "firm m (rn_id n)"
        using persist_firm [of disk ?b m "rn_id n"] p that B(1) firm saved by (simp add: same_ballot_def firm_def)
      then show ?thesis using F votes saved B that by (simp add: candidacy_ok_def same_ballot_def quorum_def)
    qed
    moreover have "candidacy_ok m" if "\<not> ok" using F that by (simp add: candidacy_ok_def)
    ultimately have m: "elected_ok n m"
      using F B kept by (auto simp: elected_ok_def same_ballot_def)
    then have "elected_ok n (init_progress m)"
      using init_progress_ballot [of m] vote_kept_trans [OF _ vote_kept_same [of m "init_progress m" "[]"], of n]
        same_ballot_firm [of m "init_progress m"]
      by (auto simp: elected_ok_def candidacy_ok_def same_ballot_def quorum_def)
    with m p i False show ?thesis by (auto simp: become_leader_def split: bool.splits)
  qed
qed

lemma broadcast_ok:
  "elected_ok n m \<Longrightarrow> rn_role n \<noteq> Follower \<Longrightarrow> election_ok S n (broadcast_append m) m"
  using no_grants(3) [of m]
  by (auto simp: elected_ok_def election_ok_def vote_kept_def grants_def)

lemma start_election_ok:
  assumes "start_election disk n = (outs, n')" and saved: "all_saved (rn_requests n)"
  shows "election_ok S n outs n'"
proof (cases "checked_add (rn_current_term n) 1")
  case None
  then have "outs = []" "n' = fail_stop n TermOverflow" using assms by (simp_all add: start_election_def)
  then show ?thesis by (simp add: election_ok_quiet quiet_def same_ballot_def)
next
  case (Some t)
  then have t: "t = Suc (rn_current_term n)" by (auto simp: checked_add_def split: if_splits)
  have stand: "rn_id (stand t n) = rn_id n" "rn_peers (stand t n) = rn_peers n" "rn_storage (stand t n) = rn_storage n"
    "rn_durable (stand t n) = rn_durable n" "rn_requests (stand t n) = rn_requests n" "rn_current_term (stand t n) = t" "rn_voted_for (stand t n) = Some (rn_id n)"
    "rn_votes (stand t n) = {rn_id n}" "rn_role (stand t n) = Candidate"
    by (simp_all add: stand_def)
  obtain ok m where p: "persist disk (stand t n) = (ok, m)" by (cases "persist disk (stand t n)")
  note F = persist_fields [OF p] persist_requests [OF p]
  have kept: "vote_kept n [] m"
    by (rule persist_vote_kept [OF p]) (use t stand in \<open>simp_all add: ballot_at_least_def\<close>)
  show ?thesis
  proof (cases ok)
    case False
    then have "outs = []" "n' = m" using assms Some p by (simp_all add: start_election_def)
    with False kept F show ?thesis by (simp add: election_ok_def candidacy_ok_def)
  next
    case True
    have firm: "firm m (rn_id m)" using persist_firm [of disk _ m] p True F stand saved by simp
    show ?thesis
    proof (cases "quorum m = 1")
      case True
      have "elected_ok m (become_leader disk m)"
        using firm True \<open>ok\<close> F stand saved by (intro become_leader_ok) auto
      moreover have eq: "outs = broadcast_append (become_leader disk m)" "n' = become_leader disk m"
        using assms Some p \<open>ok\<close> True by (auto simp: start_election_def)
      ultimately show ?thesis
        using vote_kept_trans [OF kept, of "[]" n'] F stand no_grants(3) [of n']
        by (auto simp: elected_ok_def election_ok_def vote_kept_def grants_def)
    next
      case False
      then have eq: "n' = m" "\<not> grants outs"
        using assms Some p \<open>ok\<close> by (auto simp: start_election_def grants_def)
      moreover have "candidacy_ok m" using firm F stand saved \<open>ok\<close> by (simp add: candidacy_ok_def)
      ultimately show ?thesis using kept F stand
        by (auto simp: election_ok_def vote_kept_def grants_def)
    qed
  qed
qed

lemma tick_ok:
  assumes "tick disk n = (outs, n')" and cand: "candidacy_ok n"
  shows "election_ok S n outs n'"
proof -
  have start: "election_ok S n outs n'" if "start_election disk (n\<lparr>rn_election_elapsed := k\<rparr>) = (outs, n')" "all_saved (rn_requests n)" for k
  proof (rule election_ok_pre)
    show "quiet n (n\<lparr>rn_election_elapsed := k\<rparr>)" by (simp add: quiet_def same_ballot_def)
    show "election_ok S (n\<lparr>rn_election_elapsed := k\<rparr>) outs n'"
      by (rule start_election_ok [OF that(1)]) (simp add: that(2))
  qed
  show ?thesis
  proof (cases "rn_fatal n = None")
    case False
    then show ?thesis using assms by (auto simp: tick_def election_ok_quiet)
  next
    case True
    show ?thesis
    proof (cases "rn_role n = Leader")
      case role: True
      have "\<not> grants outs \<and> quiet n n'"
        using assms True role by (auto simp: tick_def Let_def quiet_def same_ballot_def split: if_splits)
      then show ?thesis by (simp add: election_ok_quiet)
    next
      case role: False
      show ?thesis
      proof (cases "rn_election_timeout n \<le> sat_add32 (rn_election_elapsed n) 1")
        case True
        have "all_saved (rn_requests n)" using cand \<open>rn_fatal n = None\<close> by (simp add: candidacy_ok_def)
        with True show ?thesis using assms(1) \<open>rn_fatal n = None\<close> role
          by (intro start) (auto simp: tick_def Let_def split: role.splits)
      next
        case False
        then have "outs = []" "quiet n n'"
          using assms \<open>rn_fatal n = None\<close> role
          by (auto simp: tick_def Let_def quiet_def same_ballot_def split: role.splits)
        then show ?thesis by (simp add: election_ok_quiet)
      qed
    qed
  qed
qed

lemma request_vote_ok:
  assumes "handle_request_vote disk t c li lt n = (outs, n')" and saved: "all_saved (rn_requests n)"
  shows "election_ok S n outs n'"
proof (cases "t = rn_current_term n \<and> (case rn_voted_for n of None \<Rightarrow> True | Some voted \<Rightarrow> voted = c) \<and>
    log_up_to_date lt li (last_log_term n) (last_index n)")
  case True
  define m where "m = reset_election_timeout (n\<lparr>rn_voted_for := Some c\<rparr>)"
  have M: "rn_id m = rn_id n" "rn_peers m = rn_peers n" "rn_storage m = rn_storage n" "rn_durable m = rn_durable n"
    "rn_requests m = rn_requests n" "rn_current_term m = rn_current_term n" "rn_voted_for m = Some c" "rn_votes m = rn_votes n" "rn_role m = rn_role n"
    by (simp_all add: m_def)
  obtain ok n1 where p: "persist disk m = (ok, n1)" by (cases "persist disk m")
  note F = persist_fields [OF p] persist_requests [OF p]
  have kept: "vote_kept n [] n1"
    by (rule persist_vote_kept [OF p]) (use True M in \<open>auto simp: ballot_at_least_def split: option.splits\<close>)
  have eq: "handle_request_vote disk t c li lt n = (if ok
      then ([\<lparr>out_to = c, out_msg = RequestVoteResp (rn_current_term n1) True\<rparr>], n1) else ([], n1))"
    using True p by (cases ok) (simp_all add: handle_request_vote_def Let_def flip: m_def)
  have cand: "candidacy_ok n1" if "candidacy_ok n"
  proof (cases "ok \<and> rn_role n \<noteq> Follower")
    case True
    then have "c = rn_id n"
      using that \<open>t = _ \<and> _\<close> by (auto simp: candidacy_ok_def firm_def split: option.splits)
    with True persist_firm [of disk m n1 c] p M F that saved show ?thesis
      by (auto simp: candidacy_ok_def quorum_def)
  next
    case False
    then have "rn_role n1 = Follower" using F M by (cases ok) auto
    moreover have "all_saved (rn_requests n1) \<or> rn_fatal n1 \<noteq> None" using F M saved by (cases ok) auto
    ultimately show ?thesis by (simp add: candidacy_ok_def)
  qed
  have votes: "rn_role n1 \<noteq> Follower \<longrightarrow> rn_role n \<noteq> Follower" using F M by (cases ok) auto
  show ?thesis
  proof (cases ok)
    case True
    then have "firm n1 c" using persist_firm [of disk m n1 c] p M saved by simp
    with True eq assms kept cand votes F M show ?thesis
      by (auto simp: election_ok_def vote_kept_def)
  next
    case False
    with eq assms kept cand F show ?thesis by (auto simp: election_ok_def)
  qed
next
  case False
  then have "n' = n" "\<not> grants outs"
    using assms by (auto simp: handle_request_vote_def Let_def grants_def)
  then show ?thesis by (simp add: election_ok_quiet)
qed

lemma vote_resp_ok:
  assumes "handle_vote_resp disk from t g n = (outs, n')" and cand: "candidacy_ok n"
  shows "election_ok (if g \<and> t = rn_current_term n then {from} else {}) n outs n' \<and>
    rn_current_term n' = rn_current_term n"
proof (cases "rn_role n = Candidate \<and> t = rn_current_term n \<and> g")
  case False
  then have "outs = []" "n' = n" using assms by (auto simp: handle_vote_resp_def split: if_splits)
  then show ?thesis by (simp add: election_ok_quiet)
next
  case True
  let ?m = "n\<lparr>rn_votes := insert from (rn_votes n)\<rparr>"
  have firm: "firm ?m (rn_id n)" using cand True by (simp add: candidacy_ok_def firm_def restart_states_def)
  show ?thesis
  proof (cases "card (rn_votes ?m) \<ge> quorum ?m")
    case q: True
    have "elected_ok ?m (become_leader disk ?m)"
      using firm q cand True by (intro become_leader_ok) (simp_all add: candidacy_ok_def)
    moreover have "outs = broadcast_append n'" "n' = become_leader disk ?m"
      using assms True q by (auto simp: handle_vote_resp_def Let_def)
    moreover have "vote_kept n [] ?m" by (rule vote_kept_same) (simp_all add: same_ballot_def)
    ultimately show ?thesis
      using True vote_kept_trans [of n ?m "[]" n'] no_grants(3) [of n']
      by (auto simp: elected_ok_def election_ok_def vote_kept_def grants_def)
  next
    case q: False
    have eq: "outs = []" "n' = ?m" using assms True q by (auto simp: handle_vote_resp_def Let_def)
    have "vote_kept n [] ?m" by (rule vote_kept_same) (simp_all add: same_ballot_def)
    moreover have "candidacy_ok ?m" using firm True cand by (simp add: candidacy_ok_def)
    ultimately show ?thesis using True by (auto simp: eq election_ok_def)
  qed
qed

lemma quiet_follow: "quiet n (follow l t n)"
  by (simp add: follow_def quiet_def same_ballot_def)

lemma quiet_loop: "quiet n (snd (append_entries_loop l b es ch n))" 
  "append_entries_loop l b es ch n = (Inl outs, n') \<Longrightarrow> \<not> grants outs"
proof -
  show "quiet n (snd (append_entries_loop l b es ch n))"
    using append_entries_loop_shape [of l b es ch n] by (auto simp: quiet_def same_ballot_def)
  show "append_entries_loop l b es ch n = (Inl outs, n') \<Longrightarrow> \<not> grants outs"
    by (induction l b es ch n rule: append_entries_loop.induct) (auto simp: Let_def split: if_splits)
qed

lemma finish_append_ok:
  assumes "finish_append disk l lc ln ch n = (outs, n')"
  shows "election_ok S n outs n'"
proof -
  let ?m = "if lc > rn_commit_index n then n\<lparr>rn_commit_index := min lc (last_index n)\<rparr> else n"
  have q: "quiet n ?m" "quiet n (fail_stop n LogLimit)" by (simp_all add: quiet_def same_ballot_def)
  obtain ok m where p: "persist disk ?m = (ok, m)" by (cases "persist disk ?m")
  consider "outs = []" "n' = fail_stop n LogLimit" | "n' = m" "\<not> grants outs" | "n' = ?m" "\<not> grants outs"
    using assms p by (cases ok) (auto simp: finish_append_def Let_def split: if_splits)
  then show ?thesis
    using q election_ok_persist [OF q(1) p] by cases (simp_all add: election_ok_quiet)
qed

lemma handle_append_ok:
  assumes "handle_append disk t l pi pt es lc n = (outs, n')"
  shows "election_ok S n outs n'"
proof -
  let ?f = "follow l t n"
  obtain res m where loop: "append_entries_loop l (snapshot_index ?f) es False ?f = (res, m)"
    by (cases "append_entries_loop l (snapshot_index ?f) es False ?f")
  have q: "quiet n m"
    using quiet_trans [OF quiet_follow quiet_loop(1) [of ?f l "snapshot_index ?f" es False]] by (simp add: loop)
  consider (early) "n' = n \<or> n' = ?f" "\<not> grants outs" | (stop) "res = Inl outs" "n' = m"
    | (fin) ch ln where "finish_append disk l lc ln ch m = (outs, n')"
    using assms loop by (cases res) (auto simp: handle_append_def Let_def split: if_splits)
  then show ?thesis
  proof cases
    case early
    then show ?thesis using quiet_follow [of n l t] quiet_refl [of n] by (auto intro: election_ok_quiet)
  next
    case stop
    then have "\<not> grants outs" using quiet_loop(2) loop by blast
    with q stop show ?thesis by (simp add: election_ok_quiet)
  next
    case fin
    show ?thesis using q finish_append_ok [OF fin, of S] by (rule election_ok_pre)
  qed
qed

lemma quiet_updates:
  "quiet n (advance_commit (n\<lparr>rn_match_index := f, rn_next_index := g\<rparr>))"
  "quiet n (advance_commit (n\<lparr>rn_snapshot_offsets := h, rn_match_index := f, rn_next_index := g\<rparr>))"
  "quiet n (n\<lparr>rn_next_index := g\<rparr>)" "quiet n (n\<lparr>rn_snapshot_offsets := h\<rparr>)"
  "quiet n (n\<lparr>rn_incoming := i\<rparr>)"
  "quiet n (reset_election_timeout (n\<lparr>rn_role := Follower, rn_leader_id := l\<rparr>))"
  by (simp_all add: quiet_def same_ballot_def)

lemma handle_append_resp_ok:
  assumes "handle_append_resp from t b mi n = (outs, n')"
  shows "election_ok S n outs n'"
proof -
  have "quiet n n' \<and> \<not> grants outs"
    using assms quiet_updates by (auto simp: handle_append_resp_def Let_def split: if_splits)
  then show ?thesis by (simp add: election_ok_quiet)
qed

lemma snapshot_resp_ok:
  assumes "handle_install_snapshot_resp from t li no b n = (outs, n')"
  shows "election_ok S n outs n'"
proof -
  have "quiet n n' \<and> \<not> grants outs"
    using assms quiet_updates
    by (auto simp: handle_install_snapshot_resp_def Let_def split: if_splits option.splits)
  then show ?thesis by (simp add: election_ok_quiet)
qed

lemma receive_chunk_quiet:
  "receive_chunk inc l li off d dn n = (outs, n') \<Longrightarrow> quiet n n' \<and> \<not> grants outs"
  using quiet_updates(5) by (auto simp: receive_chunk_def Let_def split: if_splits)

lemma install_snapshot_ok:
  assumes "handle_install_snapshot t l li lt off d dn n = (outs, n')"
  shows "election_ok S n outs n'"
proof -
  let ?r = "reset_election_timeout (n\<lparr>rn_role := Follower, rn_leader_id := Some l\<rparr>)"
  have r: "quiet n ?r" "quiet n (?r\<lparr>rn_incoming := i\<rparr>)" for i
    by (simp_all add: quiet_def same_ballot_def)
  define same where "same = (case rn_incoming n of None \<Rightarrow> False
     | Some inc \<Rightarrow> inc_leader inc = l \<and> inc_leader_term inc = t \<and> inc_index inc = li \<and> inc_term inc = lt)"
  define fresh where "fresh = \<lparr>inc_leader = l, inc_leader_term = t, inc_index = li, inc_term = lt,
     inc_data = [], inc_complete = False\<rparr>"
  have eq: "handle_install_snapshot t l li lt off d dn n =
     (if t \<noteq> rn_current_term n \<or> li = 0 \<or> lt = 0 \<or> length d > SNAPSHOT_CHUNK_BYTES
      then ([snapshot_response n l li 0 False], n)
      else if li \<le> rn_last_applied n
      then ([snapshot_response (?r\<lparr>rn_incoming := None\<rparr>) l li 0 True], ?r\<lparr>rn_incoming := None\<rparr>)
      else if same then receive_chunk (the (rn_incoming n)) l li off d dn ?r
      else if off \<noteq> 0 then ([snapshot_response ?r l li 0 False], ?r\<lparr>rn_incoming := None\<rparr>)
      else receive_chunk fresh l li off d dn (?r\<lparr>rn_incoming := Some fresh\<rparr>))"
    by (simp add: handle_install_snapshot_def Let_def same_def fresh_def)
  have "quiet n n' \<and> \<not> grants outs"
    using assms r unfolding eq
    by (auto split: if_splits dest!: receive_chunk_quiet intro: quiet_trans)
  then show ?thesis by (simp add: election_ok_quiet)
qed

definition new_votes :: "node_id \<Rightarrow> msg \<Rightarrow> raft_node \<Rightarrow> node_id set" where
  "new_votes from m n' = {v. v = from \<and> m = RequestVoteResp (rn_current_term n') True}"

lemma handle_ok:
  assumes "handle disk from m n = (outs, n')" and "candidacy_ok n" and "all_saved (rn_requests n)"
  shows "election_ok (new_votes from m n') n outs n'"
proof (cases m)
  case (RequestVoteResp t g)
  have "election_ok (if g \<and> t = rn_current_term n then {from} else {}) n outs n' \<and>
      rn_current_term n' = rn_current_term n"
    using assms RequestVoteResp by (intro vote_resp_ok) simp_all
  moreover have "new_votes from m n' = (if g \<and> t = rn_current_term n' then {from} else {})"
    by (auto simp: RequestVoteResp new_votes_def)
  ultimately show ?thesis by simp
qed (use assms in \<open>auto intro: request_vote_ok handle_append_ok handle_append_resp_ok
        snapshot_resp_ok install_snapshot_ok\<close>)

lemma election_ok_trans:
  assumes "election_ok {} n [] m" and "election_ok S m outs n'"
  shows "election_ok S n outs n'"
  using assms vote_kept_trans [of n m outs n']
  by (auto simp: election_ok_def vote_kept_def split: if_splits)

lemma observe_term_ok:
  assumes "observe_term disk t n = (ok, m)"
  shows "election_ok {} n [] m"
proof (cases "t > rn_current_term n")
  case True
  let ?a = "reset_election_timeout (n\<lparr>rn_current_term := t, rn_role := Follower, rn_voted_for := None,
               rn_leader_id := None, rn_incoming := None\<rparr>)"
  have p: "persist disk ?a = (ok, m)" using assms True by (simp add: observe_term_def)
  have "vote_kept n [] m"
    by (rule persist_vote_kept [OF p]) (use True in \<open>simp_all add: ballot_at_least_def\<close>)
  moreover have "rn_role m = Follower" using persist_fields [OF p] by (cases ok) simp_all
  moreover have "all_saved (rn_requests m) \<or> rn_fatal m \<noteq> None" if "candidacy_ok n"
    using persist_fields [OF p] persist_requests [OF p] that by (cases ok) (auto simp: candidacy_ok_def)
  ultimately show ?thesis by (simp add: election_ok_def candidacy_ok_def)
next
  case False
  then show ?thesis using assms by (simp add: observe_term_def election_ok_quiet)
qed

lemma raft_step_ok:
  assumes step: "raft_step disk from m n = (outs, n')" and cand: "candidacy_ok n"
  shows "election_ok (new_votes from m n') n outs n'"
proof (cases "rn_fatal n \<noteq> None \<or> from \<notin> set (rn_peers n) \<or> \<not> claims_sender from m")
  case True
  then show ?thesis using step by (auto simp: raft_step_def election_ok_quiet split: if_splits)
next
  case False
  obtain ok a where a: "observe_term disk (msg_term m) n = (ok, a)" by (cases "observe_term disk (msg_term m) n")
  note A = observe_term_ok [OF a]
  show ?thesis
  proof (cases ok)
    case True
    then have "handle disk from m a = (outs, n')" using step False a by (simp add: raft_step_def)
    moreover have c: "candidacy_ok a" using A cand by (simp add: election_ok_def)
    moreover have "rn_fatal a = None"
      using a True False persist_fields(13) by (fastforce simp: observe_term_def split: if_splits)
    then have "all_saved (rn_requests a)" using c by (simp add: candidacy_ok_def)
    ultimately show ?thesis using A election_ok_trans handle_ok by blast
  next
    case ok: False
    then have "outs = []" "n' = a" using step False a by (simp_all add: raft_step_def)
    with A election_ok_trans [OF A, of "new_votes from m n'" "[]" a] show ?thesis
      by (simp add: election_ok_quiet)
  qed
qed

subsection \<open>Events\<close>

fun event_votes :: "raft_event \<Rightarrow> raft_node \<Rightarrow> node_id set" where
  "event_votes (Receive from m) n' = new_votes from m n'"
| "event_votes _ n' = {}"

lemma quiet_then_persist:
  assumes "persist disk m = (ok, n')" and "quiet n m"
  shows "election_ok S n [] n'"
  using election_ok_persist [OF assms(2,1)] by simp

lemma snd_persist_ok: "quiet n m \<Longrightarrow> election_ok S n [] (snd (persist disk m))"
  using quiet_then_persist [of disk m _ _ n S] by (metis prod.collapse)

lemma operations_ok:
  "election_ok {} n [] (snd (propose_batch disk es n))"
  "election_ok {} n [] (snd (compact disk d n))"
  "election_ok {} n [] (snd (mark_applied_batch disk f l n))"
  "election_ok {} n [] (snd (next_boot_session disk now n))"
  "election_ok {} n [] (fail_stop n e)"
proof -
  have q: "quiet n (advance_commit (n\<lparr>rn_log := es'\<rparr>))" "quiet n (compacted d n)"
    "quiet n (n\<lparr>rn_last_applied := l\<rparr>)" "quiet n (n\<lparr>rn_boot_counter := k\<rparr>)" "quiet n (fail_stop n e)" for es' k
    by (simp_all add: quiet_def same_ballot_def compacted_def)
  have snd_split: "snd (case persist disk m of (False, n) \<Rightarrow> (f n, n) | (True, n) \<Rightarrow> (g n, n)) = snd (persist disk m)"
    for m :: raft_node and f g :: "raft_node \<Rightarrow> 'c"
    by (simp split: prod.split bool.split)
  have id: "election_ok {} n [] n" by (simp add: election_ok_quiet)
  show "election_ok {} n [] (snd (propose_batch disk es n))"
    using id snd_persist_ok [OF q(1)] by (simp add: propose_batch_def snd_split split: sum.split)
  show "election_ok {} n [] (snd (compact disk d n))"
    using id snd_persist_ok [OF q(2)] by (simp add: compact_def snd_split split: option.split)
  show "election_ok {} n [] (snd (mark_applied_batch disk f l n))"
    using id snd_persist_ok [OF q(3)] by (simp add: mark_applied_batch_def snd_split)
  show "election_ok {} n [] (snd (next_boot_session disk now n))"
    using id snd_persist_ok [OF q(4)] by (simp add: next_boot_session_def snd_split split: option.split)
  show "election_ok {} n [] (fail_stop n e)" using q(5) by (simp add: election_ok_quiet)
qed

lemma finish_install_ok:
  assumes "apply_event disk (FinishInstall i) n = (outs, n')"
  shows "election_ok {} n outs n'"
proof -
  have q: "quiet n (install inc n)" for inc by (simp add: quiet_def same_ballot_def install_def Let_def)
  show ?thesis
  proof (cases "\<exists>inc. incoming_ready n = Some inc \<and> inc_index inc = i")
    case True
    then obtain inc where inc: "incoming_ready n = Some inc" "inc_index inc = i" by blast
    obtain ok m where p: "persist disk (install inc n) = (ok, m)" by (cases "persist disk (install inc n)")
    have "election_ok {} n [] m" using p q by (rule quiet_then_persist)
    moreover have "quiet m n'" "\<not> grants outs"
      using assms inc p by (cases ok; auto simp: finish_snapshot_install_def quiet_def same_ballot_def)+
    ultimately show ?thesis using election_ok_trans election_ok_quiet by blast
  next
    case False
    then have "n' = n" "outs = []"
      using assms by (auto simp: finish_snapshot_install_def split: option.splits if_splits)
    then show ?thesis by (simp add: election_ok_quiet)
  qed
qed

theorem event_ok:
  assumes "apply_event disk ev n = (outs, n')" and "candidacy_ok n"
  shows "election_ok (event_votes ev n') n outs n'"
proof (cases ev)
  case ForceReplicate
  then have "quiet n n' \<and> \<not> grants outs"
    using assms by (auto simp: force_replicate_def quiet_def same_ballot_def split: if_splits)
  then show ?thesis by (simp add: election_ok_quiet)
next
  case (FinishInstall i)
  then show ?thesis using assms finish_install_ok by simp
qed (use assms operations_ok in \<open>auto intro: tick_ok raft_step_ok\<close>)

section \<open>The cluster\<close>

text \<open>
  The members run one node each and exchange messages over a network that may lose, repeat,
  delay and reorder them but, being authenticated, does not forge them. A member with storage
  may restart from what its disk may hold. \<open>cl_elected\<close> records who led in which term.
\<close>

record cluster =
  cl_nodes :: "node_id \<Rightarrow> raft_node"
  cl_net :: "(node_id \<times> node_id \<times> msg) set"
  cl_elected :: "(node_id \<times> nat) set"

definition send :: "node_id \<Rightarrow> raft_output list \<Rightarrow> (node_id \<times> node_id \<times> msg) set" where
  "send i outs = (\<lambda>o'. (i, out_to o', out_msg o')) ` set outs"

definition leaders :: "node_id \<Rightarrow> raft_node \<Rightarrow> (node_id \<times> nat) set" where
  "leaders i n = (if rn_role n = Leader then {(i, rn_current_term n)} else {})"

definition update_cluster :: "node_id \<Rightarrow> raft_output list \<times> raft_node \<Rightarrow> cluster \<Rightarrow> cluster" where
  "update_cluster i res c =
     \<lparr>cl_nodes = (cl_nodes c)(i := snd res), cl_net = cl_net c \<union> send i (fst res),
      cl_elected = cl_elected c \<union> leaders i (snd res)\<rparr>"

fun deliverable :: "node_id \<Rightarrow> raft_event \<Rightarrow> cluster \<Rightarrow> bool" where
  "deliverable i (Receive from m) c \<longleftrightarrow> (from, i, m) \<in> cl_net c"
| "deliverable i _ c \<longleftrightarrow> True"

inductive cluster_step :: "node_id list \<Rightarrow> cluster \<Rightarrow> cluster \<Rightarrow> bool" for members where
  act: "i \<in> set members \<Longrightarrow> deliverable i ev c \<Longrightarrow>
    cluster_step members c (update_cluster i (apply_event disk ev (cl_nodes c i)) c)"
| restart: "i \<in> set members \<Longrightarrow> rn_storage (cl_nodes c i) \<Longrightarrow> saved \<in> restart_states (cl_nodes c i) \<Longrightarrow>
    cluster_step members c (update_cluster i ([], from_loaded i members cfg saved now) c)"

definition cluster_init :: "node_id list \<Rightarrow> (node_id \<Rightarrow> config \<times> bool \<times> u64) \<Rightarrow> cluster" where
  "cluster_init members env =
     \<lparr>cl_nodes = (\<lambda>i. case env i of (cfg, storage, now) \<Rightarrow> from_stable i members cfg storage stable_default now),
      cl_net = {}, cl_elected = {}\<rparr>"

definition granted :: "cluster \<Rightarrow> node_id \<Rightarrow> node_id \<Rightarrow> nat \<Rightarrow> bool" where
  "granted c v i t \<longleftrightarrow> (v, i, RequestVoteResp t True) \<in> cl_net c"

definition others :: "node_id list \<Rightarrow> node_id \<Rightarrow> node_id list" where
  "others members i = remdups_adj (sort (filter (\<lambda>p. p \<noteq> i) members))"

definition election_inv :: "node_id list \<Rightarrow> cluster \<Rightarrow> bool" where
  "election_inv members c \<longleftrightarrow>
     (\<forall>i. rn_id (cl_nodes c i) = i \<and> rn_peers (cl_nodes c i) = others members i \<and> candidacy_ok (cl_nodes c i)) \<and>
     (\<forall>v i t. granted c v i t \<longrightarrow> v \<in> set members \<and> pledged (cl_nodes c v) t i) \<and>
     (\<forall>v i j t. granted c v i t \<longrightarrow> granted c v j t \<longrightarrow> i = j) \<and>
     (\<forall>i v. rn_role (cl_nodes c i) \<noteq> Follower \<longrightarrow> v \<in> rn_votes (cl_nodes c i) \<longrightarrow> v \<noteq> i \<longrightarrow>
        granted c v i (rn_current_term (cl_nodes c i))) \<and>
     (\<forall>i t. (i, t) \<in> cl_elected c \<longrightarrow> pledged (cl_nodes c i) t i \<and> i \<in> set members \<and>
        (\<exists>V. quorum (cl_nodes c i) \<le> card V \<and> (\<forall>v\<in>V. v \<noteq> i \<longrightarrow> granted c v i t))) \<and>
     (\<forall>i j t. (i, t) \<in> cl_elected c \<longrightarrow> granted c i j t \<longrightarrow> i = j)"


lemma granted_update:
  "granted (update_cluster i (outs, n') c) v j t \<longleftrightarrow>
     granted c v j t \<or> v = i \<and> \<lparr>out_to = j, out_msg = RequestVoteResp t True\<rparr> \<in> set outs"
proof -
  have "(v, j, m) \<in> send i outs \<longleftrightarrow> v = i \<and> \<lparr>out_to = j, out_msg = m\<rparr> \<in> set outs" for m
  proof
    assume "(v, j, m) \<in> send i outs"
    then obtain o' where "o' \<in> set outs" "v = i" "j = out_to o'" "m = out_msg o'" by (auto simp: send_def)
    moreover have "o' = \<lparr>out_to = out_to o', out_msg = out_msg o'\<rparr>" by simp
    ultimately show "v = i \<and> \<lparr>out_to = j, out_msg = m\<rparr> \<in> set outs" by metis
  qed (auto simp: send_def image_iff intro: bexI [rotated])
  then show ?thesis by (simp add: granted_def update_cluster_def)
qed

lemma update_nodes [simp]:
  "cl_nodes (update_cluster i (outs, n') c) = (cl_nodes c)(i := n')"
  "cl_elected (update_cluster i (outs, n') c) = cl_elected c \<union> leaders i n'"
  by (simp_all add: update_cluster_def)

lemma election_inv_update:
  assumes inv: "election_inv members c" and i: "i \<in> set members"
    and ok: "election_ok S (cl_nodes c i) outs n'"
    and S: "\<And>v. v \<in> S \<Longrightarrow> granted c v i (rn_current_term n')"
  shows "election_inv members (update_cluster i (outs, n') c)"
proof -
  let ?n = "cl_nodes c i" and ?c = "update_cluster i (outs, n') c"
  have ids: "rn_id (cl_nodes c j) = j" "rn_peers (cl_nodes c j) = others members j" "candidacy_ok (cl_nodes c j)" for j
    using inv by (simp_all add: election_inv_def)
  have pl: "granted c v j t \<Longrightarrow> v \<in> set members \<and> pledged (cl_nodes c v) t j" for v j t
    using inv by (simp add: election_inv_def)
  have uni: "granted c v j t \<Longrightarrow> granted c v k t \<Longrightarrow> j = k" for v j k t
    using inv unfolding election_inv_def by blast
  have vot: "rn_role (cl_nodes c j) \<noteq> Follower \<Longrightarrow> v \<in> rn_votes (cl_nodes c j) \<Longrightarrow> v \<noteq> j \<Longrightarrow>
      granted c v j (rn_current_term (cl_nodes c j))" for j v
    using inv unfolding election_inv_def by blast
  have el: "(j, t) \<in> cl_elected c \<Longrightarrow> pledged (cl_nodes c j) t j \<and> j \<in> set members \<and>
        (\<exists>V. quorum (cl_nodes c j) \<le> card V \<and> (\<forall>v\<in>V. v \<noteq> j \<longrightarrow> granted c v j t))" for j t
    using inv unfolding election_inv_def by blast
  have elu: "(j, t) \<in> cl_elected c \<Longrightarrow> granted c j k t \<Longrightarrow> j = k" for j k t
    using inv unfolding election_inv_def by blast
  have K: "rn_id n' = i" "rn_peers n' = others members i" "candidacy_ok n'"
      "\<And>t j. pledged ?n t j \<Longrightarrow> pledged n' t j"
      "\<And>t j. \<lparr>out_to = j, out_msg = RequestVoteResp t True\<rparr> \<in> set outs \<Longrightarrow> t = rn_current_term n' \<and> firm n' j"
    using ok ids by (auto simp: election_ok_def vote_kept_def)
  have votes: "v = i \<or> v \<in> S \<or> rn_role ?n \<noteq> Follower \<and> rn_current_term n' = rn_current_term ?n \<and> v \<in> rn_votes ?n"
    if "rn_role n' \<noteq> Follower" "v \<in> rn_votes n'" for v
    using ok that ids(1) by (auto simp: election_ok_def split: if_splits)
  have new: "j = k" if "pledged n' t j" "\<lparr>out_to = k, out_msg = RequestVoteResp t True\<rparr> \<in> set outs" for j k t
    using K(5) [OF that(2)] that(1) by (auto dest: pledged_vote simp: firm_def)
  have mono: "granted c v j t \<Longrightarrow> granted ?c v j t" for v j t by (simp add: granted_update)
  have nodes: "pledged (cl_nodes ?c v) t j" if "pledged (cl_nodes c v) t j" for v t j
    using that K(4) by auto
  have lead: "pledged n' t i \<and> (\<exists>V. quorum n' \<le> card V \<and> (\<forall>v\<in>V. v \<noteq> i \<longrightarrow> granted ?c v i t))"
    if "(i, t) \<in> leaders i n'" for t
  proof -
    have "rn_role n' = Leader" "t = rn_current_term n'" using that by (auto simp: leaders_def split: if_splits)
    moreover have "pledged n' t i" using K(1,3) calculation firm_pledged by (auto simp: candidacy_ok_def)
    moreover have "\<forall>v\<in>rn_votes n'. v \<noteq> i \<longrightarrow> granted ?c v i t"
      using votes calculation vot [of i] S mono by fastforce
    ultimately show ?thesis using K(3) by (auto simp: candidacy_ok_def)
  qed
  show ?thesis
    unfolding election_inv_def
  proof (intro conjI allI impI)
    fix v j t
    assume "granted ?c v j t"
    then consider "granted c v j t"
      | "v = i" "\<lparr>out_to = j, out_msg = RequestVoteResp t True\<rparr> \<in> set outs"
      by (auto simp: granted_update)
    then have "v \<in> set members \<and> pledged (cl_nodes ?c v) t j"
    proof cases
      case 2
      with K(5) [OF 2(2)] firm_pledged [of n' j] i show ?thesis by auto
    qed (use pl nodes in blast)
    then show "v \<in> set members" "pledged (cl_nodes ?c v) t j" by auto
  next
    fix v j k t
    assume "granted ?c v j t" "granted ?c v k t"
    then consider "granted c v j t" "granted c v k t"
      | "v = i" "granted c i j t" "\<lparr>out_to = k, out_msg = RequestVoteResp t True\<rparr> \<in> set outs"
      | "v = i" "granted c i k t" "\<lparr>out_to = j, out_msg = RequestVoteResp t True\<rparr> \<in> set outs"
      | "\<lparr>out_to = j, out_msg = RequestVoteResp t True\<rparr> \<in> set outs" "\<lparr>out_to = k, out_msg = RequestVoteResp t True\<rparr> \<in> set outs"
      by (auto simp: granted_update)
    then show "j = k"
    proof cases
      case 4
      then show ?thesis using K(5) [OF 4(1)] K(5) [OF 4(2)] by (simp add: firm_def)
    qed (use uni new pl K(4) in blast)+
  next
    fix j v
    assume "rn_role (cl_nodes ?c j) \<noteq> Follower" "v \<in> rn_votes (cl_nodes ?c j)" "v \<noteq> j"
    then show "granted ?c v j (rn_current_term (cl_nodes ?c j))"
      using votes [of v] vot [of j v] S mono by (auto split: if_splits)
  next
    fix j t
    assume "(j, t) \<in> cl_elected ?c"
    then consider "(j, t) \<in> cl_elected c" | "j = i" "(i, t) \<in> leaders i n'"
      by (auto simp: leaders_def split: if_splits)
    then have "pledged (cl_nodes ?c j) t j \<and> j \<in> set members \<and>
      (\<exists>V. quorum (cl_nodes ?c j) \<le> card V \<and> (\<forall>v\<in>V. v \<noteq> j \<longrightarrow> granted ?c v j t))"
    proof cases
      case 1
      have "quorum (cl_nodes ?c j) = quorum (cl_nodes c j)" using K(2) ids(2) by (simp add: quorum_def)
      with el [OF 1] nodes mono show ?thesis by metis
    qed (use lead i in auto)
    then show "pledged (cl_nodes ?c j) t j" "j \<in> set members"
      "\<exists>V. quorum (cl_nodes ?c j) \<le> card V \<and> (\<forall>v\<in>V. v \<noteq> j \<longrightarrow> granted ?c v j t)" by auto
  next
    fix j k t
    assume "(j, t) \<in> cl_elected ?c" "granted ?c j k t"
    then consider "(j, t) \<in> cl_elected c" "granted c j k t"
      | "j = i" "pledged n' t i" "granted c i k t" "(i, t) \<in> leaders i n'"
      | "j = i" "pledged n' t i" "\<lparr>out_to = k, out_msg = RequestVoteResp t True\<rparr> \<in> set outs"
      using lead el K(4) by (auto simp: granted_update leaders_def split: if_splits)
    then show "j = k"
    proof cases
      case 2
      then have "t = rn_current_term n'" by (auto simp: leaders_def split: if_splits)
      with 2 pl [of i k t] K(4) have "rn_voted_for n' = Some k" "rn_voted_for n' = Some i"
        by (auto dest: pledged_vote)
      with 2 show ?thesis by simp
    qed (use elu new in auto)
  qed (use ids K in \<open>auto\<close>)
qed

lemma distinct_remdups_adj: "sorted xs \<Longrightarrow> distinct (remdups_adj (xs :: nat list))"
  by (induction xs rule: remdups_adj.induct) auto

lemma others_facts: "set (others members i) = set members - {i}" "distinct (others members i)"
  by (auto simp: others_def distinct_remdups_adj)

lemma election_inv_init: "election_inv members (cluster_init members env)"
  by (auto simp: election_inv_def cluster_init_def from_stable_def granted_def candidacy_ok_def others_def
      split: prod.split)

lemma restart_ok:
  assumes "rn_id n = i" "rn_peers n = others members i" "rn_storage n" "saved \<in> restart_states n"
  shows "election_ok {} n [] (from_loaded i members cfg saved now)"
  using assms
  by (auto simp: election_ok_def vote_kept_def pledged_def candidacy_ok_def from_loaded_def from_stable_def
      others_def restart_states_def)

lemma election_inv_step:
  assumes "cluster_step members c c'" and inv: "election_inv members c"
  shows "election_inv members c'"
  using assms(1)
proof cases
  case (act i ev disk)
  obtain outs n' where ev: "apply_event disk ev (cl_nodes c i) = (outs, n')"
    by (cases "apply_event disk ev (cl_nodes c i)")
  have "candidacy_ok (cl_nodes c i)" using inv by (simp add: election_inv_def)
  with ev have "election_ok (event_votes ev n') (cl_nodes c i) outs n'" by (rule event_ok)
  moreover have "granted c v i (rn_current_term n')" if "v \<in> event_votes ev n'" for v
    using that act(3) by (cases ev) (auto simp: new_votes_def granted_def)
  ultimately show ?thesis using act(1,2) inv ev by (auto intro: election_inv_update)
next
  case (restart i saved cfg now)
  have "election_ok {} (cl_nodes c i) [] (from_loaded i members cfg saved now)"
    using inv restart by (intro restart_ok) (simp_all add: election_inv_def)
  then show ?thesis using restart inv election_inv_update [of members c i "{}"] by simp
qed

lemma election_inv_reachable:
  "(cluster_step members)\<^sup>*\<^sup>* (cluster_init members env) c \<Longrightarrow> election_inv members c"
  by (induction rule: rtranclp_induct) (auto intro: election_inv_init election_inv_step)

lemma quorums_meet:
  assumes "V \<subseteq> A" "W \<subseteq> A" "finite A" "card A < card V + card W"
  shows "V \<inter> W \<noteq> {}"
proof
  assume "V \<inter> W = {}"
  then have "card (V \<union> W) = card V + card W"
    using assms by (intro card_Un_disjoint) (auto intro: finite_subset)
  moreover have "card (V \<union> W) \<le> card A" using assms by (intro card_mono) auto
  ultimately show False using assms(4) by simp
qed

lemma election_inv_safe:
  assumes inv: "election_inv members c" and i: "(i, t) \<in> cl_elected c" and j: "(j, t) \<in> cl_elected c"
  shows "i = j"
proof -
  have el: "k \<in> set members \<and> (\<exists>V. quorum (cl_nodes c k) \<le> card V \<and> (\<forall>v\<in>V. v \<noteq> k \<longrightarrow> granted c v k t))"
    if "(k, t) \<in> cl_elected c" for k
    using inv that unfolding election_inv_def by blast
  have self: "k = l" if "(k, t) \<in> cl_elected c" "granted c k l t" for k l
    using inv that unfolding election_inv_def by blast
  have uni: "granted c v k t \<Longrightarrow> granted c v l t \<Longrightarrow> k = l" for v k l
    using inv unfolding election_inv_def by blast
  have mem: "granted c v k t \<Longrightarrow> v \<in> set members" for v k
    using inv unfolding election_inv_def by blast
  have q: "2 * quorum (cl_nodes c k) > card (set members)" if "k \<in> set members" for k
  proof -
    have "length (others members k) = card (set members - {k})"
      using others_facts [of members k] distinct_card by metis
    also have "\<dots> = card (set members) - 1" using that by simp
    finally show ?thesis using inv by (simp add: election_inv_def quorum_def)
  qed
  obtain V where V: "quorum (cl_nodes c i) \<le> card V" "\<And>v. v \<in> V \<Longrightarrow> v \<noteq> i \<Longrightarrow> granted c v i t"
    using el [OF i] by blast
  obtain W where W: "quorum (cl_nodes c j) \<le> card W" "\<And>v. v \<in> W \<Longrightarrow> v \<noteq> j \<Longrightarrow> granted c v j t"
    using el [OF j] by blast
  have "V \<inter> W \<noteq> {}"
  proof (rule quorums_meet [of _ "set members"])
    show "V \<subseteq> set members" "W \<subseteq> set members" using V(2) W(2) mem el [OF i] el [OF j] by blast+
    show "card (set members) < card V + card W"
      using V(1) W(1) q [of i] q [of j] el [OF i] el [OF j] by linarith
  qed simp
  then obtain v where "v \<in> V" "v \<in> W" by blast
  then show ?thesis
    using V(2) W(2) self [OF i] self [OF j] uni by (metis)
qed

interpretation candidacy: event_invariant candidacy_ok "\<lambda>_ _. True"
  by unfold_locales (use event_ok in \<open>auto simp: election_ok_def\<close>)

end
