(* ===== verification/RaftLog.thy ===== *)
theory RaftLog
  imports RaftFrames
begin

text \<open>
  The log of one Raft node. \<open>raft_wf\<close> is what every operation keeps: the log is contiguous
  behind the snapshot, \<open>snapshot \<le> applied \<le> committed \<le> last\<close>, sizes are within their limits,
  and the same holds for the state on disk. \<open>committed_kept\<close> says what no operation may do: take
  the commit index back or change an entry up to it.
\<close>

section \<open>Well-formed state\<close>

definition stable_base :: "stable_state \<Rightarrow> nat" where
  "stable_base s = (case st_snapshot s of None \<Rightarrow> 0 | Some sn \<Rightarrow> sn_index sn)"

fun contiguous :: "nat \<Rightarrow> log_entry list \<Rightarrow> bool" where
  "contiguous base [] \<longleftrightarrow> True"
| "contiguous base (e # es) \<longleftrightarrow> le_index e = base + 1 \<and> contiguous (base + 1) es"

definition snapshot_wf :: "snapshot option \<Rightarrow> bool" where
  "snapshot_wf so = (case so of None \<Rightarrow> True
     | Some s \<Rightarrow> 0 < sn_index s \<and> 0 < sn_term s \<and> sn_data s \<noteq> [] \<and> length (sn_data s) \<le> MAX_SNAPSHOT_BYTES)"

definition entries_small :: "log_entry list \<Rightarrow> bool" where
  "entries_small es \<longleftrightarrow> list_all (\<lambda>e. length (le_data e) \<le> MAX_ENTRY_BYTES) es"

definition stable_wf :: "stable_state \<Rightarrow> bool" where
  "stable_wf s \<longleftrightarrow> contiguous (stable_base s) (st_log s) \<and> entries_small (st_log s) \<and>
     snapshot_wf (st_snapshot s) \<and>
     stable_base s \<le> st_last_applied s \<and> st_last_applied s \<le> st_commit_index s \<and>
     st_commit_index s \<le> stable_base s + length (st_log s) \<and>
     stable_base s + length (st_log s) \<le> U64_MAX \<and> stable_base s < U64_MAX"

definition incoming_wf :: "incoming_snapshot option \<Rightarrow> bool" where
  "incoming_wf io = (case io of None \<Rightarrow> True
     | Some inc \<Rightarrow> 0 < inc_index inc \<and> 0 < inc_term inc \<and> length (inc_data inc) \<le> MAX_SNAPSHOT_BYTES \<and>
         (inc_complete inc \<longrightarrow> inc_data inc \<noteq> []))"

definition raft_wf :: "raft_node \<Rightarrow> bool" where
  "raft_wf n \<longleftrightarrow> stable_wf (stable_view n) \<and> incoming_wf (rn_incoming n) \<and> stable_wf (rn_durable n)"

lemma stable_base_view [simp]: "stable_base (stable_view n) = snapshot_index n"
  by (simp add: stable_base_def stable_view_def snapshot_index_def)

lemma stable_view_fields [simp]:
  "st_current_term (stable_view n) = rn_current_term n" "st_voted_for (stable_view n) = rn_voted_for n"
  "st_log (stable_view n) = rn_log n" "st_commit_index (stable_view n) = rn_commit_index n"
  "st_last_applied (stable_view n) = rn_last_applied n" "st_boot_counter (stable_view n) = rn_boot_counter n"
  "st_snapshot (stable_view n) = rn_snapshot n"
  by (simp_all add: stable_view_def)

lemma contiguous_append [simp]:
  "contiguous base (es @ fs) \<longleftrightarrow> contiguous base es \<and> contiguous (base + length es) fs"
  by (induction es arbitrary: base) auto

lemma contiguous_nth: "contiguous base es \<Longrightarrow> k < length es \<Longrightarrow> le_index (es ! k) = base + k + 1"
  by (induction es arbitrary: base k) (auto simp: nth_Cons split: nat.splits)

lemma contiguous_last:
  "contiguous base es \<Longrightarrow> es \<noteq> [] \<Longrightarrow> le_index (List.last es) = base + length es"
  by (simp add: last_conv_nth contiguous_nth)

lemma contiguous_take: "contiguous base es \<Longrightarrow> contiguous base (take k es)"
  using contiguous_append [of base "take k es" "drop k es"] by simp

lemma contiguous_drop: "contiguous base es \<Longrightarrow> k \<le> length es \<Longrightarrow> contiguous (base + k) (drop k es)"
  using contiguous_append [of base "take k es" "drop k es"] by simp

lemma last_index_wf: "contiguous (snapshot_index n) (rn_log n) \<Longrightarrow> last_index n = snapshot_index n + length (rn_log n)"
  by (simp add: last_index_def contiguous_last)

lemma last_index_view: "stable_wf (stable_view n) \<Longrightarrow> last_index n = snapshot_index n + length (rn_log n)"
  by (simp add: stable_wf_def last_index_wf)

lemma entries_small_append [simp]: "entries_small (es @ fs) \<longleftrightarrow> entries_small es \<and> entries_small fs"
  by (simp add: entries_small_def)

lemma entries_small_sub: "entries_small es \<Longrightarrow> entries_small (take k es)" "entries_small es \<Longrightarrow> entries_small (drop k es)"
  by (auto simp: entries_small_def list_all_iff dest: in_set_takeD in_set_dropD)

section \<open>What may change\<close>

text \<open>The entry a node holds at an index after its snapshot.\<close>

definition entry_at :: "raft_node \<Rightarrow> nat \<Rightarrow> log_entry option" where
  "entry_at n i = (if snapshot_index n < i \<and> i - snapshot_index n \<le> length (rn_log n)
     then Some (rn_log n ! (i - snapshot_index n - 1)) else None)"

text \<open>
  Committed entries stay: the commit index does not go back, and up to the old commit index
  the node still holds the same entries, except those its snapshot now stands for.
\<close>

definition committed_kept :: "raft_node \<Rightarrow> raft_node \<Rightarrow> bool" where
  "committed_kept n n' \<longleftrightarrow> rn_commit_index n \<le> rn_commit_index n' \<and> snapshot_index n \<le> snapshot_index n' \<and>
     rn_last_applied n \<le> rn_last_applied n' \<and>
     (\<forall>i. snapshot_index n' < i \<longrightarrow> i \<le> rn_commit_index n \<longrightarrow> entry_at n' i = entry_at n i)"

definition log_kept :: "raft_node \<Rightarrow> raft_node \<Rightarrow> bool" where
  "log_kept n n' \<longleftrightarrow> (raft_wf n \<longrightarrow> raft_wf n' \<and> committed_kept n n')"

lemma committed_kept_refl: "rn_commit_index n' = rn_commit_index n \<Longrightarrow> rn_last_applied n' = rn_last_applied n \<Longrightarrow>
  rn_snapshot n' = rn_snapshot n \<Longrightarrow> rn_log n' = rn_log n \<Longrightarrow> committed_kept n n'"
  by (simp add: committed_kept_def entry_at_def snapshot_index_def)

lemma committed_kept_trans: "committed_kept a b \<Longrightarrow> committed_kept b c \<Longrightarrow> committed_kept a c"
  by (auto simp: committed_kept_def)

lemma log_kept_trans: "log_kept a b \<Longrightarrow> log_kept b c \<Longrightarrow> log_kept a c"
  by (auto simp: log_kept_def intro: committed_kept_trans)

definition same_log :: "raft_node \<Rightarrow> raft_node \<Rightarrow> bool" where
  "same_log n m \<longleftrightarrow> rn_log m = rn_log n \<and> rn_commit_index m = rn_commit_index n \<and>
     rn_last_applied m = rn_last_applied n \<and> rn_snapshot m = rn_snapshot n \<and> rn_durable m = rn_durable n \<and>
     (rn_incoming m = rn_incoming n \<or> rn_incoming m = None) \<and>
     (rn_fatal m = rn_fatal n \<or> rn_fatal m \<noteq> None)"

lemma stable_wf_cong:
  "st_log s = st_log s' \<Longrightarrow> st_snapshot s = st_snapshot s' \<Longrightarrow> st_last_applied s = st_last_applied s' \<Longrightarrow>
   st_commit_index s = st_commit_index s' \<Longrightarrow> stable_wf s = stable_wf s'"
  by (simp add: stable_wf_def stable_base_def)

lemma log_kept_same: "same_log n m \<Longrightarrow> log_kept n m"
proof -
  assume s: "same_log n m"
  have "stable_wf (stable_view m) = stable_wf (stable_view n)"
    using s by (intro stable_wf_cong) (simp_all add: same_log_def)
  with s show ?thesis
    by (auto simp: log_kept_def raft_wf_def same_log_def incoming_wf_def intro!: committed_kept_refl)
qed

lemma log_kept_persist:
  assumes p: "persist disk m = (ok, n')" and m: "log_kept n m"
  shows "log_kept n n'"
proof (cases rule: persist_cases [where disk = disk and n = m])
  case memory
  then show ?thesis using p m by simp
next
  case ok
  then have n': "n' = persisted m" using p by simp
  have v: "stable_view n' = stable_view m" by (simp add: n' stable_view_def)
  have d: "rn_durable n' = stable_view m" "rn_incoming n' = rn_incoming m" by (simp_all add: n')
  have "committed_kept m n'" by (intro committed_kept_refl) (simp_all add: n')
  with m v d show ?thesis
    by (auto simp: log_kept_def raft_wf_def intro: committed_kept_trans)
next
  case (failed e)
  then have n': "n' = fail_stop (requested False m) (DiskError e)" using p by simp
  then have "same_log m n'" by (simp add: same_log_def)
  then show ?thesis using m log_kept_same log_kept_trans by blast
qed

lemma log_kept_snd_persist: "log_kept n m \<Longrightarrow> log_kept n (snd (persist disk m))"
  using log_kept_persist [of disk m "fst (persist disk m)" "snd (persist disk m)" n] by simp

text \<open>A change of the log behind the commit point, or of the indexes, with the snapshot kept.\<close>

definition extends :: "raft_node \<Rightarrow> raft_node \<Rightarrow> bool" where
  "extends n m \<longleftrightarrow> rn_snapshot m = rn_snapshot n \<and> rn_durable m = rn_durable n \<and>
     incoming_wf (rn_incoming m) \<and>
     rn_last_applied n \<le> rn_last_applied m \<and> rn_last_applied m \<le> rn_commit_index m \<and>
     rn_commit_index n \<le> rn_commit_index m \<and> rn_commit_index m \<le> snapshot_index n + length (rn_log m) \<and>
     contiguous (snapshot_index n) (rn_log m) \<and> entries_small (rn_log m) \<and>
     snapshot_index n + length (rn_log m) \<le> U64_MAX \<and>
     take (rn_commit_index n - snapshot_index n) (rn_log m) =
     take (rn_commit_index n - snapshot_index n) (rn_log n)"

lemma extends_kept:
  assumes "raft_wf n \<Longrightarrow> extends n m"
  shows "log_kept n m"
proof -
  { assume wf: "raft_wf n"
    then have e: "extends n m" by (rule assms)
    have b: "snapshot_index m = snapshot_index n" using e by (simp add: extends_def snapshot_index_def)
    have "stable_wf (stable_view m)"
      using e wf by (auto simp: raft_wf_def stable_wf_def b extends_def)
    then have wm: "raft_wf m" using e wf by (simp add: raft_wf_def extends_def)
    have nth: "rn_log m ! k = rn_log n ! k" if "k < rn_commit_index n - snapshot_index n" for k
    proof -
      have "take (rn_commit_index n - snapshot_index n) (rn_log m) ! k =
            take (rn_commit_index n - snapshot_index n) (rn_log n) ! k"
        using e by (simp add: extends_def)
      with that show ?thesis by simp
    qed
    have "committed_kept n m"
      using e wf nth by (auto simp: committed_kept_def extends_def b entry_at_def raft_wf_def stable_wf_def)
    with wm have "raft_wf m \<and> committed_kept n m" by simp }
  then show ?thesis by (simp add: log_kept_def)
qed

lemma extends_refl: "raft_wf n \<Longrightarrow> extends n n"
  by (simp add: extends_def raft_wf_def stable_wf_def)

lemma advance_commit_kept: "log_kept n (advance_commit n)"
proof (rule extends_kept)
  assume wf: "raft_wf n"
  show "extends n (advance_commit n)"
  proof (cases n rule: advance_commit_cases)
    case same
    then show ?thesis using wf extends_refl by simp
  next
    case (moved index)
    have "last_index n = snapshot_index n + length (rn_log n)"
      using wf by (simp add: raft_wf_def last_index_view)
    with moved wf show ?thesis
      by (auto simp: extends_def raft_wf_def stable_wf_def sat_add_def)
  qed
qed

lemma push_kept:
  assumes "checked_add (last_index n) 1 = Some i"
  shows "log_kept n (n\<lparr>rn_log := rn_log n @ [\<lparr>le_term = t, le_index = i, le_data = []\<rparr>]\<rparr>)"
proof (rule extends_kept)
  assume wf: "raft_wf n"
  have "last_index n = snapshot_index n + length (rn_log n)"
    using wf by (simp add: raft_wf_def last_index_view)
  with assms wf show "extends n (n\<lparr>rn_log := rn_log n @ [\<lparr>le_term = t, le_index = i, le_data = []\<rparr>]\<rparr>)"
    by (auto simp: extends_def raft_wf_def stable_wf_def checked_add_def U64_MAX_def entries_small_def
        split: if_splits)
qed


section \<open>Elections\<close>

lemma lead_same: "same_log n (lead n)"
  by (simp add: same_log_def lead_def)

lemma fail_stop_same: "same_log n (fail_stop n e)"
  by (simp add: same_log_def)

lemma last_index_lead: "last_index (lead n) = last_index n"
  by (simp add: last_index_def lead_def snapshot_index_def)

lemma become_leader_kept: "log_kept n (become_leader disk n)"
proof -
  have l: "log_kept n (lead n)" by (intro log_kept_same lead_same)
  have f: "log_kept n (fail_stop (lead n) e)" for e
    using l log_kept_same [OF fail_stop_same] log_kept_trans by blast
  show ?thesis
  proof (cases "length (rn_log n) \<ge> MAX_LOG_ENTRIES")
    case True
    then show ?thesis using f by (simp add: become_leader_def)
  next
    case False
    show ?thesis
    proof (cases "checked_add (last_index n) 1")
      case None
      then show ?thesis using f False by (simp add: become_leader_def)
    next
      case (Some i)
      have "log_kept n (push_noop i (lead n))"
        unfolding push_noop_def
        by (rule log_kept_trans [OF log_kept_trans [OF l push_kept] advance_commit_kept])
           (use Some in \<open>simp add: last_index_lead\<close>)
      then have p: "log_kept n (snd (persist disk (push_noop i (lead n))))" by (rule log_kept_snd_persist)
      have "log_kept m (init_progress m)" for m
        by (intro log_kept_same) (simp add: same_log_def init_progress_def Let_def)
      then have "log_kept n (init_progress (snd (persist disk (push_noop i (lead n)))))"
        using p log_kept_trans by blast
      with p False Some show ?thesis
        by (cases "persist disk (push_noop i (lead n))") (simp add: become_leader_def split: bool.splits)
    qed
  qed
qed

lemma start_election_kept: "log_kept n (snd (start_election disk n))"
proof (cases "checked_add (rn_current_term n) 1")
  case None
  then show ?thesis by (simp add: start_election_def log_kept_same fail_stop_same)
next
  case (Some t)
  obtain ok m where p: "persist disk (stand t n) = (ok, m)" by fastforce
  have "log_kept n (stand t n)" by (intro log_kept_same) (simp add: same_log_def stand_def)
  with p have m: "log_kept n m" by (rule log_kept_persist)
  then have "log_kept n (become_leader disk m)" using become_leader_kept log_kept_trans by blast
  with m p Some show ?thesis by (simp add: start_election_def split: bool.splits)
qed

lemma tick_kept: "log_kept n (snd (tick disk n))"
proof -
  have s: "log_kept n (n\<lparr>rn_election_elapsed := k\<rparr>)" "log_kept n (n\<lparr>rn_heartbeat_elapsed := k\<rparr>)"
    "log_kept n n" for k
    by (intro log_kept_same; simp add: same_log_def)+
  have "log_kept n (snd (start_election disk (n\<lparr>rn_election_elapsed := k\<rparr>)))" for k
    using s(1) start_election_kept log_kept_trans by blast
  with s show ?thesis by (cases "rn_role n") (simp_all add: tick_def Let_def)
qed

lemma request_vote_kept: "log_kept n (snd (handle_request_vote disk t c li lt n))"
proof -
  let ?m = "reset_election_timeout (n\<lparr>rn_voted_for := Some c\<rparr>)"
  have "log_kept n ?m" by (intro log_kept_same) (simp add: same_log_def)
  then have "log_kept n (snd (persist disk ?m))" by (rule log_kept_snd_persist)
  moreover have "log_kept n n" by (intro log_kept_same) (simp add: same_log_def)
  ultimately show ?thesis
    by (cases "persist disk ?m") (simp add: handle_request_vote_def Let_def split: bool.splits)
qed

lemma vote_resp_kept: "log_kept n (snd (handle_vote_resp disk from t g n))"
proof -
  have "log_kept n (n\<lparr>rn_votes := v\<rparr>)" "log_kept n n" for v
    by (intro log_kept_same; simp add: same_log_def)+
  moreover from this have "log_kept n (become_leader disk (n\<lparr>rn_votes := v\<rparr>))" for v
    using become_leader_kept log_kept_trans by blast
  ultimately show ?thesis by (simp add: handle_vote_resp_def Let_def)
qed


section \<open>Appending\<close>

definition u64_entries :: "log_entry list \<Rightarrow> bool" where
  "u64_entries es \<longleftrightarrow> list_all (\<lambda>e. le_index e \<le> U64_MAX) es"

definition loop_ok :: "raft_node \<Rightarrow> log_entry list \<Rightarrow> bool" where
  "loop_ok n es \<longleftrightarrow> contiguous (snapshot_index n) es \<and> entries_small es \<and>
     rn_commit_index n \<le> snapshot_index n + length es \<and> snapshot_index n + length es \<le> U64_MAX \<and>
     take (rn_commit_index n - snapshot_index n) es = take (rn_commit_index n - snapshot_index n) (rn_log n)"

lemma loop_ok_trans:
  "loop_ok n es \<Longrightarrow> loop_ok (n\<lparr>rn_log := es\<rparr>) fs \<Longrightarrow> loop_ok n fs"
  by (simp add: loop_ok_def snapshot_index_def)

lemma loop_ok_update [simp]: "loop_ok (n\<lparr>rn_durable_log_len := d\<rparr>) fs = loop_ok n fs"
  by (simp add: loop_ok_def)

lemma loop_ok_cut:
  assumes "loop_ok n (rn_log n)" "snapshot_index n < le_index e" "snapshot_index n < U64_MAX"
    "rn_commit_index n < le_index e" "le_index e \<le> U64_MAX" "length (le_data e) \<le> MAX_ENTRY_BYTES"
    "le_index e - (snapshot_index n + 1) \<le> length (rn_log n)"
  shows "loop_ok n (take (le_index e - (snapshot_index n + 1)) (rn_log n) @ [e])"
proof -
  let ?off = "le_index e - (snapshot_index n + 1)"
  have o: "le_index e = snapshot_index n + ?off + 1" using assms(2) by simp
  have c: "rn_commit_index n \<le> snapshot_index n + ?off" using assms(2,4) by simp
  have l: "length (take ?off (rn_log n)) = ?off" using assms(7) by simp
  show ?thesis
    unfolding loop_ok_def
  proof (intro conjI)
    show "contiguous (snapshot_index n) (take ?off (rn_log n) @ [e])"
      using assms(1) o l by (simp add: loop_ok_def contiguous_take)
    show "entries_small (take ?off (rn_log n) @ [e])"
      using assms(1,6) by (simp add: loop_ok_def entries_small_sub) (simp add: entries_small_def)
    show "rn_commit_index n \<le> snapshot_index n + length (take ?off (rn_log n) @ [e])"
      using c l by simp
    show "snapshot_index n + length (take ?off (rn_log n) @ [e]) \<le> U64_MAX"
      using o l assms(5) by simp
    show "take (rn_commit_index n - snapshot_index n) (take ?off (rn_log n) @ [e]) =
      take (rn_commit_index n - snapshot_index n) (rn_log n)"
      using c l by (simp add: min_def)
  qed
qed

lemma append_loop_kept:
  "b = snapshot_index n \<Longrightarrow> b < U64_MAX \<Longrightarrow> loop_ok n (rn_log n) \<Longrightarrow>
   u64_entries es \<Longrightarrow> entries_small es \<Longrightarrow>
   loop_ok n (rn_log (snd (append_entries_loop l b es ch n)))"
proof (induction l b es ch n rule: append_entries_loop.induct)
  case (1 l b ch n)
  then show ?case by simp
next
  case (2 l b entry rest ch n)
  let ?off = "le_index entry - sat_add b 1"
  have b1: "sat_add b 1 = b + 1" using 2(5) by (simp add: sat_add_def)
  have e: "le_index entry \<le> U64_MAX" "length (le_data entry) \<le> MAX_ENTRY_BYTES"
      "u64_entries rest" "entries_small rest"
    using 2(7,8) by (simp_all add: u64_entries_def entries_small_def)
  have step: "loop_ok n fs \<Longrightarrow> snapshot_index (n\<lparr>rn_log := fs\<rparr>) = b \<and> loop_ok (n\<lparr>rn_log := fs\<rparr>) fs" for fs
    using 2(4) by (simp add: loop_ok_def snapshot_index_def)
  have grow: "loop_ok n (take ?off (rn_log n) @ [entry])"
    if "\<not> le_index entry < sat_add b 1" "rn_commit_index n < le_index entry" "?off \<le> length (rn_log n)"
    using loop_ok_cut [of n entry] that 2(4-6) e b1 by simp
  consider (low) "le_index entry < sat_add b 1"
    | (rewrite) "\<not> le_index entry < sat_add b 1" "?off < length (rn_log n)"
        "le_term (rn_log n ! ?off) \<noteq> le_term entry \<or> le_data (rn_log n ! ?off) \<noteq> le_data entry"
        "le_index entry \<le> rn_commit_index n"
    | (cut) "\<not> le_index entry < sat_add b 1" "?off < length (rn_log n)"
        "le_term (rn_log n ! ?off) \<noteq> le_term entry \<or> le_data (rn_log n ! ?off) \<noteq> le_data entry"
        "\<not> le_index entry \<le> rn_commit_index n"
    | (keep) "\<not> le_index entry < sat_add b 1" "?off < length (rn_log n)"
        "\<not> (le_term (rn_log n ! ?off) \<noteq> le_term entry \<or> le_data (rn_log n ! ?off) \<noteq> le_data entry)"
    | (push) "\<not> le_index entry < sat_add b 1" "?off = length (rn_log n)"
    | (gap) "\<not> le_index entry < sat_add b 1" "?off > length (rn_log n)"
    by linarith
  then show ?case
  proof cases
    case cut
    have g: "loop_ok n (take ?off (rn_log n) @ [entry])" using grow cut by simp
    let ?m = "n\<lparr>rn_log := take ?off (rn_log n) @ [entry], rn_durable_log_len := min (rn_durable_log_len n) ?off\<rparr>"
    have "loop_ok (n\<lparr>rn_log := take ?off (rn_log n) @ [entry]\<rparr>)
        (rn_log (snd (append_entries_loop l b rest True ?m)))"
      using 2(1) [OF cut(1) refl cut(2,3,4)] step [OF g] 2(5) e by simp
    from loop_ok_trans [OF g this] cut show ?thesis by (simp add: Let_def)
  next
    case keep
    then show ?thesis using 2(2) [OF keep(1) refl keep(2,3)] 2(4-6) e by (simp add: Let_def)
  next
    case push
    have nl: "\<not> ?off < length (rn_log n)" using push(2) by simp
    have "rn_commit_index n < le_index entry"
      using push 2(4,6) b1 unfolding loop_ok_def by linarith
    then have g: "loop_ok n (rn_log n @ [entry])" using grow push by simp
    have "loop_ok (n\<lparr>rn_log := rn_log n @ [entry]\<rparr>)
        (rn_log (snd (append_entries_loop l b rest True (n\<lparr>rn_log := rn_log n @ [entry]\<rparr>))))"
      using 2(3) [OF push(1) refl nl push(2)] step [OF g] 2(5) e by simp
    from loop_ok_trans [OF g this] push show ?thesis by (simp add: Let_def)
  qed (use 2(6) in \<open>simp_all add: Let_def\<close>)
qed


lemma wf_loop_ok: "raft_wf n \<Longrightarrow> loop_ok n (rn_log n)"
  by (simp add: raft_wf_def stable_wf_def loop_ok_def)

lemma follow_same: "same_log n (follow l t n)"
  by (simp add: same_log_def follow_def split: option.splits)

lemma same_log_wf: "same_log n m \<Longrightarrow> raft_wf n \<Longrightarrow> raft_wf m"
  using log_kept_same by (auto simp: log_kept_def)

lemma append_loop_log_kept:
  assumes loop: "append_entries_loop l (snapshot_index n) es ch n = (res, n')"
    and es: "u64_entries es" "entries_small es"
  shows "log_kept n n'"
proof -
  { assume wf: "raft_wf n"
    have b: "snapshot_index n < U64_MAX" using wf by (simp add: raft_wf_def stable_wf_def)
    have ok: "loop_ok n (rn_log n')"
      using append_loop_kept [OF refl b wf_loop_ok [OF wf] es, of l ch] loop by simp
    have "extends n (n\<lparr>rn_log := rn_log n'\<rparr>)"
      using ok wf by (simp add: extends_def loop_ok_def raft_wf_def stable_wf_def) }
  then have k: "log_kept n (n\<lparr>rn_log := rn_log n'\<rparr>)" by (rule extends_kept)
  have "same_log (n\<lparr>rn_log := rn_log n'\<rparr>) n'"
    using loop by (cases rule: append_entries_loopE) (simp_all add: same_log_def)
  with k show ?thesis using log_kept_same log_kept_trans by blast
qed

lemma commit_kept:
  "log_kept n (if c > rn_commit_index n then n\<lparr>rn_commit_index := min c (last_index n)\<rparr> else n)"
proof (rule extends_kept)
  assume wf: "raft_wf n"
  then have "last_index n = snapshot_index n + length (rn_log n)"
    by (simp add: raft_wf_def last_index_view)
  with wf show "extends n (if c > rn_commit_index n
      then n\<lparr>rn_commit_index := min c (last_index n)\<rparr> else n)"
    by (auto simp: extends_def raft_wf_def stable_wf_def)
qed

lemma finish_append_kept: "log_kept n (snd (finish_append disk l c ln ch n))"
proof -
  let ?m = "if c > rn_commit_index n then n\<lparr>rn_commit_index := min c (last_index n)\<rparr> else n"
  have m: "log_kept n ?m" by (rule commit_kept)
  then have p: "log_kept n (snd (persist disk ?m))" by (rule log_kept_snd_persist)
  show ?thesis
  proof (cases "length (rn_log n) > MAX_LOG_ENTRIES")
    case True
    then show ?thesis by (simp add: finish_append_def log_kept_same fail_stop_same)
  next
    case False
    then show ?thesis using m p
      by (cases "persist disk ?m") (simp add: finish_append_def Let_def split: bool.splits)
  qed
qed

lemma handle_append_kept:
  assumes "u64_entries es"
  shows "log_kept n (snd (handle_append disk t l pi pt es c n))"
proof -
  let ?m = "follow l t n"
  have refl: "log_kept n n" by (intro log_kept_same) (simp add: same_log_def)
  have f: "log_kept n ?m" by (intro log_kept_same follow_same)
  obtain res n' where loop: "append_entries_loop l (snapshot_index ?m) es False ?m = (res, n')" by fastforce
  show ?thesis
  proof (cases "entries_small es")
    case True
    have a: "log_kept n n'"
      using f append_loop_log_kept [OF loop assms True] log_kept_trans by blast
    then have "log_kept n (snd (finish_append disk l c ln ch n'))" for ln ch
      using finish_append_kept log_kept_trans by blast
    with a loop have e: "log_kept n (snd (case append_entries_loop l (snapshot_index ?m) es False ?m of
        (Inl out, n) \<Rightarrow> (out, n)
      | (Inr ch, n) \<Rightarrow> finish_append disk l c (if es = [] then pi else le_index (List.last es)) ch n))"
      by (simp split: sum.splits)
    show ?thesis
    proof (cases "t = rn_current_term n")
      case True
      then show ?thesis using refl f e by (simp add: handle_append_def Let_def)
    qed (simp add: handle_append_def refl)
  next
    case False
    then have "list_ex (\<lambda>e. length (le_data e) > MAX_ENTRY_BYTES) es"
      by (auto simp: entries_small_def list_all_iff list_ex_iff not_le)
    with refl show ?thesis by (simp add: handle_append_def)
  qed
qed

lemma append_resp_kept: "log_kept n (snd (handle_append_resp from t s mi n))"
proof -
  have u: "log_kept n (n\<lparr>rn_match_index := a, rn_next_index := b\<rparr>)" "log_kept n n"
    "log_kept n (n\<lparr>rn_next_index := b\<rparr>)" for a b
    by (intro log_kept_same; simp add: same_log_def)+
  then have "log_kept n (advance_commit (n\<lparr>rn_match_index := a, rn_next_index := b\<rparr>))" for a b
    using advance_commit_kept log_kept_trans by blast
  with u show ?thesis by (simp add: handle_append_resp_def Let_def)
qed

lemma snapshot_resp_kept: "log_kept n (snd (handle_install_snapshot_resp from t li no inst n))"
proof -
  have u: "log_kept n (n\<lparr>rn_snapshot_offsets := o', rn_match_index := a, rn_next_index := b\<rparr>)" "log_kept n n"
    "log_kept n (n\<lparr>rn_snapshot_offsets := o'\<rparr>)" for a b o'
    by (intro log_kept_same; simp add: same_log_def)+
  then have "log_kept n (advance_commit
      (n\<lparr>rn_snapshot_offsets := o', rn_match_index := a, rn_next_index := b\<rparr>))" for a b o'
    using advance_commit_kept log_kept_trans by blast
  with u show ?thesis by (simp add: handle_install_snapshot_resp_def Let_def split: option.splits)
qed


section \<open>Snapshots\<close>

lemma incoming_kept:
  assumes "raft_wf n \<Longrightarrow> incoming_wf io" "same_log n m"
  shows "log_kept n (m\<lparr>rn_incoming := io\<rparr>)"
proof (rule extends_kept)
  assume wf: "raft_wf n"
  with assms show "extends n (m\<lparr>rn_incoming := io\<rparr>)"
    by (simp add: extends_def same_log_def raft_wf_def stable_wf_def)
qed

lemma receive_chunk_kept:
  assumes inc: "0 < inc_index inc" "0 < inc_term inc" and same: "same_log n m"
    and len: "raft_wf n \<Longrightarrow> length (inc_data inc) \<le> MAX_SNAPSHOT_BYTES"
  shows "log_kept n (snd (receive_chunk inc l li off d dn m))"
proof -
  have a: "log_kept n (m\<lparr>rn_incoming := None\<rparr>)"
    using same by (intro incoming_kept) (simp_all add: incoming_wf_def)
  have r: "log_kept n m" using same by (rule log_kept_same)
  have b: "log_kept n (m\<lparr>rn_incoming := Some (inc\<lparr>inc_data := inc_data inc @ d, inc_complete := dn\<rparr>)\<rparr>)"
    if "\<not> (off \<noteq> length (inc_data inc) \<or> d = [] \<and> \<not> (dn \<and> off > 0) \<or>
        length (inc_data inc) + length d > MAX_SNAPSHOT_BYTES)"
    using that inc same by (intro incoming_kept) (auto simp: incoming_wf_def)
  show ?thesis using a b r by (simp add: receive_chunk_def Let_def)
qed

lemma install_snapshot_kept: "log_kept n (snd (handle_install_snapshot t l li lt off d dn n))"
proof -
  let ?m = "reset_election_timeout (n\<lparr>rn_role := Follower, rn_leader_id := Some l\<rparr>)"
  let ?fresh = "\<lparr>inc_leader = l, inc_leader_term = t, inc_index = li, inc_term = lt, inc_data = [],
    inc_complete = False\<rparr>"
  have same: "same_log n ?m" by (simp add: same_log_def)
  have refl: "log_kept n n" by (intro log_kept_same) (simp add: same_log_def)
  have none: "log_kept n (?m\<lparr>rn_incoming := None\<rparr>)"
    using same by (intro incoming_kept) (simp_all add: incoming_wf_def)
  show ?thesis
  proof (cases "t \<noteq> rn_current_term n \<or> li = 0 \<or> lt = 0 \<or> length d > SNAPSHOT_CHUNK_BYTES")
    case True
    then show ?thesis using refl by (simp only: handle_install_snapshot_def if_True snd_conv)
  next
    case False
    have fresh: "log_kept n (snd (receive_chunk ?fresh l li k d dn (?m\<lparr>rn_incoming := Some ?fresh\<rparr>)))" for k
    proof -
      have "log_kept n (?m\<lparr>rn_incoming := Some ?fresh\<rparr>)"
        using False same by (intro incoming_kept) (simp_all add: incoming_wf_def)
      moreover have "log_kept (?m\<lparr>rn_incoming := Some ?fresh\<rparr>)
          (snd (receive_chunk ?fresh l li k d dn (?m\<lparr>rn_incoming := Some ?fresh\<rparr>)))"
        using False by (intro receive_chunk_kept) (simp_all add: same_log_def)
      ultimately show ?thesis by (rule log_kept_trans)
    qed
    have old: "log_kept n (snd (receive_chunk inc l li off d dn ?m))"
      if "rn_incoming n = Some inc" "inc_index inc = li" "inc_term inc = lt" for inc
      using that False same
      by (intro receive_chunk_kept) (simp_all add: raft_wf_def incoming_wf_def)
    show ?thesis
      using False none fresh old
      by (cases "rn_incoming n") (simp_all add: handle_install_snapshot_def Let_def)
  qed
qed

lemma compacted_kept:
  assumes "rn_last_applied n < U64_MAX" and None: "compact_check n d = None"
  shows "log_kept n (compacted d n)"
proof -
  let ?m = "compacted d n" and ?k = "rn_last_applied n - snapshot_index n"
  have c: "d \<noteq> []" "length d \<le> MAX_SNAPSHOT_BYTES" "snapshot_index n < rn_last_applied n"
    "term_at n (rn_last_applied n) \<noteq> 0" "?k \<le> length (rn_log n)"
    using None by (auto simp: compact_check_def split: if_splits)
  have b: "snapshot_index ?m = rn_last_applied n" by (simp add: compacted_def snapshot_index_def)
  { assume wf: "raft_wf n"
    have "contiguous (snapshot_index n + ?k) (drop ?k (rn_log n))"
      using wf c by (intro contiguous_drop) (simp_all add: raft_wf_def stable_wf_def)
    then have "contiguous (rn_last_applied n) (drop ?k (rn_log n))" using c by simp
    then have "raft_wf ?m"
      using wf c assms by (simp add: raft_wf_def stable_wf_def b snapshot_wf_def entries_small_sub)
        (simp add: compacted_def snapshot_wf_def entries_small_sub)
    moreover have "committed_kept n ?m"
      using wf c unfolding committed_kept_def entry_at_def b
      by (simp add: compacted_def) (auto simp: raft_wf_def stable_wf_def)
    ultimately have "raft_wf ?m \<and> committed_kept n ?m" by simp }
  then show ?thesis by (simp add: log_kept_def)
qed

lemma compact_kept:
  assumes "rn_last_applied n < U64_MAX"
  shows "log_kept n (snd (compact disk d n))"
proof (cases "compact_check n d")
  case (Some e)
  then show ?thesis by (simp add: compact_def log_kept_same same_log_def)
next
  case None
  let ?m = "compacted d n"
  have "log_kept n (snd (persist disk ?m))" using compacted_kept [OF assms None] by (rule log_kept_snd_persist)
  with None show ?thesis by (cases "persist disk ?m") (simp add: compact_def split: bool.splits)
qed

text \<open>
  What the driver has to respect: the position of an installed snapshot is not behind what was
  applied and, when it is not past the commit index, the log agrees with it.
\<close>

definition install_allowed :: "raft_node \<Rightarrow> bool" where
  "install_allowed n = (case rn_incoming n of
       None \<Rightarrow> True
     | Some inc \<Rightarrow> rn_last_applied n \<le> inc_index inc \<and> inc_index inc < U64_MAX \<and>
         (inc_index inc \<le> rn_commit_index n \<longrightarrow> term_at n (inc_index inc) = inc_term inc))"

lemma term_at_range:
  assumes "term_at n i \<noteq> 0"
  shows "snapshot_index n \<le> i \<and> i \<le> snapshot_index n + length (rn_log n)"
  using assms by (auto simp: term_at_def snapshot_index_def Let_def split: option.splits if_splits)

lemma install_kept:
  assumes inc: "rn_incoming n = Some inc" "inc_complete inc" and ok: "install_allowed n"
  shows "log_kept n (install inc n)"
proof -
  let ?m = "install inc n" and ?k = "inc_index inc - snapshot_index n"
  let ?keep = "term_at n (inc_index inc) = inc_term inc \<and> ?k \<le> length (rn_log n)"
  have o: "rn_last_applied n \<le> inc_index inc" "inc_index inc < U64_MAX"
      "inc_index inc \<le> rn_commit_index n \<Longrightarrow> term_at n (inc_index inc) = inc_term inc"
    using ok inc by (simp_all add: install_allowed_def)
  have b: "snapshot_index ?m = inc_index inc" by (simp add: install_def snapshot_index_def Let_def)
  have f: "rn_log ?m = (if ?keep then drop ?k (rn_log n) else [])"
    "rn_commit_index ?m = max (rn_commit_index n) (inc_index inc)" "rn_last_applied ?m = inc_index inc"
    "rn_incoming ?m = rn_incoming n" "rn_durable ?m = rn_durable n"
    "rn_snapshot ?m = Some \<lparr>sn_index = inc_index inc, sn_term = inc_term inc, sn_data = inc_data inc\<rparr>"
    by (simp_all add: install_def Let_def)
  { assume wf: "raft_wf n"
    have w: "contiguous (snapshot_index n) (rn_log n)" "entries_small (rn_log n)"
        "snapshot_index n \<le> rn_last_applied n" "rn_last_applied n \<le> rn_commit_index n"
        "rn_commit_index n \<le> snapshot_index n + length (rn_log n)"
        "snapshot_index n + length (rn_log n) \<le> U64_MAX"
      using wf by (simp_all add: raft_wf_def stable_wf_def)
    have i: "0 < inc_index inc" "0 < inc_term inc" "length (inc_data inc) \<le> MAX_SNAPSHOT_BYTES" "inc_data inc \<noteq> []"
      using wf inc by (simp_all add: raft_wf_def incoming_wf_def)
    have len: "snapshot_index n + ?k = inc_index inc" using w o by simp
    have k: "?keep" if "inc_index inc \<le> rn_commit_index n"
      using o(3) [OF that] w(5) that by auto
    have c: "contiguous (inc_index inc) (rn_log ?m)"
      using contiguous_drop [OF w(1), of ?k] len by (simp add: f)
    have e: "entries_small (rn_log ?m)" using w by (simp add: f entries_small_sub) (simp add: entries_small_def)
    have t: "max (rn_commit_index n) (inc_index inc) \<le> inc_index inc + length (rn_log ?m)"
      using k len w(5) by (cases "inc_index inc \<le> rn_commit_index n") (simp_all add: f(1) max_def)
    have u: "inc_index inc + length (rn_log ?m) \<le> U64_MAX" using o(2) w(6) len by (simp add: f(1))
    have "stable_wf (stable_view ?m)"
      using c e t u i o by (simp add: stable_wf_def b f(2,3,6) snapshot_wf_def)
    then have wm: "raft_wf ?m" using wf by (simp add: raft_wf_def f)
    have "entry_at ?m j = entry_at n j" if "inc_index inc < j" "j \<le> rn_commit_index n" for j
    proof -
      have "?keep" using k that by simp
      then show ?thesis using that len w by (auto simp: entry_at_def b f(1))
    qed
    then have "committed_kept n ?m"
      using o w by (simp add: committed_kept_def b f(2,3))
    with wm have "raft_wf ?m \<and> committed_kept n ?m" by simp }
  then show ?thesis by (simp add: log_kept_def)
qed

lemma finish_install_kept:
  assumes "install_allowed n"
  shows "log_kept n (snd (finish_snapshot_install disk i n))"
proof (cases "incoming_ready n")
  case None
  then show ?thesis by (simp add: finish_snapshot_install_def log_kept_same same_log_def)
next
  case (Some inc)
  then have inc: "rn_incoming n = Some inc" "inc_complete inc"
    by (auto simp: incoming_ready_def split: option.splits if_splits)
  obtain ok m where p: "persist disk (install inc n) = (ok, m)" by fastforce
  have m: "log_kept n m" using p install_kept [OF inc assms] by (rule log_kept_persist)
  moreover have "log_kept m (m\<lparr>rn_incoming := None\<rparr>)"
    by (intro log_kept_same) (simp add: same_log_def)
  ultimately have "log_kept n (m\<lparr>rn_incoming := None\<rparr>)" by (rule log_kept_trans)
  moreover have "log_kept n n" by (intro log_kept_same) (simp add: same_log_def)
  ultimately show ?thesis using m p Some
    by (simp add: finish_snapshot_install_def split: bool.splits)
qed

section \<open>Proposing and applying\<close>

lemma new_entries_snoc:
  "new_entries t i (es @ [d]) = new_entries t i es @ [\<lparr>le_term = t, le_index = i + length es, le_data = d\<rparr>]"
  by (simp add: new_entries_def nth_append)

lemma new_entries_length: "length (new_entries t i es) = length es"
  by (simp add: new_entries_def)

lemma new_entries_contiguous: "contiguous b (new_entries t (b + 1) es)"
  by (induction es rule: rev_induct) (simp add: new_entries_def, simp add: new_entries_snoc new_entries_length)

lemma proposed_kept:
  assumes "propose_check n es = Inr i"
  shows "log_kept n (n\<lparr>rn_log := rn_log n @ new_entries (rn_current_term n) i es\<rparr>)" (is "log_kept n ?m")
proof (rule extends_kept)
  have c: "i = last_index n + 1" "last_index n + 1 + (length es - 1) < 2 ^ 64" "es \<noteq> []"
    "\<not> list_ex (\<lambda>d. d = [] \<or> length d > MAX_ENTRY_BYTES) es"
    using assms by (auto simp: propose_check_def checked_add_def split: if_splits option.splits)
  assume wf: "raft_wf n"
  have l: "last_index n = snapshot_index n + length (rn_log n)"
    using wf by (simp add: raft_wf_def last_index_view)
  have u: "snapshot_index n + length (rn_log n) + length es \<le> U64_MAX"
    using c(2,3) l by (cases es) (simp_all add: U64_MAX_def)
  have s: "entries_small (new_entries t i es)" for t
    using c(4) by (auto simp: entries_small_def new_entries_def list_all_iff list_ex_iff not_less)
  have g: "contiguous (snapshot_index n + length (rn_log n)) (new_entries t i es)" for t
    using new_entries_contiguous [of "last_index n"] c(1) l by simp
  show "extends n ?m"
    using wf l u s g by (simp add: new_entries_length extends_def raft_wf_def stable_wf_def)
qed

lemma propose_kept: "log_kept n (snd (propose_batch disk es n))"
proof (cases "propose_check n es")
  case (Inl e)
  then show ?thesis by (simp add: propose_batch_def log_kept_same same_log_def)
next
  case (Inr i)
  let ?m = "n\<lparr>rn_log := rn_log n @ new_entries (rn_current_term n) i es\<rparr>"
  have "log_kept n (advance_commit ?m)"
    using proposed_kept [OF Inr] advance_commit_kept log_kept_trans by blast
  then have "log_kept n (snd (persist disk (advance_commit ?m)))" by (rule log_kept_snd_persist)
  with Inr show ?thesis
    by (cases "persist disk (advance_commit ?m)") (simp add: propose_batch_def split: bool.splits)
qed

lemma applied_kept:
  assumes "\<not> (f \<noteq> sat_add (rn_last_applied n) 1 \<or> l < f \<or> l > rn_commit_index n)"
  shows "log_kept n (n\<lparr>rn_last_applied := l\<rparr>)"
proof (rule extends_kept)
  assume "raft_wf n"
  with assms show "extends n (n\<lparr>rn_last_applied := l\<rparr>)"
    by (auto simp: extends_def raft_wf_def stable_wf_def sat_add_def min_def split: if_splits)
qed

lemma mark_applied_kept: "log_kept n (snd (mark_applied_batch disk f l n))"
proof (cases "f \<noteq> sat_add (rn_last_applied n) 1 \<or> l < f \<or> l > rn_commit_index n")
  case True
  then show ?thesis by (auto simp: mark_applied_batch_def log_kept_same same_log_def)
next
  case False
  have "log_kept n (snd (persist disk (n\<lparr>rn_last_applied := l\<rparr>)))"
    using applied_kept [OF False] by (rule log_kept_snd_persist)
  with False show ?thesis
    by (cases "persist disk (n\<lparr>rn_last_applied := l\<rparr>)") (simp add: mark_applied_batch_def split: bool.splits)
qed

lemma boot_session_kept: "log_kept n (snd (next_boot_session disk now n))"
proof -
  have "log_kept n (snd (persist disk (n\<lparr>rn_boot_counter := k\<rparr>)))" for k
    by (intro log_kept_snd_persist log_kept_same) (simp add: same_log_def)
  moreover have "log_kept n n" by (intro log_kept_same) (simp add: same_log_def)
  ultimately show ?thesis
    by (auto simp: next_boot_session_def split: option.splits prod.splits bool.splits)
       (metis snd_conv)+
qed

section \<open>Every operation\<close>

fun message_allowed :: "msg \<Rightarrow> bool" where
  "message_allowed (AppendEntries t l pi pt es c) \<longleftrightarrow> u64_entries es"
| "message_allowed _ \<longleftrightarrow> True"

fun event_allowed :: "raft_event \<Rightarrow> raft_node \<Rightarrow> bool" where
  "event_allowed (Receive from m) n \<longleftrightarrow> message_allowed m"
| "event_allowed (Compact d) n \<longleftrightarrow> rn_last_applied n < U64_MAX"
| "event_allowed (FinishInstall i) n \<longleftrightarrow> install_allowed n"
| "event_allowed _ n \<longleftrightarrow> True"

lemma handle_kept: "message_allowed m \<Longrightarrow> log_kept n (snd (handle disk from m n))"
  by (cases m) (simp_all add: request_vote_kept vote_resp_kept handle_append_kept append_resp_kept
      install_snapshot_kept snapshot_resp_kept)

lemma raft_step_kept: 
  assumes "message_allowed m"
  shows "log_kept n (snd (raft_step disk from m n))"
proof -
  obtain ok n1 where o: "observe_term disk (msg_term m) n = (ok, n1)" by fastforce
  have refl: "log_kept n n" by (intro log_kept_same) (simp add: same_log_def)
  have "log_kept n (reset_election_timeout
             (n\<lparr>rn_current_term := t, rn_role := Follower, rn_voted_for := None,
               rn_leader_id := None, rn_incoming := None\<rparr>))" for t
    by (intro log_kept_same) (simp add: same_log_def)
  then have n1: "log_kept n n1"
    using o refl by (auto simp: observe_term_def intro: log_kept_persist split: if_splits)
  then have "log_kept n (snd (handle disk from m n1))"
    using handle_kept [OF assms] log_kept_trans by blast
  with refl n1 o show ?thesis by (simp add: raft_step_def split: bool.splits)
qed

lemma apply_event_kept:
  assumes "event_allowed ev n" "apply_event disk ev n = (outs, n')"
  shows "log_kept n n'"
proof -
  have "log_kept n (snd (apply_event disk ev n))"
  proof (cases ev)
    case (FinishInstall i)
    with assms(1) finish_install_kept [of n disk i] show ?thesis
      by (cases "finish_snapshot_install disk i n") (simp split: sum.splits)
  next
    case ForceReplicate
    have "log_kept n (n\<lparr>rn_heartbeat_elapsed := 0\<rparr>)" "log_kept n n"
      by (intro log_kept_same; simp add: same_log_def)+
    with ForceReplicate show ?thesis by (simp add: force_replicate_def)
  qed (use assms(1) in \<open>simp_all add: tick_kept raft_step_kept propose_kept compact_kept
      mark_applied_kept boot_session_kept log_kept_same fail_stop_same\<close>)
  with assms(2) show ?thesis by simp
qed

interpretation wf: event_invariant raft_wf event_allowed
proof
  fix n ev disk outs n'
  assume "raft_wf n" "event_allowed ev n" "apply_event disk ev n = (outs, n')"
  then show "raft_wf n'" using apply_event_kept unfolding log_kept_def by blast
qed

lemma run_committed_kept:
  "raft_wf n \<Longrightarrow> allowed_run event_allowed evs n \<Longrightarrow> committed_kept n (run_events evs n)"
proof (induction evs arbitrary: n)
  case Nil
  then show ?case by (simp add: committed_kept_refl)
next
  case (Cons de evs)
  obtain disk ev where de: "de = (disk, ev)" by fastforce
  obtain outs m where m: "apply_event disk ev n = (outs, m)" by fastforce
  have "log_kept n m" using Cons.prems de m by (intro apply_event_kept) simp_all
  then have "raft_wf m" "committed_kept n m" using Cons.prems by (simp_all add: log_kept_def)
  moreover have "committed_kept m (run_events evs m)"
    using Cons de m calculation(1) by simp
  ultimately show ?case using de m committed_kept_trans by simp
qed

lemma raft_new_wf: "raft_wf (raft_new i peers cfg now)"
proof -
  have "stable_wf stable_default"
    by (simp add: stable_wf_def stable_default_def stable_base_def entries_small_def snapshot_wf_def U64_MAX_def)
  moreover have "stable_view (raft_new i peers cfg now) = stable_default"
    by (simp add: raft_new_def from_stable_def stable_view_def stable_default_def)
  ultimately show ?thesis
    by (simp add: raft_wf_def) (simp add: raft_new_def from_stable_def incoming_wf_def)
qed

end
