(* ===== verification/RaftProgress.thy ===== *)
theory RaftProgress
  imports RaftLog
begin

text \<open>
  Progress and replication facts of one Raft node: election timers fire within the announced
  ceiling, batches respect their limits, a positive append answer means that the follower holds
  every entry of the message, and a snapshot sent in chunks arrives whole.
\<close>

section \<open>Timers\<close>

lemma reset_timeout_bounds:
  assumes "election_base (rn_cfg n) \<le> U32_MAX"
  shows "2 \<le> rn_election_timeout (reset_election_timeout n)"
    "rn_election_timeout (reset_election_timeout n) \<le> election_timeout_ceiling n"
proof -
  let ?b = "max (election_base (rn_cfg n)) 2"
  have j: "unat x mod ?b < ?b" for x :: u64 by simp
  have t: "\<exists>x :: u64. rn_election_timeout (reset_election_timeout n) = max (sat_add32 ?b (unat x mod ?b)) 2"
    by (auto simp: reset_election_timeout_def next_random_def Let_def)
  then show "2 \<le> rn_election_timeout (reset_election_timeout n)" by auto
  obtain x :: u64 where x: "rn_election_timeout (reset_election_timeout n) = max (sat_add32 ?b (unat x mod ?b)) 2"
    using t by blast
  have "sat_add32 ?b (unat x mod ?b) \<le> election_timeout_ceiling n"
    using j [of x] unfolding sat_add32_def election_timeout_ceiling_def by linarith
  moreover have "2 \<le> election_timeout_ceiling n" by (simp add: election_timeout_ceiling_def U32_MAX_def)
  ultimately show "rn_election_timeout (reset_election_timeout n) \<le> election_timeout_ceiling n"
    by (simp add: x)
qed

lemma become_leader_term: "rn_current_term (become_leader disk n) = rn_current_term n"
proof -
  have "rn_current_term (snd (persist disk (push_noop i (lead n)))) = rn_current_term n" for i
    using persist_fields(4) [of disk "push_noop i (lead n)" "fst (persist disk (push_noop i (lead n)))"
        "snd (persist disk (push_noop i (lead n)))"]
    by (simp add: push_noop_def lead_def)
  then show ?thesis
    by (auto simp: become_leader_def lead_def init_progress_def Let_def
        split: option.splits prod.splits bool.splits) (metis snd_conv)+
qed

fun ticks :: "nat \<Rightarrow> disk \<Rightarrow> raft_node \<Rightarrow> raft_node" where
  "ticks 0 disk n = n"
| "ticks (Suc k) disk n = ticks k disk (snd (tick disk n))"

text \<open>The node moved on from term \<open>t\<close>, or stopped.\<close>

definition moved_on :: "nat \<Rightarrow> raft_node \<Rightarrow> bool" where
  "moved_on t n \<longleftrightarrow> rn_fatal n \<noteq> None \<or> t < rn_current_term n"

lemma start_election_moves: "moved_on (rn_current_term n) (snd (start_election disk n))"
proof (cases "checked_add (rn_current_term n) 1")
  case None
  then show ?thesis by (simp add: start_election_def moved_on_def)
next
  case (Some t)
  then have t: "t = rn_current_term n + 1" by (auto simp: checked_add_def split: if_splits)
  obtain ok m where p: "persist disk (stand t n) = (ok, m)" by fastforce
  have "rn_current_term m = t" using persist_fields(4) [OF p] by (simp add: stand_def)
  with p t Some show ?thesis
    by (auto simp: start_election_def moved_on_def become_leader_term split: bool.splits)
qed

lemma ticks_elect:
  assumes "rn_fatal n = None" "rn_role n \<noteq> Leader" "rn_election_timeout n \<le> U32_MAX"
    and "rn_election_timeout n \<le> rn_election_elapsed n + Suc k" "rn_election_elapsed n \<le> U32_MAX"
  shows "\<exists>j \<le> Suc k. moved_on (rn_current_term n) (ticks j disk n)"
  using assms
proof (induction k arbitrary: n)
  case (0 n)
  let ?m = "n\<lparr>rn_election_elapsed := sat_add32 (rn_election_elapsed n) 1\<rparr>"
  have "rn_election_timeout n \<le> sat_add32 (rn_election_elapsed n) 1" using 0 by (simp add: sat_add32_def)
  then have "tick disk n = start_election disk ?m"
    using 0 by (cases "rn_role n") (simp_all add: tick_def Let_def)
  moreover have "moved_on (rn_current_term n) (snd (start_election disk ?m))"
    using start_election_moves [of ?m disk] by simp
  ultimately show ?case by (intro exI [of _ 1]) simp
next
  case (Suc k n)
  let ?m = "n\<lparr>rn_election_elapsed := sat_add32 (rn_election_elapsed n) 1\<rparr>"
  show ?case
  proof (cases "rn_election_timeout n \<le> sat_add32 (rn_election_elapsed n) 1")
    case True
    then have "tick disk n = start_election disk ?m"
      using Suc.prems by (cases "rn_role n") (simp_all add: tick_def Let_def)
    moreover have "moved_on (rn_current_term n) (snd (start_election disk ?m))"
      using start_election_moves [of ?m disk] by simp
    ultimately show ?thesis by (intro exI [of _ 1]) simp
  next
    case False
    then have t: "snd (tick disk n) = ?m"
      using Suc.prems by (cases "rn_role n") (simp_all add: tick_def Let_def)
    have e: "sat_add32 (rn_election_elapsed n) 1 = rn_election_elapsed n + 1"
      using False Suc.prems(3) by (simp add: sat_add32_def)
    have "\<exists>j \<le> Suc k. moved_on (rn_current_term ?m) (ticks j disk ?m)"
      using Suc.prems False e by (intro Suc.IH) simp_all
    then obtain j where "j \<le> Suc k" "moved_on (rn_current_term n) (ticks j disk ?m)" by auto
    then show ?thesis using t by (intro exI [of _ "Suc j"]) simp
  qed
qed

section \<open>Batches\<close>

lemma collect_batch_bounds:
  assumes "length acc \<le> MAX_APPEND_ENTRIES" "sum_list (map encoded_size acc) = nbytes" "nbytes \<le> MAX_APPEND_BYTES"
  shows "length (collect_batch es acc nbytes) \<le> MAX_APPEND_ENTRIES \<and>
     sum_list (map encoded_size (collect_batch es acc nbytes)) \<le> MAX_APPEND_BYTES \<and>
     (\<exists>k. collect_batch es acc nbytes = acc @ take k es)"
  using assms
proof (induction es acc nbytes rule: collect_batch.induct)
  case (1 entries nbytes)
  then show ?case by simp
next
  case (2 entry rest entries nbytes)
  let ?stop = "entries \<noteq> [] \<and> (length entries \<ge> MAX_APPEND_ENTRIES \<or> nbytes + encoded_size entry > MAX_APPEND_BYTES)"
  show ?case
  proof (cases "?stop \<or> encoded_size entry > MAX_APPEND_BYTES")
    case True
    then show ?thesis using 2(2-4) by (auto simp: Let_def intro: exI [of _ 0])
  next
    case False
    have room: "length (entries @ [entry]) \<le> MAX_APPEND_ENTRIES" "nbytes + encoded_size entry \<le> MAX_APPEND_BYTES"
      using False 2(3,4) by (auto simp: MAX_APPEND_ENTRIES_def not_le)
    have "length (collect_batch rest (entries @ [entry]) (nbytes + encoded_size entry)) \<le> MAX_APPEND_ENTRIES \<and>
     sum_list (map encoded_size (collect_batch rest (entries @ [entry]) (nbytes + encoded_size entry))) \<le> MAX_APPEND_BYTES \<and>
     (\<exists>k. collect_batch rest (entries @ [entry]) (nbytes + encoded_size entry) = (entries @ [entry]) @ take k rest)"
      using False room 2(3) by (intro 2(1)) auto
    moreover have "collect_batch (entry # rest) entries nbytes =
        collect_batch rest (entries @ [entry]) (nbytes + encoded_size entry)"
      using False by (auto simp: Let_def)
    moreover have "(entries @ [entry]) @ take k rest = entries @ take (Suc k) (entry # rest)" for k by simp
    ultimately show ?thesis by metis
  qed
qed


section \<open>What a successful append leaves behind\<close>

definition holds :: "raft_node \<Rightarrow> log_entry \<Rightarrow> bool" where
  "holds n e \<longleftrightarrow> snapshot_index n < le_index e \<and>
     (let off = le_index e - snapshot_index n - 1 in
      off < length (rn_log n) \<and> le_term (rn_log n ! off) = le_term e \<and> le_data (rn_log n ! off) = le_data e)"

lemma holds_cong: "rn_log m = rn_log n \<Longrightarrow> rn_snapshot m = rn_snapshot n \<Longrightarrow> holds m = holds n"
  by (simp add: fun_eq_iff holds_def snapshot_index_def)

lemma holds_update [simp]: "holds (n\<lparr>rn_durable_log_len := d\<rparr>) = holds n"
  by (rule holds_cong) simp_all

text \<open>The loop, once past an entry, keeps it: later entries have larger indexes.\<close>

lemma append_loop_keeps:
  "append_entries_loop l b es ch n = (Inr ch', n') \<Longrightarrow> b = snapshot_index n \<Longrightarrow> b < U64_MAX \<Longrightarrow>
   (\<forall>e \<in> set es. le_index x < le_index e) \<Longrightarrow> holds n x \<Longrightarrow> holds n' x"
proof (induction l b es ch n arbitrary: ch' n' rule: append_entries_loop.induct)
  case (1 l b ch n)
  then show ?case by simp
next
  case (2 l b entry rest ch n)
  let ?off = "le_index entry - sat_add b 1"
  have b1: "sat_add b 1 = b + 1" using 2(6) by (simp add: sat_add_def)
  have later: "le_index x < le_index entry" "\<forall>e \<in> set rest. le_index x < le_index e" using 2(7) by auto
  have cutk: "holds (n\<lparr>rn_log := take ?off (rn_log n) @ [entry]\<rparr>) x" if "?off \<le> length (rn_log n)"
    using 2(5,8) later(1) that b1
    by (auto simp: holds_def Let_def snapshot_index_def nth_append)
  consider (cut) "\<not> le_index entry < sat_add b 1" "?off < length (rn_log n)"
        "le_term (rn_log n ! ?off) \<noteq> le_term entry \<or> le_data (rn_log n ! ?off) \<noteq> le_data entry"
        "\<not> le_index entry \<le> rn_commit_index n"
    | (keep) "\<not> le_index entry < sat_add b 1" "?off < length (rn_log n)"
        "\<not> (le_term (rn_log n ! ?off) \<noteq> le_term entry \<or> le_data (rn_log n ! ?off) \<noteq> le_data entry)"
    | (push) "\<not> le_index entry < sat_add b 1" "\<not> ?off < length (rn_log n)" "?off = length (rn_log n)"
    using 2(4) by (fastforce simp: Let_def split: if_splits)
  then show ?case
  proof cases
    case cut
    let ?m = "n\<lparr>rn_log := take ?off (rn_log n) @ [entry],
        rn_durable_log_len := min (rn_durable_log_len n) ?off\<rparr>"
    have "append_entries_loop l b rest True ?m = (Inr ch', n')" using cut 2(4) by (simp add: Let_def)
    moreover have "b = snapshot_index ?m" using 2(5) by (simp add: snapshot_index_def)
    ultimately show ?thesis
      using 2(1) [OF cut(1) refl cut(2,3,4)] 2(6) later(2) cutk cut(2) by simp
  next
    case keep
    then show ?thesis using 2(2) [OF keep(1) refl keep(2,3)] 2(4-6,8) later(2) by (simp add: Let_def)
  next
    case push
    let ?m = "n\<lparr>rn_log := rn_log n @ [entry]\<rparr>"
    have "append_entries_loop l b rest True ?m = (Inr ch', n')" using push 2(4) by (simp add: Let_def)
    moreover have "b = snapshot_index ?m" using 2(5) by (simp add: snapshot_index_def)
    moreover have "holds ?m x" using cutk push(3) by simp
    ultimately show ?thesis using 2(3) [OF push(1) refl push(2,3)] 2(6) later(2) by simp
  qed
qed


lemma append_loop_holds:
  "append_entries_loop l b es ch n = (Inr ch', n') \<Longrightarrow> b = snapshot_index n \<Longrightarrow> b < U64_MAX \<Longrightarrow>
   sorted_wrt (\<lambda>a c. le_index a < le_index c) es \<Longrightarrow> list_all (holds n') es"
proof (induction l b es ch n arbitrary: ch' n' rule: append_entries_loop.induct)
  case (1 l b ch n)
  then show ?case by simp
next
  case (2 l b entry rest ch n)
  let ?off = "le_index entry - sat_add b 1"
  have b1: "sat_add b 1 = b + 1" using 2(6) by (simp add: sat_add_def)
  have later: "\<forall>e \<in> set rest. le_index entry < le_index e" "sorted_wrt (\<lambda>a c. le_index a < le_index c) rest"
    using 2(7) by auto
  have pushed: "holds (n\<lparr>rn_log := take ?off (rn_log n) @ [entry]\<rparr>) entry"
    if "?off \<le> length (rn_log n)" "\<not> le_index entry < sat_add b 1"
    using 2(5) that b1 by (auto simp: holds_def Let_def snapshot_index_def nth_append)
  consider (cut) "\<not> le_index entry < sat_add b 1" "?off < length (rn_log n)"
        "le_term (rn_log n ! ?off) \<noteq> le_term entry \<or> le_data (rn_log n ! ?off) \<noteq> le_data entry"
        "\<not> le_index entry \<le> rn_commit_index n"
    | (keep) "\<not> le_index entry < sat_add b 1" "?off < length (rn_log n)"
        "\<not> (le_term (rn_log n ! ?off) \<noteq> le_term entry \<or> le_data (rn_log n ! ?off) \<noteq> le_data entry)"
    | (push) "\<not> le_index entry < sat_add b 1" "\<not> ?off < length (rn_log n)" "?off = length (rn_log n)"
    using 2(4) by (fastforce simp: Let_def split: if_splits)
  then show ?case
  proof cases
    case cut
    let ?m = "n\<lparr>rn_log := take ?off (rn_log n) @ [entry],
        rn_durable_log_len := min (rn_durable_log_len n) ?off\<rparr>"
    have r: "append_entries_loop l b rest True ?m = (Inr ch', n')" using cut 2(4) by (simp add: Let_def)
    have m: "b = snapshot_index ?m" using 2(5) by (simp add: snapshot_index_def)
    have "holds n' entry" using append_loop_keeps [OF r m 2(6) later(1)] pushed cut(1,2) by simp
    moreover have "list_all (holds n') rest" using 2(1) [OF cut(1) refl cut(2,3,4) r m 2(6) later(2)] .
    ultimately show ?thesis by simp
  next
    case keep
    have r: "append_entries_loop l b rest ch n = (Inr ch', n')" using keep 2(4) by (simp add: Let_def)
    have "holds n entry" using keep 2(5) b1 by (simp add: holds_def Let_def)
    then have "holds n' entry" using append_loop_keeps [OF r 2(5,6) later(1)] by simp
    moreover have "list_all (holds n') rest" using 2(2) [OF keep(1) refl keep(2,3) r 2(5,6) later(2)] .
    ultimately show ?thesis by simp
  next
    case push
    let ?m = "n\<lparr>rn_log := rn_log n @ [entry]\<rparr>"
    have r: "append_entries_loop l b rest True ?m = (Inr ch', n')" using push 2(4) by (simp add: Let_def)
    have m: "b = snapshot_index ?m" using 2(5) by (simp add: snapshot_index_def)
    have "holds ?m entry" using pushed push by simp
    then have "holds n' entry" using append_loop_keeps [OF r m 2(6) later(1)] by simp
    moreover have "list_all (holds n') rest" using 2(3) [OF push(1) refl push(2,3) r m 2(6) later(2)] .
    ultimately show ?thesis by simp
  qed
qed

lemma consecutive_sorted:
  "consecutive_from i es \<Longrightarrow> i + length es \<le> U64_MAX + 1 \<Longrightarrow>
   sorted_wrt (\<lambda>a c. le_index a < le_index c) es \<and> (\<forall>e \<in> set es. i \<le> le_index e)"
proof (induction es arbitrary: i)
  case (Cons e es)
  show ?case
  proof (cases es)
    case Nil
    then show ?thesis using Cons.prems by simp
  next
    case (Cons a as)
    have s: "sat_add i 1 = i + 1" using Cons.prems Cons by (simp add: sat_add_def)
    have "sorted_wrt (\<lambda>a c. le_index a < le_index c) es \<and> (\<forall>e \<in> set es. i + 1 \<le> le_index e)"
      using Cons.prems by (intro Cons.IH) (simp_all add: s [simplified])
    then show ?thesis using Cons.prems(1) by fastforce
  qed
qed simp

lemma finish_append_log:
  "rn_log (snd (finish_append disk l c ln ch n)) = rn_log n \<and>
   rn_snapshot (snd (finish_append disk l c ln ch n)) = rn_snapshot n"
proof -
  let ?m = "if c > rn_commit_index n then n\<lparr>rn_commit_index := min c (last_index n)\<rparr> else n"
  have "rn_log (snd (persist disk ?m)) = rn_log n \<and> rn_snapshot (snd (persist disk ?m)) = rn_snapshot n"
    using persist_fields(7,8) [of disk ?m "fst (persist disk ?m)" "snd (persist disk ?m)"] by simp
  then show ?thesis
    by (cases "persist disk ?m") (simp add: finish_append_def Let_def split: bool.splits)
qed

definition accepts :: "raft_output list \<Rightarrow> bool" where
  "accepts outs \<longleftrightarrow> (\<exists>o' \<in> set outs. \<exists>t k. out_msg o' = AppendEntriesResp t True k)"

lemma append_loop_rejects: "append_entries_loop l b es ch n = (Inl outs, n') \<Longrightarrow> \<not> accepts outs"
proof (induction l b es ch n rule: append_entries_loop.induct)
  case (2 l b entry rest ch n)
  then show ?case
    by (auto simp: Let_def accepts_def append_response_def split: if_splits)
qed simp

lemma handle_append_accepts:
  assumes h: "handle_append disk t l pi pt es c n = (outs, n')" and acc: "accepts outs"
    and b: "snapshot_index n < U64_MAX" and len: "pi + length es \<le> U64_MAX"
  shows "list_all (holds n') es \<and> t = rn_current_term n \<and> pi \<le> last_index n \<and> term_at n pi = pt"
proof -
  let ?m = "follow l t n"
  have no: "\<not> accepts [append_response k l False i]" for k i by (simp add: accepts_def append_response_def)
  have same: "snapshot_index ?m = snapshot_index n" "last_index ?m = last_index n" "term_at ?m pi = term_at n pi"
    using follow_same [of n l t] by (simp_all add: same_log_def snapshot_index_def last_index_def term_at_def Let_def split: option.split)
  obtain res k where loop: "append_entries_loop l (snapshot_index ?m) es False ?m = (res, k)" by fastforce
  have g: "\<not> t < rn_current_term n" "t = rn_current_term n" "\<not> length es > MAX_APPEND_ENTRIES"
      "\<not> (list_ex (\<lambda>e. length (le_data e) > MAX_ENTRY_BYTES) es \<or>
              sum_list (map (length \<circ> le_data) es) > MAX_APPEND_BYTES)"
      "\<not> (pi > last_index ?m \<or> term_at ?m pi \<noteq> pt)" "consecutive_from (sat_add pi 1) es"
    using h acc no unfolding handle_append_def Let_def by (auto split: if_splits)
  have out: "(outs, n') = (case (res, k) of (Inl out, n) \<Rightarrow> (out, n)
      | (Inr ch, n) \<Rightarrow> finish_append disk l c (if es = [] then pi else le_index (List.last es)) ch n)"
    using h g loop unfolding handle_append_def Let_def by simp
  obtain ch where ch: "res = Inr ch"
    using out acc append_loop_rejects [of l "snapshot_index ?m" es False ?m] loop by (cases res) auto
  have "sorted_wrt (\<lambda>a c. le_index a < le_index c) es"
  proof (cases es)
    case (Cons a as)
    then have "sat_add pi 1 = pi + 1" using len by (simp add: sat_add_def)
    then show ?thesis using consecutive_sorted [OF g(6)] len by simp
  qed simp
  then have "list_all (holds k) es"
    using append_loop_holds [OF loop [unfolded ch] refl] b same(1) by simp
  moreover have "holds n' = holds k"
    using out ch finish_append_log [of disk l c _ ch k] by (intro holds_cong) (metis (no_types, lifting) case_prod_conv snd_conv sum.case(2))+
  ultimately show ?thesis using g same by simp
qed

section \<open>Transferring a snapshot\<close>

text \<open>
  One exchange between a leader and a follower that needs the snapshot: the chunk the leader
  would send next, the follower's handler, and the leader's handler of the answer.
\<close>

definition answered :: "node_id \<Rightarrow> raft_output list \<Rightarrow> raft_node \<Rightarrow> raft_node" where
  "answered peer outs ldr = (case outs of
       [ans] \<Rightarrow> (case out_msg ans of
           InstallSnapshotResp t li nxt inst \<Rightarrow> snd (handle_install_snapshot_resp peer t li nxt inst ldr)
         | _ \<Rightarrow> ldr)
     | _ \<Rightarrow> ldr)"

definition exchange :: "node_id \<Rightarrow> raft_node \<times> raft_node \<Rightarrow> raft_node \<times> raft_node" where
  "exchange peer = (\<lambda>(ldr, fol). case rn_snapshot ldr of
       None \<Rightarrow> (ldr, fol)
     | Some s \<Rightarrow> (case out_msg (snapshot_for ldr s peer) of
           InstallSnapshot t l li lt off d dn \<Rightarrow>
             (case handle_install_snapshot t l li lt off d dn fol of
                (outs, fol') \<Rightarrow> (answered peer outs ldr, fol'))
         | _ \<Rightarrow> (ldr, fol)))"

definition received :: "raft_node \<Rightarrow> snapshot \<Rightarrow> nat \<Rightarrow> bool \<Rightarrow> incoming_snapshot" where
  "received ldr s k fin = \<lparr>inc_leader = rn_id ldr, inc_leader_term = rn_current_term ldr,
     inc_index = sn_index s, inc_term = sn_term s, inc_data = take k (sn_data s), inc_complete = fin\<rparr>"

definition receiving :: "node_id \<Rightarrow> snapshot \<Rightarrow> nat \<Rightarrow> raft_node \<Rightarrow> raft_node \<Rightarrow> bool" where
  "receiving peer s k ldr fol \<longleftrightarrow>
     rn_role ldr = Leader \<and> rn_snapshot ldr = Some s \<and> rn_current_term fol = rn_current_term ldr \<and>
     rn_last_applied fol < sn_index s \<and> 0 < sn_term s \<and>
     (case rn_snapshot_offsets ldr peer of None \<Rightarrow> 0 | Some off \<Rightarrow> off) = k \<and>
     k < length (sn_data s) \<and> length (sn_data s) \<le> MAX_SNAPSHOT_BYTES \<and>
     (k = 0 \<and> rn_incoming fol = None \<or> rn_incoming fol = Some (received ldr s k False))"

lemma slice_take: "k \<le> m \<Longrightarrow> take k xs @ slice xs k m = take m xs"
  by (simp add: slice_def take_add [symmetric])

lemma chunk_appended:
  assumes "k \<le> length (sn_data s)" "m \<le> length (sn_data s)" "k < m" "length (sn_data s) \<le> MAX_SNAPSHOT_BYTES"
  shows "receive_chunk (received ldr s k False) l li k (slice (sn_data s) k m) fin n =
    (if fin then [] else [snapshot_response n l li m False], n\<lparr>rn_incoming := Some (received ldr s m fin)\<rparr>)"
proof -
  have a: "take k (sn_data s) @ slice (sn_data s) k m = take m (sn_data s)" using assms by (intro slice_take) simp
  have ne: "slice (sn_data s) k m \<noteq> []" using assms by (metis length_slice diff_is_0_eq less_imp_le list.size(3) not_le)
  have len: "length (take k (sn_data s)) + length (slice (sn_data s) k m) \<le> MAX_SNAPSHOT_BYTES"
    using assms by simp
  show ?thesis
    using assms ne len a by (simp add: receive_chunk_def received_def Let_def snapshot_response_def)
qed

lemma exchange_step:
  assumes r: "receiving peer s k ldr fol" and e: "exchange peer (ldr, fol) = (ldr', fol')"
  shows "k + SNAPSHOT_CHUNK_BYTES < length (sn_data s) \<Longrightarrow> receiving peer s (k + SNAPSHOT_CHUNK_BYTES) ldr' fol'"
    and "length (sn_data s) \<le> k + SNAPSHOT_CHUNK_BYTES \<Longrightarrow> pending_snapshot fol' = Some s"
proof -
  let ?m = "min (k + SNAPSHOT_CHUNK_BYTES) (length (sn_data s))" and ?d = "length (sn_data s)"
  let ?f = "reset_election_timeout (fol\<lparr>rn_role := Follower, rn_leader_id := Some (rn_id ldr)\<rparr>)"
  let ?fin = "?m = ?d"
  let ?f' = "?f\<lparr>rn_incoming := Some (received ldr s ?m ?fin)\<rparr>"
  have c: "0 < SNAPSHOT_CHUNK_BYTES" by (simp add: SNAPSHOT_CHUNK_BYTES_def)
  have R: "rn_role ldr = Leader" "rn_snapshot ldr = Some s" "rn_current_term fol = rn_current_term ldr"
     "rn_last_applied fol < sn_index s" "0 < sn_term s"
     "(case rn_snapshot_offsets ldr peer of None \<Rightarrow> 0 | Some off \<Rightarrow> off) = k"
     "k < ?d" "?d \<le> MAX_SNAPSHOT_BYTES"
     "k = 0 \<and> rn_incoming fol = None \<or> rn_incoming fol = Some (received ldr s k False)"
    using r by (simp_all add: receiving_def)
  have m: "k < ?m" "?m \<le> ?d" using c R(7) by simp_all
  have msg: "out_msg (snapshot_for ldr s peer) = InstallSnapshot (rn_current_term ldr) (rn_id ldr)
      (sn_index s) (sn_term s) k (slice (sn_data s) k ?m) ?fin"
    using R(6,7) by (simp add: snapshot_for_def Let_def)
  have chunk: "length (slice (sn_data s) k ?m) \<le> SNAPSHOT_CHUNK_BYTES" using m by simp
  have recv: "receive_chunk (received ldr s k False) (rn_id ldr) (sn_index s) k (slice (sn_data s) k ?m) ?fin n =
    (if ?fin then [] else [snapshot_response n (rn_id ldr) (sn_index s) ?m False],
     n\<lparr>rn_incoming := Some (received ldr s ?m ?fin)\<rparr>)" for n
    using R(7,8) m by (intro chunk_appended) simp_all
  have h: "handle_install_snapshot (rn_current_term ldr) (rn_id ldr) (sn_index s) (sn_term s) k
      (slice (sn_data s) k ?m) ?fin fol =
    (if ?fin then [] else [snapshot_response ?f (rn_id ldr) (sn_index s) ?m False], ?f')"
    using R(9)
  proof
    assume z: "k = 0 \<and> rn_incoming fol = None"
    have "\<lparr>inc_leader = rn_id ldr, inc_leader_term = rn_current_term ldr, inc_index = sn_index s,
        inc_term = sn_term s, inc_data = [], inc_complete = False\<rparr> = received ldr s k False"
      using z by (simp add: received_def)
    with z recv R chunk show ?thesis
      unfolding handle_install_snapshot_def Let_def by (simp add: snapshot_response_def)
  next
    assume z: "rn_incoming fol = Some (received ldr s k False)"
    with recv R chunk show ?thesis
      unfolding handle_install_snapshot_def Let_def by (simp add: received_def)
  qed
  have e': "ldr' = answered peer (if ?fin then [] else [snapshot_response ?f (rn_id ldr) (sn_index s) ?m False]) ldr"
    "fol' = ?f'"
    using e R(2) msg h by (auto simp: exchange_def)
  show "pending_snapshot fol' = Some s" if "?d \<le> k + SNAPSHOT_CHUNK_BYTES"
    using that e'(2) R(3) by (simp add: pending_snapshot_def incoming_ready_def received_def)
  assume more: "k + SNAPSHOT_CHUNK_BYTES < ?d"
  then have mm: "?m = k + SNAPSHOT_CHUNK_BYTES" "\<not> ?fin" by simp_all
  have "ldr' = ldr\<lparr>rn_snapshot_offsets := (rn_snapshot_offsets ldr)(peer \<mapsto> ?m)\<rparr>"
    using e'(1) mm(2) R more
    by (simp add: answered_def snapshot_response_def handle_install_snapshot_resp_def Let_def)
  then show "receiving peer s (k + SNAPSHOT_CHUNK_BYTES) ldr' fol'"
    using e'(2) R mm more by (simp add: receiving_def received_def)
qed

lemma exchanges_deliver:
  "receiving peer s k ldr fol \<Longrightarrow> length (sn_data s) \<le> k + Suc j * SNAPSHOT_CHUNK_BYTES \<Longrightarrow>
   \<exists>i \<le> Suc j. pending_snapshot (snd ((exchange peer ^^ i) (ldr, fol))) = Some s"
proof (induction j arbitrary: k ldr fol)
  case 0
  obtain ldr' fol' where e: "exchange peer (ldr, fol) = (ldr', fol')" by fastforce
  from exchange_step(2) [OF 0(1) e] 0(2) e show ?case by (intro exI [of _ 1]) simp
next
  case (Suc j)
  obtain ldr' fol' where e: "exchange peer (ldr, fol) = (ldr', fol')" by fastforce
  show ?case
  proof (cases "k + SNAPSHOT_CHUNK_BYTES < length (sn_data s)")
    case True
    obtain i where "i \<le> Suc j" "pending_snapshot (snd ((exchange peer ^^ i) (ldr', fol'))) = Some s"
      using Suc.IH [OF exchange_step(1) [OF Suc.prems(1) e True]] Suc.prems(2) by auto
    then show ?thesis using e by (intro exI [of _ "Suc i"]) (simp add: funpow_swap1)
  next
    case False
    with exchange_step(2) [OF Suc.prems(1) e] e show ?thesis by (intro exI [of _ 1]) simp
  qed
qed

end
