(* ===== verification/RaftStore.thy ===== *)
theory RaftStore
  imports RaftLog
begin

text \<open>
  The disk side of \<open>onetdns-cluster/src/raft.rs\<close>: the state file, the write-ahead log next to it,
  and what a start reads back from the two. SHA-256 is the parameter \<open>sha\<close>; all that is used of it
  is the length of its digests and, for one statement, that two given states do not collide.
\<close>

section \<open>Format\<close>

definition STATE_MAGIC :: bytes where
  "STATE_MAGIC = [79, 78, 69, 84, 82, 65, 70, 84, 0, 0, 0, 1]"

definition WAL_MAGIC :: bytes where
  "WAL_MAGIC = [79, 78, 69, 84, 82, 65, 70, 84, 87, 65, 76, 49]"

definition WAL_HEADER_LEN :: nat where "WAL_HEADER_LEN = 12 + 32"

definition MIN_WAL_FRAME_BODY :: nat where "MIN_WAL_FRAME_BODY = 8 + 1 + 8 + 8 + 8 + 8 + 8 + 4"

definition MAX_WAL_BYTES :: nat where "MAX_WAL_BYTES = 4 * 1024 * 1024"

definition MAX_STATE_BYTES :: nat where "MAX_STATE_BYTES = 64 * 1024 * 1024"

datatype store_error =
    StateIndexOverflow | StateRange | AppliedAhead | EntryForm | StateTooLarge | StateSize | StateDigest
  | StateMagic | Truncated | VoteFlag | SnapshotForm | LogCount | TrailingData
  | WalRange | WalNotMonotone | WalVoteChange | WalTruncate | WalLength | WalTooLarge | WalHeader
  | WalFrameLength | WalMiddleDigest | NoBaseDigest | IoError string

text \<open>Vote, entry and snapshot fields.\<close>

definition vote_bytes :: "node_id option \<Rightarrow> bytes" where
  "vote_bytes v = (case v of Some i \<Rightarrow> 1 # be_bytes 8 i | None \<Rightarrow> 0 # be_bytes 8 0)"

definition entry_bytes :: "log_entry \<Rightarrow> bytes" where
  "entry_bytes e = be_bytes 8 (le_term e) @ be_bytes 8 (le_index e) @ be_bytes 4 (length (le_data e)) @ le_data e"

definition snap_term :: "stable_state \<Rightarrow> nat" where
  "snap_term s = (case st_snapshot s of None \<Rightarrow> 0 | Some sn \<Rightarrow> sn_term sn)"

definition snap_data :: "stable_state \<Rightarrow> bytes" where
  "snap_data s = (case st_snapshot s of None \<Rightarrow> [] | Some sn \<Rightarrow> sn_data sn)"

text \<open>The checks of \<open>encode_state\<close> before it writes.\<close>

definition state_check :: "stable_state \<Rightarrow> store_error option" where
  "state_check s =
     (case checked_add (stable_base s) (length (st_log s)) of
        None \<Rightarrow> Some StateIndexOverflow
      | Some final \<Rightarrow>
          if length (st_log s) > MAX_LOG_ENTRIES \<or> st_commit_index s > final \<or>
             st_last_applied s < stable_base s \<or> length (snap_data s) > MAX_SNAPSHOT_BYTES \<or>
             (stable_base s = 0) \<noteq> (snap_data s = []) \<or> (stable_base s = 0) \<noteq> (snap_term s = 0)
          then Some StateRange
          else if st_last_applied s > st_commit_index s then Some AppliedAhead
          else None)"

definition state_head :: "stable_state \<Rightarrow> bytes" where
  "state_head s =
     STATE_MAGIC @ be_bytes 8 (st_current_term s) @ vote_bytes (st_voted_for s) @
     be_bytes 8 (st_commit_index s) @ be_bytes 8 (st_last_applied s) @ be_bytes 8 (st_boot_counter s) @
     be_bytes 8 (stable_base s) @ be_bytes 8 (snap_term s) @ be_bytes 4 (length (snap_data s)) @
     snap_data s @ be_bytes 4 (length (st_log s))"

text \<open>The loop over the entries; \<open>expected\<close> is the index of the next one.\<close>

fun encode_log :: "nat \<Rightarrow> log_entry list \<Rightarrow> bytes \<Rightarrow> store_error + bytes" where
  "encode_log expected [] out = Inr out"
| "encode_log expected (e # es) out =
     (if le_index e \<noteq> expected \<or> length (le_data e) > MAX_ENTRY_BYTES then Inl EntryForm
      else (let out = out @ entry_bytes e in
            if length out > MAX_STATE_BYTES - 32 then Inl StateTooLarge
            else encode_log (expected + 1) es out))"

definition encode_state :: "(bytes \<Rightarrow> bytes) \<Rightarrow> stable_state \<Rightarrow> store_error + bytes" where
  "encode_state sha s =
     (case state_check s of
        Some e \<Rightarrow> Inl e
      | None \<Rightarrow>
          (case encode_log (stable_base s + 1) (st_log s) (state_head s) of
             Inl e \<Rightarrow> Inl e
           | Inr out \<Rightarrow> Inr (out @ sha out)))"

section \<open>Reading fields\<close>

text \<open>A read position in a body; a value and the next position, or an error.\<close>

type_synonym 'a taker = "bytes \<Rightarrow> nat \<Rightarrow> store_error + ('a \<times> nat)"

definition tk_bind :: "'a taker \<Rightarrow> ('a \<Rightarrow> 'b taker) \<Rightarrow> 'b taker" where
  "tk_bind m f body pos = (case m body pos of Inl e \<Rightarrow> Inl e | Inr (x, pos') \<Rightarrow> f x body pos')"

definition tk_return :: "'a \<Rightarrow> 'a taker" where
  "tk_return x body pos = Inr (x, pos)"

definition tk_check :: "bool \<Rightarrow> store_error \<Rightarrow> unit taker" where
  "tk_check ok e body pos = (if ok then Inr ((), pos) else Inl e)"

definition take_bytes :: "nat \<Rightarrow> bytes taker" where
  "take_bytes n body pos =
     (case checked_add pos n of
        None \<Rightarrow> Inl Truncated
      | Some stop \<Rightarrow> if stop \<le> length body then Inr (slice body pos stop, stop) else Inl Truncated)"

definition take_u64 :: "nat taker" where
  "take_u64 = tk_bind (take_bytes 8) (\<lambda>bs. tk_return (be_value bs))"

definition take_u32 :: "nat taker" where
  "take_u32 = tk_bind (take_bytes 4) (\<lambda>bs. tk_return (be_value bs))"

definition take_vote :: "node_id option taker" where
  "take_vote =
     tk_bind (take_bytes 1) (\<lambda>flag. tk_bind take_u64 (\<lambda>vote_id.
       if hd flag = 0 then tk_return None
       else if hd flag = 1 then tk_return (Some vote_id)
       else tk_bind (tk_check False VoteFlag) (\<lambda>_. tk_return None)))"

text \<open>
  One entry: its index must be the expected one, computed with wrap-around as 64-bit addition
  does.
\<close>

definition take_entry :: "nat \<Rightarrow> log_entry taker" where
  "take_entry expected =
     tk_bind take_u64 (\<lambda>t. tk_bind take_u64 (\<lambda>index. tk_bind take_u32 (\<lambda>len.
     tk_bind (tk_check (index = expected mod 2 ^ 64 \<and> len \<le> MAX_ENTRY_BYTES) EntryForm) (\<lambda>_.
     tk_bind (take_bytes len) (\<lambda>data.
       tk_return \<lparr>le_term = t, le_index = index, le_data = data\<rparr>)))))"

fun take_entries :: "nat \<Rightarrow> nat \<Rightarrow> log_entry list taker" where
  "take_entries expected 0 = tk_return []"
| "take_entries expected (Suc n) =
     tk_bind (take_entry expected) (\<lambda>e.
     tk_bind (take_entries (expected + 1) n) (\<lambda>es. tk_return (e # es)))"

definition take_snapshot :: "nat \<Rightarrow> nat \<Rightarrow> bytes taker" where
  "take_snapshot index sterm =
     tk_bind take_u32 (\<lambda>len.
     tk_bind (tk_check (\<not> (len > MAX_SNAPSHOT_BYTES \<or> (index = 0) \<noteq> (len = 0) \<or> (index = 0) \<noteq> (sterm = 0)))
                SnapshotForm) (\<lambda>_.
       take_bytes len))"

definition tk_pos_at_end :: "bool taker" where
  "tk_pos_at_end body pos = Inr (pos = length body, pos)"

definition decode_log :: "nat \<Rightarrow> log_entry list taker" where
  "decode_log base =
     tk_bind take_u32 (\<lambda>count. tk_bind (tk_check (count \<le> MAX_LOG_ENTRIES) LogCount) (\<lambda>_.
       take_entries (base + 1) count))"

definition decode_body :: "stable_state taker" where
  "decode_body =
     tk_bind (take_bytes 12) (\<lambda>magic. tk_bind (tk_check (magic = STATE_MAGIC) StateMagic) (\<lambda>_.
     tk_bind take_u64 (\<lambda>current_term. tk_bind take_vote (\<lambda>voted_for.
     tk_bind take_u64 (\<lambda>commit_index. tk_bind take_u64 (\<lambda>last_applied. tk_bind take_u64 (\<lambda>boot_counter.
     tk_bind take_u64 (\<lambda>index. tk_bind take_u64 (\<lambda>sterm.
     tk_bind (take_snapshot index sterm) (\<lambda>data.
     tk_bind (decode_log index) (\<lambda>log.
     tk_bind tk_pos_at_end (\<lambda>at_end.
     tk_bind (tk_check (checked_add index (length log) \<noteq> None) StateIndexOverflow) (\<lambda>_.
     tk_bind (tk_check (at_end \<and> commit_index \<le> index + length log \<and> last_applied \<le> commit_index \<and>
                        index \<le> last_applied) TrailingData) (\<lambda>_.
       tk_return
         \<lparr>st_current_term = current_term, st_voted_for = voted_for, st_log = log,
          st_commit_index = commit_index, st_last_applied = last_applied,
          st_boot_counter = boot_counter,
          st_snapshot = (if index \<noteq> 0
                         then Some \<lparr>sn_index = index, sn_term = sterm, sn_data = data\<rparr>
                         else None)\<rparr>))))))))))))))"

definition decode_state :: "(bytes \<Rightarrow> bytes) \<Rightarrow> bytes \<Rightarrow> store_error + stable_state" where
  "decode_state sha bs =
     (if length bs < 12 + 8 + 9 + 8 + 8 + 8 + 8 + 8 + 4 + 4 + 32 \<or> length bs > MAX_STATE_BYTES
      then Inl StateSize
      else (let body = take (length bs - 32) bs; stored_digest = drop (length bs - 32) bs in
            if sha body \<noteq> stored_digest then Inl StateDigest
            else case decode_body body 0 of Inl e \<Rightarrow> Inl e | Inr (s, _) \<Rightarrow> Inr s))"


section \<open>The write-ahead log\<close>

fun wal_entries :: "nat \<Rightarrow> log_entry list \<Rightarrow> bytes \<Rightarrow> store_error + bytes" where
  "wal_entries expected [] body = Inr body"
| "wal_entries expected (e # es) body =
     (if le_index e \<noteq> expected mod 2 ^ 64 \<or> length (le_data e) > MAX_ENTRY_BYTES then Inl EntryForm
      else wal_entries (expected + 1) es (body @ entry_bytes e))"

definition wal_head :: "stable_state \<Rightarrow> nat \<Rightarrow> bytes" where
  "wal_head s truncate_to =
     be_bytes 8 (st_current_term s) @ vote_bytes (st_voted_for s) @ be_bytes 8 (st_commit_index s) @
     be_bytes 8 (st_last_applied s) @ be_bytes 8 (st_boot_counter s) @ be_bytes 8 truncate_to @
     be_bytes 4 (length (st_log s) - truncate_to)"

definition frame_bytes :: "(bytes \<Rightarrow> bytes) \<Rightarrow> bytes \<Rightarrow> bytes" where
  "frame_bytes sha body = be_bytes 4 (length body) @ body @ sha body"

definition wal_body :: "stable_state \<Rightarrow> nat \<Rightarrow> store_error + bytes" where
  "wal_body s truncate_to =
     (if truncate_to > length (st_log s) \<or> length (st_log s) > MAX_LOG_ENTRIES then Inl WalRange
      else wal_entries (stable_base s + truncate_to + 1) (drop truncate_to (st_log s))
             (wal_head s truncate_to))"

definition encode_wal_frame :: "(bytes \<Rightarrow> bytes) \<Rightarrow> stable_state \<Rightarrow> nat \<Rightarrow> store_error + bytes" where
  "encode_wal_frame sha s truncate_to =
     (case wal_body s truncate_to of Inl e \<Rightarrow> Inl e | Inr body \<Rightarrow> Inr (frame_bytes sha body))"

text \<open>The checks of \<open>apply_wal_frame\<close> against the state replayed so far.\<close>

definition wal_monotone :: "stable_state \<Rightarrow> nat \<Rightarrow> nat \<Rightarrow> nat \<Rightarrow> nat \<Rightarrow> bool" where
  "wal_monotone s current_term commit_index last_applied boot_counter \<longleftrightarrow>
     \<not> (current_term < st_current_term s \<or> commit_index < st_commit_index s \<or>
        last_applied < st_last_applied s \<or> last_applied > commit_index \<or>
        boot_counter < st_boot_counter s)"

definition vote_unchanged :: "stable_state \<Rightarrow> nat \<Rightarrow> node_id option \<Rightarrow> bool" where
  "vote_unchanged s current_term voted_for \<longleftrightarrow>
     (current_term = st_current_term s \<longrightarrow>
        (case st_voted_for s of None \<Rightarrow> True | Some prev \<Rightarrow> voted_for = Some prev))"

definition truncate_ok :: "stable_state \<Rightarrow> nat \<Rightarrow> bool" where
  "truncate_ok s truncate_to \<longleftrightarrow>
     \<not> (truncate_to > length (st_log s) \<or> sat_add (stable_base s) truncate_to < st_commit_index s)"

definition range_ok :: "stable_state \<Rightarrow> nat \<Rightarrow> nat \<Rightarrow> nat \<Rightarrow> nat \<Rightarrow> bool" where
  "range_ok s truncate_to count commit_index last_applied \<longleftrightarrow>
     \<not> (truncate_to + count > MAX_LOG_ENTRIES \<or> commit_index > stable_base s + (truncate_to + count) \<or>
        last_applied < stable_base s)"

definition apply_body :: "stable_state \<Rightarrow> stable_state taker" where
  "apply_body s =
     tk_bind take_u64 (\<lambda>current_term. tk_bind take_vote (\<lambda>voted_for.
     tk_bind take_u64 (\<lambda>commit_index. tk_bind take_u64 (\<lambda>last_applied. tk_bind take_u64 (\<lambda>boot_counter.
     tk_bind take_u64 (\<lambda>truncate_to. tk_bind take_u32 (\<lambda>count.
     tk_bind (tk_check (wal_monotone s current_term commit_index last_applied boot_counter) WalNotMonotone) (\<lambda>_.
     tk_bind (tk_check (vote_unchanged s current_term voted_for) WalVoteChange) (\<lambda>_.
     tk_bind (tk_check (truncate_ok s truncate_to) WalTruncate) (\<lambda>_.
     tk_bind (tk_check (checked_add truncate_to count \<noteq> None) WalLength) (\<lambda>_.
     tk_bind (tk_check (checked_add (stable_base s) (truncate_to + count) \<noteq> None) WalLength) (\<lambda>_.
     tk_bind (tk_check (range_ok s truncate_to count commit_index last_applied) WalRange) (\<lambda>_.
     tk_bind (take_entries (stable_base s + truncate_to + 1) count) (\<lambda>entries.
     tk_bind tk_pos_at_end (\<lambda>at_end. tk_bind (tk_check at_end TrailingData) (\<lambda>_.
       tk_return
         (s\<lparr>st_current_term := current_term, st_voted_for := voted_for,
            st_log := take truncate_to (st_log s) @ entries, st_commit_index := commit_index,
            st_last_applied := last_applied, st_boot_counter := boot_counter\<rparr>)))))))))))))))))"

definition apply_wal_frame :: "stable_state \<Rightarrow> bytes \<Rightarrow> store_error + stable_state" where
  "apply_wal_frame s body = (case apply_body s body 0 of Inl e \<Rightarrow> Inl e | Inr (s', _) \<Rightarrow> Inr s')"

text \<open>The replay loop of \<open>load_wal\<close>: a \<open>break\<close> returns what was replayed and where it stopped.\<close>

function load_wal_loop ::
    "(bytes \<Rightarrow> bytes) \<Rightarrow> bytes \<Rightarrow> nat \<Rightarrow> stable_state \<Rightarrow> store_error + (stable_state \<times> nat)" where
  "load_wal_loop sha bs pos s =
     (if \<not> pos < length bs then Inr (s, pos)
      else if \<not> pos + 4 \<le> length bs then Inr (s, pos)
      else (let body_len = be_value (slice bs pos (pos + 4)) in
        if \<not> (MIN_WAL_FRAME_BODY \<le> body_len \<and> body_len \<le> MAX_WAL_BYTES) then Inl WalFrameLength
        else (let digest_start = pos + 4 + body_len; frame_end = digest_start + 32 in
          if \<not> digest_start \<le> length bs then Inr (s, pos)
          else if \<not> frame_end \<le> length bs then Inr (s, pos)
          else (let body = slice bs (pos + 4) digest_start in
            if sha body \<noteq> slice bs digest_start frame_end
            then (if frame_end < length bs then Inl WalMiddleDigest else Inr (s, pos))
            else case apply_wal_frame s body of
                   Inl e \<Rightarrow> Inl e
                 | Inr s' \<Rightarrow> load_wal_loop sha bs frame_end s'))))"
  by pat_completeness auto
termination
  by (relation "measure (\<lambda>(sha, bs, pos, s). length bs - pos)") auto

declare load_wal_loop.simps [simp del]

definition load_wal ::
    "(bytes \<Rightarrow> bytes) \<Rightarrow> bytes option \<Rightarrow> bytes \<Rightarrow> stable_state \<Rightarrow> store_error + (stable_state \<times> nat)" where
  "load_wal sha file base_digest s =
     (case file of
        None \<Rightarrow> Inr (s, 0)
      | Some bs \<Rightarrow>
          if length bs > MAX_WAL_BYTES then Inl WalTooLarge
          else if length bs < WAL_HEADER_LEN \<or> take 12 bs \<noteq> WAL_MAGIC then Inl WalHeader
          else if slice bs 12 WAL_HEADER_LEN \<noteq> base_digest then Inr (s, 0)
          else load_wal_loop sha bs WAL_HEADER_LEN s)"

section \<open>Files\<close>

record raft_files =
  rf_state :: "bytes option"
  rf_wal :: "bytes option"

record loaded_state =
  ld_state :: stable_state
  ld_base_digest :: "bytes option"
  ld_wal_len :: nat

definition load_state :: "(bytes \<Rightarrow> bytes) \<Rightarrow> raft_files \<Rightarrow> store_error + loaded_state" where
  "load_state sha files =
     (case rf_state files of
        None \<Rightarrow> Inr \<lparr>ld_state = stable_default, ld_base_digest = None, ld_wal_len = 0\<rparr>
      | Some bs \<Rightarrow>
          if length bs > MAX_STATE_BYTES then Inl StateTooLarge
          else case decode_state sha bs of
            Inl e \<Rightarrow> Inl e
          | Inr s \<Rightarrow>
              (let base_digest = drop (length bs - 32) bs in
               case load_wal sha (rf_wal files) base_digest s of
                 Inl e \<Rightarrow> Inl e
               | Inr (s, wal_len) \<Rightarrow>
                   Inr \<lparr>ld_state = s, ld_base_digest = Some base_digest, ld_wal_len = wal_len\<rparr>))"

definition wal_header :: "bytes \<Rightarrow> bytes" where
  "wal_header base_digest = WAL_MAGIC @ base_digest"

text \<open>The fields of a node that describe its files.\<close>

record raft_store =
  rs_snapshot_dirty :: bool
  rs_durable_log_len :: nat
  rs_base_digest :: "bytes option"
  rs_wal_len :: nat
  rs_wal_open :: bool

text \<open>
  The writes of one \<open>persist_at\<close>, in order, as the contents of the files after each, and the new
  bookkeeping. An appended frame reaches the file byte by byte; the atomic replacements show no
  intermediate contents. Whatever fails, the files hold what some prefix of the writes left.
\<close>

definition append_wal_frame ::
    "raft_store \<Rightarrow> bytes \<Rightarrow> raft_files \<Rightarrow> raft_files list \<times> (store_error + raft_store)" where
  "append_wal_frame st frame files =
     (let append = (\<lambda>f wal wal_len.
            map (\<lambda>k. f\<lparr>rf_wal := Some (wal @ take k frame)\<rparr>) [0..<length frame + 1]);
          stored = (\<lambda>wal_len. st\<lparr>rs_wal_open := True, rs_wal_len := sat_add wal_len (length frame)\<rparr>)
      in if rs_wal_open st then
           (case rf_wal files of
              None \<Rightarrow> ([], Inl (IoError ''write''))
            | Some wal \<Rightarrow> (append files wal (rs_wal_len st), Inr (stored (rs_wal_len st))))
         else if rs_wal_len st < WAL_HEADER_LEN then
           (case rs_base_digest st of
              None \<Rightarrow> ([], Inl NoBaseDigest)
            | Some digest \<Rightarrow>
                (append files (wal_header digest) WAL_HEADER_LEN, Inr (stored WAL_HEADER_LEN)))
         else
           (case rf_wal files of
              None \<Rightarrow> ([], Inl (IoError ''metadata''))
            | Some on_disk \<Rightarrow>
                (append files (if length on_disk > rs_wal_len st then take (rs_wal_len st) on_disk
                               else on_disk) (rs_wal_len st), Inr (stored (rs_wal_len st)))))"

definition persist_at ::
    "(bytes \<Rightarrow> bytes) \<Rightarrow> raft_store \<Rightarrow> stable_state \<Rightarrow> raft_files \<Rightarrow> raft_files list \<times> (store_error + raft_store)" where
  "persist_at sha st view files =
     (let truncate_to = min (rs_durable_log_len st) (length (st_log view)) in
      case encode_wal_frame sha view truncate_to of
        Inl e \<Rightarrow> ([], Inl e)
      | Inr frame \<Rightarrow>
          if rs_snapshot_dirty st \<or> rs_base_digest st = None \<or>
             sat_add (rs_wal_len st) (length frame) > MAX_WAL_BYTES
          then (case encode_state sha view of
                  Inl e \<Rightarrow> ([], Inl e)
                | Inr bs \<Rightarrow>
                    (let digest = drop (length bs - 32) bs;
                         f1 = files\<lparr>rf_state := Some bs\<rparr>;
                         f2 = f1\<lparr>rf_wal := Some (wal_header digest)\<rparr>
                     in ([f1, f2],
                         Inr (st\<lparr>rs_wal_open := False, rs_wal_len := WAL_HEADER_LEN,
                                 rs_base_digest := Some digest, rs_snapshot_dirty := False,
                                 rs_durable_log_len := length (st_log view)\<rparr>))))
          else (case append_wal_frame st frame files of
                  (writes, Inl e) \<Rightarrow> (writes, Inl e)
                | (writes, Inr st') \<Rightarrow> (writes, Inr (st'\<lparr>rs_durable_log_len := length (st_log view)\<rparr>))))"

text \<open>The bookkeeping a node starts with, in \<open>new_persistent\<close>.\<close>

definition store_of_loaded :: "loaded_state \<Rightarrow> raft_store" where
  "store_of_loaded ld =
     \<lparr>rs_snapshot_dirty = False, rs_durable_log_len = length (st_log (ld_state ld)),
      rs_base_digest = ld_base_digest ld, rs_wal_len = ld_wal_len ld, rs_wal_open = False\<rparr>"

text \<open>All that is used of SHA-256: its digests have 32 bytes.\<close>

definition sha_ok :: "(bytes \<Rightarrow> bytes) \<Rightarrow> bool" where
  "sha_ok sha \<longleftrightarrow> (\<forall>b. length (sha b) = 32)"

lemma sha_len [simp]: "sha_ok sha \<Longrightarrow> length (sha b) = 32"
  by (simp add: sha_ok_def)

section \<open>Fields\<close>

text \<open>What a reader returns where certain bytes stand.\<close>

definition takes :: "'a taker \<Rightarrow> bytes \<Rightarrow> 'a \<Rightarrow> bool" where
  "takes m bs x \<longleftrightarrow> (\<forall>pre post. length (pre @ bs @ post) < 2 ^ 64 \<longrightarrow>
     m (pre @ bs @ post) (length pre) = Inr (x, length pre + length bs))"

lemma takes_bytes: "n = length bs \<Longrightarrow> takes (take_bytes n) bs bs"
  by (simp add: takes_def take_bytes_def)

lemma takes_return: "takes (tk_return x) [] x"
  by (simp add: takes_def tk_return_def)

lemma takes_check: "ok \<Longrightarrow> takes (tk_check ok e) [] ()"
  by (simp add: takes_def tk_check_def)

lemma takes_bind:
  assumes "takes m bs x" and "takes (f x) cs y"
  shows "takes (tk_bind m f) (bs @ cs) y"
  unfolding takes_def
proof (intro allI impI)
  fix pre post :: bytes
  assume len: "length (pre @ (bs @ cs) @ post) < 2 ^ 64"
  have "m (pre @ bs @ (cs @ post)) (length pre) = Inr (x, length pre + length bs)"
    using assms(1) len unfolding takes_def by auto
  moreover have "f x ((pre @ bs) @ cs @ post) (length (pre @ bs)) = Inr (y, length (pre @ bs) + length cs)"
    using assms(2) len unfolding takes_def by (metis append.assoc)
  ultimately show "tk_bind m f (pre @ (bs @ cs) @ post) (length pre) = Inr (y, length pre + length (bs @ cs))"
    by (simp add: tk_bind_def)
qed

lemma takes_bind0: "takes m [] x \<Longrightarrow> takes (f x) cs y \<Longrightarrow> takes (tk_bind m f) cs y"
  using takes_bind [of m "[]" x f cs y] by simp

lemma takes_last: "takes m bs x \<Longrightarrow> takes (tk_bind m (\<lambda>x. tk_return (h x))) bs (h x)"
  using takes_bind [OF _ takes_return, of m bs x h] by simp

lemma takes_u64: "n < 2 ^ 64 \<Longrightarrow> takes take_u64 (be_bytes 8 n) n"
  using takes_last [OF takes_bytes, of 8 "be_bytes 8 n" be_value]
  by (simp add: take_u64_def be_value_be_bytes)

lemma takes_u32: "n < 2 ^ 32 \<Longrightarrow> takes take_u32 (be_bytes 4 n) n"
  using takes_last [OF takes_bytes, of 4 "be_bytes 4 n" be_value]
  by (simp add: take_u32_def be_value_be_bytes)

lemma takes_vote: "(\<forall>i. v = Some i \<longrightarrow> i < 2 ^ 64) \<Longrightarrow> takes take_vote (vote_bytes v) v"
proof -
  assume v: "\<forall>i. v = Some i \<longrightarrow> i < 2 ^ 64"
  have "takes take_vote ([if v = None then 0 else 1] @ be_bytes 8 (case v of None \<Rightarrow> 0 | Some i \<Rightarrow> i)) v"
    unfolding take_vote_def
  proof (rule takes_bind [OF takes_bytes])
    show "takes (tk_bind take_u64 (\<lambda>vote_id. if hd [if v = None then 0 else 1 :: u8] = 0 then tk_return None
        else if hd [if v = None then 0 else 1 :: u8] = 1 then tk_return (Some vote_id)
        else tk_bind (tk_check False VoteFlag) (\<lambda>_. tk_return None)))
      (be_bytes 8 (case v of None \<Rightarrow> 0 | Some i \<Rightarrow> i)) v"
      using takes_last [OF takes_u64, of "case v of None \<Rightarrow> 0 | Some i \<Rightarrow> i" "\<lambda>_. None"]
        takes_last [OF takes_u64, of "case v of None \<Rightarrow> 0 | Some i \<Rightarrow> i" Some] v
      by (cases v) simp_all
  qed simp
  then show ?thesis by (cases v) (simp_all add: vote_bytes_def)
qed

definition entry_u64 :: "log_entry \<Rightarrow> bool" where
  "entry_u64 e \<longleftrightarrow> le_term e < 2 ^ 64 \<and> le_index e < 2 ^ 64 \<and> length (le_data e) \<le> MAX_ENTRY_BYTES"

lemma takes_entry:
  assumes "entry_u64 e" "le_index e = expected"
  shows "takes (take_entry expected) (entry_bytes e) e"
  unfolding take_entry_def entry_bytes_def
proof (rule takes_bind [OF takes_u64], use assms in \<open>simp add: entry_u64_def\<close>,
       rule takes_bind [OF takes_u64], use assms in \<open>simp add: entry_u64_def\<close>,
       rule takes_bind [OF takes_u32], use assms in \<open>simp add: entry_u64_def MAX_ENTRY_BYTES_def\<close>,
       rule takes_bind0 [OF takes_check], use assms in \<open>simp add: entry_u64_def\<close>)
  show "takes (tk_bind (take_bytes (length (le_data e)))
      (\<lambda>data. tk_return \<lparr>le_term = le_term e, le_index = le_index e, le_data = data\<rparr>)) (le_data e) e"
    using takes_last [OF takes_bytes, of _ "le_data e"
        "\<lambda>data. \<lparr>le_term = le_term e, le_index = le_index e, le_data = data\<rparr>"] by (cases e) simp
qed

lemma takes_entries:
  "contiguous b es \<Longrightarrow> list_all entry_u64 es \<Longrightarrow>
   takes (take_entries (b + 1) (length es)) (concat (map entry_bytes es)) es"
proof (induction es arbitrary: b)
  case Nil
  then show ?case by (simp add: takes_return)
next
  case (Cons e es)
  have "takes (take_entries (b + 1 + 1) (length es)) (concat (map entry_bytes es)) es"
    using Cons by simp
  then have "takes (tk_bind (take_entries (b + 1 + 1) (length es)) (\<lambda>es. tk_return (e # es)))
      (concat (map entry_bytes es)) (e # es)"
    by (rule takes_last)
  with takes_entry [of e "b + 1"] Cons.prems show ?case
    by (simp add: takes_bind)
qed


section \<open>The state file\<close>

text \<open>A state whose numbers fit their fields.\<close>

definition state_u64 :: "stable_state \<Rightarrow> bool" where
  "state_u64 s \<longleftrightarrow> st_current_term s < 2 ^ 64 \<and> (\<forall>i. st_voted_for s = Some i \<longrightarrow> i < 2 ^ 64) \<and>
     st_boot_counter s < 2 ^ 64 \<and> snap_term s < 2 ^ 64 \<and>
     list_all (\<lambda>e. le_term e < 2 ^ 64) (st_log s)"

definition state_ok :: "stable_state \<Rightarrow> bool" where
  "state_ok s \<longleftrightarrow> stable_wf s \<and> state_u64 s \<and> length (st_log s) \<le> MAX_LOG_ENTRIES"

lemma contiguous_bound:
  assumes "contiguous b es" "e \<in> set es"
  shows "b < le_index e" "le_index e \<le> b + length es"
proof -
  obtain k where "k < length es" "e = es ! k" using assms(2) by (metis in_set_conv_nth)
  with contiguous_nth [OF assms(1)] show "b < le_index e" "le_index e \<le> b + length es" by simp_all
qed

lemma state_ok_entries: "state_ok s \<Longrightarrow> list_all entry_u64 (st_log s)"
  using contiguous_bound [of "stable_base s" "st_log s"]
  by (fastforce simp: state_ok_def state_u64_def stable_wf_def entry_u64_def entries_small_def list_all_iff U64_MAX_def)

lemma encode_log_out:
  "encode_log expected es out = Inr out' \<Longrightarrow> out' = out @ concat (map entry_bytes es)"
  by (induction expected es out rule: encode_log.induct) (auto simp: Let_def split: if_splits)

lemma encode_log_bound:
  "encode_log expected es out = Inr out' \<Longrightarrow> es \<noteq> [] \<Longrightarrow> length out' \<le> MAX_STATE_BYTES - 32"
proof (induction expected es out rule: encode_log.induct)
  case (2 expected e es out)
  then show ?case by (cases es) (auto simp: Let_def split: if_splits)
qed simp

lemma snapshot_some:
  "stable_wf s \<Longrightarrow> st_snapshot s =
     (if stable_base s \<noteq> 0 then Some \<lparr>sn_index = stable_base s, sn_term = snap_term s, sn_data = snap_data s\<rparr> else None)"
  by (cases "st_snapshot s") (auto simp: stable_wf_def stable_base_def snap_term_def snap_data_def snapshot_wf_def)

lemma snapshot_parts:
  "stable_wf s \<Longrightarrow> (stable_base s = 0) = (snap_data s = []) \<and> (stable_base s = 0) = (snap_term s = 0) \<and>
     length (snap_data s) \<le> MAX_SNAPSHOT_BYTES"
  by (cases "st_snapshot s") (auto simp: stable_wf_def stable_base_def snap_term_def snap_data_def snapshot_wf_def)

lemma takes_snapshot:
  assumes "stable_wf s"
  shows "takes (take_snapshot (stable_base s) (snap_term s)) (be_bytes 4 (length (snap_data s)) @ snap_data s) (snap_data s)"
  unfolding take_snapshot_def
  using snapshot_parts [OF assms]
  by (intro takes_bind [OF takes_u32] takes_bind0 [OF takes_check] takes_bytes)
     (auto simp: MAX_SNAPSHOT_BYTES_def)

lemma takes_log:
  assumes "state_ok s"
  shows "takes (decode_log (stable_base s)) (be_bytes 4 (length (st_log s)) @ concat (map entry_bytes (st_log s))) (st_log s)"
  unfolding decode_log_def
  using assms state_ok_entries [OF assms]
  by (intro takes_bind [OF takes_u32] takes_bind0 [OF takes_check] takes_entries)
     (auto simp: state_ok_def stable_wf_def MAX_LOG_ENTRIES_def)


text \<open>The same at the end of the body, where the end-of-data check succeeds.\<close>

definition takes_end :: "'a taker \<Rightarrow> bytes \<Rightarrow> 'a \<Rightarrow> bool" where
  "takes_end m bs x \<longleftrightarrow> (\<forall>pre. length (pre @ bs) < 2 ^ 64 \<longrightarrow>
     m (pre @ bs) (length pre) = Inr (x, length pre + length bs))"

lemma takes_end_bind:
  assumes "takes m bs x" and "takes_end (f x) cs y"
  shows "takes_end (tk_bind m f) (bs @ cs) y"
  unfolding takes_end_def
proof (intro allI impI)
  fix pre :: bytes
  assume len: "length (pre @ bs @ cs) < 2 ^ 64"
  have "m (pre @ bs @ cs) (length pre) = Inr (x, length pre + length bs)"
    using assms(1) len unfolding takes_def by auto
  moreover have "f x ((pre @ bs) @ cs) (length (pre @ bs)) = Inr (y, length (pre @ bs) + length cs)"
    using assms(2) len unfolding takes_end_def by (metis append.assoc)
  ultimately show "tk_bind m f (pre @ bs @ cs) (length pre) = Inr (y, length pre + length (bs @ cs))"
    by (simp add: tk_bind_def)
qed

lemma takes_end_bind0: "takes m [] x \<Longrightarrow> takes_end (f x) cs y \<Longrightarrow> takes_end (tk_bind m f) cs y"
  using takes_end_bind [of m "[]" x f cs y] by simp

lemma takes_end_at_end:
  assumes "takes_end (f True) [] y"
  shows "takes_end (tk_bind tk_pos_at_end f) [] y"
  using assms by (simp add: takes_end_def tk_bind_def tk_pos_at_end_def)

lemma takes_end_return: "takes_end (tk_return x) [] x"
  by (simp add: takes_end_def tk_return_def)

lemma takes_end_log:
  assumes "takes m bs x" and "takes_end (f x) [] y"
  shows "takes_end (tk_bind m f) bs y"
  using takes_end_bind [of m bs x f "[]" y] assms by simp

lemma state_bounds:
  assumes "state_ok s"
  shows "st_commit_index s < 2 ^ 64" "st_last_applied s < 2 ^ 64" "stable_base s < 2 ^ 64"
    "stable_base s + length (st_log s) < 2 ^ 64" "stable_base s \<le> st_last_applied s"
    "st_last_applied s \<le> st_commit_index s" "st_commit_index s \<le> stable_base s + length (st_log s)"
  using assms by (auto simp: state_ok_def stable_wf_def U64_MAX_def)

lemma decode_body_state:
  assumes ok: "state_ok s"
  shows "takes_end decode_body (state_head s @ concat (map entry_bytes (st_log s))) s"
proof -
  note B = state_bounds [OF ok]
  have U: "st_current_term s < 2 ^ 64" "\<forall>i. st_voted_for s = Some i \<longrightarrow> i < 2 ^ 64" "st_boot_counter s < 2 ^ 64"
      "snap_term s < 2 ^ 64" and wf: "stable_wf s"
    using ok by (simp_all add: state_ok_def state_u64_def)
  have final: "\<lparr>st_current_term = st_current_term s, st_voted_for = st_voted_for s, st_log = st_log s,
      st_commit_index = st_commit_index s, st_last_applied = st_last_applied s,
      st_boot_counter = st_boot_counter s,
      st_snapshot = (if stable_base s \<noteq> 0
        then Some \<lparr>sn_index = stable_base s, sn_term = snap_term s, sn_data = snap_data s\<rparr> else None)\<rparr> = s"
    unfolding snapshot_some [OF wf, symmetric] by simp
  have "takes_end decode_body
    (STATE_MAGIC @ be_bytes 8 (st_current_term s) @ vote_bytes (st_voted_for s) @
     be_bytes 8 (st_commit_index s) @ be_bytes 8 (st_last_applied s) @ be_bytes 8 (st_boot_counter s) @
     be_bytes 8 (stable_base s) @ be_bytes 8 (snap_term s) @
     (be_bytes 4 (length (snap_data s)) @ snap_data s) @
     (be_bytes 4 (length (st_log s)) @ concat (map entry_bytes (st_log s)))) s"
    unfolding decode_body_def
    apply (rule takes_end_bind [OF takes_bytes], simp add: STATE_MAGIC_def)
    apply (rule takes_end_bind0 [OF takes_check], simp)
    apply (rule takes_end_bind [OF takes_u64 [OF U(1)]])
    apply (rule takes_end_bind [OF takes_vote [OF U(2)]])
    apply (rule takes_end_bind [OF takes_u64 [OF B(1)]])
    apply (rule takes_end_bind [OF takes_u64 [OF B(2)]])
    apply (rule takes_end_bind [OF takes_u64 [OF U(3)]])
    apply (rule takes_end_bind [OF takes_u64 [OF B(3)]])
    apply (rule takes_end_bind [OF takes_u64 [OF U(4)]])
    apply (rule takes_end_bind [OF takes_snapshot [OF wf]])
    apply (rule takes_end_log [OF takes_log [OF ok]])
    apply (rule takes_end_at_end)
    apply (rule takes_end_bind0 [OF takes_check], use B in simp)
    apply (rule takes_end_bind0 [OF takes_check], use B in simp)
    apply (simp only: final takes_end_return)
    done
  then show ?thesis by (simp only: state_head_def append.assoc)
qed

lemma length_vote_bytes [simp]: "length (vote_bytes v) = 9"
  by (cases v) (simp_all add: vote_bytes_def)

lemma length_state_head: "length (state_head s) = 77 + length (snap_data s)"
  by (simp add: state_head_def STATE_MAGIC_def)

lemma decode_encode_state:
  assumes sha: "sha_ok sha" and ok: "state_ok s" and enc: "encode_state sha s = Inr bs"
  shows "decode_state sha bs = Inr s" and "length bs \<le> MAX_STATE_BYTES"
    and "drop (length bs - 32) bs = sha (take (length bs - 32) bs)"
proof -
  let ?out = "state_head s @ concat (map entry_bytes (st_log s))"
  obtain out where out: "encode_log (stable_base s + 1) (st_log s) (state_head s) = Inr out" "bs = out @ sha out"
    using enc by (auto simp: encode_state_def split: option.splits sum.splits)
  have o: "out = ?out" using encode_log_out [OF out(1)] .
  have len: "length bs = length ?out + 32" using out(2) o sha by simp
  have small: "length ?out \<le> MAX_STATE_BYTES - 32"
  proof (cases "st_log s = []")
    case True
    have "length (snap_data s) \<le> MAX_SNAPSHOT_BYTES" using ok snapshot_parts by (simp add: state_ok_def)
    with True show ?thesis by (simp add: length_state_head MAX_STATE_BYTES_def MAX_SNAPSHOT_BYTES_def)
  next
    case False
    with encode_log_bound [OF out(1)] o show ?thesis by simp
  qed
  then show "length bs \<le> MAX_STATE_BYTES" using len by (simp add: MAX_STATE_BYTES_def)
  have split: "take (length bs - 32) bs = ?out" "drop (length bs - 32) bs = sha ?out"
    using out(2) o len by simp_all
  then show "drop (length bs - 32) bs = sha (take (length bs - 32) bs)" by simp
  have "length ?out < 2 ^ 64" using small by (simp add: MAX_STATE_BYTES_def)
  then have "decode_body ?out 0 = Inr (s, length ?out)"
    using decode_body_state [OF ok] unfolding takes_end_def by (metis append_Nil list.size(3) plus_nat.add_0)
  then show "decode_state sha bs = Inr s"
    using len small split by (simp add: decode_state_def length_state_head MAX_STATE_BYTES_def)
qed


section \<open>Frames\<close>

text \<open>What a node may do between two writes without a new snapshot.\<close>

definition may_follow :: "stable_state \<Rightarrow> stable_state \<Rightarrow> nat \<Rightarrow> bool" where
  "may_follow old new kept \<longleftrightarrow>
     st_snapshot new = st_snapshot old \<and> st_current_term old \<le> st_current_term new \<and>
     st_commit_index old \<le> st_commit_index new \<and> st_last_applied old \<le> st_last_applied new \<and>
     st_boot_counter old \<le> st_boot_counter new \<and>
     vote_unchanged old (st_current_term new) (st_voted_for new) \<and>
     kept \<le> length (st_log old) \<and> kept \<le> length (st_log new) \<and>
     take kept (st_log old) = take kept (st_log new) \<and> st_commit_index old \<le> stable_base old + kept"

lemma wal_entries_out:
  "wal_entries expected es body = Inr body' \<Longrightarrow> body' = body @ concat (map entry_bytes es)"
  by (induction expected es body rule: wal_entries.induct) (auto split: if_splits)

lemma wal_body_out:
  "wal_body s tr = Inr body \<Longrightarrow>
   body = wal_head s tr @ concat (map entry_bytes (drop tr (st_log s))) \<and> tr \<le> length (st_log s)"
  by (auto simp: wal_body_def split: if_splits dest: wal_entries_out)

lemma length_wal_head: "length (wal_head s tr) = MIN_WAL_FRAME_BODY"
  by (simp add: wal_head_def MIN_WAL_FRAME_BODY_def)

lemma stable_base_cong: "st_snapshot s = st_snapshot s' \<Longrightarrow> stable_base s = stable_base s'"
  by (simp add: stable_base_def)

lemma apply_frame:
  assumes old: "state_ok old" and new: "state_ok new" and f: "may_follow old new tr"
    and body: "wal_body new tr = Inr body" and small: "length body < 2 ^ 64"
  shows "apply_wal_frame old body = Inr new"
proof -
  note B = state_bounds [OF new] and Bo = state_bounds [OF old]
  have F: "st_snapshot new = st_snapshot old" "stable_base new = stable_base old"
      "vote_unchanged old (st_current_term new) (st_voted_for new)" "tr \<le> length (st_log old)"
      "tr \<le> length (st_log new)" "take tr (st_log old) = take tr (st_log new)"
      "st_commit_index old \<le> stable_base old + tr"
    using f by (auto simp: may_follow_def intro: stable_base_cong)
  have U: "st_current_term new < 2 ^ 64" "\<forall>i. st_voted_for new = Some i \<longrightarrow> i < 2 ^ 64" "st_boot_counter new < 2 ^ 64"
      and n: "length (st_log new) \<le> MAX_LOG_ENTRIES"
    using new by (simp_all add: state_ok_def state_u64_def)
  let ?cnt = "length (st_log new) - tr" and ?es = "drop tr (st_log new)"
  have small_n: "tr < 2 ^ 64" "?cnt < 2 ^ 32" using n F(5) by (simp_all add: MAX_LOG_ENTRIES_def)
  have es: "takes (take_entries (stable_base old + tr + 1) ?cnt) (concat (map entry_bytes ?es)) ?es"
  proof -
    have "contiguous (stable_base new + tr) ?es"
      using new F(5) by (intro contiguous_drop) (simp_all add: state_ok_def stable_wf_def)
    moreover have "list_all entry_u64 ?es"
      using state_ok_entries [OF new] by (auto simp: list_all_iff dest: in_set_dropD)
    ultimately show ?thesis using takes_entries [of "stable_base new + tr" ?es] F(2) by simp
  qed
  have c: "wal_monotone old (st_current_term new) (st_commit_index new) (st_last_applied new) (st_boot_counter new)"
      "truncate_ok old tr" "checked_add tr ?cnt \<noteq> None" "checked_add (stable_base old) (tr + ?cnt) \<noteq> None"
      "range_ok old tr ?cnt (st_commit_index new) (st_last_applied new)"
    using f B Bo F n small_n
    by (auto simp: wal_monotone_def may_follow_def truncate_ok_def range_ok_def sat_add_def U64_MAX_def)
  have final: "old\<lparr>st_current_term := st_current_term new, st_voted_for := st_voted_for new,
      st_log := take tr (st_log old) @ ?es, st_commit_index := st_commit_index new,
      st_last_applied := st_last_applied new, st_boot_counter := st_boot_counter new\<rparr> = new"
    using F(1,6) by (cases old, cases new) simp
  have "takes_end (apply_body old)
    (be_bytes 8 (st_current_term new) @ vote_bytes (st_voted_for new) @ be_bytes 8 (st_commit_index new) @
     be_bytes 8 (st_last_applied new) @ be_bytes 8 (st_boot_counter new) @ be_bytes 8 tr @
     be_bytes 4 ?cnt @ concat (map entry_bytes ?es)) new"
    unfolding apply_body_def
    apply (rule takes_end_bind [OF takes_u64 [OF U(1)]])
    apply (rule takes_end_bind [OF takes_vote [OF U(2)]])
    apply (rule takes_end_bind [OF takes_u64 [OF B(1)]])
    apply (rule takes_end_bind [OF takes_u64 [OF B(2)]])
    apply (rule takes_end_bind [OF takes_u64 [OF U(3)]])
    apply (rule takes_end_bind [OF takes_u64 [OF small_n(1)]])
    apply (rule takes_end_bind [OF takes_u32 [OF small_n(2)]])
    apply (rule takes_end_bind0 [OF takes_check [OF c(1)]])
    apply (rule takes_end_bind0 [OF takes_check [OF F(3)]])
    apply (rule takes_end_bind0 [OF takes_check [OF c(2)]])
    apply (rule takes_end_bind0 [OF takes_check [OF c(3)]])
    apply (rule takes_end_bind0 [OF takes_check [OF c(4)]])
    apply (rule takes_end_bind0 [OF takes_check [OF c(5)]])
    apply (rule takes_end_log [OF es])
    apply (rule takes_end_at_end)
    apply (rule takes_end_bind0 [OF takes_check], simp)
    apply (simp only: final takes_end_return)
    done
  then have "takes_end (apply_body old) body new"
    using wal_body_out [OF body] by (simp only: wal_head_def append.assoc)
  then have "apply_body old body 0 = Inr (new, length body)"
    using small unfolding takes_end_def by (metis append_Nil list.size(3) plus_nat.add_0)
  then show ?thesis by (simp add: apply_wal_frame_def)
qed

text \<open>Replaying the bodies of the frames one after the other.\<close>

fun replay :: "stable_state \<Rightarrow> bytes list \<Rightarrow> store_error + stable_state" where
  "replay s [] = Inr s"
| "replay s (body # bodies) = (case apply_wal_frame s body of Inl e \<Rightarrow> Inl e | Inr s' \<Rightarrow> replay s' bodies)"

definition body_ok :: "bytes \<Rightarrow> bool" where
  "body_ok body \<longleftrightarrow> MIN_WAL_FRAME_BODY \<le> length body \<and> length body \<le> MAX_WAL_BYTES"

definition torn :: "(bytes \<Rightarrow> bytes) \<Rightarrow> bytes \<Rightarrow> bool" where
  "torn sha tail \<longleftrightarrow> tail = [] \<or>
     (\<exists>body k. body_ok body \<and> k < length (frame_bytes sha body) \<and> tail = take k (frame_bytes sha body))"

lemma length_frame: "length (sha body) = 32 \<Longrightarrow> length (frame_bytes sha body) = length body + 36"
  by (simp add: frame_bytes_def)

lemma frame_len_field: "body_ok body \<Longrightarrow> be_value (be_bytes 4 (length body)) = length body"
  by (simp add: be_value_be_bytes body_ok_def MAX_WAL_BYTES_def)

lemma load_loop_frame:
  assumes sha: "sha_ok sha" and b: "body_ok body"
  shows "load_wal_loop sha (pre @ frame_bytes sha body @ post) (length pre) s =
    (case apply_wal_frame s body of Inl e \<Rightarrow> Inl e
     | Inr s' \<Rightarrow> load_wal_loop sha (pre @ frame_bytes sha body @ post) (length pre + length (frame_bytes sha body)) s')"
proof -
  let ?bs = "pre @ frame_bytes sha body @ post"
  have s1: "slice ?bs (length pre) (length pre + 4) = be_bytes 4 (length body)"
    by (simp add: slice_def frame_bytes_def)
  have s2: "slice ?bs (length pre + 4) (length pre + 4 + length body) = body"
    by (simp add: slice_def frame_bytes_def)
  have s3: "slice ?bs (length pre + 4 + length body) (length pre + 4 + length body + 32) = sha body"
    using sha_len [OF sha, of body] by (simp add: slice_def frame_bytes_def)
  have l: "length ?bs = length pre + (length body + 36) + length post"
    using length_frame [of sha body] sha by simp
  have e: "length pre + length (frame_bytes sha body) = length pre + 4 + length body + 32"
    using length_frame [of sha body] sha by simp
  show ?thesis
    unfolding e using b sha_len [OF sha, of body] unfolding body_ok_def
    by (subst load_wal_loop.simps) (simp only: s1 s2 s3 l frame_len_field [OF b] Let_def, simp)
qed

lemma load_loop_torn:
  assumes sha: "sha_ok sha" and t: "torn sha tail"
  shows "load_wal_loop sha (pre @ tail) (length pre) s = Inr (s, length pre)"
proof (cases "tail = []")
  case True
  then show ?thesis by (subst load_wal_loop.simps) simp
next
  case False
  then obtain body k where b: "body_ok body" "k < length (frame_bytes sha body)" "tail = take k (frame_bytes sha body)"
    using t by (auto simp: torn_def)
  have k: "length tail = k" using b by simp
  show ?thesis
  proof (cases "k < 4")
    case True
    then show ?thesis using k by (subst load_wal_loop.simps) simp
  next
    case False
    then have "slice (pre @ tail) (length pre) (length pre + 4) = be_bytes 4 (length body)"
      by (simp add: slice_def b(3) frame_bytes_def)
    moreover have "k < length body + 36" using b(2) length_frame [of sha body] sha by simp
    ultimately show ?thesis
      using k False b(1) frame_len_field [OF b(1)] unfolding body_ok_def
      by (subst load_wal_loop.simps) (simp add: Let_def)
  qed
qed

lemma load_loop_frames:
  assumes sha: "sha_ok sha" and t: "torn sha tail"
  shows "list_all body_ok bodies \<Longrightarrow> replay s bodies = Inr s' \<Longrightarrow>
    load_wal_loop sha (pre @ concat (map (frame_bytes sha) bodies) @ tail) (length pre) s =
    Inr (s', length pre + length (concat (map (frame_bytes sha) bodies)))"
proof (induction bodies arbitrary: pre s)
  case Nil
  then show ?case using load_loop_torn [OF sha t] by simp
next
  case (Cons body bodies)
  obtain s1 where s1: "apply_wal_frame s body = Inr s1" "replay s1 bodies = Inr s'"
    using Cons.prems(2) by (auto split: sum.splits)
  let ?f = "frame_bytes sha body"
  have "load_wal_loop sha ((pre @ ?f) @ concat (map (frame_bytes sha) bodies) @ tail) (length (pre @ ?f)) s1 =
    Inr (s', length (pre @ ?f) + length (concat (map (frame_bytes sha) bodies)))"
    using Cons.prems s1 by (intro Cons.IH) simp_all
  then show ?case
    using load_loop_frame [where sha = sha and body = body and pre = pre and s = s and
        post = "concat (map (frame_bytes sha) bodies) @ tail"] sha s1 Cons.prems
    by simp
qed


section \<open>What the files hold\<close>

definition frames :: "(bytes \<Rightarrow> bytes) \<Rightarrow> bytes list \<Rightarrow> bytes" where
  "frames sha bodies = concat (map (frame_bytes sha) bodies)"

text \<open>A log left behind by an earlier state file, or none.\<close>

definition foreign :: "bytes \<Rightarrow> bytes option \<Rightarrow> bool" where
  "foreign digest file = (case file of None \<Rightarrow> True
     | Some wal \<Rightarrow> WAL_HEADER_LEN \<le> length wal \<and> length wal \<le> MAX_WAL_BYTES \<and> take 12 wal = WAL_MAGIC \<and>
         slice wal 12 WAL_HEADER_LEN \<noteq> digest)"

definition own_wal :: "(bytes \<Rightarrow> bytes) \<Rightarrow> bytes \<Rightarrow> bytes list \<Rightarrow> bytes \<Rightarrow> bytes option \<Rightarrow> bool" where
  "own_wal sha digest bodies tail file \<longleftrightarrow>
     file = Some (wal_header digest @ frames sha bodies @ tail) \<and> torn sha tail \<and>
     length (wal_header digest @ frames sha bodies @ tail) \<le> MAX_WAL_BYTES"

definition based :: "(bytes \<Rightarrow> bytes) \<Rightarrow> stable_state \<Rightarrow> bytes \<Rightarrow> bytes list \<Rightarrow> stable_state \<Rightarrow> bool" where
  "based sha base bs bodies s \<longleftrightarrow> state_ok base \<and> encode_state sha base = Inr bs \<and>
     list_all body_ok bodies \<and> replay base bodies = Inr s \<and> state_ok s"

definition digest_of :: "bytes \<Rightarrow> bytes" where
  "digest_of bs = drop (length bs - 32) bs"

definition holds_state ::
    "(bytes \<Rightarrow> bytes) \<Rightarrow> stable_state \<Rightarrow> raft_files \<Rightarrow> bytes option \<Rightarrow> nat \<Rightarrow> bool \<Rightarrow> bool" where
  "holds_state sha s files digest wal_len clean \<longleftrightarrow>
     rf_state files = None \<and> rf_wal files = None \<and> s = stable_default \<and> digest = None \<and> wal_len = 0 \<or>
     (\<exists>base bs bodies tail. based sha base bs bodies s \<and> rf_state files = Some bs \<and>
        digest = Some (digest_of bs) \<and>
        (own_wal sha (digest_of bs) bodies tail (rf_wal files) \<and>
           wal_len = WAL_HEADER_LEN + length (frames sha bodies) \<and> (clean \<longrightarrow> tail = []) \<or>
         bodies = [] \<and> foreign (digest_of bs) (rf_wal files) \<and> wal_len = 0 \<and> \<not> clean))"

lemma length_magic [simp]: "length WAL_MAGIC = 12" "length STATE_MAGIC = 12"
  by (simp_all add: WAL_MAGIC_def STATE_MAGIC_def)

lemma encode_state_long:
  assumes "sha_ok sha" "encode_state sha s = Inr bs"
  shows "length (digest_of bs) = 32"
  using assms by (auto simp: encode_state_def digest_of_def split: option.splits sum.splits)

lemma load_wal_own:
  assumes sha: "sha_ok sha" and d: "length digest = 32" and own: "own_wal sha digest bodies tail file"
    and r: "list_all body_ok bodies" "replay base bodies = Inr s"
  shows "load_wal sha file digest base = Inr (s, WAL_HEADER_LEN + length (frames sha bodies))"
proof -
  let ?w = "wal_header digest @ frames sha bodies @ tail"
  have h: "length (wal_header digest) = WAL_HEADER_LEN" using d by (simp add: wal_header_def WAL_HEADER_LEN_def)
  have sl: "take 12 ?w = WAL_MAGIC" "slice ?w 12 WAL_HEADER_LEN = digest"
    using d by (simp_all add: wal_header_def slice_def WAL_HEADER_LEN_def)
  have "load_wal_loop sha (wal_header digest @ concat (map (frame_bytes sha) bodies) @ tail) (length (wal_header digest)) base =
    Inr (s, length (wal_header digest) + length (concat (map (frame_bytes sha) bodies)))"
    using own r by (intro load_loop_frames sha) (simp_all add: own_wal_def)
  moreover have "\<not> length ?w < WAL_HEADER_LEN" using h by simp
  ultimately show ?thesis
    using own sl h unfolding load_wal_def own_wal_def by (simp add: frames_def)
qed

lemma load_wal_foreign: "foreign digest file \<Longrightarrow> load_wal sha file digest base = Inr (base, 0)"
  by (auto simp: foreign_def load_wal_def split: option.splits)

lemma load_holds:
  assumes sha: "sha_ok sha" and h: "holds_state sha s files digest wal_len clean"
  shows "load_state sha files = Inr \<lparr>ld_state = s, ld_base_digest = digest, ld_wal_len = wal_len\<rparr>"
  using h unfolding holds_state_def
proof (elim disjE exE conjE)
  fix base bs bodies tail
  assume b: "based sha base bs bodies s" and f: "rf_state files = Some bs" "digest = Some (digest_of bs)"
    and w: "own_wal sha (digest_of bs) bodies tail (rf_wal files)" "wal_len = WAL_HEADER_LEN + length (frames sha bodies)"
  have "load_wal sha (rf_wal files) (digest_of bs) base = Inr (s, wal_len)"
    using b w sha encode_state_long [OF sha, of base bs] by (auto simp: based_def intro!: load_wal_own)
  with b f decode_encode_state [OF sha, of base bs] show ?thesis
    by (simp add: load_state_def based_def digest_of_def Let_def)
next
  fix base bs bodies tail
  assume b: "based sha base bs bodies s" and f: "rf_state files = Some bs" "digest = Some (digest_of bs)"
    and w: "bodies = []" "foreign (digest_of bs) (rf_wal files)" "wal_len = 0"
  have "load_wal sha (rf_wal files) (digest_of bs) base = Inr (s, wal_len)"
    using b w load_wal_foreign by (simp add: based_def)
  with b f decode_encode_state [OF sha, of base bs] show ?thesis
    by (simp add: load_state_def based_def digest_of_def Let_def)
qed (simp add: load_state_def)

lemma replay_snoc: "replay s bodies = Inr s1 \<Longrightarrow> apply_wal_frame s1 body = Inr s2 \<Longrightarrow> replay s (bodies @ [body]) = Inr s2"
  by (induction bodies arbitrary: s) (auto split: sum.splits)

lemma frames_snoc: "frames sha (bodies @ [body]) = frames sha bodies @ frame_bytes sha body"
  by (simp add: frames_def)

text \<open>A frame being appended: until its last byte the files hold the old state, then the new one.\<close>

lemma append_holds:
  assumes sha: "sha_ok sha" and b: "based sha base bs bodies old" and view: "state_ok view"
    and f: "may_follow old view tr" and body: "wal_body view tr = Inr body"
    and fit: "WAL_HEADER_LEN + length (frames sha bodies) + length (frame_bytes sha body) \<le> MAX_WAL_BYTES"
    and st: "rf_state f = Some bs"
    and wal: "rf_wal f = Some (wal_header (digest_of bs) @ frames sha bodies @ take k (frame_bytes sha body))"
  shows "k < length (frame_bytes sha body) \<Longrightarrow>
      holds_state sha old f (Some (digest_of bs)) (WAL_HEADER_LEN + length (frames sha bodies)) False"
    and "k = length (frame_bytes sha body) \<Longrightarrow>
      holds_state sha view f (Some (digest_of bs))
        (WAL_HEADER_LEN + length (frames sha bodies) + length (frame_bytes sha body)) True"
proof -
  have lf: "length (frame_bytes sha body) = length body + 36" using sha length_frame [of sha body] by simp
  have bo: "body_ok body"
    using wal_body_out [OF body] fit lf by (auto simp: body_ok_def length_wal_head)
  have small: "length body < 2 ^ 64" using fit lf by (simp add: MAX_WAL_BYTES_def)
  have h: "length (wal_header (digest_of bs)) = WAL_HEADER_LEN"
    using encode_state_long [OF sha, of base bs] b by (simp add: based_def wal_header_def WAL_HEADER_LEN_def)
  show "holds_state sha old f (Some (digest_of bs)) (WAL_HEADER_LEN + length (frames sha bodies)) False"
    if k: "k < length (frame_bytes sha body)"
  proof -
    have "torn sha (take k (frame_bytes sha body))" using bo k by (auto simp: torn_def)
    then have "own_wal sha (digest_of bs) bodies (take k (frame_bytes sha body)) (rf_wal f)"
      using wal fit h k by (simp add: own_wal_def)
    then show ?thesis using b st unfolding holds_state_def by blast
  qed
  assume k: "k = length (frame_bytes sha body)"
  have "apply_wal_frame old body = Inr view"
    using b view f body small by (intro apply_frame) (simp_all add: based_def)
  then have nb: "based sha base bs (bodies @ [body]) view"
    using b view bo by (simp add: based_def replay_snoc)
  have "own_wal sha (digest_of bs) (bodies @ [body]) [] (rf_wal f)"
    using wal fit h k by (simp add: own_wal_def frames_snoc torn_def)
  moreover have "WAL_HEADER_LEN + length (frames sha bodies) + length (frame_bytes sha body) =
      WAL_HEADER_LEN + length (frames sha (bodies @ [body]))" by (simp add: frames_snoc)
  ultimately show "holds_state sha view f (Some (digest_of bs))
        (WAL_HEADER_LEN + length (frames sha bodies) + length (frame_bytes sha body)) True"
    using nb st unfolding holds_state_def by metis
qed


section \<open>Persisting\<close>

definition stored :: "(bytes \<Rightarrow> bytes) \<Rightarrow> stable_state \<Rightarrow> raft_files \<Rightarrow> raft_store \<Rightarrow> bool" where
  "stored sha s files st \<longleftrightarrow>
     holds_state sha s files (rs_base_digest st) (rs_wal_len st) (rs_wal_open st)"

text \<open>What a start would find: the old state or the new one, whole.\<close>

definition recoverable :: "(bytes \<Rightarrow> bytes) \<Rightarrow> stable_state set \<Rightarrow> raft_files \<Rightarrow> bool" where
  "recoverable sha S files \<longleftrightarrow> (\<exists>s \<in> S. \<exists>d n c. holds_state sha s files d n c)"

text \<open>
  No collision: a log found on disk carries the digest of the new state file only if the state
  file would not change.
\<close>

definition no_collision :: "(bytes \<Rightarrow> bytes) \<Rightarrow> stable_state \<Rightarrow> raft_files \<Rightarrow> bool" where
  "no_collision sha view files \<longleftrightarrow>
     (\<forall>bs w. encode_state sha view = Inr bs \<longrightarrow> rf_wal files = Some w \<longrightarrow>
        slice w 12 WAL_HEADER_LEN = digest_of bs \<longrightarrow> rf_state files = Some bs)"

definition headed :: "bytes option \<Rightarrow> bool" where
  "headed file = (case file of None \<Rightarrow> True
     | Some w \<Rightarrow> WAL_HEADER_LEN \<le> length w \<and> length w \<le> MAX_WAL_BYTES \<and> take 12 w = WAL_MAGIC)"

lemma own_wal_headed: "length d = 32 \<Longrightarrow> own_wal sha d bodies tail file \<Longrightarrow> headed file"
  by (auto simp: own_wal_def headed_def wal_header_def WAL_HEADER_LEN_def)

lemma foreign_headed: "foreign d file \<Longrightarrow> headed file"
  by (auto simp: foreign_def headed_def split: option.splits)

lemma wal_headed:
  assumes sha: "sha_ok sha" and h: "holds_state sha s files digest n c"
  shows "headed (rf_wal files)"
proof -
  consider "rf_wal files = None" | base bs bodies tail where "based sha base bs bodies s"
      "own_wal sha (digest_of bs) bodies tail (rf_wal files)" | d where "foreign d (rf_wal files)"
    using h unfolding holds_state_def by (elim disjE exE conjE) blast+
  then show ?thesis
  proof cases
    case (2 base bs bodies tail)
    then show ?thesis using encode_state_long [OF sha, of base bs] own_wal_headed by (simp add: based_def)
  qed (simp add: headed_def, rule foreign_headed)
qed

lemma compact_writes:
  assumes sha: "sha_ok sha" and old: "holds_state sha old files digest n c" and view: "state_ok view"
    and enc: "encode_state sha view = Inr bs" and nc: "no_collision sha view files"
  shows "recoverable sha {old, view} (files\<lparr>rf_state := Some bs\<rparr>)"
    and "holds_state sha view (files\<lparr>rf_state := Some bs, rf_wal := Some (wal_header (digest_of bs))\<rparr>)
      (Some (digest_of bs)) WAL_HEADER_LEN False"
proof -
  have nb: "based sha view bs [] view" using view enc by (simp add: based_def)
  have "own_wal sha (digest_of bs) [] [] (Some (wal_header (digest_of bs)))"
    using encode_state_long [OF sha enc]
    by (simp add: own_wal_def frames_def torn_def wal_header_def MAX_WAL_BYTES_def)
  then show "holds_state sha view (files\<lparr>rf_state := Some bs, rf_wal := Some (wal_header (digest_of bs))\<rparr>)
      (Some (digest_of bs)) WAL_HEADER_LEN False"
    using nb unfolding holds_state_def by (force simp: frames_def)
  show "recoverable sha {old, view} (files\<lparr>rf_state := Some bs\<rparr>)"
  proof (cases "foreign (digest_of bs) (rf_wal files)")
    case True
    then have "holds_state sha view (files\<lparr>rf_state := Some bs\<rparr>) (Some (digest_of bs)) 0 False"
      using nb unfolding holds_state_def by force
    then show ?thesis by (auto simp: recoverable_def)
  next
    case False
    then obtain w where w: "rf_wal files = Some w" "slice w 12 WAL_HEADER_LEN = digest_of bs"
      using wal_headed [OF sha old] by (auto simp: foreign_def headed_def split: option.splits)
    then have "rf_state files = Some bs" using nc enc by (simp add: no_collision_def)
    then have "files\<lparr>rf_state := Some bs\<rparr> = files" by (cases files) simp
    then show ?thesis using old by (auto simp: recoverable_def)
  qed
qed

text \<open>The three ways an append finds its file, reduced to one: a clean log of known frames.\<close>

lemma append_cases:
  assumes sha: "sha_ok sha" and old: "stored sha old files st"
    and dg: "rs_base_digest st \<noteq> None" and app: "append_wal_frame st frame files = (writes, Inr st')"
  obtains base bs bodies where "based sha base bs bodies old" "rf_state files = Some bs"
    "rs_base_digest st = Some (digest_of bs)"
    "writes = map (\<lambda>k. files\<lparr>rf_wal := Some (wal_header (digest_of bs) @ frames sha bodies @ take k frame)\<rparr>) [0..<length frame + 1]"
    "st' = st\<lparr>rs_wal_open := True, rs_wal_len := sat_add (WAL_HEADER_LEN + length (frames sha bodies)) (length frame)\<rparr>"
    "rs_wal_len st = WAL_HEADER_LEN + length (frames sha bodies) \<or> rs_wal_len st = 0 \<and> bodies = []"
proof -
  obtain base bs bodies tail where b: "based sha base bs bodies old" "rf_state files = Some bs"
      "rs_base_digest st = Some (digest_of bs)"
    and w: "own_wal sha (digest_of bs) bodies tail (rf_wal files) \<and>
           rs_wal_len st = WAL_HEADER_LEN + length (frames sha bodies) \<and> (rs_wal_open st \<longrightarrow> tail = []) \<or>
         bodies = [] \<and> foreign (digest_of bs) (rf_wal files) \<and> rs_wal_len st = 0 \<and> \<not> rs_wal_open st"
    using old dg unfolding stored_def holds_state_def by blast
  have h: "length (wal_header (digest_of bs)) = WAL_HEADER_LEN"
    using encode_state_long [OF sha, of base bs] b(1) by (simp add: based_def wal_header_def WAL_HEADER_LEN_def)
  have "writes = map (\<lambda>k. files\<lparr>rf_wal := Some (wal_header (digest_of bs) @ frames sha bodies @ take k frame)\<rparr>) [0..<length frame + 1] \<and>
    st' = st\<lparr>rs_wal_open := True, rs_wal_len := sat_add (WAL_HEADER_LEN + length (frames sha bodies)) (length frame)\<rparr>"
    using w
  proof (elim disjE conjE)
    assume o: "own_wal sha (digest_of bs) bodies tail (rf_wal files)"
      and n: "rs_wal_len st = WAL_HEADER_LEN + length (frames sha bodies)" and t: "rs_wal_open st \<longrightarrow> tail = []"
    have f: "rf_wal files = Some (wal_header (digest_of bs) @ frames sha bodies @ tail)" using o by (simp add: own_wal_def)
    show ?thesis
      using app f n t h unfolding append_wal_frame_def Let_def
      by (cases "rs_wal_open st") auto
  next
    assume "bodies = []" "foreign (digest_of bs) (rf_wal files)" "rs_wal_len st = 0" "\<not> rs_wal_open st"
    then show ?thesis
      using app b(3) unfolding append_wal_frame_def Let_def by (auto simp: WAL_HEADER_LEN_def frames_def)
  qed
  with that b w show thesis by blast
qed


text \<open>
  The size check of \<open>persist_at\<close> counts the log as empty after a start that found no usable one,
  although its header is written first. That the frame fits next to the header is a condition here.
\<close>

definition first_frame_fits :: "(bytes \<Rightarrow> bytes) \<Rightarrow> raft_store \<Rightarrow> stable_state \<Rightarrow> bool" where
  "first_frame_fits sha st view \<longleftrightarrow> rs_wal_len st = 0 \<longrightarrow>
     (case encode_wal_frame sha view (min (rs_durable_log_len st) (length (st_log view))) of
        Inl _ \<Rightarrow> True | Inr frame \<Rightarrow> WAL_HEADER_LEN + length frame \<le> MAX_WAL_BYTES)"

lemma append_persists:
  assumes sha: "sha_ok sha" and old: "stored sha old files st" and view: "state_ok view"
    and dg: "rs_base_digest st \<noteq> None" and f: "may_follow old view tr"
    and enc: "encode_wal_frame sha view tr = Inr frame"
    and fit: "sat_add (rs_wal_len st) (length frame) \<le> MAX_WAL_BYTES"
    and fit0: "rs_wal_len st = 0 \<Longrightarrow> WAL_HEADER_LEN + length frame \<le> MAX_WAL_BYTES"
    and app: "append_wal_frame st frame files = (writes, Inr st')"
  shows "\<forall>g \<in> set writes. recoverable sha {old, view} g"
    and "writes \<noteq> [] \<and> stored sha view (List.last writes) st'"
proof -
  obtain body where body: "wal_body view tr = Inr body" "frame = frame_bytes sha body"
    using enc by (auto simp: encode_wal_frame_def split: sum.splits)
  obtain base bs bodies where b: "based sha base bs bodies old" "rf_state files = Some bs"
      "rs_base_digest st = Some (digest_of bs)"
    and w: "writes = map (\<lambda>k. files\<lparr>rf_wal := Some (wal_header (digest_of bs) @ frames sha bodies @ take k frame)\<rparr>) [0..<length frame + 1]"
      "st' = st\<lparr>rs_wal_open := True, rs_wal_len := sat_add (WAL_HEADER_LEN + length (frames sha bodies)) (length frame)\<rparr>"
    and n: "rs_wal_len st = WAL_HEADER_LEN + length (frames sha bodies) \<or> rs_wal_len st = 0 \<and> bodies = []"
    by (rule append_cases [OF sha old dg app])
  let ?n = "WAL_HEADER_LEN + length (frames sha bodies)"
  let ?f = "\<lambda>k. files\<lparr>rf_wal := Some (wal_header (digest_of bs) @ frames sha bodies @ take k frame)\<rparr>"
  have total: "?n + length frame \<le> MAX_WAL_BYTES"
    using n
  proof
    assume "rs_wal_len st = ?n"
    then have "min (?n + length frame) U64_MAX \<le> MAX_WAL_BYTES" using fit by (simp add: sat_add_def)
    moreover have "MAX_WAL_BYTES < U64_MAX" by (simp add: MAX_WAL_BYTES_def U64_MAX_def)
    ultimately show ?thesis by linarith
  next
    assume "rs_wal_len st = 0 \<and> bodies = []"
    then show ?thesis using fit0 by (simp add: frames_def)
  qed
  note A = append_holds [OF sha b(1) view f body(1) total [unfolded body(2)], of "?f k" k for k]
  have old_k: "holds_state sha old (?f k) (Some (digest_of bs)) ?n False" if "k < length frame" for k
    using A(1) [of k] that b(2) body(2) by simp
  have new_k: "holds_state sha view (?f (length frame)) (Some (digest_of bs)) (?n + length frame) True"
    using A(2) [of "length frame"] b(2) body(2) by simp
  show "\<forall>g \<in> set writes. recoverable sha {old, view} g"
  proof
    fix g
    assume "g \<in> set writes"
    then have "g \<in> ?f ` {0..<length frame + 1}" unfolding w(1) by (simp only: set_map set_upt)
    then obtain k where k: "k < length frame + 1" "g = ?f k" by fastforce
    show "recoverable sha {old, view} g"
    proof (cases "k < length frame")
      case True
      then show ?thesis using old_k k(2) unfolding recoverable_def by blast
    next
      case False
      then have "k = length frame" using k(1) by simp
      then show ?thesis using new_k k(2) unfolding recoverable_def by blast
    qed
  qed
  have "List.last writes = ?f (length frame)" "writes \<noteq> []" unfolding w(1) by simp_all
  moreover have "sat_add ?n (length frame) = ?n + length frame"
    using total by (simp add: sat_add_def MAX_WAL_BYTES_def U64_MAX_def)
  ultimately show "writes \<noteq> [] \<and> stored sha view (List.last writes) st'"
    using new_k w(2) b(3) by (simp add: stored_def)
qed

lemma recoverable_old: "stored sha old files st \<Longrightarrow> recoverable sha {old, view} files"
  by (auto simp: stored_def recoverable_def)

lemma append_wal_failed: "append_wal_frame st frame files = (writes, Inl e) \<Longrightarrow> writes = []"
  by (auto simp: append_wal_frame_def Let_def split: if_splits option.splits)

lemma persist_at_atomic:
  assumes sha: "sha_ok sha" and old: "stored sha old files st" and view: "state_ok view"
    and f: "rs_snapshot_dirty st \<or> may_follow old view (min (rs_durable_log_len st) (length (st_log view)))"
    and nc: "no_collision sha view files" and fit: "first_frame_fits sha st view"
    and p: "persist_at sha st view files = (writes, res)"
  shows "\<forall>g \<in> set (files # writes). recoverable sha {old, view} g"
    and "res = Inr st' \<Longrightarrow> stored sha view (List.last (files # writes)) st' \<and>
      rs_durable_log_len st' = length (st_log view)"
proof -
  let ?tr = "min (rs_durable_log_len st) (length (st_log view))"
  let ?R = "\<lambda>writes. \<forall>g \<in> set writes. recoverable sha {old, view} g"
  have r0: "recoverable sha {old, view} files" using old by (rule recoverable_old)
  have goal: "?R writes \<and> (\<forall>st'. res = Inr st' \<longrightarrow> stored sha view (List.last (files # writes)) st' \<and>
      rs_durable_log_len st' = length (st_log view))"
  proof (cases "encode_wal_frame sha view ?tr")
    case (Inl e)
    then show ?thesis using p by (auto simp: persist_at_def Let_def)
  next
    case (Inr frame)
    show ?thesis
    proof (cases "rs_snapshot_dirty st \<or> rs_base_digest st = None \<or>
             sat_add (rs_wal_len st) (length frame) > MAX_WAL_BYTES")
      case True
      show ?thesis
      proof (cases "encode_state sha view")
        case (Inl e)
        then show ?thesis using p Inr True by (auto simp: persist_at_def Let_def)
      next
        case enc: (Inr bs)
        note C = compact_writes [OF sha old [unfolded stored_def] view enc nc]
        let ?f2 = "files\<lparr>rf_state := Some bs, rf_wal := Some (wal_header (digest_of bs))\<rparr>"
        have w: "writes = [files\<lparr>rf_state := Some bs\<rparr>, ?f2]"
          "res = Inr (st\<lparr>rs_wal_open := False, rs_wal_len := WAL_HEADER_LEN,
             rs_base_digest := Some (digest_of bs), rs_snapshot_dirty := False,
             rs_durable_log_len := length (st_log view)\<rparr>)"
          using p Inr True enc by (auto simp: persist_at_def Let_def digest_of_def)
        have "recoverable sha {old, view} ?f2" using C(2) unfolding recoverable_def by blast
        with C(1) have "?R writes" by (simp add: w(1))
        moreover have "stored sha view (List.last (files # writes)) st' \<and>
            rs_durable_log_len st' = length (st_log view)" if "res = Inr st'" for st'
          using that C(2) w by (auto simp: stored_def)
        ultimately show ?thesis by blast
      qed
    next
      case False
      then have mf: "may_follow old view ?tr" using f by blast
      have fit0: "rs_wal_len st = 0 \<Longrightarrow> WAL_HEADER_LEN + length frame \<le> MAX_WAL_BYTES"
        using fit Inr by (simp add: first_frame_fits_def)
      obtain ws r where app: "append_wal_frame st frame files = (ws, r)" by fastforce
      show ?thesis
      proof (cases r)
        case (Inl e)
        then show ?thesis using p Inr False app append_wal_failed [of st frame files ws e]
          by (auto simp: persist_at_def Let_def)
      next
        case st1: (Inr st1)
        have A: "\<forall>g \<in> set ws. recoverable sha {old, view} g" "ws \<noteq> [] \<and> stored sha view (List.last ws) st1"
          using append_persists [OF sha old view _ mf Inr _ fit0 app [unfolded st1]] False by auto
        have w: "writes = ws" "res = Inr (st1\<lparr>rs_durable_log_len := length (st_log view)\<rparr>)"
          using p Inr False app st1 by (auto simp: persist_at_def Let_def)
        have "stored sha view (List.last (files # ws)) (st1\<lparr>rs_durable_log_len := length (st_log view)\<rparr>)"
          using A(2) by (simp add: stored_def)
        with A w show ?thesis by auto
      qed
    qed
  qed
  then show "\<forall>g \<in> set (files # writes). recoverable sha {old, view} g" using r0 by simp
  show "res = Inr st' \<Longrightarrow> stored sha view (List.last (files # writes)) st' \<and>
      rs_durable_log_len st' = length (st_log view)" using goal by blast
qed

text \<open>A start from recoverable files finds one of the states and the bookkeeping that fits it.\<close>

lemma restart_from_recoverable:
  assumes sha: "sha_ok sha" and r: "recoverable sha S files"
  shows "\<exists>ld. load_state sha files = Inr ld \<and> ld_state ld \<in> S \<and> stored sha (ld_state ld) files (store_of_loaded ld)"
proof -
  obtain s d n c where s: "s \<in> S" "holds_state sha s files d n c" using r by (auto simp: recoverable_def)
  have "holds_state sha s files d n False" using s(2) unfolding holds_state_def by blast
  then show ?thesis
    using s(1) load_holds [OF sha s(2)] by (auto simp: stored_def store_of_loaded_def)
qed


section \<open>What decoding guarantees\<close>

text \<open>\<open>delivers P m\<close>: whatever the body is, a value that \<open>m\<close> returns satisfies \<open>P\<close>.\<close>

definition delivers :: "('a \<Rightarrow> bool) \<Rightarrow> 'a taker \<Rightarrow> bool" where
  "delivers P m \<longleftrightarrow> (\<forall>body pos x pos'. m body pos = Inr (x, pos') \<longrightarrow> P x)"

lemma delivers_bind:
  assumes "delivers P m" and "\<And>x. P x \<Longrightarrow> delivers Q (f x)"
  shows "delivers Q (tk_bind m f)"
  unfolding delivers_def
proof (intro allI impI)
  fix body pos y pos'
  assume "tk_bind m f body pos = Inr (y, pos')"
  then obtain x p where "m body pos = Inr (x, p)" "f x body p = Inr (y, pos')"
    by (auto simp: tk_bind_def split: sum.splits)
  then show "Q y" using assms unfolding delivers_def by blast
qed

lemma delivers_any: "delivers (\<lambda>_. True) m"
  by (simp add: delivers_def)

lemma delivers_skip: "(\<And>x. delivers Q (f x)) \<Longrightarrow> delivers Q (tk_bind m f)"
  by (rule delivers_bind [OF delivers_any])

lemma delivers_check: "delivers (\<lambda>_. ok) (tk_check ok e)"
  by (simp add: delivers_def tk_check_def)

lemma delivers_return: "P x \<Longrightarrow> delivers P (tk_return x)"
  by (simp add: delivers_def tk_return_def)

lemma delivers_bytes: "delivers (\<lambda>bs. length bs = n) (take_bytes n)"
  by (auto simp: delivers_def take_bytes_def checked_add_def split: option.splits if_splits)

lemma delivers_entry:
  "delivers (\<lambda>e. le_index e = expected mod 2 ^ 64 \<and> length (le_data e) \<le> MAX_ENTRY_BYTES) (take_entry expected)"
  unfolding take_entry_def
proof (rule delivers_skip, rule delivers_skip, rule delivers_skip)
  fix t index len
  show "delivers (\<lambda>e. le_index e = expected mod 2 ^ 64 \<and> length (le_data e) \<le> MAX_ENTRY_BYTES)
    (tk_bind (tk_check (index = expected mod 2 ^ 64 \<and> len \<le> MAX_ENTRY_BYTES) EntryForm)
      (\<lambda>_. tk_bind (take_bytes len) (\<lambda>data. tk_return \<lparr>le_term = t, le_index = index, le_data = data\<rparr>)))"
    by (rule delivers_bind [OF delivers_check], rule delivers_bind [OF delivers_bytes])
       (simp add: delivers_return)
qed

lemma delivers_entries:
  "expected + n \<le> 2 ^ 64 \<Longrightarrow>
   delivers (\<lambda>es. length es = n \<and> entries_small es \<and> (0 < expected \<longrightarrow> contiguous (expected - 1) es))
     (take_entries expected n)"
proof (induction n arbitrary: expected)
  case 0
  then show ?case by (simp add: delivers_return entries_small_def)
next
  case (Suc n)
  have m: "expected mod 2 ^ 64 = expected" using Suc.prems by simp
  have tail: "delivers (\<lambda>es. length es = n \<and> entries_small es \<and> contiguous expected es) (take_entries (expected + 1) n)"
    using Suc.IH [of "expected + 1"] Suc.prems by simp
  show ?case
    unfolding take_entries.simps
    apply (rule delivers_bind [OF delivers_entry])
    apply (rule delivers_bind [OF tail])
    using m by (auto intro!: delivers_return simp: entries_small_def)
qed

definition decoded_ok :: "stable_state \<Rightarrow> bool" where
  "decoded_ok s \<longleftrightarrow> contiguous (stable_base s) (st_log s) \<and> entries_small (st_log s) \<and>
     snapshot_wf (st_snapshot s) \<and> length (st_log s) \<le> MAX_LOG_ENTRIES \<and>
     stable_base s \<le> st_last_applied s \<and> st_last_applied s \<le> st_commit_index s \<and>
     st_commit_index s \<le> stable_base s + length (st_log s) \<and> stable_base s + length (st_log s) < 2 ^ 64"

lemma delivers_count:
  "delivers (\<lambda>es. length es \<le> MAX_LOG_ENTRIES \<and> (base + length es < 2 ^ 64 \<longrightarrow> entries_small es \<and> contiguous base es))
     (decode_log base)"
  unfolding decode_log_def
proof (rule delivers_skip, rule delivers_bind [OF delivers_check])
  fix count
  assume c: "count \<le> MAX_LOG_ENTRIES"
  have len: "delivers (\<lambda>es. length es = count) (take_entries e count)" for e
  proof (induction count arbitrary: e)
    case (Suc k)
    show ?case unfolding take_entries.simps
      by (rule delivers_skip, rule delivers_bind [OF Suc]) (simp add: delivers_return)
  qed (simp add: delivers_return)
  show "delivers (\<lambda>es. length es \<le> MAX_LOG_ENTRIES \<and> (base + length es < 2 ^ 64 \<longrightarrow> entries_small es \<and> contiguous base es))
      (take_entries (base + 1) count)"
  proof (cases "base + 1 + count \<le> 2 ^ 64")
    case True
    from delivers_entries [OF this] c show ?thesis by (auto simp: delivers_def)
  next
    case False
    from len [of "base + 1"] c False show ?thesis by (auto simp: delivers_def)
  qed
qed

lemma delivers_snapshot:
  "delivers (\<lambda>d. length d \<le> MAX_SNAPSHOT_BYTES \<and> (index = 0) = (d = []) \<and> (index = 0) = (sterm = 0))
     (take_snapshot index sterm)"
  unfolding take_snapshot_def
proof (rule delivers_skip, rule delivers_bind [OF delivers_check])
  fix len
  assume "\<not> (len > MAX_SNAPSHOT_BYTES \<or> (index = 0) \<noteq> (len = 0) \<or> (index = 0) \<noteq> (sterm = 0))"
  then show "delivers (\<lambda>d. length d \<le> MAX_SNAPSHOT_BYTES \<and> (index = 0) = (d = []) \<and> (index = 0) = (sterm = 0))
      (take_bytes len)"
    using delivers_bytes [of len] by (auto simp: delivers_def)
qed

lemma delivers_body: "delivers decoded_ok decode_body"
  unfolding decode_body_def
  apply (rule delivers_skip, rule delivers_skip, rule delivers_skip)
  apply (rule delivers_skip, rule delivers_skip, rule delivers_skip)
  apply (rule delivers_skip, rule delivers_skip, rule delivers_skip)
  apply (rule delivers_bind [OF delivers_snapshot])
  apply (rule delivers_bind [OF delivers_count])
  apply (rule delivers_skip)
  apply (rule delivers_bind [OF delivers_check], rule delivers_bind [OF delivers_check])
  apply (rule delivers_return)
  apply (auto simp: decoded_ok_def stable_base_def snapshot_wf_def checked_add_def split: if_splits)
  done

lemma decode_state_sound: "decode_state sha bs = Inr s \<Longrightarrow> decoded_ok s"
  using delivers_body unfolding delivers_def
  by (auto simp: decode_state_def Let_def split: if_splits sum.splits)

section \<open>A sample\<close>

definition zero_sha :: "bytes \<Rightarrow> bytes" where
  "zero_sha b = replicate 32 0"

definition voted_state :: stable_state where
  "voted_state = stable_default\<lparr>st_current_term := 1, st_voted_for := Some 2\<rparr>"

lemma zero_sha_ok: "sha_ok zero_sha"
  by (simp add: sha_ok_def zero_sha_def)

lemma voted_state_ok: "state_ok voted_state" "state_ok stable_default"
  by (simp_all add: voted_state_def stable_default_def state_ok_def stable_wf_def state_u64_def stable_base_def
      entries_small_def snapshot_wf_def U64_MAX_def snap_term_def)

lemma voted_state_encodes: "encode_state zero_sha voted_state = Inr (state_head voted_state @ replicate 32 0)"
  by (simp add: encode_state_def state_check_def voted_state_def stable_default_def stable_base_def
      snap_data_def snap_term_def zero_sha_def)

definition no_files :: raft_files where
  "no_files = \<lparr>rf_state = None, rf_wal = None\<rparr>"

definition new_store :: raft_store where
  "new_store = store_of_loaded \<lparr>ld_state = stable_default, ld_base_digest = None, ld_wal_len = 0\<rparr>"

lemma new_store_stored: "stored sha stable_default no_files new_store"
  by (simp add: stored_def holds_state_def no_files_def new_store_def store_of_loaded_def)

lemma voted_frame: "encode_wal_frame zero_sha voted_state 0 = Inr (frame_bytes zero_sha (wal_head voted_state 0))"
  by (simp add: encode_wal_frame_def wal_body_def voted_state_def stable_default_def)

lemma voted_state_persists: "\<exists>writes st'. persist_at zero_sha new_store voted_state no_files = (writes, Inr st')"
  using voted_frame voted_state_encodes
  by (simp add: persist_at_def Let_def new_store_def store_of_loaded_def stable_default_def)

lemma voted_frame_fits: "first_frame_fits zero_sha new_store voted_state"
  using voted_frame
  by (simp add: first_frame_fits_def new_store_def store_of_loaded_def stable_default_def length_frame
      zero_sha_def length_wal_head WAL_HEADER_LEN_def MAX_WAL_BYTES_def MIN_WAL_FRAME_BODY_def)

end
