(* ===== verification/RaftDurable.thy ===== *)
theory RaftDurable
  imports RaftStore
begin

text \<open>
  A node of \<open>Raft\<close> and its disk. The writes a node asks for are recorded in its ghost field
  \<open>rn_requests\<close>; here every operation is shown to ask only for writes that the store of \<open>RaftStore\<close>
  can make atomically: what goes to the log file continues what was written before.
\<close>

section \<open>Requests\<close>

definition request_ok :: "stable_state \<Rightarrow> persist_request \<Rightarrow> bool" where
  "request_ok old r \<longleftrightarrow> stable_wf (rq_view r) \<and> state_u64 (rq_view r) \<and>
     (rq_snapshot_dirty r \<or>
      may_follow old (rq_view r) (min (rq_durable_log_len r) (length (st_log (rq_view r)))))"

text \<open>Up to the first request that fails, each one fits what the one before it left on disk.\<close>

fun requests_ok :: "stable_state \<Rightarrow> persist_request list \<Rightarrow> bool" where
  "requests_ok s [] \<longleftrightarrow> True"
| "requests_ok s (r # rs) \<longleftrightarrow> request_ok s r \<and> (rq_saved r \<longrightarrow> requests_ok (rq_view r) rs)"

definition last_view :: "stable_state \<Rightarrow> persist_request list \<Rightarrow> stable_state" where
  "last_view s rs = (if rs = [] then s else rq_view (List.last rs))"

lemma requests_ok_snoc:
  "requests_ok s (rs @ [r]) \<longleftrightarrow>
     requests_ok s rs \<and> (all_saved rs \<longrightarrow> request_ok (last_view s rs) r)"
  by (induction rs arbitrary: s) (auto simp: all_saved_def last_view_def)

lemma all_saved_filter: "all_saved rs \<Longrightarrow> filter rq_saved rs = rs"
  by (simp add: all_saved_def list_all_iff)

lemma last_view_snoc [simp]: "last_view s (rs @ [r]) = rq_view r"
  by (simp add: last_view_def)

section \<open>The link between a node and its disk\<close>

definition linked :: "raft_node \<Rightarrow> bool" where
  "linked n \<longleftrightarrow> rn_durable_log_len n \<le> length (rn_log n) \<and>
     (rn_snapshot_dirty n \<or> may_follow (rn_durable n) (stable_view n) (rn_durable_log_len n))"

definition node_u64 :: "raft_node \<Rightarrow> bool" where
  "node_u64 n \<longleftrightarrow> rn_id n < 2 ^ 64 \<and> state_u64 (stable_view n) \<and>
     (\<forall>inc. rn_incoming n = Some inc \<longrightarrow> inc_term inc < 2 ^ 64)"

definition durable_inv :: "stable_state \<Rightarrow> raft_node \<Rightarrow> bool" where
  "durable_inv s n \<longleftrightarrow> rn_storage n \<and> node_u64 n \<and> requests_ok s (rn_requests n) \<and>
     rn_durable n = last_view s (filter rq_saved (rn_requests n)) \<and>
     (all_saved (rn_requests n) \<longrightarrow> linked n)"

definition durable_kept :: "raft_node \<Rightarrow> raft_node \<Rightarrow> bool" where
  "durable_kept n n' \<longleftrightarrow> log_kept n n' \<and> (\<forall>s. raft_wf n \<longrightarrow> durable_inv s n \<longrightarrow> durable_inv s n')"

lemma durable_kept_trans: "durable_kept a b \<Longrightarrow> durable_kept b c \<Longrightarrow> durable_kept a c"
  using log_kept_trans [of a b c] by (auto simp: durable_kept_def log_kept_def)

lemma may_follow_refl: "stable_wf s \<Longrightarrow> may_follow s s (length (st_log s))"
  by (simp add: may_follow_def vote_unchanged_def stable_wf_def split: option.splits)

text \<open>The central step: a write by a linked node is one the store can take, and links the node again.\<close>

lemma persist_durable:
  assumes p: "persist disk m = (ok, n')" and wf: "raft_wf m" and inv: "durable_inv s m"
  shows "durable_inv s n'"
proof -
  let ?r = "\<lambda>ok. \<lparr>rq_view = stable_view m, rq_durable_log_len = rn_durable_log_len m,
       rq_snapshot_dirty = rn_snapshot_dirty m, rq_saved = ok\<rparr>"
  have view: "stable_wf (stable_view m)" using wf by (simp add: raft_wf_def)
  have u: "node_u64 m" using inv by (simp add: durable_inv_def)
  have r: "requests_ok s (rn_requests m @ [?r ok])" for ok
    using inv view u all_saved_filter unfolding requests_ok_snoc
    by (auto simp: durable_inv_def request_ok_def linked_def node_u64_def min_absorb1)
  show ?thesis
  proof (cases rule: persist_cases [where disk = disk and n = m])
    case memory
    then show ?thesis using p inv by simp
  next
    case ok
    then have n': "n' = persisted m" using p by simp
    have v: "stable_view n' = stable_view m" by (simp add: n' stable_view_def)
    have q: "rn_requests n' = rn_requests m @ [?r True]" by (simp add: n' persisted_def requested_def)
    have "linked n'" using may_follow_refl [OF view] by (simp add: linked_def v) (simp add: n')
    moreover have "node_u64 n'" using u by (simp add: node_u64_def v) (simp add: n')
    ultimately show ?thesis using r ok(1) by (simp add: durable_inv_def q) (simp add: n')
  next
    case (failed e)
    then have n': "n' = fail_stop (requested False m) (DiskError e)" using p by simp
    have v: "stable_view n' = stable_view m" by (simp add: n' stable_view_def)
    have q: "rn_requests n' = rn_requests m @ [?r False]" by (simp add: n' requested_def)
    have "node_u64 n'" using u by (simp add: node_u64_def v) (simp add: n')
    moreover have "rn_durable n' = rn_durable m" by (simp add: n')
    ultimately show ?thesis using r inv by (simp add: durable_inv_def q) (simp add: n')
  qed
qed

lemma durable_kept_persist:
  "durable_kept n m \<Longrightarrow> persist disk m = (ok, n') \<Longrightarrow> durable_kept n n'"
  using log_kept_persist [of disk m ok n' n] persist_durable [of disk m ok n']
  by (auto simp: durable_kept_def log_kept_def)

lemma durable_kept_snd_persist: "durable_kept n m \<Longrightarrow> durable_kept n (snd (persist disk m))"
  using durable_kept_persist [of n m disk] by (metis prod.collapse)

section \<open>Changes in memory\<close>

text \<open>What may change between two writes: nothing the last write and the kept part of the log cover.\<close>

definition step_ok :: "raft_node \<Rightarrow> raft_node \<Rightarrow> bool" where
  "step_ok n m \<longleftrightarrow> rn_snapshot m = rn_snapshot n \<and> rn_current_term n \<le> rn_current_term m \<and>
     rn_commit_index n \<le> rn_commit_index m \<and> rn_last_applied n \<le> rn_last_applied m \<and>
     rn_boot_counter n \<le> rn_boot_counter m \<and>
     vote_unchanged (stable_view n) (rn_current_term m) (rn_voted_for m) \<and>
     (rn_durable_log_len m = rn_durable_log_len n \<or> rn_durable_log_len m \<le> rn_durable_log_len n \<and>
        rn_commit_index n \<le> snapshot_index n + rn_durable_log_len m) \<and>
     take (rn_durable_log_len m) (rn_log m) = take (rn_durable_log_len m) (rn_log n)"

definition memory_step :: "raft_node \<Rightarrow> raft_node \<Rightarrow> bool" where
  "memory_step n m \<longleftrightarrow> rn_durable_log_len m \<le> length (rn_log m) \<and>
     (rn_snapshot_dirty m \<or> \<not> rn_snapshot_dirty n \<and> step_ok n m)"

definition same_books :: "raft_node \<Rightarrow> raft_node \<Rightarrow> bool" where
  "same_books n m \<longleftrightarrow> rn_storage m = rn_storage n \<and> rn_durable m = rn_durable n \<and>
     rn_requests m = rn_requests n \<and> rn_id m = rn_id n"

lemma vote_unchanged_trans:
  "vote_unchanged old (st_current_term s) (st_voted_for s) \<Longrightarrow> vote_unchanged s t v \<Longrightarrow>
   st_current_term old \<le> st_current_term s \<Longrightarrow> st_current_term s \<le> t \<Longrightarrow> vote_unchanged old t v"
  by (auto simp: vote_unchanged_def split: option.splits)

lemma step_ok_follows:
  assumes f: "may_follow old (stable_view n) (rn_durable_log_len n)" and s: "step_ok n m"
    and len: "rn_durable_log_len m \<le> length (rn_log m)"
  shows "may_follow old (stable_view m) (rn_durable_log_len m)"
proof -
  let ?k = "rn_durable_log_len n" and ?j = "rn_durable_log_len m"
  have j: "?j \<le> ?k" using s by (auto simp: step_ok_def)
  have b: "stable_base old = snapshot_index n"
    using f by (simp add: may_follow_def stable_base_def snapshot_index_def)
  have "take ?j (st_log old) = take ?j (rn_log n)"
  proof -
    have "take ?k (st_log old) = take ?k (rn_log n)" using f by (simp add: may_follow_def)
    then have "take ?j (take ?k (st_log old)) = take ?j (take ?k (rn_log n))" by (rule arg_cong)
    then show ?thesis using j by (simp add: min_absorb1)
  qed
  then have t: "take ?j (st_log old) = take ?j (rn_log m)" using s by (simp add: step_ok_def)
  have "vote_unchanged old (rn_current_term m) (rn_voted_for m)"
    by (rule vote_unchanged_trans [of old "stable_view n"]) (use f s in \<open>simp_all add: may_follow_def step_ok_def\<close>)
  moreover have "st_commit_index old \<le> stable_base old + ?j"
  proof -
    have "st_commit_index old \<le> snapshot_index n + ?k" "st_commit_index old \<le> rn_commit_index n"
      using f b by (simp_all add: may_follow_def)
    moreover have "?j = ?k \<or> rn_commit_index n \<le> snapshot_index n + ?j" using s by (auto simp: step_ok_def)
    ultimately show ?thesis using b by auto
  qed
  ultimately show ?thesis using f s j t len by (simp add: may_follow_def step_ok_def)
qed

lemma durable_kept_step:
  assumes l: "log_kept n m" and d: "raft_wf n \<Longrightarrow> linked n \<Longrightarrow> memory_step n m"
    and b: "same_books n m"
    and u: "raft_wf n \<Longrightarrow> node_u64 n \<Longrightarrow> node_u64 m"
  shows "durable_kept n m"
proof -
  have "linked m" if "raft_wf n" "linked n"
    using d [OF that] that b step_ok_follows [of "rn_durable n" n m]
    by (auto simp: linked_def memory_step_def same_books_def)
  then show ?thesis using l u b by (auto simp: durable_kept_def durable_inv_def same_books_def)
qed

text \<open>The changes that leave the saved fields alone.\<close>

definition same_saved :: "raft_node \<Rightarrow> raft_node \<Rightarrow> bool" where
  "same_saved n m \<longleftrightarrow> same_log n m \<and> same_books n m \<and> rn_current_term m = rn_current_term n \<and>
     rn_voted_for m = rn_voted_for n \<and> rn_boot_counter m = rn_boot_counter n \<and>
     rn_snapshot_dirty m = rn_snapshot_dirty n \<and> rn_durable_log_len m = rn_durable_log_len n"

lemma step_ok_refl: "step_ok n n"
  by (simp add: step_ok_def vote_unchanged_def split: option.splits)

lemma state_u64_view:
  "state_u64 (stable_view n) \<longleftrightarrow> rn_current_term n < 2 ^ 64 \<and> (\<forall>i. rn_voted_for n = Some i \<longrightarrow> i < 2 ^ 64) \<and>
     rn_boot_counter n < 2 ^ 64 \<and> (\<forall>s. rn_snapshot n = Some s \<longrightarrow> sn_term s < 2 ^ 64) \<and>
     (\<forall>e \<in> set (rn_log n). le_term e < 2 ^ 64)"
  by (auto simp: state_u64_def snap_term_def list_all_iff split: option.splits)

lemma same_saved_u64: "same_saved n m \<Longrightarrow> node_u64 n \<Longrightarrow> node_u64 m"
  unfolding node_u64_def state_u64_view same_saved_def same_log_def same_books_def by auto

lemma durable_kept_same:
  assumes "same_saved n m"
  shows "durable_kept n m"
proof (rule durable_kept_step)
  show "log_kept n m" using assms by (simp add: same_saved_def log_kept_same)
  show "same_books n m" using assms by (simp add: same_saved_def)
  show "raft_wf n \<Longrightarrow> node_u64 n \<Longrightarrow> node_u64 m" using same_saved_u64 [OF assms] by simp
  assume "raft_wf n" "linked n"
  then show "memory_step n m"
    using assms step_ok_refl [of n]
    by (auto simp: memory_step_def linked_def same_saved_def same_log_def step_ok_def)
qed

lemma durable_kept_refl: "durable_kept n n"
  by (rule durable_kept_same) (simp add: same_saved_def same_log_def same_books_def)

text \<open>A new tail of the log and higher indexes.\<close>

definition grown :: "raft_node \<Rightarrow> raft_node \<Rightarrow> bool" where
  "grown n m \<longleftrightarrow> same_books n m \<and> rn_snapshot_dirty m = rn_snapshot_dirty n \<and>
     rn_durable_log_len m = rn_durable_log_len n \<and> rn_snapshot m = rn_snapshot n \<and>
     rn_current_term m = rn_current_term n \<and> rn_voted_for m = rn_voted_for n \<and>
     rn_boot_counter n \<le> rn_boot_counter m \<and> rn_boot_counter m \<le> max (rn_boot_counter n) U64_MAX \<and>
     (\<exists>es. rn_log m = rn_log n @ es \<and> (\<forall>e \<in> set es. le_term e = rn_current_term n)) \<and>
     (rn_incoming m = rn_incoming n \<or> rn_incoming m = None)"

lemma durable_kept_grown:
  assumes l: "log_kept n m" and g: "grown n m"
  shows "durable_kept n m"
proof (rule durable_kept_step [OF l])
  obtain es where es: "rn_log m = rn_log n @ es" "\<forall>e \<in> set es. le_term e = rn_current_term n"
    using g by (auto simp: grown_def)
  show "same_books n m" using g by (simp add: grown_def)
  show "raft_wf n \<Longrightarrow> node_u64 n \<Longrightarrow> node_u64 m"
    using g es unfolding node_u64_def state_u64_view by (auto simp: grown_def same_books_def U64_MAX_def)
  assume "raft_wf n" and k: "linked n"
  then have "committed_kept n m" using l by (simp add: log_kept_def)
  then have "step_ok n m" 
    using g es k by (auto simp: step_ok_def grown_def committed_kept_def linked_def vote_unchanged_def split: option.splits)
  then show "memory_step n m"
    using g es k by (auto simp: memory_step_def linked_def grown_def)
qed

text \<open>A new term or vote.\<close>

lemma durable_kept_ballot:
  assumes s: "same_log n m" "same_books n m" and b: "rn_boot_counter m = rn_boot_counter n"
      "rn_snapshot_dirty m = rn_snapshot_dirty n" "rn_durable_log_len m = rn_durable_log_len n"
    and t: "rn_current_term n \<le> rn_current_term m"
      "vote_unchanged (stable_view n) (rn_current_term m) (rn_voted_for m)"
    and u: "node_u64 n \<Longrightarrow> rn_current_term m < 2 ^ 64 \<and> (\<forall>i. rn_voted_for m = Some i \<longrightarrow> i < 2 ^ 64)"
  shows "durable_kept n m"
proof (rule durable_kept_step [OF log_kept_same [OF s(1)]])
  show "same_books n m" by (rule s(2))
  from s b u show "raft_wf n \<Longrightarrow> node_u64 n \<Longrightarrow> node_u64 m"
    unfolding node_u64_def state_u64_view same_log_def same_books_def by auto
  assume "raft_wf n" and "linked n"
  with s b t show "memory_step n m"
    by (auto simp: memory_step_def linked_def same_log_def step_ok_def)
qed

section \<open>Every operation\<close>

lemma advance_commit_durable: "durable_kept n (advance_commit n)"
  by (rule durable_kept_grown [OF advance_commit_kept])
    (simp add: grown_def same_books_def)

lemma push_noop_durable:
  assumes "checked_add (last_index n) 1 = Some i"
  shows "durable_kept n (push_noop i n)"
proof -
  have "durable_kept n (n\<lparr>rn_log := rn_log n @ [\<lparr>le_term = rn_current_term n, le_index = i, le_data = []\<rparr>]\<rparr>)"
    by (rule durable_kept_grown [OF push_kept [OF assms]]) (simp add: grown_def same_books_def)
  then show ?thesis unfolding push_noop_def by (rule durable_kept_trans) (rule advance_commit_durable)
qed

lemma quiet_durable:
  "durable_kept n (lead n)" "durable_kept n (fail_stop n e)" "durable_kept n (init_progress n)"
  "durable_kept n (follow l t n)" "durable_kept n (n\<lparr>rn_votes := vs\<rparr>)"
  "durable_kept n (n\<lparr>rn_election_elapsed := k\<rparr>)" "durable_kept n (n\<lparr>rn_heartbeat_elapsed := k\<rparr>)"
  "durable_kept n (n\<lparr>rn_match_index := a, rn_next_index := b\<rparr>)" "durable_kept n (n\<lparr>rn_next_index := b\<rparr>)"
  "durable_kept n (n\<lparr>rn_snapshot_offsets := o', rn_match_index := a, rn_next_index := b\<rparr>)"
  "durable_kept n (n\<lparr>rn_snapshot_offsets := o'\<rparr>)" "durable_kept n (n\<lparr>rn_incoming := None\<rparr>)"
  by (rule durable_kept_same, simp add: same_saved_def same_books_def same_log_def lead_def init_progress_def
      follow_def Let_def split: option.splits)+

lemma become_leader_durable: "durable_kept n (become_leader disk n)"
proof (cases "length (rn_log n) \<ge> MAX_LOG_ENTRIES")
  case True
  then show ?thesis
    using durable_kept_trans [OF quiet_durable(1) quiet_durable(2)] by (simp add: become_leader_def)
next
  case False
  show ?thesis
  proof (cases "checked_add (last_index n) 1")
    case None
    then show ?thesis using False durable_kept_trans [OF quiet_durable(1) quiet_durable(2)]
      by (simp add: become_leader_def)
  next
    case (Some i)
    have "durable_kept n (push_noop i (lead n))"
      using durable_kept_trans [OF quiet_durable(1) push_noop_durable] Some last_index_lead by simp
    then have p: "durable_kept n (snd (persist disk (push_noop i (lead n))))"
      by (rule durable_kept_snd_persist)
    then show ?thesis
      using False Some durable_kept_trans [OF p quiet_durable(3)]
      by (cases "persist disk (push_noop i (lead n))") (simp add: become_leader_def split: bool.splits)
  qed
qed

lemma stand_durable:
  assumes "checked_add (rn_current_term n) 1 = Some t"
  shows "durable_kept n (stand t n)"
proof (rule durable_kept_ballot)
  have t: "t = rn_current_term n + 1" "t \<le> U64_MAX"
    using assms by (auto simp: checked_add_def U64_MAX_def split: if_splits)
  then show "vote_unchanged (stable_view n) (rn_current_term (stand t n)) (rn_voted_for (stand t n))"
    "rn_current_term n \<le> rn_current_term (stand t n)"
    by (simp_all add: vote_unchanged_def stand_def)
  show "node_u64 n \<Longrightarrow> rn_current_term (stand t n) < 2 ^ 64 \<and> (\<forall>i. rn_voted_for (stand t n) = Some i \<longrightarrow> i < 2 ^ 64)"
    using t by (simp add: node_u64_def stand_def U64_MAX_def)
qed (simp_all add: stand_def same_log_def same_books_def)

lemma start_election_durable: "durable_kept n (snd (start_election disk n))"
proof (cases "checked_add (rn_current_term n) 1")
  case None
  then show ?thesis by (simp add: start_election_def quiet_durable)
next
  case (Some t)
  obtain ok m where p: "persist disk (stand t n) = (ok, m)" by fastforce
  have m: "durable_kept n m" by (rule durable_kept_persist [OF stand_durable [OF Some] p])
  then have "durable_kept n (become_leader disk m)" using durable_kept_trans become_leader_durable by blast
  with m Some p show ?thesis by (simp add: start_election_def split: bool.splits)
qed

lemma tick_durable: "durable_kept n (snd (tick disk n))"
proof -
  have "durable_kept n (snd (start_election disk (n\<lparr>rn_election_elapsed := k\<rparr>)))" for k
    using quiet_durable(6) start_election_durable durable_kept_trans by blast
  then show ?thesis
    using quiet_durable(6,7) durable_kept_refl by (auto simp: tick_def Let_def split: role.splits)
qed

lemma request_vote_durable:
  assumes "c < 2 ^ 64"
  shows "durable_kept n (snd (handle_request_vote disk t c li lt n))"
proof -
  let ?m = "reset_election_timeout (n\<lparr>rn_voted_for := Some c\<rparr>)"
  let ?free = "case rn_voted_for n of None \<Rightarrow> True | Some voted \<Rightarrow> voted = c"
  { assume v: ?free
    have "durable_kept n ?m"
    proof (rule durable_kept_ballot)
      show "vote_unchanged (stable_view n) (rn_current_term ?m) (rn_voted_for ?m)"
        using v by (simp add: vote_unchanged_def split: option.splits)
      show "node_u64 n \<Longrightarrow> rn_current_term ?m < 2 ^ 64 \<and> (\<forall>i. rn_voted_for ?m = Some i \<longrightarrow> i < 2 ^ 64)"
        using assms by (simp add: node_u64_def state_u64_view)
    qed (simp_all add: same_log_def same_books_def)
    then have "durable_kept n (snd (persist disk ?m))" by (rule durable_kept_snd_persist) }
  then show ?thesis
    using durable_kept_refl
    by (auto simp: handle_request_vote_def Let_def split: prod.splits bool.splits)
qed

lemma vote_resp_durable: "durable_kept n (snd (handle_vote_resp disk from t g n))"
proof -
  have "durable_kept n (become_leader disk (n\<lparr>rn_votes := v\<rparr>))" for v
    using quiet_durable(5) become_leader_durable durable_kept_trans by blast
  then show ?thesis using quiet_durable(5) durable_kept_refl by (simp add: handle_vote_resp_def Let_def)
qed

section \<open>Appending\<close>

lemma step_ok_trans:
  assumes ab: "step_ok a b" and bc: "step_ok b c"
  shows "step_ok a c"
proof -
  let ?k = "rn_durable_log_len b" and ?j = "rn_durable_log_len c"
  have j: "?j \<le> ?k" using bc by (auto simp: step_ok_def)
  have "take ?j (rn_log c) = take ?j (rn_log a)"
  proof -
    have "take ?k (rn_log b) = take ?k (rn_log a)" using ab by (simp add: step_ok_def)
    then have "take ?j (take ?k (rn_log b)) = take ?j (take ?k (rn_log a))" by (rule arg_cong)
    then show ?thesis using j bc by (simp add: min_absorb1 step_ok_def)
  qed
  moreover have "vote_unchanged (stable_view a) (rn_current_term c) (rn_voted_for c)"
    by (rule vote_unchanged_trans [of _ "stable_view b"]) (use ab bc in \<open>simp_all add: step_ok_def\<close>)
  moreover have "snapshot_index b = snapshot_index a" using ab by (simp add: step_ok_def snapshot_index_def)
  ultimately show ?thesis using ab bc unfolding step_ok_def by auto
qed

lemma append_loop_step:
  "b = snapshot_index n \<Longrightarrow> b < U64_MAX \<Longrightarrow> rn_durable_log_len n \<le> length (rn_log n) \<Longrightarrow>
   snd (append_entries_loop l b es ch n) = m \<Longrightarrow>
   step_ok n m \<and> rn_durable_log_len m \<le> length (rn_log m)"
proof (induction l b es ch n rule: append_entries_loop.induct)
  case (1 l b ch n)
  then show ?case by (simp add: step_ok_refl)
next
  case (2 l b entry rest ch n)
  let ?off = "le_index entry - sat_add b 1"
  have b1: "sat_add b 1 = b + 1" using 2(5) by (simp add: sat_add_def)
  have same: "step_ok n n" "step_ok n (fail_stop n e)" for e
    using step_ok_refl [of n] by (simp_all add: step_ok_def)
  consider (low) "le_index entry < sat_add b 1"
    | (rewrite) "\<not> le_index entry < sat_add b 1" "?off < length (rn_log n)"
        "le_term (rn_log n ! ?off) \<noteq> le_term entry \<or> le_data (rn_log n ! ?off) \<noteq> le_data entry"
        "le_index entry \<le> rn_commit_index n"
    | (cut) "\<not> le_index entry < sat_add b 1" "?off < length (rn_log n)"
        "le_term (rn_log n ! ?off) \<noteq> le_term entry \<or> le_data (rn_log n ! ?off) \<noteq> le_data entry"
        "\<not> le_index entry \<le> rn_commit_index n"
    | (keep) "\<not> le_index entry < sat_add b 1" "?off < length (rn_log n)"
        "\<not> (le_term (rn_log n ! ?off) \<noteq> le_term entry \<or> le_data (rn_log n ! ?off) \<noteq> le_data entry)"
    | (push) "\<not> le_index entry < sat_add b 1" "\<not> ?off < length (rn_log n)" "?off = length (rn_log n)"
    | (gap) "\<not> le_index entry < sat_add b 1" "?off > length (rn_log n)"
    by linarith
  then show ?case
  proof cases
    case cut
    let ?m = "n\<lparr>rn_log := take ?off (rn_log n) @ [entry], rn_durable_log_len := min (rn_durable_log_len n) ?off\<rparr>"
    have v: "step_ok n ?m"
      using same(1) cut 2(4) b1 unfolding step_ok_def by (auto simp: min_def)
    have b: "b = snapshot_index ?m" using 2(4) by (simp add: snapshot_index_def)
    have r: "snd (append_entries_loop l b rest True ?m) = m" using cut 2(7) by (simp add: Let_def)
    have "step_ok ?m m \<and> rn_durable_log_len m \<le> length (rn_log m)"
      by (rule 2(1) [OF cut(1) refl cut(2,3,4) b 2(5) _ r]) (use 2(6) cut(2) in simp)
    then show ?thesis using step_ok_trans [OF v, of m] by auto
  next
    case keep
    have r: "snd (append_entries_loop l b rest ch n) = m" using keep 2(7) by (simp add: Let_def)
    from 2(2) [OF keep(1) refl keep(2,3) 2(4-6) r] show ?thesis by auto
  next
    case push
    let ?m = "n\<lparr>rn_log := rn_log n @ [entry]\<rparr>"
    have v: "step_ok n ?m" using same(1) 2(6) by (simp add: step_ok_def)
    have b: "b = snapshot_index ?m" using 2(4) by (simp add: snapshot_index_def)
    have r: "snd (append_entries_loop l b rest True ?m) = m" using push 2(7) by (simp add: Let_def)
    have "step_ok ?m m \<and> rn_durable_log_len m \<le> length (rn_log m)"
      by (rule 2(3) [OF push(1) refl push(2,3) b 2(5) _ r]) (use 2(6) in simp)
    then show ?thesis using step_ok_trans [OF v, of m] by auto
  qed (use same 2(6,7) in \<open>auto simp: Let_def\<close>)
qed

lemma append_loop_set: "set (rn_log (snd (append_entries_loop l b es ch n))) \<subseteq> set (rn_log n) \<union> set es"
proof (induction l b es ch n rule: append_entries_loop.induct)
  case (2 l b entry rest ch n)
  let ?off = "le_index entry - sat_add b 1"
  consider (cut) "\<not> le_index entry < sat_add b 1" "?off < length (rn_log n)"
        "le_term (rn_log n ! ?off) \<noteq> le_term entry \<or> le_data (rn_log n ! ?off) \<noteq> le_data entry"
        "\<not> le_index entry \<le> rn_commit_index n"
    | (keep) "\<not> le_index entry < sat_add b 1" "?off < length (rn_log n)"
        "\<not> (le_term (rn_log n ! ?off) \<noteq> le_term entry \<or> le_data (rn_log n ! ?off) \<noteq> le_data entry)"
    | (push) "\<not> le_index entry < sat_add b 1" "\<not> ?off < length (rn_log n)" "?off = length (rn_log n)"
    | (stop) "rn_log (snd (append_entries_loop l b (entry # rest) ch n)) = rn_log n"
    by (fastforce simp: Let_def split: if_splits)
  then show ?case
  proof cases
    case cut
    then show ?thesis
      using 2(1) [OF cut(1) refl cut(2,3,4)] set_take_subset [of ?off "rn_log n"] by (auto simp: Let_def)
  next
    case keep
    then show ?thesis using 2(2) [OF keep(1) refl keep(2,3)] by (auto simp: Let_def)
  next
    case push
    then show ?thesis using 2(3) [OF push(1) refl push(2,3)] by (auto simp: Let_def)
  next
    case stop
    then show ?thesis by (simp only: Un_upper1)
  qed
qed simp

lemma append_loop_durable:
  assumes loop: "append_entries_loop l (snapshot_index n) es ch n = (res, n')"
    and es: "u64_entries es" "entries_small es" "\<forall>e \<in> set es. le_term e < 2 ^ 64"
  shows "durable_kept n n'"
proof (rule durable_kept_step [OF append_loop_log_kept [OF loop es(1,2)]])
  have shape: "same_books n n' \<and> rn_snapshot_dirty n' = rn_snapshot_dirty n \<and> rn_incoming n' = rn_incoming n \<and>
      rn_current_term n' = rn_current_term n \<and> rn_voted_for n' = rn_voted_for n \<and>
      rn_boot_counter n' = rn_boot_counter n \<and> rn_snapshot n' = rn_snapshot n"
    using loop by (cases rule: append_entries_loopE) (simp_all add: same_books_def)
  then show "same_books n n'" by blast
  have n': "snd (append_entries_loop l (snapshot_index n) es ch n) = n'" using loop by simp
  have sub: "set (rn_log n') \<subseteq> set (rn_log n) \<union> set es"
    using append_loop_set [of l "snapshot_index n" es ch n] n' by simp
  assume wf: "raft_wf n"
  show "node_u64 n'" if "node_u64 n"
    using that shape sub es(3) unfolding node_u64_def state_u64_view by (auto simp: same_books_def)
  assume k: "linked n"
  have b: "snapshot_index n < U64_MAX" using wf by (simp add: raft_wf_def stable_wf_def)
  show "memory_step n n'" using append_loop_step [OF refl b _ n'] k shape by (auto simp: memory_step_def linked_def)
qed

lemma finish_append_durable: "durable_kept n (snd (finish_append disk l c ln ch n))"
proof -
  let ?m = "if c > rn_commit_index n then n\<lparr>rn_commit_index := min c (last_index n)\<rparr> else n"
  have m: "durable_kept n ?m"
    by (rule durable_kept_grown [OF commit_kept]) (simp add: grown_def same_books_def)
  then have p: "durable_kept n (snd (persist disk ?m))" by (rule durable_kept_snd_persist)
  show ?thesis
  proof (cases "length (rn_log n) > MAX_LOG_ENTRIES")
    case True
    then show ?thesis by (simp add: finish_append_def quiet_durable)
  next
    case False
    then show ?thesis using m p
      by (cases "persist disk ?m") (simp add: finish_append_def Let_def split: bool.splits)
  qed
qed

lemma handle_append_durable:
  assumes es: "u64_entries es" "\<forall>e \<in> set es. le_term e < 2 ^ 64"
  shows "durable_kept n (snd (handle_append disk t l pi pt es c n))"
proof -
  let ?m = "follow l t n"
  note refl = durable_kept_refl [of n] and f = quiet_durable(4) [of n l t]
  obtain res n' where loop: "append_entries_loop l (snapshot_index ?m) es False ?m = (res, n')" by fastforce
  show ?thesis
  proof (cases "entries_small es")
    case True
    have a: "durable_kept n n'"
      using f append_loop_durable [OF loop es(1) True es(2)] durable_kept_trans by blast
    then have "durable_kept n (snd (finish_append disk l c ln ch n'))" for ln ch
      using finish_append_durable durable_kept_trans by blast
    with a loop have e: "durable_kept n (snd (case append_entries_loop l (snapshot_index ?m) es False ?m of
        (Inl out, n) \<Rightarrow> (out, n)
      | (Inr ch, n) \<Rightarrow> finish_append disk l c (if es = [] then pi else le_index (List.last es)) ch n))"
      by (simp split: sum.splits)
    show ?thesis
    proof (cases "t = rn_current_term n")
      case True
      then show ?thesis using refl f e by (simp add: handle_append_def Let_def)
    qed (simp add: handle_append_def refl)
  next
    case False
    then have "list_ex (\<lambda>e. length (le_data e) > MAX_ENTRY_BYTES) es"
      by (auto simp: entries_small_def list_all_iff list_ex_iff not_le)
    with refl show ?thesis by (simp add: handle_append_def)
  qed
qed

lemma append_resp_durable: "durable_kept n (snd (handle_append_resp from t s mi n))"
proof -
  have "durable_kept n (advance_commit (n\<lparr>rn_match_index := a, rn_next_index := b\<rparr>))" for a b
    using quiet_durable(8) advance_commit_durable durable_kept_trans by blast
  then show ?thesis using quiet_durable(9) durable_kept_refl by (simp add: handle_append_resp_def Let_def)
qed

lemma snapshot_resp_durable: "durable_kept n (snd (handle_install_snapshot_resp from t li no inst n))"
proof -
  have "durable_kept n (advance_commit (n\<lparr>rn_snapshot_offsets := o', rn_match_index := a, rn_next_index := b\<rparr>))"
    for a b o'
    using quiet_durable(10) advance_commit_durable durable_kept_trans by blast
  then show ?thesis
    using quiet_durable(11) durable_kept_refl
    by (simp add: handle_install_snapshot_resp_def Let_def split: option.splits)
qed

section \<open>Snapshots\<close>

lemma incoming_durable:
  assumes "log_kept n m" "same_saved n (m\<lparr>rn_incoming := None\<rparr>)"
    and "\<And>inc. rn_incoming m = Some inc \<Longrightarrow> node_u64 n \<Longrightarrow> inc_term inc < 2 ^ 64"
  shows "durable_kept n m"
proof (rule durable_kept_step [OF assms(1)])
  let ?k = "m\<lparr>rn_incoming := None\<rparr>"
  show "same_books n m" using assms(2) by (simp add: same_saved_def same_books_def)
  show "raft_wf n \<Longrightarrow> node_u64 n \<Longrightarrow> node_u64 m"
    using same_saved_u64 [OF assms(2)] assms(3) unfolding node_u64_def state_u64_view by auto
  assume "linked n"
  then show "memory_step n m"
    using assms(2) step_ok_refl [of n]
    by (auto simp: memory_step_def linked_def same_saved_def same_log_def step_ok_def)
qed

text \<open>A chunk changes nothing but the snapshot being received, whose term is the message's or stays.\<close>

definition receives :: "nat \<Rightarrow> raft_node \<Rightarrow> raft_node \<Rightarrow> bool" where
  "receives lt n m \<longleftrightarrow> same_saved n (m\<lparr>rn_incoming := None\<rparr>) \<and>
     (\<forall>inc. rn_incoming m = Some inc \<longrightarrow>
        inc_term inc = lt \<or> (\<exists>inc'. rn_incoming n = Some inc' \<and> inc_term inc = inc_term inc'))"

lemma receive_chunk_receives:
  "receives lt n m \<Longrightarrow> inc_term inc = lt \<Longrightarrow> receives lt n (snd (receive_chunk inc l li off d dn m))"
  by (simp add: receive_chunk_def receives_def Let_def)

lemma install_snapshot_receives: "receives lt n (snd (handle_install_snapshot t l li lt off d dn n))"
proof -
  let ?m = "reset_election_timeout (n\<lparr>rn_role := Follower, rn_leader_id := Some l\<rparr>)"
  have r: "receives lt n n" "receives lt n ?m" "receives lt n (?m\<lparr>rn_incoming := None\<rparr>)"
    "inc_term inc = lt \<Longrightarrow> receives lt n (?m\<lparr>rn_incoming := Some inc\<rparr>)" for inc
    by (auto simp: receives_def same_saved_def same_books_def same_log_def)
  show ?thesis
    using r receive_chunk_receives [OF r(2)] receive_chunk_receives [OF r(4)]
    by (simp add: handle_install_snapshot_def Let_def split: option.splits)
qed

lemma install_snapshot_durable:
  assumes "lt < 2 ^ 64"
  shows "durable_kept n (snd (handle_install_snapshot t l li lt off d dn n))"
  by (rule incoming_durable [OF install_snapshot_kept])
    (use assms install_snapshot_receives [of lt n t l li off d dn] in \<open>auto simp: receives_def node_u64_def\<close>)

text \<open>A new snapshot is written as a whole, so the log may change freely under it.\<close>

lemma snapshot_durable:
  assumes l: "log_kept n m" and b: "same_books n m" and d: "rn_snapshot_dirty m" "rn_durable_log_len m = 0"
    and u: "node_u64 n \<Longrightarrow> node_u64 m"
  shows "durable_kept n m"
  by (rule durable_kept_step [OF l]) (use b d u in \<open>simp_all add: memory_step_def\<close>)

lemma term_at_u64: "node_u64 n \<Longrightarrow> term_at n i < 2 ^ 64"
  unfolding node_u64_def state_u64_view by (auto simp: term_at_def Let_def split: option.splits)

lemma compacted_u64: "node_u64 n \<Longrightarrow> node_u64 (compacted d n)"
  using term_at_u64 [of n "rn_last_applied n"] unfolding node_u64_def state_u64_view
  by (auto simp: compacted_def dest: in_set_dropD)

lemma compact_durable:
  assumes "rn_last_applied n < U64_MAX"
  shows "durable_kept n (snd (compact disk d n))"
proof (cases "compact_check n d")
  case (Some e)
  then show ?thesis by (simp add: compact_def durable_kept_refl)
next
  case None
  have "durable_kept n (compacted d n)"
    by (rule snapshot_durable [OF compacted_kept [OF assms None]])
      (simp_all add: compacted_u64, simp_all add: compacted_def same_books_def)
  then have "durable_kept n (snd (persist disk (compacted d n)))" by (rule durable_kept_snd_persist)
  with None show ?thesis by (cases "persist disk (compacted d n)") (simp add: compact_def split: bool.splits)
qed

lemma install_u64: "node_u64 n \<Longrightarrow> rn_incoming n = Some inc \<Longrightarrow> node_u64 (install inc n)"
  unfolding node_u64_def state_u64_view by (auto simp: install_def Let_def dest: in_set_dropD)

lemma finish_install_durable:
  assumes "install_allowed n"
  shows "durable_kept n (snd (finish_snapshot_install disk i n))"
proof (cases "incoming_ready n")
  case None
  then show ?thesis by (simp add: finish_snapshot_install_def durable_kept_refl)
next
  case (Some inc)
  then have inc: "rn_incoming n = Some inc" "inc_complete inc"
    by (auto simp: incoming_ready_def split: option.splits if_splits)
  have "durable_kept n (install inc n)"
    by (rule snapshot_durable [OF install_kept [OF inc assms]])
      (simp_all add: install_u64 inc, simp_all add: install_def Let_def same_books_def)
  then have p: "durable_kept n (snd (persist disk (install inc n)))" by (rule durable_kept_snd_persist)
  show ?thesis
    using Some p durable_kept_trans [OF p quiet_durable(12)] durable_kept_refl
    by (cases "persist disk (install inc n)") (simp add: finish_snapshot_install_def split: bool.splits)
qed

section \<open>Proposing, applying, starting\<close>

lemma mark_applied_durable: "durable_kept n (snd (mark_applied_batch disk f l n))"
proof (cases "f \<noteq> sat_add (rn_last_applied n) 1 \<or> l < f \<or> l > rn_commit_index n")
  case True
  then show ?thesis by (auto simp: mark_applied_batch_def durable_kept_refl)
next
  case False
  have "durable_kept n (n\<lparr>rn_last_applied := l\<rparr>)"
    by (rule durable_kept_grown [OF applied_kept [OF False]]) (simp add: grown_def same_books_def)
  then have "durable_kept n (snd (persist disk (n\<lparr>rn_last_applied := l\<rparr>)))" by (rule durable_kept_snd_persist)
  with False show ?thesis
    by (cases "persist disk (n\<lparr>rn_last_applied := l\<rparr>)") (simp add: mark_applied_batch_def split: bool.splits)
qed

lemma propose_durable: "durable_kept n (snd (propose_batch disk es n))"
proof (cases "propose_check n es")
  case (Inl e)
  then show ?thesis by (simp add: propose_batch_def durable_kept_refl)
next
  case (Inr i)
  let ?m = "n\<lparr>rn_log := rn_log n @ new_entries (rn_current_term n) i es\<rparr>"
  have "durable_kept n ?m"
    by (rule durable_kept_grown [OF proposed_kept [OF Inr]])
      (auto simp: grown_def same_books_def new_entries_def)
  then have "durable_kept n (advance_commit ?m)" by (rule durable_kept_trans) (rule advance_commit_durable)
  then have "durable_kept n (snd (persist disk (advance_commit ?m)))" by (rule durable_kept_snd_persist)
  with Inr show ?thesis
    by (cases "persist disk (advance_commit ?m)") (simp add: propose_batch_def split: bool.splits)
qed

lemma boot_session_durable: "durable_kept n (snd (next_boot_session disk now n))"
proof (cases "checked_add (max (rn_boot_counter n) now) 1")
  case None
  then show ?thesis by (simp add: next_boot_session_def durable_kept_refl)
next
  case (Some k)
  then have k: "rn_boot_counter n \<le> k" "k \<le> U64_MAX"
    by (auto simp: checked_add_def U64_MAX_def split: if_splits)
  have "durable_kept n (n\<lparr>rn_boot_counter := k\<rparr>)"
    by (rule durable_kept_grown [OF log_kept_same])
      (use k in \<open>simp_all add: same_log_def grown_def same_books_def\<close>)
  then have "durable_kept n (snd (persist disk (n\<lparr>rn_boot_counter := k\<rparr>)))" by (rule durable_kept_snd_persist)
  with Some show ?thesis
    by (cases "persist disk (n\<lparr>rn_boot_counter := k\<rparr>)") (simp add: next_boot_session_def split: bool.splits)
qed

lemma observe_term_durable:
  assumes "t < 2 ^ 64" "observe_term disk t n = (ok, m)"
  shows "durable_kept n m"
proof (cases "t > rn_current_term n")
  case False
  then show ?thesis using assms(2) by (simp add: observe_term_def durable_kept_refl)
next
  case True
  let ?m = "reset_election_timeout (n\<lparr>rn_current_term := t, rn_role := Follower, rn_voted_for := None,
               rn_leader_id := None, rn_incoming := None\<rparr>)"
  have "durable_kept n ?m"
    by (rule durable_kept_ballot)
      (use assms(1) True in \<open>simp_all add: same_log_def same_books_def vote_unchanged_def\<close>)
  then show ?thesis
    by (rule durable_kept_persist) (use assms(2) True in \<open>simp add: observe_term_def\<close>)
qed

section \<open>Runs\<close>

text \<open>Every message arrives from the wire with 64-bit fields.\<close>

fun msg_u64 :: "msg \<Rightarrow> bool" where
  "msg_u64 (RequestVote t c li lt) \<longleftrightarrow> t < 2 ^ 64 \<and> c < 2 ^ 64"
| "msg_u64 (AppendEntries t l pi pt es lc) \<longleftrightarrow> t < 2 ^ 64 \<and> (\<forall>e \<in> set es. le_term e < 2 ^ 64)"
| "msg_u64 (InstallSnapshot t l li lt off d dn) \<longleftrightarrow> t < 2 ^ 64 \<and> lt < 2 ^ 64"
| "msg_u64 m \<longleftrightarrow> msg_term m < 2 ^ 64"

fun durable_allowed :: "raft_event \<Rightarrow> raft_node \<Rightarrow> bool" where
  "durable_allowed (Receive from m) n \<longleftrightarrow> event_allowed (Receive from m) n \<and> msg_u64 m"
| "durable_allowed ev n \<longleftrightarrow> event_allowed ev n"

lemma handle_durable: "message_allowed m \<Longrightarrow> msg_u64 m \<Longrightarrow> durable_kept n (snd (handle disk from m n))"
  by (cases m) (simp_all add: request_vote_durable vote_resp_durable handle_append_durable
      append_resp_durable install_snapshot_durable snapshot_resp_durable)

lemma raft_step_durable:
  assumes "message_allowed m" "msg_u64 m"
  shows "durable_kept n (snd (raft_step disk from m n))"
proof -
  obtain ok n1 where o: "observe_term disk (msg_term m) n = (ok, n1)" by fastforce
  have "msg_term m < 2 ^ 64" using assms(2) by (cases m) simp_all
  then have n1: "durable_kept n n1" using o by (rule observe_term_durable)
  then have "durable_kept n (snd (handle disk from m n1))"
    using handle_durable [OF assms] durable_kept_trans by blast
  with n1 o durable_kept_refl show ?thesis by (simp add: raft_step_def split: bool.splits)
qed

lemma apply_event_durable:
  assumes "durable_allowed ev n"
  shows "durable_kept n (snd (apply_event disk ev n))"
proof (cases ev)
  case (FinishInstall i)
  with assms finish_install_durable [of n disk i] show ?thesis
    by (cases "finish_snapshot_install disk i n") (simp split: sum.splits)
qed (use assms in \<open>simp_all add: tick_durable raft_step_durable propose_durable compact_durable
    mark_applied_durable boot_session_durable quiet_durable durable_kept_refl force_replicate_def\<close>)

interpretation durable: event_invariant "\<lambda>n. raft_wf n \<and> durable_inv s n" durable_allowed for s
proof
  fix n ev disk outs n'
  assume n: "raft_wf n \<and> durable_inv s n" "durable_allowed ev n" "apply_event disk ev n = (outs, n')"
  have "durable_kept n n'" using apply_event_durable [OF n(2), of disk] n(3) by simp
  then show "raft_wf n' \<and> durable_inv s n'" using n(1) by (auto simp: durable_kept_def log_kept_def)
qed

lemma from_loaded_durable:
  assumes "stable_wf s" "state_u64 s" "i < 2 ^ 64"
  shows "raft_wf (from_loaded i peers cfg s now) \<and> durable_inv s (from_loaded i peers cfg s now)"
proof -
  let ?n = "from_loaded i peers cfg s now"
  have v: "stable_view ?n = s" by (simp add: from_loaded_def from_stable_def stable_view_def)
  have f: "rn_durable ?n = s" "rn_incoming ?n = None" "rn_requests ?n = []" "rn_id ?n = i"
    "rn_durable_log_len ?n = length (rn_log ?n)" "rn_log ?n = st_log s" "rn_storage ?n"
    by (simp_all add: from_loaded_def from_stable_def)
  have "linked ?n" using may_follow_refl [OF assms(1)] by (simp add: linked_def v f)
  then show ?thesis
    using assms by (simp add: raft_wf_def incoming_wf_def durable_inv_def node_u64_def all_saved_def
        last_view_def v f)
qed

end
