(* ===== verification/RaftCrash.thy ===== *)
theory RaftCrash
  imports RaftDurable
begin

text \<open>
  A node on its files: the writes recorded by a run are played against the files of \<open>RaftStore\<close>, and
  what a crash leaves there is one of the states the cluster model lets a restart read. From empty
  files on, however many processes crashed, the next one starts.
\<close>

section \<open>On the files\<close>

definition with_books :: "persist_request \<Rightarrow> raft_store \<Rightarrow> raft_store" where
  "with_books r st = st\<lparr>rs_snapshot_dirty := rq_snapshot_dirty r, rs_durable_log_len := rq_durable_log_len r\<rparr>"

text \<open>
  The files a crash may leave after the requests: what the successful writes left and, when the last
  one failed, any prefix of its writes.
\<close>

fun crash_files ::
    "(bytes \<Rightarrow> bytes) \<Rightarrow> raft_store \<Rightarrow> raft_files \<Rightarrow> persist_request list \<Rightarrow> raft_files list" where
  "crash_files sha st files [] = [files]"
| "crash_files sha st files (r # rs) =
     (case persist_at sha (with_books r st) (rq_view r) files of
        (writes, Inl e) \<Rightarrow> files # writes
      | (writes, Inr st') \<Rightarrow>
          if rq_saved r then crash_files sha st' (List.last (files # writes)) rs else files # writes)"

lemma crash_files_nonempty: "crash_files sha st files rs \<noteq> []"
  by (induction rs arbitrary: st files) (auto split: prod.split sum.split)

text \<open>
  The environment of a run: no write is reported as successful that \<open>persist_at\<close> refuses, digests do
  not collide, and the first frame of a log fits next to its header.
\<close>

fun disk_agrees :: "(bytes \<Rightarrow> bytes) \<Rightarrow> raft_store \<Rightarrow> raft_files \<Rightarrow> persist_request list \<Rightarrow> bool" where
  "disk_agrees sha st files [] \<longleftrightarrow> True"
| "disk_agrees sha st files (r # rs) \<longleftrightarrow>
     no_collision sha (rq_view r) files \<and> first_frame_fits sha (with_books r st) (rq_view r) \<and>
     (case persist_at sha (with_books r st) (rq_view r) files of
        (writes, Inl e) \<Rightarrow> \<not> rq_saved r
      | (writes, Inr st') \<Rightarrow> rq_saved r \<longrightarrow> disk_agrees sha st' (List.last (files # writes)) rs)"

lemma persist_at_refuses:
  "length (st_log view) > MAX_LOG_ENTRIES \<Longrightarrow> persist_at sha st view files = ([], Inl WalRange)"
  by (simp add: persist_at_def encode_wal_frame_def wal_body_def Let_def)

lemma request_atomic:
  assumes sha: "sha_ok sha" and old: "stored sha old files st" and ok: "request_ok old r"
    and env: "no_collision sha (rq_view r) files" "first_frame_fits sha (with_books r st) (rq_view r)"
    and p: "persist_at sha (with_books r st) (rq_view r) files = (writes, res)"
  shows "\<forall>g \<in> set (files # writes). recoverable sha {old, rq_view r} g"
    and "res = Inr st' \<Longrightarrow> stored sha (rq_view r) (List.last (files # writes)) st'"
proof -
  have st: "stored sha old files (with_books r st)" using old by (simp add: stored_def with_books_def)
  have "(\<forall>g \<in> set (files # writes). recoverable sha {old, rq_view r} g) \<and>
      (\<forall>st'. res = Inr st' \<longrightarrow> stored sha (rq_view r) (List.last (files # writes)) st')"
  proof (cases "length (st_log (rq_view r)) > MAX_LOG_ENTRIES")
    case True
    then show ?thesis using p persist_at_refuses recoverable_old [OF old] by auto
  next
    case False
    then have view: "state_ok (rq_view r)" using ok by (simp add: request_ok_def state_ok_def)
    have f: "rs_snapshot_dirty (with_books r st) \<or>
        may_follow old (rq_view r) (min (rs_durable_log_len (with_books r st)) (length (st_log (rq_view r))))"
      using ok by (simp add: request_ok_def with_books_def)
    show ?thesis using persist_at_atomic [OF sha st view f env p] by blast
  qed
  then show "\<forall>g \<in> set (files # writes). recoverable sha {old, rq_view r} g"
    and "res = Inr st' \<Longrightarrow> stored sha (rq_view r) (List.last (files # writes)) st'" by blast+
qed

definition readable :: "stable_state \<Rightarrow> persist_request list \<Rightarrow> stable_state set" where
  "readable s rs = insert (last_view s (filter rq_saved rs)) (set (failed_views rs))"

lemma readable_saved: "rq_saved r \<Longrightarrow> readable s (r # rs) = readable (rq_view r) rs"
  by (simp add: readable_def last_view_def failed_views_def)

lemma crash_files_recoverable:
  assumes "sha_ok sha" "stored sha s files st" "requests_ok s rs" "disk_agrees sha st files rs"
    "all_saved (butlast rs)" "g \<in> set (crash_files sha st files rs)"
  shows "recoverable sha (readable s rs) g"
  using assms(2-)
proof (induction rs arbitrary: s st files)
  case Nil
  then show ?case by (auto simp: readable_def last_view_def stored_def recoverable_def)
next
  case (Cons r rs)
  obtain writes res where p: "persist_at sha (with_books r st) (rq_view r) files = (writes, res)" by fastforce
  have env: "no_collision sha (rq_view r) files" "first_frame_fits sha (with_books r st) (rq_view r)"
    and ok: "request_ok s r" using Cons.prems by simp_all
  note A = request_atomic [OF assms(1) Cons.prems(1) ok env p]
  show ?case
  proof (cases "rq_saved r")
    case True
    then obtain st' where st': "res = Inr st'" using Cons.prems(3) p by (cases res) auto
    have "recoverable sha (readable (rq_view r) rs) g"
      by (rule Cons.IH [OF A(2) [OF st']])
        (use Cons.prems True p st' in \<open>auto simp: all_saved_def split: if_splits\<close>)
    then show ?thesis using readable_saved [OF True] by simp
  next
    case False
    then have "rs = []" using Cons.prems(4) by (auto simp: all_saved_def split: if_splits)
    moreover have "g \<in> set (files # writes)" using Cons.prems(5) False p by (cases res) auto
    ultimately show ?thesis using A(1) False by (auto simp: readable_def last_view_def failed_views_def)
  qed
qed

lemma readable_restart:
  "durable_inv s n \<Longrightarrow> readable s (rn_requests n) = restart_states n"
  by (simp add: durable_inv_def readable_def restart_states_def)

lemma readable_ok:
  "requests_ok s rs \<Longrightarrow> all_saved (butlast rs) \<Longrightarrow> stable_wf s \<Longrightarrow> state_u64 s \<Longrightarrow> v \<in> readable s rs \<Longrightarrow>
   stable_wf v \<and> state_u64 v"
proof (induction rs arbitrary: s)
  case Nil
  then show ?case by (simp add: readable_def last_view_def)
next
  case (Cons r rs)
  have r: "stable_wf (rq_view r)" "state_u64 (rq_view r)" using Cons.prems(1) by (simp_all add: request_ok_def)
  show ?case
  proof (cases "rq_saved r")
    case True
    have "v \<in> readable (rq_view r) rs" using Cons.prems(5) readable_saved [OF True] by simp
    moreover have "all_saved (butlast rs)" using Cons.prems(2) by (simp add: all_saved_def split: if_splits)
    ultimately show ?thesis using Cons.IH [of "rq_view r"] Cons.prems(1) True r by simp
  next
    case False
    then have "rs = []" using Cons.prems(2) by (auto simp: all_saved_def split: if_splits)
    then show ?thesis using Cons.prems(3-5) False r by (auto simp: readable_def last_view_def failed_views_def)
  qed
qed

section \<open>Crashes and restarts\<close>

definition new_persistent ::
    "(bytes \<Rightarrow> bytes) \<Rightarrow> node_id \<Rightarrow> node_id list \<Rightarrow> config \<Rightarrow> raft_files \<Rightarrow> u64 \<Rightarrow>
     store_error + (raft_node \<times> raft_store)" where
  "new_persistent sha i peers cfg files now =
     (case load_state sha files of
        Inl e \<Rightarrow> Inl e
      | Inr ld \<Rightarrow> Inr (from_loaded i peers cfg (ld_state ld) now, store_of_loaded ld))"

text \<open>Files that hold a well-formed state.\<close>

definition files_hold :: "(bytes \<Rightarrow> bytes) \<Rightarrow> stable_state \<Rightarrow> raft_files \<Rightarrow> bool" where
  "files_hold sha s files \<longleftrightarrow> recoverable sha {s} files \<and> stable_wf s \<and> state_u64 s"

lemma files_hold_start:
  assumes "sha_ok sha" "files_hold sha s files"
  shows "\<exists>st. new_persistent sha i peers cfg files now = Inr (from_loaded i peers cfg s now, st) \<and>
    stored sha s files st"
  using restart_from_recoverable [OF assms(1), of "{s}" files] assms(2)
  by (auto simp: new_persistent_def files_hold_def)

lemma no_files_hold: "files_hold sha stable_default no_files"
proof -
  have "recoverable sha {stable_default} no_files"
    using new_store_stored [of sha] unfolding stored_def recoverable_def by blast
  then show ?thesis using voted_state_ok(2) by (auto simp: files_hold_def state_ok_def)
qed

text \<open>The life of one process: a start, a run, and the files a crash leaves.\<close>

definition one_life ::
    "(bytes \<Rightarrow> bytes) \<Rightarrow> raft_files \<Rightarrow> (disk \<times> raft_event) list \<Rightarrow> raft_node \<Rightarrow> raft_store \<Rightarrow> raft_files \<Rightarrow> bool" where
  "one_life sha files evs n0 st g \<longleftrightarrow>
     (let rs = rn_requests (run_events evs n0) in
      rn_id n0 < 2 ^ 64 \<and> allowed_run durable_allowed evs n0 \<and> disk_agrees sha st files rs \<and>
      all_saved (butlast rs) \<and> g \<in> set (crash_files sha st files rs))"

text \<open>A start from what a crash left finds one of the states the cluster model lets a restart read.\<close>

lemma crash_restart:
  assumes sha: "sha_ok sha" and files: "files_hold sha s files"
    and start: "new_persistent sha i peers cfg files now = Inr (n0, st)" and life: "one_life sha files evs n0 st g"
  shows "\<exists>v \<in> restart_states (run_events evs n0). files_hold sha v g"
proof -
  let ?n = "run_events evs n0"
  have n0: "n0 = from_loaded i peers cfg s now" and st: "stored sha s files st"
    using files_hold_start [OF sha files, of i peers cfg now] start by auto
  have i: "i < 2 ^ 64" using life by (simp add: one_life_def Let_def n0 from_loaded_def from_stable_def)
  have s: "stable_wf s" "state_u64 s" using files by (simp_all add: files_hold_def)
  have run: "allowed_run durable_allowed evs (from_loaded i peers cfg s now)"
    using life by (simp add: one_life_def Let_def n0)
  have inv: "durable_inv s ?n"
    using durable.run_kept [OF from_loaded_durable [OF s i] run] by (simp add: n0)
  then have reqs: "requests_ok s (rn_requests ?n)" by (simp add: durable_inv_def)
  have l: "disk_agrees sha st files (rn_requests ?n)" "all_saved (butlast (rn_requests ?n))"
    "g \<in> set (crash_files sha st files (rn_requests ?n))"
    using life by (simp_all add: one_life_def Let_def)
  obtain v where v: "v \<in> readable s (rn_requests ?n)" "recoverable sha {v} g"
    using crash_files_recoverable [OF sha st reqs l] by (auto simp: recoverable_def)
  have "files_hold sha v g" using v readable_ok [OF reqs l(2) s v(1)] by (simp add: files_hold_def)
  then show ?thesis using v(1) readable_restart [OF inv] by auto
qed

text \<open>Any number of lives, from empty files on.\<close>

inductive reachable_files :: "(bytes \<Rightarrow> bytes) \<Rightarrow> raft_files \<Rightarrow> bool" for sha where
  fresh: "reachable_files sha no_files"
| crash: "reachable_files sha files \<Longrightarrow> new_persistent sha i peers cfg files now = Inr (n0, st) \<Longrightarrow>
    one_life sha files evs n0 st g \<Longrightarrow> reachable_files sha g"

lemma reachable_files_hold:
  assumes sha: "sha_ok sha"
  shows "reachable_files sha files \<Longrightarrow> \<exists>s. files_hold sha s files"
proof (induction rule: reachable_files.induct)
  case fresh
  show ?case using no_files_hold by blast
next
  case (crash files i peers cfg now n0 st evs g)
  then show ?case using crash_restart [OF sha] by blast
qed

end
