(* ===== verification/RaftSamples.thy ===== *)
theory RaftSamples
  imports RaftElection RaftProgress RaftCrash
begin

text \<open>
  Concrete Raft nodes: a cluster of one that elects itself, a voter whose log is all in its
  snapshot, a follower with entries of an earlier leader, and a node that starts on empty files.
\<close>

definition quick :: config where
  "quick = \<lparr>election_base = 2, heartbeat = 1\<rparr>"

definition fixed_clock :: u64 where
  "fixed_clock = word_rotl 17 1 XOR 0x9e3779b97f4a7c15"

definition solo :: raft_node where
  "solo = from_stable 1 [1] quick True stable_default fixed_clock"

definition good_disk :: disk where
  "good_disk = (\<lambda>_. None)"

lemma solo_eq:
  "solo = \<lparr>rn_id = 1, rn_peers = [], rn_role = Follower, rn_current_term = 0, rn_voted_for = None,
     rn_log = [], rn_commit_index = 0, rn_last_applied = 0, rn_leader_id = None,
     rn_next_index = Map.empty, rn_match_index = Map.empty, rn_votes = {}, rn_election_elapsed = 0,
     rn_heartbeat_elapsed = 0, rn_election_timeout = 2, rn_rng_state = 0xa0761d6478bd642e, rn_cfg = quick,
     rn_storage = True, rn_fatal = None, rn_boot_counter = 0, rn_snapshot = None, rn_incoming = None,
     rn_snapshot_offsets = Map.empty, rn_snapshot_dirty = False,
     rn_durable_log_len = 0, rn_durable = stable_default, rn_requests = []\<rparr>"
  by (simp add: solo_def from_stable_def fixed_clock_def stable_default_def reset_election_timeout_def
      next_random_def xorshift_def Let_def quick_def sat_add32_def U32_MAX_def)

definition solo_waiting :: raft_node where
  "solo_waiting = snd (tick good_disk solo)"

definition solo_leading :: raft_node where
  "solo_leading = snd (tick good_disk solo_waiting)"

lemma solo_waiting_eq: "solo_waiting = solo\<lparr>rn_election_elapsed := 1\<rparr>"
  by (simp add: solo_waiting_def solo_eq tick_def Let_def sat_add32_def U32_MAX_def)

text \<open>A node without peers leads as soon as its timer has run out.\<close>

lemma persist_good: "rn_storage n \<Longrightarrow> persist good_disk n = (True, persisted n)"
  by (simp add: persist_def good_disk_def)

lemma alone_leads:
  assumes "rn_fatal n = None" "rn_role n = Follower" "rn_peers n = []" "rn_storage n" "rn_log n = []" "rn_snapshot n = None"
    and "rn_current_term n = 0" and "rn_election_timeout n \<le> sat_add32 (rn_election_elapsed n) 1"
  shows "rn_role (snd (tick good_disk n)) = Leader \<and> rn_current_term (snd (tick good_disk n)) = 1"
  using assms
  by (simp add: tick_def Let_def start_election_def checked_add_def persist_good stand_def quorum_def become_leader_def
      MAX_LOG_ENTRIES_def last_index_def snapshot_index_def push_noop_def lead_def init_progress_def)

lemma solo_leads: "rn_role solo_leading = Leader" "rn_current_term solo_leading = 1"
  using alone_leads [of solo_waiting]
  by (simp_all add: solo_leading_def solo_waiting_eq solo_eq sat_add32_def U32_MAX_def)

definition solo_cluster :: cluster where
  "solo_cluster = update_cluster 1 (tick good_disk solo_waiting)
     (update_cluster 1 (tick good_disk solo) (cluster_init [1] (\<lambda>_. (quick, True, fixed_clock))))"

lemma solo_cluster_reachable:
  "(cluster_step [1])\<^sup>*\<^sup>* (cluster_init [1] (\<lambda>_. (quick, True, fixed_clock))) solo_cluster"
proof -
  let ?c0 = "cluster_init [1] (\<lambda>_. (quick, True, fixed_clock))"
  let ?c1 = "update_cluster 1 (tick good_disk solo) ?c0"
  have n0: "cl_nodes ?c0 1 = solo" by (simp add: cluster_init_def solo_def)
  have n1: "cl_nodes ?c1 1 = solo_waiting" by (simp add: update_cluster_def solo_waiting_def)
  have s0: "cluster_step [1] ?c0 ?c1"
    using act [of 1 "[1]" Tick ?c0 good_disk] n0 by simp
  have s1: "cluster_step [1] ?c1 solo_cluster"
    using act [of 1 "[1]" Tick ?c1 good_disk] n1 by (simp add: solo_cluster_def)
  from s0 s1 show ?thesis by (meson converse_rtranclp_into_rtranclp rtranclp.rtrancl_refl)
qed

lemma solo_cluster_elected: "(1, 1) \<in> cl_elected solo_cluster"
  using solo_leads by (simp add: solo_cluster_def update_cluster_def leaders_def solo_leading_def)

section \<open>Snapshots and elections\<close>

text \<open>A member whose whole log is in its snapshot: five committed entries, the last of term 4.\<close>

definition compacted_voter :: raft_node where
  "compacted_voter = from_stable 1 [1, 2, 3] quick False
     \<lparr>st_current_term = 4, st_voted_for = None, st_log = [], st_commit_index = 5, st_last_applied = 5,
      st_boot_counter = 0, st_snapshot = Some \<lparr>sn_index = 5, sn_term = 4, sn_data = [1]\<rparr>\<rparr> fixed_clock"

lemma compacted_voter_wf: "raft_wf compacted_voter"
proof -
  have "stable_view compacted_voter = rn_durable compacted_voter"
    by (simp add: compacted_voter_def from_stable_def stable_view_def)
  moreover have "stable_wf (rn_durable compacted_voter)"
    by (simp add: compacted_voter_def from_stable_def stable_wf_def stable_base_def entries_small_def
        snapshot_wf_def U64_MAX_def MAX_SNAPSHOT_BYTES_def)
  ultimately show ?thesis
    by (simp add: raft_wf_def) (simp add: compacted_voter_def from_stable_def incoming_wf_def)
qed

text \<open>A follower with two entries an earlier leader never committed.\<close>

definition stale_follower :: raft_node where
  "stale_follower = from_stable 1 [1, 2, 3] quick False
     \<lparr>st_current_term = 2, st_voted_for = None,
      st_log = [\<lparr>le_term = 1, le_index = 1, le_data = [1]\<rparr>, \<lparr>le_term = 1, le_index = 2, le_data = [2]\<rparr>,
                \<lparr>le_term = 1, le_index = 3, le_data = [3]\<rparr>],
      st_commit_index = 0, st_last_applied = 0, st_boot_counter = 0, st_snapshot = None\<rparr> fixed_clock"

definition fresh_voter :: raft_node where
  "fresh_voter = from_stable 1 [1, 2, 3] quick True stable_default fixed_clock"

lemma stale_follower_log: "rn_log stale_follower = [\<lparr>le_term = 1, le_index = 1, le_data = [1]\<rparr>, \<lparr>le_term = 1, le_index = 2, le_data = [2]\<rparr>,
                \<lparr>le_term = 1, le_index = 3, le_data = [3]\<rparr>]"
    by (simp add: stale_follower_def from_stable_def)

lemma fresh_voter_reply:
  "fst (apply_event good_disk (Receive 2 (RequestVote 1 2 0 0)) fresh_voter) = [\<lparr>out_to = 2, out_msg = RequestVoteResp 1 True\<rparr>]"
  by (simp add: fresh_voter_def from_stable_def raft_step_def observe_term_def persist_def good_disk_def Let_def
     handle_request_vote_def stable_default_def log_up_to_date_def last_log_term_def last_index_def snapshot_index_def)

lemma fresh_voter_ok: "candidacy_ok fresh_voter"
  by (simp add: fresh_voter_def from_stable_def candidacy_ok_def)

definition voted_node :: raft_node where
  "voted_node = snd (apply_event good_disk (Receive 2 (RequestVote 1 2 0 0)) fresh_voter)"

lemma voted_node_ok: "candidacy_ok voted_node"
  unfolding voted_node_def by (rule candidacy.kept [OF fresh_voter_ok TrueI surjective_pairing])

lemma voted_node_pledged: "pledged voted_node 1 2"
proof -
  have "\<forall>to t. \<lparr>out_to = to, out_msg = RequestVoteResp t True\<rparr> \<in>
      set (fst (apply_event good_disk (Receive 2 (RequestVote 1 2 0 0)) fresh_voter)) \<longrightarrow>
      t = rn_current_term voted_node \<and> firm voted_node to"
    using event_ok [of good_disk "Receive 2 (RequestVote 1 2 0 0)" fresh_voter, OF surjective_pairing fresh_voter_ok]
    unfolding election_ok_def vote_kept_def voted_node_def by blast
  then have "1 = rn_current_term voted_node \<and> firm voted_node 2" unfolding fresh_voter_reply by simp
  then show ?thesis using firm_pledged [of voted_node 2] by simp
qed

lemma stale_follower_fields: "rn_log (follow 2 2 stale_follower) = rn_log stale_follower" "rn_snapshot (follow 2 2 stale_follower) = None"
     "rn_commit_index (follow 2 2 stale_follower) = 0" "rn_storage (follow 2 2 stale_follower) = False"
     "rn_current_term stale_follower = 2" "rn_snapshot stale_follower = None"
    by (simp_all add: follow_def stale_follower_def from_stable_def)

lemmas append_eval = handle_append_def Let_def MAX_APPEND_ENTRIES_def MAX_APPEND_BYTES_def stale_follower_fields
  stale_follower_log last_index_def term_at_def finish_append_def MAX_LOG_ENTRIES_def

lemma stale_follower_commits: "rn_commit_index (snd (handle_append good_disk 2 2 1 1 [] 3 stale_follower)) = 3"
  by (simp add: append_eval)

lemma stale_follower_accepts: "accepts (fst (handle_append good_disk 2 2 1 1 [] 3 stale_follower))"
  by (simp add: append_eval accepts_def append_response_def)

section \<open>A first start\<close>

definition first_node :: raft_node where
  "first_node = from_loaded 1 [1] quick stable_default fixed_clock"

definition booted_state :: stable_state where
  "booted_state = stable_default\<lparr>st_boot_counter := 6\<rparr>"

definition boot_request :: persist_request where
  "boot_request = \<lparr>rq_view = booted_state, rq_durable_log_len = 0, rq_snapshot_dirty = False, rq_saved = True\<rparr>"

lemma first_start: "new_persistent zero_sha 1 [1] quick no_files fixed_clock = Inr (first_node, new_store)"
  by (simp add: new_persistent_def load_state_def no_files_def first_node_def new_store_def)

lemma first_requests: "rn_requests (run_events [(good_disk, BootSession 5)] first_node) = [boot_request]"
  by (simp add: first_node_def from_loaded_def from_stable_def next_boot_session_def checked_add_def
      persist_def good_disk_def persisted_def requested_def boot_request_def booted_state_def stable_default_def
      stable_view_def)

lemma booted_frame: "encode_wal_frame zero_sha booted_state 0 = Inr (frame_bytes zero_sha (wal_head booted_state 0))"
  by (simp add: encode_wal_frame_def wal_body_def booted_state_def stable_default_def)

lemma booted_encodes: "encode_state zero_sha booted_state = Inr (state_head booted_state @ replicate 32 0)"
  by (simp add: encode_state_def state_check_def booted_state_def stable_default_def stable_base_def
      snap_data_def snap_term_def zero_sha_def)

lemma booted_books [simp]: "with_books boot_request new_store = new_store"
  by (simp add: with_books_def boot_request_def new_store_def store_of_loaded_def stable_default_def)

lemma booted_persists: "\<exists>writes st'. persist_at zero_sha new_store booted_state no_files = (writes, Inr st')"
  using booted_frame booted_encodes
  by (simp add: persist_at_def Let_def new_store_def store_of_loaded_def stable_default_def)

lemma booted_agrees: "disk_agrees zero_sha new_store no_files [boot_request]"
proof -
  have "first_frame_fits zero_sha new_store booted_state"
    using booted_frame
    by (simp add: first_frame_fits_def new_store_def store_of_loaded_def stable_default_def length_frame
        zero_sha_def length_wal_head WAL_HEADER_LEN_def MAX_WAL_BYTES_def MIN_WAL_FRAME_BODY_def)
  moreover have "no_collision zero_sha booted_state no_files" by (simp add: no_collision_def no_files_def)
  moreover have "rq_view boot_request = booted_state" by (simp add: boot_request_def)
  ultimately show ?thesis using booted_persists by auto
qed

lemma first_life:
  "\<exists>g. one_life zero_sha no_files [(good_disk, BootSession 5)] first_node new_store g"
proof -
  have "rn_id first_node < 2 ^ 64" by (simp add: first_node_def from_loaded_def from_stable_def)
  moreover have "\<exists>g. g \<in> set (crash_files zero_sha new_store no_files [boot_request])"
    using crash_files_nonempty by (meson last_in_set)
  ultimately show ?thesis using booted_agrees unfolding one_life_def Let_def first_requests by simp
qed

text \<open>Files after a compaction that replaced the state file and failed to reset the log.\<close>

definition old_wal :: bytes where
  "old_wal = WAL_MAGIC @ replicate 32 1"

definition half_compacted :: raft_files where
  "half_compacted = \<lparr>rf_state = Some (state_head booted_state @ replicate 32 0), rf_wal = Some old_wal\<rparr>"

definition stale_store :: raft_store where
  "stale_store = \<lparr>rs_snapshot_dirty = False, rs_durable_log_len = 0, rs_base_digest = Some (replicate 32 1),
     rs_wal_len = length old_wal, rs_wal_open = False\<rparr>"

lemma booted_ok: "state_ok booted_state"
  by (simp add: booted_state_def stable_default_def state_ok_def stable_wf_def state_u64_def stable_base_def
      entries_small_def snapshot_wf_def U64_MAX_def snap_term_def)

lemma old_wal_foreign: "foreign (digest_of (state_head booted_state @ replicate 32 0)) (Some old_wal)"
  by (simp add: foreign_def old_wal_def digest_of_def slice_def WAL_HEADER_LEN_def MAX_WAL_BYTES_def)

lemma old_wal_fits: "length old_wal + length (frame_bytes zero_sha (wal_head voted_state 0)) \<le> MAX_WAL_BYTES"
  by (simp add: old_wal_def length_frame zero_sha_def length_wal_head MIN_WAL_FRAME_BODY_def MAX_WAL_BYTES_def)

lemma voted_frame': "encode_wal_frame zero_sha voted_state (min (rs_durable_log_len stale_store) (length (st_log voted_state))) =
    Inr (frame_bytes zero_sha (wal_head voted_state 0))"
  using voted_frame by (simp add: stale_store_def)

end
