(* ===== verification/LruMap.thy ===== *)
theory LruMap
  imports Prelude "HOL-Library.AList"
begin

text \<open>
  The bounded map of \<open>onetdns-core/src/lrumap.rs\<close>. Entries live in an arena; the indexes of the arena
  form a doubly linked list in order of use, and entries with equal digests form singly linked
  chains. Everything the source would answer with a panic is an error value here, and so is a chain
  walk that does not end; the refinement to a plain list of pairs, most recent first, shows that
  neither happens, for every digest function.

  Arena indexes are natural numbers with the 32-bit sentinel \<open>NIL\<close> written out. Whether an
  allocation succeeds is an argument of \<open>put\<close>, and the capacity bookkeeping of \<open>try_grow_one\<close> that only
  decides whether to ask for memory is part of that argument.
\<close>

section \<open>The arena\<close>

datatype lru_fault = MissingNode | MissingHead | BrokenChain | IndexRange | CapacityRange | Endless

definition NIL :: nat where "NIL = 4294967295"

record ('k, 'v) lru_node =
  ln_key :: 'k
  ln_val :: 'v
  ln_prev :: nat
  ln_next :: nat
  ln_hash_next :: nat

record ('k, 'v) lru_map =
  lm_cap :: nat
  lm_map :: "u32 \<rightharpoonup> nat"
  lm_key_hash :: "'k \<Rightarrow> u32"
  lm_nodes :: "('k, 'v) lru_node option list"
  lm_free :: "nat list"
  lm_head :: nat
  lm_tail :: nat
  lm_len :: nat

definition fault_bind :: "lru_fault + 'a \<Rightarrow> ('a \<Rightarrow> lru_fault + 'b) \<Rightarrow> lru_fault + 'b" where
  "fault_bind x f = (case x of Inl e \<Rightarrow> Inl e | Inr a \<Rightarrow> f a)"

lemma fault_bind_simps [simp]: "fault_bind (Inr a) f = f a" "fault_bind (Inl e) f = Inl e"
  by (simp_all add: fault_bind_def)

definition lru_new :: "('k \<Rightarrow> u32) \<Rightarrow> nat \<Rightarrow> lru_fault + ('k, 'v) lru_map" where
  "lru_new key_hash cap0 =
     (let cap = max cap0 1
      in if cap < NIL
         then Inr \<lparr>lm_cap = cap, lm_map = Map.empty, lm_key_hash = key_hash, lm_nodes = [], lm_free = [],
                   lm_head = NIL, lm_tail = NIL, lm_len = 0\<rparr>
         else Inl CapacityRange)"

definition lru_clear :: "('k, 'v) lru_map \<Rightarrow> ('k, 'v) lru_map" where
  "lru_clear m = m\<lparr>lm_map := Map.empty, lm_nodes := [], lm_free := [], lm_head := NIL, lm_tail := NIL,
                   lm_len := 0\<rparr>"

definition lru_is_empty :: "('k, 'v) lru_map \<Rightarrow> bool" where
  "lru_is_empty m \<longleftrightarrow> lm_len m = 0"

text \<open>The active node at an index; indexing out of range panics like a vacant slot.\<close>

definition node_at :: "('k, 'v) lru_map \<Rightarrow> nat \<Rightarrow> ('k, 'v) lru_node option" where
  "node_at m idx = (if idx < length (lm_nodes m) then lm_nodes m ! idx else None)"

definition lru_node_of :: "('k, 'v) lru_map \<Rightarrow> nat \<Rightarrow> lru_fault + ('k, 'v) lru_node" where
  "lru_node_of m idx = (case node_at m idx of None \<Rightarrow> Inl MissingNode | Some n \<Rightarrow> Inr n)"

definition put_node :: "nat \<Rightarrow> ('k, 'v) lru_node option \<Rightarrow> ('k, 'v) lru_map \<Rightarrow> ('k, 'v) lru_map" where
  "put_node idx n m = m\<lparr>lm_nodes := (lm_nodes m)[idx := n]\<rparr>"

definition set_prev :: "nat \<Rightarrow> nat \<Rightarrow> ('k, 'v) lru_map \<Rightarrow> lru_fault + ('k, 'v) lru_map" where
  "set_prev idx prev m = fault_bind (lru_node_of m idx) (\<lambda>n. Inr (put_node idx (Some (n\<lparr>ln_prev := prev\<rparr>)) m))"

definition set_next :: "nat \<Rightarrow> nat \<Rightarrow> ('k, 'v) lru_map \<Rightarrow> lru_fault + ('k, 'v) lru_map" where
  "set_next idx nxt m = fault_bind (lru_node_of m idx) (\<lambda>n. Inr (put_node idx (Some (n\<lparr>ln_next := nxt\<rparr>)) m))"

section \<open>Lookup\<close>

text \<open>The loop of \<open>find_index_with_hash\<close>; a chain has at most one link per slot of the arena.\<close>

fun find_loop :: "nat \<Rightarrow> ('k, 'v) lru_map \<Rightarrow> 'k \<Rightarrow> nat \<Rightarrow> lru_fault + nat option" where
  "find_loop 0 m key index = Inl Endless"
| "find_loop (Suc fuel) m key index =
     (if index = NIL then Inr None
      else fault_bind (lru_node_of m index) (\<lambda>node.
             if ln_key node = key then Inr (Some index) else find_loop fuel m key (ln_hash_next node)))"

definition find_index_with_hash :: "u32 \<Rightarrow> 'k \<Rightarrow> ('k, 'v) lru_map \<Rightarrow> lru_fault + nat option" where
  "find_index_with_hash hash key m =
     (case lm_map m hash of None \<Rightarrow> Inr None
      | Some index \<Rightarrow> find_loop (Suc (length (lm_nodes m))) m key index)"

definition find_index :: "'k \<Rightarrow> ('k, 'v) lru_map \<Rightarrow> lru_fault + nat option" where
  "find_index key m = find_index_with_hash (lm_key_hash m key) key m"

definition lru_contains_key :: "'k \<Rightarrow> ('k, 'v) lru_map \<Rightarrow> lru_fault + bool" where
  "lru_contains_key key m = fault_bind (find_index key m) (\<lambda>found. Inr (found \<noteq> None))"

definition lru_peek :: "'k \<Rightarrow> ('k, 'v) lru_map \<Rightarrow> lru_fault + 'v option" where
  "lru_peek key m = fault_bind (find_index key m) (\<lambda>found.
     case found of None \<Rightarrow> Inr None
     | Some idx \<Rightarrow> fault_bind (lru_node_of m idx) (\<lambda>n. Inr (Some (ln_val n))))"

section \<open>Order of use\<close>

definition lru_unlink :: "nat \<Rightarrow> ('k, 'v) lru_map \<Rightarrow> lru_fault + ('k, 'v) lru_map" where
  "lru_unlink idx m = fault_bind (lru_node_of m idx) (\<lambda>n.
     let prev = ln_prev n; nxt = ln_next n in
     fault_bind (if prev \<noteq> NIL then set_next prev nxt m else Inr (m\<lparr>lm_head := nxt\<rparr>)) (\<lambda>m.
     if nxt \<noteq> NIL then set_prev nxt prev m else Inr (m\<lparr>lm_tail := prev\<rparr>)))"

definition lru_push_front :: "nat \<Rightarrow> ('k, 'v) lru_map \<Rightarrow> lru_fault + ('k, 'v) lru_map" where
  "lru_push_front idx m =
     (let old_head = lm_head m in
      fault_bind (set_prev idx NIL m) (\<lambda>m.
      fault_bind (set_next idx old_head m) (\<lambda>m.
      fault_bind (if old_head \<noteq> NIL then set_prev old_head idx m else Inr m) (\<lambda>m.
      let m = m\<lparr>lm_head := idx\<rparr>
      in Inr (if lm_tail m = NIL then m\<lparr>lm_tail := idx\<rparr> else m)))))"

definition lru_move_front :: "nat \<Rightarrow> ('k, 'v) lru_map \<Rightarrow> lru_fault + ('k, 'v) lru_map" where
  "lru_move_front idx m =
     (if lm_head m = idx then Inr m else fault_bind (lru_unlink idx m) (lru_push_front idx))"

definition lru_get :: "'k \<Rightarrow> ('k, 'v) lru_map \<Rightarrow> lru_fault + 'v option \<times> ('k, 'v) lru_map" where
  "lru_get key m = fault_bind (find_index key m) (\<lambda>found.
     case found of None \<Rightarrow> Inr (None, m)
     | Some idx \<Rightarrow>
         fault_bind (lru_move_front idx m) (\<lambda>m.
         fault_bind (lru_node_of m idx) (\<lambda>n. Inr (Some (ln_val n), m))))"

text \<open>\<open>get_mut\<close> with what the caller writes through the reference it is given.\<close>

definition lru_get_mut :: "'k \<Rightarrow> ('v \<Rightarrow> 'v) \<Rightarrow> ('k, 'v) lru_map \<Rightarrow> lru_fault + 'v option \<times> ('k, 'v) lru_map" where
  "lru_get_mut key f m = fault_bind (find_index key m) (\<lambda>found.
     case found of None \<Rightarrow> Inr (None, m)
     | Some idx \<Rightarrow>
         fault_bind (lru_move_front idx m) (\<lambda>m.
         case node_at m idx of None \<Rightarrow> Inr (None, m)
         | Some n \<Rightarrow> Inr (Some (ln_val n), put_node idx (Some (n\<lparr>ln_val := f (ln_val n)\<rparr>)) m)))"

section \<open>Removal and insertion\<close>

text \<open>The walk of \<open>remove_index\<close> along the collision chain.\<close>

fun bypass_loop :: "nat \<Rightarrow> nat \<Rightarrow> nat \<Rightarrow> nat \<Rightarrow> ('k, 'v) lru_map \<Rightarrow> lru_fault + ('k, 'v) lru_map" where
  "bypass_loop 0 index hash_next previous m = Inl Endless"
| "bypass_loop (Suc fuel) index hash_next previous m =
     fault_bind (lru_node_of m previous) (\<lambda>n.
       let nxt = ln_hash_next n in
       if nxt = NIL then Inl BrokenChain
       else if nxt = index then Inr (put_node previous (Some (n\<lparr>ln_hash_next := hash_next\<rparr>)) m)
       else bypass_loop fuel index hash_next nxt m)"

definition remove_from_chain :: "nat \<Rightarrow> u32 \<Rightarrow> ('k, 'v) lru_map \<Rightarrow> lru_fault + ('k, 'v) lru_map" where
  "remove_from_chain index hash m = fault_bind (lru_node_of m index) (\<lambda>node.
     let hash_next = ln_hash_next node in
     case lm_map m hash of None \<Rightarrow> Inl MissingHead
     | Some head \<Rightarrow>
         if head = index then
           Inr (m\<lparr>lm_map := (if hash_next = NIL then (lm_map m)(hash := None)
                              else (lm_map m)(hash \<mapsto> hash_next))\<rparr>)
         else bypass_loop (Suc (length (lm_nodes m))) index hash_next head m)"

definition remove_index :: "nat \<Rightarrow> u32 \<Rightarrow> ('k, 'v) lru_map \<Rightarrow> lru_fault + ('k, 'v) lru_node \<times> ('k, 'v) lru_map" where
  "remove_index index hash m =
     fault_bind (remove_from_chain index hash m) (\<lambda>m.
     fault_bind (lru_unlink index m) (\<lambda>m.
     let m = m\<lparr>lm_len := lm_len m - 1, lm_free := lm_free m @ [index]\<rparr> in
     fault_bind (lru_node_of m index) (\<lambda>n. Inr (n, put_node index None m))))"

definition lru_pop :: "'k \<Rightarrow> ('k, 'v) lru_map \<Rightarrow> lru_fault + 'v option \<times> ('k, 'v) lru_map" where
  "lru_pop key m =
     (let hash = lm_key_hash m key in
      fault_bind (find_index_with_hash hash key m) (\<lambda>found.
      case found of None \<Rightarrow> Inr (None, m)
      | Some idx \<Rightarrow> fault_bind (remove_index idx hash m) (\<lambda>(n, m). Inr (Some (ln_val n), m))))"

definition lru_pop_lru :: "('k, 'v) lru_map \<Rightarrow> lru_fault + ('k \<times> 'v) option \<times> ('k, 'v) lru_map" where
  "lru_pop_lru m =
     (let tail = lm_tail m in
      if tail = NIL then Inr (None, m)
      else fault_bind (lru_node_of m tail) (\<lambda>n.
           fault_bind (remove_index tail (lm_key_hash m (ln_key n)) m) (\<lambda>(node, m).
           Inr (Some (ln_key node, ln_val node), m))))"

definition evict_lru :: "('k, 'v) lru_map \<Rightarrow> lru_fault + ('k, 'v) lru_map" where
  "evict_lru m = fault_bind (lru_pop_lru m) (\<lambda>(popped, m). Inr m)"

text \<open>The last part of \<open>put\<close>: a slot for the node, the new chain head, the front of the order.\<close>

definition insert_node :: "u32 \<Rightarrow> 'k \<Rightarrow> 'v \<Rightarrow> ('k, 'v) lru_map \<Rightarrow> lru_fault + ('k, 'v) lru_map" where
  "insert_node hash key val m =
     (let hash_next = (case lm_map m hash of None \<Rightarrow> NIL | Some i \<Rightarrow> i);
          node = \<lparr>ln_key = key, ln_val = val, ln_prev = NIL, ln_next = NIL, ln_hash_next = hash_next\<rparr> in
      fault_bind
        (if lm_free m \<noteq> [] then
           (let i = last (lm_free m)
            in if i < length (lm_nodes m)
               then Inr (i, put_node i (Some node) (m\<lparr>lm_free := butlast (lm_free m)\<rparr>))
               else Inl MissingNode)
         else if length (lm_nodes m) < 2 ^ 32
              then Inr (length (lm_nodes m), m\<lparr>lm_nodes := lm_nodes m @ [Some node]\<rparr>)
              else Inl IndexRange)
        (\<lambda>(idx, m). lru_push_front idx (m\<lparr>lm_map := (lm_map m)(hash \<mapsto> idx), lm_len := lm_len m + 1\<rparr>)))"

definition lru_put :: "bool \<Rightarrow> 'k \<Rightarrow> 'v \<Rightarrow> ('k, 'v) lru_map \<Rightarrow> lru_fault + ('k, 'v) lru_map" where
  "lru_put grows key val m =
     (let hash = lm_key_hash m key in
      fault_bind (find_index_with_hash hash key m) (\<lambda>found.
      case found of
        Some idx \<Rightarrow>
          fault_bind (lru_node_of m idx) (\<lambda>n.
          lru_move_front idx (put_node idx (Some (n\<lparr>ln_val := val\<rparr>)) m))
      | None \<Rightarrow>
          fault_bind (if lm_len m \<ge> lm_cap m then evict_lru m else Inr m) (\<lambda>m.
          if lm_free m = [] \<and> \<not> grows
          then fault_bind (evict_lru m) (\<lambda>m. if lm_free m = [] then Inr m else insert_node hash key val m)
          else insert_node hash key val m)))"

end
