(* ===== verification/LruLists.thy ===== *)
theory LruLists
  imports LruMap
begin

text \<open>
  The pointer structure of the arena in \<open>LruMap\<close>: linked segments for the order of use, collision
  chains, free slots. Each internal step of the source is shown to succeed on a well-formed arena and
  to change exactly one of the three.
\<close>

section \<open>Linked segments\<close>

definition first_of :: "nat list \<Rightarrow> nat \<Rightarrow> nat" where
  "first_of xs q = (case xs of [] \<Rightarrow> q | x # _ \<Rightarrow> x)"

definition last_of :: "nat \<Rightarrow> nat list \<Rightarrow> nat" where
  "last_of p xs = (if xs = [] then p else last xs)"

lemma first_last_of [simp]:
  "first_of [] q = q" "first_of (x # xs) q = x" "last_of p [] = p" "last_of p (xs @ [y]) = y"
  by (simp_all add: first_of_def last_of_def)

lemma first_of_append [simp]: "first_of (xs @ ys) q = first_of xs (first_of ys q)"
  by (cases xs) simp_all

lemma last_of_Cons [simp]: "last_of p (x # xs) = last_of x xs"
  by (simp add: last_of_def)

lemma last_of_append [simp]: "last_of p (xs @ ys) = last_of (last_of p xs) ys"
  by (simp add: last_of_def)

lemma last_of_in: "xs \<noteq> [] \<Longrightarrow> last_of p xs \<in> set xs"
  by (simp add: last_of_def)

fun dseg :: "(nat \<Rightarrow> ('k, 'v) lru_node option) \<Rightarrow> nat \<Rightarrow> nat list \<Rightarrow> nat \<Rightarrow> bool" where
  "dseg nd p [] q \<longleftrightarrow> True"
| "dseg nd p (x # xs) q \<longleftrightarrow>
     (\<exists>n. nd x = Some n \<and> ln_prev n = p \<and> ln_next n = first_of xs q) \<and> dseg nd x xs q"

lemma dseg_append [simp]:
  "dseg nd p (xs @ ys) q \<longleftrightarrow> dseg nd p xs (first_of ys q) \<and> dseg nd (last_of p xs) ys q"
  by (induction xs arbitrary: p) auto

lemma dseg_cong: "(\<And>i. i \<in> set xs \<Longrightarrow> nd i = nd' i) \<Longrightarrow> dseg nd p xs q = dseg nd' p xs q"
  by (induction xs arbitrary: p) auto

lemma dseg_outside [simp]: "i \<notin> set xs \<Longrightarrow> dseg (nd(i := n)) p xs q = dseg nd p xs q"
  by (rule dseg_cong) auto

lemma dseg_set_next:
  assumes "dseg nd p (xs @ [a]) q" and "a \<notin> set xs" and "nd a = Some n"
  shows "dseg (nd(a \<mapsto> n\<lparr>ln_next := r\<rparr>)) p (xs @ [a]) r"
  using assms by simp

lemma dseg_set_prev:
  assumes "dseg nd p (b # ys) q" and "b \<notin> set ys" and "nd b = Some n"
  shows "dseg (nd(b \<mapsto> n\<lparr>ln_prev := r\<rparr>)) r (b # ys) q"
  using assms by simp

lemma dseg_node: "dseg nd p xs q \<Longrightarrow> i \<in> set xs \<Longrightarrow> \<exists>n. nd i = Some n"
  by (induction xs arbitrary: p) auto

section \<open>Updates of the arena\<close>

lemma node_at_lt: "node_at m i = Some n \<Longrightarrow> i < length (lm_nodes m)"
  by (simp add: node_at_def split: if_splits)

lemma node_at_put [simp]:
  "i < length (lm_nodes m) \<Longrightarrow> node_at (put_node i n m) = (node_at m)(i := n)"
  by (auto simp: node_at_def put_node_def fun_eq_iff nth_list_update)

lemma put_node_fields [simp]:
  "lm_cap (put_node i n m) = lm_cap m" "lm_map (put_node i n m) = lm_map m"
  "lm_key_hash (put_node i n m) = lm_key_hash m" "lm_free (put_node i n m) = lm_free m"
  "lm_head (put_node i n m) = lm_head m" "lm_tail (put_node i n m) = lm_tail m"
  "lm_len (put_node i n m) = lm_len m" "length (lm_nodes (put_node i n m)) = length (lm_nodes m)"
  by (simp_all add: put_node_def)

lemma node_at_update [simp]:
  "node_at (m\<lparr>lm_head := x\<rparr>) = node_at m" "node_at (m\<lparr>lm_tail := x\<rparr>) = node_at m"
  "node_at (m\<lparr>lm_map := f\<rparr>) = node_at m" "node_at (m\<lparr>lm_len := x\<rparr>) = node_at m"
  "node_at (m\<lparr>lm_free := xs\<rparr>) = node_at m" "node_at (m\<lparr>lm_len := x, lm_free := xs\<rparr>) = node_at m"
  "node_at (m\<lparr>lm_map := f, lm_len := x\<rparr>) = node_at m"
  by (simp_all add: node_at_def fun_eq_iff)

lemma lru_node_of_Some [simp]: "node_at m i = Some n \<Longrightarrow> lru_node_of m i = Inr n"
  by (simp add: lru_node_of_def)

lemma set_link_simps [simp]:
  "node_at m i = Some n \<Longrightarrow> set_prev i p m = Inr (put_node i (Some (n\<lparr>ln_prev := p\<rparr>)) m)"
  "node_at m i = Some n \<Longrightarrow> set_next i p m = Inr (put_node i (Some (n\<lparr>ln_next := p\<rparr>)) m)"
  by (simp_all add: set_prev_def set_next_def)

section \<open>The order of use\<close>

definition recency :: "('k, 'v) lru_map \<Rightarrow> nat list \<Rightarrow> bool" where
  "recency m xs \<longleftrightarrow> dseg (node_at m) NIL xs NIL \<and> lm_head m = first_of xs NIL \<and>
     lm_tail m = last_of NIL xs \<and> distinct xs \<and> NIL \<notin> set xs"

text \<open>Operations on the order leave everything but the two links of the nodes alone.\<close>

definition node_payload :: "('k, 'v) lru_node \<Rightarrow> 'k \<times> 'v \<times> nat" where
  "node_payload n = (ln_key n, ln_val n, ln_hash_next n)"

definition relinked :: "('k, 'v) lru_map \<Rightarrow> ('k, 'v) lru_map \<Rightarrow> bool" where
  "relinked m m' \<longleftrightarrow> (\<forall>i. map_option node_payload (node_at m' i) = map_option node_payload (node_at m i)) \<and>
     lm_map m' = lm_map m \<and> lm_key_hash m' = lm_key_hash m \<and> lm_free m' = lm_free m \<and>
     lm_len m' = lm_len m \<and> lm_cap m' = lm_cap m \<and> length (lm_nodes m') = length (lm_nodes m)"

lemma relinked_refl [simp]: "relinked m m"
  by (simp add: relinked_def)

lemma relinked_trans: "relinked m m' \<Longrightarrow> relinked m' m'' \<Longrightarrow> relinked m m''"
  by (simp add: relinked_def)

lemma relinked_links:
  "node_at m i = Some n \<Longrightarrow> relinked m (put_node i (Some (n\<lparr>ln_prev := p\<rparr>)) m)"
  "node_at m i = Some n \<Longrightarrow> relinked m (put_node i (Some (n\<lparr>ln_next := p\<rparr>)) m)"
  "relinked m (m\<lparr>lm_head := x\<rparr>)" "relinked m (m\<lparr>lm_tail := x\<rparr>)"
  using node_at_lt [of m i n] by (auto simp: relinked_def node_payload_def)

lemma set_next_relinks:
  assumes "node_at m i = Some n"
  obtains m' where "set_next i p m = Inr m'" "relinked m m'" "node_at m' = (node_at m)(i \<mapsto> n\<lparr>ln_next := p\<rparr>)"
    "lm_head m' = lm_head m" "lm_tail m' = lm_tail m"
  using assms node_at_lt [OF assms] relinked_links(2) [OF assms] that by simp

lemma set_prev_relinks:
  assumes "node_at m i = Some n"
  obtains m' where "set_prev i p m = Inr m'" "relinked m m'" "node_at m' = (node_at m)(i \<mapsto> n\<lparr>ln_prev := p\<rparr>)"
    "lm_head m' = lm_head m" "lm_tail m' = lm_tail m"
  using assms node_at_lt [OF assms] relinked_links(1) [OF assms] that by simp

lemma unlink_before:
  assumes "recency m (xs @ i # ys)"
  obtains m' where "(if last_of NIL xs \<noteq> NIL then set_next (last_of NIL xs) (first_of ys NIL) m
      else Inr (m\<lparr>lm_head := first_of ys NIL\<rparr>)) = Inr m'" "relinked m m'"
    "dseg (node_at m') NIL xs (first_of ys NIL)" "dseg (node_at m') i ys NIL"
    "lm_head m' = first_of (xs @ ys) NIL" "lm_tail m' = lm_tail m"
proof (cases xs rule: rev_cases)
  case Nil
  with assms show ?thesis
    by (intro that [of "m\<lparr>lm_head := first_of ys NIL\<rparr>"]) (auto simp: recency_def relinked_links)
next
  case (snoc xs' a)
  with assms obtain n where n: "node_at m a = Some n" and a: "a \<noteq> NIL" "a \<notin> set xs'" "a \<notin> set ys"
    by (auto simp: recency_def)
  obtain m' where m': "set_next a (first_of ys NIL) m = Inr m'" "relinked m m'"
      "node_at m' = (node_at m)(a \<mapsto> n\<lparr>ln_next := first_of ys NIL\<rparr>)" "lm_head m' = lm_head m" "lm_tail m' = lm_tail m"
    by (rule set_next_relinks [OF n])
  have "dseg (node_at m) NIL (xs' @ [a]) i" using assms snoc by (simp add: recency_def)
  from dseg_set_next [OF this a(2) n] have "dseg (node_at m') NIL xs (first_of ys NIL)"
    using m'(3) snoc by simp
  moreover have "dseg (node_at m') i ys NIL" using assms snoc a m'(3) by (simp add: recency_def)
  moreover have "lm_head m' = first_of (xs @ ys) NIL"
    using assms snoc m'(4) by (cases xs') (simp_all add: recency_def)
  ultimately show ?thesis using that [of m'] m' snoc a by simp
qed

lemma lru_unlink_ok:
  assumes r: "recency m (xs @ i # ys)"
  obtains m' where "lru_unlink i m = Inr m'" "relinked m m'" "recency m' (xs @ ys)"
proof -
  from r obtain n where n: "node_at m i = Some n" "ln_prev n = last_of NIL xs" "ln_next n = first_of ys NIL"
    by (auto simp: recency_def)
  obtain m1 where m1: "(if last_of NIL xs \<noteq> NIL then set_next (last_of NIL xs) (first_of ys NIL) m
      else Inr (m\<lparr>lm_head := first_of ys NIL\<rparr>)) = Inr m1" "relinked m m1"
    "dseg (node_at m1) NIL xs (first_of ys NIL)" "dseg (node_at m1) i ys NIL"
    "lm_head m1 = first_of (xs @ ys) NIL" "lm_tail m1 = lm_tail m"
    by (rule unlink_before [OF r])
  have unl: "lru_unlink i m = (if first_of ys NIL \<noteq> NIL then set_prev (first_of ys NIL) (last_of NIL xs) m1
      else Inr (m1\<lparr>lm_tail := last_of NIL xs\<rparr>))"
    unfolding lru_unlink_def by (simp only: lru_node_of_Some [OF n(1)] fault_bind_simps Let_def n m1(1))
  show ?thesis
  proof (cases ys)
    case Nil
    with unl m1 r show ?thesis
      by (intro that [of "m1\<lparr>lm_tail := last_of NIL xs\<rparr>"])
        (auto simp: recency_def intro: relinked_trans relinked_links)
  next
    case (Cons b ys')
    with m1(4) r obtain nb where nb: "node_at m1 b = Some nb" "b \<noteq> NIL" "b \<notin> set ys'" "b \<notin> set xs"
      by (auto simp: recency_def)
    obtain m2 where m2: "set_prev b (last_of NIL xs) m1 = Inr m2" "relinked m1 m2"
      "node_at m2 = (node_at m1)(b \<mapsto> nb\<lparr>ln_prev := last_of NIL xs\<rparr>)" "lm_head m2 = lm_head m1" "lm_tail m2 = lm_tail m1"
      by (rule set_prev_relinks [OF nb(1)])
    have "dseg (node_at m2) (last_of NIL xs) ys NIL"
      using dseg_set_prev [of "node_at m1" i b ys' NIL nb "last_of NIL xs"] m1(4) nb Cons m2(3) by simp
    with m2 m1 nb r Cons unl show ?thesis
      by (intro that [of m2]) (auto simp: recency_def intro: relinked_trans)
  qed
qed

lemma lru_push_front_ok:
  assumes r: "recency m xs" and i: "node_at m i = Some n" "i \<notin> set xs" "i \<noteq> NIL"
  obtains m' where "lru_push_front i m = Inr m'" "relinked m m'" "recency m' (i # xs)"
proof -
  obtain m1 where m1: "set_prev i NIL m = Inr m1" "relinked m m1" "node_at m1 = (node_at m)(i \<mapsto> n\<lparr>ln_prev := NIL\<rparr>)"
      "lm_head m1 = lm_head m" "lm_tail m1 = lm_tail m"
    by (rule set_prev_relinks [OF i(1)])
  obtain m2 where m2: "set_next i (lm_head m) m1 = Inr m2" "relinked m1 m2"
      "node_at m2 = (node_at m1)(i \<mapsto> n\<lparr>ln_prev := NIL, ln_next := lm_head m\<rparr>)" "lm_head m2 = lm_head m1" "lm_tail m2 = lm_tail m1"
    by (rule set_next_relinks [of m1 i "n\<lparr>ln_prev := NIL\<rparr>" "lm_head m"]) (simp_all add: m1)
  have hd: "lm_head m = first_of xs NIL" and ds: "dseg (node_at m) NIL xs NIL" using r by (simp_all add: recency_def)
  show ?thesis
  proof (cases xs)
    case Nil
    with m1 m2 r i hd show ?thesis
      by (intro that [of "m2\<lparr>lm_head := i, lm_tail := i\<rparr>"])
        (auto simp: lru_push_front_def recency_def relinked_def node_at_def Let_def)
  next
    case (Cons b xs')
    have b: "b \<noteq> NIL" "b \<noteq> i" "b \<notin> set xs'" using r i Cons by (auto simp: recency_def)
    from ds Cons obtain nb where nb: "node_at m b = Some nb" by auto
    then have nb2: "node_at m2 b = Some nb" using b m1(3) m2(3) by simp
    obtain m3 where m3: "set_prev b i m2 = Inr m3" "relinked m2 m3" "node_at m3 = (node_at m2)(b \<mapsto> nb\<lparr>ln_prev := i\<rparr>)"
        "lm_head m3 = lm_head m2" "lm_tail m3 = lm_tail m2"
      by (rule set_prev_relinks [OF nb2])
    have tl: "lm_tail m3 \<noteq> NIL"
      using r Cons m1(5) m2(5) m3(5) last_of_in [of xs NIL] by (auto simp: recency_def)
    have "lru_push_front i m = Inr (m3\<lparr>lm_head := i\<rparr>)"
      using m1 m2 m3 hd Cons b tl by (simp add: lru_push_front_def Let_def)
    moreover have "relinked m (m3\<lparr>lm_head := i\<rparr>)"
      using m1 m2 m3 by (auto simp: relinked_def)
    moreover have "dseg (node_at m3) i xs NIL"
      using dseg_set_prev [of "node_at m2" NIL b xs' NIL nb i] ds Cons b i nb2 m3(3) m2(3) m1(3) by simp
    moreover have "node_at m3 i = Some (n\<lparr>ln_prev := NIL, ln_next := lm_head m\<rparr>)"
      using m3(3) m2(3) b by simp
    ultimately show ?thesis
      using r i Cons m1 m2 m3 hd by (intro that [of "m3\<lparr>lm_head := i\<rparr>"]) (auto simp: recency_def)
  qed
qed

lemma relinked_node: "relinked m m' \<Longrightarrow> node_at m i = Some n \<Longrightarrow> \<exists>n'. node_at m' i = Some n' \<and> node_payload n' = node_payload n"
  unfolding relinked_def by (metis map_option_eq_Some)

lemma lru_move_front_ok:
  assumes r: "recency m (xs @ i # ys)"
  obtains m' where "lru_move_front i m = Inr m'" "relinked m m'" "recency m' (i # xs @ ys)"
proof (cases "lm_head m = i")
  case True
  then have "xs = []" using r by (cases xs) (auto simp: recency_def)
  with True r show ?thesis by (intro that [of m]) (auto simp: lru_move_front_def)
next
  case False
  obtain m1 where m1: "lru_unlink i m = Inr m1" "relinked m m1" "recency m1 (xs @ ys)"
    by (rule lru_unlink_ok [OF r])
  from r obtain n where "node_at m i = Some n" by (auto simp: recency_def)
  then obtain n1 where n1: "node_at m1 i = Some n1" using relinked_node [OF m1(2)] by blast
  have i: "i \<notin> set (xs @ ys)" "i \<noteq> NIL" using r by (auto simp: recency_def)
  obtain m2 where "lru_push_front i m1 = Inr m2" "relinked m1 m2" "recency m2 (i # xs @ ys)"
    by (rule lru_push_front_ok [OF m1(3) n1 i])
  with False m1 show ?thesis by (intro that [of m2]) (auto simp: lru_move_front_def intro: relinked_trans)
qed

section \<open>Chains and slots\<close>

fun chain :: "(nat \<Rightarrow> ('k, 'v) lru_node option) \<Rightarrow> nat \<Rightarrow> nat list \<Rightarrow> bool" where
  "chain nd x [] \<longleftrightarrow> x = NIL"
| "chain nd x (i # is) \<longleftrightarrow> x = i \<and> i \<noteq> NIL \<and> (\<exists>n. nd i = Some n \<and> chain nd (ln_hash_next n) is)"

lemma chain_cong:
  "(\<And>i. i \<in> set c \<Longrightarrow> map_option ln_hash_next (nd' i) = map_option ln_hash_next (nd i)) \<Longrightarrow> chain nd x c = chain nd' x c"
proof (induction c arbitrary: x)
  case (Cons i c)
  then have "map_option ln_hash_next (nd' i) = map_option ln_hash_next (nd i)"
    and "\<And>x. chain nd x c = chain nd' x c" by auto
  then show ?case by (cases "nd i"; cases "nd' i") auto
qed simp

lemma chain_outside [simp]: "i \<notin> set c \<Longrightarrow> chain (nd(i := n)) x c = chain nd x c"
  by (rule chain_cong) auto

lemma chain_not_NIL: "chain nd x c \<Longrightarrow> NIL \<notin> set c"
  by (induction c arbitrary: x) auto

definition chain_head :: "nat option \<Rightarrow> nat" where
  "chain_head h = (case h of None \<Rightarrow> NIL | Some i \<Rightarrow> i)"

definition hashed :: "('k, 'v) lru_map \<Rightarrow> nat \<Rightarrow> u32 \<Rightarrow> bool" where
  "hashed m i d \<longleftrightarrow> (\<exists>n. node_at m i = Some n \<and> lm_key_hash m (ln_key n) = d)"

definition chain_for :: "('k, 'v) lru_map \<Rightarrow> nat set \<Rightarrow> u32 \<Rightarrow> nat list \<Rightarrow> bool" where
  "chain_for m A d c \<longleftrightarrow> chain (node_at m) (chain_head (lm_map m d)) c \<and> distinct c \<and>
     (lm_map m d = None \<longleftrightarrow> c = []) \<and> set c = {i \<in> A. hashed m i d}"

definition chained :: "nat set \<Rightarrow> ('k, 'v) lru_map \<Rightarrow> bool" where
  "chained A m \<longleftrightarrow> (\<forall>d. \<exists>c. chain_for m A d c)"

lemma chainedE:
  assumes "chained A m"
  obtains c where "chain_for m A d c"
  using assms that by (auto simp: chained_def)

lemma chain_length:
  assumes "chain_for m A d c"
  shows "length c \<le> length (lm_nodes m)"
proof -
  have "set c \<subseteq> {..<length (lm_nodes m)}" and d: "distinct c"
    using assms by (auto simp: chain_for_def hashed_def dest: node_at_lt)
  from card_mono [OF _ this(1)] show ?thesis by (simp add: distinct_card [OF d])
qed

definition slots :: "('k, 'v) lru_map \<Rightarrow> nat list \<Rightarrow> bool" where
  "slots m xs \<longleftrightarrow> set xs = {i. node_at m i \<noteq> None} \<and> lm_len m = length xs \<and> distinct (lm_free m) \<and>
     set (lm_free m) = {i. i < length (lm_nodes m) \<and> node_at m i = None} \<and>
     length (lm_nodes m) \<le> lm_cap m \<and> lm_cap m < NIL \<and> 0 < lm_cap m"

definition entry_at :: "('k, 'v) lru_map \<Rightarrow> nat \<Rightarrow> 'k \<times> 'v" where
  "entry_at m i = (case node_at m i of None \<Rightarrow> undefined | Some n \<Rightarrow> (ln_key n, ln_val n))"

definition entries_at :: "('k, 'v) lru_map \<Rightarrow> nat list \<Rightarrow> ('k \<times> 'v) list" where
  "entries_at m xs = map (entry_at m) xs"

definition lru_ok :: "('k, 'v) lru_map \<Rightarrow> nat list \<Rightarrow> bool" where
  "lru_ok m xs \<longleftrightarrow> recency m xs \<and> slots m xs \<and> chained (set xs) m \<and> distinct (map fst (entries_at m xs))"

lemma lru_okD:
  assumes "lru_ok m xs"
  shows "recency m xs" "slots m xs" "chained (set xs) m" "distinct (map fst (entries_at m xs))"
  using assms by (simp_all add: lru_ok_def)

lemma node_payload_entry:
  assumes "map_option node_payload (node_at m' i) = map_option node_payload (node_at m i)"
  shows "entry_at m' i = entry_at m i" "map_option ln_hash_next (node_at m' i) = map_option ln_hash_next (node_at m i)"
    "node_at m' i = None \<longleftrightarrow> node_at m i = None"
    "lm_key_hash m' = lm_key_hash m \<Longrightarrow> hashed m' i d = hashed m i d"
  using assms by (cases "node_at m i"; cases "node_at m' i"; simp add: entry_at_def node_payload_def hashed_def)+

lemma relinked_keeps:
  assumes "relinked m m'"
  shows "slots m' xs = slots m xs" "chained A m' = chained A m" "entries_at m' xs = entries_at m xs"
proof -
  have p: "map_option node_payload (node_at m' i) = map_option node_payload (node_at m i)" for i
    using assms by (simp add: relinked_def)
  have f: "lm_map m' = lm_map m" "lm_key_hash m' = lm_key_hash m" "lm_free m' = lm_free m"
     "lm_len m' = lm_len m" "lm_cap m' = lm_cap m" "length (lm_nodes m') = length (lm_nodes m)"
    using assms by (simp_all add: relinked_def)
  show "slots m' xs = slots m xs" using node_payload_entry(3) [OF p] f by (simp add: slots_def)
  show "entries_at m' xs = entries_at m xs" using node_payload_entry(1) [OF p] by (simp add: entries_at_def)
  have "chain (node_at m) x c = chain (node_at m') x c" for x c
    by (rule chain_cong) (rule node_payload_entry(2) [OF p])
  then show "chained A m' = chained A m"
    using node_payload_entry(4) [OF p f(2)] f by (simp add: chained_def chain_for_def)
qed

lemma relinked_ok:
  assumes "relinked m m'" and "recency m' xs'" and "lru_ok m xs" and "set xs' = set xs" and "length xs' = length xs"
  shows "lru_ok m' xs'"
proof -
  note k = relinked_keeps [OF assms(1)]
  have "slots m xs'" using assms(3-5) by (simp add: lru_ok_def slots_def)
  moreover have "distinct (map fst (entries_at m xs'))"
  proof -
    have "inj_on (fst \<circ> entry_at m) (set xs)"
      using assms(3) by (simp add: lru_ok_def entries_at_def distinct_map)
    moreover have "distinct xs'" using assms(2) by (simp add: recency_def)
    ultimately show ?thesis using assms(4) by (simp add: entries_at_def distinct_map)
  qed
  ultimately show ?thesis using assms k by (simp add: lru_ok_def)
qed

lemma slots_active: "slots m xs \<Longrightarrow> i \<in> set xs \<longleftrightarrow> (\<exists>n. node_at m i = Some n)"
  by (auto simp: slots_def)

lemma slots_lt: "slots m xs \<Longrightarrow> node_at m i = Some n \<Longrightarrow> i < NIL"
  using node_at_lt [of m i n] by (auto simp: slots_def)

lemma slots_count:
  assumes "slots m xs" and "distinct xs"
  shows "length xs + length (lm_free m) = length (lm_nodes m)"
proof -
  have "set xs \<union> set (lm_free m) = {..<length (lm_nodes m)}"
    using assms(1) by (auto simp: slots_def node_at_def split: if_splits)
  moreover have "set xs \<inter> set (lm_free m) = {}" using assms(1) by (auto simp: slots_def)
  ultimately have "card {..<length (lm_nodes m)} = card (set xs) + card (set (lm_free m))"
    by (metis card_Un_disjoint finite_set)
  then show ?thesis using assms by (simp add: distinct_card slots_def)
qed

section \<open>Lookup\<close>

lemma find_loop_chain:
  assumes "chain (node_at m) x c" and "length c < fuel"
  shows "find_loop fuel m key x = Inr (find (\<lambda>i. \<exists>n. node_at m i = Some n \<and> ln_key n = key) c)"
  using assms
proof (induction c arbitrary: x fuel)
  case Nil
  then show ?case by (cases fuel) simp_all
next
  case (Cons i c)
  then obtain f n where "fuel = Suc f" "x = i" "i \<noteq> NIL" "node_at m i = Some n" "chain (node_at m) (ln_hash_next n) c"
    by (cases fuel) auto
  with Cons show ?case by auto
qed

lemma find_index_ok:
  assumes ok: "lru_ok m xs"
  obtains (Absent) "find_index_with_hash (lm_key_hash m key) key m = Inr None" "map_of (entries_at m xs) key = None"
    | (Found) ys i zs n where "find_index_with_hash (lm_key_hash m key) key m = Inr (Some i)"
      "xs = ys @ i # zs" "node_at m i = Some n" "ln_key n = key"
proof -
  let ?P = "\<lambda>i. \<exists>n. node_at m i = Some n \<and> ln_key n = key"
  obtain c where c: "chain_for m (set xs) (lm_key_hash m key) c" by (rule chainedE [OF lru_okD(3) [OF ok]])
  note len = chain_length [OF c]
  have fi: "find_index_with_hash (lm_key_hash m key) key m = Inr (find ?P c)"
  proof (cases "lm_map m (lm_key_hash m key)")
    case None
    with c show ?thesis by (simp add: chain_for_def find_index_with_hash_def)
  next
    case (Some i)
    with c have "chain (node_at m) i c" by (simp add: chain_for_def chain_head_def)
    from find_loop_chain [OF this, of "Suc (length (lm_nodes m))" key] Some len show ?thesis
      by (simp add: find_index_with_hash_def)
  qed
  have sc: "set c = {i \<in> set xs. hashed m i (lm_key_hash m key)}" using c by (simp add: chain_for_def)
  show ?thesis
  proof (cases "find ?P c")
    case None
    have "map_of (entries_at m xs) key = None"
    proof (rule ccontr)
      assume "map_of (entries_at m xs) key \<noteq> None"
      then obtain v where "(key, v) \<in> set (entries_at m xs)" by (auto dest: map_of_SomeD)
      then obtain i where i: "i \<in> set xs" "entry_at m i = (key, v)" by (auto simp: entries_at_def)
      then obtain n where "node_at m i = Some n" using slots_active [OF lru_okD(2) [OF ok]] by blast
      with i have "i \<in> set c" "?P i" by (auto simp: sc hashed_def entry_at_def)
      with None show False by (auto simp: find_None_iff)
    qed
    with fi None Absent show ?thesis by simp
  next
    case (Some i)
    then have "i \<in> set c" "?P i" by (auto simp: find_Some_iff)
    then obtain n where n: "i \<in> set xs" "node_at m i = Some n" "ln_key n = key" using sc by auto
    from n(1) obtain ys zs where "xs = ys @ i # zs" by (auto simp: in_set_conv_decomp)
    with fi Some n Found show ?thesis by simp
  qed
qed

section \<open>Removal\<close>

text \<open>Changing a collision chain leaves keys, values and the order of use alone.\<close>

definition rechained :: "('k, 'v) lru_map \<Rightarrow> ('k, 'v) lru_map \<Rightarrow> bool" where
  "rechained m m' \<longleftrightarrow>
     (\<forall>i. map_option (\<lambda>n. (ln_key n, ln_val n, ln_prev n, ln_next n)) (node_at m' i) =
          map_option (\<lambda>n. (ln_key n, ln_val n, ln_prev n, ln_next n)) (node_at m i)) \<and>
     lm_key_hash m' = lm_key_hash m \<and> lm_free m' = lm_free m \<and> lm_len m' = lm_len m \<and>
     lm_cap m' = lm_cap m \<and> length (lm_nodes m') = length (lm_nodes m) \<and>
     lm_head m' = lm_head m \<and> lm_tail m' = lm_tail m"

lemma dseg_links:
  assumes "\<And>i. map_option (\<lambda>n. (ln_prev n, ln_next n)) (nd' i) = map_option (\<lambda>n. (ln_prev n, ln_next n)) (nd i)"
  shows "dseg nd p xs q = dseg nd' p xs q"
proof (induction xs arbitrary: p)
  case (Cons x xs)
  then show ?case using assms [of x] by (cases "nd x"; cases "nd' x") auto
qed simp

lemma rechained_keeps:
  assumes "rechained m m'"
  shows "slots m' xs = slots m xs" "recency m' xs = recency m xs" "entries_at m' xs = entries_at m xs"
    "hashed m' i d = hashed m i d"
proof -
  have p: "map_option (\<lambda>n. (ln_key n, ln_val n, ln_prev n, ln_next n)) (node_at m' i) =
      map_option (\<lambda>n. (ln_key n, ln_val n, ln_prev n, ln_next n)) (node_at m i)" for i
    using assms by (simp add: rechained_def)
  have q: "node_at m' i = None \<longleftrightarrow> node_at m i = None" "entry_at m' i = entry_at m i"
    "map_option (\<lambda>n. (ln_prev n, ln_next n)) (node_at m' i) = map_option (\<lambda>n. (ln_prev n, ln_next n)) (node_at m i)"
    "map_option ln_key (node_at m' i) = map_option ln_key (node_at m i)" for i
    using p [of i] by (cases "node_at m i"; cases "node_at m' i"; simp add: entry_at_def)+
  show "slots m' xs = slots m xs" using assms q(1) by (simp add: slots_def rechained_def)
  show "recency m' xs = recency m xs"
    using assms dseg_links [OF q(3)] by (simp add: recency_def rechained_def)
  show "entries_at m' xs = entries_at m xs" using q(2) by (simp add: entries_at_def)
  show "hashed m' i d = hashed m i d"
    using assms q(4) [of i] by (cases "node_at m i"; cases "node_at m' i") (auto simp: hashed_def rechained_def)
qed

lemma bypass_loop_ok:
  assumes "chain (node_at m) x (c @ i # c')" and "c \<noteq> []" and "length c \<le> fuel" and "distinct (c @ i # c')"
  shows "\<exists>n. node_at m (last c) = Some n \<and>
    bypass_loop fuel i hn x m = Inr (put_node (last c) (Some (n\<lparr>ln_hash_next := hn\<rparr>)) m)"
  using assms
proof (induction c arbitrary: x fuel)
  case (Cons a c)
  then obtain f n where f: "fuel = Suc f" and a: "x = a" "node_at m a = Some n"
    "chain (node_at m) (ln_hash_next n) (c @ i # c')" by (cases fuel) auto
  show ?case
  proof (cases c)
    case Nil
    with f a show ?thesis by auto
  next
    case (Cons b c2)
    with a Cons.prems have "ln_hash_next n = b" "b \<noteq> NIL" "b \<noteq> i" by auto
    moreover have "\<exists>n. node_at m (last c) = Some n \<and>
        bypass_loop f i hn (ln_hash_next n') m = Inr (put_node (last c) (Some (n\<lparr>ln_hash_next := hn\<rparr>)) m)"
      if "n' = n" for n'
      using Cons.IH [of "ln_hash_next n" f] a Cons.prems f Cons that by simp
    ultimately show ?thesis using f a Cons by simp
  qed
qed simp

lemma chain_tail: "chain nd x (c @ i # c') \<Longrightarrow> \<exists>n. nd i = Some n \<and> chain nd (ln_hash_next n) c'"
  by (induction c arbitrary: x) auto

lemma chain_bypass:
  assumes "chain nd x (c @ i # c')" and "c \<noteq> []" and "distinct (c @ i # c')" and "nd i = Some n"
    and "nd (last c) = Some l"
  shows "chain (nd(last c \<mapsto> l\<lparr>ln_hash_next := ln_hash_next n\<rparr>)) x (c @ c')"
  using assms
proof (induction c arbitrary: x)
  case (Cons a c)
  show ?case
  proof (cases "c = []")
    case True
    with Cons.prems have "a \<notin> set c'" "chain nd (ln_hash_next n) c'" "x = a" "a \<noteq> NIL" by auto
    with True Cons.prems show ?thesis by (simp add: fun_upd_same del: fun_upd_apply)
  next
    case False
    then have "a \<noteq> last c" using last_in_set [OF False] Cons.prems(3) by fastforce
    moreover from Cons.prems obtain na where "nd a = Some na" "chain nd (ln_hash_next na) (c @ i # c')" by auto
    ultimately show ?thesis using Cons False by simp
  qed
qed simp

lemma remove_from_chain_ok:
  assumes ch: "chained A m" and i: "i \<in> A" and n: "node_at m i = Some n"
  obtains m' where "remove_from_chain i (lm_key_hash m (ln_key n)) m = Inr m'" "rechained m m'"
    "chained (A - {i}) m'"
proof -
  let ?d = "lm_key_hash m (ln_key n)"
  obtain c where c: "chain_for m A ?d c" by (rule chainedE [OF ch])
  then have "i \<in> set c" using i n by (auto simp: chain_for_def hashed_def)
  then obtain c1 c2 where c12: "c = c1 @ i # c2" by (auto simp: in_set_conv_decomp)
  have cc: "chain (node_at m) (chain_head (lm_map m ?d)) (c1 @ i # c2)" and dc: "distinct (c1 @ i # c2)"
    and sc: "set (c1 @ i # c2) = {j \<in> A. hashed m j ?d}"
    using c c12 by (simp_all add: chain_for_def)
  from c c12 obtain h where h: "lm_map m ?d = Some h" by (auto simp: chain_for_def)
  have tl: "chain (node_at m) (ln_hash_next n) c2" using chain_tail [OF cc] n by simp
  have rest: "set (c1 @ c2) = {j \<in> A - {i}. hashed m j ?d}" using sc dc by auto
  have other: "{j \<in> A - {i}. hashed m j d} = {j \<in> A. hashed m j d}" if "d \<noteq> ?d" for d
    using that n by (auto simp: hashed_def)
  show ?thesis
  proof (cases "c1 = []")
    case True
    let ?m = "m\<lparr>lm_map := (if ln_hash_next n = NIL then (lm_map m)(?d := None) else (lm_map m)(?d \<mapsto> ln_hash_next n))\<rparr>"
    have "remove_from_chain i ?d m = Inr ?m"
      using True cc h n by (simp add: remove_from_chain_def chain_head_def Let_def)
    moreover have "rechained m ?m" by (simp add: rechained_def)
    moreover have "chained (A - {i}) ?m"
      unfolding chained_def
    proof
      fix d
      obtain cd where cd: "chain_for m A d cd" by (rule chainedE [OF ch])
      have nil: "c2 = [] \<longleftrightarrow> ln_hash_next n = NIL" using tl by (cases c2) auto
      have hm: "hashed (m\<lparr>lm_map := f\<rparr>) j e = hashed m j e" for f j e by (simp add: hashed_def)
      show "\<exists>c. chain_for ?m (A - {i}) d c"
      proof (cases "d = ?d")
        case True
        then have "chain_for ?m (A - {i}) d c2"
          using \<open>c1 = []\<close> nil tl dc rest by (cases "c2 = []") (simp_all add: chain_for_def hm chain_head_def)
        then show ?thesis ..
      next
        case False
        then have "chain_for ?m (A - {i}) d cd"
          using cd other [OF False] by (simp add: chain_for_def hm)
        then show ?thesis ..
      qed
    qed
    ultimately show ?thesis using that by blast
  next
    case False
    have len: "length c1 \<le> Suc (length (lm_nodes m))" using chain_length [OF c] c12 by simp
    have "h \<noteq> i" using cc dc h False by (cases c1) (auto simp: chain_head_def)
    obtain l where l: "node_at m (last c1) = Some l"
      and lp: "bypass_loop (Suc (length (lm_nodes m))) i (ln_hash_next n) h m =
        Inr (put_node (last c1) (Some (l\<lparr>ln_hash_next := ln_hash_next n\<rparr>)) m)"
      using bypass_loop_ok [OF _ False len dc, of m h] cc h by (auto simp: chain_head_def)
    let ?m = "put_node (last c1) (Some (l\<lparr>ln_hash_next := ln_hash_next n\<rparr>)) m"
    note lt = node_at_lt [OF l]
    have "remove_from_chain i ?d m = Inr ?m"
      using n h \<open>h \<noteq> i\<close> by (simp add: remove_from_chain_def Let_def lp del: bypass_loop.simps)
    moreover have rc: "rechained m ?m" using lt l by (auto simp: rechained_def)
    moreover have "chained (A - {i}) ?m"
      unfolding chained_def
    proof
      fix d
      obtain cd where cd: "chain_for m A d cd" by (rule chainedE [OF ch])
      have "last c1 \<in> set (c1 @ i # c2)" using False by simp
      then have "hashed m (last c1) ?d" unfolding sc by simp
      then have out: "d \<noteq> ?d \<Longrightarrow> last c1 \<notin> set cd" using cd by (auto simp: chain_for_def hashed_def)
      show "\<exists>c. chain_for ?m (A - {i}) d c"
      proof (cases "d = ?d")
        case True
        then have "chain_for ?m (A - {i}) d (c1 @ c2)"
          using chain_bypass [OF cc \<open>c1 \<noteq> []\<close> dc n l] dc rest h lt \<open>c1 \<noteq> []\<close>
          by (simp add: chain_for_def rechained_keeps(4) [OF rc])
        then show ?thesis ..
      next
        case False
        then have "chain_for ?m (A - {i}) d cd"
          using cd other [OF False] out [OF False] lt
          by (simp add: chain_for_def rechained_keeps(4) [OF rc] del: fun_upd_apply)
        then show ?thesis ..
      qed
    qed
    ultimately show ?thesis using that by blast
  qed
qed

text \<open>Vacating a slot that is on neither list.\<close>

lemma vacate_keeps:
  assumes "i < length (lm_nodes m)" and "i \<notin> set xs" and "i \<notin> A"
  shows "recency (put_node i None m) xs = recency m xs" "chained A m \<Longrightarrow> chained A (put_node i None m)"
    "entries_at (put_node i None m) xs = entries_at m xs"
proof -
  let ?m = "put_node i None m"
  show "recency ?m xs = recency m xs" using assms by (simp add: recency_def del: fun_upd_apply)
  show "entries_at ?m xs = entries_at m xs" using assms by (auto simp: entries_at_def entry_at_def)
  assume ch: "chained A m"
  show "chained A ?m"
    unfolding chained_def
  proof
    fix d
    obtain c where c: "chain_for m A d c" by (rule chainedE [OF ch])
    then have "i \<notin> set c" using assms by (auto simp: chain_for_def)
    moreover have "{j \<in> A. hashed ?m j d} = {j \<in> A. hashed m j d}" using assms by (auto simp: hashed_def)
    ultimately have "chain_for ?m A d c"
      using c assms by (simp add: chain_for_def del: fun_upd_apply)
    then show "\<exists>c. chain_for ?m A d c" ..
  qed
qed

lemma remove_index_ok:
  assumes ok: "lru_ok m (xs @ i # ys)" and n: "node_at m i = Some n"
  obtains n' m' where "remove_index i (lm_key_hash m (ln_key n)) m = Inr (n', m')" "ln_key n' = ln_key n"
    "ln_val n' = ln_val n" "lru_ok m' (xs @ ys)" "entries_at m' (xs @ ys) = entries_at m (xs @ ys)"
    "lm_free m' = lm_free m @ [i]" "lm_cap m' = lm_cap m" "lm_key_hash m' = lm_key_hash m"
proof -
  note o = lru_okD [OF ok]
  have di: "i \<notin> set (xs @ ys)" using o(1) by (auto simp: recency_def)
  obtain m1 where m1: "remove_from_chain i (lm_key_hash m (ln_key n)) m = Inr m1" "rechained m m1"
      "chained (set (xs @ i # ys) - {i}) m1"
    by (rule remove_from_chain_ok [OF o(3) _ n]) auto
  have "recency m1 (xs @ i # ys)" using o(1) rechained_keeps(2) [OF m1(2)] by simp
  then obtain m2 where m2: "lru_unlink i m1 = Inr m2" "relinked m1 m2" "recency m2 (xs @ ys)"
    by (rule lru_unlink_ok)
  define m3 where "m3 = m2\<lparr>lm_len := lm_len m2 - 1, lm_free := lm_free m2 @ [i]\<rparr>"
  have "entries_at m2 [i] = entries_at m [i]"
    using rechained_keeps(3) [OF m1(2)] relinked_keeps(3) [OF m2(2)] by simp
  moreover have sl2: "slots m2 (xs @ i # ys)"
    using o(2) rechained_keeps(1) [OF m1(2)] relinked_keeps(1) [OF m2(2)] by simp
  then obtain n' where n': "node_at m2 i = Some n'" using slots_active by fastforce
  ultimately have kv: "ln_key n' = ln_key n" "ln_val n' = ln_val n" using n by (simp_all add: entries_at_def entry_at_def)
  have nm3: "node_at m3 = node_at m2" by (simp add: m3_def)
  let ?m = "put_node i None m3"
  have rm: "remove_index i (lm_key_hash m (ln_key n)) m = Inr (n', ?m)"
    using m1(1) m2(1) n' by (simp add: remove_index_def Let_def m3_def)
  have lt: "i < length (lm_nodes m3)" using node_at_lt [OF n'] by (simp add: m3_def)
  have "recency m3 (xs @ ys)" using m2(3) by (simp add: recency_def nm3) (simp add: m3_def)
  moreover have "chained (set (xs @ ys)) m3"
  proof -
    have "set (xs @ i # ys) - {i} = set (xs @ ys)" using di by auto
    then have "chained (set (xs @ ys)) m2" using m1(3) relinked_keeps(2) [OF m2(2)] by simp
    then show ?thesis by (simp add: chained_def chain_for_def hashed_def nm3) (simp add: m3_def)
  qed
  moreover have e3: "entries_at m3 (xs @ ys) = entries_at m (xs @ ys)"
    using rechained_keeps(3) [OF m1(2)] relinked_keeps(3) [OF m2(2)]
    by (simp add: entries_at_def entry_at_def nm3)
  moreover have "slots ?m (xs @ ys)"
  proof -
    have "set (xs @ ys) = {j. node_at ?m j \<noteq> None}" using sl2 di lt nm3 by (auto simp: slots_def)
    moreover have "set (lm_free ?m) = {j. j < length (lm_nodes ?m) \<and> node_at ?m j = None}"
      using sl2 lt nm3 by (auto simp: slots_def m3_def)
    ultimately show ?thesis using sl2 n' by (auto simp: slots_def m3_def)
  qed
  moreover have "distinct (map fst (entries_at m (xs @ ys)))" using o(4) by (auto simp: entries_at_def)
  moreover have "lm_free ?m = lm_free m @ [i]" "lm_cap ?m = lm_cap m" "lm_key_hash ?m = lm_key_hash m"
    using m1(2) m2(2) by (simp_all add: m3_def rechained_def relinked_def)
  ultimately show ?thesis
    using vacate_keeps [OF lt di di] rm kv that [of n' ?m] by (simp add: lru_ok_def del: set_append)
qed

lemma entries_at_append [simp]: "entries_at m (xs @ ys) = entries_at m xs @ entries_at m ys"
  by (simp add: entries_at_def)

lemma entries_at_Cons: "node_at m i = Some n \<Longrightarrow> entries_at m (i # xs) = (ln_key n, ln_val n) # entries_at m xs"
  by (simp add: entries_at_def entry_at_def)

lemma entries_at_Nil [simp]: "entries_at m [] = []"
  by (simp add: entries_at_def)

lemma length_entries_at [simp]: "length (entries_at m xs) = length xs"
  by (simp add: entries_at_def)

lemma pop_lru_ok:
  assumes ok: "lru_ok m xs"
  obtains m' ys where "lru_pop_lru m = Inr (if xs = [] then None else Some (last (entries_at m xs)), m')"
    "lru_ok m' ys" "entries_at m' ys = butlast (entries_at m xs)" "lm_cap m' = lm_cap m" "lm_key_hash m' = lm_key_hash m"
    "xs \<noteq> [] \<longrightarrow> lm_free m' \<noteq> []"
proof (cases xs rule: rev_cases)
  case Nil
  with ok have "lm_tail m = NIL" by (simp add: lru_ok_def recency_def)
  with Nil ok show ?thesis by (intro that [of m "[]"]) (auto simp: lru_pop_lru_def)
next
  case (snoc ys i)
  with ok have tl: "lm_tail m = i" "i \<noteq> NIL" by (auto simp: lru_ok_def recency_def)
  from ok snoc obtain n where n: "node_at m i = Some n" using slots_active [OF lru_okD(2) [OF ok]] by fastforce
  obtain n' m' where r: "remove_index i (lm_key_hash m (ln_key n)) m = Inr (n', m')" "ln_key n' = ln_key n"
    "ln_val n' = ln_val n" "lru_ok m' (ys @ [])" "entries_at m' (ys @ []) = entries_at m (ys @ [])"
    "lm_free m' = lm_free m @ [i]" "lm_cap m' = lm_cap m" "lm_key_hash m' = lm_key_hash m"
    by (rule remove_index_ok [OF ok [unfolded snoc] n])
  have "lru_pop_lru m = Inr (Some (ln_key n, ln_val n), m')"
    using tl n r by (simp add: lru_pop_lru_def Let_def)
  with r snoc n show ?thesis by (intro that [of m' ys]) (simp_all add: entries_at_Cons butlast_append)
qed

section \<open>Insertion\<close>

lemma take_slot:
  assumes ok: "lru_ok m xs" and room: "lm_free m \<noteq> [] \<or> length xs < lm_cap m"
    and node: "node = \<lparr>ln_key = key, ln_val = val, ln_prev = NIL, ln_next = NIL, ln_hash_next = chain_head (lm_map m d)\<rparr>"
  obtains i m' where "insert_node d key val m = lru_push_front i m'"
    "node_at m i = None" "i \<noteq> NIL" "node_at m' = (node_at m)(i \<mapsto> node)" "lm_map m' = (lm_map m)(d \<mapsto> i)"
    "lm_head m' = lm_head m" "lm_tail m' = lm_tail m" "lm_cap m' = lm_cap m" "lm_key_hash m' = lm_key_hash m"
    "slots m' (i # xs)"
proof -
  note o = lru_okD [OF ok]
  show ?thesis
  proof (cases "lm_free m = []")
    case False
    let ?i = "last (lm_free m)"
    let ?m = "(put_node ?i (Some node) (m\<lparr>lm_free := butlast (lm_free m)\<rparr>))\<lparr>lm_map := (lm_map m)(d \<mapsto> ?i), lm_len := lm_len m + 1\<rparr>"
    have i: "?i < length (lm_nodes m)" "node_at m ?i = None"
      using last_in_set [OF False] o(2) by (auto simp: slots_def)
    then have na: "node_at ?m = (node_at m)(?i \<mapsto> node)" by simp
    have fr: "lm_free m = butlast (lm_free m) @ [?i]" using False by simp
    have "distinct (butlast (lm_free m) @ [?i])" using o(2) fr by (simp add: slots_def)
    moreover have "set (butlast (lm_free m) @ [?i]) = {j. j < length (lm_nodes m) \<and> node_at m j = None}"
      using o(2) fr by (simp add: slots_def)
    ultimately have "distinct (lm_free ?m)"
        "set (lm_free ?m) = {j. j < length (lm_nodes ?m) \<and> node_at ?m j = None}"
      unfolding na by (simp, simp, blast)
    moreover have "set (?i # xs) = {j. node_at ?m j \<noteq> None}" unfolding na using o(2) by (auto simp: slots_def)
    ultimately have "slots ?m (?i # xs)" using o(2) by (simp add: slots_def na del: fun_upd_apply)
    moreover have "insert_node d key val m = lru_push_front ?i ?m"
      using False i by (simp add: insert_node_def Let_def node chain_head_def)
    ultimately show ?thesis using i na o(2) by (intro that [of ?i ?m]) (auto simp: slots_def)
  next
    case True
    let ?i = "length (lm_nodes m)"
    let ?m = "m\<lparr>lm_nodes := lm_nodes m @ [Some node], lm_map := (lm_map m)(d \<mapsto> ?i), lm_len := lm_len m + 1\<rparr>"
    have "length xs = length (lm_nodes m)" using slots_count [OF o(2)] o(1) True by (simp add: recency_def)
    then have cap: "?i < lm_cap m" "?i < NIL" using room True o(2) by (auto simp: slots_def)
    have na: "node_at ?m = (node_at m)(?i \<mapsto> node)" by (auto simp: node_at_def nth_append fun_eq_iff)
    have "{j. j < length (lm_nodes m) \<and> node_at m j = None} = {}" using o(2) True by (simp add: slots_def)
    then have "set (lm_free ?m) = {j. j < length (lm_nodes ?m) \<and> node_at ?m j = None}"
      unfolding na using True by auto
    moreover have "set (?i # xs) = {j. node_at ?m j \<noteq> None}" unfolding na using o(2) by (auto simp: slots_def)
    ultimately have "slots ?m (?i # xs)" using o(2) cap True by (simp add: slots_def na del: fun_upd_apply)
    moreover have "insert_node d key val m = lru_push_front ?i ?m"
      using True cap by (simp add: insert_node_def Let_def node chain_head_def NIL_def)
    ultimately show ?thesis using cap na by (intro that [of ?i ?m]) (auto simp: node_at_def)
  qed
qed

lemma insert_node_ok:
  assumes ok: "lru_ok m xs" and new: "map_of (entries_at m xs) key = None"
    and room: "lm_free m \<noteq> [] \<or> length xs < lm_cap m"
  obtains m' i where "insert_node (lm_key_hash m key) key val m = Inr m'" "lru_ok m' (i # xs)"
    "entries_at m' (i # xs) = (key, val) # entries_at m xs" "lm_cap m' = lm_cap m" "lm_key_hash m' = lm_key_hash m"
proof -
  note o = lru_okD [OF ok]
  let ?d = "lm_key_hash m key"
  define node where "node = \<lparr>ln_key = key, ln_val = val, ln_prev = NIL, ln_next = NIL,
      ln_hash_next = chain_head (lm_map m ?d)\<rparr>"
  obtain i m1 where m1: "insert_node ?d key val m = lru_push_front i m1"
    "node_at m i = None" "i \<noteq> NIL" "node_at m1 = (node_at m)(i \<mapsto> node)" "lm_map m1 = (lm_map m)(?d \<mapsto> i)"
    "lm_head m1 = lm_head m" "lm_tail m1 = lm_tail m" "lm_cap m1 = lm_cap m" "lm_key_hash m1 = lm_key_hash m"
    "slots m1 (i # xs)"
    by (rule take_slot [OF ok room node_def])
  have i: "i \<notin> set xs" using slots_active [OF o(2)] m1(2) by simp
  have "recency m1 xs" using o(1) i m1 by (simp add: recency_def del: fun_upd_apply)
  then obtain m2 where m2: "lru_push_front i m1 = Inr m2" "relinked m1 m2" "recency m2 (i # xs)"
    using lru_push_front_ok [of m1 xs i node] i m1(3,4) by auto
  note k = relinked_keeps [OF m2(2)]
  have "chained (set (i # xs)) m1"
    unfolding chained_def
  proof
    fix d
    obtain c where c: "chain_for m (set xs) d c" by (rule chainedE [OF o(3)])
    have ic: "i \<notin> set c" using c i by (auto simp: chain_for_def)
    have h: "{j \<in> set (i # xs). hashed m1 j d} = (if d = ?d then {i} else {}) \<union> {j \<in> set xs. hashed m j d}"
      using m1(4,9) i by (auto simp: hashed_def node_def)
    have nx: "ln_hash_next node = chain_head (lm_map m ?d)" by (simp add: node_def)
    have cc: "chain (node_at m1) x c = chain (node_at m) x c" for x
      unfolding m1(4) using ic by (rule chain_outside)
    have ni: "node_at m1 i = Some node" unfolding m1(4) by simp
    have cd: "chain (node_at m) (chain_head (lm_map m d)) c" "distinct c" "lm_map m d = None \<longleftrightarrow> c = []"
        "set c = {j \<in> set xs. hashed m j d}"
      using c by (simp_all add: chain_for_def)
    have "chain_for m1 (set (i # xs)) d (if d = ?d then i # c else c)"
    proof (cases "d = ?d")
      case True
      have "chain_head (lm_map m1 d) = i" using True m1(5) by (simp add: chain_head_def)
      with True cd h ni nx ic m1(3,5) show ?thesis by (simp add: chain_for_def cc)
    next
      case False
      with cd h m1(5) show ?thesis by (simp add: chain_for_def cc)
    qed
    then show "\<exists>c. chain_for m1 (set (i # xs)) d c" ..
  qed
  moreover have e: "entries_at m1 (i # xs) = (key, val) # entries_at m xs"
    using i m1(4) by (auto simp: entries_at_def entry_at_def node_def)
  moreover have "key \<notin> fst ` set (entries_at m xs)" using new by (simp add: map_of_eq_None_iff)
  ultimately have "lru_ok m2 (i # xs)" using m1(10) m2(3) k o(4) by (simp add: lru_ok_def)
  moreover have "lm_cap m2 = lm_cap m" "lm_key_hash m2 = lm_key_hash m" using m1(8,9) m2(2) by (simp_all add: relinked_def)
  ultimately show ?thesis using m1(1) m2(1) k(3) e by (intro that [of m2 i]) simp_all
qed

end
