(* ===== verification/LruRefine.thy ===== *)
theory LruRefine
  imports LruLists
begin

text \<open>
  The arena of \<open>LruMap\<close> refines a list of pairs, most recently used first. The contract a client of
  the map relies on is the locale \<open>recency_cache\<close>; the guarantee that recently used entries survive is
  proved once from it.
\<close>

section \<open>The list of pairs behind the arena\<close>

fun items_from :: "nat \<Rightarrow> ('k, 'v) lru_map \<Rightarrow> nat \<Rightarrow> ('k \<times> 'v) list" where
  "items_from 0 m i = []"
| "items_from (Suc fuel) m i =
     (if i = NIL then []
      else case node_at m i of None \<Rightarrow> [] | Some n \<Rightarrow> (ln_key n, ln_val n) # items_from fuel m (ln_next n))"

definition lru_items :: "('k, 'v) lru_map \<Rightarrow> ('k \<times> 'v) list" where
  "lru_items m = items_from (Suc (length (lm_nodes m))) m (lm_head m)"

definition lru_inv :: "('k, 'v) lru_map \<Rightarrow> bool" where
  "lru_inv m \<longleftrightarrow> (\<exists>xs. lru_ok m xs)"

lemma items_from_dseg:
  "dseg (node_at m) p xs NIL \<Longrightarrow> NIL \<notin> set xs \<Longrightarrow> length xs < fuel \<Longrightarrow> items_from fuel m (first_of xs NIL) = entries_at m xs"
proof (induction xs arbitrary: p fuel)
  case Nil
  then show ?case by (cases fuel) simp_all
next
  case (Cons x xs)
  then obtain f n where "fuel = Suc f" "node_at m x = Some n" "ln_next n = first_of xs NIL" by (cases fuel) auto
  with Cons.prems Cons.IH [of x f] show ?case by (auto simp: entries_at_Cons)
qed

lemma lru_items_eq:
  assumes "lru_ok m xs"
  shows "lru_items m = entries_at m xs"
proof -
  note o = lru_okD [OF assms]
  have "length xs \<le> length (lm_nodes m)" using slots_count [OF o(2)] o(1) by (simp add: recency_def)
  with o(1) items_from_dseg [of m NIL xs "Suc (length (lm_nodes m))"] show ?thesis
    by (simp add: lru_items_def recency_def del: items_from.simps)
qed

lemma lru_inv_items:
  assumes "lru_inv m"
  shows "distinct (map fst (lru_items m))" "length (lru_items m) \<le> lm_cap m" "lm_len m = length (lru_items m)" "0 < lm_cap m"
proof -
  from assms obtain xs where ok: "lru_ok m xs" by (auto simp: lru_inv_def)
  note o = lru_okD [OF ok]
  show "distinct (map fst (lru_items m))" using o(4) lru_items_eq [OF ok] by simp
  have "length xs \<le> length (lm_nodes m)" using slots_count [OF o(2)] o(1) by (simp add: recency_def)
  then show "length (lru_items m) \<le> lm_cap m" using o(2) lru_items_eq [OF ok] by (simp add: slots_def)
  show "lm_len m = length (lru_items m)" "0 < lm_cap m" using o(2) lru_items_eq [OF ok] by (simp_all add: slots_def)
qed

text \<open>What the operations do to the list.\<close>

definition refresh :: "'k \<Rightarrow> 'v \<Rightarrow> ('k \<times> 'v) list \<Rightarrow> ('k \<times> 'v) list" where
  "refresh k v al = (k, v) # AList.delete k al"

definition list_get :: "'k \<Rightarrow> ('v \<Rightarrow> 'v) \<Rightarrow> ('k \<times> 'v) list \<Rightarrow> ('k \<times> 'v) list" where
  "list_get k f al = (case map_of al k of None \<Rightarrow> al | Some v \<Rightarrow> refresh k (f v) al)"

definition list_put :: "bool \<Rightarrow> nat \<Rightarrow> 'k \<Rightarrow> 'v \<Rightarrow> ('k \<times> 'v) list \<Rightarrow> ('k \<times> 'v) list" where
  "list_put room cap k v al =
     (if map_of al k \<noteq> None then refresh k v al
      else let al = (if length al \<ge> cap then butlast al else al)
           in if room then (k, v) # al else if al = [] then [] else (k, v) # butlast al)"

lemma delete_mid:
  "distinct (map fst (xs @ (k, v) # ys)) \<Longrightarrow> AList.delete k (xs @ (k, v) # ys) = xs @ ys"
proof -
  assume "distinct (map fst (xs @ (k, v) # ys))"
  then have "AList.delete k xs = xs" "AList.delete k ys = ys" by (auto intro!: AList.delete_idem)
  then show ?thesis by (simp add: AList.delete_eq)
qed

lemma found_facts:
  assumes ok: "lru_ok m (ys @ i # zs)" and n: "node_at m i = Some n"
  shows "map_of (lru_items m) (ln_key n) = Some (ln_val n)"
    "refresh (ln_key n) v (lru_items m) = (ln_key n, v) # entries_at m (ys @ zs)"
    "AList.delete (ln_key n) (lru_items m) = entries_at m (ys @ zs)"
proof -
  have e: "lru_items m = entries_at m ys @ (ln_key n, ln_val n) # entries_at m zs"
    using lru_items_eq [OF ok] n by (simp add: entries_at_Cons)
  have d: "distinct (map fst (lru_items m))" using ok lru_inv_items(1) by (auto simp: lru_inv_def)
  then show "map_of (lru_items m) (ln_key n) = Some (ln_val n)" using map_of_eq_Some_iff [OF d] e by simp
  show del: "AList.delete (ln_key n) (lru_items m) = entries_at m (ys @ zs)"
    using delete_mid [of "entries_at m ys"] d e by simp
  then show "refresh (ln_key n) v (lru_items m) = (ln_key n, v) # entries_at m (ys @ zs)"
    by (simp add: refresh_def)
qed

text \<open>A new value in a node that is already at its place.\<close>

lemma set_value_ok:
  assumes ok: "lru_ok m xs" and n: "node_at m i = Some n"
  shows "lru_ok (put_node i (Some (n\<lparr>ln_val := v\<rparr>)) m) xs"
proof -
  let ?m = "put_node i (Some (n\<lparr>ln_val := v\<rparr>)) m"
  note o = lru_okD [OF ok] and lt = node_at_lt [OF n]
  have na: "node_at ?m = (node_at m)(i \<mapsto> n\<lparr>ln_val := v\<rparr>)" using lt by simp
  have "recency ?m xs" using o(1) dseg_links [of "node_at m" "node_at ?m"] n na by (simp add: recency_def)
  moreover have "slots ?m xs" using o(2) n na by (auto simp: slots_def)
  moreover have "chained (set xs) ?m"
  proof -
    have "chain (node_at m) x c = chain (node_at ?m) x c" for x c by (rule chain_cong) (simp add: na n)
    moreover have "hashed ?m j d = hashed m j d" for j d using n by (auto simp: hashed_def na)
    ultimately show ?thesis using o(3) by (simp add: chained_def chain_for_def del: node_at_put)
  qed
  moreover have "map fst (entries_at ?m xs) = map fst (entries_at m xs)"
    using n na by (auto simp: entries_at_def entry_at_def)
  ultimately show ?thesis using o(4) by (simp add: lru_ok_def)
qed

lemma entries_at_other: "node_at m i = Some n \<Longrightarrow> i \<notin> set xs \<Longrightarrow> entries_at (put_node i n' m) xs = entries_at m xs"
  using node_at_lt [of m i n] by (auto simp: entries_at_def entry_at_def)

lemma move_front_ok:
  assumes ok: "lru_ok m (ys @ i # zs)"
  obtains m' where "lru_move_front i m = Inr m'" "lru_ok m' (i # ys @ zs)" "entries_at m' = entries_at m"
    "lm_cap m' = lm_cap m" "lm_key_hash m' = lm_key_hash m"
proof -
  obtain m' where m': "lru_move_front i m = Inr m'" "relinked m m'" "recency m' (i # ys @ zs)"
    by (rule lru_move_front_ok [OF lru_okD(1) [OF ok]])
  moreover have "lru_ok m' (i # ys @ zs)" by (rule relinked_ok [OF m'(2,3) ok]) auto
  moreover have "entries_at m' = entries_at m" using relinked_keeps(3) [OF m'(2)] by (simp add: fun_eq_iff)
  moreover have "lm_cap m' = lm_cap m" "lm_key_hash m' = lm_key_hash m" using m'(2) by (simp_all add: relinked_def)
  ultimately show ?thesis using that by blast
qed

section \<open>Each operation on the list\<close>

text \<open>The outcome of an operation: a state that holds the given list, with the same limit and digests.\<close>

definition holds_list :: "('k, 'v) lru_map \<Rightarrow> ('k, 'v) lru_map \<Rightarrow> ('k \<times> 'v) list \<Rightarrow> bool" where
  "holds_list m m' al \<longleftrightarrow> lru_inv m' \<and> lru_items m' = al \<and> lm_cap m' = lm_cap m \<and> lm_key_hash m' = lm_key_hash m"

lemma holds_listI:
  "lru_ok m' xs \<Longrightarrow> entries_at m' xs = al \<Longrightarrow> lm_cap m' = lm_cap m \<Longrightarrow> lm_key_hash m' = lm_key_hash m \<Longrightarrow> holds_list m m' al"
  using lru_items_eq [of m' xs] by (auto simp: holds_list_def lru_inv_def)

lemma find_cases:
  assumes "lru_inv m"
  obtains (Absent) xs where "find_index_with_hash (lm_key_hash m key) key m = Inr None" "lru_ok m xs"
      "map_of (lru_items m) key = None"
    | (Found) ys i zs n where "find_index_with_hash (lm_key_hash m key) key m = Inr (Some i)"
      "lru_ok m (ys @ i # zs)" "node_at m i = Some n" "ln_key n = key"
      "map_of (lru_items m) key = Some (ln_val n)"
proof -
  from assms obtain xs where ok: "lru_ok m xs" by (auto simp: lru_inv_def)
  from ok show ?thesis
  proof (cases rule: find_index_ok [where key = key])
    case Absent
    with ok lru_items_eq [OF ok] that(1) show ?thesis by simp
  next
    case (Found ys i zs n)
    with ok found_facts(1) [of m ys i zs n] that(2) show ?thesis by auto
  qed
qed

lemma lru_new_ok:
  assumes "max cap 1 < NIL"
  obtains m where "lru_new h cap = Inr m" "lru_inv m" "lru_items m = []" "lm_cap m = max cap 1"
proof -
  let ?m = "\<lparr>lm_cap = max cap 1, lm_map = Map.empty, lm_key_hash = h, lm_nodes = [], lm_free = [], lm_head = NIL,
    lm_tail = NIL, lm_len = 0\<rparr>"
  have "lru_ok ?m []"
    using assms by (auto simp: lru_ok_def recency_def slots_def chained_def chain_for_def node_at_def chain_head_def)
  then show ?thesis using assms lru_items_eq that [of ?m] by (force simp: lru_new_def lru_inv_def)
qed

lemma lru_clear_ok: "lru_inv m \<Longrightarrow> holds_list m (lru_clear m) []"
proof (rule holds_listI [of _ "[]"])
  assume "lru_inv m"
  then show "lru_ok (lru_clear m) []"
    by (auto simp: lru_inv_def lru_ok_def recency_def slots_def chained_def chain_for_def node_at_def chain_head_def lru_clear_def)
qed (simp_all add: lru_clear_def)

lemma lru_peek_ok: "lru_inv m \<Longrightarrow> lru_peek k m = Inr (map_of (lru_items m) k)"
  by (cases rule: find_cases [where key = k]) (auto simp: lru_peek_def find_index_def)

lemma lru_contains_ok: "lru_inv m \<Longrightarrow> lru_contains_key k m = Inr (map_of (lru_items m) k \<noteq> None)"
  by (cases rule: find_cases [where key = k]) (auto simp: lru_contains_key_def find_index_def)

lemma list_get_id: "map_of al k = Some v \<Longrightarrow> list_get k f al = refresh k (f v) al" "map_of al k = None \<Longrightarrow> list_get k f al = al"
  by (simp_all add: list_get_def)

lemma front_entries:
  assumes "lru_ok m (ys @ i # zs)" and "node_at m i = Some n" and "lru_ok m' (i # ys @ zs)" and "entries_at m' = entries_at m"
  obtains n' where "node_at m' i = Some n'" "ln_key n' = ln_key n" "ln_val n' = ln_val n" "i \<notin> set (ys @ zs)"
proof -
  obtain n' where n': "node_at m' i = Some n'" using slots_active [OF lru_okD(2) [OF assms(3)]] by fastforce
  have "entries_at m' [i] = entries_at m [i]" using assms(4) by simp
  with n' assms(2) have "ln_key n' = ln_key n" "ln_val n' = ln_val n" by (simp_all add: entries_at_Cons)
  moreover have "i \<notin> set (ys @ zs)" using lru_okD(1) [OF assms(3)] by (simp add: recency_def)
  ultimately show ?thesis using that n' by blast
qed

lemma lru_get_mut_ok:
  assumes "lru_inv m"
  obtains m' where "lru_get_mut k f m = Inr (map_of (lru_items m) k, m')" "holds_list m m' (list_get k f (lru_items m))"
  using assms
proof (cases rule: find_cases [where key = k])
  case (Absent xs)
  with assms show ?thesis
    by (intro that [of m]) (simp_all add: lru_get_mut_def find_index_def list_get_id holds_list_def)
next
  case (Found ys i zs n)
  obtain m1 where m1: "lru_move_front i m = Inr m1" "lru_ok m1 (i # ys @ zs)" "entries_at m1 = entries_at m"
    "lm_cap m1 = lm_cap m" "lm_key_hash m1 = lm_key_hash m" by (rule move_front_ok [OF Found(2)])
  obtain n' where n': "node_at m1 i = Some n'" "ln_key n' = ln_key n" "ln_val n' = ln_val n" "i \<notin> set (ys @ zs)"
    by (rule front_entries [OF Found(2,3) m1(2,3)])
  let ?m = "put_node i (Some (n'\<lparr>ln_val := f (ln_val n)\<rparr>)) m1"
  have "entries_at ?m (i # ys @ zs) = (k, f (ln_val n)) # entries_at m (ys @ zs)"
    using n' node_at_lt [OF n'(1)] entries_at_other [OF n'(1,4)] m1(3) Found(4)
    by (subst entries_at_Cons [of _ _ "n'\<lparr>ln_val := f (ln_val n)\<rparr>"]) simp_all
  then have "holds_list m ?m (list_get k f (lru_items m))"
    using set_value_ok [OF m1(2) n'(1)] m1(4,5) found_facts(2) [OF Found(2,3)] Found(4,5)
    by (intro holds_listI [of _ "i # ys @ zs"]) (simp_all add: list_get_id)
  with Found m1 n' show ?thesis by (intro that [of ?m]) (simp_all add: lru_get_mut_def find_index_def)
qed

lemma lru_get_ok:
  assumes "lru_inv m"
  obtains m' where "lru_get k m = Inr (map_of (lru_items m) k, m')" "holds_list m m' (list_get k id (lru_items m))"
  using assms
proof (cases rule: find_cases [where key = k])
  case (Absent xs)
  with assms show ?thesis
    by (intro that [of m]) (simp_all add: lru_get_def find_index_def list_get_id holds_list_def)
next
  case (Found ys i zs n)
  obtain m1 where m1: "lru_move_front i m = Inr m1" "lru_ok m1 (i # ys @ zs)" "entries_at m1 = entries_at m"
    "lm_cap m1 = lm_cap m" "lm_key_hash m1 = lm_key_hash m" by (rule move_front_ok [OF Found(2)])
  obtain n' where n': "node_at m1 i = Some n'" "ln_key n' = ln_key n" "ln_val n' = ln_val n" "i \<notin> set (ys @ zs)"
    by (rule front_entries [OF Found(2,3) m1(2,3)])
  have "entries_at m1 (i # ys @ zs) = (k, ln_val n) # entries_at m (ys @ zs)"
    using entries_at_Cons [OF n'(1)] n' Found(4) m1(3) by simp
  then have "holds_list m m1 (list_get k id (lru_items m))"
    using m1 found_facts(2) [OF Found(2,3)] Found(4,5)
    by (intro holds_listI [of _ "i # ys @ zs"]) (simp_all add: list_get_id)
  with Found m1 n' show ?thesis by (intro that [of m1]) (simp_all add: lru_get_def find_index_def)
qed

lemma lru_pop_ok:
  assumes "lru_inv m"
  obtains m' where "lru_pop k m = Inr (map_of (lru_items m) k, m')" "holds_list m m' (AList.delete k (lru_items m))"
  using assms
proof (cases rule: find_cases [where key = k])
  case (Absent xs)
  then have "AList.delete k (lru_items m) = lru_items m" by (simp add: AList.delete_idem map_of_eq_None_iff)
  with Absent assms show ?thesis by (intro that [of m]) (simp_all add: lru_pop_def holds_list_def)
next
  case (Found ys i zs n)
  obtain n' m' where r: "remove_index i (lm_key_hash m (ln_key n)) m = Inr (n', m')" "ln_key n' = ln_key n"
    "ln_val n' = ln_val n" "lru_ok m' (ys @ zs)" "entries_at m' (ys @ zs) = entries_at m (ys @ zs)"
    "lm_free m' = lm_free m @ [i]" "lm_cap m' = lm_cap m" "lm_key_hash m' = lm_key_hash m"
    by (rule remove_index_ok [OF Found(2,3)])
  have "holds_list m m' (AList.delete k (lru_items m))"
    using r found_facts(3) [OF Found(2,3)] Found(4) by (intro holds_listI [of _ "ys @ zs"]) simp_all
  with Found r show ?thesis by (intro that [of m']) (simp_all add: lru_pop_def Let_def)
qed

lemma lru_pop_lru_ok:
  assumes "lru_inv m"
  obtains m' where "lru_pop_lru m = Inr (if lru_items m = [] then None else Some (last (lru_items m)), m')"
    "holds_list m m' (butlast (lru_items m))" "lru_items m \<noteq> [] \<longrightarrow> lm_free m' \<noteq> []"
proof -
  from assms obtain xs where ok: "lru_ok m xs" by (auto simp: lru_inv_def)
  obtain m' ys where p: "lru_pop_lru m = Inr (if xs = [] then None else Some (last (entries_at m xs)), m')"
    "lru_ok m' ys" "entries_at m' ys = butlast (entries_at m xs)" "lm_cap m' = lm_cap m" "lm_key_hash m' = lm_key_hash m"
    "xs \<noteq> [] \<longrightarrow> lm_free m' \<noteq> []" by (rule pop_lru_ok [OF ok])
  have e: "lru_items m = [] \<longleftrightarrow> xs = []" using lru_items_eq [OF ok] by (simp add: entries_at_def)
  with p lru_items_eq [OF ok] show ?thesis by (intro that [of m']) (auto intro: holds_listI)
qed

lemma evict_lru_ok:
  assumes "lru_inv m"
  obtains m' where "evict_lru m = Inr m'" "holds_list m m' (butlast (lru_items m))" "lru_items m \<noteq> [] \<longrightarrow> lm_free m' \<noteq> []"
  using lru_pop_lru_ok [OF assms] that by (metis (no_types, lifting) evict_lru_def fault_bind_simps(1) case_prod_conv)

lemma insert_ok:
  assumes "lru_inv m" and "map_of (lru_items m) k = None" and "lm_free m \<noteq> [] \<or> length (lru_items m) < lm_cap m"
  obtains m' where "insert_node (lm_key_hash m k) k v m = Inr m'" "holds_list m m' ((k, v) # lru_items m)"
proof -
  from assms(1) obtain xs where ok: "lru_ok m xs" by (auto simp: lru_inv_def)
  obtain m' i where "insert_node (lm_key_hash m k) k v m = Inr m'" "lru_ok m' (i # xs)"
    "entries_at m' (i # xs) = (k, v) # entries_at m xs" "lm_cap m' = lm_cap m" "lm_key_hash m' = lm_key_hash m"
    by (rule insert_node_ok [OF ok, of k v]) (use assms lru_items_eq [OF ok] in simp_all)
  then show ?thesis using that lru_items_eq [OF ok] by (metis holds_listI)
qed

lemma map_of_butlast: "map_of al k = None \<Longrightarrow> map_of (butlast al) k = None"
  by (auto simp: map_of_eq_None_iff dest: in_set_butlastD)

lemma lru_put_present:
  assumes "lru_inv m" and "map_of (lru_items m) k = Some v0"
  obtains m' where "lru_put grows k v m = Inr m'" "holds_list m m' (refresh k v (lru_items m))"
  using assms(1)
proof (cases rule: find_cases [where key = k])
  case (Found ys i zs n)
  let ?n = "n\<lparr>ln_val := v\<rparr>" let ?m = "put_node i (Some (n\<lparr>ln_val := v\<rparr>)) m"
  have ok: "lru_ok ?m (ys @ i # zs)" by (rule set_value_ok [OF Found(2,3)])
  have i: "i \<notin> set (ys @ zs)" using lru_okD(1) [OF Found(2)] by (auto simp: recency_def)
  obtain m' where m': "lru_move_front i ?m = Inr m'" "lru_ok m' (i # ys @ zs)" "entries_at m' = entries_at ?m"
    "lm_cap m' = lm_cap ?m" "lm_key_hash m' = lm_key_hash ?m" by (rule move_front_ok [OF ok])
  have "entries_at ?m (i # ys @ zs) = (k, v) # entries_at m (ys @ zs)"
    using entries_at_other [OF Found(3) i] node_at_lt [OF Found(3)] Found(4)
    by (subst entries_at_Cons [of _ _ ?n]) simp_all
  then have "holds_list m m' (refresh k v (lru_items m))"
    using m' found_facts(2) [OF Found(2,3)] Found(4) by (intro holds_listI [of _ "i # ys @ zs"]) simp_all
  moreover have "lru_put grows k v m = Inr m'" using Found m' by (simp add: lru_put_def Let_def)
  ultimately show ?thesis using that by blast
qed (use assms(2) in simp)

lemma holds_trans: "holds_list m m1 al \<Longrightarrow> holds_list m1 m2 bl \<Longrightarrow> holds_list m m2 bl"
  by (simp add: holds_list_def)

lemma lru_put_ok:
  assumes inv: "lru_inv m"
  obtains m' room where "lru_put grows k v m = Inr m'" "holds_list m m' (list_put room (lm_cap m) k v (lru_items m))"
    "grows \<longrightarrow> room"
  using inv
proof (cases rule: find_cases [where key = k])
  case (Found ys i zs n)
  obtain m' where "lru_put grows k v m = Inr m'" "holds_list m m' (refresh k v (lru_items m))"
    by (rule lru_put_present [OF inv Found(5)])
  then show ?thesis using Found(5) by (intro that [of m' True]) (simp_all add: list_put_def)
next
  case (Absent xs)
  let ?al = "if length (lru_items m) \<ge> lm_cap m then butlast (lru_items m) else lru_items m"
  note b = lru_inv_items [OF inv]
  obtain m1 where m1: "(if lm_len m \<ge> lm_cap m then evict_lru m else Inr m) = Inr m1" "holds_list m m1 ?al"
  proof (cases "lm_len m \<ge> lm_cap m")
    case True
    obtain m' where "evict_lru m = Inr m'" "holds_list m m' (butlast (lru_items m))" by (rule evict_lru_ok [OF inv])
    with True b(3) show ?thesis by (intro that [of m']) simp_all
  next
    case False
    with inv b(3) show ?thesis by (intro that [of m]) (simp_all add: holds_list_def)
  qed
  have inv1: "lru_inv m1" and it1: "lru_items m1 = ?al" and c1: "lm_cap m1 = lm_cap m" "lm_key_hash m1 = lm_key_hash m"
    using m1(2) by (auto simp: holds_list_def)
  have new: "map_of (lru_items m1) k = None" using Absent(3) it1 map_of_butlast by (auto split: if_splits)
  have small: "length (lru_items m1) < lm_cap m1" using it1 c1 b(2,4) by (auto split: if_splits)
  let ?put = "\<lambda>m1. if lm_free m1 = [] \<and> \<not> grows
          then fault_bind (evict_lru m1) (\<lambda>m. if lm_free m = [] then Inr m else insert_node (lm_key_hash m1 k) k v m)
          else insert_node (lm_key_hash m1 k) k v m1"
  have put: "lru_put grows k v m = ?put m1"
    unfolding lru_put_def Let_def Absent(1) fault_bind_simps option.case m1(1) c1(2) ..
  show ?thesis
  proof (cases "lm_free m1 = [] \<and> \<not> grows")
    case False
    obtain m' where "insert_node (lm_key_hash m1 k) k v m1 = Inr m'" "holds_list m1 m' ((k, v) # lru_items m1)"
      using insert_ok [OF inv1 new] small by blast
    with put False holds_trans [OF m1(2)] it1 Absent(3) show ?thesis
      by (intro that [of m' True]) (simp_all add: list_put_def Let_def)
  next
    case True
    obtain m2 where m2: "evict_lru m1 = Inr m2" "holds_list m1 m2 (butlast (lru_items m1))"
      "lru_items m1 \<noteq> [] \<longrightarrow> lm_free m2 \<noteq> []" by (rule evict_lru_ok [OF inv1])
    have inv2: "lru_inv m2" and it2: "lru_items m2 = butlast (lru_items m1)" and c2: "lm_key_hash m2 = lm_key_hash m1"
      using m2(2) by (auto simp: holds_list_def)
    show ?thesis
    proof (cases "lm_free m2 = []")
      case empty: True
      then have "lru_items m1 = []" using m2(3) by blast
      with empty True m2 put it1 holds_trans [OF m1(2) m2(2)] Absent(3) show ?thesis
        by (intro that [of m2 False]) (simp_all add: list_put_def Let_def)
    next
      case False
      have "map_of (lru_items m2) k = None" using new it2 map_of_butlast by simp
      then obtain m' where m': "insert_node (lm_key_hash m2 k) k v m2 = Inr m'" "holds_list m2 m' ((k, v) # lru_items m2)"
        using insert_ok [OF inv2] False by blast
      note h = holds_trans [OF holds_trans [OF m1(2) m2(2)] m'(2)]
      have "lru_put grows k v m = Inr m'" using put True m2(1) False m'(1) c2 by simp
      moreover have "holds_list m m' (list_put (lru_items m1 = []) (lm_cap m) k v (lru_items m))"
        using h it1 it2 Absent(3) by (auto simp: list_put_def Let_def split: if_splits)
      ultimately show ?thesis using that [of m'] True by blast
    qed
  qed
qed

section \<open>Sequences of operations\<close>

datatype ('k, 'v) lru_op = OpGet 'k | OpGetMut 'k "'v \<Rightarrow> 'v" | OpPut bool 'k 'v | OpPop 'k | OpPopLru
  | OpPeek 'k | OpContains 'k | OpLen | OpIsEmpty | OpClear

datatype ('k, 'v) lru_out = OutValue "'v option" | OutPair "('k \<times> 'v) option" | OutFlag bool | OutCount nat | OutDone

fun lru_exec :: "('k, 'v) lru_op \<Rightarrow> ('k, 'v) lru_map \<Rightarrow> lru_fault + ('k, 'v) lru_out \<times> ('k, 'v) lru_map" where
  "lru_exec (OpGet k) m = fault_bind (lru_get k m) (\<lambda>(r, m). Inr (OutValue r, m))"
| "lru_exec (OpGetMut k f) m = fault_bind (lru_get_mut k f m) (\<lambda>(r, m). Inr (OutValue r, m))"
| "lru_exec (OpPut grows k v) m = fault_bind (lru_put grows k v m) (\<lambda>m. Inr (OutDone, m))"
| "lru_exec (OpPop k) m = fault_bind (lru_pop k m) (\<lambda>(r, m). Inr (OutValue r, m))"
| "lru_exec OpPopLru m = fault_bind (lru_pop_lru m) (\<lambda>(r, m). Inr (OutPair r, m))"
| "lru_exec (OpPeek k) m = fault_bind (lru_peek k m) (\<lambda>r. Inr (OutValue r, m))"
| "lru_exec (OpContains k) m = fault_bind (lru_contains_key k m) (\<lambda>r. Inr (OutFlag r, m))"
| "lru_exec OpLen m = Inr (OutCount (lm_len m), m)"
| "lru_exec OpIsEmpty m = Inr (OutFlag (lru_is_empty m), m)"
| "lru_exec OpClear m = Inr (OutDone, lru_clear m)"

fun lru_run :: "('k, 'v) lru_op list \<Rightarrow> ('k, 'v) lru_map \<Rightarrow> lru_fault + ('k, 'v) lru_out list \<times> ('k, 'v) lru_map" where
  "lru_run [] m = Inr ([], m)"
| "lru_run (p # ps) m = fault_bind (lru_exec p m) (\<lambda>(r, m). fault_bind (lru_run ps m) (\<lambda>(rs, m). Inr (r # rs, m)))"

text \<open>
  The same operations on a list. The flag of an insertion says whether memory was available where the
  arena would have had to grow; an insertion that asks for memory in vain gives up one more entry.
\<close>

fun list_exec :: "nat \<Rightarrow> bool \<Rightarrow> ('k, 'v) lru_op \<Rightarrow> ('k \<times> 'v) list \<Rightarrow> ('k, 'v) lru_out \<times> ('k \<times> 'v) list" where
  "list_exec cap room (OpGet k) al = (OutValue (map_of al k), list_get k id al)"
| "list_exec cap room (OpGetMut k f) al = (OutValue (map_of al k), list_get k f al)"
| "list_exec cap room (OpPut grows k v) al = (OutDone, list_put room cap k v al)"
| "list_exec cap room (OpPop k) al = (OutValue (map_of al k), AList.delete k al)"
| "list_exec cap room OpPopLru al = (OutPair (if al = [] then None else Some (last al)), butlast al)"
| "list_exec cap room (OpPeek k) al = (OutValue (map_of al k), al)"
| "list_exec cap room (OpContains k) al = (OutFlag (map_of al k \<noteq> None), al)"
| "list_exec cap room OpLen al = (OutCount (length al), al)"
| "list_exec cap room OpIsEmpty al = (OutFlag (al = []), al)"
| "list_exec cap room OpClear al = (OutDone, [])"

fun list_run :: "nat \<Rightarrow> (bool \<times> ('k, 'v) lru_op) list \<Rightarrow> ('k \<times> 'v) list \<Rightarrow> ('k, 'v) lru_out list \<times> ('k \<times> 'v) list" where
  "list_run cap [] al = ([], al)"
| "list_run cap ((room, p) # ps) al =
     (case list_exec cap room p al of (r, al) \<Rightarrow> case list_run cap ps al of (rs, al) \<Rightarrow> (r # rs, al))"

fun may_lack_memory :: "('k, 'v) lru_op \<Rightarrow> bool" where
  "may_lack_memory (OpPut grows k v) = (\<not> grows)"
| "may_lack_memory p = False"

lemma lru_exec_refines:
  assumes inv: "lru_inv m"
  shows "\<exists>r m' room. lru_exec p m = Inr (r, m') \<and> holds_list m m' (snd (list_exec (lm_cap m) room p (lru_items m))) \<and>
    r = fst (list_exec (lm_cap m) room p (lru_items m)) \<and> (\<not> may_lack_memory p \<longrightarrow> room)"
proof (cases p)
  case (OpGet k)
  obtain m' where "lru_get k m = Inr (map_of (lru_items m) k, m')" "holds_list m m' (list_get k id (lru_items m))"
    by (rule lru_get_ok [OF inv])
  with OpGet show ?thesis by auto
next
  case (OpGetMut k f)
  obtain m' where "lru_get_mut k f m = Inr (map_of (lru_items m) k, m')" "holds_list m m' (list_get k f (lru_items m))"
    by (rule lru_get_mut_ok [OF inv])
  with OpGetMut show ?thesis by auto
next
  case (OpPut grows k v)
  obtain m' room where "lru_put grows k v m = Inr m'" "holds_list m m' (list_put room (lm_cap m) k v (lru_items m))"
    "grows \<longrightarrow> room" by (rule lru_put_ok [OF inv])
  with OpPut show ?thesis by (intro exI [of _ OutDone] exI [of _ m'] exI [of _ room]) simp
next
  case (OpPop k)
  obtain m' where "lru_pop k m = Inr (map_of (lru_items m) k, m')" "holds_list m m' (AList.delete k (lru_items m))"
    by (rule lru_pop_ok [OF inv])
  with OpPop show ?thesis by auto
next
  case OpPopLru
  obtain m' where "lru_pop_lru m = Inr (if lru_items m = [] then None else Some (last (lru_items m)), m')"
    "holds_list m m' (butlast (lru_items m))" by (rule lru_pop_lru_ok [OF inv])
  with OpPopLru show ?thesis by auto
next
  case OpClear
  then show ?thesis using lru_clear_ok [OF inv] by auto
qed (use inv lru_inv_items(3) [OF inv] in \<open>auto simp: lru_peek_ok lru_contains_ok lru_is_empty_def holds_list_def\<close>)

lemma lru_run_refines:
  assumes "lru_inv m"
  shows "\<exists>rs m' rooms. lru_run ps m = Inr (rs, m') \<and> length rooms = length ps \<and>
    (\<forall>i < length ps. \<not> may_lack_memory (ps ! i) \<longrightarrow> rooms ! i) \<and>
    list_run (lm_cap m) (zip rooms ps) (lru_items m) = (rs, lru_items m') \<and> lru_inv m' \<and> lm_cap m' = lm_cap m"
  using assms
proof (induction ps arbitrary: m)
  case (Cons p ps)
  obtain r m1 room where 1: "lru_exec p m = Inr (r, m1)" "holds_list m m1 (snd (list_exec (lm_cap m) room p (lru_items m)))"
    "r = fst (list_exec (lm_cap m) room p (lru_items m))" "\<not> may_lack_memory p \<longrightarrow> room"
    using lru_exec_refines [OF Cons.prems] by blast
  then have m1: "lru_inv m1" "lm_cap m1 = lm_cap m" "list_exec (lm_cap m) room p (lru_items m) = (r, lru_items m1)"
    by (auto simp: holds_list_def prod_eq_iff)
  obtain rs m2 rooms where 2: "lru_run ps m1 = Inr (rs, m2)" "length rooms = length ps"
    "\<forall>i < length ps. \<not> may_lack_memory (ps ! i) \<longrightarrow> rooms ! i"
    "list_run (lm_cap m1) (zip rooms ps) (lru_items m1) = (rs, lru_items m2)" "lru_inv m2" "lm_cap m2 = lm_cap m1"
    using Cons.IH [OF m1(1)] by blast
  show ?case
    using 1(1,4) 2 m1 by (intro exI [of _ "r # rs"] exI [of _ m2] exI [of _ "room # rooms"]) (auto simp: nth_Cons split: nat.splits)
qed simp

section \<open>The interface of a cache in order of use\<close>

datatype ('k, 'v) access = Read 'k | Write 'k 'v

fun accessed :: "('k, 'v) access \<Rightarrow> 'k" where
  "accessed (Read k) = k" | "accessed (Write k v) = k"

fun perform :: "('k \<Rightarrow> 'm \<Rightarrow> 'e + 'v option \<times> 'm) \<Rightarrow> ('k \<Rightarrow> 'v \<Rightarrow> 'm \<Rightarrow> 'e + 'm) \<Rightarrow> ('k, 'v) access list \<Rightarrow> 'm \<Rightarrow> 'e + 'm" where
  "perform get put [] m = Inr m"
| "perform get put (Read k # as) m = (case get k m of Inl e \<Rightarrow> Inl e | Inr (r, m) \<Rightarrow> perform get put as m)"
| "perform get put (Write k v # as) m = (case put k v m of Inl e \<Rightarrow> Inl e | Inr m \<Rightarrow> perform get put as m)"

locale recency_cache =
  fixes inv :: "'m \<Rightarrow> bool"
    and items :: "'m \<Rightarrow> ('k \<times> 'v) list"
    and cap :: "'m \<Rightarrow> nat"
    and peek :: "'k \<Rightarrow> 'm \<Rightarrow> 'e + 'v option"
    and get :: "'k \<Rightarrow> 'm \<Rightarrow> 'e + 'v option \<times> 'm"
    and put :: "'k \<Rightarrow> 'v \<Rightarrow> 'm \<Rightarrow> 'e + 'm"
  assumes keys_once: "inv m \<Longrightarrow> distinct (map fst (items m))"
    and peek_items: "inv m \<Longrightarrow> peek k m = Inr (map_of (items m) k)"
    and get_items: "inv m \<Longrightarrow> \<exists>m'. get k m = Inr (map_of (items m) k, m') \<and> inv m' \<and> cap m' = cap m \<and>
      items m' = list_get k id (items m)"
    and put_items: "inv m \<Longrightarrow> \<exists>m'. put k v m = Inr m' \<and> inv m' \<and> cap m' = cap m \<and>
      items m' = list_put True (cap m) k v (items m)"
begin

text \<open>The entry of \<open>k\<close> is preceded only by keys of \<open>S\<close>.\<close>

definition within :: "'k set \<Rightarrow> 'k \<Rightarrow> 'v \<Rightarrow> 'm \<Rightarrow> bool" where
  "within S k v m \<longleftrightarrow> inv m \<and> (\<exists>xs ys. items m = xs @ (k, v) # ys \<and> fst ` set xs \<subseteq> S)"

lemma within_length:
  assumes "items m = xs @ (k, v) # ys" and "fst ` set xs \<subseteq> S" and "inv m" and "finite S"
  shows "length xs \<le> card S"
proof -
  have "distinct (map fst xs)" using keys_once [OF assms(3)] assms(1) by simp
  then have "length xs = card (fst ` set xs)" using distinct_card [of "map fst xs"] by simp
  then show ?thesis using card_mono [OF assms(4,2)] by simp
qed

lemma within_get:
  assumes "within S k v m" and "k' \<in> S" and "k' \<noteq> k"
  shows "\<exists>r m'. get k' m = Inr (r, m') \<and> cap m' = cap m \<and> within S k v m'"
proof -
  from assms(1) obtain xs ys where i: "inv m" and xs: "items m = xs @ (k, v) # ys" "fst ` set xs \<subseteq> S"
    by (auto simp: within_def)
  obtain m' where m': "get k' m = Inr (map_of (items m) k', m')" "inv m'" "cap m' = cap m" "items m' = list_get k' id (items m)"
    using get_items [OF i] by blast
  have "within S k v m'"
  proof (cases "map_of (items m) k'")
    case None
    then have "items m' = xs @ (k, v) # ys" using m'(4) xs(1) by (simp add: list_get_id(2))
    with m'(2) xs(2) show ?thesis unfolding within_def by blast
  next
    case (Some w)
    then have "items m' = refresh k' w (items m)" using m'(4) by (simp add: list_get_id(1))
    then have "items m' = ((k', w) # AList.delete k' xs) @ (k, v) # AList.delete k' ys"
      using xs(1) assms(3) by (simp add: refresh_def AList.delete_eq)
    moreover have "fst ` set ((k', w) # AList.delete k' xs) \<subseteq> S"
      using xs(2) assms(2) by (auto simp: AList.delete_eq)
    ultimately show ?thesis using m'(2) unfolding within_def by blast
  qed
  with m' show ?thesis by blast
qed

lemma within_put:
  assumes "within S k v m" and "k' \<in> S" and "k' \<noteq> k" and "finite S" and "card S < cap m"
  shows "\<exists>m'. put k' w m = Inr m' \<and> cap m' = cap m \<and> within S k v m'"
proof -
  from assms(1) obtain xs ys where i: "inv m" and xs: "items m = xs @ (k, v) # ys" "fst ` set xs \<subseteq> S"
    by (auto simp: within_def)
  obtain m' where m': "put k' w m = Inr m'" "inv m'" "cap m' = cap m" "items m' = list_put True (cap m) k' w (items m)"
    using put_items [OF i] by blast
  have "within S k v m'"
  proof (cases "map_of (items m) k'")
    case (Some w')
    then have "items m' = refresh k' w (items m)" using m'(4) by (simp add: list_put_def)
    then have "items m' = ((k', w) # AList.delete k' xs) @ (k, v) # AList.delete k' ys"
      using xs(1) assms(3) by (simp add: refresh_def AList.delete_eq)
    moreover have "fst ` set ((k', w) # AList.delete k' xs) \<subseteq> S"
      using xs(2) assms(2) by (auto simp: AList.delete_eq)
    ultimately show ?thesis using m'(2) unfolding within_def by blast
  next
    case None
    then have "k' \<notin> fst ` set xs" using xs(1) by (auto simp: map_of_eq_None_iff)
    then have "fst ` set xs \<subseteq> S - {k'}" using xs(2) by blast
    from within_length [OF xs(1) this i] have "length xs < card S"
      using assms(2,4) card_Diff_singleton [of k' S] card_gt_0_iff [of S] by fastforce
    then have "ys \<noteq> []" if "length (items m) \<ge> cap m" using that assms(5) xs(1) by auto
    moreover have "items m' = (k', w) # (if length (items m) \<ge> cap m then butlast (items m) else items m)"
      using m'(4) None by (simp add: list_put_def Let_def)
    ultimately have "items m' = ((k', w) # xs) @ (k, v) # (if length (items m) \<ge> cap m then butlast ys else ys)"
      using xs(1) by (auto simp: butlast_append)
    moreover have "fst ` set ((k', w) # xs) \<subseteq> S" using xs(2) assms(2) by auto
    ultimately show ?thesis using m'(2) unfolding within_def by blast
  qed
  with m' show ?thesis by blast
qed

lemma within_get_self:
  assumes "within S k v m"
  shows "\<exists>r m'. get k m = Inr (r, m') \<and> cap m' = cap m \<and> within S k v m'"
proof -
  from assms obtain xs ys where i: "inv m" and xs: "items m = xs @ (k, v) # ys" by (auto simp: within_def)
  have "map_of (items m) k = Some v" using map_of_eq_Some_iff [OF keys_once [OF i]] xs by simp
  then have "list_get k id (items m) = [] @ (k, v) # AList.delete k (items m)" by (simp add: list_get_def refresh_def)
  then show ?thesis using get_items [OF i, of k] unfolding within_def by fastforce
qed

lemma within_perform:
  assumes "within S k v m" and "finite S" and "card S < cap m" and "k \<notin> S" and "accessed ` set as \<subseteq> insert k S"
    and "\<forall>w. Write k w \<notin> set as"
  shows "\<exists>m'. perform get put as m = Inr m' \<and> within S k v m'"
  using assms
proof (induction as arbitrary: m)
  case (Cons a as)
  show ?case
  proof (cases a)
    case (Read k')
    then have "\<exists>r m'. get k' m = Inr (r, m') \<and> cap m' = cap m \<and> within S k v m'"
      using within_get [OF Cons.prems(1), of k'] within_get_self [OF Cons.prems(1)] Cons.prems(5) by (cases "k' = k") auto
    then obtain r m' where "get k' m = Inr (r, m')" "cap m' = cap m" "within S k v m'" by blast
    with Read Cons.IH [of m'] Cons.prems show ?thesis by simp
  next
    case (Write k' w)
    then have "k' \<noteq> k" "k' \<in> S" using Cons.prems(5,6) by auto
    then obtain m' where "put k' w m = Inr m'" "cap m' = cap m" "within S k v m'"
      using within_put [OF Cons.prems(1)] Cons.prems(2,3) by blast
    with Write Cons.IH [of m'] Cons.prems show ?thesis by simp
  qed
qed simp

lemma recent_entry_kept:
  assumes "inv m" and "put k v m = Inr m1" and "card (accessed ` set as - {k}) < cap m" and "\<forall>w. Write k w \<notin> set as"
  shows "\<exists>m2. perform get put as m1 = Inr m2 \<and> peek k m2 = Inr (Some v)"
proof -
  let ?S = "accessed ` set as - {k}"
  obtain m' where "put k v m = Inr m'" and m': "inv m'" "cap m' = cap m" "items m' = list_put True (cap m) k v (items m)"
    using put_items [OF assms(1)] by blast
  then have m1: "m1 = m'" using assms(2) by simp
  have "items m1 = [] @ (k, v) # tl (items m1)" using m1 m'(3) by (simp add: list_put_def refresh_def Let_def)
  then have "within ?S k v m1" using m1 m'(1) unfolding within_def by fastforce
  then obtain m2 where m2: "perform get put as m1 = Inr m2" "within ?S k v m2"
    using within_perform [of ?S k v m1 as] assms(3,4) m1 m'(2) by auto
  then obtain xs ys where "inv m2" "items m2 = xs @ (k, v) # ys" by (auto simp: within_def)
  then have "peek k m2 = Inr (Some v)"
    using peek_items map_of_eq_Some_iff [OF keys_once, of m2 k v] by simp
  with m2 show ?thesis by blast
qed

end

interpretation lru: recency_cache lru_inv lru_items lm_cap lru_peek lru_get "lru_put True"
proof
  fix m :: "('a, 'b) lru_map" and k v
  assume inv: "lru_inv m"
  then show "distinct (map fst (lru_items m))" by (rule lru_inv_items(1))
  show "lru_peek k m = Inr (map_of (lru_items m) k)" by (rule lru_peek_ok [OF inv])
  obtain m' where "lru_get k m = Inr (map_of (lru_items m) k, m')" "holds_list m m' (list_get k id (lru_items m))"
    by (rule lru_get_ok [OF inv])
  then show "\<exists>m'. lru_get k m = Inr (map_of (lru_items m) k, m') \<and> lru_inv m' \<and> lm_cap m' = lm_cap m \<and>
      lru_items m' = list_get k id (lru_items m)" by (auto simp: holds_list_def)
  obtain m' room where "lru_put True k v m = Inr m'" "holds_list m m' (list_put room (lm_cap m) k v (lru_items m))" "True \<longrightarrow> room"
    by (rule lru_put_ok [OF inv])
  then show "\<exists>m'. lru_put True k v m = Inr m' \<and> lru_inv m' \<and> lm_cap m' = lm_cap m \<and>
      lru_items m' = list_put True (lm_cap m) k v (lru_items m)" by (auto simp: holds_list_def)
qed

end
