(* ===== verification/SipHash.thy ===== *)
theory SipHash
  imports Prelude
begin

text \<open>
  The keyed hash of \<open>onetdns-security/src/siphash.rs\<close>, with its two round counts as arguments. The
  reference definition hashes a whole message at once; the incremental hasher is shown to compute it
  however the message is cut into pieces. The running length is unbounded here and wraps in the
  source; only its lowest byte is used.
\<close>

section \<open>The hasher\<close>

type_synonym sip_lanes = "u64 \<times> u64 \<times> u64 \<times> u64"

record sip_hasher =
  sh_v :: sip_lanes
  sh_tail :: u64
  sh_ntail :: nat
  sh_length :: nat

definition sipround :: "sip_lanes \<Rightarrow> sip_lanes" where
  "sipround = (\<lambda>(v0, v1, v2, v3).
     let v0 = v0 + v1; v1 = word_rotl 13 v1; v1 = v1 XOR v0; v0 = word_rotl 32 v0;
         v2 = v2 + v3; v3 = word_rotl 16 v3; v3 = v3 XOR v2;
         v0 = v0 + v3; v3 = word_rotl 21 v3; v3 = v3 XOR v0;
         v2 = v2 + v1; v1 = word_rotl 17 v1; v1 = v1 XOR v2; v2 = word_rotl 32 v2
     in (v0, v1, v2, v3))"

definition sip_new_with_keys :: "u64 \<Rightarrow> u64 \<Rightarrow> sip_hasher" where
  "sip_new_with_keys k0 k1 =
     \<lparr>sh_v = (k0 XOR 0x736f6d6570736575, k1 XOR 0x646f72616e646f6d,
              k0 XOR 0x6c7967656e657261, k1 XOR 0x7465646279746573),
      sh_tail = 0, sh_ntail = 0, sh_length = 0\<rparr>"

definition compress_lanes :: "nat \<Rightarrow> u64 \<Rightarrow> sip_lanes \<Rightarrow> sip_lanes" where
  "compress_lanes C m = (\<lambda>(v0, v1, v2, v3).
     case (sipround ^^ C) (v0, v1, v2, v3 XOR m) of (v0, v1, v2, v3) \<Rightarrow> (v0 XOR m, v1, v2, v3))"

definition sip_compress :: "nat \<Rightarrow> u64 \<Rightarrow> sip_hasher \<Rightarrow> sip_hasher" where
  "sip_compress C m s = s\<lparr>sh_v := compress_lanes C m (sh_v s)\<rparr>"

text \<open>The loops that place bytes at rising offsets, and \<open>u64::from_le_bytes\<close>.\<close>

fun or_bytes :: "u64 \<Rightarrow> nat \<Rightarrow> bytes \<Rightarrow> u64" where
  "or_bytes acc k [] = acc"
| "or_bytes acc k (b # bs) = or_bytes (acc OR push_bit (8 * k) (ucast b)) (Suc k) bs"

definition u64_from_le_bytes :: "bytes \<Rightarrow> u64" where
  "u64_from_le_bytes word = or_bytes 0 0 word"

function chunks_exact :: "bytes \<Rightarrow> bytes list" where
  "chunks_exact msg = (if length msg < 8 then [] else take 8 msg # chunks_exact (drop 8 msg))"
  by auto

termination by (relation "measure length") auto

declare chunks_exact.simps [simp del]

text \<open>The second half of \<open>write\<close>, after a partial block has been completed.\<close>

definition write_rest :: "nat \<Rightarrow> bytes \<Rightarrow> sip_hasher \<Rightarrow> sip_hasher" where
  "write_rest C rest s =
     (let nchunks = length rest div 8;
          s = fold (\<lambda>word. sip_compress C (u64_from_le_bytes word)) (chunks_exact (take (nchunks * 8) rest)) s;
          leftover = drop (nchunks * 8) rest
      in s\<lparr>sh_tail := or_bytes 0 0 leftover, sh_ntail := length leftover\<rparr>)"

definition sip_write :: "nat \<Rightarrow> bytes \<Rightarrow> sip_hasher \<Rightarrow> sip_hasher" where
  "sip_write C msg s =
     (let len = length msg;
          s = s\<lparr>sh_length := sh_length s + len\<rparr>
      in if sh_ntail s \<noteq> 0 then
           (let needed = 8 - sh_ntail s;
                taken = min needed len;
                add = or_bytes 0 (sh_ntail s) (take taken msg);
                s = s\<lparr>sh_tail := sh_tail s OR add\<rparr>
            in if taken < needed then s\<lparr>sh_ntail := sh_ntail s + taken\<rparr>
               else write_rest C (drop taken msg) ((sip_compress C (sh_tail s) s)\<lparr>sh_ntail := 0, sh_tail := 0\<rparr>))
         else write_rest C msg s)"

definition sip_finish :: "nat \<Rightarrow> nat \<Rightarrow> sip_hasher \<Rightarrow> u64" where
  "sip_finish C D s =
     (let b = push_bit 56 (of_nat (sh_length s) AND 0xff) OR sh_tail s in
      case compress_lanes C b (sh_v s) of (v0, v1, v2, v3) \<Rightarrow>
      case (sipround ^^ D) (v0, v1, v2 XOR 0xff, v3) of (v0, v1, v2, v3) \<Rightarrow>
        v0 XOR v1 XOR v2 XOR v3)"

section \<open>The reference\<close>

text \<open>All whole blocks of the message, then one last block of the rest and the length.\<close>

definition whole :: "bytes \<Rightarrow> nat" where
  "whole msg = length msg div 8 * 8"

definition absorbed :: "nat \<Rightarrow> u64 \<Rightarrow> u64 \<Rightarrow> bytes \<Rightarrow> sip_hasher" where
  "absorbed C k0 k1 msg =
     \<lparr>sh_v = fold (\<lambda>word. compress_lanes C (u64_from_le_bytes word)) (chunks_exact msg) (sh_v (sip_new_with_keys k0 k1)),
      sh_tail = or_bytes 0 0 (drop (whole msg) msg), sh_ntail = length msg mod 8, sh_length = length msg\<rparr>"

definition siphash :: "nat \<Rightarrow> nat \<Rightarrow> u64 \<Rightarrow> u64 \<Rightarrow> bytes \<Rightarrow> u64" where
  "siphash C D k0 k1 msg = sip_finish C D (absorbed C k0 k1 msg)"

lemma or_bytes_acc: "or_bytes acc k bs = acc OR or_bytes 0 k bs"
proof (induction bs arbitrary: acc k)
  case (Cons b bs)
  from Cons [of "acc OR push_bit (8 * k) (ucast b)" "Suc k"] Cons [of "push_bit (8 * k) (ucast b)" "Suc k"]
  show ?case by (simp add: or.assoc)
qed simp

lemma or_bytes_append: "or_bytes 0 k (xs @ ys) = or_bytes 0 k xs OR or_bytes 0 (k + length xs) ys"
proof (induction xs arbitrary: k)
  case (Cons x xs)
  from Cons [of "Suc k"] or_bytes_acc [of "push_bit (8 * k) (ucast x)" "Suc k"] show ?case by (simp add: or.assoc)
qed simp

lemma chunks_exact_short [simp]: "length msg < 8 \<Longrightarrow> chunks_exact msg = []"
  by (simp add: chunks_exact.simps)

lemma chunks_exact_block [simp]: "length xs = 8 \<Longrightarrow> chunks_exact (xs @ ys) = xs # chunks_exact ys"
  by (subst chunks_exact.simps) simp

lemma chunks_exact_append:
  assumes "8 dvd length xs"
  shows "chunks_exact (xs @ ys) = chunks_exact xs @ chunks_exact ys"
  using assms
proof (induction xs rule: chunks_exact.induct)
  case (1 xs)
  show ?case
  proof (cases "length xs < 8")
    case True
    with 1(2) have "xs = []" by (auto elim: dvdE)
    then show ?thesis by simp
  next
    case False
    then have "8 dvd length (drop 8 xs)" using 1(2) by (simp add: dvd_diff_nat)
    then have "chunks_exact (drop 8 xs @ ys) = chunks_exact (drop 8 xs) @ chunks_exact ys" using 1(1) False by blast
    then show ?thesis using False chunks_exact.simps [of xs] chunks_exact_block [of "take 8 xs" "drop 8 xs @ ys"]
      by (simp flip: append_assoc)
  qed
qed

lemma dvd_whole [simp]: "8 dvd whole msg" "whole msg \<le> length msg"
  by (simp_all add: whole_def)

lemma chunks_exact_take: "chunks_exact (take (whole msg) msg) = chunks_exact msg"
proof -
  have "length (drop (whole msg) msg) < 8" by (simp add: whole_def minus_div_mult_eq_mod)
  then show ?thesis using chunks_exact_append [of "take (whole msg) msg" "drop (whole msg) msg"] by (simp add: min_absorb2)
qed

lemma fold_compress:
  "fold (\<lambda>word. sip_compress C (u64_from_le_bytes word)) ws s =
   s\<lparr>sh_v := fold (\<lambda>word. compress_lanes C (u64_from_le_bytes word)) ws (sh_v s)\<rparr>"
  by (induction ws arbitrary: s) (simp_all add: sip_compress_def)

text \<open>On a block boundary.\<close>

lemma write_rest_absorbed:
  assumes "8 dvd length m0"
  shows "write_rest C r ((absorbed C k0 k1 m0)\<lparr>sh_length := n\<rparr>) = (absorbed C k0 k1 (m0 @ r))\<lparr>sh_length := n\<rparr>"
proof -
  have "whole (m0 @ r) = length m0 + whole r" using assms by (auto simp: whole_def elim!: dvdE)
  then show ?thesis
    using assms chunks_exact_take [of r] chunks_exact_append [OF assms, of r]
    by (simp add: write_rest_def absorbed_def fold_compress Let_def whole_def minus_div_mult_eq_mod mod_eq_0_iff_dvd [symmetric])
      (simp add: mod_add_eq [symmetric])
qed

lemma absorbed_split:
  assumes "8 dvd length a" and "length p < 8"
  shows "absorbed C k0 k1 (a @ p) = (absorbed C k0 k1 a)\<lparr>sh_tail := or_bytes 0 0 p, sh_ntail := length p,
    sh_length := length a + length p\<rparr>"
proof -
  have "whole (a @ p) = length a" using assms by (auto simp: whole_def elim!: dvdE)
  moreover have "(length a + length p) mod 8 = length p" using assms by (auto elim!: dvdE)
  ultimately show ?thesis
    using chunks_exact_append [OF assms(1), of p] assms(2) by (simp add: absorbed_def)
qed

lemma absorbed_block:
  assumes "8 dvd length a" and "length b = 8"
  shows "sh_v (absorbed C k0 k1 (a @ b)) = compress_lanes C (or_bytes 0 0 b) (sh_v (absorbed C k0 k1 a))"
    "sh_tail (absorbed C k0 k1 (a @ b)) = 0" "sh_ntail (absorbed C k0 k1 (a @ b)) = 0"
proof -
  have "chunks_exact (a @ b) = chunks_exact a @ [b]"
    using chunks_exact_append [OF assms(1), of b] chunks_exact_block [OF assms(2), of "[]"] by simp
  then show "sh_v (absorbed C k0 k1 (a @ b)) = compress_lanes C (or_bytes 0 0 b) (sh_v (absorbed C k0 k1 a))"
    by (simp add: absorbed_def u64_from_le_bytes_def)
  have "whole (a @ b) = length a + 8" using assms by (auto simp: whole_def elim!: dvdE)
  then show "sh_tail (absorbed C k0 k1 (a @ b)) = 0" "sh_ntail (absorbed C k0 k1 (a @ b)) = 0"
    using assms by (auto simp: absorbed_def elim!: dvdE)
qed

lemma absorbed_length [simp]: "(absorbed C k0 k1 m)\<lparr>sh_length := length m\<rparr> = absorbed C k0 k1 m"
  by (simp add: absorbed_def)

lemma write_absorbed: "sip_write C msg (absorbed C k0 k1 m) = absorbed C k0 k1 (m @ msg)"
proof -
  define a p where "a = take (whole m) m" and "p = drop (whole m) m"
  have m: "m = a @ p" and a: "8 dvd length a" by (simp_all add: a_def p_def min_absorb2)
  have p: "length p < 8" by (simp add: p_def whole_def minus_div_mult_eq_mod)
  note s = absorbed_split [OF a p, of C k0 k1]
  show ?thesis
  proof (cases "p = []")
    case True
    have "sh_ntail (absorbed C k0 k1 a) = 0" "sh_length (absorbed C k0 k1 a) = length a"
      using a by (simp_all add: absorbed_def mod_eq_0_iff_dvd)
    then have "sip_write C msg (absorbed C k0 k1 a) =
        write_rest C msg ((absorbed C k0 k1 a)\<lparr>sh_length := length (a @ msg)\<rparr>)"
      by (simp add: sip_write_def Let_def)
    also have "\<dots> = absorbed C k0 k1 (a @ msg)\<lparr>sh_length := length (a @ msg)\<rparr>"
      by (rule write_rest_absorbed [OF a])
    finally show ?thesis using m True by (simp only: absorbed_length append_Nil2)
  next
    case part: False
    show ?thesis
    proof (cases "length p + length msg < 8")
      case True
      then have "absorbed C k0 k1 (a @ (p @ msg)) = (absorbed C k0 k1 a)\<lparr>sh_tail := or_bytes 0 0 (p @ msg),
          sh_ntail := length (p @ msg), sh_length := length a + length (p @ msg)\<rparr>"
        by (intro absorbed_split [OF a]) simp
      with True part s m show ?thesis by (simp add: sip_write_def Let_def or_bytes_append min_def)
    next
      case False
      let ?n = "8 - length p"
      let ?b = "p @ take ?n msg"
      have b: "length ?b = 8" using False p by simp
      let ?ab = "absorbed C k0 k1 (a @ ?b)"
      have "sip_write C msg (absorbed C k0 k1 m) =
          write_rest C (drop ?n msg) (?ab\<lparr>sh_length := length (m @ msg)\<rparr>)"
        using False part p s m absorbed_block [OF a b, of C k0 k1]
        by (simp add: sip_write_def Let_def or_bytes_append sip_compress_def min_def absorbed_def add.assoc)
      also have "\<dots> = absorbed C k0 k1 ((a @ ?b) @ drop ?n msg)\<lparr>sh_length := length (m @ msg)\<rparr>"
        by (rule write_rest_absorbed) (use a b in simp)
      also have "(a @ ?b) @ drop ?n msg = m @ msg" using m by simp
      finally show ?thesis by (simp only: absorbed_length)
    qed
  qed
qed

lemma absorbed_Nil: "absorbed C k0 k1 [] = sip_new_with_keys k0 k1"
  by (simp add: absorbed_def sip_new_with_keys_def whole_def)

lemma writes_absorbed:
  "fold (sip_write C) ms (absorbed C k0 k1 m) = absorbed C k0 k1 (m @ concat ms)"
  by (induction ms arbitrary: m) (simp_all add: write_absorbed)

lemma hash_writes: "sip_finish C D (fold (sip_write C) ms (sip_new_with_keys k0 k1)) = siphash C D k0 k1 (concat ms)"
  using writes_absorbed [of C ms k0 k1 "[]"] by (simp add: absorbed_Nil siphash_def)

end
