(* ===== verification/IpNet.thy ===== *)
theory IpNet
  imports Prelude
begin

text \<open>
  Address prefixes and who may ask: \<open>IpNet\<close> of \<open>onetdns-core/src/ipnet.rs\<close>, the access list of
  \<open>onetdns-security/src/acl.rs\<close> and the aggregation key of \<open>onetdns-security/src/subnet.rs\<close>. Addresses are
  given by their bits; reading them from text is left to the standard library's parser, so a network
  is made here from the address and prefix length that \<open>from_str\<close> has read.
\<close>

section \<open>Addresses\<close>

text \<open>\<open>std::net::IpAddr\<close> by the bits of the address, and the octets of the two families.\<close>

datatype ip_addr = V4 "32 word" | V6 "128 word"

definition v6_octets :: "128 word \<Rightarrow> bytes" where
  "v6_octets a = map (\<lambda>i. ucast (drop_bit (8 * (15 - i)) a)) [0..<16]"

fun octets :: "ip_addr \<Rightarrow> bytes" where
  "octets (V4 v4) = u32_to_be_bytes v4"
| "octets (V6 v6) = v6_octets v6"

section \<open>Prefixes\<close>

record ip_net =
  net_network :: ip_addr
  net_prefix :: u8

definition v4_mask :: "u8 \<Rightarrow> 32 word" where
  "v4_mask prefix =
     (if prefix = 0 then 0 else if prefix \<ge> 32 then - 1 else push_bit (unat (32 - prefix)) (- 1))"

definition v6_mask :: "u8 \<Rightarrow> 128 word" where
  "v6_mask prefix =
     (if prefix = 0 then 0 else if prefix \<ge> 128 then - 1 else push_bit (unat (128 - prefix)) (- 1))"

fun mask_addr :: "ip_addr \<Rightarrow> u8 \<Rightarrow> ip_addr" where
  "mask_addr (V4 v4) prefix = V4 (v4 AND v4_mask prefix)"
| "mask_addr (V6 v6) prefix = V6 (v6 AND v6_mask prefix)"

definition net_contains :: "ip_net \<Rightarrow> ip_addr \<Rightarrow> bool" where
  "net_contains net addr =
     (case (net_network net, addr) of
        (V4 n, V4 ip) \<Rightarrow> (let m = v4_mask (net_prefix net) in n AND m = ip AND m)
      | (V6 n, V6 ip) \<Rightarrow> (let m = v6_mask (net_prefix net) in n AND m = ip AND m)
      | _ \<Rightarrow> False)"

fun family_bits :: "ip_addr \<Rightarrow> u8" where
  "family_bits (V4 _) = 32"
| "family_bits (V6 _) = 128"

text \<open>\<open>from_str\<close> after the address and the prefix length, if one is given, have been read.\<close>

definition net_of :: "ip_addr \<Rightarrow> u8 option \<Rightarrow> ip_net option" where
  "net_of addr prefix_str =
     (let mx = family_bits addr;
          prefix = (case prefix_str of Some p \<Rightarrow> p | None \<Rightarrow> mx)
      in if prefix > mx then None
         else Some \<lparr>net_network = mask_addr addr prefix, net_prefix = prefix\<rparr>)"

record subnet_limiter =
  sl_v4_prefix :: u8
  sl_v6_prefix :: u8

definition subnet_new :: "u8 \<Rightarrow> u8 \<Rightarrow> subnet_limiter" where
  "subnet_new v4_prefix v6_prefix = \<lparr>sl_v4_prefix = min v4_prefix 32, sl_v6_prefix = min v6_prefix 128\<rparr>"

fun subnet_key :: "subnet_limiter \<Rightarrow> ip_addr \<Rightarrow> ip_addr" where
  "subnet_key l (V4 bits) =
     V4 (bits AND (if sl_v4_prefix l = 0 then 0 else push_bit (unat (32 - sl_v4_prefix l)) (- 1)))"
| "subnet_key l (V6 bits) =
     V6 (bits AND (if sl_v6_prefix l = 0 then 0 else push_bit (unat (128 - sl_v6_prefix l)) (- 1)))"

section \<open>Access control\<close>

datatype acl_decision = Allow | Deny

datatype transport = Do53Udp | Do53Tcp | DoT | DoH | DoH3 | DoQ | DnsCrypt

record client_info =
  ci_source_ip :: ip_addr
  ci_client_id :: "string option"
  ci_transport :: transport
  ci_authenticated :: bool

abbreviation plain_client :: "ip_addr \<Rightarrow> string option \<Rightarrow> client_info" where
  "plain_client ip client_id \<equiv>
     \<lparr>ci_source_ip = ip, ci_client_id = client_id, ci_transport = Do53Udp, ci_authenticated = False\<rparr>"

record ip_acl =
  ia_allow :: "ip_net list"
  ia_deny :: "ip_net list"
  ia_allow_ids :: "string list"
  ia_deny_ids :: "string list"
  ia_default_allow :: bool

definition acl_new :: "ip_net list \<Rightarrow> ip_net list \<Rightarrow> bool \<Rightarrow> ip_acl" where
  "acl_new allow deny default_allow =
     \<lparr>ia_allow = allow, ia_deny = deny, ia_allow_ids = [], ia_deny_ids = [], ia_default_allow = default_allow\<rparr>"

definition with_ids :: "string list \<Rightarrow> string list \<Rightarrow> ip_acl \<Rightarrow> ip_acl" where
  "with_ids allow_ids deny_ids acl = acl\<lparr>ia_allow_ids := allow_ids, ia_deny_ids := deny_ids\<rparr>"

definition allow_all :: ip_acl where
  "allow_all = acl_new [] [] True"

definition contained :: "ip_net list \<Rightarrow> ip_addr \<Rightarrow> bool" where
  "contained nets ip \<longleftrightarrow> list_ex (\<lambda>n. net_contains n ip) nets"

definition acl_check :: "ip_acl \<Rightarrow> client_info \<Rightarrow> acl_decision" where
  "acl_check acl client =
     (let ip = ci_source_ip client; id = ci_client_id client in
      if contained (ia_deny acl) ip then Deny
      else if (case id of Some i \<Rightarrow> list_ex (\<lambda>x. x = i) (ia_deny_ids acl) | None \<Rightarrow> False) then Deny
      else if contained (ia_allow acl) ip then Allow
      else if (case id of Some i \<Rightarrow> list_ex (\<lambda>x. x = i) (ia_allow_ids acl) | None \<Rightarrow> False) then Allow
      else if ia_default_allow acl then Allow else Deny)"

definition is_trivially_allow :: "ip_acl \<Rightarrow> bool" where
  "is_trivially_allow acl \<longleftrightarrow> ia_default_allow acl \<and> ia_deny acl = [] \<and> ia_deny_ids acl = []"

section \<open>Prefixes by bits\<close>

text \<open>Two addresses agree on their leading \<open>p\<close> bits; the families never mix.\<close>

fun same_prefix :: "nat \<Rightarrow> ip_addr \<Rightarrow> ip_addr \<Rightarrow> bool" where
  "same_prefix p (V4 a) (V4 b) \<longleftrightarrow> (\<forall>i < min p 32. bit a (31 - i) = bit b (31 - i))"
| "same_prefix p (V6 a) (V6 b) \<longleftrightarrow> (\<forall>i < min p 128. bit a (127 - i) = bit b (127 - i))"
| "same_prefix p _ _ \<longleftrightarrow> False"

lemma high_bits:
  fixes a b :: "'a::len word"
  assumes "p \<le> LENGTH('a)"
  shows "a AND push_bit (LENGTH('a) - p) (- 1) = b AND push_bit (LENGTH('a) - p) (- 1) \<longleftrightarrow>
    (\<forall>i < p. bit a (LENGTH('a) - 1 - i) = bit b (LENGTH('a) - 1 - i))"
  (is "?l \<longleftrightarrow> ?r")
proof
  assume l: ?l
  show ?r
  proof (intro allI impI)
    fix i assume "i < p"
    with l assms show "bit a (LENGTH('a) - 1 - i) = bit b (LENGTH('a) - 1 - i)"
      by (auto simp: bit_eq_iff bit_simps dest!: spec [of _ "LENGTH('a) - 1 - i"])
  qed
next
  assume r: ?r
  show ?l
  proof (rule bit_word_eqI)
    fix n assume n: "n < LENGTH('a)"
    show "bit (a AND push_bit (LENGTH('a) - p) (- 1)) n = bit (b AND push_bit (LENGTH('a) - p) (- 1)) n"
    proof (cases "LENGTH('a) - p \<le> n")
      case True
      with r n have "bit a (LENGTH('a) - 1 - (LENGTH('a) - 1 - n)) = bit b (LENGTH('a) - 1 - (LENGTH('a) - 1 - n))"
        by (intro r [rule_format]) auto
      with n show ?thesis by (simp add: bit_simps)
    qed (simp add: bit_simps)
  qed
qed

lemma not_full_mask: "NOT (mask 32) = (0 :: 32 word)" "NOT (mask 128) = (0 :: 128 word)"
  by (rule bit_word_eqI; simp add: bit_simps)+

lemma v4_mask_eq: "v4_mask p = push_bit (32 - min (unat p) 32) (- 1)"
proof -
  have "unat (32 - p) = 32 - unat p" if "\<not> 32 \<le> p"
    using that by (simp add: word_le_nat_alt unat_sub)
  then show ?thesis by (auto simp: v4_mask_def word_le_nat_alt unat_eq_zero min_def not_full_mask)
qed

lemma v6_mask_eq: "v6_mask p = push_bit (128 - min (unat p) 128) (- 1)"
proof -
  have "unat (128 - p) = 128 - unat p" if "\<not> 128 \<le> p"
    using that by (simp add: word_le_nat_alt unat_sub)
  then show ?thesis by (auto simp: v6_mask_def word_le_nat_alt unat_eq_zero min_def not_full_mask)
qed

lemma masked_eq_iff: "mask_addr a p = mask_addr b p \<longleftrightarrow> same_prefix (unat p) a b"
  using high_bits [where ?'a = 32, of "min (unat p) 32"] high_bits [where ?'a = 128, of "min (unat p) 128"]
  by (cases a; cases b) (simp_all add: v4_mask_eq v6_mask_eq)

lemma net_contains_masked: "net_contains net addr \<longleftrightarrow> mask_addr (net_network net) (net_prefix net) = mask_addr addr (net_prefix net)"
  by (cases "net_network net"; cases addr) (simp_all add: net_contains_def Let_def)

lemma net_contains_iff: "net_contains net addr \<longleftrightarrow> same_prefix (unat (net_prefix net)) (net_network net) addr"
  by (simp add: net_contains_masked masked_eq_iff)

lemma mask_addr_idem: "mask_addr (mask_addr a p) p = mask_addr a p"
  by (cases a) (simp_all add: and.assoc)

lemma net_of_contains: "net_of a p = Some net \<Longrightarrow> net_contains net b \<longleftrightarrow> same_prefix (unat (net_prefix net)) a b"
  by (auto simp: net_of_def Let_def net_contains_masked mask_addr_idem masked_eq_iff [symmetric] split: if_splits)

lemma net_contains_self: "net_contains net (net_network net)"
  by (simp add: net_contains_masked)

definition limiter_prefix :: "subnet_limiter \<Rightarrow> ip_addr \<Rightarrow> u8" where
  "limiter_prefix l a = (case a of V4 _ \<Rightarrow> sl_v4_prefix l | V6 _ \<Rightarrow> sl_v6_prefix l)"

lemma subnet_key_masks:
  assumes "sl_v4_prefix l \<le> 32" and "sl_v6_prefix l \<le> 128"
  shows "subnet_key l a = mask_addr a (limiter_prefix l a)"
  using assms by (cases a) (auto simp: limiter_prefix_def v4_mask_def v6_mask_def dest: order_antisym)

lemma subnet_new_bounds: "sl_v4_prefix (subnet_new p4 p6) \<le> 32" "sl_v6_prefix (subnet_new p4 p6) \<le> 128"
  by (simp_all add: subnet_new_def)

lemma same_prefix_min: "same_prefix (min p 32) (V4 a) b = same_prefix p (V4 a) b"
    "same_prefix (min p 128) (V6 c) b = same_prefix p (V6 c) b"
  by (cases b; simp)+

lemma unat_min: "unat (min a b) = min (unat a) (unat b)"
  by (simp add: min_def word_le_nat_alt)

lemma subnet_key_exact:
  "subnet_key (subnet_new p4 p6) a = subnet_key (subnet_new p4 p6) b \<longleftrightarrow>
   same_prefix (case a of V4 _ \<Rightarrow> unat p4 | V6 _ \<Rightarrow> unat p6) a b"
proof (cases "limiter_prefix (subnet_new p4 p6) a = limiter_prefix (subnet_new p4 p6) b")
  case True
  then show ?thesis
    unfolding subnet_key_masks [OF subnet_new_bounds] True
    by (simp add: masked_eq_iff True [symmetric])
      (cases a; simp add: limiter_prefix_def subnet_new_def unat_min same_prefix_min)
next
  case False
  then show ?thesis by (cases a; cases b) (simp_all add: limiter_prefix_def)
qed

lemma acl_denied: "acl_check acl client = Deny \<longleftrightarrow>
    (\<exists>n \<in> set (ia_deny acl). net_contains n (ci_source_ip client)) \<or>
    (\<exists>i \<in> set (ia_deny_ids acl). ci_client_id client = Some i) \<or>
    \<not> ((\<exists>n \<in> set (ia_allow acl). net_contains n (ci_source_ip client)) \<or>
       (\<exists>i \<in> set (ia_allow_ids acl). ci_client_id client = Some i) \<or> ia_default_allow acl)"
  by (auto simp: acl_check_def Let_def contained_def list_ex_iff split: option.splits)

lemma trivially_allow_iff:
  "is_trivially_allow acl \<longleftrightarrow> ia_default_allow acl \<and> (\<forall>client. acl_check acl client = Allow)"
proof (cases "ia_default_allow acl")
  case True
  have "acl_check acl (plain_client (net_network n) None) = Deny" if "n \<in> set (ia_deny acl)" for n
    using that net_contains_self [of n] by (auto simp: acl_denied)
  moreover have "acl_check acl (plain_client (V4 0) (Some i)) = Deny" if "i \<in> set (ia_deny_ids acl)" for i
    using that by (auto simp: acl_denied)
  ultimately have "ia_deny acl = [] \<and> ia_deny_ids acl = []" if "\<forall>client. acl_check acl client = Allow"
    using that by (metis acl_decision.distinct(1) last_in_set)
  moreover have "acl_check acl client = Allow" if "ia_deny acl = []" "ia_deny_ids acl = []" for client
    using that True acl_denied [of acl client] by (cases "acl_check acl client") auto
  ultimately show ?thesis using True by (auto simp: is_trivially_allow_def)
qed (simp add: is_trivially_allow_def)

end
