(* ===== verification/Cookie.thy ===== *)
theory Cookie
  imports SipHash IpNet
begin

text \<open>
  DNS cookies, \<open>onetdns-security/src/cookie.rs\<close>. The clock is an argument, as in the \<open>_at\<close> variants of
  the source; seconds are 32-bit words and ages are read as signed 32-bit differences.
\<close>

section \<open>Issuing\<close>

definition SERVER_COOKIE_LEN :: nat where "SERVER_COOKIE_LEN = 16"
definition COOKIE_VERSION :: u8 where "COOKIE_VERSION = 1"
definition ACCEPT_PAST_SECS :: int where "ACCEPT_PAST_SECS = 3600"
definition ACCEPT_FUTURE_SECS :: int where "ACCEPT_FUTURE_SECS = 300"
definition SECRET_EPOCH_SECS :: u32 where "SECRET_EPOCH_SECS = 30 * 24 * 60 * 60"

text \<open>The bytes of \<open>"OnetDNS DNS Cookie epoch key v1"\<close>.\<close>

definition EPOCH_KEY_CONTEXT :: bytes where
  "EPOCH_KEY_CONTEXT = [79, 110, 101, 116, 68, 78, 83, 32, 68, 78, 83, 32, 67, 111, 111, 107, 105, 101, 32,
     101, 112, 111, 99, 104, 32, 107, 101, 121, 32, 118, 49]"

record cookie_keeper =
  ck_k0 :: u64
  ck_k1 :: u64
  ck_rotating :: bool

definition from_secret :: "bytes \<Rightarrow> cookie_keeper" where
  "from_secret secret =
     \<lparr>ck_k0 = u64_from_le_bytes (take 8 secret), ck_k1 = u64_from_le_bytes (take 8 (drop 8 secret)), ck_rotating = False\<rparr>"

definition from_master_secret :: "bytes \<Rightarrow> cookie_keeper" where
  "from_master_secret secret = (from_secret secret)\<lparr>ck_rotating := True\<rparr>"

definition keys_at :: "cookie_keeper \<Rightarrow> u32 \<Rightarrow> u64 \<times> u64" where
  "keys_at keeper stamp =
     (if \<not> ck_rotating keeper then (ck_k0 keeper, ck_k1 keeper)
      else let epoch = stamp div SECRET_EPOCH_SECS;
               derive = (\<lambda>domain.
                 let h = sip_new_with_keys (ck_k0 keeper) (ck_k1 keeper);
                     h = sip_write 2 EPOCH_KEY_CONTEXT h;
                     h = sip_write 2 (u32_to_be_bytes epoch) h;
                     h = sip_write 2 [domain] h
                 in sip_finish 2 4 h)
           in (derive 0, derive 1))"

text \<open>\<open>u64::to_le_bytes\<close>.\<close>

definition u64_to_le_bytes :: "u64 \<Rightarrow> bytes" where
  "u64_to_le_bytes v = map (\<lambda>i. ucast (drop_bit (8 * i) v)) [0..<8]"

definition server_cookie_at :: "cookie_keeper \<Rightarrow> bytes \<Rightarrow> ip_addr \<Rightarrow> u32 \<Rightarrow> bytes" where
  "server_cookie_at keeper client_cookie ip stamp =
     (let out = [COOKIE_VERSION, 0, 0, 0] @ u32_to_be_bytes stamp;
          (k0, k1) = keys_at keeper stamp;
          h = sip_new_with_keys k0 k1;
          h = sip_write 2 client_cookie h;
          h = sip_write 2 out h;
          h = sip_write 2 (octets ip) h
      in out @ u64_to_le_bytes (sip_finish 2 4 h))"

text \<open>\<open>server_cookie\<close> and \<open>response_cookie\<close> with the time the clock shows.\<close>

definition response_cookie :: "cookie_keeper \<Rightarrow> bytes \<Rightarrow> ip_addr \<Rightarrow> u32 \<Rightarrow> bytes" where
  "response_cookie keeper client_cookie ip now = client_cookie @ server_cookie_at keeper client_cookie ip now"

section \<open>Checking\<close>

record cookie_check =
  cc_client :: bytes
  cc_valid :: bool

fun ct_loop :: "u8 \<Rightarrow> bytes \<Rightarrow> bytes \<Rightarrow> u8" where
  "ct_loop d (x # xs) (y # ys) = ct_loop (d OR (x XOR y)) xs ys"
| "ct_loop d xs ys = d"

definition ct_eq :: "bytes \<Rightarrow> bytes \<Rightarrow> bool" where
  "ct_eq a b \<longleftrightarrow> (if length a \<noteq> length b then False else ct_loop 0 a b = 0)"

definition server_part_is_ours_at :: "cookie_keeper \<Rightarrow> bytes \<Rightarrow> bytes \<Rightarrow> ip_addr \<Rightarrow> u32 \<Rightarrow> bool" where
  "server_part_is_ours_at keeper server client ip now =
     (if length server \<noteq> SERVER_COOKIE_LEN \<or> server ! 0 \<noteq> COOKIE_VERSION then False
      else let stamp = u32_from_be_bytes (take 4 (drop 4 server));
               age = sint (now - stamp)
           in if \<not> (- ACCEPT_FUTURE_SECS \<le> age \<and> age \<le> ACCEPT_PAST_SECS) then False
              else ct_eq server (server_cookie_at keeper client ip stamp))"

definition parse_and_validate_at :: "cookie_keeper \<Rightarrow> bytes \<Rightarrow> ip_addr \<Rightarrow> u32 \<Rightarrow> cookie_check option" where
  "parse_and_validate_at keeper cookie ip now =
     (if length cookie \<noteq> 8 \<and> \<not> (16 \<le> length cookie \<and> length cookie \<le> 40) then None
      else let client = take 8 cookie;
               valid = server_part_is_ours_at keeper (drop 8 cookie) client ip now
           in Some \<lparr>cc_client = client, cc_valid = valid\<rparr>)"

section \<open>Which cookies are accepted\<close>

lemma xor_zero_iff: "x XOR y = 0 \<longleftrightarrow> x = y" for x y :: "'a::len word"
  by (auto simp: bit_eq_iff bit_simps)

lemma ct_loop_zero: "length a = length b \<Longrightarrow> ct_loop d a b = 0 \<longleftrightarrow> d = 0 \<and> a = b"
proof (induction d a b rule: ct_loop.induct)
  case (1 d x xs y ys)
  then show ?case by (auto simp: or_eq_0_iff xor_zero_iff)
qed auto

lemma ct_eq_iff: "ct_eq a b \<longleftrightarrow> a = b"
  by (auto simp: ct_eq_def ct_loop_zero)

lemma length_octets [simp]: "length (u64_to_le_bytes v) = 8"
  by (simp add: u64_to_le_bytes_def)

lemma server_cookie_shape:
  obtains hash where "server_cookie_at keeper client ip stamp = [COOKIE_VERSION, 0, 0, 0] @ u32_to_be_bytes stamp @ hash"
    "length hash = 8"
  by (cases "keys_at keeper stamp") (simp add: server_cookie_at_def Let_def)

lemma server_cookie_fields:
  "length (server_cookie_at keeper client ip stamp) = 16" "server_cookie_at keeper client ip stamp ! 0 = COOKIE_VERSION"
  "u32_from_be_bytes (take 4 (drop 4 (server_cookie_at keeper client ip stamp))) = stamp"
  by (rule server_cookie_shape [of keeper client ip stamp], simp)+

definition in_window :: "u32 \<Rightarrow> u32 \<Rightarrow> bool" where
  "in_window now stamp \<longleftrightarrow> - 300 \<le> sint (now - stamp) \<and> sint (now - stamp) \<le> 3600"

lemma server_part_exact:
  "server_part_is_ours_at keeper server client ip now \<longleftrightarrow>
   (\<exists>stamp. server = server_cookie_at keeper client ip stamp \<and> in_window now stamp)"
proof
  assume "server_part_is_ours_at keeper server client ip now"
  then show "\<exists>stamp. server = server_cookie_at keeper client ip stamp \<and> in_window now stamp"
    by (auto simp: server_part_is_ours_at_def ct_eq_iff in_window_def ACCEPT_FUTURE_SECS_def ACCEPT_PAST_SECS_def Let_def
        split: if_splits)
next
  assume "\<exists>stamp. server = server_cookie_at keeper client ip stamp \<and> in_window now stamp"
  then show "server_part_is_ours_at keeper server client ip now"
    by (auto simp: server_part_is_ours_at_def ct_eq_iff in_window_def ACCEPT_FUTURE_SECS_def ACCEPT_PAST_SECS_def
        server_cookie_fields SERVER_COOKIE_LEN_def Let_def)
qed

text \<open>The digest of a cookie is the keyed hash of the cookie's parts, one after the other.\<close>

lemma server_cookie_hash:
  "server_cookie_at keeper client ip stamp =
   [COOKIE_VERSION, 0, 0, 0] @ u32_to_be_bytes stamp @ u64_to_le_bytes
     (siphash 2 4 (fst (keys_at keeper stamp)) (snd (keys_at keeper stamp))
        (client @ [COOKIE_VERSION, 0, 0, 0] @ u32_to_be_bytes stamp @ octets ip))"
  using hash_writes [of 2 4 "[client, [COOKIE_VERSION, 0, 0, 0] @ u32_to_be_bytes stamp, octets ip]"
      "fst (keys_at keeper stamp)" "snd (keys_at keeper stamp)"]
  by (cases "keys_at keeper stamp") (simp add: server_cookie_at_def Let_def)

end
