(* ===== verification/QuicFrame.thy ===== *)
theory QuicFrame
  imports Prelude
begin

text \<open>
  QUIC integers and frames, \<open>onetdns-quic/src/varint.rs\<close> and \<open>frame.rs\<close>. The cursor of the source only moves
  forward and is represented by the bytes in front of it. 64-bit values are natural numbers: what is
  read has at most 62 bits, so the shifts of \<open>read\<close> lose nothing, and \<open>write\<close> shows its bit operations.
  Lengths convert to \<open>usize\<close> without loss on a 64-bit target.
\<close>

section \<open>Variable-length integers\<close>

fun varint_loop :: "nat \<Rightarrow> nat \<Rightarrow> bytes \<Rightarrow> nat option" where
  "varint_loop 0 val buf = Some val"
| "varint_loop (Suc n) val [] = None"
| "varint_loop (Suc n) val (b # buf) = varint_loop n (push_bit 8 val OR unat b) buf"

definition varint_read :: "bytes \<Rightarrow> (nat \<times> nat) option" where
  "varint_read buf =
     (case buf of [] \<Rightarrow> None
      | first # rest \<Rightarrow>
          (let len = push_bit (unat (drop_bit 6 first)) 1;
               val = unat (first AND 0x3f)
           in map_option (\<lambda>val. (val, len)) (varint_loop (len - 1) val rest)))"

definition varint_write :: "nat \<Rightarrow> bytes" where
  "varint_write v =
     (if v < 2 ^ 6 then [of_nat v]
      else if v < 2 ^ 14 then be_bytes 2 (v OR 0x4000)
      else if v < 2 ^ 30 then be_bytes 4 (v OR 0x80000000)
      else be_bytes 8 (v OR 0xc000000000000000))"

definition varint_len :: "nat \<Rightarrow> nat" where
  "varint_len v = (if v < 2 ^ 6 then 1 else if v < 2 ^ 14 then 2 else if v < 2 ^ 30 then 4 else 8)"

section \<open>Frames\<close>

definition MAX_PARSED_FRAMES :: nat where "MAX_PARSED_FRAMES = 1024"
definition MAX_PARSED_ACK_RANGES :: nat where "MAX_PARSED_ACK_RANGES = 256"

abbreviation (input) "FT_PADDING \<equiv> 0x00 :: nat"
abbreviation (input) "FT_PING \<equiv> 0x01 :: nat"
abbreviation (input) "FT_ACK \<equiv> 0x02 :: nat"
abbreviation (input) "FT_ACK_ECN \<equiv> 0x03 :: nat"
abbreviation (input) "FT_RESET_STREAM \<equiv> 0x04 :: nat"
abbreviation (input) "FT_STOP_SENDING \<equiv> 0x05 :: nat"
abbreviation (input) "FT_CRYPTO \<equiv> 0x06 :: nat"
abbreviation (input) "FT_NEW_TOKEN \<equiv> 0x07 :: nat"
abbreviation (input) "FT_STREAM \<equiv> 0x08 :: nat"
abbreviation (input) "FT_MAX_DATA \<equiv> 0x10 :: nat"
abbreviation (input) "FT_MAX_STREAM_DATA \<equiv> 0x11 :: nat"
abbreviation (input) "FT_MAX_STREAMS_BIDI \<equiv> 0x12 :: nat"
abbreviation (input) "FT_MAX_STREAMS_UNI \<equiv> 0x13 :: nat"
abbreviation (input) "FT_DATA_BLOCKED \<equiv> 0x14 :: nat"
abbreviation (input) "FT_STREAM_DATA_BLOCKED \<equiv> 0x15 :: nat"
abbreviation (input) "FT_STREAMS_BLOCKED_BIDI \<equiv> 0x16 :: nat"
abbreviation (input) "FT_STREAMS_BLOCKED_UNI \<equiv> 0x17 :: nat"
abbreviation (input) "FT_NEW_CONNECTION_ID \<equiv> 0x18 :: nat"
abbreviation (input) "FT_RETIRE_CONNECTION_ID \<equiv> 0x19 :: nat"
abbreviation (input) "FT_PATH_CHALLENGE \<equiv> 0x1a :: nat"
abbreviation (input) "FT_PATH_RESPONSE \<equiv> 0x1b :: nat"
abbreviation (input) "FT_CONNECTION_CLOSE \<equiv> 0x1c :: nat"
abbreviation (input) "FT_CONNECTION_CLOSE_APP \<equiv> 0x1d :: nat"
abbreviation (input) "FT_HANDSHAKE_DONE \<equiv> 0x1e :: nat"

datatype quic_frame =
    Padding nat
  | Ping
  | Ack (ack_largest: nat) (ack_delay: nat) (ack_first_range: nat) (ack_ranges: "(nat \<times> nat) list")
  | Crypto (crypto_offset: nat) (crypto_data: bytes)
  | Stream (stream_id: nat) (stream_offset: nat) (stream_fin: bool) (stream_data: bytes)
  | ResetStream (rs_id: nat) (rs_error_code: nat) (rs_final_size: nat)
  | StopSending nat nat
  | MaxData nat
  | MaxStreamData nat nat
  | MaxStreams bool nat
  | ConnectionClose (cl_error_code: nat) (cl_frame_type: "nat option") (cl_reason: bytes)
  | HandshakeDone
  | PathChallenge bytes
  | PathResponse bytes
  | OtherFrame nat

type_synonym 'a cursor = "bytes \<Rightarrow> ('a \<times> bytes) option"

definition cur_return :: "'a \<Rightarrow> 'a cursor" where
  "cur_return x buf = Some (x, buf)"

definition cur_bind :: "'a cursor \<Rightarrow> ('a \<Rightarrow> 'b cursor) \<Rightarrow> 'b cursor" where
  "cur_bind m f buf = (case m buf of None \<Rightarrow> None | Some (x, rest) \<Rightarrow> f x rest)"

definition cur_check :: "bool \<Rightarrow> unit cursor" where
  "cur_check b buf = (if b then Some ((), buf) else None)"

definition cur_vi :: "nat cursor" where
  "cur_vi buf = map_option (\<lambda>(v, n). (v, drop n buf)) (varint_read buf)"

definition cur_take :: "nat \<Rightarrow> bytes cursor" where
  "cur_take n buf = (if n \<le> length buf then Some (take n buf, drop n buf) else None)"

definition cur_rest :: "bytes cursor" where
  "cur_rest buf = Some (buf, [])"

definition cur_byte :: "u8 cursor" where
  "cur_byte buf = (case buf of [] \<Rightarrow> None | b # rest \<Rightarrow> Some (b, rest))"

text \<open>The inner loop that swallows a run of zero bytes, counting from one.\<close>

definition cur_padding :: "nat cursor" where
  "cur_padding buf =
     (let n = length (takeWhile (\<lambda>b. b = 0) buf) in Some (1 + n, drop n buf))"

fun cur_ranges :: "nat \<Rightarrow> (nat \<times> nat) list cursor" where
  "cur_ranges 0 = cur_return []"
| "cur_ranges (Suc n) =
     cur_bind cur_vi (\<lambda>gap. cur_bind cur_vi (\<lambda>len. cur_bind (cur_ranges n) (\<lambda>rs. cur_return ((gap, len) # rs))))"

definition parse_ack :: "nat \<Rightarrow> quic_frame cursor" where
  "parse_ack t =
     cur_bind cur_vi (\<lambda>largest. cur_bind cur_vi (\<lambda>delay. cur_bind cur_vi (\<lambda>count.
     cur_bind (cur_check (\<not> count > MAX_PARSED_ACK_RANGES)) (\<lambda>_.
     cur_bind cur_vi (\<lambda>first_range. cur_bind (cur_ranges count) (\<lambda>ranges.
     cur_bind (if t = FT_ACK_ECN
               then cur_bind cur_vi (\<lambda>_. cur_bind cur_vi (\<lambda>_. cur_bind cur_vi (\<lambda>_. cur_return ())))
               else cur_return ()) (\<lambda>_.
     cur_return (Ack largest delay first_range ranges))))))))"

definition parse_stream :: "nat \<Rightarrow> quic_frame cursor" where
  "parse_stream t =
     cur_bind cur_vi (\<lambda>id.
     cur_bind (if t AND 0x04 \<noteq> 0 then cur_vi else cur_return 0) (\<lambda>offset.
     let fin = (t AND 0x01 \<noteq> 0) in
     cur_bind (if t AND 0x02 \<noteq> 0 then cur_bind cur_vi cur_take else cur_rest) (\<lambda>data.
     cur_return (Stream id offset fin data))))"

definition parse_close :: "nat \<Rightarrow> quic_frame cursor" where
  "parse_close t =
     cur_bind cur_vi (\<lambda>error_code.
     cur_bind (if t = FT_CONNECTION_CLOSE then cur_bind cur_vi (\<lambda>ft. cur_return (Some ft)) else cur_return None)
       (\<lambda>frame_type.
     cur_bind cur_vi (\<lambda>len. cur_bind (cur_take len) (\<lambda>reason.
     cur_return (ConnectionClose error_code frame_type reason)))))"

definition parse_new_connection_id :: "nat \<Rightarrow> quic_frame cursor" where
  "parse_new_connection_id t =
     cur_bind cur_vi (\<lambda>sequence. cur_bind cur_vi (\<lambda>retire_prior_to.
     cur_bind (cur_check (\<not> retire_prior_to > sequence)) (\<lambda>_.
     cur_bind cur_byte (\<lambda>cid_len.
     cur_bind (cur_check (1 \<le> unat cid_len \<and> unat cid_len \<le> 20)) (\<lambda>_.
     cur_bind (cur_take (unat cid_len)) (\<lambda>_. cur_bind (cur_take 16) (\<lambda>_. cur_return (OtherFrame t))))))))"

definition skip_vi :: "nat \<Rightarrow> nat \<Rightarrow> quic_frame cursor" where
  "skip_vi k t =
     cur_bind ((if k = 2 then cur_bind cur_vi (\<lambda>_. cur_vi) else cur_vi)) (\<lambda>_. cur_return (OtherFrame t))"

text \<open>The \<open>match\<close> on the frame type.\<close>

definition parse_frame_body :: "nat \<Rightarrow> quic_frame cursor" where
  "parse_frame_body t =
     (if t = FT_PADDING then cur_bind cur_padding (\<lambda>n. cur_return (Padding n))
      else if t = FT_PING then cur_return Ping
      else if t = FT_ACK \<or> t = FT_ACK_ECN then parse_ack t
      else if t = FT_CRYPTO then
        cur_bind cur_vi (\<lambda>offset. cur_bind cur_vi (\<lambda>len. cur_bind (cur_take len) (\<lambda>data.
        cur_return (Crypto offset data))))
      else if FT_STREAM \<le> t \<and> t \<le> FT_STREAM + 7 then parse_stream t
      else if t = FT_MAX_DATA then cur_bind cur_vi (\<lambda>v. cur_return (MaxData v))
      else if t = FT_MAX_STREAM_DATA then
        cur_bind cur_vi (\<lambda>id. cur_bind cur_vi (\<lambda>mx. cur_return (MaxStreamData id mx)))
      else if t = FT_MAX_STREAMS_BIDI then cur_bind cur_vi (\<lambda>mx. cur_return (MaxStreams False mx))
      else if t = FT_MAX_STREAMS_UNI then cur_bind cur_vi (\<lambda>mx. cur_return (MaxStreams True mx))
      else if t = FT_CONNECTION_CLOSE \<or> t = FT_CONNECTION_CLOSE_APP then parse_close t
      else if t = FT_HANDSHAKE_DONE then cur_return HandshakeDone
      else if t = FT_RESET_STREAM then
        cur_bind cur_vi (\<lambda>id. cur_bind cur_vi (\<lambda>error_code. cur_bind cur_vi (\<lambda>final_size.
        cur_return (ResetStream id error_code final_size))))
      else if t = FT_STOP_SENDING then
        cur_bind cur_vi (\<lambda>id. cur_bind cur_vi (\<lambda>error_code. cur_return (StopSending id error_code)))
      else if t = FT_NEW_TOKEN then
        cur_bind cur_vi (\<lambda>len. cur_bind (cur_check (len \<noteq> 0)) (\<lambda>_. cur_bind (cur_take len) (\<lambda>_.
        cur_return (OtherFrame t))))
      else if t = FT_DATA_BLOCKED then skip_vi 1 t
      else if t = FT_STREAM_DATA_BLOCKED then skip_vi 2 t
      else if t = FT_STREAMS_BLOCKED_BIDI \<or> t = FT_STREAMS_BLOCKED_UNI then skip_vi 1 t
      else if t = FT_NEW_CONNECTION_ID then parse_new_connection_id t
      else if t = FT_RETIRE_CONNECTION_ID then skip_vi 1 t
      else if t = FT_PATH_CHALLENGE then cur_bind (cur_take 8) (\<lambda>d. cur_return (PathChallenge d))
      else if t = FT_PATH_RESPONSE then cur_bind (cur_take 8) (\<lambda>d. cur_return (PathResponse d))
      else (\<lambda>buf. None))"

definition parse_frame :: "quic_frame cursor" where
  "parse_frame = cur_bind cur_vi parse_frame_body"

text \<open>The outer loop; the counter is the number of frames that may still be read.\<close>

fun parse_frames_loop :: "nat \<Rightarrow> bytes \<Rightarrow> quic_frame list option" where
  "parse_frames_loop room [] = Some []"
| "parse_frames_loop 0 (b # buf) = None"
| "parse_frames_loop (Suc room) (b # buf) =
     (case parse_frame (b # buf) of None \<Rightarrow> None
      | Some (f, rest) \<Rightarrow> map_option ((#) f) (parse_frames_loop room rest))"

definition parse_frames :: "bytes \<Rightarrow> quic_frame list option" where
  "parse_frames buf = parse_frames_loop MAX_PARSED_FRAMES buf"

fun encode_frame :: "quic_frame \<Rightarrow> bytes" where
  "encode_frame (Padding n) = replicate n 0"
| "encode_frame Ping = varint_write FT_PING"
| "encode_frame HandshakeDone = varint_write FT_HANDSHAKE_DONE"
| "encode_frame (Crypto offset data) =
     varint_write FT_CRYPTO @ varint_write offset @ varint_write (length data) @ data"
| "encode_frame (Stream sid offset fin data) =
     (let t = FT_STREAM OR 0x02;
          t = (if offset \<noteq> 0 then t OR 0x04 else t);
          t = (if fin then t OR 0x01 else t)
      in varint_write t @ varint_write sid @ (if offset \<noteq> 0 then varint_write offset else []) @
         varint_write (length data) @ data)"
| "encode_frame (ResetStream sid error_code final_size) =
     varint_write FT_RESET_STREAM @ varint_write sid @ varint_write error_code @ varint_write final_size"
| "encode_frame (StopSending sid error_code) =
     varint_write FT_STOP_SENDING @ varint_write sid @ varint_write error_code"
| "encode_frame (Ack largest delay first_range ranges) =
     varint_write FT_ACK @ varint_write largest @ varint_write delay @ varint_write (length ranges) @
     varint_write first_range @ concat (map (\<lambda>(gap, len). varint_write gap @ varint_write len) ranges)"
| "encode_frame (MaxData v) = varint_write FT_MAX_DATA @ varint_write v"
| "encode_frame (MaxStreamData sid mx) = varint_write FT_MAX_STREAM_DATA @ varint_write sid @ varint_write mx"
| "encode_frame (MaxStreams uni mx) =
     varint_write (if uni then FT_MAX_STREAMS_UNI else FT_MAX_STREAMS_BIDI) @ varint_write mx"
| "encode_frame (ConnectionClose error_code frame_type reason) =
     varint_write (if frame_type \<noteq> None then FT_CONNECTION_CLOSE else FT_CONNECTION_CLOSE_APP) @
     varint_write error_code @ (case frame_type of Some ft \<Rightarrow> varint_write ft | None \<Rightarrow> []) @
     varint_write (length reason) @ reason"
| "encode_frame (PathChallenge d) = varint_write FT_PATH_CHALLENGE @ d"
| "encode_frame (PathResponse d) = varint_write FT_PATH_RESPONSE @ d"
| "encode_frame (OtherFrame t) = []"

end
