(* ===== verification/QuicCodec.thy ===== *)
theory QuicCodec
  imports QuicFrame
begin

text \<open>
  What the QUIC frame parser of \<open>QuicFrame\<close> makes of encoded frames, and what it can return at all:
  values of at most 62 bits, bounded tables, and no more data than the packet has.
\<close>

section \<open>Integers\<close>

lemma or_is_add: "x < 2 ^ k \<Longrightarrow> push_bit k a OR x = a * 2 ^ k + x" for x :: nat
proof -
  assume "x < 2 ^ k"
  then have "take_bit k x = x" by (simp add: take_bit_nat_eq_self_iff)
  then have "push_bit k a AND x = push_bit k a AND take_bit k x" by simp
  also have "\<dots> = 0" by (rule bit_eqI) (auto simp: bit_simps)
  finally show ?thesis by (simp add: disjunctive_add_eq_or [symmetric] push_bit_eq_mult)
qed

lemma foldl_be_value: "foldl (\<lambda>acc b. acc * 256 + unat b) c bs = c * 256 ^ length bs + be_value bs"
proof (induction bs rule: rev_induct)
  case (snoc b bs)
  then show ?case by (simp add: be_value_snoc algebra_simps)
qed (simp add: be_value_def)

lemma be_value_Cons: "be_value (b # bs) = unat b * 256 ^ length bs + be_value bs"
  using foldl_be_value [of "unat b" bs] by (simp add: be_value_def)

lemma be_value_lt: "be_value bs < 256 ^ length bs"
proof (induction bs)
  case (Cons b bs)
  have "unat b * 256 ^ length bs + be_value bs < (unat b + 1) * 256 ^ length bs" using Cons by simp
  also have "\<dots> \<le> 256 * 256 ^ length bs" using unat_u8_lt [of b] by (intro mult_right_mono; linarith)
  finally show ?case by (simp add: be_value_Cons)
qed (simp add: be_value_def)

lemma varint_loop_value:
  "length bs = n \<Longrightarrow> varint_loop n val (bs @ rest) = Some (val * 256 ^ n + be_value bs)"
proof (induction n arbitrary: val bs)
  case (Suc n)
  then obtain b bs' where "bs = b # bs'" "length bs' = n" by (cases bs) auto
  with Suc.IH [of bs'] show ?case by (simp add: or_is_add [of _ 8, simplified] be_value_Cons algebra_simps)
qed (simp add: be_value_def)

lemma first_byte: "unat (drop_bit 6 b) = unat b div 64" "unat (b AND 0x3f) = unat b mod 64" for b :: u8
proof -
  have "b AND 0x3f = take_bit 6 b" by (simp add: take_bit_eq_mask mask_eq_exp_minus_1)
  then show "unat (b AND 0x3f) = unat b mod 64" by (simp only: unsigned_take_bit_eq) (simp add: take_bit_eq_mod)
  show "unat (drop_bit 6 b) = unat b div 64" by (simp only: unsigned_drop_bit_eq) (simp add: drop_bit_eq_div take_bit_nat_eq_self)
qed

lemma varint_bytes:
  assumes "v < 64 * 256 ^ n" and "k < 4" and "Suc n = 2 ^ k"
  shows "varint_read (be_bytes (Suc n) (k * 64 * 256 ^ n + v) @ rest) = Some (v, Suc n)"
proof -
  let ?w = "k * 64 * 256 ^ n + v"
  obtain b bs where b: "be_bytes (Suc n) ?w = b # bs" "length bs = n"
    using length_be_bytes [of "Suc n" ?w] by (cases "be_bytes (Suc n) ?w") (auto simp del: be_bytes.simps)
  have "?w < 256 * 256 ^ n"
  proof -
    have "?w < (k + 1) * 64 * 256 ^ n" using assms(1) by (simp add: algebra_simps)
    also have "\<dots> \<le> 256 * 256 ^ n" using assms(2) by (intro mult_right_mono) simp_all
    finally show ?thesis .
  qed
  then have w: "unat b * 256 ^ n + be_value bs = ?w"
    using be_value_be_bytes [of "Suc n" ?w] b be_value_Cons [of b bs] by simp
  have lt: "be_value bs < 256 ^ n" using be_value_lt [of bs] b(2) by simp
  have ub: "unat b = ?w div 256 ^ n" using arg_cong [OF w, of "\<lambda>x. x div 256 ^ n"] lt by simp
  also have "\<dots> = k * 64 + v div 256 ^ n" by (simp add: div_mult_self3 mult.commute)
  finally have ub: "unat b = k * 64 + v div 256 ^ n" .
  have q: "v div 256 ^ n < 64" using assms(1) by (simp add: div_less_iff_less_mult)
  have bv: "be_value bs = v mod 256 ^ n" using arg_cong [OF w, of "\<lambda>x. x mod 256 ^ n"] lt by simp
  have "unat b div 64 = k" "unat b mod 64 = v div 256 ^ n" using ub q by simp_all
  moreover have "2 ^ k - Suc 0 = n" using assms(3) by simp
  ultimately show ?thesis
    using b varint_loop_value [OF b(2), of "v div 256 ^ n" rest] bv assms(3)
    by (simp add: varint_read_def first_byte push_bit_eq_mult Let_def div_mult_mod_eq)
qed

lemma varint_write_cases:
  assumes "v < 2 ^ 62"
  obtains k n where "varint_write v = be_bytes (Suc n) (k * 64 * 256 ^ n + v)" "v < 64 * 256 ^ n" "k < 4"
    "Suc n = 2 ^ k" "varint_len v = Suc n"
proof -
  consider "v < 2 ^ 6" | "2 ^ 6 \<le> v" "v < 2 ^ 14" | "2 ^ 14 \<le> v" "v < 2 ^ 30" | "2 ^ 30 \<le> v" by linarith
  then show ?thesis
  proof cases
    case 1
    then show ?thesis by (intro that [of 0 0]) (simp_all add: varint_write_def varint_len_def)
  next
    case 2
    have "v OR 0x4000 = 1 * 64 * 256 ^ 1 + v" using or_is_add [OF 2(2), of 1] by (simp add: or.commute)
    moreover have "be_bytes (Suc 1) x = be_bytes 2 x" for x by (simp only: Suc_1)
    ultimately have "varint_write v = be_bytes (Suc 1) (1 * 64 * 256 ^ 1 + v)"
      using 2 by (simp add: varint_write_def del: be_bytes.simps)
    with 2 show ?thesis by (intro that [of 1 1]) (simp_all add: varint_len_def del: be_bytes.simps)
  next
    case 3
    have "v OR 0x80000000 = 2 * 64 * 256 ^ 3 + v" using or_is_add [OF 3(2), of 2] by (simp add: or.commute)
    then have "varint_write v = be_bytes (Suc 3) (2 * 64 * 256 ^ 3 + v)"
      using 3 by (simp add: varint_write_def del: be_bytes.simps)
    with 3 show ?thesis by (intro that [of 3 2]) (simp_all add: varint_len_def del: be_bytes.simps)
  next
    case 4
    have "v OR 0xc000000000000000 = 3 * 64 * 256 ^ 7 + v" using or_is_add [OF assms, of 3] by (simp add: or.commute)
    then have "varint_write v = be_bytes (Suc 7) (3 * 64 * 256 ^ 7 + v)"
      using 4 by (simp add: varint_write_def del: be_bytes.simps)
    with 4 assms show ?thesis by (intro that [of 7 3]) (simp_all add: varint_len_def del: be_bytes.simps)
  qed
qed

lemma varint_roundtrip:
  assumes "v < 2 ^ 62"
  shows "varint_read (varint_write v @ rest) = Some (v, varint_len v)" "length (varint_write v) = varint_len v"
proof -
  obtain k n where k: "varint_write v = be_bytes (Suc n) (k * 64 * 256 ^ n + v)" "v < 64 * 256 ^ n" "k < 4"
    "Suc n = 2 ^ k" "varint_len v = Suc n" by (rule varint_write_cases [OF assms])
  show "varint_read (varint_write v @ rest) = Some (v, varint_len v)"
    unfolding k(1,5) by (rule varint_bytes [OF k(2-4)])
  show "length (varint_write v) = varint_len v" unfolding k(1,5) by (rule length_be_bytes)
qed

section \<open>Reading what was written\<close>

lemma cur_eval:
  "cur_bind m f buf = (case m buf of None \<Rightarrow> None | Some (x, rest) \<Rightarrow> f x rest)"
  "cur_return x buf = Some (x, buf)" "cur_check b buf = (if b then Some ((), buf) else None)"
  "v < 2 ^ 62 \<Longrightarrow> cur_vi (varint_write v @ rest) = Some (v, rest)"
  "cur_take (length bs) (bs @ rest) = Some (bs, rest)"
  "n = length bs \<Longrightarrow> cur_take n (bs @ rest) = Some (bs, rest)"
  by (simp_all add: cur_bind_def cur_return_def cur_check_def cur_vi_def varint_roundtrip cur_take_def)

lemma ranges_eval:
  "\<forall>(gap, len) \<in> set rs. gap < 2 ^ 62 \<and> len < 2 ^ 62 \<Longrightarrow>
   cur_ranges (length rs) (concat (map (\<lambda>(gap, len). varint_write gap @ varint_write len) rs) @ rest) = Some (rs, rest)"
proof (induction rs)
  case (Cons r rs)
  obtain gap len where r: "r = (gap, len)" by (cases r)
  with Cons show ?case by (simp add: cur_eval)
qed (simp add: cur_eval)

text \<open>
  Frames that can be sent: values of at most 62 bits, tables within their limits, eight bytes of path
  data, padding of at least one byte. \<open>OtherFrame\<close> is what the parser skips; it is never written.
\<close>

abbreviation vi_ok :: "nat \<Rightarrow> bool" where
  "vi_ok v \<equiv> v < 2 ^ 62"

fun frame_ok :: "quic_frame \<Rightarrow> bool" where
  "frame_ok (Padding n) = (0 < n)"
| "frame_ok Ping = True"
| "frame_ok (Ack largest delay first_range ranges) =
     (vi_ok largest \<and> vi_ok delay \<and> vi_ok first_range \<and> length ranges \<le> MAX_PARSED_ACK_RANGES \<and>
      (\<forall>(gap, len) \<in> set ranges. vi_ok gap \<and> vi_ok len))"
| "frame_ok (Crypto offset data) = (vi_ok offset \<and> vi_ok (length data))"
| "frame_ok (Stream sid offset fin data) = (vi_ok sid \<and> vi_ok offset \<and> vi_ok (length data))"
| "frame_ok (ResetStream sid error_code final_size) = (vi_ok sid \<and> vi_ok error_code \<and> vi_ok final_size)"
| "frame_ok (StopSending sid error_code) = (vi_ok sid \<and> vi_ok error_code)"
| "frame_ok (MaxData v) = vi_ok v"
| "frame_ok (MaxStreamData sid mx) = (vi_ok sid \<and> vi_ok mx)"
| "frame_ok (MaxStreams uni mx) = vi_ok mx"
| "frame_ok (ConnectionClose error_code frame_type reason) =
     (vi_ok error_code \<and> (case frame_type of None \<Rightarrow> True | Some ft \<Rightarrow> vi_ok ft) \<and> vi_ok (length reason))"
| "frame_ok HandshakeDone = True"
| "frame_ok (PathChallenge d) = (length d = 8)"
| "frame_ok (PathResponse d) = (length d = 8)"
| "frame_ok (OtherFrame t) = False"

fun is_padding :: "quic_frame \<Rightarrow> bool" where
  "is_padding (Padding n) = True"
| "is_padding f = False"

lemma parse_encoded:
  assumes "frame_ok f" and "\<not> is_padding f"
  shows "parse_frame (encode_frame f @ rest) = Some (f, rest)"
  using assms
proof (cases f)
  case (Ack largest delay first_range ranges)
  with assms show ?thesis
    by (simp add: parse_frame_def parse_frame_body_def parse_ack_def MAX_PARSED_ACK_RANGES_def cur_eval ranges_eval)
next
  case (Stream sid offset fin data)
  with assms show ?thesis
    by (cases "offset = 0"; cases fin) (simp_all add: parse_frame_def parse_frame_body_def parse_stream_def cur_eval Let_def)
next
  case (ConnectionClose error_code frame_type reason)
  with assms show ?thesis
    by (cases frame_type) (simp_all add: parse_frame_def parse_frame_body_def parse_close_def cur_eval)
next
  case (MaxStreams uni mx)
  with assms show ?thesis by (cases uni) (simp_all add: parse_frame_def parse_frame_body_def cur_eval)
qed (simp_all add: parse_frame_def parse_frame_body_def cur_eval)

lemma small_type: "0 < t \<Longrightarrow> t < 64 \<Longrightarrow> \<exists>b. varint_write t = [b] \<and> b \<noteq> 0"
  by (auto simp: varint_write_def word_of_nat_eq_0_iff dest: dvd_imp_le)

lemma encoded_type: "\<not> is_padding f \<Longrightarrow> frame_ok f \<Longrightarrow> \<exists>t bs. encode_frame f = varint_write t @ bs \<and> 0 < t \<and> t < 64"
proof (cases f)
  case (Stream sid offset fin data)
  then show ?thesis by (cases "offset = 0"; cases fin) (auto simp: Let_def)
next
  case (MaxStreams uni mx)
  then show ?thesis by (cases uni) auto
next
  case (ConnectionClose error_code frame_type reason)
  then show ?thesis by (cases frame_type) auto
next
  case Ping
  then show ?thesis by (intro exI [of _ 1] exI [of _ "[]"]) simp
next
  case HandshakeDone
  then show ?thesis by (intro exI [of _ "0x1e"] exI [of _ "[]"]) simp
qed auto

lemma encoded_start:
  assumes "frame_ok f" and "\<not> is_padding f"
  obtains b bs where "encode_frame f = b # bs" "b \<noteq> 0"
proof -
  obtain t bs where t: "encode_frame f = varint_write t @ bs" "0 < t" "t < 64" using encoded_type [OF assms(2,1)] by blast
  obtain b where "varint_write t = [b]" "b \<noteq> 0" using small_type [OF t(2,3)] by blast
  with t(1) show ?thesis by (intro that [of b bs]) simp_all
qed

lemma encoded_nonempty: "frame_ok f \<Longrightarrow> encode_frame f \<noteq> []"
proof (cases "is_padding f")
  case True
  then show "frame_ok f \<Longrightarrow> encode_frame f \<noteq> []" by (cases f) auto
next
  case False
  assume "frame_ok f"
  from this False obtain b bs where "encode_frame f = b # bs" by (rule encoded_start)
  then show "encode_frame f \<noteq> []" by simp
qed

fun padding_apart :: "quic_frame list \<Rightarrow> bool" where
  "padding_apart (f # g # fs) \<longleftrightarrow> \<not> (is_padding f \<and> is_padding g) \<and> padding_apart (g # fs)"
| "padding_apart fs \<longleftrightarrow> True"

lemma parse_padding:
  assumes "0 < n" and "\<And>b bs. rest = b # bs \<Longrightarrow> b \<noteq> 0"
  shows "parse_frame (replicate n 0 @ rest) = Some (Padding n, rest)"
proof -
  obtain k where n: "n = Suc k" using assms(1) by (cases n) auto
  have "cur_vi (0 # replicate k 0 @ rest) = Some (0, replicate k 0 @ rest)"
    using cur_eval(4) [of 0 "replicate k 0 @ rest"] by (simp add: varint_write_def)
  moreover have "takeWhile (\<lambda>b. b = 0) (replicate k 0 @ rest) = replicate k 0"
    using assms(2) by (cases rest) (simp_all add: takeWhile_append)
  ultimately show ?thesis by (simp add: n parse_frame_def parse_frame_body_def cur_padding_def cur_eval Let_def)
qed

lemma parse_frames_encoded:
  assumes "list_all frame_ok fs" and "padding_apart fs" and "length fs \<le> room"
  shows "parse_frames_loop room (concat (map encode_frame fs)) = Some fs"
  using assms
proof (induction fs arbitrary: room)
  case (Cons f fs)
  let ?rest = "concat (map encode_frame fs)"
  obtain r where room: "room = Suc r" using Cons.prems(3) by (cases room) auto
  have "padding_apart fs" using Cons.prems(2) by (cases fs) auto
  then have IH: "parse_frames_loop r ?rest = Some fs" using Cons room by simp
  have "parse_frame (encode_frame f @ ?rest) = Some (f, ?rest)"
  proof (cases "is_padding f")
    case False
    then show ?thesis using parse_encoded Cons.prems(1) by simp
  next
    case True
    then obtain n where n: "f = Padding n" by (cases f) auto
    have "b \<noteq> 0" if "?rest = b # bs" for b bs
    proof (cases fs)
      case (Cons g gs)
      then have "frame_ok g" "\<not> is_padding g" using Cons.prems True by auto
      then obtain c cs where "encode_frame g = c # cs" "c \<noteq> 0" by (rule encoded_start)
      then show ?thesis using that Cons by simp
    qed (use that in simp)
    then show ?thesis using parse_padding [of n ?rest] n Cons.prems(1) by simp
  qed
  moreover obtain b bs where "encode_frame f @ ?rest = b # bs"
    using encoded_nonempty [of f] Cons.prems(1) by (cases "encode_frame f") auto
  ultimately show ?case using room IH by simp
qed simp

section \<open>What is read\<close>

lemma cur_bind_Some: "cur_bind m f buf = Some (y, r) \<longleftrightarrow> (\<exists>x mid. m buf = Some (x, mid) \<and> f x mid = Some (y, r))"
  by (auto simp: cur_bind_def split: option.splits)

lemma varint_loop_bound:
  "varint_loop n val buf = Some v \<Longrightarrow> n \<le> length buf \<and> v < (val + 1) * 256 ^ n"
proof (induction n val buf rule: varint_loop.induct)
  case (3 n val b buf)
  then have "n \<le> length buf \<and> v < (val * 256 + unat b + 1) * 256 ^ n"
    by (simp add: or_is_add [of _ 8, simplified])
  moreover have "(val * 256 + unat b + 1) * 256 ^ n \<le> ((val + 1) * 256) * 256 ^ n"
    using unat_u8_lt [of b] by (intro mult_le_mono1) (simp add: Suc_leI)
  ultimately have "n \<le> length buf \<and> v < ((val + 1) * 256) * 256 ^ n" by linarith
  then show ?case by (simp add: algebra_simps)
qed simp_all

lemma varint_read_bound:
  assumes "varint_read buf = Some (v, n)"
  shows "v < 2 ^ 62" "0 < n" "n \<le> length buf"
proof -
  from assms obtain first rest where buf: "buf = first # rest" by (auto simp: varint_read_def split: list.splits)
  let ?k = "unat first div 64"
  from assms buf have n: "n = 2 ^ ?k" and l: "varint_loop (n - 1) (unat first mod 64) rest = Some v"
    by (auto simp: varint_read_def first_byte Let_def push_bit_eq_mult)
  note b = varint_loop_bound [OF l]
  show "0 < n" "n \<le> length buf" using n b buf by auto
  have k: "?k < 4" using unat_u8_lt [of first] by linarith
  then have "n - 1 \<le> 7" using n power_increasing [of ?k 3 "2 :: nat"] by simp
  then have "(unat first mod 64 + 1) * 256 ^ (n - 1) \<le> 64 * 256 ^ 7"
    by (intro mult_mono power_increasing) (simp_all add: Suc_leI)
  with b show "v < 2 ^ 62" by simp
qed

lemma cur_vi_bound: "cur_vi buf = Some (v, rest) \<Longrightarrow> v < 2 ^ 62 \<and> length rest < length buf"
  using varint_read_bound by (fastforce simp: cur_vi_def)

lemma cur_take_bound: "cur_take n buf = Some (d, rest) \<Longrightarrow> length d = n \<and> length buf = n + length rest"
  by (auto simp: cur_take_def split: if_splits)

lemma cur_simple_bound:
  "cur_return x buf = Some (y, rest) \<longleftrightarrow> y = x \<and> rest = buf" "cur_check c buf = Some (u, rest) \<longleftrightarrow> c \<and> rest = buf"
  "cur_rest buf = Some (d, rest) \<longleftrightarrow> d = buf \<and> rest = []"
  by (auto simp: cur_return_def cur_check_def cur_rest_def)

lemma cur_byte_bound: "cur_byte buf = Some (b, rest) \<Longrightarrow> length buf = Suc (length rest)"
  by (auto simp: cur_byte_def split: list.splits)

lemma cur_padding_bound: "cur_padding buf = Some (n, rest) \<Longrightarrow> 0 < n \<and> n + length rest = Suc (length buf)"
  using length_takeWhile_le [of "\<lambda>b. b = 0" buf] by (auto simp: cur_padding_def Let_def)

lemma cur_ranges_bound:
  "cur_ranges n buf = Some (rs, rest) \<Longrightarrow>
   length rs = n \<and> 2 * n + length rest \<le> length buf \<and> (\<forall>(gap, len) \<in> set rs. gap < 2 ^ 62 \<and> len < 2 ^ 62)"
proof (induction n arbitrary: buf rs)
  case (Suc n)
  then obtain gap b1 len b2 rs' where p: "cur_vi buf = Some (gap, b1)" "cur_vi b1 = Some (len, b2)"
      "cur_ranges n b2 = Some (rs', rest)" "rs = (gap, len) # rs'"
    by (auto simp: cur_bind_Some cur_simple_bound)
  from cur_vi_bound [OF p(1)] cur_vi_bound [OF p(2)] Suc.IH [OF p(3)] p(4) show ?case by auto
qed (simp add: cur_simple_bound)

text \<open>What a frame holds, in units of at least one byte of input.\<close>

fun frame_weight :: "quic_frame \<Rightarrow> nat" where
  "frame_weight (Padding n) = n"
| "frame_weight (Ack largest delay first_range ranges) = 2 * length ranges + 1"
| "frame_weight (Crypto offset data) = length data + 1"
| "frame_weight (Stream sid offset fin data) = length data + 1"
| "frame_weight (ConnectionClose error_code frame_type reason) = length reason + 1"
| "frame_weight (PathChallenge d) = length d + 1"
| "frame_weight (PathResponse d) = length d + 1"
| "frame_weight f = 1"

lemmas cur_bounds = cur_vi_bound cur_padding_bound cur_take_bound cur_byte_bound cur_ranges_bound

lemma parse_frame_bound:
  assumes "parse_frame buf = Some (f, rest)" and "length buf < 2 ^ 62"
  shows "(frame_ok f \<or> (\<exists>t. f = OtherFrame t)) \<and> frame_weight f + length rest \<le> length buf"
proof -
  from assms(1) obtain t b1 where t: "cur_vi buf = Some (t, b1)" and p: "parse_frame_body t b1 = Some (f, rest)"
    by (auto simp: parse_frame_def cur_bind_Some)
  show ?thesis
    using cur_vi_bound [OF t] p assms(2)
    unfolding parse_frame_body_def parse_ack_def parse_stream_def parse_close_def parse_new_connection_id_def skip_vi_def Let_def
    by (auto simp: cur_bind_Some cur_simple_bound MAX_PARSED_ACK_RANGES_def split: if_splits dest!: cur_bounds)
qed

lemma parse_frames_bound:
  assumes "parse_frames_loop room buf = Some fs" and "length buf < 2 ^ 62"
  shows "length fs \<le> room \<and> (\<forall>f \<in> set fs. frame_ok f \<or> (\<exists>t. f = OtherFrame t)) \<and>
    sum_list (map frame_weight fs) \<le> length buf"
  using assms
proof (induction room buf arbitrary: fs rule: parse_frames_loop.induct)
  case (3 room b buf)
  from 3(2) obtain f rest gs where p: "parse_frame (b # buf) = Some (f, rest)"
      and g: "parse_frames_loop room rest = Some gs" "fs = f # gs"
    by (auto split: option.splits)
  note f = parse_frame_bound [OF p 3(3)]
  then have "length rest < 2 ^ 62" using 3(3) by linarith
  from 3(1) [OF p refl g(1) this] f g(2) show ?case by auto
qed auto

end
