(* ===== verification/QuicPacket.thy ===== *)
theory QuicPacket
  imports QuicCodec
begin

text \<open>
  QUIC packet protection, \<open>onetdns-quic/src/packet.rs\<close> and the nonce of \<open>protect.rs\<close>. The ciphers come from
  other crates and are the record \<open>aead_suite\<close>, of which only \<open>aead_ok\<close> is used: what was sealed opens
  again, sealing adds sixteen bytes, and a header mask has five.
  As in \<open>QuicFrame\<close>, positions in a packet are represented by the bytes in front of them.
\<close>

section \<open>Ciphers\<close>

datatype aead = Aes128Gcm | Aes256Gcm | ChaCha20Poly1305

record aead_suite =
  as_encrypt :: "aead \<Rightarrow> bytes \<Rightarrow> bytes \<Rightarrow> bytes \<Rightarrow> bytes \<Rightarrow> bytes"
  as_decrypt :: "aead \<Rightarrow> bytes \<Rightarrow> bytes \<Rightarrow> bytes \<Rightarrow> bytes \<Rightarrow> bytes option"
  as_header_mask :: "aead \<Rightarrow> bytes \<Rightarrow> bytes \<Rightarrow> bytes"

definition aead_ok :: "aead_suite \<Rightarrow> bool" where
  "aead_ok s \<longleftrightarrow>
     (\<forall>a key nonce aad m. as_decrypt s a key nonce aad (as_encrypt s a key nonce aad m) = Some m) \<and>
     (\<forall>a key nonce aad m. length (as_encrypt s a key nonce aad m) = length m + 16) \<and>
     (\<forall>a hp sample. length (as_header_mask s a hp sample) = 5)"

record packet_keys =
  pk_key :: bytes
  pk_iv :: bytes
  pk_hp :: bytes

definition aead_nonce :: "bytes \<Rightarrow> u64 \<Rightarrow> bytes" where
  "aead_nonce iv pn = take 4 iv @ map2 (XOR) (take 8 (drop 4 iv)) (be_bytes 8 (unat pn))"

definition aead_seal :: "aead_suite \<Rightarrow> aead \<Rightarrow> bytes \<Rightarrow> bytes \<Rightarrow> u64 \<Rightarrow> bytes \<Rightarrow> bytes \<Rightarrow> bytes" where
  "aead_seal s a key iv pn aad plaintext = as_encrypt s a key (aead_nonce iv pn) aad plaintext"

definition aead_open :: "aead_suite \<Rightarrow> aead \<Rightarrow> bytes \<Rightarrow> bytes \<Rightarrow> u64 \<Rightarrow> bytes \<Rightarrow> bytes \<Rightarrow> bytes option" where
  "aead_open s a key iv pn aad ciphertext = as_decrypt s a key (aead_nonce iv pn) aad ciphertext"

section \<open>Packet numbers\<close>

definition decode_pn :: "u64 \<Rightarrow> u64 \<Rightarrow> nat \<Rightarrow> u64" where
  "decode_pn largest_pn truncated pn_nbits =
     (let pn_win = push_bit pn_nbits 1;
          pn_hwin = pn_win div 2;
          pn_mask = pn_win - 1;
          expected = largest_pn + 1;
          candidate = (expected AND NOT pn_mask) OR truncated
      in if candidate + pn_hwin \<le> expected \<and> candidate + pn_win < push_bit 62 1 then candidate + pn_win
         else if candidate > expected + pn_hwin \<and> candidate \<ge> pn_win then candidate - pn_win
         else candidate)"

section \<open>Headers\<close>

definition VERSION_1 :: u32 where "VERSION_1 = 1"
definition INITIAL :: u8 where "INITIAL = 0"
definition ZERO_RTT :: u8 where "ZERO_RTT = 1"
definition HANDSHAKE :: u8 where "HANDSHAKE = 2"
definition RETRY :: u8 where "RETRY = 3"

record long_packet =
  lp_ptype :: u8
  lp_version :: u32
  lp_dcid :: bytes
  lp_scid :: bytes
  lp_token :: bytes
  lp_pn :: u64
  lp_payload :: bytes
  lp_consumed :: nat

record short_packet =
  sp_dcid :: bytes
  sp_pn :: u64
  sp_payload :: bytes

text \<open>\<open>slice.get(a..b)\<close>.\<close>

definition get_range :: "bytes \<Rightarrow> nat \<Rightarrow> nat \<Rightarrow> bytes option" where
  "get_range xs a b = (if a \<le> b \<and> b \<le> length xs then Some (slice xs a b) else None)"

definition destination_connection_id :: "bytes \<Rightarrow> nat \<Rightarrow> bytes option" where
  "destination_connection_id pkt short_cid_len =
     (case pkt of [] \<Rightarrow> None
      | first # _ \<Rightarrow>
          if first AND 0x40 = 0 then None
          else if first AND 0x80 \<noteq> 0 then
            (if length pkt < 6 then None
             else let len = unat (pkt ! 5) in if len > 20 then None else get_range pkt 6 (6 + len))
          else (if short_cid_len = 0 \<or> short_cid_len > 20 then None else get_range pkt 1 (1 + short_cid_len)))"

definition is_initial_packet :: "bytes \<Rightarrow> bool" where
  "is_initial_packet pkt \<longleftrightarrow>
     (case pkt of [] \<Rightarrow> False | first # _ \<Rightarrow> first AND 0xc0 = 0xc0 \<and> drop_bit 4 (first AND 0x30) = INITIAL) \<and>
     get_range pkt 1 5 = Some (u32_to_be_bytes VERSION_1)"

record long_header =
  lh_ptype :: u8
  lh_version :: u32
  lh_dcid :: bytes
  lh_scid :: bytes
  lh_token :: bytes
  lh_pn_offset :: nat
  lh_end :: nat

definition cid_field :: "bytes cursor" where
  "cid_field = cur_bind cur_byte (\<lambda>len. cur_bind (cur_check (\<not> unat len > 20)) (\<lambda>_. cur_take (unat len)))"

definition token_field :: "u8 \<Rightarrow> bytes cursor" where
  "token_field ptype_val =
     (if ptype_val = INITIAL
      then cur_bind cur_vi (\<lambda>tl. cur_bind (cur_check (\<not> tl > 256)) (\<lambda>_. cur_take tl))
      else cur_return [])"

definition long_fields :: "(u8 \<times> u32 \<times> bytes \<times> bytes \<times> bytes \<times> nat) cursor" where
  "long_fields =
     cur_bind cur_byte (\<lambda>first.
     cur_bind (cur_check (first AND 0x80 \<noteq> 0)) (\<lambda>_.
     let ptype_val = drop_bit 4 (first AND 0x30) in
     cur_bind (cur_check (ptype_val \<noteq> RETRY)) (\<lambda>_.
     cur_bind (cur_take 4) (\<lambda>version.
     cur_bind cid_field (\<lambda>dcid. cur_bind cid_field (\<lambda>scid.
     cur_bind (token_field ptype_val) (\<lambda>token. cur_bind cur_vi (\<lambda>len.
     cur_return (ptype_val, u32_from_be_bytes version, dcid, scid, token, len)))))))))"

definition parse_long_header :: "bytes \<Rightarrow> long_header option" where
  "parse_long_header pkt =
     (case long_fields pkt of None \<Rightarrow> None
      | Some ((ptype_val, version, dcid, scid, token, len), rest) \<Rightarrow>
          (let pos = length pkt - length rest; fin = pos + len
           in if fin > length pkt then None
              else Some \<lparr>lh_ptype = ptype_val, lh_version = version, lh_dcid = dcid, lh_scid = scid, lh_token = token,
                         lh_pn_offset = pos, lh_end = fin\<rparr>))"

definition long_packet_len :: "bytes \<Rightarrow> nat option" where
  "long_packet_len pkt = map_option lh_end (parse_long_header pkt)"

section \<open>Protection\<close>

text \<open>The loops that put the mask on the first byte and the packet number.\<close>

fun xor_loop :: "bytes \<Rightarrow> nat \<Rightarrow> nat \<Rightarrow> bytes \<Rightarrow> bytes" where
  "xor_loop hmask off 0 pkt = pkt"
| "xor_loop hmask off (Suc n) pkt =
     (let pkt = xor_loop hmask off n pkt in pkt[off + n := pkt ! (off + n) XOR hmask ! (1 + n)])"

definition mask_header :: "u8 \<Rightarrow> bytes \<Rightarrow> nat \<Rightarrow> nat \<Rightarrow> bytes \<Rightarrow> bytes" where
  "mask_header low hmask pn_offset pn_len pkt =
     xor_loop hmask pn_offset pn_len (pkt[0 := pkt ! 0 XOR (hmask ! 0 AND low)])"

text \<open>\<open>plaintext.resize(plaintext.len().max(4 - pn_len), 0)\<close>.\<close>

definition pad_payload :: "nat \<Rightarrow> bytes \<Rightarrow> bytes" where
  "pad_payload pn_len payload = payload @ replicate (4 - pn_len - length payload) 0"

definition protect_long ::
    "aead_suite \<Rightarrow> aead \<Rightarrow> packet_keys \<Rightarrow> u8 \<Rightarrow> bytes \<Rightarrow> bytes \<Rightarrow> bytes \<Rightarrow> u64 \<Rightarrow> nat \<Rightarrow> bytes \<Rightarrow> bytes" where
  "protect_long s a keys ptype_val dcid scid token pn pn_len payload =
     (if \<not> (1 \<le> pn_len \<and> pn_len \<le> 4) \<or> length dcid > 20 \<or> length scid > 20 \<or> length token > 256 then []
      else
       (let first = 0xc0 OR push_bit 4 ptype_val OR of_nat (pn_len - 1);
            plaintext = pad_payload pn_len payload;
            pkt = [first] @ u32_to_be_bytes VERSION_1 @ [of_nat (length dcid)] @ dcid @ [of_nat (length scid)] @ scid @
              (if ptype_val = INITIAL then varint_write (length token) @ token else []) @
              varint_write (pn_len + length plaintext + 16);
            pn_offset = length pkt;
            pkt = pkt @ drop (8 - pn_len) (be_bytes 8 (unat pn));
            ct = aead_seal s a (pk_key keys) (pk_iv keys) pn pkt plaintext;
            pkt = pkt @ ct;
            sample = slice pkt (pn_offset + 4) (pn_offset + 20);
            hmask = as_header_mask s a (pk_hp keys) sample
        in mask_header 0x0f hmask pn_offset pn_len pkt))"

definition protect_initial ::
    "aead_suite \<Rightarrow> aead \<Rightarrow> packet_keys \<Rightarrow> bytes \<Rightarrow> bytes \<Rightarrow> bytes \<Rightarrow> u64 \<Rightarrow> nat \<Rightarrow> bytes \<Rightarrow> bytes" where
  "protect_initial s a keys dcid scid token pn pn_len payload =
     protect_long s a keys INITIAL dcid scid token pn pn_len payload"

definition protect_short ::
    "aead_suite \<Rightarrow> aead \<Rightarrow> packet_keys \<Rightarrow> bytes \<Rightarrow> u64 \<Rightarrow> nat \<Rightarrow> bytes \<Rightarrow> bool \<Rightarrow> bytes" where
  "protect_short s a keys dcid pn pn_len payload key_phase =
     (if \<not> (1 \<le> pn_len \<and> pn_len \<le> 4) \<or> length dcid > 20 then []
      else
       (let first = 0x40 OR (if key_phase then 0x04 else 0) OR of_nat (pn_len - 1);
            pkt = [first] @ dcid;
            pn_offset = length pkt;
            pkt = pkt @ drop (8 - pn_len) (be_bytes 8 (unat pn));
            plaintext = pad_payload pn_len payload;
            ct = aead_seal s a (pk_key keys) (pk_iv keys) pn pkt plaintext;
            pkt = pkt @ ct;
            sample = slice pkt (pn_offset + 4) (pn_offset + 20);
            hmask = as_header_mask s a (pk_hp keys) sample
        in mask_header 0x1f hmask pn_offset pn_len pkt))"

section \<open>Removing protection\<close>

fun unmask_loop :: "bytes \<Rightarrow> nat \<Rightarrow> nat \<Rightarrow> bytes \<Rightarrow> (u64 \<times> bytes) option" where
  "unmask_loop pkt off 0 hmask = Some (0, [])"
| "unmask_loop pkt off (Suc n) hmask =
     (case unmask_loop pkt off n hmask of None \<Rightarrow> None
      | Some (truncated, pn_bytes) \<Rightarrow>
          if off + n < length pkt
          then (let b = pkt ! (off + n) XOR hmask ! (1 + n)
                in Some (push_bit 8 truncated OR ucast b, pn_bytes @ [b]))
          else None)"

definition unmask_pn :: "bytes \<Rightarrow> nat \<Rightarrow> nat \<Rightarrow> bytes \<Rightarrow> u64 \<Rightarrow> (u64 \<times> bytes) option" where
  "unmask_pn pkt pn_offset pn_len hmask largest_pn =
     map_option (\<lambda>(truncated, pn_bytes). (decode_pn largest_pn truncated (pn_len * 8), pn_bytes))
       (unmask_loop pkt pn_offset pn_len hmask)"

text \<open>The header as it was before protection: the additional data of the cipher.\<close>

definition unmasked_header :: "bytes \<Rightarrow> nat \<Rightarrow> u8 \<Rightarrow> bytes \<Rightarrow> bytes option" where
  "unmasked_header pkt pn_offset first pn_bytes =
     map_option (\<lambda>aad. take pn_offset (aad[0 := first]) @ pn_bytes) (get_range pkt 0 (pn_offset + length pn_bytes))"

definition unprotect_long :: "aead_suite \<Rightarrow> aead \<Rightarrow> packet_keys \<Rightarrow> bytes \<Rightarrow> u64 \<Rightarrow> long_packet option" where
  "unprotect_long s a keys pkt largest_pn =
     Option.bind (parse_long_header pkt) (\<lambda>h.
     let first0 = pkt ! 0; pn_offset = lh_pn_offset h in
     Option.bind (get_range pkt (pn_offset + 4) (pn_offset + 4 + 16)) (\<lambda>sample.
     let hmask = as_header_mask s a (pk_hp keys) sample;
         first = first0 XOR (hmask ! 0 AND 0x0f);
         pn_len = unat ((first AND 0x03) + 1) in
     Option.bind (unmask_pn pkt pn_offset pn_len hmask largest_pn) (\<lambda>(pn, pn_bytes).
     Option.bind (unmasked_header pkt pn_offset first pn_bytes) (\<lambda>aad.
     Option.bind (get_range pkt (pn_offset + pn_len) (lh_end h)) (\<lambda>ct.
     Option.bind (aead_open s a (pk_key keys) (pk_iv keys) pn aad ct) (\<lambda>payload.
     Some \<lparr>lp_ptype = lh_ptype h, lp_version = lh_version h, lp_dcid = lh_dcid h, lp_scid = lh_scid h,
           lp_token = lh_token h, lp_pn = pn, lp_payload = payload, lp_consumed = lh_end h\<rparr>))))))"

definition unprotect_initial :: "aead_suite \<Rightarrow> aead \<Rightarrow> packet_keys \<Rightarrow> bytes \<Rightarrow> (u64 \<times> bytes) option" where
  "unprotect_initial s a keys pkt =
     map_option (\<lambda>lp. (lp_pn lp, lp_payload lp)) (unprotect_long s a keys pkt 0)"

definition unprotect_short ::
    "aead_suite \<Rightarrow> aead \<Rightarrow> packet_keys \<Rightarrow> packet_keys option \<Rightarrow> bool \<Rightarrow> bytes \<Rightarrow> nat \<Rightarrow> u64 \<Rightarrow> (short_packet \<times> bool) option" where
  "unprotect_short s a keys alt_keys expected_phase pkt dcid_len largest_pn =
     (case pkt of [] \<Rightarrow> None
      | first0 # _ \<Rightarrow>
          if first0 AND 0x80 \<noteq> 0 then None
          else
            Option.bind (get_range pkt 1 (1 + dcid_len)) (\<lambda>dcid.
            let pn_offset = 1 + dcid_len in
            Option.bind (get_range pkt (pn_offset + 4) (pn_offset + 4 + 16)) (\<lambda>sample.
            let hmask = as_header_mask s a (pk_hp keys) sample;
                first = first0 XOR (hmask ! 0 AND 0x1f);
                pn_len = unat ((first AND 0x03) + 1);
                key_phase = (first AND 0x04 \<noteq> 0) in
            Option.bind (unmask_pn pkt pn_offset pn_len hmask largest_pn) (\<lambda>(pn, pn_bytes).
            Option.bind (unmasked_header pkt pn_offset first pn_bytes) (\<lambda>aad.
            Option.bind (get_range pkt (pn_offset + pn_len) (length pkt)) (\<lambda>ct.
            let phase_changed = (key_phase \<noteq> expected_phase) in
            Option.bind (if phase_changed then alt_keys else Some keys) (\<lambda>pk.
            Option.bind (aead_open s a (pk_key pk) (pk_iv pk) pn aad ct) (\<lambda>payload.
            Some (\<lparr>sp_dcid = dcid, sp_pn = pn, sp_payload = payload\<rparr>, phase_changed)))))))))"

end
