(* ===== verification/QuicProtect.thy ===== *)
theory QuicProtect
  imports QuicPacket
begin

text \<open>
  Packet numbers are restored from their low bytes when they are near what is expected, and a
  protected packet is read back as it was, with other packets behind it in the datagram.
\<close>

section \<open>Packet numbers\<close>

lemma unat_pow2: "k < 64 \<Longrightarrow> unat (2 ^ k :: u64) = 2 ^ k"
proof -
  assume "k < 64"
  then have "(2 :: nat) ^ k < 2 ^ 64" by (intro power_strict_increasing) simp_all
  then show ?thesis using unat_of_nat [where ?'a = 64, of "2 ^ k"] by simp
qed

lemma unat_sum: "unat a + unat b < 2 ^ 64 \<Longrightarrow> unat (a + b) = unat a + unat b" for a b :: u64
  by (simp add: unat_word_ariths)

lemma high_part:
  fixes e :: u64
  assumes "k < 64" and "unat t < 2 ^ k"
  shows "unat (e AND NOT (push_bit k 1 - 1) OR t) = unat e div 2 ^ k * 2 ^ k + unat t"
proof -
  have m: "push_bit k 1 - 1 = (mask k :: u64)" by (simp add: mask_eq_exp_minus_1 push_bit_eq_mult)
  have t: "take_bit k t = t" using assms(2) by (simp add: take_bit_word_self)
  have "e AND NOT (mask k) OR t = e AND NOT (mask k) OR take_bit k t" using t by simp
  also have "\<dots> = (e AND NOT (mask k)) + take_bit k t"
    by (rule disjunctive_add_eq_or [symmetric]) (rule bit_word_eqI, auto simp: bit_simps)
  finally have o: "e AND NOT (mask k) OR t = (e AND NOT (mask k)) + t" using t by simp
  have "e AND NOT (mask k) = push_bit k (drop_bit k e)"
    by (rule bit_word_eqI) (auto simp: bit_simps)
  with o have w: "e AND NOT (mask k) OR t = push_bit k (drop_bit k e) + t" by simp
  have lt: "unat e < 2 ^ 64" using unsigned_less [of e, where ?'a = nat] by simp
  have d: "unat (drop_bit k e) = unat e div 2 ^ k"
    using lt by (simp only: unsigned_drop_bit_eq) (simp add: drop_bit_eq_div take_bit_nat_eq_self)
  have le: "unat e div 2 ^ k * 2 ^ k \<le> unat e" by simp
  have p: "unat (push_bit k (drop_bit k e)) = unat e div 2 ^ k * 2 ^ k"
    using le_less_trans [OF le lt] by (simp add: push_bit_eq_mult unat_word_ariths d unat_pow2 [OF assms(1)])
  have "unat e div 2 ^ k * 2 ^ k + unat t < 2 ^ 64"
  proof -
    have "(2 :: nat) ^ 64 = 2 ^ (64 - k) * 2 ^ k" using assms(1) by (simp flip: power_add)
    then have "unat e div 2 ^ k < 2 ^ (64 - k)" using lt by (simp add: div_less_iff_less_mult)
    then have "(unat e div 2 ^ k + 1) * 2 ^ k \<le> 2 ^ (64 - k) * 2 ^ k" by (intro mult_le_mono1) simp
    with assms(2) show ?thesis using \<open>(2 :: nat) ^ 64 = 2 ^ (64 - k) * 2 ^ k\<close> by simp
  qed
  then show ?thesis unfolding m w using p by (simp add: unat_word_ariths)
qed

lemma nearest_candidate:
  fixes p e w :: nat
  assumes "even w" and "0 < w" and "e < p + w div 2" and "p \<le> e + w div 2"
  defines "c \<equiv> e div w * w + p mod w"
  shows "p = (if c + w div 2 \<le> e then c + w else if c > e + w div 2 then c - w else c)"
    "c > e + w div 2 \<Longrightarrow> w \<le> c"
proof -
  have p: "p = p div w * w + p mod w" and e: "e = e div w * w + e mod w" by simp_all
  have r: "p mod w < w" "e mod w < w" using assms(2) by simp_all
  obtain h where h: "w = 2 * h" using assms(1) by auto
  have "p div w \<le> e div w + 1"
  proof (rule ccontr)
    assume "\<not> ?thesis"
    then have "(e div w + 2) * w \<le> p div w * w" by (intro mult_le_mono1) simp
    also have "p div w * w \<le> p" by simp
    finally have "e div w * w + 2 * w \<le> p" by (simp add: algebra_simps)
    with assms(4) e r h show False by linarith
  qed
  moreover have "e div w \<le> p div w + 1"
  proof (rule ccontr)
    assume "\<not> ?thesis"
    then have "(p div w + 2) * w \<le> e div w * w" by (intro mult_le_mono1) simp
    also have "e div w * w \<le> e" by simp
    finally have "p div w * w + 2 * w \<le> e" by (simp add: algebra_simps)
    with assms(3) p r h show False by linarith
  qed
  ultimately consider "p div w = e div w" | "p div w = e div w + 1" | "e div w = p div w + 1" by linarith
  then have c: "p = c \<or> p = c + w \<or> p + w = c"
    by cases (use p c_def in \<open>simp_all add: algebra_simps\<close>)
  then show "p = (if c + w div 2 \<le> e then c + w else if c > e + w div 2 then c - w else c)"
    using assms(2-4) h by auto
  show "w \<le> c" if "c > e + w div 2" using c that assms(4) h by linarith
qed

lemma decode_pn_near:
  fixes pn largest truncated :: u64
  assumes k: "1 \<le> k" "k \<le> 32" and b: "unat pn < 2 ^ 62" "unat largest < 2 ^ 62"
    and t: "unat truncated = unat pn mod 2 ^ k"
    and near: "unat largest + 1 < unat pn + 2 ^ (k - 1)" "unat pn \<le> unat largest + 1 + 2 ^ (k - 1)"
  shows "decode_pn largest truncated k = pn"
proof -
  let ?w = "2 ^ k :: nat" let ?e = "unat largest + 1"
  let ?c = "largest + 1 AND NOT (push_bit k 1 - 1) OR truncated"
  have "?w \<le> 2 ^ 32" using k by (intro power_increasing) simp_all
  moreover have "?w div 2 = 2 ^ (k - 1)" "even ?w" using k by (simp_all add: power_diff)
  ultimately have w: "?w \<le> 2 ^ 32" "?w div 2 = 2 ^ (k - 1)" "even ?w" by simp_all
  have e: "unat (largest + 1) = ?e" using b(2) by (simp add: unat_word_ariths)
  have k64: "k < 64" using k by simp
  moreover have "unat truncated < ?w" using t by simp
  ultimately have c: "unat ?c = ?e div ?w * ?w + unat pn mod ?w" using high_part [of k truncated "largest + 1"] t e by simp
  note n = nearest_candidate [OF w(3), of ?e "unat pn", unfolded w(2) c [symmetric]]
  have cb: "unat ?c < 2 ^ 62 + 2 ^ 33"
  proof -
    have q: "?e div ?w * ?w \<le> ?e" "unat pn mod ?w < ?w" by simp_all
    have "unat ?c < ?e + 2 ^ 32" unfolding c by (rule add_le_less_mono [OF q(1) less_le_trans [OF q(2) w(1)]])
    then show ?thesis using b(2) by simp
  qed
  have win: "unat (push_bit k 1 :: u64) = ?w" using k by (simp add: push_bit_eq_mult unat_pow2)
  then have hw: "unat (push_bit k 1 div 2 :: u64) = 2 ^ (k - 1)" using w(2) by (simp add: unat_div)
  have hb: "(2 :: nat) ^ (k - 1) \<le> 2 ^ 31" using k by (intro power_increasing) simp_all
  have sums: "unat (?c + push_bit k 1 div 2) = unat ?c + 2 ^ (k - 1)" "unat (?c + push_bit k 1) = unat ?c + ?w"
    "unat (largest + 1 + push_bit k 1 div 2) = ?e + 2 ^ (k - 1)"
    using unat_sum [of ?c "push_bit k 1 div 2"] unat_sum [of ?c "push_bit k 1"]
      unat_sum [of "largest + 1" "push_bit k 1 div 2"] cb hb w(1) b(2)
    unfolding hw win e by simp_all
  have lim: "unat (push_bit 62 1 :: u64) = 2 ^ 62" by simp
  have "unat (decode_pn largest truncated k) = unat pn"
  proof (cases "unat ?c + 2 ^ (k - 1) \<le> ?e")
    case True
    then have "unat pn = unat ?c + ?w" using n near by simp
    with True b(1) sums show ?thesis
      by (simp add: decode_pn_def Let_def word_le_nat_alt word_less_nat_alt e lim)
  next
    case False
    show ?thesis
    proof (cases "unat ?c > ?e + 2 ^ (k - 1)")
      case True
      then have "unat pn = unat ?c - ?w" "?w \<le> unat ?c" using False n near by simp_all
      with True False sums show ?thesis
        by (simp add: decode_pn_def Let_def word_le_nat_alt word_less_nat_alt e win unat_sub unat_pow2 [OF k64])
    next
      case le: False
      then have "unat pn = unat ?c" using False n near by simp
      with le False sums show ?thesis
        by (simp add: decode_pn_def Let_def word_le_nat_alt word_less_nat_alt e)
    qed
  qed
  then show ?thesis by (rule word_unat_eq_iff [THEN iffD2])
qed

section \<open>Masks\<close>

lemma xor_loop_masks:
  assumes "n \<le> length pb"
  shows "xor_loop m (length h) n (h @ pb @ ct) = h @ map (\<lambda>i. pb ! i XOR m ! (1 + i)) [0..<n] @ drop n pb @ ct"
  using assms
proof (induction n)
  case (Suc n)
  then have "drop n pb = pb ! n # drop (Suc n) pb" by (simp add: Cons_nth_drop_Suc)
  with Suc show ?case by (simp add: nth_append list_update_append Let_def)
qed simp

lemma mask_header_parts:
  assumes "length pb = n"
  shows "mask_header low m (length (f # h)) n (f # h @ pb @ ct) =
    (f XOR (m ! 0 AND low)) # h @ map (\<lambda>i. pb ! i XOR m ! (1 + i)) [0..<n] @ ct"
  using xor_loop_masks [of n pb m "(f XOR (m ! 0 AND low)) # h" ct] assms by (simp add: mask_header_def)

lemma xor_cancel [simp]: "(x XOR y) XOR y = x" for x y :: "'a::len word"
  by (simp add: xor.assoc)

lemma push_byte: "unat t < 2 ^ 56 \<Longrightarrow> unat (push_bit 8 t OR ucast b) = unat t * 256 + unat b" for t :: u64 and b :: u8
proof -
  assume "unat t < 2 ^ 56"
  then have t: "unat t < 72057594037927936" by simp
  have "push_bit 8 t OR ucast b = push_bit 8 t + ucast b"
    by (rule disjunctive_add_eq_or [symmetric], rule bit_word_eqI) (auto simp: bit_simps dest: bit_imp_le_length)
  moreover have "unat (push_bit 8 t) = unat t * 256" using t by (simp add: push_bit_eq_mult unat_word_ariths)
  moreover have "unat (ucast b :: u64) = unat b" 
    by (simp only: unsigned_ucast_eq) (simp add: take_bit_nat_eq_self less_trans [OF unat_u8_lt])
  moreover have "unat t * 256 + unat b < 18446744073709551616" using t unat_u8_lt [of b] by linarith
  ultimately show ?thesis using unat_sum [of "push_bit 8 t" "ucast b"] by simp
qed

lemma unmask_loop_masked:
  assumes "n \<le> length pb" and "n \<le> 4" and "off + n \<le> length pkt"
    and "\<forall>i < n. pkt ! (off + i) = pb ! i XOR m ! (1 + i)"
  shows "\<exists>t. unmask_loop pkt off n m = Some (t, take n pb) \<and> unat t = be_value (take n pb)"
  using assms
proof (induction n)
  case (Suc n)
  then obtain t where t: "unmask_loop pkt off n m = Some (t, take n pb)" "unat t = be_value (take n pb)" by auto
  have "be_value (take n pb) < 256 ^ n" using be_value_lt [of "take n pb"] Suc.prems(1) by simp
  also have "(256 :: nat) ^ n \<le> 256 ^ 4" using Suc.prems(2) by (intro power_increasing) simp_all
  finally have "unat t < 2 ^ 56" using t(2) by simp
  then have "unat (push_bit 8 t OR ucast (pb ! n)) = be_value (take (Suc n) pb)"
    using push_byte [of t "pb ! n"] t(2) Suc.prems(1) by (simp add: take_Suc_conv_app_nth be_value_snoc)
  with t Suc.prems show ?case by (simp add: take_Suc_conv_app_nth Let_def)
qed (simp add: be_value_def)

lemma drop_be_bytes: "drop k (be_bytes (k + n) v) = be_bytes n v"
  by (induction n arbitrary: v) simp_all

lemma unmask_pn_masked:
  assumes n: "1 \<le> n" "n \<le> 4" and pb: "pb = drop (8 - n) (be_bytes 8 (unat pn))" and len: "off + n \<le> length pkt"
    and m: "\<forall>i < n. pkt ! (off + i) = pb ! i XOR m ! (1 + i)"
    and b: "unat pn < 2 ^ 62" "unat largest < 2 ^ 62"
    and near: "unat largest + 1 < unat pn + 2 ^ (8 * n - 1)" "unat pn \<le> unat largest + 1 + 2 ^ (8 * n - 1)"
  shows "unmask_pn pkt off n m largest = Some (pn, pb)"
proof -
  have "pb = be_bytes n (unat pn)" using drop_be_bytes [of "8 - n" n "unat pn"] n pb by simp
  then have l: "length pb = n" and v: "be_value pb = unat pn mod 2 ^ (n * 8)"
    by (simp_all add: be_value_be_bytes mult.commute [of n 8] power_mult)
  obtain t where t: "unmask_loop pkt off n m = Some (t, pb)" "unat t = unat pn mod 2 ^ (n * 8)"
    using unmask_loop_masked [OF _ n(2) len m] l v by auto
  have "decode_pn largest t (n * 8) = pn"
    by (rule decode_pn_near) (use n b t(2) near in \<open>simp_all add: mult.commute [of n 8]\<close>)
  with t show ?thesis by (simp add: unmask_pn_def)
qed

section \<open>Protected packets\<close>

lemma slice_parts: "length xs = a \<Longrightarrow> b = a + length ys \<Longrightarrow> get_range (xs @ ys @ zs) a b = Some ys"
  using slice_append_mid [of xs ys zs] by (simp add: get_range_def)

text \<open>A header \<open>f # h\<close>, the packet number \<open>pb\<close> and the sealed text \<open>ct\<close>, masked, with anything behind.\<close>

lemma masked_packet:
  fixes f :: u8
  assumes n: "1 \<le> n" "n \<le> 4" and pb: "pb = drop (8 - n) (be_bytes 8 (unat pn))" and ct: "20 \<le> n + length ct"
    and b: "unat pn < 2 ^ 62" "unat largest < 2 ^ 62"
    and near: "unat largest + 1 < unat pn + 2 ^ (8 * n - 1)" "unat pn \<le> unat largest + 1 + 2 ^ (8 * n - 1)"
    and off: "off = length (f # h)"
    and P: "P = mask_header low M off n (f # h @ pb @ ct) @ tail"
  shows "P = (f XOR (M ! 0 AND low)) # h @ map (\<lambda>i. pb ! i XOR M ! (1 + i)) [0..<n] @ ct @ tail"
    "get_range P (off + 4) (off + 4 + 16) = Some (slice (f # h @ pb @ ct) (off + 4) (off + 20))"
    "unmask_pn P off n M largest = Some (pn, pb)"
    "unmasked_header P off f pb = Some (f # h @ pb)"
    "get_range P (off + n) (off + n + length ct) = Some ct"
    "(P ! 0) XOR (M ! 0 AND low) = f" "length P = off + n + length ct + length tail"
proof -
  let ?f = "f XOR (M ! 0 AND low)" and ?mb = "map (\<lambda>i. pb ! i XOR M ! (1 + i)) [0..<n]"
  have l: "length pb = n" using pb n by simp
  show p: "P = ?f # h @ ?mb @ ct @ tail" using mask_header_parts [OF l, of low M f h ct] P off by simp
  show "(P ! 0) XOR (M ! 0 AND low) = f" "length P = off + n + length ct + length tail" using p off by simp_all
  have "P = (?f # h @ ?mb) @ ct @ tail" using p by simp
  then show "get_range P (off + n) (off + n + length ct) = Some ct" 
    using slice_parts [of "?f # h @ ?mb" "off + n" "off + n + length ct" ct tail] off by simp
  show "get_range P (off + 4) (off + 4 + 16) = Some (slice (f # h @ pb @ ct) (off + 4) (off + 20))"
  proof -
    have d: "drop (off + 4) (xs @ ys @ zs) = drop (4 - n) zs" if "length xs = off" "length ys = n" for xs ys zs :: bytes
      using that n by simp
    have "drop (off + 4) P = drop (4 - n) ct @ tail"
      using d [of "?f # h" ?mb "ct @ tail"] p off ct n by simp
    moreover have "drop (off + 4) (f # h @ pb @ ct) = drop (4 - n) ct" using d [of "f # h" pb ct] off l by simp
    ultimately show ?thesis using p off ct n by (simp add: get_range_def slice_def)
  qed
  show "unmask_pn P off n M largest = Some (pn, pb)"
  proof (rule unmask_pn_masked [OF n pb _ _ b near])
    show "\<forall>i < n. P ! (off + i) = pb ! i XOR M ! (1 + i)"
      using p off by (auto simp: nth_append)
  qed (use p off in simp)
  show "unmasked_header P off f pb = Some (f # h @ pb)"
    using p off l by (simp add: unmasked_header_def get_range_def slice_def)
qed

section \<open>Headers\<close>

lemma low_mask_invisible:
  "(f XOR (x AND 0x0f)) AND 0x80 = f AND 0x80" "(f XOR (x AND 0x0f)) AND 0x30 = f AND 0x30"
  "(f XOR (x AND 0x1f)) AND 0x80 = f AND 0x80" for f x :: u8
  by (simp_all add: bit.conj_xor_distrib2 and.assoc)

lemma first_long:
  assumes "pt \<in> {INITIAL, ZERO_RTT, HANDSHAKE}" and "1 \<le> n" and "n \<le> 4"
  defines "f \<equiv> 0xc0 OR push_bit 4 pt OR of_nat (n - 1) :: u8"
  shows "f AND 0x80 \<noteq> 0" "drop_bit 4 (f AND 0x30) = pt" "unat ((f AND 0x03) + 1) = n"
proof -
  have "n \<in> {1, 2, 3, 4}" using assms(2,3) by auto
  with assms(1) show "f AND 0x80 \<noteq> 0" "drop_bit 4 (f AND 0x30) = pt" "unat ((f AND 0x03) + 1) = n"
    by (auto simp: f_def INITIAL_def ZERO_RTT_def HANDSHAKE_def)
qed

lemma first_short:
  assumes "1 \<le> n" and "n \<le> 4"
  defines "f \<equiv> \<lambda>ph. 0x40 OR (if ph then 0x04 else 0) OR of_nat (n - 1) :: u8"
  shows "f ph AND 0x80 = 0" "f ph AND 0x04 \<noteq> 0 \<longleftrightarrow> ph" "unat ((f ph AND 0x03) + 1) = n"
proof -
  have "n \<in> {1, 2, 3, 4}" using assms(1,2) by auto
  then show "f ph AND 0x80 = 0" "f ph AND 0x04 \<noteq> 0 \<longleftrightarrow> ph" "unat ((f ph AND 0x03) + 1) = n"
    by (cases ph; auto simp: f_def)+
qed

lemma cid_field_eval: "length cid \<le> 20 \<Longrightarrow> cid_field (of_nat (length cid) # cid @ rest) = Some (cid, rest)"
  by (simp add: cid_field_def cur_eval cur_byte_def)

lemma token_field_eval:
  "length token \<le> 256 \<Longrightarrow>
   token_field pt ((if pt = INITIAL then varint_write (length token) @ token else []) @ rest) =
   Some (if pt = INITIAL then token else [], rest)"
  by (simp add: token_field_def cur_eval)

lemma long_fields_eval:
  assumes "f AND 0x80 \<noteq> 0" and "drop_bit 4 (f AND 0x30) = pt" and "pt \<noteq> RETRY"
    and "length dcid \<le> 20" and "length scid \<le> 20" and "length token \<le> 256" and "len < 2 ^ 62"
  shows "long_fields (f # u32_to_be_bytes v @ of_nat (length dcid) # dcid @ of_nat (length scid) # scid @
      (if pt = INITIAL then varint_write (length token) @ token else []) @ varint_write len @ rest) =
    Some ((pt, v, dcid, scid, if pt = INITIAL then token else [], len), rest)"
proof -
  have t: "cur_take 4 (u32_to_be_bytes v @ rest) = Some (u32_to_be_bytes v, rest)" for rest by (simp add: cur_eval)
  have b: "cur_byte (x # rest) = Some (x, rest)" for x rest by (simp add: cur_byte_def)
  show ?thesis
    using assms by (simp add: long_fields_def cur_eval(1-4) t b cid_field_eval token_field_eval u32_be_roundtrip Let_def)
qed

section \<open>What was protected is read back\<close>

definition pn_near :: "nat \<Rightarrow> u64 \<Rightarrow> u64 \<Rightarrow> bool" where
  "pn_near n largest pn \<longleftrightarrow> 1 \<le> n \<and> n \<le> 4 \<and> unat pn < 2 ^ 62 \<and> unat largest < 2 ^ 62 \<and>
     unat largest + 1 < unat pn + 2 ^ (8 * n - 1) \<and> unat pn \<le> unat largest + 1 + 2 ^ (8 * n - 1)"

lemma pad_payload_length: "4 \<le> n + length (pad_payload n payload)"
  by (simp add: pad_payload_def)

lemma unprotect_protect_long:
  fixes a :: aead and keys :: packet_keys
  assumes ok: "aead_ok s" and near: "pn_near n largest pn"
    and ids: "pt \<in> {INITIAL, ZERO_RTT, HANDSHAKE}" "length dcid \<le> 20" "length scid \<le> 20" "length token \<le> 256"
    and size: "n + length (pad_payload n payload) + 16 < 2 ^ 62"
  defines "sent \<equiv> protect_long s a keys pt dcid scid token pn n payload"
  shows "unprotect_long s a keys (sent @ tail) largest =
    Some \<lparr>lp_ptype = pt, lp_version = VERSION_1, lp_dcid = dcid, lp_scid = scid,
      lp_token = (if pt = INITIAL then token else []), lp_pn = pn, lp_payload = pad_payload n payload,
      lp_consumed = length sent\<rparr>"
proof -
  let ?pt = "pad_payload n payload"
  define f where "f = (0xc0 OR push_bit 4 pt OR of_nat (n - 1) :: u8)"
  define h where "h = u32_to_be_bytes VERSION_1 @ of_nat (length dcid) # dcid @ of_nat (length scid) # scid @
      (if pt = INITIAL then varint_write (length token) @ token else []) @ varint_write (n + length ?pt + 16)"
  define pb where "pb = drop (8 - n) (be_bytes 8 (unat pn))"
  define ct where "ct = aead_seal s a (pk_key keys) (pk_iv keys) pn (f # h @ pb) ?pt"
  define off where "off = length (f # h)"
  define M where "M = as_header_mask s a (pk_hp keys) (slice (f # h @ pb @ ct) (off + 4) (off + 20))"
  have n: "1 \<le> n" "n \<le> 4" and nr: "unat pn < 2 ^ 62" "unat largest < 2 ^ 62"
      "unat largest + 1 < unat pn + 2 ^ (8 * n - 1)" "unat pn \<le> unat largest + 1 + 2 ^ (8 * n - 1)"
    using near by (simp_all add: pn_near_def)
  have sent: "sent = mask_header 0x0f M off n (f # h @ pb @ ct)"
    using n ids by (simp add: sent_def protect_long_def Let_def f_def h_def pb_def ct_def off_def M_def)
  have lct: "length ct = length ?pt + 16" using ok by (simp add: ct_def aead_seal_def aead_ok_def)
  then have ct20: "20 \<le> n + length ct" using pad_payload_length [of n payload] by simp
  note P = masked_packet [OF n pb_def ct20 nr off_def, of "sent @ tail" "0x0f" M tail, unfolded sent, OF refl, folded sent]
  note fl = first_long [OF ids(1) n, folded f_def]
  have "pt \<noteq> RETRY" using ids(1) by (auto simp: INITIAL_def ZERO_RTT_def HANDSHAKE_def RETRY_def)
  with long_fields_eval [of "f XOR (M ! 0 AND 0x0f)" pt dcid scid token "n + length ?pt + 16" VERSION_1]
  have lf: "long_fields (sent @ tail) = Some ((pt, VERSION_1, dcid, scid, if pt = INITIAL then token else [], n + length ?pt + 16),
      map (\<lambda>i. pb ! i XOR M ! (1 + i)) [0..<n] @ ct @ tail)"
    using fl ids size P(1) low_mask_invisible [of f "M ! 0"] by (simp add: h_def)
  have ls: "length sent = off + n + length ct" using P(7) by simp
  have ph: "parse_long_header (sent @ tail) = Some \<lparr>lh_ptype = pt, lh_version = VERSION_1, lh_dcid = dcid, lh_scid = scid,
      lh_token = (if pt = INITIAL then token else []), lh_pn_offset = off, lh_end = off + n + length ct\<rparr>"
    using lf P(7) lct by (simp add: parse_long_header_def Let_def add.assoc)
  have op: "aead_open s a (pk_key keys) (pk_iv keys) pn (f # h @ pb) ct = Some ?pt"
    using ok by (simp add: ct_def aead_open_def aead_seal_def aead_ok_def)
  show ?thesis
    unfolding unprotect_long_def ph using P(2-6) fl(3) op ls by (simp add: Let_def M_def [symmetric])
qed

text \<open>
  Short headers: the receiver holds the current keys and, around a key update, the next ones; the
  header key stays the same through an update.
\<close>

definition holds_keys :: "packet_keys \<Rightarrow> packet_keys option \<Rightarrow> bool \<Rightarrow> packet_keys \<Rightarrow> bool \<Rightarrow> bool" where
  "holds_keys keys alt_keys expected_phase sent_keys phase \<longleftrightarrow> pk_hp sent_keys = pk_hp keys \<and>
     (if phase = expected_phase then sent_keys = keys else alt_keys = Some sent_keys)"

lemma unprotect_protect_short:
  fixes a :: aead and sk :: packet_keys
  assumes ok: "aead_ok s" and near: "pn_near n largest pn" and dcid: "length dcid \<le> 20"
    and keys: "holds_keys keys alt_keys expected_phase sk phase"
  shows "unprotect_short s a keys alt_keys expected_phase (protect_short s a sk dcid pn n payload phase)
      (length dcid) largest =
    Some (\<lparr>sp_dcid = dcid, sp_pn = pn, sp_payload = pad_payload n payload\<rparr>, phase \<noteq> expected_phase)"
proof -
  let ?pt = "pad_payload n payload"
  define f where "f = (0x40 OR (if phase then 0x04 else 0) OR of_nat (n - 1) :: u8)"
  define pb where "pb = drop (8 - n) (be_bytes 8 (unat pn))"
  define ct where "ct = aead_seal s a (pk_key sk) (pk_iv sk) pn (f # dcid @ pb) ?pt"
  define off where "off = length (f # dcid)"
  define M where "M = as_header_mask s a (pk_hp sk) (slice (f # dcid @ pb @ ct) (off + 4) (off + 20))"
  define sent where "sent = protect_short s a sk dcid pn n payload phase"
  have n: "1 \<le> n" "n \<le> 4" and nr: "unat pn < 2 ^ 62" "unat largest < 2 ^ 62"
      "unat largest + 1 < unat pn + 2 ^ (8 * n - 1)" "unat pn \<le> unat largest + 1 + 2 ^ (8 * n - 1)"
    using near by (simp_all add: pn_near_def)
  have sent: "sent @ [] = mask_header 0x1f M off n (f # dcid @ pb @ ct) @ []"
    using n dcid by (simp add: sent_def protect_short_def Let_def f_def pb_def ct_def off_def M_def)
  have lct: "length ct = length ?pt + 16" using ok by (simp add: ct_def aead_seal_def aead_ok_def)
  then have ct20: "20 \<le> n + length ct" using pad_payload_length [of n payload] by simp
  note P = masked_packet [OF n pb_def ct20 nr off_def sent, unfolded append_Nil2]
  note fl = first_short [OF n, of phase, folded f_def]
  have hp: "pk_hp keys = pk_hp sk" and pk: "(if phase = expected_phase then Some keys else alt_keys) = Some sk"
    using keys by (auto simp: holds_keys_def split: if_splits)
  have op: "aead_open s a (pk_key sk) (pk_iv sk) pn (f # dcid @ pb) ct = Some ?pt"
    using ok by (simp add: ct_def aead_open_def aead_seal_def aead_ok_def)
  have d: "get_range sent 1 (1 + length dcid) = Some dcid"
    unfolding P(1) using slice_parts [of "[f XOR (M ! 0 AND 0x1f)]" 1 _ dcid] by simp
  obtain f0 r where sr: "sent = f0 # r" and f0: "f0 = f XOR (M ! 0 AND 0x1f)" using P(1) by simp
  have cs: "(case sent of [] \<Rightarrow> None | x # xs \<Rightarrow> g x) = g f0" for g :: "u8 \<Rightarrow> (short_packet \<times> bool) option"
    using sr by simp
  have off1: "Suc (length dcid) = off" by (simp add: off_def)
  have c: "get_range sent (off + n) (length sent) = Some ct" using P(5,7) by simp
  have low: "f0 AND 0x80 = 0" using low_mask_invisible(3) [of f "M ! 0"] fl(1) f0 by simp
  have "unprotect_short s a keys alt_keys expected_phase sent (length dcid) largest =
      Some (\<lparr>sp_dcid = dcid, sp_pn = pn, sp_payload = ?pt\<rparr>, phase \<noteq> expected_phase)"
    using P(2-4) c d op pk fl(2,3) low f0
    unfolding unprotect_short_def cs 
    by (cases phase; cases expected_phase) (simp_all add: hp off1 M_def [symmetric] Let_def)
  then show ?thesis by (simp add: sent_def)
qed

section \<open>A sample\<close>

text \<open>Ciphers that do nothing but have the right lengths, and a mask that depends on the sample.\<close>

definition plain_suite :: aead_suite where
  "plain_suite = \<lparr>as_encrypt = \<lambda>a key nonce aad m. m @ replicate 16 0,
     as_decrypt = \<lambda>a key nonce aad c. Some (take (length c - 16) c),
     as_header_mask = \<lambda>a hp sample. replicate 5 (sample ! 0 XOR 0x5a)\<rparr>"

definition plain_keys :: packet_keys where
  "plain_keys = \<lparr>pk_key = replicate 16 1, pk_iv = replicate 12 2, pk_hp = replicate 16 3\<rparr>"

lemma plain_suite_ok: "aead_ok plain_suite"
  by (simp add: aead_ok_def plain_suite_def)

end
