(* ===== verification/Huffman.thy ===== *)
theory Huffman
  imports Prelude "HOL-Library.Sublist"
begin

text \<open>
  The string code of HTTP header compression, \<open>onetdns-http2/src/huffman.rs\<close>: the table of codes, the
  arena trie built from it, the decoder that walks the trie bit by bit and the encoder that packs
  codes into bytes. Node indexes are natural numbers; the bit accumulator keeps its 64 bits.
\<close>

unbundle bit_operations_syntax

section \<open>The table\<close>

definition CODES :: "(u32 \<times> nat) list" where
  "CODES = [
    (0x1ff8, 13), (0x7fffd8, 23), (0xfffffe2, 28), (0xfffffe3, 28), (0xfffffe4, 28),
    (0xfffffe5, 28), (0xfffffe6, 28), (0xfffffe7, 28), (0xfffffe8, 28), (0xffffea, 24),
    (0x3ffffffc, 30), (0xfffffe9, 28), (0xfffffea, 28), (0x3ffffffd, 30), (0xfffffeb, 28),
    (0xfffffec, 28), (0xfffffed, 28), (0xfffffee, 28), (0xfffffef, 28), (0xffffff0, 28),
    (0xffffff1, 28), (0xffffff2, 28), (0x3ffffffe, 30), (0xffffff3, 28), (0xffffff4, 28),
    (0xffffff5, 28), (0xffffff6, 28), (0xffffff7, 28), (0xffffff8, 28), (0xffffff9, 28),
    (0xffffffa, 28), (0xffffffb, 28), (0x14, 6), (0x3f8, 10), (0x3f9, 10), (0xffa, 12),
    (0x1ff9, 13), (0x15, 6), (0xf8, 8), (0x7fa, 11), (0x3fa, 10), (0x3fb, 10), (0xf9, 8),
    (0x7fb, 11), (0xfa, 8), (0x16, 6), (0x17, 6), (0x18, 6), (0x0, 5), (0x1, 5), (0x2, 5),
    (0x19, 6), (0x1a, 6), (0x1b, 6), (0x1c, 6), (0x1d, 6), (0x1e, 6), (0x1f, 6), (0x5c, 7),
    (0xfb, 8), (0x7ffc, 15), (0x20, 6), (0xffb, 12), (0x3fc, 10), (0x1ffa, 13), (0x21, 6),
    (0x5d, 7), (0x5e, 7), (0x5f, 7), (0x60, 7), (0x61, 7), (0x62, 7), (0x63, 7), (0x64, 7),
    (0x65, 7), (0x66, 7), (0x67, 7), (0x68, 7), (0x69, 7), (0x6a, 7), (0x6b, 7), (0x6c, 7),
    (0x6d, 7), (0x6e, 7), (0x6f, 7), (0x70, 7), (0x71, 7), (0x72, 7), (0xfc, 8), (0x73, 7),
    (0xfd, 8), (0x1ffb, 13), (0x7fff0, 19), (0x1ffc, 13), (0x3ffc, 14), (0x22, 6), (0x7ffd, 15),
    (0x3, 5), (0x23, 6), (0x4, 5), (0x24, 6), (0x5, 5), (0x25, 6), (0x26, 6), (0x27, 6), (0x6, 5),
    (0x74, 7), (0x75, 7), (0x28, 6), (0x29, 6), (0x2a, 6), (0x7, 5), (0x2b, 6), (0x76, 7),
    (0x2c, 6), (0x8, 5), (0x9, 5), (0x2d, 6), (0x77, 7), (0x78, 7), (0x79, 7), (0x7a, 7),
    (0x7b, 7), (0x7ffe, 15), (0x7fc, 11), (0x3ffd, 14), (0x1ffd, 13), (0xffffffc, 28),
    (0xfffe6, 20), (0x3fffd2, 22), (0xfffe7, 20), (0xfffe8, 20), (0x3fffd3, 22), (0x3fffd4, 22),
    (0x3fffd5, 22), (0x7fffd9, 23), (0x3fffd6, 22), (0x7fffda, 23), (0x7fffdb, 23), (0x7fffdc, 23),
    (0x7fffdd, 23), (0x7fffde, 23), (0xffffeb, 24), (0x7fffdf, 23), (0xffffec, 24), (0xffffed, 24),
    (0x3fffd7, 22), (0x7fffe0, 23), (0xffffee, 24), (0x7fffe1, 23), (0x7fffe2, 23), (0x7fffe3, 23),
    (0x7fffe4, 23), (0x1fffdc, 21), (0x3fffd8, 22), (0x7fffe5, 23), (0x3fffd9, 22), (0x7fffe6, 23),
    (0x7fffe7, 23), (0xffffef, 24), (0x3fffda, 22), (0x1fffdd, 21), (0xfffe9, 20), (0x3fffdb, 22),
    (0x3fffdc, 22), (0x7fffe8, 23), (0x7fffe9, 23), (0x1fffde, 21), (0x7fffea, 23), (0x3fffdd, 22),
    (0x3fffde, 22), (0xfffff0, 24), (0x1fffdf, 21), (0x3fffdf, 22), (0x7fffeb, 23), (0x7fffec, 23),
    (0x1fffe0, 21), (0x1fffe1, 21), (0x3fffe0, 22), (0x1fffe2, 21), (0x7fffed, 23), (0x3fffe1, 22),
    (0x7fffee, 23), (0x7fffef, 23), (0xfffea, 20), (0x3fffe2, 22), (0x3fffe3, 22), (0x3fffe4, 22),
    (0x7ffff0, 23), (0x3fffe5, 22), (0x3fffe6, 22), (0x7ffff1, 23), (0x3ffffe0, 26),
    (0x3ffffe1, 26), (0xfffeb, 20), (0x7fff1, 19), (0x3fffe7, 22), (0x7ffff2, 23), (0x3fffe8, 22),
    (0x1ffffec, 25), (0x3ffffe2, 26), (0x3ffffe3, 26), (0x3ffffe4, 26), (0x7ffffde, 27),
    (0x7ffffdf, 27), (0x3ffffe5, 26), (0xfffff1, 24), (0x1ffffed, 25), (0x7fff2, 19),
    (0x1fffe3, 21), (0x3ffffe6, 26), (0x7ffffe0, 27), (0x7ffffe1, 27), (0x3ffffe7, 26),
    (0x7ffffe2, 27), (0xfffff2, 24), (0x1fffe4, 21), (0x1fffe5, 21), (0x3ffffe8, 26),
    (0x3ffffe9, 26), (0xffffffd, 28), (0x7ffffe3, 27), (0x7ffffe4, 27), (0x7ffffe5, 27),
    (0xfffec, 20), (0xfffff3, 24), (0xfffed, 20), (0x1fffe6, 21), (0x3fffe9, 22), (0x1fffe7, 21),
    (0x1fffe8, 21), (0x7ffff3, 23), (0x3fffea, 22), (0x3fffeb, 22), (0x1ffffee, 25),
    (0x1ffffef, 25), (0xfffff4, 24), (0xfffff5, 24), (0x3ffffea, 26), (0x7ffff4, 23),
    (0x3ffffeb, 26), (0x7ffffe6, 27), (0x3ffffec, 26), (0x3ffffed, 26), (0x7ffffe7, 27),
    (0x7ffffe8, 27), (0x7ffffe9, 27), (0x7ffffea, 27), (0x7ffffeb, 27), (0xffffffe, 28),
    (0x7ffffec, 27), (0x7ffffed, 27), (0x7ffffee, 27), (0x7ffffef, 27), (0x7fffff0, 27),
    (0x3ffffee, 26), (0x3fffffff, 30)]"

text \<open>The bits of a code from the highest down, as both loops read them.\<close>

definition code_bits :: "u32 \<times> nat \<Rightarrow> bool list" where
  "code_bits c = map (bit (fst c)) (rev [0..<snd c])"

section \<open>The trie\<close>

record huff_trie =
  tr_nodes :: "(nat option \<times> nat option) list"
  tr_sym :: "nat option list"

definition child :: "nat option \<times> nat option \<Rightarrow> bool \<Rightarrow> nat option" where
  "child node b = (if b then snd node else fst node)"

definition set_child :: "bool \<Rightarrow> nat \<Rightarrow> nat option \<times> nat option \<Rightarrow> nat option \<times> nat option" where
  "set_child b new node = (if b then (fst node, Some new) else (Some new, snd node))"

definition empty_trie :: huff_trie where
  "empty_trie = \<lparr>tr_nodes = [(None, None)], tr_sym = [None]\<rparr>"

definition add_node :: "nat \<Rightarrow> bool \<Rightarrow> huff_trie \<Rightarrow> huff_trie" where
  "add_node node b t =
     (let nodes = tr_nodes t @ [(None, None)]
      in \<lparr>tr_nodes = nodes[node := set_child b (length (tr_nodes t)) (nodes ! node)],
          tr_sym = tr_sym t @ [None]\<rparr>)"

text \<open>The inner loop of \<open>Trie::build\<close> along the bits of one code, and the loop over the table.\<close>

fun insert_bits :: "bool list \<Rightarrow> nat \<Rightarrow> huff_trie \<Rightarrow> nat \<times> huff_trie" where
  "insert_bits [] node t = (node, t)"
| "insert_bits (b # bits) node t =
     (case child (tr_nodes t ! node) b of
        Some n \<Rightarrow> insert_bits bits n t
      | None \<Rightarrow> insert_bits bits (length (tr_nodes t)) (add_node node b t))"

definition insert_code :: "nat \<Rightarrow> u32 \<times> nat \<Rightarrow> huff_trie \<Rightarrow> huff_trie" where
  "insert_code s c t =
     (case insert_bits (code_bits c) 0 t of (node, t) \<Rightarrow> t\<lparr>tr_sym := (tr_sym t)[node := Some s]\<rparr>)"

fun insert_codes :: "nat \<Rightarrow> (u32 \<times> nat) list \<Rightarrow> huff_trie \<Rightarrow> huff_trie" where
  "insert_codes s [] t = t"
| "insert_codes s (c # cs) t = insert_codes (s + 1) cs (insert_code s c t)"

definition build_trie :: huff_trie where
  "build_trie = insert_codes 0 CODES empty_trie"

section \<open>Decoding\<close>

text \<open>The bits of an octet from the highest down.\<close>

definition octet_bits :: "u8 \<Rightarrow> bool list" where
  "octet_bits b = map (bit b) (rev [0..<8])"

definition bytes_bits :: "bytes \<Rightarrow> bool list" where
  "bytes_bits bs = concat (map octet_bits bs)"

text \<open>The two nested loops over bytes and bits; \<open>None\<close> is a return out of them.\<close>

fun decode_loop ::
    "huff_trie \<Rightarrow> nat \<Rightarrow> bool list \<Rightarrow> nat \<Rightarrow> nat \<Rightarrow> u8 \<Rightarrow> bytes \<Rightarrow> (nat \<times> nat \<times> u8 \<times> bytes) option" where
  "decode_loop t max_output [] node tail_bits tail_value out = Some (node, tail_bits, tail_value, out)"
| "decode_loop t max_output (b # bits) node tail_bits tail_value out =
     (case child (tr_nodes t ! node) b of
        None \<Rightarrow> None
      | Some node \<Rightarrow>
          (let tail_bits = min (tail_bits + 1) 255; tail_value = push_bit 1 tail_value OR of_bool b in
           case tr_sym t ! node of
             Some symbol \<Rightarrow>
               if symbol = 256 then None
               else if length (out @ [of_nat symbol]) > max_output then None
               else decode_loop t max_output bits 0 0 0 (out @ [of_nat symbol])
           | None \<Rightarrow> decode_loop t max_output bits node tail_bits tail_value out))"

definition huffman_decode :: "bytes \<Rightarrow> bytes option" where
  "huffman_decode input =
     (case decode_loop build_trie (length input * 2 + 16) (bytes_bits input) 0 0 0 [] of
        None \<Rightarrow> None
      | Some (node, tail_bits, tail_value, out) \<Rightarrow>
          if node \<noteq> 0 then
            (if tail_bits = 0 \<or> tail_bits > 7 then None
             else if (ucast tail_value :: u16) \<noteq> push_bit tail_bits 1 - 1 then None
             else Some out)
          else Some out)"

section \<open>Encoding\<close>

text \<open>The loop that takes full bytes off the accumulator.\<close>

fun drain :: "u64 \<Rightarrow> nat \<Rightarrow> bytes \<Rightarrow> nat \<times> bytes" where
  "drain acc nbits out =
     (if nbits \<ge> 8 then drain acc (nbits - 8) (out @ [ucast (drop_bit (nbits - 8) acc)]) else (nbits, out))"

declare drain.simps [simp del]

fun encode_loop :: "bytes \<Rightarrow> u64 \<Rightarrow> nat \<Rightarrow> bytes \<Rightarrow> u64 \<times> nat \<times> bytes" where
  "encode_loop [] acc nbits out = (acc, nbits, out)"
| "encode_loop (byte # input) acc nbits out =
     (let (code, bits) = CODES ! unat byte; acc = push_bit bits acc OR ucast code in
      case drain acc (nbits + bits) out of
        (nbits, out) \<Rightarrow>
          encode_loop input (if nbits = 0 then 0 else acc AND (push_bit nbits 1 - 1)) nbits out)"

definition huffman_encode :: "bytes \<Rightarrow> bytes" where
  "huffman_encode input =
     (case encode_loop input 0 0 [] of
        (acc, nbits, out) \<Rightarrow>
          if nbits > 0
          then (let pad = 8 - nbits in out @ [ucast (push_bit pad acc OR (push_bit pad 1 - 1))])
          else out)"

end
