(* ===== verification/HuffmanCodec.thy ===== *)
theory HuffmanCodec
  imports Huffman
begin

text \<open>
  The string code is a prefix code, the trie built from the table accepts exactly its words, and the
  decoder reads a byte string exactly if it spells a sequence of symbols followed by a padding of at
  most seven one bits. Encoding and decoding is the identity.
\<close>

unbundle bit_operations_syntax

section \<open>A prefix code\<close>

fun low_bits :: "int \<Rightarrow> nat \<Rightarrow> bool list \<Rightarrow> bool list" where
  "low_bits c 0 acc = acc"
| "low_bits c (Suc n) acc = low_bits (c div 2) n (odd c # acc)"

lemma low_bits_map: "low_bits c n acc = map (bit c) (rev [0..<n]) @ acc"
proof (induction n arbitrary: c acc)
  case (Suc n)
  have "[0..<Suc n] = 0 # map Suc [0..<n]" by (metis map_Suc_upt upt_rec zero_less_Suc)
  then have "rev [0..<Suc n] = map Suc (rev [0..<n]) @ [0]" by (simp add: rev_map)
  then show ?case using Suc [of "c div 2"] by (simp add: bit_Suc bit_0 del: upt_Suc)
qed simp

datatype code_tree = Absent | Full | Fork code_tree code_tree

fun put_bits :: "bool list \<Rightarrow> code_tree \<Rightarrow> code_tree option" where
  "put_bits [] Absent = Some Full"
| "put_bits [] _ = None"
| "put_bits (b # bs) Absent =
     map_option (\<lambda>t. if b then Fork Absent t else Fork t Absent) (put_bits bs Absent)"
| "put_bits (b # bs) Full = None"
| "put_bits (b # bs) (Fork l r) =
     (if b then map_option (Fork l) (put_bits bs r) else map_option (\<lambda>t. Fork t r) (put_bits bs l))"

fun put_all :: "bool list list \<Rightarrow> code_tree \<Rightarrow> code_tree option" where
  "put_all [] t = Some t"
| "put_all (c # cs) t = (case put_bits c t of None \<Rightarrow> None | Some t \<Rightarrow> put_all cs t)"

definition table_ok :: "(u32 \<times> nat) list \<Rightarrow> bool" where
  "table_ok cs \<longleftrightarrow> put_all (map (\<lambda>(c, n). low_bits (uint c) n []) cs) Absent \<noteq> None"

lemma table_ok: "table_ok CODES"
  by code_simp

text \<open>The words of a code tree: inserting a word succeeds only if it is comparable with none.\<close>

fun tree_words :: "code_tree \<Rightarrow> bool list set" where
  "tree_words Absent = {}"
| "tree_words Full = {[]}"
| "tree_words (Fork l r) = (#) False ` tree_words l \<union> (#) True ` tree_words r"

lemma put_bits_words:
  "put_bits bs t = Some t' \<Longrightarrow>
     tree_words t' = insert bs (tree_words t) \<and> (\<forall>w \<in> tree_words t. \<not> prefix w bs \<and> \<not> prefix bs w)"
  by (induction bs t arbitrary: t' rule: put_bits.induct) (auto split: if_splits)

lemma put_all_words:
  "put_all cs t = Some t' \<Longrightarrow>
     sorted_wrt (\<lambda>a b. \<not> prefix a b \<and> \<not> prefix b a) cs \<and>
     (\<forall>c \<in> set cs. \<forall>w \<in> tree_words t. \<not> prefix w c \<and> \<not> prefix c w)"
proof (induction cs arbitrary: t)
  case (Cons c cs)
  then obtain u where u: "put_bits c t = Some u" "put_all cs u = Some t'" by (auto split: option.splits)
  from put_bits_words [OF u(1)] Cons.IH [OF u(2)] show ?case by auto
qed simp

definition symbol_code :: "nat \<Rightarrow> bool list" where
  "symbol_code s = code_bits (CODES ! s)"

lemma length_CODES [simp]: "length CODES = 257"
  by (simp add: CODES_def)

lemma table_lengths: "list_all (\<lambda>(c, n). 5 \<le> n \<and> n \<le> 30 \<and> uint c < 2 ^ n) CODES"
  by code_simp

lemma code_low: "code_bits (c, n) = low_bits (uint c) n []"
  by (auto simp: low_bits_map code_bits_def bit_uint_iff dest: bit_imp_le_length)

lemma code_length: "s < 257 \<Longrightarrow> 5 \<le> length (symbol_code s) \<and> length (symbol_code s) \<le> 30"
  using table_lengths by (cases "CODES ! s") (fastforce simp: list_all_length symbol_code_def code_bits_def)

lemma code_prefix_free: "s < 257 \<Longrightarrow> s' < 257 \<Longrightarrow> prefix (symbol_code s) (symbol_code s') \<Longrightarrow> s = s'"
proof (rule ccontr)
  assume a: "s < 257" "s' < 257" "prefix (symbol_code s) (symbol_code s')" "s \<noteq> s'"
  have "sorted_wrt (\<lambda>a b. \<not> prefix a b \<and> \<not> prefix b a) (map code_bits CODES)"
  proof -
    have "map (\<lambda>(c, n). low_bits (uint c) n []) CODES = map code_bits CODES"
      by (rule map_cong) (auto simp: code_low)
    then have "put_all (map code_bits CODES) Absent \<noteq> None" using table_ok unfolding table_ok_def by (simp only: not_False_eq_True)
    then show ?thesis using put_all_words [of "map code_bits CODES" Absent] by blast
  qed
  then have "\<not> prefix (symbol_code i) (symbol_code j) \<and> \<not> prefix (symbol_code j) (symbol_code i)" if "i < j" "j < 257" for i j
    using that by (simp add: sorted_wrt_iff_nth_less symbol_code_def)
  with a show False by (metis nat_neq_iff)
qed

lemma code_eos: "symbol_code 256 = replicate 30 True"
  unfolding symbol_code_def by code_simp


section \<open>The trie\<close>

fun walk :: "huff_trie \<Rightarrow> nat \<Rightarrow> bool list \<Rightarrow> nat option" where
  "walk t n [] = Some n"
| "walk t n (b # bs) = (case child (tr_nodes t ! n) b of None \<Rightarrow> None | Some m \<Rightarrow> walk t m bs)"

definition trie_inv :: "huff_trie \<Rightarrow> bool" where
  "trie_inv t \<longleftrightarrow> length (tr_sym t) = length (tr_nodes t) \<and>
     (\<forall>p n. walk t 0 p = Some n \<longrightarrow> n < length (tr_nodes t)) \<and>
     (\<forall>p q n. walk t 0 p = Some n \<longrightarrow> walk t 0 q = Some n \<longrightarrow> p = q)"

definition sym_at :: "huff_trie \<Rightarrow> bool list \<Rightarrow> nat option" where
  "sym_at t p = (case walk t 0 p of None \<Rightarrow> None | Some n \<Rightarrow> tr_sym t ! n)"

definition reaches :: "huff_trie \<Rightarrow> bool list \<Rightarrow> bool" where
  "reaches t p \<longleftrightarrow> walk t 0 p \<noteq> None"

lemma walk_snoc: "walk t n (p @ [b]) = (case walk t n p of None \<Rightarrow> None | Some m \<Rightarrow> child (tr_nodes t ! m) b)"
  by (induction p arbitrary: n) (auto split: option.splits)

lemma walk_append: "walk t n (p @ q) = (case walk t n p of None \<Rightarrow> None | Some m \<Rightarrow> walk t m q)"
  by (induction p arbitrary: n) (auto split: option.splits)

lemma child_set_child: "child (set_child b new node) c = (if c = b then Some new else child node c)"
  by (auto simp: child_def set_child_def)

lemma walk_add_node:
  assumes inv: "trie_inv t" and p: "walk t 0 p = Some n" and free: "child (tr_nodes t ! n) b = None"
  shows "walk (add_node n b t) 0 q = (if q = p @ [b] then Some (length (tr_nodes t)) else walk t 0 q)"
proof (induction q rule: rev_induct)
  case Nil
  then show ?case by simp
next
  case (snoc c q)
  let ?t = "add_node n b t" and ?new = "length (tr_nodes t)"
  have n: "n < ?new" using inv p by (auto simp: trie_inv_def)
  have old: "tr_nodes ?t ! m = (if m = n then set_child b ?new (tr_nodes t ! n) else tr_nodes t ! m)" if "m < ?new" for m
    using that n by (simp add: add_node_def Let_def nth_append nth_list_update)
  have fresh: "tr_nodes ?t ! ?new = (None, None)"
    using n by (simp add: add_node_def Let_def nth_list_update)
  show ?case
  proof (cases "q = p @ [b]")
    case True
    then show ?thesis using snoc p free by (simp add: walk_snoc fresh child_def del: append_assoc)
  next
    case False
    show ?thesis
    proof (cases "walk t 0 q")
      case None
      then show ?thesis using snoc False p by (auto simp: walk_snoc)
    next
      case (Some m)
      then have "m < ?new" "m = n \<longleftrightarrow> q = p" using inv p by (auto simp: trie_inv_def)
      with snoc False Some old [of m] free show ?thesis by (auto simp: walk_snoc child_set_child)
    qed
  qed
qed

lemma add_node_inv:
  assumes inv: "trie_inv t" and p: "walk t 0 p = Some n" and free: "child (tr_nodes t ! n) b = None"
  shows "trie_inv (add_node n b t)" "sym_at (add_node n b t) q = sym_at t q"
proof -
  note W = walk_add_node [OF assms]
  have len: "length (tr_nodes (add_node n b t)) = Suc (length (tr_nodes t))"
    "tr_sym (add_node n b t) = tr_sym t @ [None]" by (simp_all add: add_node_def Let_def)
  have less: "walk t 0 q = Some m \<Longrightarrow> m < length (tr_nodes t)" for q m using inv by (auto simp: trie_inv_def)
  have inj: "walk t 0 q = Some m \<Longrightarrow> walk t 0 q' = Some m \<Longrightarrow> q = q'" for q q' m
    using inv by (auto simp: trie_inv_def)
  show "trie_inv (add_node n b t)"
    unfolding trie_inv_def len W using inv less inj
    by (auto simp: trie_inv_def less_Suc_eq split: if_splits dest: less)
  show "sym_at (add_node n b t) q = sym_at t q"
    using p free inv less [of q] unfolding sym_at_def W len
    by (auto simp: walk_snoc nth_append trie_inv_def split: option.split)
qed


lemma insert_bits_spec:
  "trie_inv t \<Longrightarrow> walk t 0 p = Some n \<Longrightarrow> insert_bits bs n t = (m, t') \<Longrightarrow>
   trie_inv t' \<and> walk t' 0 (p @ bs) = Some m \<and> sym_at t' = sym_at t \<and>
   (\<forall>q. reaches t' q \<longleftrightarrow> reaches t q \<or> prefix q (p @ bs))"
proof (induction bs n t arbitrary: p rule: insert_bits.induct)
  case (1 n t)
  have "reaches t q" if "prefix q p" for q
    using 1 that by (auto simp: reaches_def prefix_def walk_append split: option.splits)
  then show ?case using 1 by auto
next
  case (2 b bs n t)
  show ?case
  proof (cases "child (tr_nodes t ! n) b")
    case None
    let ?t = "add_node n b t" and ?k = "length (tr_nodes t)"
    note W = walk_add_node [OF 2(3,4) None] and A = add_node_inv [OF 2(3,4) None]
    have "trie_inv t' \<and> walk t' 0 ((p @ [b]) @ bs) = Some m \<and> sym_at t' = sym_at ?t \<and>
      (\<forall>q. reaches t' q \<longleftrightarrow> reaches ?t q \<or> prefix q ((p @ [b]) @ bs))"
      by (rule 2(1) [OF None A(1)]) (use W 2(5) None in simp_all)
    moreover have "sym_at ?t = sym_at t" using A(2) by blast
    moreover have "(reaches ?t q \<or> prefix q (p @ b # bs)) = (reaches t q \<or> prefix q (p @ b # bs))" for q
      by (auto simp: reaches_def W)
    ultimately show ?thesis by simp
  next
    case (Some k)
    then have "walk t 0 (p @ [b]) = Some k" using 2(4) by (simp add: walk_snoc)
    from 2(2) [OF Some 2(3) this] 2(5) Some show ?thesis by simp
  qed
qed

lemma insert_code_spec:
  assumes "trie_inv t"
  shows "trie_inv (insert_code s c t)"
    and "sym_at (insert_code s c t) = (sym_at t)(code_bits c := Some s)"
    and "reaches (insert_code s c t) q \<longleftrightarrow> reaches t q \<or> prefix q (code_bits c)"
proof -
  obtain m u where u: "insert_bits (code_bits c) 0 t = (m, u)" by fastforce
  have U: "trie_inv u" "walk u 0 (code_bits c) = Some m" "sym_at u = sym_at t"
    "\<And>q. reaches u q \<longleftrightarrow> reaches t q \<or> prefix q (code_bits c)"
    using insert_bits_spec [OF assms, of "[]" 0 "code_bits c" m u] u by simp_all
  let ?r = "u\<lparr>tr_sym := (tr_sym u)[m := Some s]\<rparr>"
  have r: "insert_code s c t = ?r" by (simp add: insert_code_def u)
  have w: "walk ?r n q = walk u n q" for n q by (induction q arbitrary: n) (auto split: option.splits)
  show "trie_inv (insert_code s c t)" using U(1) by (simp add: r trie_inv_def w)
  show "reaches (insert_code s c t) q \<longleftrightarrow> reaches t q \<or> prefix q (code_bits c)"
    using U(4) by (simp add: r w reaches_def)
  have "sym_at ?r q = ((sym_at u)(code_bits c := Some s)) q" for q
    using U(1,2) by (auto simp: sym_at_def w trie_inv_def nth_list_update split: option.split)
  then show "sym_at (insert_code s c t) = (sym_at t)(code_bits c := Some s)" using U(3) by (simp add: r fun_eq_iff)
qed

lemma insert_codes_spec:
  "trie_inv t \<Longrightarrow> distinct (map code_bits cs) \<Longrightarrow> (\<forall>c \<in> set cs. sym_at t (code_bits c) = None) \<Longrightarrow>
   trie_inv (insert_codes s cs t) \<and>
   (\<forall>q x. sym_at (insert_codes s cs t) q = Some x \<longleftrightarrow>
      sym_at t q = Some x \<or> (\<exists>i < length cs. x = s + i \<and> q = code_bits (cs ! i))) \<and>
   (\<forall>q. reaches (insert_codes s cs t) q \<longleftrightarrow> reaches t q \<or> (\<exists>c \<in> set cs. prefix q (code_bits c)))"
proof (induction cs arbitrary: s t)
  case (Cons c cs)
  note I = insert_code_spec [OF Cons.prems(1), of s c]
  have fresh: "\<forall>d \<in> set cs. sym_at (insert_code s c t) (code_bits d) = None"
  proof
    fix d
    assume d: "d \<in> set cs"
    then have "code_bits d \<noteq> code_bits c" using Cons.prems(2) by (metis distinct.simps(2) image_eqI list.set_map list.simps(9))
    with d Cons.prems(3) show "sym_at (insert_code s c t) (code_bits d) = None" by (simp add: I(2))
  qed
  note IH = Cons.IH [OF I(1) _ fresh, of "s + 1"]
  have ex: "(\<exists>i < length (c # cs). x = s + i \<and> q = code_bits ((c # cs) ! i)) \<longleftrightarrow>
      x = s \<and> q = code_bits c \<or> (\<exists>i < length cs. x = s + 1 + i \<and> q = code_bits (cs ! i))" for q x
    by (auto simp: less_Suc_eq_0_disj)
  have old: "sym_at (insert_code s c t) q = Some x \<longleftrightarrow> x = s \<and> q = code_bits c \<or> sym_at t q = Some x" for q x
    using Cons.prems(3) by (auto simp: I(2))
  show ?case
    using IH Cons.prems(2) unfolding ex by (auto simp: old I(3))
qed simp

lemma code_inj: "s < 257 \<Longrightarrow> s' < 257 \<Longrightarrow> symbol_code s = symbol_code s' \<Longrightarrow> s = s'"
  using code_prefix_free [of s s'] by simp

lemma build_trie_spec:
  "sym_at build_trie q = Some x \<longleftrightarrow> x < 257 \<and> q = symbol_code x"
  "reaches build_trie q \<longleftrightarrow> (\<exists>s < 257. prefix q (symbol_code s))"
  "trie_inv build_trie"
proof -
  have w: "walk empty_trie 0 q = (if q = [] then Some 0 else None)" for q
    by (cases q) (auto simp: empty_trie_def child_def)
  then have e: "trie_inv empty_trie" "sym_at empty_trie q = None" for q
    by (auto simp: trie_inv_def sym_at_def empty_trie_def)
  have d: "distinct (map code_bits CODES)"
    using code_inj by (auto simp: distinct_conv_nth symbol_code_def)
  note B = insert_codes_spec [OF e(1) d, of 0, folded build_trie_def]
  show "sym_at build_trie q = Some x \<longleftrightarrow> x < 257 \<and> q = symbol_code x" using B e(2) by (auto simp: symbol_code_def)
  show "trie_inv build_trie" using B e(2) by blast
  have "reaches build_trie q \<longleftrightarrow> q = [] \<or> (\<exists>s < 257. prefix q (symbol_code s))"
  proof -
    have "(\<exists>c \<in> set CODES. prefix q (code_bits c)) \<longleftrightarrow> (\<exists>s < 257. prefix q (symbol_code s))"
      unfolding symbol_code_def by (metis in_set_conv_nth length_CODES)
    then show ?thesis using B e(2) w by (simp add: reaches_def)
  qed
  moreover have "\<exists>s < 257. prefix q (symbol_code s)" if "q = []" using that by (intro exI [of _ 0]) simp
  ultimately show "reaches build_trie q \<longleftrightarrow> (\<exists>s < 257. prefix q (symbol_code s))" by blast
qed


section \<open>Decoding\<close>

text \<open>The loop on words instead of nodes: \<open>tail\<close> is what was read since the last symbol.\<close>

fun spell :: "bool list \<Rightarrow> bool list \<Rightarrow> nat list \<Rightarrow> (bool list \<times> nat list) option" where
  "spell tail [] ss = Some (tail, ss)"
| "spell tail (b # bs) ss =
     (if \<not> (\<exists>s < 257. prefix (tail @ [b]) (symbol_code s)) then None
      else case sym_at build_trie (tail @ [b]) of
        Some s \<Rightarrow> if s = 256 then None else spell [] bs (ss @ [s])
      | None \<Rightarrow> spell (tail @ [b]) bs ss)"

definition tail_word :: "bool list \<Rightarrow> u8" where
  "tail_word tail = foldl (\<lambda>v b. push_bit 1 v OR of_bool b) 0 tail"

lemma spell_sound:
  "spell tail bs ss = Some (tail', ss') \<Longrightarrow>
   \<exists>new. ss' = ss @ new \<and> tail @ bs = concat (map symbol_code new) @ tail' \<and> (\<forall>s \<in> set new. s < 256)"
proof (induction tail bs ss rule: spell.induct)
  case (2 tail b bs ss)
  show ?case
  proof (cases "sym_at build_trie (tail @ [b])")
    case None
    then show ?thesis using 2 by (auto split: if_splits)
  next
    case (Some s)
    then have s: "s < 257" "tail @ [b] = symbol_code s" by (simp_all add: build_trie_spec(1))
    then obtain new where "ss' = (ss @ [s]) @ new" "bs = concat (map symbol_code new) @ tail'" "\<forall>s \<in> set new. s < 256" "s \<noteq> 256"
      using 2 Some by (fastforce split: if_splits)
    moreover have "tail @ b # bs = symbol_code s @ bs" using s(2) [symmetric] by simp
    ultimately show ?thesis using s(1) by (intro exI [of _ "s # new"]) simp
  qed
qed simp

lemma spell_code:
  assumes s: "s < 256"
  shows "p @ q = symbol_code s \<Longrightarrow> q \<noteq> [] \<Longrightarrow> spell p (q @ rest) ss = spell [] rest (ss @ [s])"
proof (induction q arbitrary: p)
  case (Cons b q)
  have pre: "prefix (p @ [b]) (symbol_code s)" using Cons.prems(1) by (metis append.assoc append_Cons append_Nil prefixI)
  have in_trie: "\<exists>s < 257. prefix (p @ [b]) (symbol_code s)" using pre s by (intro exI [of _ s]) simp
  show ?case
  proof (cases "q = []")
    case True
    then have "sym_at build_trie (p @ [b]) = Some s" using Cons.prems(1) s by (simp add: build_trie_spec(1))
    then show ?thesis using True in_trie s by simp
  next
    case False
    have "sym_at build_trie (p @ [b]) = None"
    proof (rule ccontr)
      assume "sym_at build_trie (p @ [b]) \<noteq> None"
      then obtain x where x: "x < 257" "p @ [b] = symbol_code x" by (auto simp: build_trie_spec(1))
      then have "x = s" using code_prefix_free [of x s] pre s by simp
      then show False using x Cons.prems(1) False by (metis append.assoc append_Cons append_Nil append_self_conv)
    qed
    then show ?thesis using in_trie Cons.IH [of "p @ [b]"] Cons.prems(1) False by simp
  qed
qed simp

lemma spell_padding: "j + k \<le> 7 \<Longrightarrow> spell (replicate j True) (replicate k True) ss = Some (replicate (j + k) True, ss)"
proof (induction k arbitrary: j)
  case (Suc k)
  have r: "replicate j True @ [True] = replicate (Suc j) True" by (simp add: replicate_append_same)
  have pre: "prefix (replicate (Suc j) True) (symbol_code 256)"
  proof -
    have "replicate 30 True = replicate (Suc j) True @ replicate (30 - Suc j) True"
      using Suc.prems by (simp only: flip: replicate_add) simp
    then show ?thesis unfolding code_eos by (rule prefixI)
  qed
  have none: "sym_at build_trie (replicate (Suc j) True) = None"
  proof (rule ccontr)
    assume "sym_at build_trie (replicate (Suc j) True) \<noteq> None"
    then obtain x where x: "x < 257" "replicate (Suc j) True = symbol_code x" by (auto simp: build_trie_spec(1))
    then have "x = 256" using code_prefix_free [of x 256] pre by simp
    then have "Suc j = 30" using x(2) code_eos by (metis length_replicate)
    then show False using Suc.prems by simp
  qed
  have "\<exists>s < 257. prefix (replicate (Suc j) True) (symbol_code s)" using pre by (intro exI [of _ 256]) simp
  then have "spell (replicate j True) (True # replicate k True) ss = spell (replicate (Suc j) True) (replicate k True) ss"
    using none by (simp only: spell.simps r) simp
  then show ?case using Suc.IH [of "Suc j"] Suc.prems by simp
qed simp

lemma bit_tail_word: "bit (tail_word tail) i \<longleftrightarrow> i < 8 \<and> i < length tail \<and> rev tail ! i"
proof (induction tail arbitrary: i rule: rev_induct)
  case (snoc b tail)
  have "tail_word (tail @ [b]) = push_bit 1 (tail_word tail) OR of_bool b" by (simp add: tail_word_def)
  then have "bit (tail_word (tail @ [b])) i \<longleftrightarrow> (i < 8 \<and> 1 \<le> i \<and> bit (tail_word tail) (i - 1)) \<or> i = 0 \<and> b"
    by (simp only: bit_or_iff bit_push_bit_iff bit_of_bool_iff possible_bit_word) auto
  then show ?case unfolding snoc.IH by (cases i) auto
qed (simp add: tail_word_def)

lemma tail_word_ones:
  assumes "length tail \<le> 7"
  shows "(ucast (tail_word tail) :: u16) = push_bit (length tail) 1 - 1 \<longleftrightarrow> tail = replicate (length tail) True"
proof -
  have m: "push_bit (length tail) 1 - 1 = (mask (length tail) :: u16)"
    by (simp add: mask_eq_exp_minus_1 push_bit_eq_mult)
  have "(ucast (tail_word tail) :: u16) = mask (length tail) \<longleftrightarrow> (\<forall>i < length tail. rev tail ! i)"
    (is "?l \<longleftrightarrow> ?r")
  proof -
    have "?l \<longleftrightarrow> (\<forall>i < 16. (i < 8 \<and> i < length tail \<and> rev tail ! i) \<longleftrightarrow> i < length tail)"
      by (auto simp: bit_eq_iff bit_ucast_iff bit_mask_iff bit_tail_word)
    also have "\<dots> \<longleftrightarrow> ?r"
    proof
      assume a: "\<forall>i < 16. (i < 8 \<and> i < length tail \<and> rev tail ! i) \<longleftrightarrow> i < length tail"
      show ?r
      proof (intro allI impI)
        fix i
        assume "i < length tail"
        moreover from this assms have "i < 16" by simp
        ultimately show "rev tail ! i" using a by blast
      qed
    next
      assume ?r
      then show "\<forall>i < 16. (i < 8 \<and> i < length tail \<and> rev tail ! i) \<longleftrightarrow> i < length tail"
        using assms by auto
    qed
    finally show ?thesis .
  qed
  also have "\<dots> \<longleftrightarrow> (\<forall>x \<in> set tail. x)" by (metis in_set_conv_nth length_rev set_rev)
  also have "\<dots> \<longleftrightarrow> tail = replicate (length tail) True" by (induction tail) auto
  finally show ?thesis unfolding m .
qed

lemma walk_sym: "walk build_trie 0 p = Some n \<Longrightarrow> tr_sym build_trie ! n = sym_at build_trie p"
  by (simp add: sym_at_def)

lemma decode_loop_spell:
  "walk build_trie 0 tail = Some node \<Longrightarrow> 5 * length ss + length tail + length bits < 5 * Suc limit \<Longrightarrow>
   decode_loop build_trie limit bits node (min (length tail) 255) (tail_word tail) (map of_nat ss) =
   (case spell tail bits ss of None \<Rightarrow> None
    | Some (tail, ss) \<Rightarrow> Some (the (walk build_trie 0 tail), min (length tail) 255, tail_word tail, map of_nat ss))"
proof (induction tail bits ss arbitrary: node rule: spell.induct)
  case (2 tail b bs ss)
  have child: "child (tr_nodes build_trie ! node) b = walk build_trie 0 (tail @ [b])"
    using 2(3) by (simp add: walk_snoc)
  show ?case
  proof (cases "walk build_trie 0 (tail @ [b])")
    case None
    then have "\<not> (\<exists>s < 257. prefix (tail @ [b]) (symbol_code s))" using build_trie_spec(2) [of "tail @ [b]"] by (auto simp: reaches_def)
    then show ?thesis using None child by simp
  next
    case (Some m)
    then have r: "\<exists>s < 257. prefix (tail @ [b]) (symbol_code s)" using build_trie_spec(2) [of "tail @ [b]"] by (auto simp: reaches_def)
    have word: "push_bit 1 (tail_word tail) OR of_bool b = tail_word (tail @ [b])" by (simp add: tail_word_def)
    have bits: "min (min (length tail) 255 + 1) 255 = min (length (tail @ [b])) 255" by simp
    show ?thesis
    proof (cases "sym_at build_trie (tail @ [b])")
      case None
      then have "decode_loop build_trie limit (b # bs) node (min (length tail) 255) (tail_word tail) (map of_nat ss) =
        decode_loop build_trie limit bs m (min (length (tail @ [b])) 255) (tail_word (tail @ [b])) (map of_nat ss)"
        using child Some walk_sym [OF Some] by (simp only: decode_loop.simps Let_def word bits option.case)
      with 2(1) [OF _ None Some] 2(4) r None show ?thesis by simp
    next
      case sym: (Some s)
      then have "s < 257" and c: "tail @ [b] = symbol_code s" by (simp_all add: build_trie_spec(1))
      from arg_cong [OF c, of length] have "length (symbol_code s) = Suc (length tail)" by simp
      with \<open>s < 257\<close> have "length ss < limit" using code_length [of s] 2(4) by simp
      then have d: "decode_loop build_trie limit (b # bs) node (min (length tail) 255) (tail_word tail) (map of_nat ss) =
        (if s = 256 then None else decode_loop build_trie limit bs 0 (min (length []) 255) (tail_word []) (map of_nat (ss @ [s])))"
        using child Some walk_sym [OF Some] sym by (simp add: Let_def tail_word_def)
      have "5 * length (ss @ [s]) + length [] + length bs < 5 * Suc limit"
        using 2(4) \<open>length (symbol_code s) = _\<close> code_length [OF \<open>s < 257\<close>] by simp
      with 2(2) [OF _ sym, of 0] r show ?thesis by (intro trans [OF d]) (auto simp: sym)
    qed
  qed
qed simp

lemma spell_walk: "spell tail bs ss = Some (tail', ss') \<Longrightarrow> walk build_trie 0 tail \<noteq> None \<Longrightarrow> walk build_trie 0 tail' \<noteq> None"
proof (induction tail bs ss rule: spell.induct)
  case (2 tail b bs ss)
  then show ?case using build_trie_spec(2) [of "tail @ [b]"] by (auto simp: reaches_def split: if_splits option.splits)
qed simp

lemma spell_symbols: "\<forall>s \<in> set new. s < 256 \<Longrightarrow> spell [] (concat (map symbol_code new) @ rest) ss = spell [] rest (ss @ new)"
proof (induction new arbitrary: ss)
  case (Cons s new)
  then have "symbol_code s \<noteq> []" using code_length [of s] by auto
  then show ?case using Cons spell_code [of s "[]" "symbol_code s"] by simp
qed simp

lemma length_bytes_bits [simp]: "length (bytes_bits bs) = 8 * length bs"
  by (induction bs) (simp_all add: bytes_bits_def octet_bits_def)

theorem huffman_decode_exact:
  "huffman_decode bs = Some out \<longleftrightarrow>
   (\<exists>k \<le> 7. bytes_bits bs = concat (map (symbol_code \<circ> unat) out) @ replicate k True)"
proof -
  have start: "decode_loop build_trie (length bs * 2 + 16) (bytes_bits bs) 0 0 0 [] =
    (case spell [] (bytes_bits bs) [] of None \<Rightarrow> None
     | Some (tail, ss) \<Rightarrow> Some (the (walk build_trie 0 tail), min (length tail) 255, tail_word tail, map of_nat ss))"
    using decode_loop_spell [of "[]" 0 "[]" "bytes_bits bs" "length bs * 2 + 16"] by (simp add: tail_word_def)
  have root: "the (walk build_trie 0 tail) = 0 \<longleftrightarrow> tail = []" if "spell [] (bytes_bits bs) [] = Some (tail, ss)" for tail ss
    using spell_walk [OF that] build_trie_spec(3) by (force simp: trie_inv_def)
  have dec: "huffman_decode bs = Some out \<longleftrightarrow>
    (\<exists>tail ss. spell [] (bytes_bits bs) [] = Some (tail, ss) \<and> out = map of_nat ss \<and>
       length tail \<le> 7 \<and> tail = replicate (length tail) True)"
    using root tail_word_ones by (fastforce simp: huffman_decode_def start split: option.splits prod.splits if_splits)
  show ?thesis
  proof
    assume "huffman_decode bs = Some out"
    then obtain tail ss where t: "spell [] (bytes_bits bs) [] = Some (tail, ss)" "out = map of_nat ss"
      "length tail \<le> 7" "tail = replicate (length tail) True" unfolding dec by blast
    from spell_sound [OF t(1)] have "bytes_bits bs = concat (map symbol_code ss) @ tail" "\<forall>s \<in> set ss. s < 256" by auto
    moreover have "map (symbol_code \<circ> unat) out = map symbol_code ss" unfolding t(2) using calculation(2)
      by (simp add: unat_of_nat)
    ultimately show "\<exists>k \<le> 7. bytes_bits bs = concat (map (symbol_code \<circ> unat) out) @ replicate k True" using t(3,4) by metis
  next
    assume "\<exists>k \<le> 7. bytes_bits bs = concat (map (symbol_code \<circ> unat) out) @ replicate k True"
    then obtain k where k: "k \<le> 7" "bytes_bits bs = concat (map symbol_code (map unat out)) @ replicate k True" by auto
    have "\<forall>s \<in> set (map unat out). s < 256" by (auto intro: order_less_le_trans [OF unsigned_less])
    then have "spell [] (bytes_bits bs) [] = Some (replicate k True, map unat out)"
      using spell_symbols [of "map unat out" "replicate k True" "[]"] spell_padding [of 0 k] k by simp
    then show "huffman_decode bs = Some out" unfolding dec using k(1)
      by (intro exI [of _ "replicate k True"] exI [of _ "map unat out"]) (simp add: comp_def)
  qed
qed

section \<open>Encoding\<close>

definition msb_bits :: "'a::len word \<Rightarrow> nat \<Rightarrow> bool list" where
  "msb_bits w n = map (bit w) (rev [0..<n])"

lemma length_msb_bits [simp]: "length (msb_bits w n) = n"
  by (simp add: msb_bits_def)

lemma nth_msb_bits: "i < n \<Longrightarrow> msb_bits w n ! i = bit w (n - Suc i)"
  by (simp add: msb_bits_def rev_nth)

lemma octet_bits_msb: "octet_bits b = msb_bits b 8"
  by (simp add: octet_bits_def msb_bits_def)

lemma code_bits_msb: "code_bits c = msb_bits (fst c) (snd c)"
  by (simp add: code_bits_def msb_bits_def)

lemma bytes_bits_append [simp]: "bytes_bits (xs @ ys) = bytes_bits xs @ bytes_bits ys"
  by (simp add: bytes_bits_def)

lemma msb_bits_octet:
  fixes acc :: "'a::len word"
  assumes "8 \<le> n"
  shows "octet_bits (ucast (drop_bit (n - 8) acc)) @ msb_bits acc (n - 8) = msb_bits acc n"
proof (rule nth_equalityI)
  fix i
  assume "i < length (octet_bits (ucast (drop_bit (n - 8) acc)) @ msb_bits acc (n - 8))"
  then have "i < n" using assms by (simp add: octet_bits_msb)
  with assms show "(octet_bits (ucast (drop_bit (n - 8) acc)) @ msb_bits acc (n - 8)) ! i = msb_bits acc n ! i"
    by (auto simp: octet_bits_msb nth_append nth_msb_bits bit_ucast_iff bit_drop_bit_eq
             intro!: arg_cong [of _ _ "bit acc"])
qed (use assms in \<open>simp add: octet_bits_msb\<close>)

lemma drain_bits:
  "drain acc n out = (n', out') \<Longrightarrow> n' < 8 \<and> bytes_bits out' @ msb_bits acc n' = bytes_bits out @ msb_bits acc n"
proof (induction acc n out rule: drain.induct)
  case (1 acc n out)
  show ?case
  proof (cases "8 \<le> n")
    case True
    then have "drain acc (n - 8) (out @ [ucast (drop_bit (n - 8) acc)]) = (n', out')"
      using 1(2) by (simp add: drain.simps [of acc n])
    with 1(1) [OF True] have "n' < 8"
      "bytes_bits out' @ msb_bits acc n' = bytes_bits out @ octet_bits (ucast (drop_bit (n - 8) acc)) @ msb_bits acc (n - 8)"
      by (simp_all add: bytes_bits_def)
    then show ?thesis by (simp add: msb_bits_octet [OF True])
  next
    case False
    then show ?thesis using 1(2) by (simp add: drain.simps [of acc n])
  qed
qed

lemma msb_bits_push:
  fixes acc :: "'a::len word" and c :: "'b::len word"
  assumes "n + k \<le> LENGTH('a)" "uint c < 2 ^ k"
  shows "msb_bits (push_bit k acc OR ucast c) (n + k) = msb_bits acc n @ msb_bits c k"
proof (rule nth_equalityI)
  have small: "\<not> bit c j" if "k \<le> j" for j
  proof -
    have "take_bit k (uint c) = uint c" using assms(2) by (simp add: take_bit_int_eq_self)
    then show ?thesis using that by (metis bit_take_bit_iff bit_uint_iff bit_imp_le_length not_le)
  qed
  fix i
  assume "i < length (msb_bits (push_bit k acc OR ucast c) (n + k))"
  then have i: "i < n + k" by simp
  have "bit (push_bit k acc OR ucast c) (n + k - Suc i) \<longleftrightarrow>
      (if i < n then bit acc (n - Suc i) else bit c (n + k - Suc i))"
    using i assms(1) small [of "n + k - Suc i"]
    by (auto simp: bit_or_iff bit_push_bit_iff bit_ucast_iff)
  then show "msb_bits (push_bit k acc OR ucast c) (n + k) ! i = (msb_bits acc n @ msb_bits c k) ! i"
    using i by (auto simp: nth_append nth_msb_bits add.commute)
qed simp

lemma msb_bits_mask: "n \<le> LENGTH('a) \<Longrightarrow> msb_bits (acc AND (push_bit n 1 - 1) :: 'a::len word) n = msb_bits acc n"
  by (auto simp: msb_bits_def bit_and_iff bit_mask_iff push_bit_eq_mult simp flip: mask_eq_exp_minus_1)

lemma encode_loop_bits:
  "n < 8 \<Longrightarrow> encode_loop input acc n out = (acc', n', out') \<Longrightarrow>
   n' < 8 \<and> bytes_bits out' @ msb_bits acc' n' = bytes_bits out @ msb_bits acc n @ concat (map (symbol_code \<circ> unat) input)"
proof (induction input acc n out rule: encode_loop.induct)
  case (2 byte input acc n out)
  obtain c k where ck: "CODES ! unat byte = (c, k)" by fastforce
  have "unat byte < 257" by (rule order_less_le_trans [OF unsigned_less]) simp
  then have k: "5 \<le> k" "k \<le> 30" "uint c < 2 ^ k" using table_lengths ck by (fastforce simp: list_all_length)+
  let ?acc = "push_bit k acc OR ucast c"
  obtain m u where d: "drain ?acc (n + k) out = (m, u)" by fastforce
  from drain_bits [OF d] have m: "m < 8"
    "bytes_bits u @ msb_bits ?acc m = bytes_bits out @ msb_bits acc n @ symbol_code (unat byte)"
    using msb_bits_push [of n k c acc] 2(2) k by (simp_all add: symbol_code_def code_bits_msb ck)
  let ?next = "if m = 0 then 0 else ?acc AND (push_bit m 1 - 1)"
  have next_bits: "msb_bits ?next m = msb_bits ?acc m" using m(1) msb_bits_mask [of m ?acc] by (cases "m = 0") (simp_all add: msb_bits_def [where n = 0])
  have "encode_loop input ?next m u = (acc', n', out')" using 2(3) ck d by simp
  from 2(1) [OF refl ck [symmetric] refl d [symmetric] m(1) this] m(2) next_bits show ?case by simp
qed simp

lemma huffman_encode_bits:
  "\<exists>k \<le> 7. bytes_bits (huffman_encode s) = concat (map (symbol_code \<circ> unat) s) @ replicate k True"
proof -
  obtain acc n out where e: "encode_loop s 0 0 [] = (acc, n, out)" using prod_cases3 by blast
  from encode_loop_bits [OF _ e] have n: "n < 8" "bytes_bits out @ msb_bits acc n = concat (map (symbol_code \<circ> unat) s)"
    by (simp_all add: bytes_bits_def msb_bits_def)
  show ?thesis
  proof (cases "n = 0")
    case True
    then show ?thesis using n(2) e by (intro exI [of _ 0]) (simp add: huffman_encode_def msb_bits_def)
  next
    case False
    let ?pad = "8 - n"
    have m: "push_bit ?pad 1 - 1 = (mask ?pad :: u64)" by (simp add: mask_eq_exp_minus_1 push_bit_eq_mult)
    have "octet_bits (ucast (push_bit ?pad acc OR (push_bit ?pad 1 - 1))) = msb_bits acc n @ replicate ?pad True"
      unfolding m octet_bits_msb using n(1)
      by (intro nth_equalityI)
        (auto simp: nth_msb_bits nth_append bit_ucast_iff bit_or_iff bit_push_bit_iff bit_mask_iff)
    then have "bytes_bits (huffman_encode s) = concat (map (symbol_code \<circ> unat) s) @ replicate ?pad True"
      using e False n(2) [symmetric] by (simp add: huffman_encode_def Let_def bytes_bits_def)
    then show ?thesis using False by (intro exI [of _ ?pad]) simp
  qed
qed

theorem huffman_roundtrip: "huffman_decode (huffman_encode s) = Some s"
  unfolding huffman_decode_exact by (rule huffman_encode_bits)

end
