(* ===== verification/Hpack.thy ===== *)
theory Hpack
  imports HuffmanCodec
begin

text \<open>
  Header compression, \<open>onetdns-http2/src/hpack.rs\<close>: variable-length integers, strings, the static
  table, the decoder with its dynamic table and the response encoder. The front of the dynamic table
  is the head of the list. \<open>usize\<close> has 64 bits here, so \<open>usize::try_from\<close> of a \<open>u64\<close> never fails.
\<close>

unbundle bit_operations_syntax

section \<open>Constants and the static table\<close>

definition MAX_DECODED_HEADER_LIST :: nat where
  "MAX_DECODED_HEADER_LIST = 32 * 1024"

definition as_bytes :: "string \<Rightarrow> bytes" where
  "as_bytes s = map of_char s"

type_synonym header_field = "bytes \<times> bytes"

definition STATIC :: "header_field list" where
  "STATIC = map (\<lambda>(n, v). (as_bytes n, as_bytes v)) [
    ('':authority'', []), ('':method'', ''GET''), ('':method'', ''POST''), ('':path'', ''/''),
    ('':path'', ''/index.html''), ('':scheme'', ''http''), ('':scheme'', ''https''),
    ('':status'', ''200''), ('':status'', ''204''), ('':status'', ''206''), ('':status'', ''304''),
    ('':status'', ''400''), ('':status'', ''404''), ('':status'', ''500''),
    (''accept-charset'', []), (''accept-encoding'', ''gzip, deflate''), (''accept-language'', []),
    (''accept-ranges'', []), (''accept'', []), (''access-control-allow-origin'', []),
    (''age'', []), (''allow'', []), (''authorization'', []), (''cache-control'', []),
    (''content-disposition'', []), (''content-encoding'', []), (''content-language'', []),
    (''content-length'', []), (''content-location'', []), (''content-range'', []),
    (''content-type'', []), (''cookie'', []), (''date'', []), (''etag'', []), (''expect'', []),
    (''expires'', []), (''from'', []), (''host'', []), (''if-match'', []),
    (''if-modified-since'', []), (''if-none-match'', []), (''if-range'', []),
    (''if-unmodified-since'', []), (''last-modified'', []), (''link'', []), (''location'', []),
    (''max-forwards'', []), (''proxy-authenticate'', []), (''proxy-authorization'', []),
    (''range'', []), (''referer'', []), (''refresh'', []), (''retry-after'', []), (''server'', []),
    (''set-cookie'', []), (''strict-transport-security'', []), (''transfer-encoding'', []),
    (''user-agent'', []), (''vary'', []), (''via'', []), (''www-authenticate'', [])]"

section \<open>Integers\<close>

text \<open>
  The loop over the continuation bytes. The iter_position is kept by the remaining input: \<open>i\<close> counts the
  bytes taken so far.
\<close>

fun decode_int_loop :: "bytes \<Rightarrow> u64 \<Rightarrow> nat \<Rightarrow> nat \<Rightarrow> (u64 \<times> nat) option" where
  "decode_int_loop [] value m i = None"
| "decode_int_loop (byte # rest) value m i =
     (let b = ucast byte :: u64; i = i + 1; low = b AND 0x7f in
      if m \<ge> 64 \<or> low > drop_bit m (- 1) then None
      else
        case checked_add (unat value) (unat (push_bit m low)) of
          None \<Rightarrow> None
        | Some _ \<Rightarrow>
            (let value = value + push_bit m low; m = m + 7 in
             if b AND 0x80 = 0 then Some (value, i)
             else if m > 63 then None
             else decode_int_loop rest value m i))"

definition int_mask :: "nat \<Rightarrow> u64" where
  "int_mask prefix_bits = ucast (push_bit prefix_bits (1 :: u16)) - 1"

definition decode_int :: "bytes \<Rightarrow> nat \<Rightarrow> (u64 \<times> nat) option" where
  "decode_int buf prefix_bits =
     (if \<not> (1 \<le> prefix_bits \<and> prefix_bits \<le> 8) then None
      else
        case buf of
          [] \<Rightarrow> None
        | first # rest \<Rightarrow>
            (let mask = int_mask prefix_bits; value = ucast first AND mask in
             if value < mask then Some (value, 1) else decode_int_loop rest value 0 1))"

lemma unat_drop_7: "unat (drop_bit 7 v) = unat v div 128" for v :: u64
  by (simp add: drop_bit_eq_div unat_div)

function encode_int_loop :: "bytes \<Rightarrow> u64 \<Rightarrow> bytes" where
  "encode_int_loop out v =
     (if v \<ge> 128 then encode_int_loop (out @ [(ucast v AND 0x7f) OR 0x80]) (drop_bit 7 v)
      else out @ [ucast v])"
  by auto
termination
  by (relation "measure (unat \<circ> snd)") (auto simp: unat_drop_7 word_le_nat_alt intro!: div_less_dividend)

declare encode_int_loop.simps [simp del]

definition encode_int :: "bytes \<Rightarrow> u64 \<Rightarrow> nat \<Rightarrow> u8 \<Rightarrow> bytes" where
  "encode_int out value prefix_bits first_high =
     (let mask = int_mask prefix_bits in
      if value < mask then out @ [first_high OR ucast value]
      else encode_int_loop (out @ [first_high OR ucast mask]) (value - mask))"

section \<open>Strings\<close>

definition decode_string :: "bytes \<Rightarrow> (bytes \<times> nat) option" where
  "decode_string buf =
     (case buf of
        [] \<Rightarrow> None
      | first # _ \<Rightarrow>
          (let huff = first AND 0x80 \<noteq> 0 in
           case decode_int buf 7 of
             None \<Rightarrow> None
           | Some (len, n) \<Rightarrow>
               case checked_add n (unat len) of
                 None \<Rightarrow> None
               | Some end_pos \<Rightarrow>
                   if end_pos > length buf then None
                   else
                     (let raw = take (unat len) (drop n buf) in
                      if huff then
                        (case huffman_decode raw of None \<Rightarrow> None | Some s \<Rightarrow> Some (s, end_pos))
                      else Some (raw, end_pos))))"

definition encode_string :: "bytes \<Rightarrow> bytes \<Rightarrow> bool \<Rightarrow> bytes" where
  "encode_string out s use_huffman =
     (let huff = use_huffman \<and> list_all (\<lambda>b. b < 128) s; enc = huffman_encode s in
      if huff \<and> length enc < length s
      then encode_int out (of_nat (length enc)) 7 0x80 @ enc
      else encode_int out (of_nat (length s)) 7 0 @ s)"

section \<open>The decoder\<close>

record decoder =
  dynamic :: "header_field list"
  table_size :: nat
  max_size :: nat
  allowed_max_size :: nat

definition entry_size :: "bytes \<Rightarrow> bytes \<Rightarrow> nat" where
  "entry_size n v = length n + length v + 32"

definition new_decoder :: "nat \<Rightarrow> decoder" where
  "new_decoder advertised = \<lparr>dynamic = [], table_size = 0, max_size = advertised, allowed_max_size = advertised\<rparr>"

definition lookup :: "decoder \<Rightarrow> u64 \<Rightarrow> header_field option" where
  "lookup d index =
     (if index = 0 then None
      else
        (let i = unat index in
         if i \<le> length STATIC then Some (STATIC ! (i - 1))
         else
           (let k = i - length STATIC - 1 in
            if k < length (dynamic d) then Some (dynamic d ! k) else None)))"

function evict :: "decoder \<Rightarrow> decoder" where
  "evict d =
     (if table_size d > max_size d \<and> dynamic d \<noteq> [] then
        (case last (dynamic d) of
           (n, v) \<Rightarrow> evict (d\<lparr>dynamic := butlast (dynamic d), table_size := table_size d - entry_size n v\<rparr>))
      else d)"
  by auto
termination by (relation "measure (\<lambda>d. length (dynamic d))") auto

declare evict.simps [simp del]

definition insert_entry :: "decoder \<Rightarrow> bytes \<Rightarrow> bytes \<Rightarrow> decoder" where
  "insert_entry d name val =
     evict (d\<lparr>dynamic := (name, val) # dynamic d, table_size := table_size d + entry_size name val\<rparr>)"

definition set_max :: "decoder \<Rightarrow> nat \<Rightarrow> decoder \<times> bool" where
  "set_max d m = (if m > allowed_max_size d then (d, False) else (evict (d\<lparr>max_size := m\<rparr>), True))"

definition read_literal :: "decoder \<Rightarrow> bytes \<Rightarrow> nat \<Rightarrow> (bytes \<times> bytes \<times> nat) option" where
  "read_literal d buf prefix_bits =
     (case decode_int buf prefix_bits of
        None \<Rightarrow> None
      | Some (name_idx, pos) \<Rightarrow>
          (case (if name_idx = 0 then
                   (case decode_string (drop pos buf) of
                      None \<Rightarrow> None
                    | Some (n, used) \<Rightarrow> Some (n, pos + used))
                 else map_option (\<lambda>(n, _). (n, pos)) (lookup d name_idx)) of
             None \<Rightarrow> None
           | Some (name, pos) \<Rightarrow>
               (case decode_string (drop pos buf) of
                  None \<Rightarrow> None
                | Some (val, used) \<Rightarrow> Some (name, val, pos + used))))"

text \<open>The closure that counts what was decoded, and the loop over the block.\<close>

definition account :: "nat \<Rightarrow> bytes \<Rightarrow> bytes \<Rightarrow> nat option" where
  "account decoded_size name val =
     (case checked_add decoded_size (length name + length val + 32) of
        None \<Rightarrow> None
      | Some n \<Rightarrow> if n \<le> MAX_DECODED_HEADER_LIST then Some n else None)"

lemma decode_int_loop_used:
  "decode_int_loop buf v m i = Some (v', n) \<Longrightarrow> i < n \<and> n \<le> i + length buf \<and> 7 * n \<le> 7 * i + (70 - m)"
  by (induction buf v m i rule: decode_int_loop.induct)
    (fastforce simp: Let_def split: if_splits option.splits)+

lemma decode_int_used:
  "decode_int buf p = Some (v, n) \<Longrightarrow> 1 \<le> n \<and> n \<le> length buf \<and> n \<le> 11"
  by (auto simp: decode_int_def Let_def split: if_splits list.splits dest!: decode_int_loop_used)

lemma decode_string_used: "decode_string buf = Some (s, n) \<Longrightarrow> 1 \<le> n \<and> n \<le> length buf"
  by (auto simp: decode_string_def checked_add_def Let_def split: if_splits list.splits option.splits dest!: decode_int_used)

lemma read_literal_used: "read_literal d buf p = Some (name, val, n) \<Longrightarrow> 1 \<le> n \<and> n \<le> length buf"
  by (auto simp: read_literal_def split: if_splits option.splits prod.splits dest!: decode_int_used decode_string_used)

function decode_block ::
    "decoder \<Rightarrow> bytes \<Rightarrow> header_field list \<Rightarrow> nat \<Rightarrow> nat \<Rightarrow> nat option \<Rightarrow> decoder \<times> header_field list option" where
  "decode_block d buf out decoded_size size_updates first_size_update =
     (case buf of
        [] \<Rightarrow> (d, Some out)
      | first # _ \<Rightarrow>
          if first AND 0x80 \<noteq> 0 then
            (case decode_int buf 7 of
               None \<Rightarrow> (d, None)
             | Some (idx, n) \<Rightarrow>
                 (case lookup d idx of
                    None \<Rightarrow> (d, None)
                  | Some (name, val) \<Rightarrow>
                      (case account decoded_size name val of
                         None \<Rightarrow> (d, None)
                       | Some decoded_size \<Rightarrow>
                           decode_block d (drop n buf) (out @ [(name, val)]) decoded_size size_updates first_size_update)))
          else if first AND 0x40 \<noteq> 0 then
            (case read_literal d buf 6 of
               None \<Rightarrow> (d, None)
             | Some (name, val, consumed) \<Rightarrow>
                 (case account decoded_size name val of
                    None \<Rightarrow> (d, None)
                  | Some decoded_size \<Rightarrow>
                      decode_block (insert_entry d name val) (drop consumed buf) (out @ [(name, val)])
                        decoded_size size_updates first_size_update))
          else if first AND 0x20 \<noteq> 0 then
            (case decode_int buf 5 of
               None \<Rightarrow> (d, None)
             | Some (new_size, n) \<Rightarrow>
                 (let new_size = unat new_size in
                  if out \<noteq> [] \<or> size_updates \<ge> 2 \<or>
                     (case first_size_update of None \<Rightarrow> False | Some first \<Rightarrow> new_size < first)
                  then (d, None)
                  else
                    (case set_max d new_size of
                       (d, False) \<Rightarrow> (d, None)
                     | (d, True) \<Rightarrow>
                         decode_block d (drop n buf) out decoded_size (size_updates + 1)
                           (Some (case first_size_update of None \<Rightarrow> new_size | Some first \<Rightarrow> first)))))
          else
            (case read_literal d buf 4 of
               None \<Rightarrow> (d, None)
             | Some (name, val, consumed) \<Rightarrow>
                 (case account decoded_size name val of
                    None \<Rightarrow> (d, None)
                  | Some decoded_size \<Rightarrow>
                      decode_block d (drop consumed buf) (out @ [(name, val)]) decoded_size size_updates first_size_update)))"
  by pat_completeness auto
termination
  by (relation "measure (\<lambda>(d, buf, _). length buf)") (auto dest!: decode_int_used read_literal_used)

declare decode_block.simps [simp del]

definition decode_headers :: "decoder \<Rightarrow> bytes \<Rightarrow> decoder \<times> header_field list option" where
  "decode_headers d buf = decode_block d buf [] 0 0 None"

section \<open>The response encoder\<close>

fun iter_position :: "('a \<Rightarrow> bool) \<Rightarrow> 'a list \<Rightarrow> nat option" where
  "iter_position p [] = None"
| "iter_position p (x # xs) = (if p x then Some 0 else map_option Suc (iter_position p xs))"

fun encode_response_loop :: "header_field list \<Rightarrow> bytes \<Rightarrow> bytes" where
  "encode_response_loop [] out = out"
| "encode_response_loop ((name, val) # headers) out =
     encode_response_loop headers
       (case iter_position (\<lambda>(n, v). n = name \<and> v = val) STATIC of
          Some i \<Rightarrow> encode_int out (of_nat (i + 1)) 7 0x80
        | None \<Rightarrow>
            (case iter_position (\<lambda>(n, _). n = name) STATIC of
               Some i \<Rightarrow> encode_string (encode_int out (of_nat (i + 1)) 4 0) val True
             | None \<Rightarrow> encode_string (encode_string (out @ [0]) name True) val True))"

definition encode_response :: "header_field list \<Rightarrow> bytes" where
  "encode_response headers = encode_response_loop headers []"

end
