(* ===== verification/Http2Frame.thy ===== *)
theory Http2Frame
  imports Hpack "HOL-Library.AList"
begin

text \<open>
  Frames of HTTP/2, \<open>onetdns-http2/src/frame.rs\<close> and \<open>wire.rs\<close>, and the field check of \<open>lib.rs\<close>. What
  is left of the input is a byte list; at its end the peer has closed the connection.
\<close>

unbundle bit_operations_syntax

section \<open>Constants\<close>

definition PREFACE :: bytes where
  "PREFACE = as_bytes ''PRI * HTTP/2.0'' @ [13, 10, 13, 10] @ as_bytes ''SM'' @ [13, 10, 13, 10]"

definition FRAME_HEADER_LEN :: nat where "FRAME_HEADER_LEN = 9"
definition DEFAULT_MAX_FRAME :: nat where "DEFAULT_MAX_FRAME = 16384"

definition FT_DATA :: u8 where "FT_DATA = 0x0"
definition FT_HEADERS :: u8 where "FT_HEADERS = 0x1"
definition FT_PRIORITY :: u8 where "FT_PRIORITY = 0x2"
definition FT_RST_STREAM :: u8 where "FT_RST_STREAM = 0x3"
definition FT_SETTINGS :: u8 where "FT_SETTINGS = 0x4"
definition FT_PUSH_PROMISE :: u8 where "FT_PUSH_PROMISE = 0x5"
definition FT_PING :: u8 where "FT_PING = 0x6"
definition FT_GOAWAY :: u8 where "FT_GOAWAY = 0x7"
definition FT_WINDOW_UPDATE :: u8 where "FT_WINDOW_UPDATE = 0x8"
definition FT_CONTINUATION :: u8 where "FT_CONTINUATION = 0x9"

lemmas frame_types = FT_DATA_def FT_HEADERS_def FT_PRIORITY_def FT_RST_STREAM_def FT_SETTINGS_def
  FT_PUSH_PROMISE_def FT_PING_def FT_GOAWAY_def FT_WINDOW_UPDATE_def FT_CONTINUATION_def

definition FLAG_END_STREAM :: u8 where "FLAG_END_STREAM = 0x1"
definition FLAG_ACK :: u8 where "FLAG_ACK = 0x1"
definition FLAG_END_HEADERS :: u8 where "FLAG_END_HEADERS = 0x4"
definition FLAG_PADDED :: u8 where "FLAG_PADDED = 0x8"
definition FLAG_PRIORITY :: u8 where "FLAG_PRIORITY = 0x20"

lemmas frame_flags = FLAG_END_STREAM_def FLAG_ACK_def FLAG_END_HEADERS_def FLAG_PADDED_def FLAG_PRIORITY_def

definition SET_ENABLE_PUSH :: u16 where "SET_ENABLE_PUSH = 0x2"
definition SET_MAX_CONCURRENT_STREAMS :: u16 where "SET_MAX_CONCURRENT_STREAMS = 0x3"
definition SET_INITIAL_WINDOW_SIZE :: u16 where "SET_INITIAL_WINDOW_SIZE = 0x4"
definition SET_MAX_FRAME_SIZE :: u16 where "SET_MAX_FRAME_SIZE = 0x5"
definition SET_MAX_HEADER_LIST_SIZE :: u16 where "SET_MAX_HEADER_LIST_SIZE = 0x6"

definition REFUSED_STREAM :: u32 where "REFUSED_STREAM = 0x7"
definition CANCEL :: u32 where "CANCEL = 0x8"

datatype h2_error = H2Io | H2Protocol | H2Closed | H2BadStatus

section \<open>Frame headers\<close>

record frame_header =
  fh_length :: u32
  fh_type :: u8
  fh_flags :: u8
  fh_stream :: u32

definition parse_frame_header :: "bytes \<Rightarrow> frame_header option" where
  "parse_frame_header b =
     (if length b < FRAME_HEADER_LEN then None
      else Some \<lparr>fh_length = u32_from_be_bytes [0, b ! 0, b ! 1, b ! 2], fh_type = b ! 3, fh_flags = b ! 4,
                 fh_stream = u32_from_be_bytes [b ! 5, b ! 6, b ! 7, b ! 8] AND 0x7fffffff\<rparr>)"

definition encode_frame_header :: "frame_header \<Rightarrow> bytes" where
  "encode_frame_header h =
     (let l = u32_to_be_bytes (fh_length h); s = u32_to_be_bytes (fh_stream h AND 0x7fffffff) in
      [l ! 1, l ! 2, l ! 3, fh_type h, fh_flags h, s ! 0, s ! 1, s ! 2, s ! 3])"

definition has_flag :: "frame_header \<Rightarrow> u8 \<Rightarrow> bool" where
  "has_flag h f \<longleftrightarrow> fh_flags h AND f \<noteq> 0"

definition write_frame :: "bytes \<Rightarrow> u8 \<Rightarrow> u8 \<Rightarrow> u32 \<Rightarrow> bytes \<Rightarrow> bytes" where
  "write_frame out frame_type flags stream_id payload =
     out @ encode_frame_header \<lparr>fh_length = of_nat (length payload), fh_type = frame_type, fh_flags = flags,
                                fh_stream = stream_id\<rparr> @ payload"

section \<open>Reading\<close>

text \<open>
  \<open>read_frame\<close>: a header and a payload off the front of the input. A header cut short by the end of
  the input and a payload cut short are both the end of the connection.
\<close>

definition read_frame :: "bytes \<Rightarrow> h2_error + (frame_header \<times> bytes \<times> bytes)" where
  "read_frame input =
     (if length input < FRAME_HEADER_LEN then Inl H2Closed
      else
        case parse_frame_header (take FRAME_HEADER_LEN input) of
          None \<Rightarrow> Inl H2Protocol
        | Some h \<Rightarrow>
            (let n = unat (fh_length h); rest = drop FRAME_HEADER_LEN input in
             if n > DEFAULT_MAX_FRAME then Inl H2Protocol
             else if length rest < n then Inl H2Closed
             else Inr (h, take n rest, drop n rest)))"

definition strip_headers :: "bytes \<Rightarrow> u8 \<Rightarrow> h2_error + bytes" where
  "strip_headers payload fl =
     (if fl AND FLAG_PADDED \<noteq> 0 \<and> payload = [] then Inl H2Protocol
      else
        (let pad = (if fl AND FLAG_PADDED \<noteq> 0 then unat (hd payload) else 0);
             p = (if fl AND FLAG_PADDED \<noteq> 0 then tl payload else payload) in
         if fl AND FLAG_PRIORITY \<noteq> 0 \<and> length p < 5 then Inl H2Protocol
         else
           (let p = (if fl AND FLAG_PRIORITY \<noteq> 0 then drop 5 p else p) in
            if pad > length p then Inl H2Protocol else Inr (take (length p - pad) p))))"

definition strip_padding :: "bytes \<Rightarrow> u8 \<Rightarrow> h2_error + bytes" where
  "strip_padding payload fl =
     (if fl AND FLAG_PADDED = 0 then Inr payload
      else
        case payload of
          [] \<Rightarrow> Inl H2Protocol
        | first # body \<Rightarrow>
            (let pad = unat first in
             if pad > length body then Inl H2Protocol else Inr (take (length body - pad) body)))"

section \<open>Header fields\<close>

definition is_ascii_lowercase :: "u8 \<Rightarrow> bool" where
  "is_ascii_lowercase b \<longleftrightarrow> 97 \<le> b \<and> b \<le> 122"

definition token_byte :: "u8 \<Rightarrow> bool" where
  "token_byte b \<longleftrightarrow> is_ascii_lowercase b \<or> is_ascii_digit b \<or> b \<in> set ([39] @ as_bytes ''!#$%&*+-.^_`|~'')"

text \<open>Byte 58 is the colon; 13, 10, 32 and 9 are CR, LF, space and tab.\<close>

definition valid_header_field :: "bytes \<Rightarrow> bytes \<Rightarrow> bool" where
  "valid_header_field name val =
     (let token = (case name of [] \<Rightarrow> name | b # rest \<Rightarrow> if b = 58 then rest else name) in
      if token = [] \<or> \<not> list_all token_byte token then False
      else if name \<noteq> token \<and> 58 \<in> set (tl name) then False
      else
        \<not> list_ex (\<lambda>b. b = 0 \<or> b = 13 \<or> b = 10) val \<and>
        \<not> (val \<noteq> [] \<and> (hd val = 32 \<or> hd val = 9)) \<and>
        \<not> (val \<noteq> [] \<and> (last val = 32 \<or> last val = 9)))"

end
