(* ===== verification/Http2Request.thy ===== *)
theory Http2Request
  imports Http2Frame
begin

text \<open>
  A DNS-over-HTTPS request, \<open>onetdns-http2/src/server.rs\<close>: the header rules, the path with its client
  identifier, the query parameter and the answer of the handler. The handler is an argument; it may
  answer differently from call to call, so it also takes the number of the call.
\<close>

unbundle bit_operations_syntax

section \<open>Constants and data\<close>

definition MAX_H2_STREAMS :: nat where "MAX_H2_STREAMS = 128"
definition MAX_H2_BODY :: nat where "MAX_H2_BODY = 64 * 1024"
definition MAX_H2_RESPONSE :: nat where "MAX_H2_RESPONSE = 65535"
definition MAX_H2_HEADER_BLOCK :: nat where "MAX_H2_HEADER_BLOCK = 32 * 1024"
definition MAX_H2_BUFFERED_HEADERS :: nat where "MAX_H2_BUFFERED_HEADERS = 1024 * 1024"
definition MAX_H2_BUFFERED_REQUESTS :: nat where "MAX_H2_BUFFERED_REQUESTS = 1024 * 1024"
definition MAX_H2_BUFFERED_RESPONSES :: nat where "MAX_H2_BUFFERED_RESPONSES = 1024 * 1024"
definition MAX_CLIENT_ID :: nat where "MAX_CLIENT_ID = 256"
definition INITIAL_WINDOW :: int where "INITIAL_WINDOW = 65535"
definition MAX_WINDOW :: int where "MAX_WINDOW = 0x7fffffff"

definition STATUS_BAD_REQUEST :: string where "STATUS_BAD_REQUEST = ''400''"
definition STATUS_BAD_GATEWAY :: string where "STATUS_BAD_GATEWAY = ''502''"
definition STATUS_METHOD_NOT_ALLOWED :: string where "STATUS_METHOD_NOT_ALLOWED = ''405''"
definition STATUS_UNSUPPORTED_MEDIA_TYPE :: string where "STATUS_UNSUPPORTED_MEDIA_TYPE = ''415''"
definition ALLOWED_METHODS :: string where "ALLOWED_METHODS = ''GET, POST''"

record stream_state =
  st_headers :: "header_field list"
  st_body :: bytes
  st_have_headers :: bool
  st_end_stream :: bool
  st_recv_window :: int

definition default_stream :: stream_state where
  "default_stream = \<lparr>st_headers = [], st_body = [], st_have_headers = False, st_end_stream = False,
                     st_recv_window = INITIAL_WINDOW\<rparr>"

record doh_answer =
  da_body :: bytes
  da_max_age :: u32

datatype app_response = Status string | Dns doh_answer

type_synonym handler = "nat \<Rightarrow> bytes \<Rightarrow> bytes option \<Rightarrow> string + doh_answer"

section \<open>Header rules\<close>

text \<open>\<open>str::parse::<usize>\<close> of a string of digits.\<close>

definition parse_usize :: "bytes \<Rightarrow> nat option" where
  "parse_usize ds =
     (if ds = [] \<or> \<not> list_all is_ascii_digit ds then None
      else
        (let n = foldl (\<lambda>n d. n * 10 + (unat d - 48)) 0 ds in if n < 2 ^ 64 then Some n else None))"

record request_fields =
  rf_method :: "bytes option"
  rf_scheme :: "bytes option"
  rf_authority :: "bytes option"
  rf_host :: "bytes option"
  rf_path :: "bytes option"
  rf_content_length :: "nat option"
  rf_content_type :: "bool option"
  rf_regular_seen :: bool

definition no_fields :: request_fields where
  "no_fields = \<lparr>rf_method = None, rf_scheme = None, rf_authority = None, rf_host = None, rf_path = None,
     rf_content_length = None, rf_content_type = None, rf_regular_seen = False\<rparr>"

definition pseudo_field :: "bytes \<Rightarrow> bytes \<Rightarrow> request_fields \<Rightarrow> request_fields option" where
  "pseudo_field name val f =
     (if rf_regular_seen f then None
      else if name = as_bytes '':method'' then
        (if rf_method f = None then Some (f\<lparr>rf_method := Some val\<rparr>) else None)
      else if name = as_bytes '':scheme'' then
        (if rf_scheme f = None then Some (f\<lparr>rf_scheme := Some val\<rparr>) else None)
      else if name = as_bytes '':authority'' then
        (if rf_authority f = None then Some (f\<lparr>rf_authority := Some val\<rparr>) else None)
      else if name = as_bytes '':path'' then
        (if rf_path f = None then Some (f\<lparr>rf_path := Some val\<rparr>) else None)
      else None)"

definition hop_by_hop :: "bytes list" where
  "hop_by_hop = map as_bytes [''connection'', ''proxy-connection'', ''keep-alive'', ''transfer-encoding'', ''upgrade'']"

definition regular_field :: "bytes \<Rightarrow> bytes \<Rightarrow> request_fields \<Rightarrow> request_fields option" where
  "regular_field name val f =
     (let f = f\<lparr>rf_regular_seen := True\<rparr> in
      if list_ex is_ascii_uppercase name \<or> name \<in> set hop_by_hop then None
      else if name = as_bytes ''content-length'' then
        (if val = [] \<or> \<not> list_all is_ascii_digit val then None
         else
           case parse_usize val of
             None \<Rightarrow> None
           | Some n \<Rightarrow>
               if n > MAX_H2_BODY \<or> rf_content_length f \<noteq> None then None
               else Some (f\<lparr>rf_content_length := Some n\<rparr>))
      else if name = as_bytes ''content-type'' then
        (let is_dns = eq_ignore_ascii_case val (as_bytes ''application/dns-message'') in
         if rf_content_type f \<noteq> None then None else Some (f\<lparr>rf_content_type := Some is_dns\<rparr>))
      else if name = as_bytes ''host'' then
        (if rf_host f \<noteq> None then None else Some (f\<lparr>rf_host := Some val\<rparr>))
      else if name = as_bytes ''te'' \<and> val \<noteq> as_bytes ''trailers'' then None
      else Some f)"

fun scan_fields :: "header_field list \<Rightarrow> request_fields \<Rightarrow> request_fields option" where
  "scan_fields [] f = Some f"
| "scan_fields ((name, val) # headers) f =
     (if \<not> valid_header_field name val then None
      else
        case (if name \<noteq> [] \<and> hd name = 58 then pseudo_field name val f else regular_field name val f) of
          None \<Rightarrow> None
        | Some f \<Rightarrow> scan_fields headers f)"

definition valid_doh_request_headers :: "header_field list \<Rightarrow> nat \<Rightarrow> string + (bytes \<times> bytes)" where
  "valid_doh_request_headers headers body_len =
     (case scan_fields headers no_fields of
        None \<Rightarrow> Inl STATUS_BAD_REQUEST
      | Some f \<Rightarrow>
          (case (rf_method f, rf_path f, rf_authority f, rf_scheme f) of
             (Some method, Some path, Some authority, Some scheme) \<Rightarrow>
               if scheme \<noteq> as_bytes ''https'' \<or> authority = [] \<or>
                  (case rf_host f of None \<Rightarrow> False | Some host \<Rightarrow> host \<noteq> authority)
               then Inl STATUS_BAD_REQUEST
               else if method = as_bytes ''POST'' then
                 (if (case rf_content_length f of None \<Rightarrow> False | Some n \<Rightarrow> n \<noteq> body_len)
                  then Inl STATUS_BAD_REQUEST
                  else if rf_content_type f = Some True then Inr (method, path)
                  else Inl STATUS_UNSUPPORTED_MEDIA_TYPE)
               else if method = as_bytes ''GET'' then
                 (if body_len = 0 \<and> (case rf_content_length f of None \<Rightarrow> True | Some n \<Rightarrow> n = 0)
                  then Inr (method, path) else Inl STATUS_BAD_REQUEST)
               else Inl STATUS_METHOD_NOT_ALLOWED
           | _ \<Rightarrow> Inl STATUS_BAD_REQUEST))"

section \<open>Paths\<close>

text \<open>\<open>slice::split\<close> on a byte: the pieces between its occurrences, at least one.\<close>

fun split_on :: "u8 \<Rightarrow> bytes \<Rightarrow> bytes list" where
  "split_on s [] = [[]]"
| "split_on s (b # bs) =
     (if b = s then [] # split_on s bs
      else case split_on s bs of [] \<Rightarrow> [[b]] | p # ps \<Rightarrow> (b # p) # ps)"

text \<open>\<open>str::from_utf8\<close> accepts the well-formed sequences of the Unicode standard, table 3-7.\<close>

definition cont_byte :: "u8 \<Rightarrow> bool" where
  "cont_byte b \<longleftrightarrow> 0x80 \<le> b \<and> b \<le> 0xBF"

fun utf8_ok :: "bytes \<Rightarrow> bool" where
  "utf8_ok [] = True"
| "utf8_ok (a # bs) =
     (if a < 0x80 then utf8_ok bs
      else if 0xC2 \<le> a \<and> a \<le> 0xDF then
        (case bs of b # bs \<Rightarrow> cont_byte b \<and> utf8_ok bs | _ \<Rightarrow> False)
      else if 0xE0 \<le> a \<and> a \<le> 0xEF then
        (case bs of
           b # c # bs \<Rightarrow>
             cont_byte b \<and> (a = 0xE0 \<longrightarrow> 0xA0 \<le> b) \<and> (a = 0xED \<longrightarrow> b \<le> 0x9F) \<and> cont_byte c \<and> utf8_ok bs
         | _ \<Rightarrow> False)
      else if 0xF0 \<le> a \<and> a \<le> 0xF4 then
        (case bs of
           b # c # d # bs \<Rightarrow>
             cont_byte b \<and> (a = 0xF0 \<longrightarrow> 0x90 \<le> b) \<and> (a = 0xF4 \<longrightarrow> b \<le> 0x8F) \<and> cont_byte c \<and> cont_byte d \<and>
             utf8_ok bs
         | _ \<Rightarrow> False)
      else False)"

definition strip_prefix :: "bytes \<Rightarrow> bytes \<Rightarrow> bytes option" where
  "strip_prefix pre s = (if take (length pre) s = pre then Some (drop (length pre) s) else None)"

text \<open>Byte 47 is the slash, 63 the question mark, 38 the ampersand, 61 the equals sign.\<close>

definition match_doh_path :: "bytes \<Rightarrow> bytes \<Rightarrow> bytes option option" where
  "match_doh_path path_only expected =
     (if path_only = expected then Some None
      else
        case strip_prefix (expected @ [47]) path_only of
          None \<Rightarrow> None
        | Some rest \<Rightarrow>
            (let segment = hd (split_on 47 rest) in
             if segment = [] \<or> length segment > MAX_CLIENT_ID then None
             else if utf8_ok segment then Some (Some segment) else None))"

section \<open>The query parameter\<close>

definition base64url_val :: "u8 \<Rightarrow> u8 option" where
  "base64url_val c =
     (if 65 \<le> c \<and> c \<le> 90 then Some (c - 65)
      else if 97 \<le> c \<and> c \<le> 122 then Some (c - 97 + 26)
      else if 48 \<le> c \<and> c \<le> 57 then Some (c - 48 + 52)
      else if c = 45 then Some 62
      else if c = 95 then Some 63
      else None)"

fun base64url_loop :: "bytes \<Rightarrow> u32 \<Rightarrow> nat \<Rightarrow> bytes \<Rightarrow> (u32 \<times> bytes) option" where
  "base64url_loop [] acc bits out = Some (acc, out)"
| "base64url_loop (c # input) acc bits out =
     (case base64url_val c of
        None \<Rightarrow> None
      | Some v \<Rightarrow>
          (let acc = push_bit 6 acc OR ucast v; bits = bits + 6 in
           if bits \<ge> 8 then
             (let bits = bits - 8 in
              base64url_loop input (acc AND (push_bit bits 1 - 1)) bits (out @ [ucast (drop_bit bits acc)]))
           else base64url_loop input acc bits out))"

definition base64url_decode :: "bytes \<Rightarrow> bytes option" where
  "base64url_decode input =
     (if input = [] \<or> length input mod 4 = 1 \<or> 61 \<in> set input then None
      else
        case base64url_loop input 0 0 [] of
          None \<Rightarrow> None
        | Some (acc, out) \<Rightarrow> if acc = 0 then Some out else None)"

fun find_dns_param :: "bytes list \<Rightarrow> bytes option" where
  "find_dns_param [] = None"
| "find_dns_param (kv # kvs) =
     (case strip_prefix (as_bytes ''dns='') kv of
        Some v \<Rightarrow> base64url_decode v
      | None \<Rightarrow> find_dns_param kvs)"

definition get_dns_param :: "bytes \<Rightarrow> bytes option" where
  "get_dns_param path =
     (case split_on 63 path of _ # q # _ \<Rightarrow> find_dns_param (split_on 38 q) | _ \<Rightarrow> None)"

section \<open>Answering\<close>

definition process_request :: "stream_state \<Rightarrow> bytes \<Rightarrow> handler \<Rightarrow> nat \<Rightarrow> h2_error + app_response" where
  "process_request st expected_path handle call =
     (if \<not> st_have_headers st then Inl H2Protocol
      else
        case valid_doh_request_headers (st_headers st) (length (st_body st)) of
          Inl status \<Rightarrow> Inr (Status status)
        | Inr (method, path) \<Rightarrow>
            (case match_doh_path (hd (split_on 63 path)) expected_path of
               None \<Rightarrow> Inr (Status ''404'')
             | Some client_id \<Rightarrow>
                 (let query = (if method = as_bytes ''POST'' then Some (st_body st)
                               else if method = as_bytes ''GET'' then get_dns_param path else None) in
                  case query of
                    Some q \<Rightarrow>
                      if q \<noteq> [] then
                        (case handle call q client_id of
                           Inr answer \<Rightarrow>
                             if length (da_body answer) \<le> MAX_H2_RESPONSE then Inr (Dns answer)
                             else Inr (Status STATUS_BAD_GATEWAY)
                         | Inl status \<Rightarrow> Inr (Status status))
                      else Inr (Status STATUS_BAD_REQUEST)
                  | None \<Rightarrow> Inr (Status STATUS_BAD_REQUEST))))"

end
