(* ===== verification/Http2Server.thy ===== *)
theory Http2Server
  imports Http2Request
begin

text \<open>
  The DNS-over-HTTPS connection, \<open>onetdns-http2/src/server.rs\<close>: the connection's state, one definition
  per frame type and the loop over the input. Hash maps are association lists with distinct stream_ids, in
  the order the map is iterated; nothing proved depends on that order. A frame that is written is
  appended to \<open>cn_sent\<close>; a failing write ends the connection and drops its state, so it leaves a prefix of
  what is sent here. The deadline hook belongs to the caller's socket and has no part in the state.
\<close>

unbundle bit_operations_syntax

section \<open>State\<close>

record pending_body =
  pb_body :: bytes
  pb_offset :: nat

type_synonym sent_frame = "u8 \<times> u8 \<times> u32 \<times> bytes"

record conn =
  cn_dec :: decoder
  cn_streams :: "(u32 \<times> stream_state) list"
  cn_cont_block :: bytes
  cn_cont_stream :: "u32 option"
  cn_last_client_stream :: u32
  cn_peer_settings_seen :: bool
  cn_recv_conn_window :: int
  cn_send_conn_window :: int
  cn_peer_initial_window :: int
  cn_peer_max_frame :: nat
  cn_send_stream_windows :: "(u32 \<times> int) list"
  cn_pending :: "(u32 \<times> pending_body) list"
  cn_sent :: "sent_frame list"
  cn_calls :: nat

text \<open>How a handler leaves: round the loop again, out with \<open>Ok\<close> or out with an error.\<close>

datatype exit = Next | Done | Fail h2_error

definition try_result :: "h2_error + 'a \<Rightarrow> conn \<Rightarrow> ('a \<Rightarrow> exit \<times> conn) \<Rightarrow> exit \<times> conn" where
  "try_result r c k = (case r of Inl e \<Rightarrow> (Fail e, c) | Inr x \<Rightarrow> k x)"

definition send_frame :: "u8 \<Rightarrow> u8 \<Rightarrow> u32 \<Rightarrow> bytes \<Rightarrow> conn \<Rightarrow> conn" where
  "send_frame frame_type flags stream_id payload c =
     c\<lparr>cn_sent := cn_sent c @ [(frame_type, flags, stream_id, payload)]\<rparr>"

definition sent_bytes :: "conn \<Rightarrow> bytes" where
  "sent_bytes c = concat (map (\<lambda>(t, f, s, p). write_frame [] t f s p) (cn_sent c))"

definition send_rst_stream :: "u32 \<Rightarrow> u32 \<Rightarrow> conn \<Rightarrow> conn" where
  "send_rst_stream sid code c = send_frame FT_RST_STREAM 0 sid (u32_to_be_bytes code) c"

definition remove_stream :: "u32 \<Rightarrow> conn \<Rightarrow> conn" where
  "remove_stream sid c = c\<lparr>cn_streams := AList.delete sid (cn_streams c)\<rparr>"

definition remove_pending :: "u32 \<Rightarrow> conn \<Rightarrow> conn" where
  "remove_pending sid c = c\<lparr>cn_pending := AList.delete sid (cn_pending c)\<rparr>"

definition remove_window :: "u32 \<Rightarrow> conn \<Rightarrow> conn" where
  "remove_window sid c = c\<lparr>cn_send_stream_windows := AList.delete sid (cn_send_stream_windows c)\<rparr>"

definition clear_cont :: "conn \<Rightarrow> conn" where
  "clear_cont c = c\<lparr>cn_cont_stream := None, cn_cont_block := []\<rparr>"

definition concurrent_streams :: "conn \<Rightarrow> nat" where
  "concurrent_streams c = length (cn_streams c) + length (cn_pending c)"

definition header_list_size :: "header_field list \<Rightarrow> nat" where
  "header_list_size headers = foldl (\<lambda>n (k, v). n + (length k + length v + 32)) 0 headers"

section \<open>Flow control\<close>

definition checked_add_i64 :: "int \<Rightarrow> int \<Rightarrow> int option" where
  "checked_add_i64 a b = (if - (2 ^ 63) \<le> a + b \<and> a + b < 2 ^ 63 then Some (a + b) else None)"

definition add_window :: "int \<Rightarrow> u32 \<Rightarrow> h2_error + int" where
  "add_window current increment =
     (case checked_add_i64 current (uint increment) of
        None \<Rightarrow> Inl H2Protocol
      | Some n \<Rightarrow> if n > MAX_WINDOW then Inl H2Protocol else Inr n)"

text \<open>
  \<open>restore_receive_credit\<close> works on a window passed by reference; the caller writes the result back.
\<close>

definition restore_receive_credit :: "u32 \<Rightarrow> int \<Rightarrow> int \<Rightarrow> conn \<Rightarrow> h2_error + (int \<times> conn)" where
  "restore_receive_credit sid amount window c =
     (if amount \<le> 0 then Inr (window, c)
      else if amount \<ge> 2 ^ 32 then Inl H2Protocol
      else
        (let increment = of_int amount :: u32 in
         case add_window window increment of
           Inl e \<Rightarrow> Inl e
         | Inr window \<Rightarrow> Inr (window, send_frame FT_WINDOW_UPDATE 0 sid (u32_to_be_bytes increment) c)))"

definition flush_action :: "conn \<Rightarrow> u32 \<times> pending_body \<Rightarrow> (u32 \<times> bytes \<times> bool) option" where
  "flush_action c e =
     (case e of
        (sid, body) \<Rightarrow>
          (case map_of (cn_send_stream_windows c) sid of
             None \<Rightarrow> None
           | Some stream_window \<Rightarrow>
               (let available = min (cn_send_conn_window c) stream_window in
                if available \<le> 0 then None
                else
                  (let remaining = length (pb_body body) - pb_offset body in
                   if remaining = 0 then Some (sid, [], True)
                   else
                     (let len = min (min remaining (cn_peer_max_frame c)) (nat available) in
                      if len = 0 then None
                      else
                        (let end_pos = pb_offset body + len in
                         Some (sid, slice (pb_body body) (pb_offset body) end_pos,
                               end_pos = length (pb_body body))))))))"

fun find_map :: "('a \<Rightarrow> 'b option) \<Rightarrow> 'a list \<Rightarrow> 'b option" where
  "find_map f [] = None"
| "find_map f (x # xs) = (case f x of Some y \<Rightarrow> Some y | None \<Rightarrow> find_map f xs)"

definition flush_one :: "u32 \<Rightarrow> bytes \<Rightarrow> bool \<Rightarrow> conn \<Rightarrow> conn" where
  "flush_one sid chunk is_last c =
     (let used = int (length chunk);
          c = send_frame FT_DATA (if is_last then FLAG_END_STREAM else 0) sid chunk c;
          c = c\<lparr>cn_send_conn_window := cn_send_conn_window c - used\<rparr>;
          c = (case map_of (cn_send_stream_windows c) sid of
                 None \<Rightarrow> c
               | Some w \<Rightarrow> c\<lparr>cn_send_stream_windows := AList.update sid (w - used) (cn_send_stream_windows c)\<rparr>) in
      if is_last then remove_window sid (remove_pending sid c)
      else
        case map_of (cn_pending c) sid of
          None \<Rightarrow> c
        | Some body \<Rightarrow>
            c\<lparr>cn_pending := AList.update sid (body\<lparr>pb_offset := pb_offset body + length chunk\<rparr>) (cn_pending c)\<rparr>)"

definition pending_work :: "conn \<Rightarrow> nat" where
  "pending_work c = (\<Sum>(sid, b) \<leftarrow> cn_pending c. length (pb_body b) - pb_offset b + 1)"


lemma sum_update:
  "map_of xs k = Some b \<Longrightarrow>
   sum_list (map f (AList.update k v xs)) + f (k, b) = sum_list (map f xs) + (f (k, v) :: nat)"
  by (induction xs) (auto split: if_splits)

lemma sum_delete_le: "sum_list (map f (AList.delete k xs)) \<le> sum_list (map f xs)" for f :: "'a \<times> 'b \<Rightarrow> nat"
  by (induction xs) auto

lemma sum_delete:
  "(k, b) \<in> set xs \<Longrightarrow> sum_list (map f (AList.delete k xs)) + f (k, b) \<le> (sum_list (map f xs) :: nat)"
  using sum_delete_le [of f k] by (induction xs) (auto split: if_splits simp: add.commute add_mono)

lemma flush_action_key: "flush_action c (sid, b) = Some (sid', chunk, l) \<Longrightarrow> sid' = sid"
  by (auto simp: flush_action_def Let_def split: option.splits if_splits)

lemma flush_action_any:
  "0 < cn_peer_max_frame c \<Longrightarrow> flush_action c (sid, b) \<noteq> None \<Longrightarrow> flush_action c (sid, b') \<noteq> None"
  by (auto simp: flush_action_def Let_def split: option.splits if_splits)

lemma flush_action_more: "flush_action c (sid, b) = Some (sid', chunk, False) \<Longrightarrow> 0 < cn_peer_max_frame c"
  by (auto simp: flush_action_def Let_def split: option.splits if_splits)

lemma find_flush_action:
  "find_map (flush_action c) xs = Some (sid, chunk, l) \<Longrightarrow>
   \<exists>b. (sid, b) \<in> set xs \<and> flush_action c (sid, b) = Some (sid, chunk, l) \<and>
       (0 < cn_peer_max_frame c \<longrightarrow> map_of xs sid = Some b)"
proof (induction xs)
  case (Cons e xs)
  obtain k b where e: "e = (k, b)" by fastforce
  show ?case
  proof (cases "flush_action c (k, b)")
    case None
    then obtain b' where b': "(sid, b') \<in> set xs" "flush_action c (sid, b') = Some (sid, chunk, l)"
        "0 < cn_peer_max_frame c \<longrightarrow> map_of xs sid = Some b'"
      using Cons e by auto
    then have "0 < cn_peer_max_frame c \<longrightarrow> k \<noteq> sid" using None flush_action_any [of c sid b' b] by auto
    then show ?thesis using b' e by auto
  next
    case (Some a)
    then show ?thesis using Cons.prems e flush_action_key [of c k b sid chunk l] by auto
  qed
qed simp

lemma flush_action_chunk:
  assumes "flush_action c (sid, b) = Some (sid', chunk, l)"
  shows "length chunk \<le> length (pb_body b) - pb_offset b"
    and "l \<or> 1 \<le> length chunk"
  using assms by (auto simp: flush_action_def Let_def slice_def split: option.splits if_splits)

lemma pending_work_flush_one:
  assumes "(sid, b) \<in> set (cn_pending c)" "flush_action c (sid, b) = Some (sid, chunk, l)"
    and first: "0 < cn_peer_max_frame c \<longrightarrow> map_of (cn_pending c) sid = Some b"
  shows "pending_work (flush_one sid chunk l c) < pending_work c"
proof -
  let ?f = "\<lambda>(sid :: u32, b). length (pb_body b) - pb_offset b + 1"
  have keep: "cn_pending (case m of None \<Rightarrow> c | Some w \<Rightarrow> c\<lparr>cn_send_stream_windows := g w\<rparr>) = cn_pending c" for m g and c :: conn
    by (simp split: option.split)
  show ?thesis
  proof (cases l)
    case True
    then have "cn_pending (flush_one sid chunk l c) = AList.delete sid (cn_pending c)"
      by (simp add: flush_one_def Let_def remove_window_def remove_pending_def keep send_frame_def)
    then show ?thesis using sum_delete [OF assms(1), of ?f] by (simp add: pending_work_def)
  next
    case False
    then have b: "map_of (cn_pending c) sid = Some b" using assms(2) first flush_action_more [of c sid b sid chunk] by simp
    let ?b = "b\<lparr>pb_offset := pb_offset b + length chunk\<rparr>"
    have "cn_pending (flush_one sid chunk l c) = AList.update sid ?b (cn_pending c)"
      using False b by (simp add: flush_one_def Let_def keep send_frame_def)
    then show ?thesis
      using sum_update [OF b, of ?f ?b] flush_action_chunk [OF assms(2)] False by (simp add: pending_work_def)
  qed
qed

function flush_pending :: "conn \<Rightarrow> conn" where
  "flush_pending c =
     (case find_map (flush_action c) (cn_pending c) of
        None \<Rightarrow> c
      | Some (sid, chunk, is_last) \<Rightarrow> flush_pending (flush_one sid chunk is_last c))"
  by auto
termination
  by (relation "measure pending_work") (auto dest!: find_flush_action intro!: pending_work_flush_one)

declare flush_pending.simps [simp del]

section \<open>Responses\<close>

text \<open>\<open>usize::to_string\<close> and the decimal of a \<open>u32\<close>.\<close>

fun decimal :: "nat \<Rightarrow> string" where
  "decimal n = (if n < 10 then [char_of (48 + n)] else decimal (n div 10) @ [char_of (48 + n mod 10)])"

declare decimal.simps [simp del]

definition response_headers :: "app_response \<Rightarrow> header_field list" where
  "response_headers response =
     (case response of
        Status status \<Rightarrow>
          (if status = STATUS_METHOD_NOT_ALLOWED
           then [(as_bytes '':status'', as_bytes status), (as_bytes ''allow'', as_bytes ALLOWED_METHODS)]
           else [(as_bytes '':status'', as_bytes status)])
      | Dns answer \<Rightarrow>
          [(as_bytes '':status'', as_bytes ''200''),
           (as_bytes ''content-type'', as_bytes ''application/dns-message''),
           (as_bytes ''content-length'', as_bytes (decimal (length (da_body answer)))),
           (as_bytes ''cache-control'', as_bytes (''max-age='' @ decimal (unat (da_max_age answer))))])"

definition buffered_responses :: "conn \<Rightarrow> nat" where
  "buffered_responses c = (\<Sum>(_, b) \<leftarrow> cn_pending c. length (pb_body b) - pb_offset b)"

definition queue_response :: "u32 \<Rightarrow> app_response \<Rightarrow> conn \<Rightarrow> conn" where
  "queue_response sid response c =
     (case response of
        Status status \<Rightarrow>
          (let block = encode_response (response_headers response);
               c = send_frame FT_HEADERS (FLAG_END_HEADERS OR FLAG_END_STREAM) sid block c in
           remove_window sid (remove_pending sid c))
      | Dns answer \<Rightarrow>
          (let body = da_body answer in
           if buffered_responses c + length body > MAX_H2_BUFFERED_RESPONSES
           then send_rst_stream sid REFUSED_STREAM (remove_window sid (remove_pending sid c))
           else
             (let block = encode_response (response_headers response);
                  flags = (if body = [] then FLAG_END_HEADERS OR FLAG_END_STREAM else FLAG_END_HEADERS);
                  c = send_frame FT_HEADERS flags sid block c in
              if body = [] then remove_window sid c
              else c\<lparr>cn_pending := AList.update sid \<lparr>pb_body = body, pb_offset = 0\<rparr> (cn_pending c)\<rparr>)))"

text \<open>A complete request leaves the table of streams and is answered.\<close>

definition finish_request :: "u32 \<Rightarrow> bytes \<Rightarrow> handler \<Rightarrow> conn \<Rightarrow> exit \<times> conn" where
  "finish_request sid expected_path handle c =
     (case map_of (cn_streams c) sid of
        None \<Rightarrow> (Next, c)
      | Some st \<Rightarrow>
          (let c = remove_stream sid c in
           try_result (process_request st expected_path handle (cn_calls c)) c
             (\<lambda>response. (Next, queue_response sid response (c\<lparr>cn_calls := cn_calls c + 1\<rparr>)))))"

section \<open>Frames\<close>

fun add_to_windows :: "int \<Rightarrow> (u32 \<times> int) list \<Rightarrow> h2_error + (u32 \<times> int) list" where
  "add_to_windows delta [] = Inr []"
| "add_to_windows delta ((sid, window) # ws) =
     (case checked_add_i64 window delta of
        None \<Rightarrow> Inl H2Protocol
      | Some window \<Rightarrow>
          if window > MAX_WINDOW then Inl H2Protocol
          else case add_to_windows delta ws of Inl e \<Rightarrow> Inl e | Inr ws \<Rightarrow> Inr ((sid, window) # ws))"

definition apply_setting :: "u16 \<Rightarrow> u32 \<Rightarrow> conn \<Rightarrow> exit \<times> conn" where
  "apply_setting ident val c =
     (if ident = SET_ENABLE_PUSH \<and> val > 1 then (Fail H2Protocol, c)
      else if ident = SET_INITIAL_WINDOW_SIZE then
        (if uint val > MAX_WINDOW then (Fail H2Protocol, c)
         else
           try_result (add_to_windows (uint val - cn_peer_initial_window c) (cn_send_stream_windows c)) c
             (\<lambda>ws. (Next, c\<lparr>cn_send_stream_windows := ws, cn_peer_initial_window := uint val\<rparr>)))
      else if ident = SET_MAX_FRAME_SIZE then
        (if \<not> (16384 \<le> val \<and> val \<le> 16777215) then (Fail H2Protocol, c)
         else (Next, c\<lparr>cn_peer_max_frame := unat val\<rparr>))
      else (Next, c))"

fun apply_settings :: "bytes \<Rightarrow> conn \<Rightarrow> exit \<times> conn" where
  "apply_settings (a # b # v0 # v1 # v2 # v3 # rest) c =
     (case apply_setting (u16_from_be_bytes a b) (u32_from_be_bytes [v0, v1, v2, v3]) c of
        (Next, c) \<Rightarrow> apply_settings rest c
      | other \<Rightarrow> other)"
| "apply_settings _ c = (Next, c)"

definition settings_frame :: "frame_header \<Rightarrow> bytes \<Rightarrow> conn \<Rightarrow> exit \<times> conn" where
  "settings_frame h payload c =
     (if fh_stream h \<noteq> 0 \<or> length payload mod 6 \<noteq> 0 then (Fail H2Protocol, c)
      else
        case apply_settings payload c of
          (Next, c) \<Rightarrow> (Next, send_frame FT_SETTINGS FLAG_ACK 0 [] c)
        | other \<Rightarrow> other)"

definition ping_frame :: "frame_header \<Rightarrow> bytes \<Rightarrow> conn \<Rightarrow> exit \<times> conn" where
  "ping_frame h payload c =
     (if fh_stream h \<noteq> 0 \<or> length payload \<noteq> 8 then (Fail H2Protocol, c)
      else (Next, send_frame FT_PING FLAG_ACK 0 payload c))"

definition rst_stream_frame :: "frame_header \<Rightarrow> bytes \<Rightarrow> conn \<Rightarrow> exit \<times> conn" where
  "rst_stream_frame h payload c =
     (if fh_stream h = 0 \<or> length payload \<noteq> 4 then (Fail H2Protocol, c)
      else
        (let c = remove_window (fh_stream h) (remove_pending (fh_stream h) (remove_stream (fh_stream h) c)) in
         (Next, if cn_cont_stream c = Some (fh_stream h) then clear_cont c else c)))"

definition window_update_frame :: "frame_header \<Rightarrow> bytes \<Rightarrow> conn \<Rightarrow> exit \<times> conn" where
  "window_update_frame h payload c =
     (if length payload \<noteq> 4 then (Fail H2Protocol, c)
      else
        (let increment = u32_from_be_bytes payload AND 0x7fffffff in
         if increment = 0 then (Fail H2Protocol, c)
         else if fh_stream h = 0 then
           try_result (add_window (cn_send_conn_window c) increment) c
             (\<lambda>w. (Next, c\<lparr>cn_send_conn_window := w\<rparr>))
         else
           case map_of (cn_send_stream_windows c) (fh_stream h) of
             None \<Rightarrow> (Next, c)
           | Some window \<Rightarrow>
               try_result (add_window window increment) c
                 (\<lambda>w. (Next, c\<lparr>cn_send_stream_windows := AList.update (fh_stream h) w (cn_send_stream_windows c)\<rparr>))))"

definition buffered_headers :: "u32 \<Rightarrow> conn \<Rightarrow> nat" where
  "buffered_headers sid c =
     (\<Sum>(_, st) \<leftarrow> filter (\<lambda>(k, _). k \<noteq> sid) (cn_streams c). header_list_size (st_headers st))"

text \<open>
  A complete header block: it is decoded, counted against the limits and stored. The second component
  says whether the stream was kept.
\<close>

definition store_headers :: "u32 \<Rightarrow> bytes \<Rightarrow> conn \<Rightarrow> (exit \<times> conn) \<times> bool" where
  "store_headers sid block c =
     (case decode_headers (cn_dec c) block of
        (d, None) \<Rightarrow> ((Fail H2Protocol, c\<lparr>cn_dec := d\<rparr>), False)
      | (d, Some headers) \<Rightarrow>
          (let c = c\<lparr>cn_dec := d\<rparr>; size = header_list_size headers in
           if size > MAX_H2_HEADER_BLOCK \<or> buffered_headers sid c + size > MAX_H2_BUFFERED_HEADERS
           then ((Next, send_rst_stream sid CANCEL (remove_window sid (remove_stream sid c))), False)
           else
             ((Next,
               case map_of (cn_streams c) sid of
                 None \<Rightarrow> c
               | Some st \<Rightarrow>
                   c\<lparr>cn_streams := AList.update sid (st\<lparr>st_headers := headers, st_have_headers := True\<rparr>) (cn_streams c)\<rparr>),
              True)))"

definition headers_frame :: "bytes \<Rightarrow> handler \<Rightarrow> frame_header \<Rightarrow> bytes \<Rightarrow> conn \<Rightarrow> exit \<times> conn" where
  "headers_frame expected_path handle h payload c =
     (let sid = fh_stream h in
      if sid = 0 \<or> sid AND 1 = 0 \<or> sid \<le> cn_last_client_stream c then (Fail H2Protocol, c)
      else
        (let c = c\<lparr>cn_last_client_stream := sid\<rparr> in
         if concurrent_streams c \<ge> MAX_H2_STREAMS then (Next, send_rst_stream sid REFUSED_STREAM c)
         else
           try_result (strip_headers payload (fh_flags h)) c (\<lambda>block.
             if length block > MAX_H2_HEADER_BLOCK then (Next, send_rst_stream sid CANCEL c)
             else
               (let c = c\<lparr>cn_send_stream_windows := AList.update sid (cn_peer_initial_window c) (cn_send_stream_windows c)\<rparr>;
                    st = (case map_of (cn_streams c) sid of None \<Rightarrow> default_stream | Some st \<Rightarrow> st);
                    c = c\<lparr>cn_streams := AList.update sid (st\<lparr>st_end_stream := has_flag h FLAG_END_STREAM\<rparr>) (cn_streams c)\<rparr> in
                if has_flag h FLAG_END_HEADERS then
                  (case store_headers sid block c of
                     ((Next, c), True) \<Rightarrow>
                       if has_flag h FLAG_END_STREAM then finish_request sid expected_path handle c else (Next, c)
                   | (other, _) \<Rightarrow> other)
                else (Next, c\<lparr>cn_cont_block := block, cn_cont_stream := Some sid\<rparr>)))))"

definition continuation_frame :: "bytes \<Rightarrow> handler \<Rightarrow> frame_header \<Rightarrow> bytes \<Rightarrow> conn \<Rightarrow> exit \<times> conn" where
  "continuation_frame expected_path handle h payload c =
     (let sid = fh_stream h in
      if cn_cont_stream c \<noteq> Some sid then (Fail H2Protocol, c)
      else if length (cn_cont_block c) + length payload > MAX_H2_HEADER_BLOCK
      then (Next, send_rst_stream sid CANCEL (clear_cont (remove_window sid (remove_stream sid c))))
      else
        (let c = c\<lparr>cn_cont_block := cn_cont_block c @ payload\<rparr> in
         if has_flag h FLAG_END_HEADERS then
           (case store_headers sid (cn_cont_block c) c of
              ((Next, c), kept) \<Rightarrow>
                (let c = clear_cont c in
                 if \<not> kept then (Next, c)
                 else
                   case map_of (cn_streams c) sid of
                     None \<Rightarrow> (Next, c)
                   | Some st \<Rightarrow> if st_end_stream st then finish_request sid expected_path handle c else (Next, c))
            | (other, _) \<Rightarrow> other)
         else (Next, c)))"

definition buffered_requests :: "conn \<Rightarrow> nat" where
  "buffered_requests c = (\<Sum>(_, st) \<leftarrow> cn_streams c. length (st_body st))"

definition data_frame :: "bytes \<Rightarrow> handler \<Rightarrow> frame_header \<Rightarrow> bytes \<Rightarrow> conn \<Rightarrow> exit \<times> conn" where
  "data_frame expected_path handle h payload c =
     (let sid = fh_stream h in
      if sid = 0 then (Fail H2Protocol, c)
      else
        (let flow = int (length payload); c = c\<lparr>cn_recv_conn_window := cn_recv_conn_window c - flow\<rparr> in
         if cn_recv_conn_window c < 0 then (Fail H2Protocol, c)
         else
           case map_of (cn_streams c) sid of
             None \<Rightarrow>
               try_result (restore_receive_credit 0 flow (cn_recv_conn_window c) c) c (\<lambda>(w, c).
                 (Next, send_rst_stream sid CANCEL (c\<lparr>cn_recv_conn_window := w\<rparr>)))
           | Some st \<Rightarrow>
               (let st = st\<lparr>st_recv_window := st_recv_window st - flow\<rparr> in
                if st_recv_window st < 0 then (Fail H2Protocol, c)
                else
                  try_result (strip_padding payload (fh_flags h)) c (\<lambda>data.
                    let too_large = length (st_body st) + length data > MAX_H2_BODY \<or>
                                    buffered_requests c + length data > MAX_H2_BUFFERED_REQUESTS;
                        st = (if too_large then st else st\<lparr>st_body := st_body st @ data\<rparr>) in
                    try_result (restore_receive_credit 0 flow (cn_recv_conn_window c) c) c (\<lambda>(w, c).
                      let c = c\<lparr>cn_recv_conn_window := w\<rparr> in
                      try_result (restore_receive_credit sid flow (st_recv_window st) c) c (\<lambda>(w, c).
                        let c = c\<lparr>cn_streams := AList.update sid (st\<lparr>st_recv_window := w\<rparr>) (cn_streams c)\<rparr> in
                        if too_large then
                          (Next, send_rst_stream sid CANCEL (remove_window sid (remove_pending sid (remove_stream sid c))))
                        else if has_flag h FLAG_END_STREAM then finish_request sid expected_path handle c
                        else (Next, c)))))))"

section \<open>The loop\<close>

definition handle_frame :: "bytes \<Rightarrow> handler \<Rightarrow> frame_header \<Rightarrow> bytes \<Rightarrow> conn \<Rightarrow> exit \<times> conn" where
  "handle_frame expected_path handle h payload c =
     (let t = fh_type h; sid = fh_stream h in
      if \<not> cn_peer_settings_seen c \<and> (t \<noteq> FT_SETTINGS \<or> has_flag h FLAG_ACK) then (Fail H2Protocol, c)
      else
        (let c = c\<lparr>cn_peer_settings_seen := True\<rparr> in
         if cn_cont_stream c \<noteq> None \<and> \<not> (t = FT_CONTINUATION \<and> cn_cont_stream c = Some sid)
         then (Fail H2Protocol, c)
         else if t = FT_SETTINGS \<and> \<not> has_flag h FLAG_ACK then settings_frame h payload c
         else if t = FT_SETTINGS \<and> (sid \<noteq> 0 \<or> payload \<noteq> []) then (Fail H2Protocol, c)
         else if t = FT_PING \<and> \<not> has_flag h FLAG_ACK then ping_frame h payload c
         else if t = FT_PING \<and> (sid \<noteq> 0 \<or> length payload \<noteq> 8) then (Fail H2Protocol, c)
         else if t = FT_GOAWAY then (if sid \<noteq> 0 \<or> length payload < 8 then (Fail H2Protocol, c) else (Done, c))
         else if t = FT_RST_STREAM then rst_stream_frame h payload c
         else if t = FT_WINDOW_UPDATE then window_update_frame h payload c
         else if t = FT_PRIORITY \<and> (sid = 0 \<or> length payload \<noteq> 5) then (Fail H2Protocol, c)
         else if t = FT_PUSH_PROMISE then (Fail H2Protocol, c)
         else if t = FT_HEADERS then headers_frame expected_path handle h payload c
         else if t = FT_CONTINUATION then continuation_frame expected_path handle h payload c
         else if t = FT_DATA then data_frame expected_path handle h payload c
         else (Next, c)))"

lemma read_frame_shorter: "read_frame input = Inr (h, payload, rest) \<Longrightarrow> length rest < length input"
  by (auto simp: read_frame_def Let_def FRAME_HEADER_LEN_def split: if_splits option.splits)

function serve_loop :: "bytes \<Rightarrow> handler \<Rightarrow> bytes \<Rightarrow> conn \<Rightarrow> exit \<times> conn" where
  "serve_loop expected_path handle input c =
     (let c = flush_pending c in
      case read_frame input of
        Inl e \<Rightarrow> (if e = H2Closed then Done else Fail e, c)
      | Inr (h, payload, rest) \<Rightarrow>
          (case handle_frame expected_path handle h payload c of
             (Next, c) \<Rightarrow> serve_loop expected_path handle rest c
           | other \<Rightarrow> other))"
  by auto
termination
  by (relation "measure (\<lambda>(_, _, input, _). length input)") (auto dest: read_frame_shorter)

declare serve_loop.simps [simp del]

definition initial_settings :: bytes where
  "initial_settings =
     u16_to_be_bytes SET_MAX_CONCURRENT_STREAMS @ u32_to_be_bytes (of_nat MAX_H2_STREAMS) @
     u16_to_be_bytes SET_MAX_HEADER_LIST_SIZE @ u32_to_be_bytes (of_nat MAX_H2_HEADER_BLOCK) @
     u16_to_be_bytes SET_ENABLE_PUSH @ u32_to_be_bytes 0"

definition new_conn :: conn where
  "new_conn = \<lparr>cn_dec = new_decoder 4096, cn_streams = [], cn_cont_block = [], cn_cont_stream = None,
     cn_last_client_stream = 0, cn_peer_settings_seen = False, cn_recv_conn_window = INITIAL_WINDOW,
     cn_send_conn_window = INITIAL_WINDOW, cn_peer_initial_window = INITIAL_WINDOW,
     cn_peer_max_frame = DEFAULT_MAX_FRAME, cn_send_stream_windows = [], cn_pending = [], cn_sent = [], cn_calls = 0\<rparr>"

definition serve_doh :: "bytes \<Rightarrow> handler \<Rightarrow> bytes \<Rightarrow> exit \<times> conn" where
  "serve_doh expected_path handle input =
     (if length input < 24 then (Fail H2Closed, new_conn)
      else if take 24 input \<noteq> PREFACE then (Fail H2Protocol, new_conn)
      else serve_loop expected_path handle (drop 24 input) (send_frame FT_SETTINGS 0 0 initial_settings new_conn))"

end
