(* ===== verification/HpackCodec.thy ===== *)
theory HpackCodec
  imports Hpack
begin

text \<open>
  Header compression is lossless on what the server sends and bounded on what it receives: integers,
  strings and response blocks are read narrow exactly, and on every input the dynamic table stays within
  the size the server has advertised and the decoded list within its limit.
\<close>

unbundle bit_operations_syntax

section \<open>Integers\<close>

text \<open>The continuation bytes of a number, as a list of their own.\<close>

function int_tail :: "u64 \<Rightarrow> bytes" where
  "int_tail v = (if v \<ge> 128 then ((ucast v AND 0x7f) OR 0x80) # int_tail (drop_bit 7 v) else [ucast v])"
  by auto
termination by (relation "measure unat") (auto simp: unat_drop_7 word_le_nat_alt intro!: div_less_dividend)

declare int_tail.simps [simp del]

lemma encode_int_loop_out: "encode_int_loop out v = out @ int_tail v"
  by (induction out v rule: encode_int_loop.induct)
    (simp add: encode_int_loop.simps [of _ v for v] int_tail.simps [of v for v])

lemma bit_80: "bit (0x80 :: 'a::len word) n \<longleftrightarrow> n = 7 \<and> 7 < LENGTH('a)"
proof -
  have "(0x80 :: 'a::len word) = 2 ^ 7" by simp
  then show ?thesis by (simp only: bit_exp_iff possible_bit_word) auto
qed

lemma low_7: "ucast ((ucast v AND 0x7f) OR 0x80 :: u8) AND 0x7f = (v AND 0x7f :: u64)"
  "ucast ((ucast v AND 0x7f) OR 0x80 :: u8) AND (0x80 :: u64) \<noteq> 0"
proof -
  have m: "(0x7f :: u8) = mask 7" "(0x7f :: u64) = mask 7" "(0x80 :: u64) = 2 ^ 7"
    by (simp_all add: mask_eq_exp_minus_1)
  show "ucast ((ucast v AND 0x7f) OR 0x80 :: u8) AND 0x7f = (v AND 0x7f :: u64)"
    unfolding m by (rule bit_word_eqI) (simp only: bit_and_iff bit_or_iff bit_ucast_iff bit_mask_iff bit_80, auto)
  show "ucast ((ucast v AND 0x7f) OR 0x80 :: u8) AND (0x80 :: u64) \<noteq> 0"
    unfolding m and_exp_eq_0_iff_not_bit by (simp add: bit_simps bit_80)
qed

lemma small_7:
  assumes "v < 128"
  shows "ucast (ucast v :: u8) = (v :: u64)" "v AND 0x7f = v" "v AND 0x80 = 0"
proof -
  have t: "take_bit 7 v = v" using assms by (simp add: take_bit_word_self word_less_nat_alt)
  have m: "(0x7f :: u64) = mask 7" "(0x80 :: u64) = 2 ^ 7" by (simp_all add: mask_eq_exp_minus_1)
  have b: "bit v j \<Longrightarrow> j < 7" for j using t by (metis bit_take_bit_iff)
  show "ucast (ucast v :: u8) = v" by (rule bit_word_eqI) (auto simp: bit_simps dest: b)
  show "v AND 0x7f = v" unfolding m using t by (simp add: take_bit_eq_mask)
  show "v AND 0x80 = 0" unfolding m and_exp_eq_0_iff_not_bit using b by blast
qed

lemma unat_and_7f: "unat (v AND 0x7f :: u64) = unat v mod 128"
proof -
  have "(0x7f :: u64) = mask 7" by (simp add: mask_eq_exp_minus_1)
  then have "unat (v AND 0x7f) = take_bit 7 (unat v)" by (simp only: unsigned_take_bit_eq flip: take_bit_eq_mask)
  then show ?thesis by (simp add: take_bit_eq_mod)
qed

lemma unat_of_nat_u64: "n < 2 ^ 64 \<Longrightarrow> unat (of_nat n :: u64) = n"
  by (simp add: unat_of_nat)

lemma unat_push: "unat x * 2 ^ m < 2 ^ 64 \<Longrightarrow> unat (push_bit m x) = unat x * 2 ^ m" for x :: u64
  by (simp only: unsigned_push_bit_eq) (simp add: take_bit_nat_eq_self push_bit_eq_mult)

lemma shift_fits: "x > drop_bit m (- 1) \<longleftrightarrow> \<not> unat x * 2 ^ m < 2 ^ 64" for x :: u64
proof -
  have "unat (drop_bit m (- 1 :: u64)) = (2 ^ 64 - 1) div 2 ^ m"
    by (simp only: unsigned_drop_bit_eq) (simp add: unsigned_minus_1_eq_mask mask_eq_exp_minus_1 drop_bit_eq_div)
  moreover have "a \<le> (2 ^ 64 - 1) div 2 ^ m \<longleftrightarrow> a * 2 ^ m < 2 ^ 64" for a :: nat
    by (subst less_eq_div_iff_mult_less_eq) auto
  ultimately show ?thesis by (metis not_le word_le_nat_alt)
qed

lemma decode_int_loop_step:
  assumes "m < 64" "low = (ucast byte AND 0x7f :: u64)" "unat val + unat low * 2 ^ m < 2 ^ 64"
  shows "decode_int_loop (byte # rest) val m i =
    (let val = of_nat (unat val + unat low * 2 ^ m) in
     if ucast byte AND (0x80 :: u64) = 0 then Some (val, i + 1)
     else if m + 7 > 63 then None else decode_int_loop rest val (m + 7) (i + 1))"
proof -
  have "\<not> low > drop_bit m (- 1)" using assms(3) unfolding shift_fits by simp
  moreover have u: "unat (push_bit m low) = unat low * 2 ^ m" using assms(3) by (intro unat_push) simp
  moreover have "of_nat (unat val + unat low * 2 ^ m) = val + push_bit m low"
    by (simp only: of_nat_add of_nat_unat ucast_id flip: u)
  ultimately show ?thesis using assms by (simp add: Let_def)
qed

lemma decode_int_tail:
  "m < 64 \<Longrightarrow> unat val + unat v * 2 ^ m < 2 ^ 64 \<Longrightarrow>
   decode_int_loop (int_tail v @ rest) val m i = Some (of_nat (unat val + unat v * 2 ^ m), i + length (int_tail v))"
proof (induction v arbitrary: val m i rule: int_tail.induct)
  case (1 v)
  show ?case
  proof (cases "128 \<le> v")
    case True
    let ?low = "v AND 0x7f" and ?d = "drop_bit 7 v"
    have split: "unat v * 2 ^ m = unat ?low * 2 ^ m + unat ?d * 2 ^ (m + 7)"
    proof -
      have "unat v = unat v mod 128 + unat v div 128 * 128" by simp
      then have "unat v * 2 ^ m = (unat v mod 128 + unat v div 128 * 128) * 2 ^ m" by metis
      also have "\<dots> = unat v mod 128 * 2 ^ m + unat v div 128 * 2 ^ (m + 7)" by (simp only: power_add add_mult_distrib) simp
      finally show ?thesis by (simp only: unat_and_7f unat_drop_7)
    qed
    have "1 \<le> unat ?d" using True by (simp add: unat_drop_7 word_le_nat_alt)
    then have "2 ^ (m + 7) \<le> unat ?d * 2 ^ (m + 7)" by simp
    also have "\<dots> < 2 ^ 64" using 1(3) split by linarith
    finally have m: "m + 7 < 64" by (rule power_less_imp_less_exp [rotated]) simp
    let ?val = "of_nat (unat val + unat ?low * 2 ^ m) :: u64"
    have val: "unat ?val = unat val + unat ?low * 2 ^ m" using 1(3) split by (intro unat_of_nat_u64) linarith
    have "int_tail v = ((ucast v AND 0x7f) OR 0x80) # int_tail ?d" using True by (simp add: int_tail.simps [of v])
    moreover have "decode_int_loop (((ucast v AND 0x7f) OR 0x80) # int_tail ?d @ rest) val m i =
        decode_int_loop (int_tail ?d @ rest) ?val (m + 7) (i + 1)"
      using decode_int_loop_step [OF 1(2), of ?low "(ucast v AND 0x7f) OR 0x80" val] low_7 [of v] split 1(3) m
      by (simp add: Let_def)
    moreover have "\<dots> = Some (of_nat (unat ?val + unat ?d * 2 ^ (m + 7)), i + 1 + length (int_tail ?d))"
      by (rule 1(1) [OF True m]) (use 1(3) split val in linarith)
    ultimately show ?thesis using split val by simp
  next
    case False
    then have small: "v < 128" by simp
    have "int_tail v = [ucast v]" using False by (simp add: int_tail.simps [of v])
    then show ?thesis
      using decode_int_loop_step [OF 1(2), of v "ucast v" val] small_7 [OF small] 1(3) by (simp add: Let_def)
  qed
qed

lemma unat_mask_u64: "p \<le> 8 \<Longrightarrow> unat (mask p :: u64) = 2 ^ p - 1"
proof -
  assume "p \<le> 8"
  have "unat (mask p :: u64) = take_bit p (mask 64)"
    by (simp only: unsigned_take_bit_eq unsigned_minus_1_eq_mask flip: take_bit_minus_one_eq_mask) simp
  also have "\<dots> = mask p" using \<open>p \<le> 8\<close> by (simp add: take_bit_of_mask del: mask_numeral)
  finally show ?thesis by (simp only: mask_eq_exp_minus_1)
qed

lemma int_mask_eq: "p \<le> 8 \<Longrightarrow> int_mask p = mask p"
  unfolding int_mask_def mask_eq_exp_minus_1
  by (rule arg_cong [of _ _ "\<lambda>x. x - 1"], rule bit_word_eqI) (auto simp: bit_simps push_bit_eq_mult)

lemma encode_int_shape:
  assumes "p \<le> 8"
  obtains x t where "encode_int out v p h = out @ (h OR x) # t" "\<And>j. p \<le> j \<Longrightarrow> \<not> bit x j"
    "if v < mask p then x = ucast v \<and> t = [] else x = ucast (mask p :: u64) \<and> t = int_tail (v - mask p)"
proof
  let ?x = "if v < mask p then ucast v else ucast (mask p :: u64) :: u8"
  let ?t = "if v < mask p then [] else int_tail (v - mask p)"
  show "encode_int out v p h = out @ (h OR ?x) # ?t"
    using assms by (simp add: encode_int_def int_mask_eq Let_def encode_int_loop_out)
  show "\<not> bit ?x j" if "p \<le> j" for j
  proof (cases "v < mask p")
    case True
    then have "unat v < 2 ^ p"
      using unat_mask_u64 [OF assms] by (simp add: word_less_nat_alt)
    then have "take_bit p v = v" by (simp add: take_bit_word_self)
    then show ?thesis using True that by (auto simp: bit_ucast_iff) (metis bit_take_bit_iff not_less)
  qed (use that in \<open>simp add: bit_ucast_iff bit_mask_iff\<close>)
  show "if v < mask p then ?x = ucast v \<and> ?t = [] else ?x = ucast (mask p :: u64) \<and> ?t = int_tail (v - mask p)"
    by simp
qed

lemma hpack_int_roundtrip:
  assumes p: "1 \<le> p" "p \<le> 8" and h: "take_bit p h = 0"
  shows "decode_int (encode_int [] v p h @ rest) p = Some (v, length (encode_int [] v p h))"
proof -
  from p(2) obtain x t where e: "encode_int [] v p h = (h OR x) # t" and x: "\<And>j. p \<le> j \<Longrightarrow> \<not> bit x j"
    and xt: "if v < mask p then x = ucast v \<and> t = [] else x = ucast (mask p :: u64) \<and> t = int_tail (v - mask p)"
    by (rule encode_int_shape [of p "[]" v h]) auto
  have low: "ucast (h OR x) AND mask p = (ucast x :: u64)"
  proof (rule bit_word_eqI)
    fix j
    have "\<not> (j < p \<and> bit h j)" using h by (metis bit_0_eq bit_take_bit_iff bot_apply bot_bool_def)
    with x [of j] show "bit (ucast (h OR x) AND mask p :: u64) j = bit (ucast x :: u64) j"
      by (cases "p \<le> j") (auto simp: bit_simps)
  qed
  have narrow: "ucast (ucast w :: u8) = w" if "w \<le> mask p" for w :: u64
  proof -
    have "unat w \<le> 2 ^ p - 1" using that unat_mask_u64 [OF p(2)] by (simp add: word_le_nat_alt)
    also have "\<dots> < 2 ^ p" by simp
    also have "\<dots> \<le> 2 ^ 8" using p(2) by (rule power_increasing) simp
    finally have "take_bit 8 w = w" by (simp only: take_bit_word_self)
    then have "bit w j \<Longrightarrow> j < 8" for j by (metis bit_take_bit_iff)
    then show ?thesis by (intro bit_word_eqI) (auto simp: bit_ucast_iff)
  qed
  show ?thesis
  proof (cases "v < mask p")
    case True
    then show ?thesis using e xt low narrow [of v] p by (simp add: decode_int_def int_mask_eq Let_def)
  next
    case False
    then have le: "unat (mask p :: u64) \<le> unat v" by (simp only: not_less word_le_nat_alt)
    have "decode_int (encode_int [] v p h @ rest) p = decode_int_loop (int_tail (v - mask p) @ rest) (mask p) 0 1"
      using False e xt low narrow [of "mask p"] p by (simp add: decode_int_def int_mask_eq Let_def)
    also have "\<dots> = Some (of_nat (unat (mask p :: u64) + unat (v - mask p)), 1 + length (int_tail (v - mask p)))"
      using decode_int_tail [of 0 "mask p" "v - mask p" rest 1] le False unsigned_less [of v, where ?'a = nat]
      by (simp add: unat_sub)
    also have "unat (mask p :: u64) + unat (v - mask p) = unat v" using False le by (simp add: unat_sub)
    finally show ?thesis using False e xt by simp
  qed
qed

section \<open>Strings\<close>

lemma and_80: "b AND 0x80 = 0 \<longleftrightarrow> \<not> bit b 7" "b AND 0x40 = 0 \<longleftrightarrow> \<not> bit b 6" "b AND 0x20 = 0 \<longleftrightarrow> \<not> bit b 5" for b :: u8
proof -
  have p: "(0x80 :: u8) = 2 ^ 7" "(0x40 :: u8) = 2 ^ 6" "(0x20 :: u8) = 2 ^ 5" by simp_all
  show "b AND 0x80 = 0 \<longleftrightarrow> \<not> bit b 7" "b AND 0x40 = 0 \<longleftrightarrow> \<not> bit b 6" "b AND 0x20 = 0 \<longleftrightarrow> \<not> bit b 5"
    unfolding p by (rule and_exp_eq_0_iff_not_bit)+
qed

lemma encode_int_out: "p \<le> 8 \<Longrightarrow> encode_int out v p h = out @ encode_int [] v p h"
  by (simp add: encode_int_def int_mask_eq Let_def encode_int_loop_out)

text \<open>The first byte of a number carries the marker of the representation in its high bits.\<close>

lemma encode_int_head:
  assumes "p \<le> 8" "p \<le> j"
  shows "encode_int [] v p h \<noteq> []" "bit (hd (encode_int [] v p h)) j = bit h j"
  using assms by (rule_tac encode_int_shape [of p "[]" v h]; auto simp: bit_or_iff)+

lemma length_int_tail: "1 \<le> length (int_tail v)"
  by (subst int_tail.simps) simp

lemma decode_string_marked:
  assumes "length raw < 2 ^ 63" and h: "h = 0 \<or> h = 0x80"
  shows "decode_string (encode_int [] (of_nat (length raw)) 7 h @ raw @ rest) =
    (if h = 0 then Some (raw, length (encode_int [] (of_nat (length raw)) 7 h) + length raw)
     else case huffman_decode raw of None \<Rightarrow> None
          | Some s \<Rightarrow> Some (s, length (encode_int [] (of_nat (length raw)) 7 h) + length raw))"
proof -
  let ?e = "encode_int [] (of_nat (length raw)) 7 h"
  have ne: "?e \<noteq> []" by (rule encode_int_head [of 7 7]) simp_all
  have marked: "hd ?e AND 0x80 \<noteq> 0 \<longleftrightarrow> h \<noteq> 0"
    using h by (auto simp: and_80 encode_int_head [of 7 7] bit_80)
  have t: "take_bit 7 h = 0" using h by (auto intro!: bit_eqI simp: bit_take_bit_iff bit_80)
  have i: "decode_int (?e @ raw @ rest) 7 = Some (of_nat (length raw), length ?e)"
    by (rule hpack_int_roundtrip [OF _ _ t]) simp_all
  have u: "unat (of_nat (length raw) :: u64) = length raw" using assms(1) by (intro unat_of_nat_u64) simp
  have "length ?e \<le> 11" using decode_int_used [OF i] by simp
  then have "checked_add (length ?e) (length raw) = Some (length ?e + length raw)"
    using assms(1) by (intro checked_add_small) simp
  moreover obtain x xs where "?e = x # xs" using ne by (cases ?e) auto
  ultimately show ?thesis using i u marked by (auto simp: decode_string_def Let_def split: option.split)
qed

lemma decode_encode_string:
  assumes "length s < 2 ^ 63"
  shows "decode_string (encode_string [] s h @ rest) = Some (s, length (encode_string [] s h))"
proof (cases "h \<and> list_all (\<lambda>b. b < 128) s \<and> length (huffman_encode s) < length s")
  case True
  then have "encode_string [] s h = encode_int [] (of_nat (length (huffman_encode s))) 7 0x80 @ huffman_encode s"
    by (simp add: encode_string_def Let_def)
  then show ?thesis using True assms decode_string_marked [of "huffman_encode s" "0x80" rest] by (simp add: huffman_roundtrip)
next
  case False
  then have "encode_string [] s h = encode_int [] (of_nat (length s)) 7 0 @ s" by (auto simp: encode_string_def)
  then show ?thesis using assms decode_string_marked [of s 0 rest] by simp
qed

lemma encode_string_out: "encode_string out s h = out @ encode_string [] s h"
  by (simp add: encode_string_def Let_def encode_int_out [of 7 out])

section \<open>The dynamic table\<close>

definition header_size :: "header_field list \<Rightarrow> nat" where
  "header_size hs = sum_list (map (\<lambda>(n, v). entry_size n v) hs)"

lemma header_size_simps [simp]:
  "header_size [] = 0" "header_size ((n, v) # hs) = entry_size n v + header_size hs"
  "header_size (hs @ hs') = header_size hs + header_size hs'"
  by (simp_all add: header_size_def)

definition decoder_ok :: "decoder \<Rightarrow> bool" where
  "decoder_ok d \<longleftrightarrow> table_size d = header_size (dynamic d) \<and> table_size d \<le> max_size d \<and> max_size d \<le> allowed_max_size d"

text \<open>What fits: the newest entries whose sizes together stay within the room.\<close>

fun newest_fitting :: "nat \<Rightarrow> header_field list \<Rightarrow> header_field list" where
  "newest_fitting room [] = []"
| "newest_fitting room ((n, v) # hs) =
     (if entry_size n v \<le> room then (n, v) # newest_fitting (room - entry_size n v) hs else [])"

lemma newest_fitting_all: "header_size hs \<le> room \<Longrightarrow> newest_fitting room hs = hs"
  by (induction room hs rule: newest_fitting.induct) simp_all

lemma newest_fitting_snoc: "room < header_size (hs @ [e]) \<Longrightarrow> newest_fitting room (hs @ [e]) = newest_fitting room hs"
  by (induction room hs rule: newest_fitting.induct) (cases e, auto)+

lemma header_size_newest_fitting: "header_size (newest_fitting room hs) \<le> room"
  by (induction room hs rule: newest_fitting.induct) auto

lemma evict_eq:
  "table_size d = header_size (dynamic d) \<Longrightarrow>
   evict d = d\<lparr>dynamic := newest_fitting (max_size d) (dynamic d),
               table_size := header_size (newest_fitting (max_size d) (dynamic d))\<rparr>"
proof (induction d rule: evict.induct)
  case (1 d)
  show ?case
  proof (cases "table_size d > max_size d \<and> dynamic d \<noteq> []")
    case True
    then obtain hs n v where d: "dynamic d = hs @ [(n, v)]" by (metis append_butlast_last_id surj_pair)
    have "evict d = evict (d\<lparr>dynamic := hs, table_size := table_size d - entry_size n v\<rparr>)"
      using True d by (simp add: evict.simps [of d])
    moreover have "\<dots> = d\<lparr>dynamic := newest_fitting (max_size d) hs, table_size := header_size (newest_fitting (max_size d) hs)\<rparr>"
      using 1(1) [OF True, of n v] 1(2) d by simp
    moreover have "newest_fitting (max_size d) (dynamic d) = newest_fitting (max_size d) hs"
      using newest_fitting_snoc [of "max_size d" hs "(n, v)"] True 1(2) d by simp
    ultimately show ?thesis by simp
  next
    case False
    then have "header_size (dynamic d) \<le> max_size d" using 1(2) by auto
    then show ?thesis using False 1(2) newest_fitting_all by (simp add: evict.simps [of d])
  qed
qed

lemma evict_ok:
  "table_size d = header_size (dynamic d) \<Longrightarrow> max_size d \<le> allowed_max_size d \<Longrightarrow>
   decoder_ok (evict d) \<and> allowed_max_size (evict d) = allowed_max_size d"
  by (simp add: evict_eq decoder_ok_def header_size_newest_fitting)

lemma insert_entry_ok: "decoder_ok d \<Longrightarrow> decoder_ok (insert_entry d n v) \<and> allowed_max_size (insert_entry d n v) = allowed_max_size d"
  unfolding insert_entry_def using evict_ok [of "d\<lparr>dynamic := (n, v) # dynamic d, table_size := table_size d + entry_size n v\<rparr>"]
  by (simp add: decoder_ok_def)

lemma set_max_ok: "decoder_ok d \<Longrightarrow> set_max d m = (d', b) \<Longrightarrow> decoder_ok d' \<and> allowed_max_size d' = allowed_max_size d"
  using evict_ok [of "d\<lparr>max_size := m\<rparr>"] by (auto simp: set_max_def decoder_ok_def split: if_splits)

lemma account_size:
  "account n name val = Some m \<longleftrightarrow> m = n + entry_size name val \<and> m \<le> MAX_DECODED_HEADER_LIST"
  by (auto simp: account_def checked_add_def entry_size_def MAX_DECODED_HEADER_LIST_def)

text \<open>What holds of the decoder and of the list after a block.\<close>

definition hpack_result_ok :: "nat \<Rightarrow> decoder \<times> header_field list option \<Rightarrow> bool" where
  "hpack_result_ok allowed res \<longleftrightarrow> decoder_ok (fst res) \<and> allowed_max_size (fst res) = allowed \<and>
     (case snd res of None \<Rightarrow> True | Some hs \<Rightarrow> header_size hs \<le> MAX_DECODED_HEADER_LIST)"

lemma hpack_result_ok_None: "hpack_result_ok allowed (d, None) \<longleftrightarrow> decoder_ok d \<and> allowed_max_size d = allowed"
  by (simp add: hpack_result_ok_def)

lemma decode_block_ok:
  "decoder_ok d \<Longrightarrow> header_size out \<le> MAX_DECODED_HEADER_LIST \<Longrightarrow>
   hpack_result_ok (allowed_max_size d) (decode_block d buf out (header_size out) updates first_update)"
proof (induction "length buf" arbitrary: d buf out updates first_update rule: less_induct)
  case less
  have again: "hpack_result_ok (allowed_max_size d) (decode_block e rest hs n u f)"
    if "decoder_ok e" "allowed_max_size e = allowed_max_size d" "n = header_size hs"
      "header_size hs \<le> MAX_DECODED_HEADER_LIST" "length rest < length buf"
    for e n hs rest u f using less.hyps [of rest e hs u f] that by simp
  show ?case
  proof (cases buf)
    case Nil
    then show ?thesis using less.prems by (simp add: decode_block.simps [of _ "[]"] hpack_result_ok_def)
  next
    case (Cons first rest)
    note ok = less.prems and block = decode_block.simps [of d "first # rest"] hpack_result_ok_None and_80 account_size Let_def
    consider "bit first 7" | "\<not> bit first 7" "bit first 6" | "\<not> bit first 7" "\<not> bit first 6" "bit first 5"
      | "\<not> bit first 7" "\<not> bit first 6" "\<not> bit first 5" by blast
    then show ?thesis
    proof cases
      case 1
      then show ?thesis using ok
        by (auto simp: block Cons split: option.split dest!: decode_int_used intro!: again)
    next
      case 2
      then show ?thesis using ok insert_entry_ok [OF ok(1)]
        by (auto simp: block Cons split: option.split dest!: read_literal_used intro!: again)
    next
      case 3
      then show ?thesis using ok set_max_ok [OF ok(1)]
        by (auto simp: block Cons split: option.split prod.split bool.split dest!: decode_int_used intro!: again)
    next
      case 4
      then show ?thesis using ok
        by (auto simp: block Cons split: option.split dest!: read_literal_used intro!: again)
    qed
  qed
qed

section \<open>Responses\<close>

lemma iter_position_Some: "iter_position p xs = Some i \<Longrightarrow> i < length xs \<and> p (xs ! i)"
  by (induction xs arbitrary: i) (auto split: if_splits)

lemma length_STATIC: "length STATIC = 61"
  by (simp add: STATIC_def)

lemma of_nat_index: "i < 61 \<Longrightarrow> (of_nat (i + 1) :: u64) \<noteq> 0"
proof
  assume "i < 61" "(of_nat (i + 1) :: u64) = 0"
  then have "unat (of_nat (i + 1) :: u64) = 0" by (simp only: unat_0)
  moreover have "unat (of_nat (i + 1) :: u64) = i + 1" by (rule unat_of_nat_u64) (use \<open>i < 61\<close> in simp)
  ultimately show False by simp
qed

lemma lookup_static: "i < 61 \<Longrightarrow> lookup d (of_nat (i + 1)) = Some (STATIC ! i)"
proof -
  assume i: "i < 61"
  have "unat (of_nat (i + 1) :: u64) = i + 1" by (rule unat_of_nat_u64) (use i in simp)
  with of_nat_index [OF i] show ?thesis using i by (simp only: lookup_def Let_def length_STATIC) simp
qed

lemma decode_literal_name:
  assumes "length val < 2 ^ 63" "i < 61"
  shows "read_literal d (encode_int [] (of_nat (i + 1)) 4 0 @ encode_string [] val True @ rest) 4 =
    Some (fst (STATIC ! i), val, length (encode_int [] (of_nat (i + 1)) 4 0) + length (encode_string [] val True))"
proof -
  let ?e = "encode_int [] (of_nat (i + 1)) 4 0"
  have "decode_int (?e @ encode_string [] val True @ rest) 4 = Some (of_nat (i + 1), length ?e)"
    by (rule hpack_int_roundtrip) simp_all
  moreover have "(of_nat (i + 1) :: u64) \<noteq> 0"
    by (rule of_nat_index [OF assms(2)])
  ultimately show ?thesis
    using lookup_static [OF assms(2), of d] decode_encode_string [OF assms(1), of True rest]
    by (simp add: read_literal_def split: prod.split)
qed

lemma decode_literal_new:
  assumes "length name < 2 ^ 63" "length val < 2 ^ 63"
  shows "read_literal d (0 # encode_string [] name True @ encode_string [] val True @ rest) 4 =
    Some (name, val, 1 + length (encode_string [] name True) + length (encode_string [] val True))"
  using decode_encode_string [OF assms(1), of True "encode_string [] val True @ rest"]
    decode_encode_string [OF assms(2), of True rest]
  by (simp add: read_literal_def decode_int_def int_mask_eq Let_def mask_eq_exp_minus_1)

text \<open>One header of a response and the step of the decoder over it.\<close>

definition encode_field :: "header_field \<Rightarrow> bytes" where
  "encode_field h = encode_response_loop [h] []"

lemma encode_response_loop_out: "encode_response_loop hs out = out @ concat (map encode_field hs)"
proof (induction hs arbitrary: out)
  case (Cons h hs)
  obtain name val where h: "h = (name, val)" by fastforce
  have "encode_response_loop (h # hs) out = encode_response_loop hs (out @ encode_field h)"
    unfolding h encode_field_def
    by (simp add: encode_string_out [of "encode_int out i p b" for i p b] encode_string_out [of "encode_string out s b" for s b]
       encode_string_out [of "out @ [0]"] encode_int_out [of _ out] encode_string_out [of "a @ c" for a c] encode_string_out [of "[0]"]
       encode_string_out [of "encode_int [] i p b" for i p b]
       encode_string_out [of "0 # c" for c] split: option.split)
  then show ?case using Cons by simp
qed simp

lemma decode_block_field:
  assumes "length name < 2 ^ 63" "length val < 2 ^ 63"
  shows "decode_block d (encode_field (name, val) @ rest) out n updates first_update =
    (case account n name val of None \<Rightarrow> (d, None)
     | Some n \<Rightarrow> decode_block d rest (out @ [(name, val)]) n updates first_update)"
proof -
  consider (both) i where "iter_position (\<lambda>(n, v). n = name \<and> v = val) STATIC = Some i"
    | (name) i where "iter_position (\<lambda>(n, v). n = name \<and> v = val) STATIC = None" "iter_position (\<lambda>(n, _). n = name) STATIC = Some i"
    | (new) "iter_position (\<lambda>(n, v). n = name \<and> v = val) STATIC = None" "iter_position (\<lambda>(n, _). n = name) STATIC = None"
    by (metis option.exhaust)
  then show ?thesis
  proof cases
    case both
    then have e: "encode_field (name, val) = encode_int [] (of_nat (i + 1)) 7 0x80" by (simp add: encode_field_def)
    have i: "i < 61" "STATIC ! i = (name, val)" using iter_position_Some [OF both] by (auto simp: length_STATIC)
    obtain x xs where x: "encode_int [] (of_nat (i + 1)) 7 0x80 = x # xs" "bit x 7"
      using encode_int_head [of 7 7 "of_nat (i + 1)" "0x80"] by (cases "encode_int [] (of_nat (i + 1)) 7 0x80") (auto simp: bit_80)
    have "decode_int (encode_int [] (of_nat (i + 1)) 7 0x80 @ rest) 7 = Some (of_nat (i + 1), length (x # xs))"
      unfolding x(1) [symmetric] by (rule hpack_int_roundtrip) (auto intro!: bit_eqI simp: bit_take_bit_iff bit_80)
    then show ?thesis using x lookup_static [OF i(1), of d] i(2)
      by (simp add: e decode_block.simps [of d "x # ys" for ys] and_80 split: option.split)
  next
    case name
    then have e: "encode_field (name, val) = encode_int [] (of_nat (i + 1)) 4 0 @ encode_string [] val True"
      by (simp add: encode_field_def encode_string_out [of "encode_int [] (1 + of_nat i) 4 0"])
    have i: "i < 61" "fst (STATIC ! i) = name" using iter_position_Some [OF name(2)] by (auto simp: length_STATIC)
    obtain x xs where x: "encode_int [] (of_nat (i + 1)) 4 0 = x # xs"
      using encode_int_head(1) [of 4 4 "of_nat (i + 1)" 0] by (cases "encode_int [] (of_nat (i + 1)) 4 0") auto
    have "bit x j = bit (0 :: u8) j" if "4 \<le> j" for j
      using encode_int_head(2) [of 4 j "of_nat (i + 1)" 0] x that by simp
    then have b: "\<not> bit x 7" "\<not> bit x 6" "\<not> bit x 5" by simp_all
    show ?thesis using decode_literal_name [OF assms(2) i(1), of d rest] i(2) b x
      by (simp add: e decode_block.simps [of d "x # ys" for ys] and_80 split: option.split)
  next
    case new
    then have e: "encode_field (name, val) = 0 # encode_string [] name True @ encode_string [] val True"
      by (simp add: encode_field_def encode_string_out [of "[0]"] encode_string_out [of "0 # encode_string [] name True"])
    show ?thesis using decode_literal_new [OF assms, of d rest]
      by (simp add: e decode_block.simps [of d "0 # ys" for ys] split: option.split)
  qed
qed

lemma decode_block_response:
  "header_size (out @ hs) \<le> MAX_DECODED_HEADER_LIST \<Longrightarrow>
   decode_block d (concat (map encode_field hs)) out (header_size out) updates first_update = (d, Some (out @ hs))"
proof (induction hs arbitrary: out)
  case Nil
  then show ?case by (simp add: decode_block.simps [of _ "[]"])
next
  case (Cons h hs)
  obtain name val where h: "h = (name, val)" by fastforce
  have small: "length name < 2 ^ 63" "length val < 2 ^ 63"
    using Cons.prems by (simp_all add: h entry_size_def MAX_DECODED_HEADER_LIST_def)
  have "account (header_size out) name val = Some (header_size (out @ [h]))"
    using Cons.prems by (simp add: account_size h)
  then show ?case using Cons.IH [of "out @ [h]"] Cons.prems by (simp add: h decode_block_field [OF small])
qed

lemma decode_response:
  "header_size hs \<le> MAX_DECODED_HEADER_LIST \<Longrightarrow> decode_headers d (encode_response hs) = (d, Some hs)"
  using decode_block_response [of "[]" hs d] by (simp add: decode_headers_def encode_response_def encode_response_loop_out)

text \<open>A block is never longer than the size its list is counted with.\<close>

lemma length_encode_int:
  assumes "1 \<le> p" "p \<le> 8" "take_bit p h = 0"
  shows "length (encode_int [] v p h) \<le> 11"
  using decode_int_used [OF hpack_int_roundtrip [OF assms, of v "[]"]] by simp

lemma length_encode_string: "length (encode_string [] s h) \<le> 11 + length s"
proof -
  have t: "take_bit 7 (0 :: u8) = 0" "take_bit 7 (0x80 :: u8) = 0" by (simp, intro bit_eqI) (simp add: bit_take_bit_iff bit_80)
  have "length (encode_int [] v 7 0) \<le> 11" "length (encode_int [] v 7 0x80) \<le> 11" for v
    by (rule length_encode_int; use t in simp)+
  then show ?thesis by (auto simp: encode_string_def Let_def add_mono intro: le_trans)
qed

lemma length_encode_field: "length (encode_field (n, v)) \<le> entry_size n v"
proof -
  have t: "take_bit 7 (0x80 :: u8) = 0" by (intro bit_eqI) (simp add: bit_take_bit_iff bit_80)
  have "length (encode_int [] i 7 0x80) \<le> 11" "length (encode_int [] i 4 0) \<le> 11" for i
    by (rule length_encode_int; use t in simp)+
  note L = this length_encode_string [of n True] length_encode_string [of v True]
  have "length (encode_int [] i 4 0) + length (encode_string [] v True) \<le> length n + length v + 32" for i
    using L(2) [of i] L(4) by linarith
  moreover have "length (encode_int [] i 7 0x80) \<le> length n + length v + 32" for i using L(1) [of i] by linarith
  moreover have "1 + length (encode_string [] n True) + length (encode_string [] v True) \<le> length n + length v + 32" using L(3,4) by linarith
  ultimately show ?thesis
    by (auto simp: encode_field_def entry_size_def encode_string_out [of "encode_int [] i p b" for i p b] encode_string_out [of "[0]"]
       encode_string_out [of "0 # c" for c] split: option.split)
qed

lemma length_encode_response: "length (encode_response hs) \<le> header_size hs"
proof -
  have "length (concat (map encode_field hs)) \<le> header_size hs"
    by (induction hs) (auto simp: add_mono length_encode_field)
  then show ?thesis by (simp add: encode_response_def encode_response_loop_out)
qed

end
