(* ===== verification/Http2Invariant.thy ===== *)
theory Http2Invariant
  imports Http2Server HpackCodec
begin

text \<open>
  What holds of a connection whenever it waits for a frame: the tables of streams, windows and pending
  responses agree, every buffer is within its limit and every window within its range.
\<close>

section \<open>The invariant\<close>

definition stream_ids :: "('k \<times> 'v) list \<Rightarrow> 'k set" where
  "stream_ids xs = fst ` set xs"

definition stream_ok :: "stream_state \<Rightarrow> bool" where
  "stream_ok st \<longleftrightarrow> length (st_body st) \<le> MAX_H2_BODY \<and> header_list_size (st_headers st) \<le> MAX_H2_HEADER_BLOCK \<and>
     st_recv_window st = INITIAL_WINDOW"

definition response_body_ok :: "pending_body \<Rightarrow> bool" where
  "response_body_ok b \<longleftrightarrow> length (pb_body b) \<le> MAX_H2_RESPONSE \<and> pb_offset b < length (pb_body b)"

definition tables_ok :: "conn \<Rightarrow> bool" where
  "tables_ok c \<longleftrightarrow>
     distinct (map fst (cn_streams c)) \<and> distinct (map fst (cn_pending c)) \<and>
     distinct (map fst (cn_send_stream_windows c)) \<and> stream_ids (cn_streams c) \<inter> stream_ids (cn_pending c) = {} \<and>
     stream_ids (cn_send_stream_windows c) = stream_ids (cn_streams c) \<union> stream_ids (cn_pending c) \<and>
     stream_ids (cn_send_stream_windows c) \<subseteq> {..cn_last_client_stream c} \<and> concurrent_streams c \<le> MAX_H2_STREAMS"

definition total_headers :: "conn \<Rightarrow> nat" where
  "total_headers c = (\<Sum>(_, st) \<leftarrow> cn_streams c. header_list_size (st_headers st))"

definition buffers_ok :: "conn \<Rightarrow> bool" where
  "buffers_ok c \<longleftrightarrow>
     (\<forall>(k, st) \<in> set (cn_streams c). stream_ok st) \<and> (\<forall>(k, b) \<in> set (cn_pending c). response_body_ok b) \<and>
     total_headers c \<le> MAX_H2_BUFFERED_HEADERS \<and> buffered_requests c \<le> MAX_H2_BUFFERED_REQUESTS \<and>
     buffered_responses c \<le> MAX_H2_BUFFERED_RESPONSES"

definition window_in :: "int \<Rightarrow> int \<Rightarrow> bool" where
  "window_in initial w \<longleftrightarrow> initial - MAX_WINDOW \<le> w \<and> w \<le> MAX_WINDOW"

definition windows_ok :: "conn \<Rightarrow> bool" where
  "windows_ok c \<longleftrightarrow>
     cn_recv_conn_window c = INITIAL_WINDOW \<and> 0 \<le> cn_send_conn_window c \<and> cn_send_conn_window c \<le> MAX_WINDOW \<and>
     0 \<le> cn_peer_initial_window c \<and> cn_peer_initial_window c \<le> MAX_WINDOW \<and>
     (\<forall>(k, w) \<in> set (cn_send_stream_windows c). window_in (cn_peer_initial_window c) w) \<and>
     16384 \<le> cn_peer_max_frame c \<and> cn_peer_max_frame c \<le> 16777215"

text \<open>Streams other than \<open>x\<close> have their headers and are not finished.\<close>

definition ready_but :: "u32 option \<Rightarrow> conn \<Rightarrow> bool" where
  "ready_but x c \<longleftrightarrow> (\<forall>(k, st) \<in> set (cn_streams c). x \<noteq> Some k \<longrightarrow> st_have_headers st \<and> \<not> st_end_stream st)"

definition cont_ok :: "conn \<Rightarrow> bool" where
  "cont_ok c \<longleftrightarrow> ready_but (cn_cont_stream c) c \<and> length (cn_cont_block c) \<le> MAX_H2_HEADER_BLOCK \<and>
     (case cn_cont_stream c of None \<Rightarrow> cn_cont_block c = [] | Some k \<Rightarrow> k \<in> stream_ids (cn_streams c))"

definition dec_ok :: "conn \<Rightarrow> bool" where
  "dec_ok c \<longleftrightarrow> decoder_ok (cn_dec c) \<and> allowed_max_size (cn_dec c) = 4096"

definition core_ok :: "conn \<Rightarrow> bool" where
  "core_ok c \<longleftrightarrow> tables_ok c \<and> buffers_ok c \<and> windows_ok c \<and> dec_ok c"

definition conn_ok :: "conn \<Rightarrow> bool" where
  "conn_ok c \<longleftrightarrow> core_ok c \<and> cont_ok c"

lemmas core_defs = tables_ok_def buffers_ok_def windows_ok_def dec_ok_def total_headers_def
  buffered_requests_def buffered_responses_def concurrent_streams_def

section \<open>Association lists\<close>

lemma keys_simps [simp]:
  "stream_ids [] = {}" "stream_ids ((k, v) # xs) = insert k (stream_ids xs)" "stream_ids (xs @ ys) = stream_ids xs \<union> stream_ids ys"
  by (auto simp: stream_ids_def)

lemma keys_map: "set (map fst xs) = stream_ids xs"
  by (simp add: stream_ids_def)

lemma keys_in: "(k, v) \<in> set xs \<Longrightarrow> k \<in> stream_ids xs"
  by (force simp: stream_ids_def)

lemma keys_update: "stream_ids (AList.update k v xs) = insert k (stream_ids xs)"
  by (simp add: stream_ids_def dom_update)

lemma keys_delete: "stream_ids (AList.delete k xs) = stream_ids xs - {k}"
  by (auto simp: stream_ids_def AList.delete_eq image_iff)

lemma set_update:
  assumes "distinct (map fst xs)"
  shows "(k', y) \<in> set (AList.update k v xs) \<longleftrightarrow> (if k' = k then y = v else (k', y) \<in> set xs)"
proof -
  have "distinct (map fst (AList.update k v xs))" using assms by (rule distinct_update)
  then have "(k', y) \<in> set (AList.update k v xs) \<longleftrightarrow> map_of (AList.update k v xs) k' = Some y"
    by (simp only: map_of_eq_Some_iff)
  then show ?thesis using assms by (auto simp: update_conv' map_of_eq_Some_iff)
qed

lemma set_delete: "(k', y) \<in> set (AList.delete k xs) \<longleftrightarrow> k' \<noteq> k \<and> (k', y) \<in> set xs"
  by (auto simp: AList.delete_eq)

lemma length_update: "k \<in> stream_ids xs \<Longrightarrow> length (AList.update k v xs) = length xs"
  by (induction xs) auto

lemma length_delete_le: "length (AList.delete k xs) \<le> length xs"
  by (simp add: AList.delete_eq)

lemma length_delete: "k \<in> stream_ids xs \<Longrightarrow> length (AList.delete k xs) < length xs"
proof (induction xs)
  case (Cons e xs)
  then show ?case using length_delete_le [of k xs] by (cases e) (auto simp: less_Suc_eq_le)
qed simp

lemma update_new: "k \<notin> stream_ids xs \<Longrightarrow> AList.update k v xs = xs @ [(k, v)]"
  by (induction xs) auto

lemma delete_absent: "k \<notin> stream_ids xs \<Longrightarrow> AList.delete k xs = xs"
  by (induction xs) auto

lemma delete_update: "AList.delete k (AList.update k v xs) = AList.delete k xs"
  by (induction xs) auto

lemma map_of_keys: "map_of xs k = Some v \<Longrightarrow> k \<in> stream_ids xs"
  by (auto simp: stream_ids_def image_iff dest: map_of_SomeD intro: bexI [of _ "(k, v)"])

lemmas alist_simps = keys_map keys_update keys_delete set_update set_delete distinct_update distinct_delete

section \<open>Changes of the tables\<close>

text \<open>The fields outside the tables do not matter to \<open>core_ok\<close>.\<close>

lemma core_ok_fields [simp]:
  "core_ok (c\<lparr>cn_sent := x1\<rparr>) = core_ok c" "core_ok (c\<lparr>cn_calls := x2\<rparr>) = core_ok c"
  "core_ok (c\<lparr>cn_cont_block := x3\<rparr>) = core_ok c" "core_ok (c\<lparr>cn_cont_stream := x4\<rparr>) = core_ok c"
  "core_ok (c\<lparr>cn_peer_settings_seen := x5\<rparr>) = core_ok c"
  by (simp_all add: core_ok_def core_defs)

lemma core_ok_sent [simp]:
  "core_ok (send_frame t f sid p c) = core_ok c" "core_ok (send_rst_stream sid e c) = core_ok c"
  "core_ok (clear_cont c) = core_ok c"
  by (simp_all add: send_frame_def send_rst_stream_def clear_cont_def)

definition drop_stream :: "u32 \<Rightarrow> conn \<Rightarrow> conn" where
  "drop_stream sid c = remove_window sid (remove_pending sid (remove_stream sid c))"

lemma core_drop:
  assumes "core_ok c"
  shows "core_ok (drop_stream sid c)"
proof -
  have b: "sum_list (map f (AList.delete sid xs)) \<le> sum_list (map f xs)" for f :: "u32 \<times> 'b \<Rightarrow> nat" and xs
    by (rule sum_delete_le)
  have t: "tables_ok (drop_stream sid c)"
    using assms add_mono [OF length_delete_le [of sid "cn_streams c"] length_delete_le [of sid "cn_pending c"]]
    by (auto simp: core_ok_def tables_ok_def drop_stream_def remove_window_def remove_pending_def remove_stream_def
        alist_simps concurrent_streams_def)
  have "buffers_ok (drop_stream sid c)"
    using assms b [of "\<lambda>(_, st). header_list_size (st_headers st)" "cn_streams c"]
      b [of "\<lambda>(_, st). length (st_body st)" "cn_streams c"]
      b [of "\<lambda>(_, b). length (pb_body b) - pb_offset b" "cn_pending c"]
    by (auto simp: core_ok_def buffers_ok_def total_headers_def buffered_requests_def buffered_responses_def
        drop_stream_def remove_window_def remove_pending_def remove_stream_def set_delete)
  with t show ?thesis using assms
    by (auto simp: core_ok_def windows_ok_def dec_ok_def
        drop_stream_def remove_window_def remove_pending_def remove_stream_def set_delete)
qed

definition put_stream :: "u32 \<Rightarrow> stream_state \<Rightarrow> conn \<Rightarrow> conn" where
  "put_stream sid st c = c\<lparr>cn_streams := AList.update sid st (cn_streams c)\<rparr>"

lemma core_put:
  assumes "core_ok c" and old: "map_of (cn_streams c) sid = Some old" and "stream_ok st"
    and "total_headers (put_stream sid st c) \<le> MAX_H2_BUFFERED_HEADERS"
    and "buffered_requests c + length (st_body st) \<le> MAX_H2_BUFFERED_REQUESTS + length (st_body old)"
  shows "core_ok (put_stream sid st c)"
proof -
  have k: "sid \<in> stream_ids (cn_streams c)" using old by (rule map_of_keys)
  have t: "tables_ok (put_stream sid st c)"
    using assms(1) k by (auto simp: core_ok_def tables_ok_def put_stream_def alist_simps concurrent_streams_def length_update)
  have "buffered_requests (put_stream sid st c) + length (st_body old) = buffered_requests c + length (st_body st)"
    using sum_update [OF old, of "\<lambda>(_, st). length (st_body st)" st]
    by (simp add: buffered_requests_def put_stream_def)
  then have "buffered_requests (put_stream sid st c) \<le> MAX_H2_BUFFERED_REQUESTS" using assms(5) by simp
  then have "buffers_ok (put_stream sid st c)"
    using assms(1,3,4) by (auto simp: core_ok_def buffers_ok_def tables_ok_def put_stream_def set_update
        buffered_responses_def split: if_splits)
  with t show ?thesis using assms(1) by (simp add: core_ok_def windows_ok_def dec_ok_def put_stream_def)
qed

definition open_stream :: "u32 \<Rightarrow> bool \<Rightarrow> conn \<Rightarrow> conn" where
  "open_stream sid e c = put_stream sid (default_stream\<lparr>st_end_stream := e\<rparr>)
     (c\<lparr>cn_send_stream_windows := AList.update sid (cn_peer_initial_window c) (cn_send_stream_windows c)\<rparr>)"

lemma core_open:
  assumes ok: "core_ok c" and new: "sid \<notin> stream_ids (cn_send_stream_windows c)" "sid \<le> cn_last_client_stream c"
    and room: "concurrent_streams c < MAX_H2_STREAMS"
  shows "core_ok (open_stream sid e c)"
proof -
  have s: "sid \<notin> stream_ids (cn_streams c)" "sid \<notin> stream_ids (cn_pending c)" using ok new by (auto simp: core_ok_def tables_ok_def)
  let ?st = "default_stream\<lparr>st_end_stream := e\<rparr>"
  have st: "stream_ok ?st" "st_headers ?st = []" "st_body ?st = []"
    by (simp_all add: stream_ok_def default_stream_def header_list_size_def)
  have o: "cn_streams (open_stream sid e c) = cn_streams c @ [(sid, ?st)]"
    "cn_send_stream_windows (open_stream sid e c) = cn_send_stream_windows c @ [(sid, cn_peer_initial_window c)]"
    using s new by (simp_all add: open_stream_def put_stream_def update_new)
  note rest = open_stream_def put_stream_def
  have t: "tables_ok (open_stream sid e c)"
    using ok new s room unfolding core_ok_def tables_ok_def concurrent_streams_def o by (auto simp: rest dest: keys_in)
  have "buffers_ok (open_stream sid e c)"
    using ok st unfolding core_ok_def buffers_ok_def total_headers_def buffered_requests_def buffered_responses_def o
    by (auto simp: rest header_list_size_def)
  with t show ?thesis
    using ok unfolding core_ok_def windows_ok_def dec_ok_def o by (auto simp: rest window_in_def)
qed

definition start_body :: "u32 \<Rightarrow> bytes \<Rightarrow> conn \<Rightarrow> conn" where
  "start_body sid body c =
     remove_stream sid (c\<lparr>cn_pending := AList.update sid \<lparr>pb_body = body, pb_offset = 0\<rparr> (cn_pending c)\<rparr>)"

lemma core_start:
  assumes ok: "core_ok c" and old: "sid \<in> stream_ids (cn_streams c)" and body: "body \<noteq> []" "length body \<le> MAX_H2_RESPONSE"
    and room: "buffered_responses c + length body \<le> MAX_H2_BUFFERED_RESPONSES"
  shows "core_ok (start_body sid body c)"
proof -
  have p: "sid \<notin> stream_ids (cn_pending c)" using ok old by (auto simp: core_ok_def tables_ok_def)
  let ?b = "\<lparr>pb_body = body, pb_offset = 0\<rparr>"
  have o: "cn_streams (start_body sid body c) = AList.delete sid (cn_streams c)"
    "cn_pending (start_body sid body c) = cn_pending c @ [(sid, ?b)]"
    using p by (simp_all add: start_body_def remove_stream_def update_new)
  note rest = start_body_def remove_stream_def
  have t: "tables_ok (start_body sid body c)"
    using ok p old length_delete [OF old] unfolding core_ok_def tables_ok_def concurrent_streams_def o
    by (auto simp: rest alist_simps dest: keys_in)
  have b: "sum_list (map f (AList.delete sid xs)) \<le> sum_list (map f xs)" for f :: "u32 \<times> 'b \<Rightarrow> nat" and xs
    by (rule sum_delete_le)
  have "buffers_ok (start_body sid body c)"
    using ok body room b [of "\<lambda>(_, st). header_list_size (st_headers st)" "cn_streams c"]
      b [of "\<lambda>(_, st). length (st_body st)" "cn_streams c"]
    unfolding core_ok_def buffers_ok_def total_headers_def buffered_requests_def buffered_responses_def o
    by (auto simp: set_delete response_body_ok_def)
  with t show ?thesis
    using ok unfolding core_ok_def windows_ok_def dec_ok_def by (simp add: rest)
qed

section \<open>Sending\<close>

lemma flush_action_facts:
  assumes "flush_action c (sid, b) = Some (sid', chunk, l)"
  obtains w where "map_of (cn_send_stream_windows c) sid = Some w" "int (length chunk) \<le> w"
    "int (length chunk) \<le> cn_send_conn_window c" "0 < w" "0 < cn_send_conn_window c"
    "length chunk \<le> cn_peer_max_frame c" "chunk = take (length chunk) (drop (pb_offset b) (pb_body b))"
    "length chunk \<le> length (pb_body b) - pb_offset b"
    "l \<longleftrightarrow> length (pb_body b) - pb_offset b = length chunk"
proof -
  obtain w where w: "map_of (cn_send_stream_windows c) sid = Some w"
    using assms by (auto simp: flush_action_def split: option.splits)
  let ?avail = "min (cn_send_conn_window c) w" and ?rem = "length (pb_body b) - pb_offset b"
  have pos: "0 < ?avail" using assms w by (auto simp: flush_action_def Let_def split: if_splits)
  show ?thesis
  proof (cases "?rem = 0")
    case True
    then show ?thesis using assms w pos by (intro that [OF w]) (auto simp: flush_action_def Let_def)
  next
    case False
    let ?len = "min (min ?rem (cn_peer_max_frame c)) (nat ?avail)"
    have c: "chunk = slice (pb_body b) (pb_offset b) (pb_offset b + ?len)"
      "l \<longleftrightarrow> pb_offset b + ?len = length (pb_body b)" "?len \<noteq> 0"
      using assms w pos False by (auto simp: flush_action_def Let_def split: if_splits)
    have len: "length chunk = ?len" unfolding c(1) using False by (simp add: slice_def)
    show ?thesis
    proof (rule that [OF w])
      show "chunk = take (length chunk) (drop (pb_offset b) (pb_body b))" unfolding len by (simp add: c(1) slice_def)
      show "l \<longleftrightarrow> ?rem = length chunk" unfolding len c(2) using False by linarith
      show "int (length chunk) \<le> w" "int (length chunk) \<le> cn_send_conn_window c" unfolding len using pos by linarith+
      show "length chunk \<le> cn_peer_max_frame c" "length chunk \<le> ?rem" unfolding len by linarith+
    qed (use pos in auto)
  qed
qed

lemma flush_one_fields [simp]:
  "cn_streams (flush_one sid chunk l c) = cn_streams c" "cn_dec (flush_one sid chunk l c) = cn_dec c"
  "cn_cont_stream (flush_one sid chunk l c) = cn_cont_stream c" "cn_cont_block (flush_one sid chunk l c) = cn_cont_block c"
  "cn_last_client_stream (flush_one sid chunk l c) = cn_last_client_stream c"
  "cn_recv_conn_window (flush_one sid chunk l c) = cn_recv_conn_window c"
  "cn_peer_initial_window (flush_one sid chunk l c) = cn_peer_initial_window c"
  "cn_peer_max_frame (flush_one sid chunk l c) = cn_peer_max_frame c"
  "cn_send_conn_window (flush_one sid chunk l c) = cn_send_conn_window c - int (length chunk)"
  "cn_sent (flush_one sid chunk l c) = cn_sent c @ [(FT_DATA, if l then FLAG_END_STREAM else 0, sid, chunk)]"
  "cn_peer_settings_seen (flush_one sid chunk l c) = cn_peer_settings_seen c"
  by (simp_all add: flush_one_def Let_def send_frame_def remove_window_def remove_pending_def split: option.split)

lemma flush_one_tables:
  assumes "map_of (cn_send_stream_windows c) sid = Some w" "map_of (cn_pending c) sid = Some b"
  shows "cn_send_stream_windows (flush_one sid chunk l c) =
      (if l then AList.delete sid (cn_send_stream_windows c)
       else AList.update sid (w - int (length chunk)) (cn_send_stream_windows c))"
    and "cn_pending (flush_one sid chunk l c) =
      (if l then AList.delete sid (cn_pending c)
       else AList.update sid (b\<lparr>pb_offset := pb_offset b + length chunk\<rparr>) (cn_pending c))"
  using assms by (auto simp: flush_one_def Let_def send_frame_def remove_window_def remove_pending_def delete_update)

lemma core_flush_one:
  assumes ok: "core_ok c" and b: "map_of (cn_pending c) sid = Some b"
    and act: "flush_action c (sid, b) = Some (sid, chunk, l)"
  shows "core_ok (flush_one sid chunk l c)"
proof -
  from act obtain w where w: "map_of (cn_send_stream_windows c) sid = Some w" "int (length chunk) \<le> w"
    "int (length chunk) \<le> cn_send_conn_window c" and last: "l \<longleftrightarrow> length (pb_body b) - pb_offset b = length chunk"
    and le: "length chunk \<le> length (pb_body b) - pb_offset b"
    by (rule flush_action_facts)
  note T = flush_one_tables [OF w(1) b, of chunk l]
  have k: "sid \<in> stream_ids (cn_pending c)" "sid \<notin> stream_ids (cn_streams c)"
    using ok map_of_keys [OF b] by (auto simp: core_ok_def tables_ok_def)
  have t: "tables_ok (flush_one sid chunk l c)"
    using ok k length_delete_le [of sid "cn_pending c"]
    by (auto simp: core_ok_def tables_ok_def concurrent_streams_def T alist_simps length_update)
  have bb: "response_body_ok b" using ok map_of_SomeD [OF b] by (auto simp: core_ok_def buffers_ok_def)
  let ?b = "b\<lparr>pb_offset := pb_offset b + length chunk\<rparr>"
  let ?f = "\<lambda>(_ :: u32, b). length (pb_body b) - pb_offset b"
  have nb: "response_body_ok ?b" if "\<not> l" using bb le last that by (simp add: response_body_ok_def)
  have "buffered_responses (flush_one sid chunk l c) \<le> buffered_responses c"
  proof -
    have "?f (sid, ?b) \<le> ?f (sid, b)" by simp
    with sum_update [OF b, of ?f ?b] sum_delete_le [of ?f sid "cn_pending c"] show ?thesis
      unfolding buffered_responses_def T by (cases l; simp only: if_True if_False; linarith)
  qed
  then have "buffers_ok (flush_one sid chunk l c)"
    using ok nb by (auto simp: core_ok_def buffers_ok_def total_headers_def buffered_requests_def T tables_ok_def
        set_update set_delete split: if_splits)
  moreover have "window_in (cn_peer_initial_window c) (w - int (length chunk))"
    using ok w map_of_SomeD [OF w(1)] by (auto simp: core_ok_def windows_ok_def window_in_def)
  then have "windows_ok (flush_one sid chunk l c)"
    using ok w by (auto simp: core_ok_def windows_ok_def tables_ok_def T set_update set_delete split: if_splits)
  ultimately show ?thesis using t ok by (simp add: core_ok_def dec_ok_def)
qed

lemma core_frame_max: "core_ok c \<Longrightarrow> 0 < cn_peer_max_frame c"
  by (simp add: core_ok_def windows_ok_def)

lemma conn_flush_one:
  assumes "conn_ok c" "find_map (flush_action c) (cn_pending c) = Some (sid, chunk, l)"
  shows "conn_ok (flush_one sid chunk l c)"
proof -
  obtain b where "map_of (cn_pending c) sid = Some b" "flush_action c (sid, b) = Some (sid, chunk, l)"
    using find_flush_action [OF assms(2)] core_frame_max assms(1) by (auto simp: conn_ok_def)
  then have "core_ok (flush_one sid chunk l c)" using assms(1) by (intro core_flush_one) (auto simp: conn_ok_def)
  then show ?thesis using assms(1) by (simp add: conn_ok_def cont_ok_def ready_but_def split: option.splits)
qed

section \<open>Answering\<close>

lemma tables_keys: "core_ok c \<Longrightarrow> sid \<in> stream_ids (cn_streams c) \<Longrightarrow> sid \<notin> stream_ids (cn_pending c)"
  by (auto simp: core_ok_def tables_ok_def)

lemma remove_fields [simp]:
  "cn_streams (remove_window sid c) = cn_streams c" "cn_streams (remove_pending sid c) = cn_streams c"
  "cn_streams (send_frame t f k p c) = cn_streams c" "cn_streams (send_rst_stream sid e c) = cn_streams c"
  "cn_cont_stream (remove_window sid c) = cn_cont_stream c" "cn_cont_stream (remove_pending sid c) = cn_cont_stream c"
  "cn_cont_stream (remove_stream sid c) = cn_cont_stream c"
  "cn_cont_stream (send_frame t f k p c) = cn_cont_stream c" "cn_cont_stream (send_rst_stream sid e c) = cn_cont_stream c"
  "cn_cont_block (remove_window sid c) = cn_cont_block c" "cn_cont_block (remove_pending sid c) = cn_cont_block c"
  "cn_cont_block (remove_stream sid c) = cn_cont_block c"
  "cn_cont_block (send_frame t f k p c) = cn_cont_block c" "cn_cont_block (send_rst_stream sid e c) = cn_cont_block c"
  by (simp_all add: remove_window_def remove_pending_def remove_stream_def send_frame_def send_rst_stream_def)

lemma process_response_ok:
  "process_request st path handle n = Inr (Dns answer) \<Longrightarrow> length (da_body answer) \<le> MAX_H2_RESPONSE"
  by (auto simp: process_request_def Let_def split: if_splits sum.splits option.splits prod.splits)

lemma process_request_answers: "st_have_headers st \<Longrightarrow> \<exists>r. process_request st path handle n = Inr r"
  by (cases "process_request st path handle n")
    (auto simp: process_request_def Let_def split: if_splits sum.splits option.splits prod.splits)

lemma queue_fields [simp]:
  "cn_streams (queue_response sid r c) = cn_streams c"
  "cn_cont_stream (queue_response sid r c) = cn_cont_stream c"
  "cn_cont_block (queue_response sid r c) = cn_cont_block c"
  by (simp_all add: queue_response_def Let_def split: app_response.split)

text \<open>Answering a stream that leaves the table ends in dropping it or in a pending body.\<close>

lemma core_queue:
  assumes ok: "core_ok c" and sid: "sid \<in> stream_ids (cn_streams c)"
    and small: "\<And>a. r = Dns a \<Longrightarrow> length (da_body a) \<le> MAX_H2_RESPONSE"
  shows "core_ok (queue_response sid r (remove_stream sid c\<lparr>cn_calls := n\<rparr>))"
proof -
  have p: "AList.delete sid (cn_pending c) = cn_pending c" using tables_keys [OF ok sid] by (rule delete_absent)
  let ?c = "remove_stream sid c\<lparr>cn_calls := n\<rparr>"
  have drop: "core_ok (remove_window sid (remove_pending sid (?c\<lparr>cn_sent := xs\<rparr>)))"
    "core_ok (remove_window sid (?c\<lparr>cn_sent := xs\<rparr>))" for xs
  proof -
    have "remove_window sid (remove_pending sid (?c\<lparr>cn_sent := xs\<rparr>)) = drop_stream sid c\<lparr>cn_calls := n, cn_sent := xs\<rparr>"
      by (simp add: drop_stream_def remove_window_def remove_pending_def remove_stream_def)
    then show 1: "core_ok (remove_window sid (remove_pending sid (?c\<lparr>cn_sent := xs\<rparr>)))"
      using core_drop [OF ok, of sid] by simp
    have "remove_pending sid (?c\<lparr>cn_sent := xs\<rparr>) = ?c\<lparr>cn_sent := xs\<rparr>"
      using p by (simp add: remove_pending_def remove_stream_def)
    with 1 show "core_ok (remove_window sid (?c\<lparr>cn_sent := xs\<rparr>))" by simp
  qed
  show ?thesis
  proof (cases r)
    case (Status status)
    then show ?thesis using drop by (simp add: queue_response_def Let_def send_frame_def)
  next
    case (Dns a)
    have refused: "core_ok (remove_window sid (remove_pending sid ?c))" using drop(1) [of "cn_sent ?c"] by simp
    have same: "buffered_responses ?c = buffered_responses c" by (simp add: buffered_responses_def remove_stream_def)
    have "core_ok (?c\<lparr>cn_sent := xs, cn_pending := AList.update sid \<lparr>pb_body = da_body a, pb_offset = 0\<rparr> (cn_pending c)\<rparr>)"
      if "buffered_responses c + length (da_body a) \<le> MAX_H2_BUFFERED_RESPONSES" "da_body a \<noteq> []" for xs
    proof -
      have "?c\<lparr>cn_sent := xs, cn_pending := AList.update sid \<lparr>pb_body = da_body a, pb_offset = 0\<rparr> (cn_pending c)\<rparr> =
        start_body sid (da_body a) c\<lparr>cn_calls := n, cn_sent := xs\<rparr>"
        by (simp add: start_body_def remove_stream_def)
      then show ?thesis using core_start [OF ok sid that(2) small [OF Dns] that(1)] by simp
    qed
    then show ?thesis using Dns drop refused same
      by (simp add: queue_response_def Let_def send_frame_def) (simp add: remove_stream_def)
  qed
qed

lemma ready_remove: "ready_but (Some sid) c \<Longrightarrow> ready_but x (remove_stream sid c)"
  by (auto simp: ready_but_def remove_stream_def set_delete)

lemma finish_ok:
  assumes ok: "core_ok c" and st: "map_of (cn_streams c) sid = Some st" "st_have_headers st"
    and ready: "ready_but (Some sid) c" and cont: "cn_cont_stream c = None" "cn_cont_block c = []"
  shows "\<exists>c'. finish_request sid path handle c = (Next, c') \<and> conn_ok c'"
proof -
  let ?c = "remove_stream sid c"
  obtain r where r: "process_request st path handle (cn_calls ?c) = Inr r"
    using process_request_answers [OF st(2)] by blast
  have f: "finish_request sid path handle c = (Next, queue_response sid r (?c\<lparr>cn_calls := cn_calls ?c + 1\<rparr>))"
    using st(1) r by (simp add: finish_request_def Let_def try_result_def)
  have "core_ok (queue_response sid r (?c\<lparr>cn_calls := cn_calls ?c + 1\<rparr>))"
    by (rule core_queue [OF ok map_of_keys [OF st(1)]]) (use r process_response_ok in blast)
  moreover have "ready_but None (queue_response sid r (?c\<lparr>cn_calls := cn_calls ?c + 1\<rparr>))"
    using ready_remove [OF ready, of None] by (simp add: ready_but_def)
  ultimately show ?thesis using f cont by (simp add: conn_ok_def cont_ok_def)
qed

section \<open>Frames without a body\<close>

lemma window_in_add: "window_in initial w \<Longrightarrow> w + d \<le> MAX_WINDOW \<Longrightarrow> window_in (initial + d) (w + d)"
  by (simp add: window_in_def)

lemma add_to_windows_ok:
  "add_to_windows delta ws = Inr ws' \<Longrightarrow> (\<forall>(k, w) \<in> set ws. window_in initial w) \<Longrightarrow>
   map fst ws' = map fst ws \<and> (\<forall>(k, w) \<in> set ws'. window_in (initial + delta) w)"
proof (induction ws arbitrary: ws')
  case (Cons e ws)
  obtain k w where e: "e = (k, w)" by fastforce
  obtain us where us: "add_to_windows delta ws = Inr us" "ws' = (k, w + delta) # us" "w + delta \<le> MAX_WINDOW"
    using Cons.prems(1) by (auto simp: e checked_add_i64_def split: if_splits sum.splits)
  have "window_in (initial + delta) (w + delta)" using Cons.prems(2) us(3) by (intro window_in_add) (auto simp: e)
  then show ?case using Cons.IH [OF us(1)] Cons.prems(2) us(2) e by simp
qed simp

lemma apply_setting_ok:
  assumes "conn_ok c" "apply_setting i v c = (Next, c')"
  shows "conn_ok c'"
proof (cases "c' = c")
  case False
  then consider
    ws where "add_to_windows (uint v - cn_peer_initial_window c) (cn_send_stream_windows c) = Inr ws"
      "c' = c\<lparr>cn_send_stream_windows := ws, cn_peer_initial_window := uint v\<rparr>" "uint v \<le> MAX_WINDOW"
    | "c' = c\<lparr>cn_peer_max_frame := unat v\<rparr>" "16384 \<le> v" "v \<le> 16777215"
    using assms(2) by (auto simp: apply_setting_def try_result_def split: if_splits sum.splits)
  then show ?thesis
  proof cases
    case 1
    have "\<forall>(k, w) \<in> set (cn_send_stream_windows c). window_in (cn_peer_initial_window c) w"
      using assms(1) by (simp add: conn_ok_def core_ok_def windows_ok_def)
    from add_to_windows_ok [OF 1(1) this] have w: "map fst ws = map fst (cn_send_stream_windows c)"
      "\<forall>(k, w) \<in> set ws. window_in (uint v) w" by auto
    have "stream_ids ws = stream_ids (cn_send_stream_windows c)" using w(1) by (metis keys_map)
    then show ?thesis using assms(1) w 1(2,3)
      by (auto simp: conn_ok_def core_ok_def core_defs cont_ok_def ready_but_def split: option.splits)
  next
    case 2
    then have "16384 \<le> unat v" "unat v \<le> 16777215" by (simp_all add: word_le_nat_alt)
    then show ?thesis using assms(1) 2(1)
      by (auto simp: conn_ok_def core_ok_def core_defs cont_ok_def ready_but_def split: option.splits)
  qed
qed (use assms in simp)

lemma apply_settings_ok: "conn_ok c \<Longrightarrow> apply_settings p c = (Next, c') \<Longrightarrow> conn_ok c'"
  by (induction p c rule: apply_settings.induct)
    (auto split: prod.splits exit.splits dest: apply_setting_ok)

lemma conn_ok_sent [simp]:
  "conn_ok (send_frame t f sid p c) = conn_ok c" "conn_ok (send_rst_stream sid e c) = conn_ok c"
  by (simp_all add: conn_ok_def cont_ok_def ready_but_def split: option.split)

lemma settings_frame_ok: "conn_ok c \<Longrightarrow> settings_frame h p c = (Next, c') \<Longrightarrow> conn_ok c'"
  by (auto simp: settings_frame_def split: if_splits prod.splits exit.splits dest: apply_settings_ok)

lemma ping_frame_ok: "conn_ok c \<Longrightarrow> ping_frame h p c = (Next, c') \<Longrightarrow> conn_ok c'"
  by (auto simp: ping_frame_def split: if_splits)

lemma drop_cont:
  assumes "conn_ok c" "cn_cont_stream c = None"
  shows "conn_ok (drop_stream sid c)"
proof -
  have "ready_but None (drop_stream sid c)"
    using assms by (auto simp: conn_ok_def cont_ok_def ready_but_def drop_stream_def remove_stream_def set_delete)
  then show ?thesis using assms core_drop by (simp add: conn_ok_def cont_ok_def drop_stream_def)
qed

lemma rst_stream_frame_ok:
  "conn_ok c \<Longrightarrow> cn_cont_stream c = None \<Longrightarrow> rst_stream_frame h p c = (Next, c') \<Longrightarrow> conn_ok c'"
  using drop_cont [of c "fh_stream h"]
  by (auto simp: rst_stream_frame_def Let_def drop_stream_def split: if_splits)

lemma add_window_ok:
  "add_window w i = Inr w' \<Longrightarrow> w' = w + uint i \<and> w' \<le> MAX_WINDOW"
  by (auto simp: add_window_def checked_add_i64_def split: option.splits if_splits)

lemma window_update_frame_ok:
  assumes ok: "conn_ok c" and step: "window_update_frame h p c = (Next, c')"
  shows "conn_ok c'"
proof -
  obtain i where i: "u32_from_be_bytes p AND 0x7fffffff = i" by simp
  show ?thesis
  proof (cases "fh_stream h = 0")
    case True
    then have "try_result (add_window (cn_send_conn_window c) i) c (\<lambda>w. (Next, c\<lparr>cn_send_conn_window := w\<rparr>)) = (Next, c')"
      using step by (simp add: window_update_frame_def Let_def i split: if_splits)
    then obtain w where w: "add_window (cn_send_conn_window c) i = Inr w" "c' = c\<lparr>cn_send_conn_window := w\<rparr>"
      by (cases "add_window (cn_send_conn_window c) i") (simp_all add: try_result_def)
    have "0 \<le> w" "w \<le> MAX_WINDOW" using add_window_ok [OF w(1)] ok by (auto simp: conn_ok_def core_ok_def windows_ok_def)
    then show ?thesis using ok w(2)
      by (auto simp: conn_ok_def core_ok_def core_defs cont_ok_def ready_but_def split: option.splits)
  next
    case False
    show ?thesis
    proof (cases "map_of (cn_send_stream_windows c) (fh_stream h)")
      case None
      then show ?thesis using ok step False by (auto simp: window_update_frame_def Let_def i split: if_splits)
    next
      case (Some w0)
      let ?c = "\<lambda>w. c\<lparr>cn_send_stream_windows := AList.update (fh_stream h) w (cn_send_stream_windows c)\<rparr>"
      have "try_result (add_window w0 i) c (\<lambda>w. (Next, ?c w)) = (Next, c')"
        using step False Some by (simp add: window_update_frame_def Let_def i split: if_splits)
      then obtain w where w: "add_window w0 i = Inr w" "c' = ?c w"
        by (cases "add_window w0 i") (simp_all add: try_result_def)
      have "window_in (cn_peer_initial_window c) w0"
        using ok map_of_SomeD [OF Some] by (auto simp: conn_ok_def core_ok_def windows_ok_def)
      then have "window_in (cn_peer_initial_window c) w"
        using add_window_ok [OF w(1)] by (auto simp: window_in_def intro: add_increasing2)
      then show ?thesis using ok w(2) map_of_keys [OF Some]
        by (auto simp: conn_ok_def core_ok_def core_defs alist_simps insert_absorb cont_ok_def ready_but_def
            split: option.splits if_splits)
    qed
  qed
qed

section \<open>Header frames\<close>

lemma header_list_size_eq: "header_list_size hs = header_size hs"
proof -
  have "foldl (\<lambda>n (k, v). n + (length k + length v + 32)) a hs = a + header_size hs" for a
    by (induction hs arbitrary: a) (auto simp: entry_size_def)
  then show ?thesis by (simp add: header_list_size_def)
qed

lemma sum_update_filter:
  "distinct (map fst xs) \<Longrightarrow>
   sum_list (map f (AList.update k v xs)) = sum_list (map f (filter (\<lambda>(k', _). k' \<noteq> k) xs)) + (f (k, v) :: nat)"
proof (induction xs)
  case (Cons e xs)
  have "filter (\<lambda>(k', _). k' \<noteq> k) xs = xs" if "k \<notin> fst ` set xs" for k
    using that by (intro filter_True) force
  with Cons show ?case by (cases e) auto
qed simp

lemma store_headers_ok:
  assumes ok: "core_ok c" and st: "map_of (cn_streams c) sid = Some st" and ready: "ready_but (Some sid) c"
    and step: "store_headers sid block c = ((Next, c'), kept)"
  shows "core_ok c'" "cn_cont_stream c' = cn_cont_stream c" "cn_cont_block c' = cn_cont_block c"
    and "kept \<Longrightarrow> ready_but (Some sid) c' \<and>
      (\<exists>hs. map_of (cn_streams c') sid = Some (st\<lparr>st_headers := hs, st_have_headers := True\<rparr>))"
    and "\<not> kept \<Longrightarrow> ready_but None c'"
proof -
  obtain d r where dec: "decode_headers (cn_dec c) block = (d, r)" by fastforce
  then have "hpack_result_ok (allowed_max_size (cn_dec c)) (d, r)"
    using decode_block_ok [of "cn_dec c" "[]" block 0 None] ok
    by (simp add: decode_headers_def core_ok_def dec_ok_def)
  then have d: "decoder_ok d" "allowed_max_size d = 4096" "\<And>hs. r = Some hs \<Longrightarrow> header_list_size hs \<le> MAX_H2_HEADER_BLOCK"
    using ok by (auto simp: hpack_result_ok_def core_ok_def dec_ok_def header_list_size_eq MAX_DECODED_HEADER_LIST_def MAX_H2_HEADER_BLOCK_def)
  let ?c = "c\<lparr>cn_dec := d\<rparr>"
  have ok': "core_ok ?c" using ok d(1,2) by (auto simp: core_ok_def core_defs)
  obtain hs where r: "r = Some hs" using step dec by (cases r) (auto simp: store_headers_def)
  note step' = step [unfolded store_headers_def dec r prod.case option.case Let_def]
  let ?st = "st\<lparr>st_headers := hs, st_have_headers := True\<rparr>"
  show "core_ok c'"
  proof (cases kept)
    case True
    then have c': "c' = put_stream sid ?st ?c" and room: "buffered_headers sid ?c + header_list_size hs \<le> MAX_H2_BUFFERED_HEADERS"
      using step' st by (auto simp: put_stream_def split: if_splits)
    have "total_headers (put_stream sid ?st ?c) \<le> MAX_H2_BUFFERED_HEADERS"
      using room ok sum_update_filter [of "cn_streams c" "\<lambda>(_, st). header_list_size (st_headers st)" sid ?st]
      by (simp add: total_headers_def put_stream_def buffered_headers_def core_ok_def tables_ok_def)
    moreover have "stream_ok ?st"
      using ok map_of_SomeD [OF st] d(3) [OF r] by (auto simp: core_ok_def buffers_ok_def stream_ok_def)
    moreover have "buffered_requests ?c \<le> MAX_H2_BUFFERED_REQUESTS" using ok' by (simp add: core_ok_def buffers_ok_def)
    ultimately show ?thesis unfolding c' using st by (intro core_put [OF ok', of sid st]) auto
  next
    case False
    then have "c' = send_rst_stream sid CANCEL (remove_window sid (remove_stream sid ?c))"
      using step' by (auto split: if_splits)
    moreover have "remove_window sid (remove_stream sid ?c) = drop_stream sid ?c"
      using tables_keys [OF ok map_of_keys [OF st]]
      by (simp add: drop_stream_def remove_pending_def remove_stream_def delete_absent)
    ultimately show ?thesis using core_drop [OF ok', of sid] by simp
  qed
  show "cn_cont_stream c' = cn_cont_stream c" "cn_cont_block c' = cn_cont_block c"
    using step' by (auto split: if_splits option.splits)
  show "ready_but (Some sid) c' \<and> (\<exists>hs. map_of (cn_streams c') sid = Some (st\<lparr>st_headers := hs, st_have_headers := True\<rparr>))" if kept
  proof -
    have c': "c' = put_stream sid ?st ?c" using that step' st by (auto simp: put_stream_def split: if_splits)
    show ?thesis unfolding c' using ready ok
      by (auto simp: ready_but_def put_stream_def set_update core_ok_def tables_ok_def update_conv' split: if_splits)
  qed
  show "ready_but None c'" if "\<not> kept"
  proof -
    have "c' = send_rst_stream sid CANCEL (remove_window sid (remove_stream sid ?c))"
      using that step' by (auto split: if_splits)
    then show ?thesis using ready by (auto simp: ready_but_def remove_stream_def set_delete)
  qed
qed

lemma map_of_key: "k \<in> stream_ids xs \<Longrightarrow> \<exists>v. map_of xs k = Some v"
  by (simp add: stream_ids_def) (metis map_of_eq_None_iff not_Some_eq)

text \<open>A block that is complete: the stream is dropped, kept, or answered at once.\<close>

lemma complete_headers_ok:
  assumes ok: "core_ok c" and st: "map_of (cn_streams c) sid = Some st" and ready: "ready_but (Some sid) c"
    and store: "store_headers sid block c = ((Next, c1), kept)" and clear: "cn_cont_stream c2 = None" "cn_cont_block c2 = []"
    and c2: "c2 = c1\<lparr>cn_cont_stream := cn_cont_stream c2, cn_cont_block := cn_cont_block c2\<rparr>"
    and step: "(if kept \<and> st_end_stream st then finish_request sid path handle c2 else (Next, c2)) = (Next, c')"
  shows "conn_ok c'"
proof -
  note S = store_headers_ok [OF ok st ready store]
  have core: "core_ok c2" by (subst c2) (use S(1) in simp)
  have streams: "cn_streams c2 = cn_streams c1" by (subst c2) simp
  show ?thesis
  proof (cases "kept \<and> st_end_stream st")
    case True
    then obtain hs where hs: "map_of (cn_streams c2) sid = Some (st\<lparr>st_headers := hs, st_have_headers := True\<rparr>)"
      and r: "ready_but (Some sid) c2" using S(4) streams by (auto simp: ready_but_def)
    from finish_ok [OF core hs _ r clear, of path handle] step True show ?thesis by auto
  next
    case False
    have "ready_but None c2"
    proof (cases kept)
      case True
      then obtain hs where hs: "ready_but (Some sid) c1" "map_of (cn_streams c1) sid = Some (st\<lparr>st_headers := hs, st_have_headers := True\<rparr>)"
        using S(4) by auto
      have "distinct (map fst (cn_streams c1))" using S(1) by (simp add: core_ok_def tables_ok_def)
      then have "st' = st\<lparr>st_headers := hs, st_have_headers := True\<rparr>" if "(sid, st') \<in> set (cn_streams c1)" for st'
        using hs(2) that by simp
      then show ?thesis using True False streams hs(1) by (force simp: ready_but_def)
    next
      case False
      then show ?thesis using S(5) streams by (simp add: ready_but_def)
    qed
    then show ?thesis using False step core clear by (auto simp: conn_ok_def cont_ok_def)
  qed
qed

lemma headers_frame_ok:
  assumes ok: "conn_ok c" and cont: "cn_cont_stream c = None" and step: "headers_frame path handle h p c = (Next, c')"
  shows "conn_ok c'"
proof -
  let ?sid = "fh_stream h" and ?c = "c\<lparr>cn_last_client_stream := fh_stream h\<rparr>"
  have guard: "\<not> (?sid = 0 \<or> ?sid AND 1 = 0 \<or> ?sid \<le> cn_last_client_stream c)"
  proof
    assume "?sid = 0 \<or> ?sid AND 1 = 0 \<or> ?sid \<le> cn_last_client_stream c"
    then have "headers_frame path handle h p c = (Fail H2Protocol, c)" by (simp only: headers_frame_def Let_def if_True)
    with step show False by simp
  qed
  then have sid: "cn_last_client_stream c < ?sid" by auto
  note step1 = step [unfolded headers_frame_def Let_def if_not_P [OF guard]]
  have new: "?sid \<notin> stream_ids (cn_send_stream_windows c)" "?sid \<notin> stream_ids (cn_streams c)"
    using ok sid by (auto simp: conn_ok_def core_ok_def tables_ok_def)
  have core: "core_ok ?c"
    using ok sid by (auto simp: conn_ok_def core_ok_def core_defs)
  have ok': "conn_ok ?c" using ok core by (simp add: conn_ok_def cont_ok_def ready_but_def split: option.splits)
  have ready: "ready_but None c" "cn_cont_block c = []" using ok cont by (auto simp: conn_ok_def cont_ok_def)
  show ?thesis
  proof (cases "concurrent_streams ?c \<ge> MAX_H2_STREAMS")
    case True
    then show ?thesis using step1 ok' by auto
  next
    case False
    then obtain block where block: "strip_headers p (fh_flags h) = Inr block"
      using step1 by (cases "strip_headers p (fh_flags h)") (auto simp: try_result_def)
    let ?o = "open_stream ?sid (has_flag h FLAG_END_STREAM) ?c" and ?st = "default_stream\<lparr>st_end_stream := has_flag h FLAG_END_STREAM\<rparr>"
    have absent: "map_of (cn_streams c) ?sid = None" using new(2) by (simp add: stream_ids_def map_of_eq_None_iff)
    have o: "core_ok ?o" using core new(1) False by (intro core_open) auto
    have os: "cn_streams ?o = cn_streams c @ [(?sid, ?st)]" using new(2) by (simp add: open_stream_def put_stream_def update_new)
    have ost: "map_of (cn_streams ?o) ?sid = Some ?st" using absent by (simp add: os map_add_def)
    have oready: "ready_but (Some ?sid) ?o" using ready new(2) by (auto simp: ready_but_def os)
    have ocont: "cn_cont_stream ?o = None" "cn_cont_block ?o = []" using cont ready by (simp_all add: open_stream_def put_stream_def)
    have step2: "(if length block > MAX_H2_HEADER_BLOCK then (Next, send_rst_stream ?sid CANCEL ?c)
        else if has_flag h FLAG_END_HEADERS then
             (case store_headers ?sid block ?o of
                ((Next, c), True) \<Rightarrow>
                  if has_flag h FLAG_END_STREAM then finish_request ?sid path handle c else (Next, c)
              | (other, _) \<Rightarrow> other)
           else (Next, ?o\<lparr>cn_cont_block := block, cn_cont_stream := Some ?sid\<rparr>)) = (Next, c')"
      using step1 False block absent by (simp add: try_result_def Let_def open_stream_def put_stream_def cong: if_cong)
    show ?thesis
    proof (cases "length block > MAX_H2_HEADER_BLOCK")
      case True
      then show ?thesis using step2 ok' by auto
    next
      case fits: False
      show ?thesis
      proof (cases "has_flag h FLAG_END_HEADERS")
        case True
        then obtain c1 kept where store: "store_headers ?sid block ?o = ((Next, c1), kept)"
          using step2 fits by (auto split: prod.splits exit.splits bool.splits)
        have c1: "cn_cont_stream c1 = None" "cn_cont_block c1 = []"
          using store_headers_ok(2,3) [OF o ost oready store] ocont by auto
        show ?thesis
          by (rule complete_headers_ok [OF o ost oready store c1]) (use step2 fits True store in \<open>auto split: if_splits bool.splits\<close>)
      next
        case False
        then have c': "c' = ?o\<lparr>cn_cont_block := block, cn_cont_stream := Some ?sid\<rparr>" using step2 fits by auto
        show ?thesis unfolding c' using o oready fits by (simp add: conn_ok_def cont_ok_def ready_but_def os)
      qed
    qed
  qed
qed

lemma continuation_frame_ok:
  assumes ok: "conn_ok c" and step: "continuation_frame path handle h p c = (Next, c')"
  shows "conn_ok c'"
proof -
  let ?sid = "fh_stream h" and ?c = "c\<lparr>cn_cont_block := cn_cont_block c @ p\<rparr>"
  have cont: "cn_cont_stream c = Some ?sid" using step by (auto simp: continuation_frame_def Let_def split: if_splits)
  then have core: "core_ok c" and ready: "ready_but (Some ?sid) c" and k: "?sid \<in> stream_ids (cn_streams c)"
    using ok by (auto simp: conn_ok_def cont_ok_def)
  obtain st where st: "map_of (cn_streams c) ?sid = Some st" using map_of_key [OF k] by blast
  show ?thesis
  proof (cases "length (cn_cont_block c) + length p > MAX_H2_HEADER_BLOCK")
    case True
    then have "c' = send_rst_stream ?sid CANCEL (clear_cont (remove_window ?sid (remove_stream ?sid c)))"
      using step cont by (auto simp: continuation_frame_def Let_def)
    moreover have "remove_window ?sid (remove_stream ?sid c) = drop_stream ?sid c"
      using tables_keys [OF core k] by (simp add: drop_stream_def remove_pending_def remove_stream_def delete_absent)
    moreover have "ready_but None (drop_stream ?sid c)"
      using ready by (auto simp: ready_but_def drop_stream_def remove_stream_def set_delete)
    ultimately show ?thesis using core_drop [OF core, of ?sid]
      by (simp add: conn_ok_def cont_ok_def) (simp add: clear_cont_def ready_but_def)
  next
    case fits: False
    show ?thesis
    proof (cases "has_flag h FLAG_END_HEADERS")
      case True
      have core': "core_ok ?c" and ready': "ready_but (Some ?sid) ?c" and st': "map_of (cn_streams ?c) ?sid = Some st"
        using core ready st by (simp_all add: ready_but_def)
      obtain c1 kept where store: "store_headers ?sid (cn_cont_block c @ p) ?c = ((Next, c1), kept)"
        using step cont fits True by (auto simp: continuation_frame_def Let_def split: prod.splits exit.splits)
      have end_stream: "\<exists>st1. map_of (cn_streams c1) ?sid = Some st1 \<and> st_end_stream st1 = st_end_stream st" if kept
        using store_headers_ok(4) [OF core' st' ready' store that] by auto
      have step2: "(if kept \<and> st_end_stream st then finish_request ?sid path handle (clear_cont c1) else (Next, clear_cont c1)) = (Next, c')"
        using step cont fits True store end_stream by (auto simp: continuation_frame_def Let_def clear_cont_def split: if_splits)
      show ?thesis
        by (rule complete_headers_ok [OF core' st' ready' store _ _ _ step2]) (simp_all add: clear_cont_def)
    next
      case False
      then have "c' = ?c" using step cont fits by (auto simp: continuation_frame_def Let_def)
      then show ?thesis using core ready k fits cont by (simp add: conn_ok_def cont_ok_def ready_but_def)
    qed
  qed
qed

section \<open>Data\<close>

lemma restore_credit:
  assumes "0 \<le> amount" "window + amount = INITIAL_WINDOW" "0 \<le> window"
  obtains xs where "restore_receive_credit sid amount window c = Inr (INITIAL_WINDOW, c\<lparr>cn_sent := xs\<rparr>)"
proof (cases "amount = 0")
  case True
  then show ?thesis using assms that [of "cn_sent c"] by (simp add: restore_receive_credit_def)
next
  case False
  have a: "amount \<le> 65535" using assms by (simp add: INITIAL_WINDOW_def)
  then have u: "uint (of_int amount :: u32) = amount" using assms(1) by (simp add: uint_word_of_int)
  have "add_window window (of_int amount) = Inr INITIAL_WINDOW"
    using assms a unfolding add_window_def u by (simp add: checked_add_i64_def INITIAL_WINDOW_def MAX_WINDOW_def)
  then show ?thesis using False assms(1) a that
    by (simp add: restore_receive_credit_def Let_def send_frame_def)
qed

lemma strip_padding_length: "strip_padding p f = Inr d \<Longrightarrow> length d \<le> length p"
  by (auto simp: strip_padding_def Let_def split: if_splits list.splits)

lemma data_frame_ok:
  assumes ok: "conn_ok c" and cont: "cn_cont_stream c = None" and step: "data_frame path handle h p c = (Next, c')"
  shows "conn_ok c'"
proof -
  let ?sid = "fh_stream h" and ?flow = "int (length p)"
  let ?c = "c\<lparr>cn_recv_conn_window := cn_recv_conn_window c - ?flow\<rparr>"
  have core: "core_ok c" and ready: "ready_but None c" and block: "cn_cont_block c = []"
    using ok cont by (auto simp: conn_ok_def cont_ok_def)
  have recv: "cn_recv_conn_window c = INITIAL_WINDOW" using core by (simp add: core_ok_def windows_ok_def)
  have guard: "?sid \<noteq> 0" "?flow \<le> INITIAL_WINDOW"
    using step recv by (auto simp: data_frame_def Let_def split: if_splits)
  obtain xs where credit: "restore_receive_credit 0 ?flow (cn_recv_conn_window ?c) ?c = Inr (INITIAL_WINDOW, ?c\<lparr>cn_sent := xs\<rparr>)"
    by (rule restore_credit [of ?flow "cn_recv_conn_window ?c"]) (use recv guard in auto)
  have same: "c\<lparr>cn_sent := ys, cn_recv_conn_window := INITIAL_WINDOW\<rparr> = c\<lparr>cn_sent := ys\<rparr>" for ys using recv by (cases c) simp
  show ?thesis
  proof (cases "map_of (cn_streams c) ?sid")
    case None
    then have "c' = send_rst_stream ?sid CANCEL (c\<lparr>cn_sent := xs\<rparr>)"
      using step guard credit recv by (auto simp: data_frame_def Let_def try_result_def same)
    then show ?thesis using ok by (simp add: conn_ok_def cont_ok_def ready_but_def split: option.splits)
  next
    case (Some st)
    have sok: "stream_ok st" "st_have_headers st" "\<not> st_end_stream st"
      using core ready map_of_SomeD [OF Some] by (auto simp: core_ok_def buffers_ok_def ready_but_def)
    then have sw: "st_recv_window st = INITIAL_WINDOW" by (simp add: stream_ok_def)
    obtain data where data: "strip_padding p (fh_flags h) = Inr data"
      using step guard Some recv sw by (cases "strip_padding p (fh_flags h)") (auto simp: data_frame_def Let_def try_result_def)
    obtain ys where credit2: "restore_receive_credit ?sid ?flow (INITIAL_WINDOW - ?flow) (c\<lparr>cn_sent := xs\<rparr>) = Inr (INITIAL_WINDOW, c\<lparr>cn_sent := ys\<rparr>)"
      by (rule restore_credit [of ?flow "INITIAL_WINDOW - ?flow" ?sid "c\<lparr>cn_sent := xs\<rparr>"]) (use guard in auto)
    let ?large = "length (st_body st) + length data > MAX_H2_BODY \<or> buffered_requests ?c + length data > MAX_H2_BUFFERED_REQUESTS"
    let ?st = "if ?large then st else st\<lparr>st_body := st_body st @ data\<rparr>"
    let ?new = "put_stream ?sid ?st (c\<lparr>cn_sent := ys\<rparr>)"
    have st_eq: "st\<lparr>st_recv_window := INITIAL_WINDOW\<rparr> = st"
      "st\<lparr>st_body := b, st_recv_window := INITIAL_WINDOW\<rparr> = st\<lparr>st_body := b\<rparr>" for b
      using sw by (cases st; simp)+
    have step2: "(if ?large then (Next, send_rst_stream ?sid CANCEL (drop_stream ?sid ?new))
        else if has_flag h FLAG_END_STREAM then finish_request ?sid path handle ?new else (Next, ?new)) = (Next, c')"
      using step guard Some recv sw data credit credit2
      by (auto simp: data_frame_def Let_def try_result_def same st_eq drop_stream_def put_stream_def cong: if_cong split: if_splits)
    have core': "core_ok ?new"
    proof (rule core_put [of _ _ st])
      show "core_ok (c\<lparr>cn_sent := ys\<rparr>)" using core by simp
      show "map_of (cn_streams (c\<lparr>cn_sent := ys\<rparr>)) ?sid = Some st" using Some by simp
      show "stream_ok ?st" using sok(1) by (auto simp: stream_ok_def)
      show "total_headers (put_stream ?sid ?st (c\<lparr>cn_sent := ys\<rparr>)) \<le> MAX_H2_BUFFERED_HEADERS"
        using sum_update [OF Some, of "\<lambda>(_, st). header_list_size (st_headers st)" ?st] core
        by (auto simp: total_headers_def put_stream_def core_ok_def buffers_ok_def)
      show "buffered_requests (c\<lparr>cn_sent := ys\<rparr>) + length (st_body ?st) \<le> MAX_H2_BUFFERED_REQUESTS + length (st_body st)"
        using core by (auto simp: buffered_requests_def core_ok_def buffers_ok_def)
    qed
    have ready': "ready_but None ?new"
      using ready sok core by (auto simp: ready_but_def put_stream_def set_update core_ok_def tables_ok_def split: if_splits)
    have conn': "conn_ok ?new" using core' ready' cont block by (simp add: conn_ok_def cont_ok_def put_stream_def)
    show ?thesis
    proof (cases ?large)
      case True
      then show ?thesis using step2 drop_cont [OF conn', of ?sid] cont by (auto simp: put_stream_def)
    next
      case fits: False
      show ?thesis
      proof (cases "has_flag h FLAG_END_STREAM")
        case True
        have st': "map_of (cn_streams ?new) ?sid = Some ?st" by (simp add: put_stream_def update_conv')
        have "st_have_headers ?st" using sok(2) by simp
        moreover have "ready_but (Some ?sid) ?new" using ready' by (auto simp: ready_but_def)
        ultimately obtain c2 where "finish_request ?sid path handle ?new = (Next, c2)" "conn_ok c2"
          using finish_ok [OF core' st', of path handle] cont block by (auto simp: put_stream_def)
        then show ?thesis using step2 fits True by simp
      next
        case False
        then show ?thesis using step2 fits conn' by simp
      qed
    qed
  qed
qed

section \<open>The whole step\<close>

theorem handle_frame_ok:
  assumes ok: "conn_ok c" and step: "handle_frame path handle h p c = (Next, c')"
  shows "conn_ok c'"
proof -
  let ?c = "c\<lparr>cn_peer_settings_seen := True\<rparr>"
  have ok': "conn_ok ?c" using ok by (simp add: conn_ok_def cont_ok_def ready_but_def split: option.splits)
  note ok_rules = settings_frame_ok [OF ok'] ping_frame_ok [OF ok'] window_update_frame_ok [OF ok']
    continuation_frame_ok [OF ok'] rst_stream_frame_ok [OF ok'] headers_frame_ok [OF ok'] data_frame_ok [OF ok']
  show ?thesis
  proof (cases "cn_cont_stream c")
    case None
    then have "cn_cont_stream ?c = None" by simp
    with step ok' show ?thesis unfolding handle_frame_def Let_def
      by (auto split: if_splits intro: ok_rules)
  next
    case (Some k)
    then have "continuation_frame path handle h p ?c = (Next, c')"
      using step by (auto simp: handle_frame_def Let_def frame_types split: if_splits)
    then show ?thesis by (rule continuation_frame_ok [OF ok'])
  qed
qed

end
