(* ===== verification/Http2Run.thy ===== *)
theory Http2Run
  imports Http2Invariant "HOL-Library.Multiset"
begin

text \<open>
  Runs of a connection: the states the loop passes through, with the frames received on the way. The
  hash maps may be iterated in any order, so their lists may be rearranged between any two steps. What
  holds at the start and is kept by every step holds in every such state; the limits and the account of
  the flow-control credit are two such invariants.
\<close>

section \<open>Reachable states\<close>

definition started :: conn where
  "started = send_frame FT_SETTINGS 0 0 initial_settings new_conn"

inductive conn_reach :: "bytes \<Rightarrow> handler \<Rightarrow> (frame_header \<times> bytes) list \<Rightarrow> conn \<Rightarrow> bool" for path handle where
  reach_start: "conn_reach path handle [] started"
| reach_flush: "conn_reach path handle fs c \<Longrightarrow> find_map (flush_action c) (cn_pending c) = Some (sid, chunk, l) \<Longrightarrow>
    conn_reach path handle fs (flush_one sid chunk l c)"
| reach_frame: "conn_reach path handle fs c \<Longrightarrow> handle_frame path handle h p c = (Next, c') \<Longrightarrow>
    conn_reach path handle (fs @ [(h, p)]) c'"
| reach_reorder: "conn_reach path handle fs c \<Longrightarrow> mset ss = mset (cn_streams c) \<Longrightarrow> mset ws = mset (cn_send_stream_windows c) \<Longrightarrow>
    mset ps = mset (cn_pending c) \<Longrightarrow>
    conn_reach path handle fs (c\<lparr>cn_streams := ss, cn_send_stream_windows := ws, cn_pending := ps\<rparr>)"

locale connection_invariant =
  fixes I :: "(frame_header \<times> bytes) list \<Rightarrow> conn \<Rightarrow> bool" and path :: bytes and handle :: handler
  assumes start: "I [] started"
    and flush: "I fs c \<Longrightarrow> find_map (flush_action c) (cn_pending c) = Some (sid, chunk, l) \<Longrightarrow> I fs (flush_one sid chunk l c)"
    and frame: "I fs c \<Longrightarrow> handle_frame path handle h p c = (Next, c') \<Longrightarrow> I (fs @ [(h, p)]) c'"
    and reorder: "I fs c \<Longrightarrow> mset ss = mset (cn_streams c) \<Longrightarrow> mset ws = mset (cn_send_stream_windows c) \<Longrightarrow>
      mset ps = mset (cn_pending c) \<Longrightarrow> I fs (c\<lparr>cn_streams := ss, cn_send_stream_windows := ws, cn_pending := ps\<rparr>)"
begin

lemma reached: "conn_reach path handle fs c \<Longrightarrow> I fs c"
  by (induction rule: conn_reach.induct) (auto intro: start flush frame reorder)

lemma flushed: "I fs c \<Longrightarrow> I fs (flush_pending c)"
proof (induction c rule: flush_pending.induct)
  case (1 c)
  show ?case
  proof (cases "find_map (flush_action c) (cn_pending c)")
    case None
    then show ?thesis using 1(2) by (simp add: flush_pending.simps [of c])
  next
    case (Some a)
    obtain sid chunk l where a: "a = (sid, chunk, l)" by (cases a) auto
    have "I fs (flush_one sid chunk l c)" using flush [OF 1(2)] Some a by simp
    then show ?thesis using 1(1) [OF Some a [symmetric] refl] a Some by (simp add: flush_pending.simps [of c])
  qed
qed

end

section \<open>Limits\<close>

lemma mset_keys: "mset xs = mset ys \<Longrightarrow> stream_ids xs = stream_ids ys"
  by (metis stream_ids_def set_mset_mset)

lemma mset_distinct: "mset xs = mset ys \<Longrightarrow> distinct (map fst xs) = distinct (map fst ys)"
  by (metis mset_map mset_eq_imp_distinct_iff)

lemma mset_sum: "mset xs = mset ys \<Longrightarrow> sum_list (map f xs) = (sum_list (map f ys) :: nat)"
  by (metis mset_map sum_mset_sum_list)

lemma conn_ok_started: "conn_ok started"
  by (simp add: started_def) (simp add: new_conn_def conn_ok_def core_ok_def core_defs cont_ok_def ready_but_def
    new_decoder_def decoder_ok_def INITIAL_WINDOW_def MAX_WINDOW_def DEFAULT_MAX_FRAME_def)

lemma conn_ok_reorder:
  assumes "conn_ok c" "mset ss = mset (cn_streams c)" "mset ws = mset (cn_send_stream_windows c)" "mset ps = mset (cn_pending c)"
  shows "conn_ok (c\<lparr>cn_streams := ss, cn_send_stream_windows := ws, cn_pending := ps\<rparr>)"
proof -
  note K = assms(2-4) [THEN mset_keys] and D = assms(2-4) [THEN mset_distinct] and M = assms(2-4) [THEN mset_eq_setD]
    and L = assms(2-4) [THEN mset_eq_length]
  show ?thesis
    using assms(1) unfolding conn_ok_def core_ok_def core_defs cont_ok_def ready_but_def
    by (simp add: K D M L assms(2) [THEN mset_sum] assms(4) [THEN mset_sum] split: option.splits) auto
qed

interpretation limits: connection_invariant "\<lambda>fs c. conn_ok c" path handle for path handle
  by unfold_locales (auto intro: conn_ok_started conn_flush_one handle_frame_ok conn_ok_reorder)

lemma reach_flush_pending: "conn_reach path handle fs c \<Longrightarrow> conn_reach path handle fs (flush_pending c)"
proof (induction c rule: flush_pending.induct)
  case (1 c)
  show ?case
  proof (cases "find_map (flush_action c) (cn_pending c)")
    case None
    then show ?thesis using 1(2) by (simp add: flush_pending.simps [of c])
  next
    case (Some a)
    obtain sid chunk l where a: "a = (sid, chunk, l)" by (cases a) auto
    then show ?thesis using reach_flush [OF 1(2)] 1(1) [OF Some a [symmetric] refl] Some
      by (simp add: flush_pending.simps [of c])
  qed
qed

section \<open>Credit\<close>

text \<open>The bytes of body sent so far, and the credit for them on the connection: the initial window and the window updates.\<close>

definition data_sent :: "conn \<Rightarrow> nat" where
  "data_sent c = (\<Sum>(t, _, _, p) \<leftarrow> cn_sent c. if t = FT_DATA then length p else 0)"

definition frame_credit :: "frame_header \<times> bytes \<Rightarrow> int" where
  "frame_credit f = (case f of (h, p) \<Rightarrow>
     if fh_type h = FT_WINDOW_UPDATE \<and> fh_stream h = 0 then uint (u32_from_be_bytes p AND 0x7fffffff) else 0)"

definition conn_credit :: "(frame_header \<times> bytes) list \<Rightarrow> int" where
  "conn_credit fs = INITIAL_WINDOW + sum_list (map frame_credit fs)"

definition no_data :: "conn \<Rightarrow> conn \<Rightarrow> bool" where
  "no_data c c' \<longleftrightarrow> data_sent c' = data_sent c \<and> cn_send_conn_window c' = cn_send_conn_window c"

lemma no_data_refl [simp]: "no_data c c"
  by (simp add: no_data_def)

lemma no_data_simps [simp]:
  "t \<noteq> FT_DATA \<Longrightarrow> no_data c (send_frame t f sid p c') = no_data c c'"
  "no_data c (send_rst_stream sid e c') = no_data c c'" "no_data c (remove_stream sid c') = no_data c c'"
  "no_data c (remove_pending sid c') = no_data c c'" "no_data c (remove_window sid c') = no_data c c'"
  "no_data c (clear_cont c') = no_data c c'" "no_data c (c'\<lparr>cn_streams := ss\<rparr>) = no_data c c'"
  "no_data c (c'\<lparr>cn_pending := ps\<rparr>) = no_data c c'" "no_data c (c'\<lparr>cn_send_stream_windows := ws\<rparr>) = no_data c c'"
  "no_data c (c'\<lparr>cn_calls := n\<rparr>) = no_data c c'" "no_data c (c'\<lparr>cn_dec := d\<rparr>) = no_data c c'"
  "no_data c (c'\<lparr>cn_cont_block := b\<rparr>) = no_data c c'" "no_data c (c'\<lparr>cn_cont_stream := x\<rparr>) = no_data c c'"
  "no_data c (c'\<lparr>cn_recv_conn_window := w\<rparr>) = no_data c c'" "no_data c (c'\<lparr>cn_peer_initial_window := w\<rparr>) = no_data c c'"
  "no_data c (c'\<lparr>cn_peer_max_frame := n\<rparr>) = no_data c c'" "no_data c (c'\<lparr>cn_last_client_stream := k\<rparr>) = no_data c c'"
  "no_data c (c'\<lparr>cn_peer_settings_seen := y\<rparr>) = no_data c c'"
  by (simp_all add: no_data_def data_sent_def send_frame_def send_rst_stream_def remove_stream_def remove_pending_def
      remove_window_def clear_cont_def frame_types)

lemma no_data_queue [simp]: "no_data c (queue_response sid r c') = no_data c c'"
  by (simp add: queue_response_def Let_def frame_types split: app_response.split)

lemma no_data_finish: "finish_request sid path handle c' = (e, c'') \<Longrightarrow> no_data c c' \<Longrightarrow> no_data c c''"
  by (auto simp: finish_request_def Let_def try_result_def split: option.splits sum.splits)

lemma no_data_setting: "apply_setting i v c = (e, c') \<Longrightarrow> no_data c c'"
  by (auto simp: apply_setting_def try_result_def split: if_splits sum.splits)

lemma no_data_trans: "no_data a b \<Longrightarrow> no_data b c \<Longrightarrow> no_data a c"
  by (simp add: no_data_def)

lemma no_data_settings: "apply_settings p c = (e, c') \<Longrightarrow> no_data c c'"
  by (induction p c rule: apply_settings.induct)
    (auto split: prod.splits exit.splits dest: no_data_setting intro: no_data_trans)

lemma no_data_settings_frame: "settings_frame h p c = (e, c') \<Longrightarrow> no_data c c'"
  by (auto simp: settings_frame_def frame_types split: if_splits prod.splits exit.splits dest: no_data_settings)

lemma no_data_ping: "ping_frame h p c = (e, c') \<Longrightarrow> no_data c c'"
  by (auto simp: ping_frame_def frame_types split: if_splits)

lemma no_data_rst: "rst_stream_frame h p c = (e, c') \<Longrightarrow> no_data c c'"
  by (auto simp: rst_stream_frame_def Let_def split: if_splits)

lemma no_data_store: "store_headers sid block c' = ((e, c''), kept) \<Longrightarrow> no_data c c' \<Longrightarrow> no_data c c''"
  by (auto simp: store_headers_def Let_def split: prod.splits option.splits if_splits)

lemma no_data_restore: "restore_receive_credit sid a w c' = Inr (w', c'') \<Longrightarrow> no_data c c' \<Longrightarrow> no_data c c''"
  by (auto simp: restore_receive_credit_def Let_def frame_types split: if_splits sum.splits)

lemma no_data_headers: "headers_frame path handle h p c = (e, c') \<Longrightarrow> no_data c c'"
  unfolding headers_frame_def Let_def try_result_def
  by (auto split: if_splits sum.splits prod.splits exit.splits bool.splits intro: no_data_finish
      dest!: no_data_store [where c = c])

lemma no_data_continuation: "continuation_frame path handle h p c = (e, c') \<Longrightarrow> no_data c c'"
  unfolding continuation_frame_def Let_def
  by (auto split: if_splits prod.splits exit.splits bool.splits option.splits intro: no_data_finish
      dest!: no_data_store [where c = c])

lemma no_data_data: "data_frame path handle h p c = (e, c') \<Longrightarrow> no_data c c'"
  unfolding data_frame_def Let_def try_result_def
  by (auto split: if_splits sum.splits option.splits prod.splits intro: no_data_finish
      dest!: no_data_restore [where c = c])

lemma credit_window_update:
  assumes "window_update_frame h p c = (Next, c')" "fh_type h = FT_WINDOW_UPDATE"
  shows "data_sent c' = data_sent c \<and> cn_send_conn_window c' = cn_send_conn_window c + frame_credit (h, p)"
proof -
  obtain i where i: "u32_from_be_bytes p AND 0x7fffffff = i" by simp
  have sent: "cn_sent c' = cn_sent c" and w: "cn_send_conn_window c' = cn_send_conn_window c + (if fh_stream h = 0 then uint i else 0)"
    using assms(1) unfolding window_update_frame_def i Let_def try_result_def
    by (auto split: if_splits sum.splits option.splits dest: add_window_ok)
  then show ?thesis using assms(2) by (simp add: frame_credit_def i data_sent_def)
qed

lemma credit_frame:
  assumes "handle_frame path handle h p c = (Next, c')"
  shows "int (data_sent c') + cn_send_conn_window c' = int (data_sent c) + cn_send_conn_window c + frame_credit (h, p)"
proof -
  let ?c = "c\<lparr>cn_peer_settings_seen := True\<rparr>"
  have seen: "data_sent ?c = data_sent c" by (simp add: data_sent_def)
  show ?thesis
  proof (cases "fh_type h = FT_WINDOW_UPDATE")
    case True
    then have "window_update_frame h p ?c = (Next, c')"
      using assms by (auto simp: handle_frame_def Let_def frame_types split: if_splits)
    from credit_window_update [OF this True] show ?thesis using seen by simp
  next
    case False
    then have "no_data ?c c'"
      using assms unfolding handle_frame_def Let_def
      by (auto split: if_splits dest: no_data_settings_frame no_data_ping no_data_rst no_data_headers no_data_continuation no_data_data)
    then show ?thesis using False seen by (simp add: no_data_def frame_credit_def)
  qed
qed

definition credit_ok :: "(frame_header \<times> bytes) list \<Rightarrow> conn \<Rightarrow> bool" where
  "credit_ok fs c \<longleftrightarrow> conn_ok c \<and> int (data_sent c) + cn_send_conn_window c = conn_credit fs"

interpretation credit: connection_invariant credit_ok path handle for path handle
proof unfold_locales
  show "credit_ok [] started"
    by (simp add: credit_ok_def conn_ok_started)
      (simp add: started_def data_sent_def send_frame_def new_conn_def conn_credit_def frame_types)
  show "credit_ok fs (flush_one sid chunk l c)"
    if "credit_ok fs c" "find_map (flush_action c) (cn_pending c) = Some (sid, chunk, l)" for fs c sid chunk l
    using that conn_flush_one [of c sid chunk l] by (simp add: credit_ok_def data_sent_def)
  show "credit_ok (fs @ [(h, p)]) c'"
    if "credit_ok fs c" "handle_frame path handle h p c = (Next, c')" for fs c h p c'
    using that credit_frame [OF that(2)] handle_frame_ok [OF _ that(2)] by (simp add: credit_ok_def conn_credit_def)
  show "credit_ok fs (c\<lparr>cn_streams := ss, cn_send_stream_windows := ws, cn_pending := ps\<rparr>)"
    if "credit_ok fs c" "mset ss = mset (cn_streams c)" "mset ws = mset (cn_send_stream_windows c)" "mset ps = mset (cn_pending c)"
    for fs c ss ws ps using that conn_ok_reorder [of c ss ws ps] by (simp add: credit_ok_def data_sent_def)
qed

section \<open>The loop\<close>

lemma finish_not_done: "finish_request sid path handle c \<noteq> (Done, c')"
  by (auto simp: finish_request_def Let_def try_result_def split: option.splits sum.splits)

lemma setting_not_done: "apply_setting i v c \<noteq> (Done, c')"
  by (auto simp: apply_setting_def try_result_def split: if_splits sum.splits)

lemma settings_not_done: "apply_settings p c \<noteq> (Done, c')"
  by (induction p c rule: apply_settings.induct) (auto split: prod.splits exit.splits dest: setting_not_done [THEN notE])

lemma store_not_done: "store_headers sid block c \<noteq> ((Done, c'), kept)"
  by (auto simp: store_headers_def Let_def split: prod.splits option.splits if_splits)

lemma handlers_not_done:
  "settings_frame h p c \<noteq> (Done, c')" "ping_frame h p c \<noteq> (Done, c')" "rst_stream_frame h p c \<noteq> (Done, c')"
  "window_update_frame h p c \<noteq> (Done, c')" "headers_frame path handle h p c \<noteq> (Done, c')"
  "continuation_frame path handle h p c \<noteq> (Done, c')" "data_frame path handle h p c \<noteq> (Done, c')"
  by (auto simp: settings_frame_def ping_frame_def rst_stream_frame_def window_update_frame_def headers_frame_def
      continuation_frame_def data_frame_def Let_def try_result_def finish_not_done settings_not_done store_not_done
      split: if_splits prod.splits exit.splits sum.splits option.splits bool.splits)

lemma handle_frame_done:
  assumes "handle_frame path handle h p c = (Done, c')"
  shows "c' = c"
proof -
  have "c' = c\<lparr>cn_peer_settings_seen := True\<rparr> \<and> cn_peer_settings_seen c"
    using assms by (auto simp: handle_frame_def Let_def handlers_not_done frame_types split: if_splits)
  then show ?thesis by (cases c) simp
qed

text \<open>A session that ends well ends in a reachable state.\<close>

lemma serve_loop_reach:
  "conn_reach path handle fs c \<Longrightarrow> serve_loop path handle input c = (Done, c') \<Longrightarrow>
   \<exists>fs'. conn_reach path handle (fs @ fs') c'"
proof (induction path handle input c arbitrary: fs rule: serve_loop.induct)
  case (1 path handle input c)
  note flushed = reach_flush_pending [OF 1(2)]
  show ?case
  proof (cases "read_frame input")
    case (Inl e)
    then have "c' = flush_pending c" using 1(3) by (simp add: serve_loop.simps [of _ _ input] Let_def split: if_splits)
    then show ?thesis using flushed by (intro exI [of _ "[]"]) simp
  next
    case (Inr f)
    obtain h p rest where f: "f = (h, p, rest)" by (cases f) auto
    obtain e c1 where step: "handle_frame path handle h p (flush_pending c) = (e, c1)" by fastforce
    show ?thesis
    proof (cases e)
      case Next
      then have s: "serve_loop path handle rest c1 = (Done, c')"
        using 1(3) Inr f step by (simp add: serve_loop.simps [of _ _ input] Let_def)
      have r: "conn_reach path handle (fs @ [(h, p)]) c1" using reach_frame [OF flushed] step Next by simp
      have "\<exists>fs'. conn_reach path handle ((fs @ [(h, p)]) @ fs') c'"
        by (rule 1(1) [OF refl Inr f [symmetric] refl step [symmetric] Next r s])
      then show ?thesis by (metis append.assoc)
    next
      case Done
      then have "c' = c1" using 1(3) Inr f step by (simp add: serve_loop.simps [of _ _ input] Let_def)
      moreover have "c1 = flush_pending c" using handle_frame_done step Done by blast
      ultimately show ?thesis using flushed by (intro exI [of _ "[]"]) simp
    next
      case (Fail x)
      then show ?thesis using 1(3) Inr f step by (simp add: serve_loop.simps [of _ _ input] Let_def)
    qed
  qed
qed

lemma serve_doh_reach:
  "serve_doh path handle input = (Done, c) \<Longrightarrow> \<exists>fs. conn_reach path handle fs c"
  using serve_loop_reach [OF reach_start, of path handle "drop 24 input" c]
  by (auto simp: serve_doh_def started_def split: if_splits)

section \<open>Frames on the wire\<close>

lemma u24:
  assumes "n < 2 ^ 24"
  shows "u32_from_be_bytes [0, u32_to_be_bytes (of_nat n) ! 1, u32_to_be_bytes (of_nat n) ! 2, u32_to_be_bytes (of_nat n) ! 3] = of_nat n"
proof -
  let ?w = "of_nat n :: u32"
  have "unat ?w < 2 ^ 24" using assms by (simp add: unat_of_nat)
  then have "take_bit 24 ?w = ?w" by (simp only: take_bit_word_self)
  then have b: "bit ?w i \<Longrightarrow> i < 24" for i by (metis bit_take_bit_iff)
  then have "\<not> bit ?w (24 + i)" for i by fastforce
  then have "(ucast (drop_bit 24 ?w) :: u8) = 0"
    by (intro bit_word_eqI) (simp only: bit_ucast_iff bit_drop_bit_eq comp_apply bit_0_eq bot_apply bot_bool_def simp_thms)
  then have "[0, u32_to_be_bytes ?w ! 1, u32_to_be_bytes ?w ! 2, u32_to_be_bytes ?w ! 3] = u32_to_be_bytes ?w"
    by (simp add: u32_to_be_bytes_def)
  then show ?thesis by (simp only: u32_be_roundtrip)
qed

lemma read_write_frame:
  assumes "length p \<le> DEFAULT_MAX_FRAME"
  shows "read_frame (write_frame [] t f sid p @ rest) =
    Inr (\<lparr>fh_length = of_nat (length p), fh_type = t, fh_flags = f, fh_stream = sid AND 0x7fffffff\<rparr>, p, rest)"
proof -
  have n: "length p < 2 ^ 24" using assms by (simp add: DEFAULT_MAX_FRAME_def)
  then have u: "unat (of_nat (length p) :: u32) = length p" by (simp add: unat_of_nat)
  let ?e = "encode_frame_header \<lparr>fh_length = of_nat (length p), fh_type = t, fh_flags = f, fh_stream = sid\<rparr>"
  let ?s = "sid AND 0x7fffffff"
  have s: "[u32_to_be_bytes ?s ! 0, u32_to_be_bytes ?s ! 1, u32_to_be_bytes ?s ! 2, u32_to_be_bytes ?s ! 3] = u32_to_be_bytes ?s"
    by (simp add: u32_to_be_bytes_def)
  have l: "length ?e = 9" by (simp add: encode_frame_header_def Let_def)
  have "parse_frame_header ?e =
      Some \<lparr>fh_length = of_nat (length p), fh_type = t, fh_flags = f, fh_stream = ?s AND 0x7fffffff\<rparr>"
    unfolding parse_frame_header_def encode_frame_header_def Let_def
    using u24 [OF n] s by (simp add: FRAME_HEADER_LEN_def del: of_nat_add)
  moreover have "?s AND 0x7fffffff = ?s" by (simp add: and.assoc)
  moreover have "take 9 (?e @ p @ rest) = ?e" "drop 9 (?e @ p @ rest) = p @ rest" using l by simp_all
  ultimately show ?thesis
    using assms u l by (simp add: read_frame_def write_frame_def FRAME_HEADER_LEN_def Let_def)
qed

section \<open>Sending as much as the credit allows\<close>

lemma flush_pending_none: "find_map (flush_action (flush_pending c)) (cn_pending (flush_pending c)) = None"
proof (induction c rule: flush_pending.induct)
  case (1 c)
  then show ?case
    by (cases "find_map (flush_action c) (cn_pending c)") (auto simp: flush_pending.simps [of c])
qed

lemma find_map_None: "find_map f xs = None \<longleftrightarrow> (\<forall>x \<in> set xs. f x = None)"
  by (induction xs) (auto split: option.splits)

lemma flush_drained:
  assumes "conn_reach path handle fs c" "(sid, b) \<in> set (cn_pending (flush_pending c))"
  shows "cn_send_conn_window (flush_pending c) = 0 \<or> (\<exists>w \<le> 0. map_of (cn_send_stream_windows (flush_pending c)) sid = Some w)"
proof -
  let ?c = "flush_pending c"
  have ok: "core_ok ?c" using limits.reached [OF reach_flush_pending [OF assms(1)]] by (simp add: conn_ok_def)
  have "flush_action ?c (sid, b) = None" using flush_pending_none [of c] assms(2) by (auto simp: find_map_None)
  moreover obtain w where w: "map_of (cn_send_stream_windows ?c) sid = Some w"
    using ok keys_in [OF assms(2)] map_of_key [of sid "cn_send_stream_windows ?c"] by (auto simp: core_ok_def tables_ok_def)
  moreover have "pb_offset b < length (pb_body b)" using ok assms(2) by (auto simp: core_ok_def buffers_ok_def response_body_ok_def)
  moreover have "0 \<le> cn_send_conn_window ?c" "0 < cn_peer_max_frame ?c" using ok core_frame_max by (auto simp: core_ok_def windows_ok_def)
  ultimately show ?thesis by (auto simp: flush_action_def Let_def split: if_splits)
qed

end
