(* ===== verification/Http2Session.thy ===== *)
theory Http2Session
  imports Http2Run
begin

text \<open>
  A whole session from the client's preface to the answer: what the server sends for a request, frame by
  frame, for every handler and every body.
\<close>

unbundle bit_operations_syntax

section \<open>Sending one response\<close>

definition body_frames :: "u32 \<Rightarrow> bytes \<Rightarrow> sent_frame list \<Rightarrow> bool" where
  "body_frames sid body fs \<longleftrightarrow>
     fs \<noteq> [] \<and> concat (map (\<lambda>(_, _, _, p). p) fs) = body \<and>
     (\<forall>f \<in> set (butlast fs). \<exists>p. f = (FT_DATA, 0, sid, p)) \<and> (\<exists>p. last fs = (FT_DATA, FLAG_END_STREAM, sid, p))"

lemma body_frames_Cons:
  "body_frames sid body fs \<Longrightarrow> body_frames sid (p @ body) ((FT_DATA, 0, sid, p) # fs)"
  by (auto simp: body_frames_def)

lemma flush_nothing: "cn_pending c = [] \<Longrightarrow> flush_pending c = c"
  by (simp add: flush_pending.simps [of c])

lemma flush_single:
  "cn_pending c = [(sid, b)] \<Longrightarrow> cn_send_stream_windows c = [(sid, w)] \<Longrightarrow> pb_offset b < length (pb_body b) \<Longrightarrow>
   int (length (pb_body b) - pb_offset b) \<le> w \<Longrightarrow> int (length (pb_body b) - pb_offset b) \<le> cn_send_conn_window c \<Longrightarrow>
   0 < cn_peer_max_frame c \<Longrightarrow>
   \<exists>fs v. flush_pending c = c\<lparr>cn_send_conn_window := v, cn_send_stream_windows := [], cn_pending := [],
       cn_sent := cn_sent c @ fs\<rparr> \<and> body_frames sid (drop (pb_offset b) (pb_body b)) fs"
proof (induction c arbitrary: b w rule: flush_pending.induct)
  case (1 c)
  let ?rem = "length (pb_body b) - pb_offset b"
  have "flush_action c (sid, b) \<noteq> None" using 1(2-7) by (auto simp: flush_action_def Let_def)
  then obtain chunk l where act: "flush_action c (sid, b) = Some (sid, chunk, l)"
    using flush_action_key by (metis not_None_eq prod_cases3)
  then have find: "find_map (flush_action c) (cn_pending c) = Some (sid, chunk, l)" using 1(2) by simp
  from act have chunk: "chunk = take (length chunk) (drop (pb_offset b) (pb_body b))"
    and last: "l \<longleftrightarrow> ?rem = length chunk" and le: "length chunk \<le> ?rem" by (rule flush_action_facts, simp)+
  have w: "map_of (cn_send_stream_windows c) sid = Some w" and m: "map_of (cn_pending c) sid = Some b"
    using 1(2,3) by simp_all
  let ?c = "flush_one sid chunk l c" and ?flag = "if l then FLAG_END_STREAM else 0"
  have one: "?c = c\<lparr>cn_send_conn_window := cn_send_conn_window c - int (length chunk),
      cn_send_stream_windows := (if l then [] else [(sid, w - int (length chunk))]),
      cn_pending := (if l then [] else [(sid, b\<lparr>pb_offset := pb_offset b + length chunk\<rparr>)]),
      cn_sent := cn_sent c @ [(FT_DATA, ?flag, sid, chunk)]\<rparr>"
    by (cases l) (simp_all add: flush_one_def Let_def send_frame_def remove_window_def remove_pending_def 1(2,3))
  have rec: "flush_pending c = flush_pending ?c" using find by (simp add: flush_pending.simps [of c])
  show ?case
  proof (cases l)
    case True
    then have "length (drop (pb_offset b) (pb_body b)) \<le> length chunk" using last by simp
    then have all: "drop (pb_offset b) (pb_body b) = chunk" by (metis chunk take_all)
    have "flush_pending ?c = ?c" by (rule flush_nothing, subst one) (simp add: True)
    then show ?thesis using True one rec all
      by (intro exI [of _ "[(FT_DATA, FLAG_END_STREAM, sid, chunk)]"] exI [of _ "cn_send_conn_window c - int (length chunk)"])
        (simp add: body_frames_def)
  next
    case False
    let ?b = "b\<lparr>pb_offset := pb_offset b + length chunk\<rparr>"
    have less: "length chunk < ?rem" using False last le by simp
    have "\<exists>fs v. flush_pending ?c = ?c\<lparr>cn_send_conn_window := v, cn_send_stream_windows := [], cn_pending := [],
       cn_sent := cn_sent ?c @ fs\<rparr> \<and> body_frames sid (drop (pb_offset ?b) (pb_body ?b)) fs"
      by (rule 1(1) [OF find refl refl, where w = "w - int (length chunk)"]) (use 1(2-7) one False less in auto)
    then obtain fs v where fs: "flush_pending ?c = ?c\<lparr>cn_send_conn_window := v, cn_send_stream_windows := [], cn_pending := [],
       cn_sent := cn_sent ?c @ fs\<rparr>" "body_frames sid (drop (pb_offset b + length chunk) (pb_body b)) fs" by auto
    have "drop (pb_offset b) (pb_body b) = chunk @ drop (pb_offset b + length chunk) (pb_body b)"
      using chunk by (metis append_take_drop_id drop_drop add.commute)
    then show ?thesis using rec fs one False body_frames_Cons [OF fs(2), of chunk]
      by (intro exI [of _ "(FT_DATA, 0, sid, chunk) # fs"] exI [of _ v]) simp
  qed
qed

section \<open>A request and its answer\<close>

definition post_session :: "header_field list \<Rightarrow> bytes \<Rightarrow> bytes" where
  "post_session hs q =
     PREFACE @ write_frame [] FT_SETTINGS 0 0 [] @ write_frame [] FT_HEADERS FLAG_END_HEADERS 1 (encode_response hs) @
     write_frame [] FT_DATA FLAG_END_STREAM 1 q"

lemma serve_loop_frame:
  assumes "length p \<le> DEFAULT_MAX_FRAME" "cn_pending c = []"
    and "handle_frame path handle \<lparr>fh_length = of_nat (length p), fh_type = t, fh_flags = f, fh_stream = sid AND 0x7fffffff\<rparr> p c = (Next, c')"
  shows "serve_loop path handle (write_frame [] t f sid p @ rest) c = serve_loop path handle rest c'"
  using assms by (simp add: serve_loop.simps [of _ _ "write_frame [] t f sid p @ rest"] flush_nothing read_write_frame)

text \<open>The states such a session goes through.\<close>

definition session_conn ::
    "bool \<Rightarrow> (u32 \<times> stream_state) list \<Rightarrow> u32 \<Rightarrow> (u32 \<times> int) list \<Rightarrow> (u32 \<times> pending_body) list \<Rightarrow> sent_frame list \<Rightarrow> nat \<Rightarrow> conn" where
  "session_conn seen streams newest windows waiting sent calls =
     \<lparr>cn_dec = new_decoder 4096, cn_streams = streams, cn_cont_block = [],
      cn_cont_stream = None, cn_last_client_stream = newest, cn_peer_settings_seen = seen, cn_recv_conn_window = INITIAL_WINDOW,
      cn_send_conn_window = INITIAL_WINDOW, cn_peer_initial_window = INITIAL_WINDOW, cn_peer_max_frame = DEFAULT_MAX_FRAME,
      cn_send_stream_windows = windows, cn_pending = waiting, cn_sent = sent, cn_calls = calls\<rparr>"

definition greeting :: "sent_frame list" where
  "greeting = [(FT_SETTINGS, 0, 0, initial_settings), (FT_SETTINGS, FLAG_ACK, 0, [])]"

definition request_stream :: "header_field list \<Rightarrow> bytes \<Rightarrow> stream_state" where
  "request_stream hs q = \<lparr>st_headers = hs, st_body = q, st_have_headers = True, st_end_stream = False, st_recv_window = INITIAL_WINDOW\<rparr>"

definition credits :: "bytes \<Rightarrow> sent_frame list" where
  "credits q = [(FT_WINDOW_UPDATE, 0, 0, u32_to_be_bytes (of_nat (length q))), (FT_WINDOW_UPDATE, 0, 1, u32_to_be_bytes (of_nat (length q)))]"

abbreviation frame_of :: "u8 \<Rightarrow> u8 \<Rightarrow> bytes \<Rightarrow> u32 \<Rightarrow> frame_header" where
  "frame_of t f p sid \<equiv> \<lparr>fh_length = of_nat (length p), fh_type = t, fh_flags = f, fh_stream = sid AND 0x7fffffff\<rparr>"

lemma session_started: "started = session_conn False [] 0 [] [] [(FT_SETTINGS, 0, 0, initial_settings)] 0"
  by (simp add: started_def send_frame_def new_conn_def session_conn_def)

lemma session_settings:
  "handle_frame path handle (frame_of FT_SETTINGS 0 [] 0) [] started = (Next, session_conn True [] 0 [] [] greeting 0)"
  unfolding session_started
  by (simp add: session_conn_def handle_frame_def settings_frame_def has_flag_def send_frame_def frame_types greeting_def)

lemma session_headers:
  assumes hs: "header_size hs \<le> MAX_DECODED_HEADER_LIST" "length (encode_response hs) \<le> DEFAULT_MAX_FRAME"
  shows "handle_frame path handle (frame_of FT_HEADERS FLAG_END_HEADERS (encode_response hs) 1) (encode_response hs)
      (session_conn True [] 0 [] [] sent 0) =
    (Next, session_conn True [(1, request_stream hs [])] 1 [(1, INITIAL_WINDOW)] [] sent 0)"
proof -
  have limit: "MAX_H2_HEADER_BLOCK = MAX_DECODED_HEADER_LIST" "MAX_DECODED_HEADER_LIST \<le> MAX_H2_BUFFERED_HEADERS"
    by (simp_all add: MAX_H2_HEADER_BLOCK_def MAX_DECODED_HEADER_LIST_def MAX_H2_BUFFERED_HEADERS_def)
  have store: "store_headers 1 (encode_response hs) (session_conn True [(1, default_stream)] 1 [(1, INITIAL_WINDOW)] [] sent 0) =
      ((Next, session_conn True [(1, request_stream hs [])] 1 [(1, INITIAL_WINDOW)] [] sent 0), True)"
    using hs(1) limit
    by (simp add: session_conn_def request_stream_def store_headers_def decode_response header_list_size_eq
        buffered_headers_def Let_def default_stream_def)
  have strip: "strip_headers (encode_response hs) FLAG_END_HEADERS = Inr (encode_response hs)"
    by (simp add: strip_headers_def frame_flags)
  have small: "\<not> MAX_H2_HEADER_BLOCK < length (encode_response hs)"
    using hs(2) by (simp add: MAX_H2_HEADER_BLOCK_def DEFAULT_MAX_FRAME_def)
  have "headers_frame path handle (frame_of FT_HEADERS FLAG_END_HEADERS (encode_response hs) 1) (encode_response hs)
      (session_conn True [] 0 [] [] sent 0) =
    (Next, session_conn True [(1, request_stream hs [])] 1 [(1, INITIAL_WINDOW)] [] sent 0)"
    using store strip small
    by (simp add: session_conn_def headers_frame_def concurrent_streams_def MAX_H2_STREAMS_def try_result_def Let_def
        has_flag_def frame_flags default_stream_def)
  then show ?thesis by (simp add: session_conn_def handle_frame_def frame_types)
qed

lemma session_request:
  assumes q: "q \<noteq> []" and accepted: "valid_doh_request_headers hs (length q) = Inr (as_bytes ''POST'', target)"
    and route: "match_doh_path (hd (split_on 63 target)) path = Some client_id"
    and answer: "handle 0 q client_id = Inr answer" "da_body answer \<noteq> []" "length (da_body answer) \<le> MAX_H2_RESPONSE"
  shows "finish_request 1 path handle (session_conn True [(1, request_stream hs q)] 1 [(1, INITIAL_WINDOW)] [] sent 0) =
    (Next, session_conn True [] 1 [(1, INITIAL_WINDOW)] [(1, \<lparr>pb_body = da_body answer, pb_offset = 0\<rparr>)]
       (sent @ [(FT_HEADERS, FLAG_END_HEADERS, 1, encode_response (response_headers (Dns answer)))]) 1)"
proof -
  have "process_request (request_stream hs q) path handle 0 = Inr (Dns answer)"
    using assms by (simp add: process_request_def Let_def request_stream_def)
  then show ?thesis using answer(2,3)
    by (simp add: session_conn_def finish_request_def Let_def try_result_def remove_stream_def queue_response_def
        buffered_responses_def MAX_H2_BUFFERED_RESPONSES_def MAX_H2_RESPONSE_def send_frame_def)
qed

lemma session_data:
  assumes q: "q \<noteq> []" "length q \<le> DEFAULT_MAX_FRAME"
    and fin: "finish_request 1 path handle (session_conn True [(1, request_stream hs q)] 1 [(1, INITIAL_WINDOW)] [] (sent @ credits q) 0) = (Next, c)"
  shows "handle_frame path handle (frame_of FT_DATA FLAG_END_STREAM q 1) q
      (session_conn True [(1, request_stream hs [])] 1 [(1, INITIAL_WINDOW)] [] sent 0) = (Next, c)"
proof -
  have credit: "restore_receive_credit sid (int (length q)) (INITIAL_WINDOW - int (length q)) c =
      Inr (INITIAL_WINDOW, send_frame FT_WINDOW_UPDATE 0 sid (u32_to_be_bytes (of_nat (length q))) c)" for sid c
  proof -
    have len: "length q \<le> 65535" "0 < length q" using q by (auto simp: DEFAULT_MAX_FRAME_def)
    have "uint (of_nat (length q) :: u32) = int (length q)" using len by (simp add: unsigned_of_nat take_bit_nat_eq_self)
    then have "add_window (INITIAL_WINDOW - int (length q)) (of_nat (length q)) = Inr INITIAL_WINDOW"
      by (simp add: add_window_def checked_add_i64_def INITIAL_WINDOW_def MAX_WINDOW_def)
    then show ?thesis using len by (simp add: restore_receive_credit_def Let_def)
  qed
  have "data_frame path handle (frame_of FT_DATA FLAG_END_STREAM q 1) q
      (session_conn True [(1, request_stream hs [])] 1 [(1, INITIAL_WINDOW)] [] sent 0) = (Next, c)"
    using fin q(2)
    by (simp add: session_conn_def request_stream_def credits_def data_frame_def Let_def try_result_def credit strip_padding_def
        has_flag_def frame_flags buffered_requests_def send_frame_def MAX_H2_BODY_def MAX_H2_BUFFERED_REQUESTS_def
        DEFAULT_MAX_FRAME_def) (simp add: INITIAL_WINDOW_def)
  then show ?thesis by (simp add: session_conn_def handle_frame_def frame_types)
qed

lemma post_session_loop:
  assumes "length (encode_response hs) \<le> DEFAULT_MAX_FRAME" "length q \<le> DEFAULT_MAX_FRAME"
    and "handle_frame path handle (frame_of FT_SETTINGS 0 [] 0) [] started = (Next, c1)" "cn_pending c1 = []"
    and "handle_frame path handle (frame_of FT_HEADERS FLAG_END_HEADERS (encode_response hs) 1) (encode_response hs) c1 = (Next, c2)"
    and "cn_pending c2 = []" "handle_frame path handle (frame_of FT_DATA FLAG_END_STREAM q 1) q c2 = (Next, c3)"
  shows "serve_doh path handle (post_session hs q) = (Done, flush_pending c3)"
proof -
  have "serve_doh path handle (post_session hs q) = serve_loop path handle (drop 24 (post_session hs q)) started"
    by (simp add: serve_doh_def post_session_def PREFACE_def as_bytes_def started_def)
  also have "drop 24 (post_session hs q) = write_frame [] FT_SETTINGS 0 0 [] @
      write_frame [] FT_HEADERS FLAG_END_HEADERS 1 (encode_response hs) @ write_frame [] FT_DATA FLAG_END_STREAM 1 q @ []"
    by (simp add: post_session_def PREFACE_def as_bytes_def)
  also have "serve_loop path handle \<dots> started = serve_loop path handle [] c3"
    using serve_loop_frame [OF _ _ assms(3)] serve_loop_frame [OF assms(1,4,5)] serve_loop_frame [OF assms(2,6,7), of "[]"]
    by (simp add: session_started session_conn_def)
  also have "\<dots> = (Done, flush_pending c3)"
    by (subst serve_loop.simps) (simp add: Let_def read_frame_def FRAME_HEADER_LEN_def)
  finally show ?thesis .
qed

lemma post_answered:
  assumes size: "header_size hs \<le> DEFAULT_MAX_FRAME"
    and q: "q \<noteq> []" "length q \<le> DEFAULT_MAX_FRAME"
    and accepted: "valid_doh_request_headers hs (length q) = Inr (as_bytes ''POST'', target)"
    and route: "match_doh_path (hd (split_on 63 target)) path = Some client_id"
    and answer: "handle 0 q client_id = Inr answer" "da_body answer \<noteq> []" "length (da_body answer) \<le> MAX_H2_RESPONSE"
  shows "\<exists>c fs. serve_doh path handle (post_session hs q) = (Done, c) \<and> body_frames 1 (da_body answer) fs \<and>
    cn_sent c = greeting @ credits q @
      [(FT_HEADERS, FLAG_END_HEADERS, 1, encode_response (response_headers (Dns answer)))] @ fs"
proof -
  have hs: "header_size hs \<le> MAX_DECODED_HEADER_LIST" "length (encode_response hs) \<le> DEFAULT_MAX_FRAME"
    using size length_encode_response [of hs] by (simp_all add: DEFAULT_MAX_FRAME_def MAX_DECODED_HEADER_LIST_def)
  let ?sent = "(greeting @ credits q) @ [(FT_HEADERS, FLAG_END_HEADERS, 1, encode_response (response_headers (Dns answer)))]"
  let ?b = "\<lparr>pb_body = da_body answer, pb_offset = 0\<rparr>"
  let ?c3 = "session_conn True [] 1 [(1, INITIAL_WINDOW)] [(1, ?b)] ?sent 1"
  have "serve_doh path handle (post_session hs q) = (Done, flush_pending ?c3)"
    by (rule post_session_loop [OF hs(2) q(2) session_settings _ session_headers [OF hs] _
          session_data [OF q session_request [where handle = handle and client_id = client_id, OF q(1) accepted route answer]]]) (simp_all add: session_conn_def)
  moreover obtain fs v where "flush_pending ?c3 = ?c3\<lparr>cn_send_conn_window := v, cn_send_stream_windows := [], cn_pending := [],
       cn_sent := ?sent @ fs\<rparr>" "body_frames 1 (da_body answer) fs"
    using flush_single [of ?c3 1 ?b INITIAL_WINDOW] answer(2,3)
    by (auto simp: session_conn_def INITIAL_WINDOW_def MAX_H2_RESPONSE_def DEFAULT_MAX_FRAME_def)
  ultimately show ?thesis by (intro exI [of _ "flush_pending ?c3"] exI [of _ fs]) simp
qed

section \<open>A refused stream\<close>

text \<open>
  Header blocks of streams beyond the limit are not decoded, although the compression state is shared by
  the whole connection.
\<close>

lemma refused_not_decoded:
  assumes "cn_peer_settings_seen c" "cn_cont_stream c = None" "concurrent_streams c = MAX_H2_STREAMS"
    and "fh_type h = FT_HEADERS" "fh_stream h \<noteq> 0" "fh_stream h AND 1 \<noteq> 0" "cn_last_client_stream c < fh_stream h"
  shows "handle_frame path handle h p c =
    (Next, send_rst_stream (fh_stream h) REFUSED_STREAM (c\<lparr>cn_last_client_stream := fh_stream h\<rparr>))"
proof -
  have same: "c\<lparr>cn_peer_settings_seen := True\<rparr> = c" using assms(1) by (cases c) simp
  have guard: "\<not> (fh_stream h = 0 \<or> fh_stream h AND 1 = 0 \<or> fh_stream h \<le> cn_last_client_stream c)" using assms(5-7) by auto
  have "headers_frame path handle h p c =
      (Next, send_rst_stream (fh_stream h) REFUSED_STREAM (c\<lparr>cn_last_client_stream := fh_stream h\<rparr>))"
    unfolding headers_frame_def Let_def if_not_P [OF guard] using assms(3) by (simp add: concurrent_streams_def)
  then show ?thesis using assms(1,2,4) by (simp add: handle_frame_def Let_def frame_types same)
qed

text \<open>A block that adds a field to the dynamic table.\<close>

definition indexing_block :: bytes where "indexing_block = [0x40, 1, 97, 1, 98]"

lemma skipped_block_desync:
  assumes "dynamic d = []" "34 \<le> max_size d" "table_size d = 0"
  shows "snd (decode_headers d [0xBE]) = None" and "snd (decode_headers d indexing_block) = Some [([97], [98])]"
    and "snd (decode_headers (fst (decode_headers d indexing_block)) [0xBE]) = Some [([97], [98])]"
proof -
  show "snd (decode_headers d [0xBE]) = None"
    using assms(1) by (simp add: decode_headers_def decode_block.simps [of d] decode_int_def int_mask_def lookup_def length_STATIC)
  have "evict (d\<lparr>dynamic := [([97], [98])], table_size := 34\<rparr>) = d\<lparr>dynamic := [([97], [98])], table_size := 34\<rparr>"
    using assms(2) by (subst evict.simps) simp
  then have "decode_headers d indexing_block = (d\<lparr>dynamic := [([97], [98])], table_size := 34\<rparr>, Some [([97], [98])])"
    using assms
    by (simp add: indexing_block_def decode_headers_def decode_block.simps [of _ "_ # _"] decode_block.simps [of _ "[]"] read_literal_def decode_int_def int_mask_def
       decode_string_def checked_add_def account_def MAX_DECODED_HEADER_LIST_def insert_entry_def entry_size_def)
  then show "snd (decode_headers d indexing_block) = Some [([97], [98])]"
    "snd (decode_headers (fst (decode_headers d indexing_block)) [0xBE]) = Some [([97], [98])]"
    using assms by (simp_all add: decode_headers_def decode_block.simps [of _ "_ # _"] decode_block.simps [of _ "[]"] decode_int_def int_mask_def lookup_def length_STATIC
      account_def checked_add_def MAX_DECODED_HEADER_LIST_def)
qed

section \<open>The answer as the client reads it\<close>

lemma length_decimal: "n < 10 ^ k \<Longrightarrow> length (decimal n) \<le> max 1 k"
proof (induction n arbitrary: k rule: decimal.induct)
  case (1 n)
  show ?case
  proof (cases "n < 10")
    case False
    then obtain j where k: "k = Suc j" using 1(2) by (cases k) auto
    have "n div 10 < 10 ^ j" using 1(2) k by (simp add: div_less_iff_less_mult mult.commute)
    from 1(1) [OF False this] have "length (decimal (n div 10)) \<le> max 1 j" .
    moreover have "j \<noteq> 0" using False 1(2) k by (cases j) auto
    ultimately show ?thesis using False k by (simp add: decimal.simps [of n])
  qed (simp add: decimal.simps [of n])
qed

lemma response_decoded:
  assumes "length (da_body answer) \<le> MAX_H2_RESPONSE"
  shows "decode_headers d (encode_response (response_headers (Dns answer))) = (d, Some (response_headers (Dns answer)))"
proof (rule decode_response)
  have "length (decimal (length (da_body answer))) \<le> max 1 5"
    using assms by (intro length_decimal) (simp add: MAX_H2_RESPONSE_def)
  moreover have "length (decimal (unat (da_max_age answer))) \<le> max 1 10"
    by (rule length_decimal) (rule order_less_le_trans [OF unsigned_less], simp)
  ultimately show "header_size (response_headers (Dns answer)) \<le> MAX_DECODED_HEADER_LIST"
    by (simp add: response_headers_def entry_size_def as_bytes_def MAX_DECODED_HEADER_LIST_def)
qed

end
