(* ===== verification/Http2RequestSpec.thy ===== *)
theory Http2RequestSpec
  imports Http2Request HpackCodec
begin

text \<open>
  What an accepted request looks like, and the query parameter of a \<open>GET\<close> as bits.
\<close>

unbundle bit_operations_syntax

section \<open>Accepted requests\<close>

text \<open>The values a header_field list gives a name, in order, and an optional value as a list.\<close>

definition field_values :: "string \<Rightarrow> header_field list \<Rightarrow> bytes list" where
  "field_values name hs = map snd (filter (\<lambda>(n, _). n = as_bytes name) hs)"

definition is_pseudo :: "bytes \<Rightarrow> bool" where
  "is_pseudo name \<longleftrightarrow> name \<noteq> [] \<and> hd name = 58"

definition opt_list :: "'a option \<Rightarrow> 'a list" where
  "opt_list x = (case x of None \<Rightarrow> [] | Some v \<Rightarrow> [v])"

lemma opt_list_simps [simp]: "opt_list None = []" "opt_list (Some v) = [v]"
  by (simp_all add: opt_list_def)

lemma field_values_simps [simp]:
  "field_values name [] = []"
  "field_values name ((n, v) # hs) = (if n = as_bytes name then v # field_values name hs else field_values name hs)"
  by (simp_all add: field_values_def)

definition is_dns_type :: "bytes \<Rightarrow> bool" where
  "is_dns_type v = eq_ignore_ascii_case v (as_bytes ''application/dns-message'')"

text \<open>One field: what it adds to each of the collected values.\<close>

definition collected :: "request_fields \<Rightarrow> header_field list \<Rightarrow> request_fields \<Rightarrow> bool" where
  "collected f hs f' \<longleftrightarrow>
     opt_list (rf_method f') = opt_list (rf_method f) @ field_values '':method'' hs \<and>
     opt_list (rf_scheme f') = opt_list (rf_scheme f) @ field_values '':scheme'' hs \<and>
     opt_list (rf_authority f') = opt_list (rf_authority f) @ field_values '':authority'' hs \<and>
     opt_list (rf_path f') = opt_list (rf_path f) @ field_values '':path'' hs \<and>
     opt_list (rf_host f') = opt_list (rf_host f) @ field_values ''host'' hs \<and>
     map Some (opt_list (rf_content_length f')) =
       map Some (opt_list (rf_content_length f)) @ map parse_usize (field_values ''content-length'' hs) \<and>
     opt_list (rf_content_type f') = opt_list (rf_content_type f) @ map is_dns_type (field_values ''content-type'' hs)"

lemma as_bytes_eq [simp]: "as_bytes s = as_bytes t \<longleftrightarrow> s = t"
proof -
  have "unat (of_char c :: u8) = of_char c" for c
    using nat_of_char_less_256 [of c] by (subst of_nat_of_char [symmetric]) simp
  then have "inj (of_char :: char \<Rightarrow> u8)" by (metis injI of_char_eq_iff)
  then show ?thesis unfolding as_bytes_def by (simp add: inj_map_eq_map)
qed

lemma name_clashes [simp]:
  "hd (as_bytes '':method'') = 58" "hd (as_bytes '':scheme'') = 58" "hd (as_bytes '':authority'') = 58" "hd (as_bytes '':path'') = 58"
  "hd (as_bytes ''host'') \<noteq> 58" "hd (as_bytes ''content-length'') \<noteq> 58" "hd (as_bytes ''content-type'') \<noteq> 58"
  by (simp_all add: as_bytes_def)

lemma as_bytes_nonempty [simp]: "as_bytes (c # s) \<noteq> []"
  by (simp add: as_bytes_def)

lemma pseudo_collected:
  assumes "pseudo_field name v f = Some f'"
  shows "collected f [(name, v)] f'" "\<not> rf_regular_seen f" "rf_regular_seen f' = rf_regular_seen f"
proof -
  show seen: "\<not> rf_regular_seen f" using assms by (simp add: pseudo_field_def split: if_splits)
  consider "name = as_bytes '':method''" "rf_method f = None" "f' = f\<lparr>rf_method := Some v\<rparr>"
    | "name = as_bytes '':scheme''" "rf_scheme f = None" "f' = f\<lparr>rf_scheme := Some v\<rparr>"
    | "name = as_bytes '':authority''" "rf_authority f = None" "f' = f\<lparr>rf_authority := Some v\<rparr>"
    | "name = as_bytes '':path''" "rf_path f = None" "f' = f\<lparr>rf_path := Some v\<rparr>"
    using assms unfolding pseudo_field_def by (simp split: if_split_asm)
  then show "collected f [(name, v)] f'" "rf_regular_seen f' = rf_regular_seen f"
    by (cases; simp add: collected_def)+
qed

lemma regular_collected:
  assumes "regular_field name v f = Some f'" "\<not> is_pseudo name"
  shows "collected f [(name, v)] f'" "rf_regular_seen f'" "name \<notin> set hop_by_hop"
proof -
  have other: "name \<noteq> as_bytes '':method''" "name \<noteq> as_bytes '':scheme''" "name \<noteq> as_bytes '':authority''" "name \<noteq> as_bytes '':path''"
    using assms(2) by (auto simp: is_pseudo_def)
  show "name \<notin> set hop_by_hop" using assms(1) unfolding regular_field_def Let_def by (simp split: if_split_asm)
  let ?f = "f\<lparr>rf_regular_seen := True\<rparr>"
  consider n where "name = as_bytes ''content-length''" "parse_usize v = Some n" "rf_content_length f = None" "f' = ?f\<lparr>rf_content_length := Some n\<rparr>"
    | "name = as_bytes ''content-type''" "rf_content_type f = None" "f' = ?f\<lparr>rf_content_type := Some (is_dns_type v)\<rparr>"
    | "name = as_bytes ''host''" "rf_host f = None" "f' = ?f\<lparr>rf_host := Some v\<rparr>"
    | "name \<noteq> as_bytes ''content-length''" "name \<noteq> as_bytes ''content-type''" "name \<noteq> as_bytes ''host''" "f' = ?f"
    using assms(1) unfolding regular_field_def Let_def is_dns_type_def
    by (simp split: if_split_asm option.splits)
  then show "collected f [(name, v)] f'" "rf_regular_seen f'"
    by (cases; use other in \<open>simp add: collected_def\<close>)+
qed

lemma collected_trans: "collected f hs f' \<Longrightarrow> collected f' hs' f'' \<Longrightarrow> collected f (hs @ hs') f''"
  by (simp add: collected_def field_values_def)

definition well_ordered :: "bool \<Rightarrow> header_field list \<Rightarrow> bool" where
  "well_ordered seen hs \<longleftrightarrow>
     list_all (\<lambda>(n, _). \<not> is_pseudo n) (if seen then hs else dropWhile (\<lambda>(n, _). is_pseudo n) hs)"

lemma well_ordered_seen: "well_ordered True hs \<Longrightarrow> well_ordered False hs"
  by (simp add: well_ordered_def) (metis (mono_tags, lifting) list_all_iff set_dropWhileD)

lemma scan_fields_spec:
  "scan_fields hs f = Some f' \<Longrightarrow>
   collected f hs f' \<and> well_ordered (rf_regular_seen f) hs \<and>
   (\<forall>(n, v) \<in> set hs. valid_header_field n v \<and> n \<notin> set hop_by_hop)"
proof (induction hs f rule: scan_fields.induct)
  case (1 f)
  then show ?case by (simp add: collected_def well_ordered_def)
next
  case (2 name v hs f)
  have valid: "valid_header_field name v" using 2(2) by (simp split: if_splits)
  obtain g where g: "(if is_pseudo name then pseudo_field name v f else regular_field name v f) = Some g"
    "scan_fields hs g = Some f'" using 2(2) valid by (auto simp: is_pseudo_def split: option.splits if_splits)
  have IH: "collected g hs f'" "well_ordered (rf_regular_seen g) hs"
    "\<forall>(n, v) \<in> set hs. valid_header_field n v \<and> n \<notin> set hop_by_hop"
    using 2(1) valid g by (auto simp: is_pseudo_def)
  show ?case
  proof (cases "is_pseudo name")
    case True
    then have "pseudo_field name v f = Some g" using g(1) by simp
    note P = pseudo_collected [OF this]
    have "name \<notin> set hop_by_hop" using True by (auto simp: is_pseudo_def hop_by_hop_def as_bytes_def)
    then show ?thesis using valid IH P collected_trans [OF P(1) IH(1)] True by (auto simp: well_ordered_def)
  next
    case False
    then have "regular_field name v f = Some g" using g(1) by simp
    note R = regular_collected [OF this False]
    show ?thesis using valid IH R collected_trans [OF R(1) IH(1)] False by (auto simp: well_ordered_def)
  qed
qed

definition unambiguous_request :: "header_field list \<Rightarrow> nat \<Rightarrow> bytes \<Rightarrow> bytes \<Rightarrow> bool" where
  "unambiguous_request hs n method path \<longleftrightarrow>
     (\<forall>(k, v) \<in> set hs. valid_header_field k v \<and> k \<notin> set hop_by_hop) \<and> well_ordered False hs \<and>
     field_values '':method'' hs = [method] \<and> field_values '':path'' hs = [path] \<and>
     field_values '':scheme'' hs = [as_bytes ''https''] \<and>
     (\<exists>a. a \<noteq> [] \<and> field_values '':authority'' hs = [a] \<and> field_values ''host'' hs \<in> {[], [a]}) \<and>
     map parse_usize (field_values ''content-length'' hs) \<in> {[], [Some n]} \<and>
     (method = as_bytes ''POST'' \<and> map is_dns_type (field_values ''content-type'' hs) = [True] \<or>
      method = as_bytes ''GET'' \<and> n = 0)"

lemma opt_list_one: "opt_list x = [v] \<longleftrightarrow> x = Some v" "opt_list x = [] \<longleftrightarrow> x = None" "[v] = opt_list x \<longleftrightarrow> x = Some v"
  by (cases x; auto)+

lemma accepted_unambiguous:
  assumes "valid_doh_request_headers hs n = Inr (method, path)"
  shows "unambiguous_request hs n method path"
proof -
  obtain f where f: "scan_fields hs no_fields = Some f"
    using assms by (auto simp: valid_doh_request_headers_def split: option.splits)
  note S = scan_fields_spec [OF f]
  obtain authority where a: "rf_method f = Some method" "rf_path f = Some path" "rf_authority f = Some authority"
    "rf_scheme f = Some (as_bytes ''https'')" "authority \<noteq> []" "rf_host f = None \<or> rf_host f = Some authority"
    "method = as_bytes ''POST'' \<and> rf_content_type f = Some True \<and> (rf_content_length f = None \<or> rf_content_length f = Some n) \<or>
     method = as_bytes ''GET'' \<and> n = 0 \<and> (rf_content_length f = None \<or> rf_content_length f = Some 0)"
    using assms f by (auto simp: valid_doh_request_headers_def split: option.splits if_splits)
  then show ?thesis
    using S unfolding unambiguous_request_def collected_def
    by (auto simp: no_fields_def opt_list_one)
qed

section \<open>The query parameter\<close>

definition sextets :: "bytes \<Rightarrow> bool list option" where
  "sextets input =
     (if list_all (\<lambda>c. base64url_val c \<noteq> None) input
      then Some (concat (map (\<lambda>c. msb_bits (the (base64url_val c)) 6) input)) else None)"

lemma base64url_vals: "list_all (\<lambda>c. case base64url_val (of_int c) of None \<Rightarrow> True | Some v \<Rightarrow> v < 64) [0..255]"
  by code_simp

lemma base64url_val_small:
  assumes "base64url_val c = Some v"
  shows "uint v < 2 ^ 6" "take_bit 6 v = v"
proof -
  have "uint c \<in> set [0..255]" using unsigned_less [of c, where ?'a = int] by simp
  moreover have "of_int (uint c) = c" by simp
  ultimately have "v < 64" using base64url_vals assms unfolding list_all_iff by (metis option.simps(5))
  then show "uint v < 2 ^ 6" "take_bit 6 v = v"
    by (simp add: word_less_def) (use \<open>v < 64\<close> in \<open>simp add: take_bit_word_self word_less_nat_alt\<close>)
qed

lemma mask_take: "acc AND (push_bit n 1 - 1) = take_bit n acc" for acc :: "'a::len word"
  by (simp add: take_bit_eq_mask mask_eq_exp_minus_1 push_bit_eq_mult)

lemma msb_bits_take: "msb_bits (take_bit n acc) n = msb_bits acc n" for acc :: "'a::len word"
  by (simp add: msb_bits_def bit_take_bit_iff)

lemma bit_below: "take_bit n w = w \<Longrightarrow> bit w j \<Longrightarrow> j < n" for w :: "'a::len word"
  by (metis bit_take_bit_iff)

lemma take_bit_below: "(\<And>j. bit w j \<Longrightarrow> j < n) \<Longrightarrow> take_bit n w = w" for w :: "'a::len word"
  by (rule bit_word_eqI) (auto simp: bit_take_bit_iff)

lemma base64url_loop_bits:
  "n < 8 \<Longrightarrow> take_bit n acc = acc \<Longrightarrow>
   (case base64url_loop input acc n out of
      None \<Rightarrow> sextets input = None
    | Some (acc', out') \<Rightarrow>
        (let m = (n + 6 * length input) mod 8 in
         take_bit m acc' = acc' \<and>
         (\<exists>bs. sextets input = Some bs \<and> bytes_bits out' @ msb_bits acc' m = bytes_bits out @ msb_bits acc n @ bs)))"
proof (induction input acc n out rule: base64url_loop.induct)
  case (1 acc n out)
  then show ?case by (simp add: sextets_def)
next
  case (2 c input acc n out)
  show ?case
  proof (cases "base64url_val c")
    case None
    then show ?thesis by (simp add: sextets_def)
  next
    case (Some v)
    let ?acc = "push_bit 6 acc OR ucast v" and ?m = "(n + 6 * length (c # input)) mod 8"
    have push: "msb_bits ?acc (n + 6) = msb_bits acc n @ msb_bits v 6"
      using 2(3) by (intro msb_bits_push base64url_val_small(1) [OF Some]) simp
    note v6 = base64url_val_small(2) [OF Some]
    have small: "take_bit (n + 6) ?acc = ?acc"
    proof (rule take_bit_below)
      fix j
      assume "bit ?acc j"
      then have "6 \<le> j \<and> bit acc (j - 6) \<or> bit v j" by (simp only: bit_or_iff bit_push_bit_iff bit_ucast_iff) blast
      then show "j < n + 6" using bit_below [OF 2(4), of "j - 6"] bit_below [OF v6, of j] by linarith
    qed
    have sx: "sextets (c # input) = map_option ((@) (msb_bits v 6)) (sextets input)"
      using Some by (simp add: sextets_def)
    show ?thesis
    proof (cases "n + 6 \<ge> 8")
      case True
      let ?n = "n + 6 - 8"
      let ?out = "out @ [ucast (drop_bit ?n ?acc)]"
      have bits: "bytes_bits ?out @ msb_bits (take_bit ?n ?acc) ?n = bytes_bits out @ msb_bits acc n @ msb_bits v 6"
        unfolding msb_bits_take push [symmetric] msb_bits_octet [OF True, symmetric] by (simp add: bytes_bits_def)
      have m: "(?n + 6 * length input) mod 8 = ?m"
      proof -
        have "n + 6 * length (c # input) = (?n + 6 * length input) + 8" using True by simp
        then show ?thesis by (metis mod_add_self2)
      qed
      have loop: "base64url_loop (c # input) acc n out = base64url_loop input (take_bit ?n ?acc) ?n ?out"
        by (simp only: base64url_loop.simps Some option.case Let_def if_P [OF True] mask_take)
      have "case base64url_loop input (take_bit ?n ?acc) ?n ?out of
          None \<Rightarrow> sextets input = None
        | Some (acc', out') \<Rightarrow>
            (let m = (?n + 6 * length input) mod 8 in
             take_bit m acc' = acc' \<and>
             (\<exists>bs. sextets input = Some bs \<and> bytes_bits out' @ msb_bits acc' m =
                bytes_bits ?out @ msb_bits (take_bit ?n ?acc) ?n @ bs))"
        by (rule 2(1) [OF Some refl refl True refl, unfolded mask_take]) (use 2(3) True in simp_all)
      then show ?thesis unfolding loop m sx using bits
        by (auto simp: Let_def split: option.splits prod.splits)
    next
      case False
      have loop: "base64url_loop (c # input) acc n out = base64url_loop input ?acc (n + 6) out"
        using Some False by (simp add: Let_def)
      have m: "(n + 6 + 6 * length input) mod 8 = ?m" by (simp add: add.assoc)
      have "case base64url_loop input ?acc (n + 6) out of
          None \<Rightarrow> sextets input = None
        | Some (acc', out') \<Rightarrow>
            (let m = (n + 6 + 6 * length input) mod 8 in
             take_bit m acc' = acc' \<and>
             (\<exists>bs. sextets input = Some bs \<and> bytes_bits out' @ msb_bits acc' m = bytes_bits out @ msb_bits ?acc (n + 6) @ bs))"
        using 2(2) [OF Some refl refl False] False small by simp
      then show ?thesis unfolding loop m sx using push
        by (auto simp: Let_def split: option.splits prod.splits)
    qed
  qed
qed

lemma msb_bits_zero: "take_bit n w = w \<Longrightarrow> n \<le> LENGTH('a) \<Longrightarrow> w = 0 \<longleftrightarrow> msb_bits w n = replicate n False" for w :: "'a::len word"
proof -
  assume a: "take_bit n w = w" "n \<le> LENGTH('a)"
  have "msb_bits w n = replicate n False \<longleftrightarrow> (\<forall>i < n. \<not> bit w i)"
  proof
    assume z: "msb_bits w n = replicate n False"
    show "\<forall>i < n. \<not> bit w i"
    proof (intro allI impI)
      fix i
      assume i: "i < n"
      then have "msb_bits w n ! (n - Suc i) = bit w i" by (simp add: nth_msb_bits)
      with z i show "\<not> bit w i" by simp
    qed
  qed (auto intro: nth_equalityI simp: nth_msb_bits)
  also have "\<dots> \<longleftrightarrow> w = 0" using bit_below [OF a(1)] by (auto simp: bit_eq_iff dest: bit_imp_le_length)
  finally show ?thesis by simp
qed

lemma octet_bits_inj: "octet_bits a = octet_bits b \<Longrightarrow> a = b"
proof (rule bit_word_eqI)
  fix n
  assume "octet_bits a = octet_bits b" "n < LENGTH(8)"
  then have "msb_bits a 8 ! (7 - n) = msb_bits b 8 ! (7 - n)" "n < 8" by (simp_all add: octet_bits_msb)
  then show "bit a n = bit b n" by (simp add: nth_msb_bits)
qed

lemma bytes_bits_inj: "bytes_bits xs = bytes_bits ys \<Longrightarrow> xs = ys"
proof (induction xs arbitrary: ys)
  case Nil
  then show ?case by (cases ys) (simp_all add: bytes_bits_def octet_bits_def)
next
  case (Cons x xs)
  then obtain y zs where ys: "ys = y # zs" by (cases ys) (auto simp: bytes_bits_def octet_bits_def)
  have "octet_bits x @ bytes_bits xs = octet_bits y @ bytes_bits zs" using Cons.prems ys by (simp add: bytes_bits_def)
  then have "octet_bits x = octet_bits y \<and> bytes_bits xs = bytes_bits zs"
    by (subst (asm) append_eq_append_conv) (simp_all add: octet_bits_def)
  then show ?case using Cons.IH ys octet_bits_inj by blast
qed

lemma base64url_decode_bits:
  "base64url_decode input = Some out \<longleftrightarrow>
   input \<noteq> [] \<and> (\<exists>k < 6. sextets input = Some (bytes_bits out @ replicate k False))"
proof -
  let ?m = "6 * length input mod 8"
  have eq: "base64url_val 61 = None" by (simp add: base64url_val_def)
  have no_eq: "61 \<notin> set input" if "sextets input = Some bs" for bs
    using that eq by (auto simp: sextets_def list_all_iff split: if_splits)
  have loop: "case base64url_loop input 0 0 [] of
      None \<Rightarrow> sextets input = None
    | Some (acc, out) \<Rightarrow> take_bit ?m acc = acc \<and> sextets input = Some (bytes_bits out @ msb_bits acc ?m)"
    using base64url_loop_bits [of 0 0 input "[]"] by (auto simp: Let_def bytes_bits_def msb_bits_def split: option.splits)
  have len: "length bs = 6 * length input" if "sextets input = Some bs" for bs
  proof -
    have "length bs = sum_list (map (\<lambda>c. 6) input)"
      using that by (auto simp: sextets_def length_concat comp_def split: if_splits)
    then show ?thesis by (simp add: sum_list_triv)
  qed
  have m6: "?m < 6 \<longleftrightarrow> length input mod 4 \<noteq> 1" by presburger
  show ?thesis
  proof
    assume d: "base64url_decode input = Some out"
    then have "base64url_loop input 0 0 [] = Some (0, out)" "input \<noteq> []" "length input mod 4 \<noteq> 1"
      by (auto simp: base64url_decode_def split: if_splits option.splits)
    moreover have "msb_bits (0 :: u32) ?m = replicate ?m False" by (rule nth_equalityI) (auto simp: nth_msb_bits)
    ultimately show "input \<noteq> [] \<and> (\<exists>k < 6. sextets input = Some (bytes_bits out @ replicate k False))"
      using loop m6 by auto
  next
    assume "input \<noteq> [] \<and> (\<exists>k < 6. sextets input = Some (bytes_bits out @ replicate k False))"
    then obtain k where k: "input \<noteq> []" "k < 6" "sextets input = Some (bytes_bits out @ replicate k False)" by blast
    have "6 * length input = 8 * length out + k" using len [OF k(3)] by simp
    then have km: "k = ?m" using k(2) by simp
    obtain acc out' where l: "base64url_loop input 0 0 [] = Some (acc, out')" "take_bit ?m acc = acc"
      "sextets input = Some (bytes_bits out' @ msb_bits acc ?m)" using loop k(3) by (auto split: option.splits)
    have same: "bytes_bits out' @ msb_bits acc ?m = bytes_bits out @ replicate ?m False" using l(3) k(3) km by simp
    then have "bytes_bits out' = bytes_bits out" "msb_bits acc ?m = replicate ?m False"
      using arg_cong [OF same, of length] by simp_all
    then have "out' = out" "acc = 0" using bytes_bits_inj msb_bits_zero [OF l(2)] by simp_all
    moreover have "length input mod 4 \<noteq> 1" using k(2) km m6 by blast
    ultimately show "base64url_decode input = Some out"
      using l(1) k(1) no_eq [OF k(3)] by (simp add: base64url_decode_def)
  qed
qed

end
