(* ===== verification/Http2Samples.thy ===== *)
theory Http2Samples
  imports Http2Session Http2RequestSpec
begin

text \<open>A request, a handler that returns the query, and two connections, for the witnesses.\<close>

definition echo_handler :: handler where
  "echo_handler n q client_id = Inr \<lparr>da_body = q, da_max_age = 60\<rparr>"

definition sample_request :: "header_field list" where
  "sample_request =
     [(as_bytes '':method'', as_bytes ''POST''), (as_bytes '':scheme'', as_bytes ''https''),
      (as_bytes '':authority'', as_bytes ''dns.example''), (as_bytes '':path'', as_bytes ''/dns-query''),
      (as_bytes ''content-type'', as_bytes ''application/dns-message'')]"

lemma sample_request_size: "header_size sample_request \<le> 16384"
  by (simp add: sample_request_def entry_size_def as_bytes_def)

lemma sample_request_accepted:
  "valid_doh_request_headers sample_request (length [1 :: u8, 2]) = Inr (as_bytes ''POST'', as_bytes ''/dns-query'')"
  by code_simp

lemma new_decoder_ok: "decoder_ok (new_decoder n)"
  by (simp add: decoder_ok_def new_decoder_def)

lemma indexing_block_decoded: "snd (decode_headers (new_decoder 4096) indexing_block) = Some [([97], [98])]"
  by (rule skipped_block_desync(2)) (simp_all add: new_decoder_def)

text \<open>A connection that has received the settings and the headers of the request.\<close>

definition sample_frames :: "(frame_header \<times> bytes) list" where
  "sample_frames =
     [(frame_of FT_SETTINGS 0 [] 0, []),
      (frame_of FT_HEADERS FLAG_END_HEADERS (encode_response sample_request) 1, encode_response sample_request)]"

definition sample_conn :: conn where
  "sample_conn = session_conn True [(1, request_stream sample_request [])] 1 [(1, INITIAL_WINDOW)] [] greeting 0"

lemma sample_conn_reached: "conn_reach (as_bytes ''/dns-query'') echo_handler sample_frames sample_conn"
proof -
  have size: "header_size sample_request \<le> MAX_DECODED_HEADER_LIST" "length (encode_response sample_request) \<le> DEFAULT_MAX_FRAME"
    using sample_request_size length_encode_response [of sample_request]
    by (simp_all add: MAX_DECODED_HEADER_LIST_def DEFAULT_MAX_FRAME_def)
  have "conn_reach (as_bytes ''/dns-query'') echo_handler [(frame_of FT_SETTINGS 0 [] 0, [])] (session_conn True [] 0 [] [] greeting 0)"
    using reach_frame [OF reach_start session_settings] by simp
  from reach_frame [OF this session_headers [OF size]] show ?thesis by (simp add: sample_frames_def sample_conn_def)
qed

text \<open>A connection with as many open streams as allowed.\<close>

definition busy_conn :: conn where
  "busy_conn = session_conn True (map (\<lambda>i. (of_nat (2 * i + 1), default_stream)) [0..<128]) 255
     (map (\<lambda>i. (of_nat (2 * i + 1), INITIAL_WINDOW)) [0..<128]) [] greeting 0"

end
