(* ===== verification/Regex.thy ===== *)
theory Regex
  imports Prelude
begin

text \<open>
  The regular expression engine of the filter, \<open>onetdns-filter/src/regex.rs\<close>: the tree of a pattern, its
  compilation to instructions with back-patched targets, and the machine that runs all threads side by
  side over sparse sets that a thread keeps from one match to the next. An index outside a vector, which
  panics in the source, is the result \<open>None\<close>.
\<close>

section \<open>Trees and instructions\<close>

datatype ast =
    Empty
  | Literal u8
  | AnyChar bool
  | Class bool "(u8 \<times> u8) list"
  | Concat "ast list"
  | Alt "ast list"
  | Repeat ast nat "nat option"
  | StartAnchor bool
  | EndAnchor bool
  | WordBoundary bool

datatype regex_error =
    TooLarge
  | TooDeep
  | Unclosed
  | UnclosedClass
  | EmptyClass
  | ReversedRange
  | ReversedBounds
  | TooManyRepeats
  | NothingToRepeat
  | UnsupportedGroup
  | UnsupportedFlag
  | BadEscape
  | UnexpectedByte
  | Endless

datatype inst =
    Byte u8
  | Any bool
  | InstClass bool "(u8 \<times> u8) list"
  | Match
  | Jmp nat
  | Split nat nat
  | Start bool
  | End bool
  | InstWordBoundary bool

definition MAX_REPEAT :: nat where "MAX_REPEAT = 1000"
definition MAX_INSTS :: nat where "MAX_INSTS = 200000"
definition MAX_PARSE_DEPTH :: nat where "MAX_PARSE_DEPTH = 200"

text \<open>The operator \<open>?\<close> on results.\<close>

definition and_then :: "'e + 'a \<Rightarrow> ('a \<Rightarrow> 'e + 'b) \<Rightarrow> 'e + 'b" where
  "and_then r f = (case r of Inl e \<Rightarrow> Inl e | Inr x \<Rightarrow> f x)"

lemma and_then_simps [simp]: "and_then (Inl e) f = Inl e" "and_then (Inr x) f = f x"
  by (simp_all add: and_then_def)

lemma and_then_Inr: "and_then r f = Inr y \<longleftrightarrow> (\<exists>x. r = Inr x \<and> f x = Inr y)"
  by (cases r) simp_all

section \<open>Compiler\<close>

text \<open>
  The compiler's state is its vector of instructions. A part of a tree compiles to a function on that
  state; \<open>emit\<close> also returns the index of the new instruction.
\<close>

type_synonym compiler = "inst list"

definition emit :: "inst \<Rightarrow> compiler \<Rightarrow> regex_error + nat \<times> compiler" where
  "emit i insts =
     (if length insts \<ge> MAX_INSTS then Inl TooLarge else Inr (length insts, insts @ [i]))"

definition emit_only :: "inst \<Rightarrow> compiler \<Rightarrow> regex_error + compiler" where
  "emit_only i insts = and_then (emit i insts) (\<lambda>(_, insts). Inr insts)"

fun compile_concat :: "(compiler \<Rightarrow> regex_error + compiler) list \<Rightarrow> compiler \<Rightarrow> regex_error + compiler" where
  "compile_concat [] insts = Inr insts"
| "compile_concat (p # parts) insts = and_then (p insts) (compile_concat parts)"

text \<open>Every branch but the last is guarded by a split and ends in a jump that is patched at the end.\<close>

fun compile_branches ::
  "(compiler \<Rightarrow> regex_error + compiler) list \<Rightarrow> nat list \<Rightarrow> compiler \<Rightarrow> regex_error + nat list \<times> compiler" where
  "compile_branches [] jmps insts = Inr (jmps, insts)"
| "compile_branches [b] jmps insts = and_then (b insts) (\<lambda>insts. Inr (jmps, insts))"
| "compile_branches (b # branches) jmps insts =
     and_then (emit (Split 0 0) insts) (\<lambda>(split, insts).
       let l1 = length insts in
       and_then (b insts) (\<lambda>insts.
       and_then (emit (Jmp 0) insts) (\<lambda>(j, insts).
         let l2 = length insts in
         compile_branches branches (jmps @ [j]) (insts[split := Split l1 l2]))))"

definition patch_jumps :: "nat list \<Rightarrow> nat \<Rightarrow> compiler \<Rightarrow> compiler" where
  "patch_jumps jmps end insts = fold (\<lambda>j insts. insts[j := Jmp end]) jmps insts"

definition compile_alt :: "(compiler \<Rightarrow> regex_error + compiler) list \<Rightarrow> compiler \<Rightarrow> regex_error + compiler" where
  "compile_alt branches insts =
     and_then (compile_branches branches [] insts) (\<lambda>(jmps, insts).
       Inr (patch_jumps jmps (length insts) insts))"

fun compile_copies :: "nat \<Rightarrow> (compiler \<Rightarrow> regex_error + compiler) \<Rightarrow> compiler \<Rightarrow> regex_error + compiler" where
  "compile_copies 0 node insts = Inr insts"
| "compile_copies (Suc n) node insts = and_then (node insts) (compile_copies n node)"

fun compile_optional ::
  "nat \<Rightarrow> (compiler \<Rightarrow> regex_error + compiler) \<Rightarrow> nat list \<Rightarrow> compiler \<Rightarrow> regex_error + nat list \<times> compiler" where
  "compile_optional 0 node splits insts = Inr (splits, insts)"
| "compile_optional (Suc n) node splits insts =
     and_then (emit (Split 0 0) insts) (\<lambda>(s, insts).
       let body = length insts in
       and_then (node (insts[s := Split body 0])) (compile_optional n node (splits @ [s])))"

definition patch_split :: "nat \<Rightarrow> nat \<Rightarrow> compiler \<Rightarrow> compiler" where
  "patch_split end s insts =
     (case insts ! s of Split a _ \<Rightarrow> insts[s := Split a end] | _ \<Rightarrow> insts)"

definition compile_repeat ::
  "(compiler \<Rightarrow> regex_error + compiler) \<Rightarrow> nat \<Rightarrow> nat option \<Rightarrow> compiler \<Rightarrow> regex_error + compiler" where
  "compile_repeat node lo hi insts =
     and_then (compile_copies lo node insts) (\<lambda>insts.
       case hi of
         None \<Rightarrow>
           and_then (emit (Split 0 0) insts) (\<lambda>(l1, insts).
             let body = length insts in
             and_then (node insts) (\<lambda>insts.
             and_then (emit (Jmp l1) insts) (\<lambda>(_, insts).
               let exit = length insts in
               Inr (insts[l1 := Split body exit]))))
       | Some m \<Rightarrow>
           and_then (compile_optional (m - lo) node [] insts) (\<lambda>(splits, insts).
             Inr (fold (patch_split (length insts)) splits insts)))"

primrec compile :: "ast \<Rightarrow> compiler \<Rightarrow> regex_error + compiler" where
  "compile Empty = Inr"
| "compile (Literal b) = emit_only (Byte b)"
| "compile (AnyChar dotall) = emit_only (Any dotall)"
| "compile (Class negated ranges) = emit_only (InstClass negated ranges)"
| "compile (StartAnchor multiline) = emit_only (Start multiline)"
| "compile (EndAnchor multiline) = emit_only (End multiline)"
| "compile (WordBoundary w) = emit_only (InstWordBoundary w)"
| "compile (Concat parts) = compile_concat (map compile parts)"
| "compile (Alt branches) = compile_alt (map compile branches)"
| "compile (Repeat node lo hi) = compile_repeat (compile node) lo hi"

text \<open>\<open>matches!(part, Ast::Empty)\<close> and \<open>is_start_anchored\<close>.\<close>

fun is_empty_ast :: "ast \<Rightarrow> bool" where
  "is_empty_ast Empty = True"
| "is_empty_ast _ = False"

lemma dropWhile_hd_mem: "dropWhile P xs = x # ys \<Longrightarrow> x \<in> set xs"
  by (metis list.set_intros(1) set_dropWhileD)

function is_start_anchored :: "ast \<Rightarrow> bool" where
  "is_start_anchored (StartAnchor multiline) = (\<not> multiline)"
| "is_start_anchored (Concat parts) =
     (case dropWhile is_empty_ast parts of [] \<Rightarrow> False | part # _ \<Rightarrow> is_start_anchored part)"
| "is_start_anchored (Alt branches) = (branches \<noteq> [] \<and> list_all is_start_anchored branches)"
| "is_start_anchored Empty = False"
| "is_start_anchored (Literal b) = False"
| "is_start_anchored (AnyChar dotall) = False"
| "is_start_anchored (Class negated ranges) = False"
| "is_start_anchored (Repeat node lo hi) = False"
| "is_start_anchored (EndAnchor multiline) = False"
| "is_start_anchored (WordBoundary w) = False"
  by pat_completeness auto

termination
  by (relation "measure size")
    (auto dest!: dropWhile_hd_mem simp: less_Suc_eq_le intro: size_list_estimation')

record prog =
  pg_insts :: "inst list"
  pg_start_anchored :: bool

definition compile_ast :: "ast \<Rightarrow> regex_error + prog" where
  "compile_ast ast =
     and_then (compile ast []) (\<lambda>insts.
     and_then (emit_only Match insts) (\<lambda>insts.
       Inr \<lparr>pg_insts = insts, pg_start_anchored = is_start_anchored ast\<rparr>))"

section \<open>Sparse sets\<close>

record sparse_set =
  ss_gen :: "u32 list"
  ss_cur :: u32
  ss_dense :: "nat list"

definition sparse_new :: sparse_set where
  "sparse_new = \<lparr>ss_gen = [], ss_cur = 0, ss_dense = []\<rparr>"

definition sparse_ensure :: "nat \<Rightarrow> sparse_set \<Rightarrow> sparse_set" where
  "sparse_ensure n s =
     (if length (ss_gen s) < n
      then s\<lparr>ss_gen := ss_gen s @ replicate (n - length (ss_gen s)) 0\<rparr> else s)"

definition sparse_clear :: "sparse_set \<Rightarrow> sparse_set" where
  "sparse_clear s =
     (let s = s\<lparr>ss_cur := ss_cur s + 1\<rparr>;
          s = (if ss_cur s = 0 then s\<lparr>ss_gen := map (\<lambda>_. 0) (ss_gen s), ss_cur := 1\<rparr> else s) in
      s\<lparr>ss_dense := []\<rparr>)"

definition sparse_contains :: "sparse_set \<Rightarrow> nat \<Rightarrow> bool" where
  "sparse_contains s pc \<longleftrightarrow> ss_gen s ! pc = ss_cur s"

definition sparse_insert :: "nat \<Rightarrow> sparse_set \<Rightarrow> sparse_set" where
  "sparse_insert pc s = s\<lparr>ss_gen := (ss_gen s)[pc := ss_cur s], ss_dense := ss_dense s @ [pc]\<rparr>"

section \<open>The machine\<close>

definition is_word :: "u8 \<Rightarrow> bool" where
  "is_word b \<longleftrightarrow> is_ascii_digit b \<or> is_ascii_uppercase b \<or> (97 \<le> b \<and> b \<le> 122) \<or> b = 95"

definition word_boundary :: "bytes \<Rightarrow> nat \<Rightarrow> bool" where
  "word_boundary input pos \<longleftrightarrow>
     (pos > 0 \<and> is_word (input ! (pos - 1))) \<noteq> (pos < length input \<and> is_word (input ! pos))"

text \<open>The conditions of the three assertions, and what \<open>add_thread\<close> pushes for an instruction, top first.\<close>

definition at_start :: "bytes \<Rightarrow> nat \<Rightarrow> bool \<Rightarrow> bool" where
  "at_start input pos multiline \<longleftrightarrow> pos = 0 \<or> multiline \<and> pos > 0 \<and> input ! (pos - 1) = 10"

definition at_end :: "bytes \<Rightarrow> nat \<Rightarrow> bool \<Rightarrow> bool" where
  "at_end input pos multiline \<longleftrightarrow>
     pos = length input \<or> multiline \<and> pos < length input \<and> input ! pos = 10"

definition pushes :: "bytes \<Rightarrow> nat \<Rightarrow> nat \<Rightarrow> inst \<Rightarrow> nat list" where
  "pushes input pos pc i =
     (case i of
        Jmp t \<Rightarrow> [t]
      | Split a b \<Rightarrow> [a, b]
      | Start multiline \<Rightarrow> if at_start input pos multiline then [pc + 1] else []
      | End multiline \<Rightarrow> if at_end input pos multiline then [pc + 1] else []
      | InstWordBoundary want \<Rightarrow> if word_boundary input pos = want then [pc + 1] else []
      | _ \<Rightarrow> [])"

text \<open>
  The work list ends because every step either drops an entry that is already in the set or puts a new
  one in; \<open>unmarked\<close> counts what is still outside.
\<close>

definition unmarked :: "sparse_set \<Rightarrow> nat set" where
  "unmarked s = {pc. pc < length (ss_gen s) \<and> ss_gen s ! pc \<noteq> ss_cur s}"

lemma finite_unmarked [simp]: "finite (unmarked s)"
  by (simp add: unmarked_def)

lemma unmarked_insert: "pc < length (ss_gen s) \<Longrightarrow> unmarked (sparse_insert pc s) = unmarked s - {pc}"
  by (auto simp: unmarked_def sparse_insert_def nth_list_update)

function add_threads ::
  "inst list \<Rightarrow> bytes \<Rightarrow> nat \<Rightarrow> nat list \<Rightarrow> sparse_set \<Rightarrow> sparse_set option" where
  "add_threads insts input pos [] list = Some list"
| "add_threads insts input pos (pc # stack) list =
     (if pc \<ge> length (ss_gen list) then None
      else if sparse_contains list pc then add_threads insts input pos stack list
      else if pc \<ge> length insts then None
      else add_threads insts input pos (pushes input pos pc (insts ! pc) @ stack) (sparse_insert pc list))"
  by pat_completeness auto

termination
proof (relation "inv_image (less_than <*lex*> less_than)
    (\<lambda>(insts, input, pos, stack, list). (card (unmarked list), length stack))", goal_cases)
  case (3 insts input pos pc stack list)
  then have "pc \<in> unmarked list"
    by (simp add: unmarked_def sparse_contains_def)
  then have "card (unmarked list - {pc}) < card (unmarked list)"
    by (rule card_Diff1_less [OF finite_unmarked])
  with 3 show ?case by (simp add: unmarked_insert)
qed auto

definition add_thread :: "prog \<Rightarrow> bytes \<Rightarrow> nat \<Rightarrow> nat \<Rightarrow> sparse_set \<Rightarrow> sparse_set option" where
  "add_thread p input pc pos list = add_threads (pg_insts p) input pos [pc] list"

definition in_ranges :: "(u8 \<times> u8) list \<Rightarrow> u8 \<Rightarrow> bool" where
  "in_ranges ranges b \<longleftrightarrow> list_ex (\<lambda>(lo, hi). b \<ge> lo \<and> b \<le> hi) ranges"

text \<open>Whether an instruction lets a thread go on with the next byte.\<close>

definition accepts_byte :: "inst \<Rightarrow> u8 option \<Rightarrow> bool" where
  "accepts_byte i byte =
     (case (i, byte) of
        (Byte b, Some c) \<Rightarrow> c = b
      | (Any dotall, Some c) \<Rightarrow> dotall \<or> c \<noteq> 10
      | (InstClass negated ranges, Some c) \<Rightarrow> in_ranges ranges c \<noteq> negated
      | _ \<Rightarrow> False)"

text \<open>One pass over the current threads: \<open>(True, _)\<close> if one of them is at \<open>Match\<close>.\<close>

fun scan :: "prog \<Rightarrow> bytes \<Rightarrow> nat \<Rightarrow> nat list \<Rightarrow> sparse_set \<Rightarrow> (bool \<times> sparse_set) option" where
  "scan p input pos [] nlist = Some (False, nlist)"
| "scan p input pos (pc # dense) nlist =
     (if pc \<ge> length (pg_insts p) then None
      else if pg_insts p ! pc = Match then Some (True, nlist)
      else if accepts_byte (pg_insts p ! pc) (if pos < length input then Some (input ! pos) else None) then
        (case add_thread p input (pc + 1) (pos + 1) nlist of
           None \<Rightarrow> None
         | Some nlist \<Rightarrow> scan p input pos dense nlist)
      else scan p input pos dense nlist)"

record scratch =
  sc_clist :: sparse_set
  sc_nlist :: sparse_set

definition scratch_new :: scratch where
  "scratch_new = \<lparr>sc_clist = sparse_new, sc_nlist = sparse_new\<rparr>"

text \<open>The positions from \<open>pos\<close> to the end of the input; the lists change places after each one.\<close>

fun run_loop :: "prog \<Rightarrow> bytes \<Rightarrow> nat list \<Rightarrow> scratch \<Rightarrow> (bool \<times> scratch) option" where
  "run_loop p input [] s = Some (False, s)"
| "run_loop p input (pos # positions) s =
     (case (if pos = 0 \<or> \<not> pg_start_anchored p then add_thread p input 0 pos (sc_clist s)
            else Some (sc_clist s)) of
        None \<Rightarrow> None
      | Some clist \<Rightarrow>
          (case scan p input pos (ss_dense clist) (sparse_clear (sc_nlist s)) of
             None \<Rightarrow> None
           | Some (True, nlist) \<Rightarrow> Some (True, \<lparr>sc_clist = clist, sc_nlist = nlist\<rparr>)
           | Some (False, nlist) \<Rightarrow> run_loop p input positions \<lparr>sc_clist = nlist, sc_nlist = clist\<rparr>))"

definition run :: "prog \<Rightarrow> bytes \<Rightarrow> scratch \<Rightarrow> (bool \<times> scratch) option" where
  "run p input s =
     (let n = length (pg_insts p) in
      run_loop p input [0..<length input + 1]
        \<lparr>sc_clist = sparse_clear (sparse_ensure n (sc_clist s)), sc_nlist = sparse_ensure n (sc_nlist s)\<rparr>)"

end
