(* ===== verification/RegexCompile.thy ===== *)
theory RegexCompile
  imports Regex
begin

text \<open>
  What a pattern means, as the set of pairs of positions it spans in an input, and that the compiled
  instructions lead from the first position to the second exactly for these pairs.
\<close>

section \<open>The meaning of a tree\<close>

fun sem :: "bytes \<Rightarrow> ast \<Rightarrow> (nat \<times> nat) set" where
  "sem t Empty = Id"
| "sem t (Literal b) = {(i, Suc i) | i. i < length t \<and> t ! i = b}"
| "sem t (AnyChar dotall) = {(i, Suc i) | i. i < length t \<and> (dotall \<or> t ! i \<noteq> 10)}"
| "sem t (Class negated ranges) =
     {(i, Suc i) | i. i < length t \<and> (negated \<longleftrightarrow> \<not> (\<exists>(lo, hi) \<in> set ranges. lo \<le> t ! i \<and> t ! i \<le> hi))}"
| "sem t (Concat parts) = foldr (\<lambda>p r. sem t p O r) parts Id"
| "sem t (Alt branches) = (\<Union>b \<in> set branches. sem t b)"
| "sem t (Repeat node lo hi) = (\<Union>k \<in> {k. lo \<le> k \<and> (\<forall>m. hi = Some m \<longrightarrow> k \<le> m)}. sem t node ^^ k)"
| "sem t (StartAnchor multiline) = {(i, i) | i. at_start t i multiline}"
| "sem t (EndAnchor multiline) = {(i, i) | i. at_end t i multiline}"
| "sem t (WordBoundary want) = {(i, i) | i. word_boundary t i = want}"

text \<open>Trees whose alternatives and classes are not empty and whose bounds are in order and within the limit,
  as the parser builds them.\<close>

fun ast_ok :: "ast \<Rightarrow> bool" where
  "ast_ok (Concat parts) = list_all ast_ok parts"
| "ast_ok (Alt branches) = (branches \<noteq> [] \<and> list_all ast_ok branches)"
| "ast_ok (Repeat node lo hi) = (ast_ok node \<and> lo \<le> MAX_REPEAT \<and> (case hi of None \<Rightarrow> True | Some m \<Rightarrow> lo \<le> m \<and> m \<le> MAX_REPEAT))"
| "ast_ok (Class negated ranges) = (ranges \<noteq> [])"
| "ast_ok _ = True"

section \<open>Instructions without patching\<close>

text \<open>The number of instructions of a tree, and the instructions when they start at index \<open>l\<close>.\<close>

definition opt_size :: "nat \<Rightarrow> nat \<Rightarrow> nat" where
  "opt_size k n = k * Suc n"

fun alt_size :: "nat list \<Rightarrow> nat" where
  "alt_size [] = 0"
| "alt_size [n] = n"
| "alt_size (n # ns) = n + 2 + alt_size ns"

primrec code_size :: "ast \<Rightarrow> nat" where
  "code_size Empty = 0"
| "code_size (Literal b) = 1"
| "code_size (AnyChar dotall) = 1"
| "code_size (Class negated ranges) = 1"
| "code_size (StartAnchor multiline) = 1"
| "code_size (EndAnchor multiline) = 1"
| "code_size (WordBoundary w) = 1"
| "code_size (Concat parts) = sum_list (map code_size parts)"
| "code_size (Alt branches) = alt_size (map code_size branches)"
| "code_size (Repeat node lo hi) =
     lo * code_size node + (case hi of None \<Rightarrow> code_size node + 2 | Some m \<Rightarrow> (m - lo) * Suc (code_size node))"

type_synonym gen = "nat \<times> (nat \<Rightarrow> inst list)"

fun seq_code :: "gen list \<Rightarrow> nat \<Rightarrow> inst list" where
  "seq_code [] l = []"
| "seq_code ((n, g) # gs) l = g l @ seq_code gs (l + n)"

fun alt_code :: "gen list \<Rightarrow> nat \<Rightarrow> nat \<Rightarrow> inst list" where
  "alt_code [] exit l = []"
| "alt_code [(n, g)] exit l = g l"
| "alt_code ((n, g) # gs) exit l =
     Split (l + 1) (l + n + 2) # g (l + 1) @ Jmp exit # alt_code gs exit (l + n + 2)"

fun copies_code :: "nat \<Rightarrow> gen \<Rightarrow> nat \<Rightarrow> inst list" where
  "copies_code 0 g l = []"
| "copies_code (Suc k) (n, g) l = g l @ copies_code k (n, g) (l + n)"

fun opt_code :: "nat \<Rightarrow> gen \<Rightarrow> nat \<Rightarrow> nat \<Rightarrow> inst list" where
  "opt_code 0 g exit l = []"
| "opt_code (Suc k) (n, g) exit l = Split (l + 1) exit # g (l + 1) @ opt_code k (n, g) exit (l + n + 1)"

primrec code :: "ast \<Rightarrow> nat \<Rightarrow> inst list" where
  "code Empty = (\<lambda>l. [])"
| "code (Literal b) = (\<lambda>l. [Byte b])"
| "code (AnyChar dotall) = (\<lambda>l. [Any dotall])"
| "code (Class negated ranges) = (\<lambda>l. [InstClass negated ranges])"
| "code (StartAnchor multiline) = (\<lambda>l. [Start multiline])"
| "code (EndAnchor multiline) = (\<lambda>l. [End multiline])"
| "code (WordBoundary w) = (\<lambda>l. [InstWordBoundary w])"
| "code (Concat parts) = seq_code (map (\<lambda>p. (code_size p, code p)) parts)"
| "code (Alt branches) =
     (\<lambda>l. alt_code (map (\<lambda>b. (code_size b, code b)) branches) (l + alt_size (map code_size branches)) l)"
| "code (Repeat node lo hi) =
     (\<lambda>l. let g = (code_size node, code node); l1 = l + lo * code_size node in
          copies_code lo g l @
          (case hi of
             None \<Rightarrow> Split (l1 + 1) (l1 + code_size node + 2) # code node (l1 + 1) @ [Jmp l1]
           | Some m \<Rightarrow> opt_code (m - lo) g (l1 + (m - lo) * Suc (code_size node)) l1))"

text \<open>A generator is sound if its code has its size, and implemented if a part of the compiler appends it.\<close>

definition gen_ok :: "gen \<Rightarrow> bool" where
  "gen_ok g \<longleftrightarrow> (\<forall>l. length (snd g l) = fst g)"

definition appends :: "(compiler \<Rightarrow> regex_error + compiler) \<Rightarrow> gen \<Rightarrow> bool" where
  "appends f g \<longleftrightarrow>
     (\<forall>c. length c \<le> MAX_INSTS \<longrightarrow>
        f c = (if length c + fst g \<le> MAX_INSTS then Inr (c @ snd g (length c)) else Inl TooLarge))"

lemma appendsD:
  "appends f g \<Longrightarrow> length c \<le> MAX_INSTS \<Longrightarrow>
   f c = (if length c + fst g \<le> MAX_INSTS then Inr (c @ snd g (length c)) else Inl TooLarge)"
  by (simp add: appends_def)

lemma emit_appends: "appends (emit_only i) (1, \<lambda>_. [i])"
  by (auto simp: appends_def emit_only_def emit_def)

lemma length_seq_code: "list_all gen_ok gs \<Longrightarrow> length (seq_code gs l) = sum_list (map fst gs)"
  by (induction gs arbitrary: l) (auto simp: gen_ok_def)

lemma length_alt_code: "list_all gen_ok gs \<Longrightarrow> length (alt_code gs exit l) = alt_size (map fst gs)"
  by (induction gs exit l rule: alt_code.induct) (auto simp: gen_ok_def)

lemma length_copies_code: "gen_ok g \<Longrightarrow> length (copies_code k g l) = k * fst g"
  by (induction k g l rule: copies_code.induct) (auto simp: gen_ok_def)

lemma length_opt_code: "gen_ok g \<Longrightarrow> length (opt_code k g exit l) = k * Suc (fst g)"
  by (induction k g exit l rule: opt_code.induct) (auto simp: gen_ok_def)

lemma concat_appends:
  assumes "list_all2 appends fs gs" "list_all gen_ok gs"
  shows "appends (compile_concat fs) (sum_list (map fst gs), seq_code gs)"
  using assms
proof (induction rule: list_all2_induct)
  case Nil
  then show ?case by (auto simp: appends_def)
next
  case (Cons f fs g gs)
  obtain n h where g: "g = (n, h)" by (cases g)
  have len: "length (h l) = n" for l using Cons.prems by (simp add: g gen_ok_def)
  have IH: "appends (compile_concat fs) (sum_list (map fst gs), seq_code gs)"
    using Cons by simp
  show ?case
    unfolding appends_def
    using appendsD [OF Cons.hyps(1)] appendsD [OF IH] by (auto simp: g len)
qed

lemma copies_appends:
  assumes "appends f g" "gen_ok g"
  shows "appends (compile_copies k f) (k * fst g, copies_code k g)"
proof (induction k)
  case 0
  then show ?case by (auto simp: appends_def)
next
  case (Suc k)
  obtain n h where g: "g = (n, h)" by (cases g)
  show ?case
    unfolding appends_def
    using appendsD [OF assms(1)] appendsD [OF Suc] assms(2) by (auto simp: g gen_ok_def)
qed

text \<open>The branches of an alternative before their jumps are patched, and where the jumps are.\<close>

fun alt_jumps :: "gen list \<Rightarrow> nat \<Rightarrow> nat list" where
  "alt_jumps [] l = []"
| "alt_jumps [g] l = []"
| "alt_jumps ((n, g) # gs) l = (l + n + 1) # alt_jumps gs (l + n + 2)"

lemma branches_compiled:
  assumes "list_all2 appends fs gs" "list_all gen_ok gs" "length c \<le> MAX_INSTS"
  shows "compile_branches fs jmps c =
    (if length c + alt_size (map fst gs) \<le> MAX_INSTS
     then Inr (jmps @ alt_jumps gs (length c), c @ alt_code gs 0 (length c)) else Inl TooLarge)"
  using assms
proof (induction arbitrary: jmps c rule: list_all2_induct)
  case Nil
  then show ?case by simp
next
  case (Cons f fs g gs)
  obtain n h where g: "g = (n, h)" by (cases g)
  have len: "length (h l) = n" for l using Cons.prems by (simp add: g gen_ok_def)
  have f: "appends f (n, h)" using Cons.hyps(1) by (simp add: g)
  show ?case
  proof (cases gs)
    case Nil
    then show ?thesis using Cons.hyps(2) appendsD [OF f Cons.prems(2)] by (simp add: g)
  next
    case gs: (Cons g' gs')
    then obtain f' fs' where fs: "fs = f' # fs'" using Cons.hyps(2) by (auto simp: list_all2_Cons2)
    let ?l = "length c" and ?c1 = "c @ [Split 0 0]"
    let ?c2 = "c @ Split (?l + 1) (?l + n + 2) # h (?l + 1) @ [Jmp 0]"
    show ?thesis
    proof (cases "?l + n + 2 \<le> MAX_INSTS")
      case True
      then have "compile_branches (f # fs) jmps c = compile_branches fs (jmps @ [?l + n + 1]) ?c2"
        using appendsD [OF f, of ?c1] by (simp add: fs emit_def len list_update_append)
      also have "\<dots> = (if length ?c2 + alt_size (map fst gs) \<le> MAX_INSTS
          then Inr ((jmps @ [?l + n + 1]) @ alt_jumps gs (length ?c2), ?c2 @ alt_code gs 0 (length ?c2)) else Inl TooLarge)"
        using Cons.IH [of ?c2 "jmps @ [?l + n + 1]"] Cons.prems True by (simp add: len)
      finally show ?thesis by (simp add: g gs len)
    next
      case False
      then show ?thesis using appendsD [OF f, of ?c1] Cons.prems by (auto simp: emit_def len g gs fs Let_def)
    qed
  qed
qed

lemma patch_branches:
  "list_all gen_ok gs \<Longrightarrow>
   patch_jumps (alt_jumps gs (length c)) e (c @ alt_code gs 0 (length c) @ d) = c @ alt_code gs e (length c) @ d"
proof (induction gs "length c" arbitrary: c rule: alt_jumps.induct)
  case (3 n h g gs)
  let ?l = "length c"
  let ?c = "c @ Split (?l + 1) (?l + n + 2) # h (?l + 1) @ [Jmp e]"
  have len: "length (h l) = n" for l using 3(2) by (simp add: gen_ok_def)
  have "patch_jumps (alt_jumps (g # gs) (length ?c)) e (?c @ alt_code (g # gs) 0 (length ?c) @ d) =
    ?c @ alt_code (g # gs) e (length ?c) @ d"
    using 3(1) [of ?c] 3(2) by (simp add: len)
  moreover have "length c + n + 1 = length (c @ Split (?l + 1) (?l + n + 2) # h (?l + 1))" by (simp add: len)
  ultimately show ?case by (simp add: patch_jumps_def len list_update_append)
qed (auto simp: patch_jumps_def)

lemma alt_appends:
  assumes "list_all2 appends fs gs" "list_all gen_ok gs"
  shows "appends (compile_alt fs) (alt_size (map fst gs), \<lambda>l. alt_code gs (l + alt_size (map fst gs)) l)"
  unfolding appends_def compile_alt_def
  using branches_compiled [OF assms] patch_branches [OF assms(2), of _ _ "[]"]
  by (auto simp: length_alt_code [OF assms(2)])

fun opt_splits :: "nat \<Rightarrow> nat \<Rightarrow> nat \<Rightarrow> nat list" where
  "opt_splits 0 n l = []"
| "opt_splits (Suc k) n l = l # opt_splits k n (l + n + 1)"

lemma optional_compiled:
  assumes "appends f g" "gen_ok g" "length c \<le> MAX_INSTS"
  shows "compile_optional k f splits c =
    (if length c + k * Suc (fst g) \<le> MAX_INSTS
     then Inr (splits @ opt_splits k (fst g) (length c), c @ opt_code k g 0 (length c)) else Inl TooLarge)"
  using assms(3)
proof (induction k arbitrary: c splits)
  case (Suc k)
  obtain n h where g: "g = (n, h)" by (cases g)
  have len: "length (h l) = n" for l using assms(2) by (simp add: g gen_ok_def)
  let ?l = "length c"
  let ?c = "c @ [Split (?l + 1) 0]"
  show ?case
  proof (cases "?l + n + 1 \<le> MAX_INSTS")
    case True
    then have "compile_optional (Suc k) f splits c =
      compile_optional k f (splits @ [?l]) (c @ Split (?l + 1) 0 # h (?l + 1))"
      using appendsD [OF assms(1), of ?c] by (simp add: emit_def g)
    also have "\<dots> = (if ?l + n + 1 + k * Suc n \<le> MAX_INSTS
        then Inr (splits @ ?l # opt_splits k n (?l + n + 1),
          c @ Split (?l + 1) 0 # h (?l + 1) @ opt_code k g 0 (?l + n + 1)) else Inl TooLarge)"
      using Suc.IH [of "c @ Split (?l + 1) 0 # h (?l + 1)" "splits @ [?l]"] True by (simp add: g len)
    finally show ?thesis by (simp add: g)
  next
    case False
    then show ?thesis using appendsD [OF assms(1), of ?c] Suc.prems by (auto simp: emit_def g Let_def)
  qed
qed simp

lemma patch_optional:
  "gen_ok g \<Longrightarrow>
   fold (patch_split e) (opt_splits k (fst g) (length c)) (c @ opt_code k g 0 (length c) @ d) =
   c @ opt_code k g e (length c) @ d"
proof (induction k arbitrary: c)
  case (Suc k)
  obtain n h where g: "g = (n, h)" by (cases g)
  let ?l = "length c"
  let ?c = "c @ Split (?l + 1) e # h (?l + 1)"
  have "length ?c = ?l + n + 1" using Suc.prems by (simp add: g gen_ok_def)
  then show ?case using Suc.IH [of ?c] Suc.prems
    by (simp add: g patch_split_def list_update_append nth_append)
qed simp

lemma repeat_appends:
  assumes f: "appends f (n, h)" and g: "gen_ok (n, h)"
  shows "appends (compile_repeat f lo hi)
    (lo * n + (case hi of None \<Rightarrow> n + 2 | Some m \<Rightarrow> (m - lo) * Suc n),
     \<lambda>l. let l1 = l + lo * n in copies_code lo (n, h) l @
       (case hi of None \<Rightarrow> Split (l1 + 1) (l1 + n + 2) # h (l1 + 1) @ [Jmp l1]
        | Some m \<Rightarrow> opt_code (m - lo) (n, h) (l1 + (m - lo) * Suc n) l1))"
  (is "appends _ (?size, ?code)")
  unfolding appends_def
proof (intro allI impI)
  fix c :: compiler assume c: "length c \<le> MAX_INSTS"
  let ?c = "c @ copies_code lo (n, h) (length c)"
  have len: "length ?c = length c + lo * n" using length_copies_code [OF g] by simp
  have h: "length (h l) = n" for l using g by (simp add: gen_ok_def)
  note copies = appendsD [OF copies_appends [OF f g, of lo] c]
  show "compile_repeat f lo hi c =
    (if length c + fst (?size, ?code) \<le> MAX_INSTS then Inr (c @ snd (?size, ?code) (length c)) else Inl TooLarge)"
  proof (cases "length ?c \<le> MAX_INSTS")
    case False
    then show ?thesis using copies len by (simp add: compile_repeat_def)
  next
    case True
    then have start: "compile_copies lo f c = Inr ?c" using copies len by simp
    show ?thesis
    proof (cases hi)
      case None
      show ?thesis using appendsD [OF f, of "?c @ [Split 0 0]"] start None True len
        by (auto simp: compile_repeat_def emit_def h list_update_append Let_def)
    next
      case (Some m)
      show ?thesis
        using optional_compiled [OF f g True, of "m - lo" "[]"]
          patch_optional [OF g, of "length ?c + (m - lo) * Suc n" "m - lo" ?c "[]"] start Some len
          length_opt_code [OF g, of "m - lo" 0 "length ?c"]
        by (auto simp: compile_repeat_def Let_def length_copies_code [OF g] add.assoc)
    qed
  qed
qed

lemma gen_ok_code: "gen_ok (code_size a, code a)"
proof (induction a)
  case (Concat parts)
  then have "list_all gen_ok (map (\<lambda>p. (code_size p, code p)) parts)" by (simp add: list_all_iff)
  from length_seq_code [OF this] show ?case by (simp add: gen_ok_def comp_def)
next
  case (Alt branches)
  then have "list_all gen_ok (map (\<lambda>p. (code_size p, code p)) branches)" by (simp add: list_all_iff)
  from length_alt_code [OF this] show ?case by (simp add: gen_ok_def comp_def)
next
  case (Repeat node lo hi)
  from length_copies_code [OF Repeat] length_opt_code [OF Repeat] Repeat show ?case
    by (auto simp: gen_ok_def Let_def split: option.split)
qed (auto simp: gen_ok_def)

lemma compile_appends: "appends (compile a) (code_size a, code a)"
proof (induction a)
  case Empty
  then show ?case by (simp add: appends_def)
next
  case (Concat parts)
  have "list_all2 appends (map compile parts) (map (\<lambda>p. (code_size p, code p)) parts)"
    using Concat by (simp add: list_all2_conv_all_nth)
  from concat_appends [OF this] show ?case by (simp add: gen_ok_code list_all_iff comp_def)
next
  case (Alt branches)
  have "list_all2 appends (map compile branches) (map (\<lambda>p. (code_size p, code p)) branches)"
    using Alt by (simp add: list_all2_conv_all_nth)
  from alt_appends [OF this] show ?case by (simp add: gen_ok_code list_all_iff comp_def)
next
  case (Repeat node lo hi)
  from repeat_appends [OF Repeat gen_ok_code] show ?case by (simp add: Let_def)
qed (use emit_appends in simp_all)

lemma compile_ast_eq:
  "compile_ast a =
    (if code_size a < MAX_INSTS
     then Inr \<lparr>pg_insts = code a 0 @ [Match], pg_start_anchored = is_start_anchored a\<rparr> else Inl TooLarge)"
  using appendsD [OF compile_appends, of "[]" a] gen_ok_code [of a]
  by (auto simp: compile_ast_def emit_only_def emit_def gen_ok_def)

end
