(* ===== verification/RegexMachine.thy ===== *)
theory RegexMachine
  imports RegexCompile
begin

text \<open>
  The steps a single thread may take, fragments of code with one entry and one exit, and that the code of
  a tree is such a fragment for the meaning of the tree.
\<close>

section \<open>Steps of a thread\<close>

definition byte_at :: "bytes \<Rightarrow> nat \<Rightarrow> u8 option" where
  "byte_at t i = (if i < length t then Some (t ! i) else None)"

definition vm :: "inst list \<Rightarrow> bytes \<Rightarrow> ((nat \<times> nat) \<times> (nat \<times> nat)) set" where
  "vm P t = {((pc, i), (q, j)) | pc i q j. pc < length P \<and>
     (q \<in> set (pushes t i pc (P ! pc)) \<and> j = i \<or> accepts_byte (P ! pc) (byte_at t i) \<and> q = pc + 1 \<and> j = i + 1)}"

text \<open>
  A fragment from \<open>l\<close> to \<open>l'\<close> spells the relation \<open>R\<close> on positions: it leads from entry to exit for the
  pairs of \<open>R\<close>, and whatever leaves it has passed the exit at such a pair.
\<close>

definition frag :: "inst list \<Rightarrow> bytes \<Rightarrow> nat \<Rightarrow> nat \<Rightarrow> (nat \<times> nat) set \<Rightarrow> bool" where
  "frag P t l l' R \<longleftrightarrow> l \<le> l' \<and>
     (\<forall>(i, j) \<in> R. ((l, i), (l', j)) \<in> (vm P t)\<^sup>*) \<and>
     (\<forall>n i q k. q < l \<or> l' \<le> q \<longrightarrow> ((l, i), (q, k)) \<in> vm P t ^^ n \<longrightarrow>
        (\<exists>j m. m \<le> n \<and> (i, j) \<in> R \<and> ((l', j), (q, k)) \<in> vm P t ^^ m))"

lemma frag_le: "frag P t l l' R \<Longrightarrow> l \<le> l'"
  by (simp add: frag_def)

lemma frag_through: "frag P t l l' R \<Longrightarrow> (i, j) \<in> R \<Longrightarrow> ((l, i), (l', j)) \<in> (vm P t)\<^sup>*"
  by (auto simp: frag_def)

lemma frag_exit:
  assumes "frag P t l l' R" "((l, i), (q, k)) \<in> vm P t ^^ n" "q < l \<or> l' \<le> q"
  obtains j m where "m \<le> n" "(i, j) \<in> R" "((l', j), (q, k)) \<in> vm P t ^^ m"
  using assms unfolding frag_def by metis

lemma fragI:
  assumes "l \<le> l'" "\<And>i j. (i, j) \<in> R \<Longrightarrow> ((l, i), (l', j)) \<in> (vm P t)\<^sup>*"
    and "\<And>n i q k. q < l \<or> l' \<le> q \<Longrightarrow> ((l, i), (q, k)) \<in> vm P t ^^ n \<Longrightarrow>
        \<exists>j m. m \<le> n \<and> (i, j) \<in> R \<and> ((l', j), (q, k)) \<in> vm P t ^^ m"
  shows "frag P t l l' R"
  using assms by (auto simp: frag_def)

lemma frag_empty: "frag P t l l Id"
  by (auto intro: fragI)

text \<open>An execution that leaves its first instruction takes a first step.\<close>

lemma first_step:
  assumes "((l, i), (q, k)) \<in> vm P t ^^ n" "q \<noteq> l"
  obtains m c where "n = Suc m" "((l, i), c) \<in> vm P t" "(c, (q, k)) \<in> vm P t ^^ m"
proof (cases n)
  case 0
  with assms show ?thesis by simp
next
  case (Suc m)
  with assms(1) relpow_Suc_D2 [of "(l, i)" "(q, k)" m "vm P t"] that show ?thesis by blast
qed

lemma frag_single:
  assumes "\<And>i c. ((l, i), c) \<in> vm P t \<longleftrightarrow> (\<exists>j. c = (l + 1, j) \<and> (i, j) \<in> R)"
  shows "frag P t l (l + 1) R"
proof (rule fragI)
  fix i j assume "(i, j) \<in> R"
  then show "((l, i), (l + 1, j)) \<in> (vm P t)\<^sup>*" using assms by blast
next
  fix n i q k assume "q < l \<or> l + 1 \<le> q" "((l, i), (q, k)) \<in> vm P t ^^ n"
  then show "\<exists>j m. m \<le> n \<and> (i, j) \<in> R \<and> ((l + 1, j), (q, k)) \<in> vm P t ^^ m"
    by (elim first_step) (use assms in \<open>auto intro: le_SucI\<close>)
qed simp

lemma frag_seq:
  assumes R: "frag P t l l1 R" and S: "frag P t l1 l2 S"
  shows "frag P t l l2 (R O S)"
proof (rule fragI)
  show "l \<le> l2" using frag_le [OF R] frag_le [OF S] by simp
next
  fix i j assume "(i, j) \<in> R O S"
  then show "((l, i), (l2, j)) \<in> (vm P t)\<^sup>*"
    using frag_through [OF R] frag_through [OF S] by (metis relcompE rtrancl_trans prod.inject)
next
  fix n i q k assume q: "q < l \<or> l2 \<le> q" and n: "((l, i), (q, k)) \<in> vm P t ^^ n"
  have "q < l \<or> l1 \<le> q" "q < l1 \<or> l2 \<le> q" using q frag_le [OF R] frag_le [OF S] by auto
  with n obtain j m where j: "m \<le> n" "(i, j) \<in> R" "((l1, j), (q, k)) \<in> vm P t ^^ m"
    by (blast elim: frag_exit [OF R])
  then obtain j' m' where "m' \<le> m" "(j, j') \<in> S" "((l2, j'), (q, k)) \<in> vm P t ^^ m'"
    using \<open>q < l1 \<or> l2 \<le> q\<close> by (blast elim: frag_exit [OF S])
  with j show "\<exists>j m. m \<le> n \<and> (i, j) \<in> R O S \<and> ((l2, j), (q, k)) \<in> vm P t ^^ m"
    by (meson le_trans relcompI)
qed

lemma vm_split:
  "l < length P \<Longrightarrow> P ! l = Split a b \<Longrightarrow> ((l, i), c) \<in> vm P t \<longleftrightarrow> c = (a, i) \<or> c = (b, i)"
  by (auto simp: vm_def pushes_def accepts_byte_def split: option.splits)

lemma vm_jmp: "l < length P \<Longrightarrow> P ! l = Jmp a \<Longrightarrow> ((l, i), c) \<in> vm P t \<longleftrightarrow> c = (a, i)"
  by (auto simp: vm_def pushes_def accepts_byte_def split: option.splits)

text \<open>Jumping away from \<open>l\<close>: what is reached outside \<open>l\<close> is reached from the target.\<close>

lemma after_jmp:
  assumes "((l, i), (q, k)) \<in> vm P t ^^ n" "q \<noteq> l" "l < length P" "P ! l = Jmp a"
  obtains m where "m < n" "((a, i), (q, k)) \<in> vm P t ^^ m"
  using assms vm_jmp by (metis first_step lessI)

lemma frag_branch:
  assumes l: "l < length P" "P ! l = Split (l + 1) (l1 + 1)" and R: "frag P t (l + 1) l1 R"
    and l1: "l1 < length P" "P ! l1 = Jmp e" and S: "frag P t (l1 + 1) e S"
  shows "frag P t l e (R \<union> S)"
proof (rule fragI)
  show "l \<le> e" using frag_le [OF R] frag_le [OF S] by simp
next
  fix i j assume "(i, j) \<in> R \<union> S"
  moreover have "((l, i), (l + 1, i)) \<in> vm P t" "((l, i), (l1 + 1, i)) \<in> vm P t" "((l1, j), (e, j)) \<in> vm P t"
    using vm_split [OF l] vm_jmp [OF l1] by auto
  ultimately show "((l, i), (e, j)) \<in> (vm P t)\<^sup>*"
    using frag_through [OF R, of i j] frag_through [OF S, of i j]
    by (meson UnE converse_rtrancl_into_rtrancl rtrancl.rtrancl_into_rtrancl)
next
  fix n i q k assume q: "q < l \<or> e \<le> q" and n: "((l, i), (q, k)) \<in> vm P t ^^ n"
  have "q \<noteq> l" "q \<noteq> l1" and qR: "q < l + 1 \<or> l1 \<le> q" and qS: "q < l1 + 1 \<or> e \<le> q"
    using q frag_le [OF R] frag_le [OF S] by auto
  with n obtain m c where m: "n = Suc m" "((l, i), c) \<in> vm P t" "(c, (q, k)) \<in> vm P t ^^ m"
    by (blast elim: first_step)
  consider "((l + 1, i), (q, k)) \<in> vm P t ^^ m" | "((l1 + 1, i), (q, k)) \<in> vm P t ^^ m"
    using m(2,3) by (auto simp: vm_split [OF l])
  then show "\<exists>j m. m \<le> n \<and> (i, j) \<in> R \<union> S \<and> ((e, j), (q, k)) \<in> vm P t ^^ m"
  proof cases
    case 1
    from frag_exit [OF R 1 qR] obtain j m1 where j: "m1 \<le> m" "(i, j) \<in> R" "((l1, j), (q, k)) \<in> vm P t ^^ m1"
      by blast
    from after_jmp [OF j(3) \<open>q \<noteq> l1\<close> l1] obtain m2 where "m2 < m1" "((e, j), (q, k)) \<in> vm P t ^^ m2" by blast
    with j m(1) show ?thesis by (intro exI [of _ j] exI [of _ m2]) auto
  next
    case 2
    from frag_exit [OF S 2 qS] obtain j m1 where "m1 \<le> m" "(i, j) \<in> S" "((e, j), (q, k)) \<in> vm P t ^^ m1"
      by blast
    with m(1) show ?thesis by (intro exI [of _ j] exI [of _ m1]) auto
  qed
qed

lemma frag_optional:
  assumes l: "l < length P" "P ! l = Split (l + 1) e" and R: "frag P t (l + 1) l1 R" and S: "frag P t l1 e S"
  shows "frag P t l e (Id \<union> R O S)"
proof (rule fragI)
  show "l \<le> e" using frag_le [OF R] frag_le [OF S] by simp
next
  fix i j assume "(i, j) \<in> Id \<union> R O S"
  moreover have "((l, i), (l + 1, i)) \<in> vm P t" "((l, i), (e, i)) \<in> vm P t"
    using vm_split [OF l] by auto
  ultimately show "((l, i), (e, j)) \<in> (vm P t)\<^sup>*"
    using frag_through [OF frag_seq [OF R S], of i j] by (auto intro: converse_rtrancl_into_rtrancl)
next
  fix n i q k assume q: "q < l \<or> e \<le> q" and n: "((l, i), (q, k)) \<in> vm P t ^^ n"
  have "q \<noteq> l" and q': "q < l + 1 \<or> e \<le> q" using q frag_le [OF R] frag_le [OF S] by auto
  with n obtain m c where m: "n = Suc m" "((l, i), c) \<in> vm P t" "(c, (q, k)) \<in> vm P t ^^ m"
    by (blast elim: first_step)
  consider "((l + 1, i), (q, k)) \<in> vm P t ^^ m" | "((e, i), (q, k)) \<in> vm P t ^^ m"
    using m(2,3) by (auto simp: vm_split [OF l])
  then show "\<exists>j m. m \<le> n \<and> (i, j) \<in> Id \<union> R O S \<and> ((e, j), (q, k)) \<in> vm P t ^^ m"
  proof cases
    case 1
    obtain j m1 where "m1 \<le> m" "(i, j) \<in> R O S" "((e, j), (q, k)) \<in> vm P t ^^ m1"
      by (rule frag_exit [OF frag_seq [OF R S] 1 q'])
    with m(1) show ?thesis by (intro exI [of _ j] exI [of _ m1]) auto
  next
    case 2
    with m(1) show ?thesis by (intro exI [of _ i] exI [of _ m]) auto
  qed
qed

lemma frag_star:
  assumes l: "l < length P" "P ! l = Split (l + 1) (l1 + 1)" and R: "frag P t (l + 1) l1 R"
    and l1: "l1 < length P" "P ! l1 = Jmp l"
  shows "frag P t l (l1 + 1) (R\<^sup>*)"
proof (rule fragI)
  show "l \<le> l1 + 1" using frag_le [OF R] by simp
next
  fix i j assume "(i, j) \<in> R\<^sup>*"
  then show "((l, i), (l1 + 1, j)) \<in> (vm P t)\<^sup>*"
  proof (induction rule: converse_rtrancl_induct)
    case base
    then show ?case using vm_split [OF l] by blast
  next
    case (step x y)
    have "((l, x), (l + 1, x)) \<in> vm P t" "((l1, y), (l, y)) \<in> vm P t"
      using vm_split [OF l] vm_jmp [OF l1] by auto
    with step.IH frag_through [OF R step.hyps(1)] show ?case
      by (meson converse_rtrancl_into_rtrancl rtrancl_trans)
  qed
next
  fix n i q k assume q: "q < l \<or> l1 + 1 \<le> q" and n: "((l, i), (q, k)) \<in> vm P t ^^ n"
  have "q \<noteq> l" "q \<noteq> l1" and qR: "q < l + 1 \<or> l1 \<le> q" using q frag_le [OF R] by auto
  from n show "\<exists>j m. m \<le> n \<and> (i, j) \<in> R\<^sup>* \<and> ((l1 + 1, j), (q, k)) \<in> vm P t ^^ m"
  proof (induction n arbitrary: i rule: less_induct)
    case (less n)
    from less.prems \<open>q \<noteq> l\<close> obtain m c where m: "n = Suc m" "((l, i), c) \<in> vm P t" "(c, (q, k)) \<in> vm P t ^^ m"
      by (blast elim: first_step)
    consider "((l + 1, i), (q, k)) \<in> vm P t ^^ m" | "((l1 + 1, i), (q, k)) \<in> vm P t ^^ m"
      using m(2,3) by (auto simp: vm_split [OF l])
    then show ?case
    proof cases
      case 1
      from frag_exit [OF R 1 qR] obtain j m1 where j: "m1 \<le> m" "(i, j) \<in> R" "((l1, j), (q, k)) \<in> vm P t ^^ m1"
        by blast
      from after_jmp [OF j(3) \<open>q \<noteq> l1\<close> l1] obtain m2 where m2: "m2 < m1" "((l, j), (q, k)) \<in> vm P t ^^ m2" by blast
      with less.IH [of m2 j] j(1) m(1) obtain j' m3
        where "m3 \<le> m2" "(j, j') \<in> R\<^sup>*" "((l1 + 1, j'), (q, k)) \<in> vm P t ^^ m3" by auto
      with j m2 m(1) show ?thesis
        by (intro exI [of _ j'] exI [of _ m3]) (auto intro: converse_rtrancl_into_rtrancl)
    next
      case 2
      with m(1) show ?thesis by (intro exI [of _ i] exI [of _ m]) auto
    qed
  qed
qed

section \<open>The code of a tree\<close>

definition placed :: "inst list \<Rightarrow> nat \<Rightarrow> inst list \<Rightarrow> bool" where
  "placed P l c \<longleftrightarrow> (\<exists>xs ys. P = xs @ c @ ys \<and> length xs = l)"

lemma placed_append: "placed P l (c @ d) \<Longrightarrow> placed P l c \<and> placed P (l + length c) d"
  unfolding placed_def by (metis append.assoc length_append)

lemma placed_Cons:
  assumes "placed P l (i # c)"
  shows "l < length P \<and> P ! l = i \<and> placed P (Suc l) c"
proof -
  obtain xs ys where P: "P = xs @ (i # c) @ ys" and "length xs = l" using assms by (auto simp: placed_def)
  then have "P = (xs @ [i]) @ c @ ys" "length (xs @ [i]) = Suc l" by simp_all
  then have "placed P (Suc l) c" unfolding placed_def by blast
  with P \<open>length xs = l\<close> show ?thesis by auto
qed

text \<open>Generators whose code, wherever it is placed, spells a relation.\<close>

definition spells :: "bytes \<Rightarrow> gen \<Rightarrow> (nat \<times> nat) set \<Rightarrow> bool" where
  "spells t g R \<longleftrightarrow> gen_ok g \<and> (\<forall>P l. placed P l (snd g l) \<longrightarrow> frag P t l (l + fst g) R)"

lemma spells_frag: "spells t (n, g) R \<Longrightarrow> placed P l (g l) \<Longrightarrow> frag P t l (l + n) R"
  by (simp add: spells_def)

lemma spells_length: "spells t (n, g) R \<Longrightarrow> length (g l) = n"
  by (simp add: spells_def gen_ok_def)

lemma spells_placed:
  "spells t (n, g) R \<Longrightarrow> placed P l (g k @ d) \<Longrightarrow> placed P l (g k) \<and> placed P (l + n) d"
  using placed_append [of P l "g k" d] by (simp add: spells_length)

lemma seq_frag:
  "list_all2 (spells t) gs Rs \<Longrightarrow> placed P l (seq_code gs l) \<Longrightarrow>
   frag P t l (l + sum_list (map fst gs)) (foldr (O) Rs Id)"
proof (induction gs Rs arbitrary: l rule: list_all2_induct)
  case Nil
  then show ?case by (simp add: frag_empty)
next
  case (Cons g gs R Rs)
  obtain n h where g: "g = (n, h)" by (cases g)
  with Cons.hyps have s: "spells t (n, h) R" by simp
  from Cons.prems have "placed P l (h l)" "placed P (l + n) (seq_code gs (l + n))"
    using spells_placed [OF s, of P l l] by (simp_all add: g)
  from frag_seq [OF spells_frag [OF s this(1)] Cons.IH [OF this(2)]] show ?case
    by (simp add: g add.assoc)
qed

lemma alt_frag:
  "list_all2 (spells t) gs Rs \<Longrightarrow> gs \<noteq> [] \<Longrightarrow> e = l + alt_size (map fst gs) \<Longrightarrow>
   placed P l (alt_code gs e l) \<Longrightarrow> frag P t l e (\<Union>(set Rs))"
proof (induction gs Rs arbitrary: l rule: list_all2_induct)
  case Nil
  then show ?case by simp
next
  case (Cons g gs R Rs)
  obtain n h where g: "g = (n, h)" by (cases g)
  with Cons.hyps have s: "spells t (n, h) R" by simp
  show ?case
  proof (cases gs)
    case Nil
    with Cons.hyps Cons.prems spells_frag [OF s] show ?thesis by (simp add: g)
  next
    case gs: (Cons g' gs')
    from Cons.prems(3) have p: "placed P l (Split (l + 1) (l + n + 2) # h (l + 1) @ Jmp e # alt_code gs e (l + n + 2))"
      by (simp add: g gs)
    from placed_Cons [OF this] have l: "l < length P" "P ! l = Split (l + 1) (l + n + 1 + 1)"
      and "placed P (l + 1) (h (l + 1) @ Jmp e # alt_code gs e (l + n + 2))" by simp_all
    from placed_append [OF this(3)] have h: "placed P (l + 1) (h (l + 1))"
      and "placed P (l + n + 1) (Jmp e # alt_code gs e (l + n + 2))" by (simp_all add: spells_length [OF s])
    from placed_Cons [OF this(2)] have j: "l + n + 1 < length P" "P ! (l + n + 1) = Jmp e"
      and rest: "placed P (l + n + 2) (alt_code gs e (l + n + 2))" by simp_all
    have R: "frag P t (l + 1) (l + n + 1) R" using spells_frag [OF s h] by (simp add: ac_simps)
    have "frag P t (l + n + 2) e (\<Union>(set Rs))"
      using Cons.IH [OF _ _ rest] Cons.prems(2) by (simp add: g gs)
    then have S: "frag P t (l + n + 1 + 1) e (\<Union>(set Rs))" by simp
    from frag_branch [OF l R j S] show ?thesis by simp
  qed
qed

lemma copies_frag:
  "spells t (n, h) R \<Longrightarrow> placed P l (copies_code k (n, h) l) \<Longrightarrow> frag P t l (l + k * n) (R ^^ k)"
proof (induction k arbitrary: l)
  case 0
  then show ?case by (simp add: frag_empty)
next
  case (Suc k)
  then have "placed P l (h l)" "placed P (l + n) (copies_code k (n, h) (l + n))"
    using spells_placed [OF Suc.prems(1), of P l l] by simp_all
  from frag_seq [OF spells_frag [OF Suc.prems(1) this(1)] Suc.IH [OF Suc.prems(1) this(2)]] show ?case
    by (simp add: ac_simps relpow_commute)
qed

lemma opt_frag:
  "spells t (n, h) R \<Longrightarrow> e = l + k * Suc n \<Longrightarrow> placed P l (opt_code k (n, h) e l) \<Longrightarrow>
   frag P t l e (\<Union>j \<le> k. R ^^ j)"
proof (induction k arbitrary: l)
  case 0
  then show ?case by (simp add: frag_empty)
next
  case (Suc k)
  let ?opt = "opt_code k (n, h) e (l + n + 1)"
  from placed_Cons [of P l "Split (l + 1) e" "h (l + 1) @ ?opt"] Suc.prems(3)
  have l: "l < length P" "P ! l = Split (l + 1) e" and "placed P (l + 1) (h (l + 1) @ ?opt)" by simp_all
  from placed_append [OF this(3)] have h: "placed P (l + 1) (h (l + 1))" and rest: "placed P (l + n + 1) ?opt"
    by (simp_all add: spells_length [OF Suc.prems(1)])
  have R: "frag P t (l + 1) (l + n + 1) R" using spells_frag [OF Suc.prems(1) h] by (simp add: ac_simps)
  have "frag P t (l + n + 1) e (\<Union>j \<le> k. R ^^ j)" using Suc.IH [OF Suc.prems(1) _ rest] Suc.prems(2) by simp
  from frag_optional [OF l R this] have "frag P t l e (Id \<union> R O (\<Union>j \<le> k. R ^^ j))" .
  also have "Id \<union> R O (\<Union>j \<le> k. R ^^ j) = (\<Union>j \<le> Suc k. R ^^ j)"
    by (simp add: atMost_Suc_eq_insert_0 relpow_commute [symmetric] relcomp_UNION_distrib image_image)
  finally show ?case .
qed

lemma spellsI: "gen_ok (n, g) \<Longrightarrow> (\<And>P l. placed P l (g l) \<Longrightarrow> frag P t l (l + n) R) \<Longrightarrow> spells t (n, g) R"
  by (simp add: spells_def)

lemma single_spells:
  assumes "\<And>P l i c. l < length P \<Longrightarrow> P ! l = x \<Longrightarrow> ((l, i), c) \<in> vm P t \<longleftrightarrow> (\<exists>j. c = (l + 1, j) \<and> (i, j) \<in> R)"
  shows "spells t (Suc 0, \<lambda>l. [x]) R"
proof (rule spellsI)
  fix P l assume "placed P l [x]"
  then have "l < length P" "P ! l = x" using placed_Cons by blast+
  from frag_single [of l P t R] assms [OF this] show "frag P t l (l + Suc 0) R" by simp
qed (simp add: gen_ok_def)

lemma repeat_spells:
  assumes s: "spells t (n, h) R" and "case hi of None \<Rightarrow> True | Some m \<Rightarrow> lo \<le> m"
  shows "spells t
    (lo * n + (case hi of None \<Rightarrow> n + 2 | Some m \<Rightarrow> (m - lo) * Suc n),
     \<lambda>l. let l1 = l + lo * n in copies_code lo (n, h) l @
       (case hi of None \<Rightarrow> Split (l1 + 1) (l1 + n + 2) # h (l1 + 1) @ [Jmp l1]
        | Some m \<Rightarrow> opt_code (m - lo) (n, h) (l1 + (m - lo) * Suc n) l1))
    (\<Union>k \<in> {k. lo \<le> k \<and> (\<forall>m. hi = Some m \<longrightarrow> k \<le> m)}. R ^^ k)"
proof (rule spellsI, goal_cases)
  case 1
  have g: "gen_ok (n, h)" using s by (simp add: spells_def)
  from length_copies_code [OF g] length_opt_code [OF g] g show ?case
    by (auto simp: gen_ok_def Let_def split: option.split)
next
  case (2 P l)
  let ?l1 = "l + lo * n"
  have len: "length (copies_code lo (n, h) l) = lo * n"
    using length_copies_code [of "(n, h)"] s by (simp add: spells_def)
  show ?case
  proof (cases hi)
    case None
    let ?loop = "Split (?l1 + 1) (?l1 + n + 2) # h (?l1 + 1) @ [Jmp ?l1]"
    have "placed P l (copies_code lo (n, h) l @ ?loop)" using 2 None by (simp add: Let_def)
    from placed_append [OF this] have c: "placed P l (copies_code lo (n, h) l)" and "placed P ?l1 ?loop"
      by (simp_all add: len)
    from placed_Cons [OF this(2)] have l: "?l1 < length P" "P ! ?l1 = Split (?l1 + 1) (?l1 + n + 1 + 1)"
      and h: "placed P (?l1 + 1) (h (?l1 + 1) @ [Jmp ?l1])" by simp_all
    from spells_placed [OF s h] have b: "frag P t (?l1 + 1) (?l1 + n + 1) R" and "placed P (?l1 + n + 1) [Jmp ?l1]"
      using spells_frag [OF s, of P "?l1 + 1"] by (simp_all add: ac_simps)
    from placed_Cons [OF this(2)] have j: "?l1 + n + 1 < length P" "P ! (?l1 + n + 1) = Jmp ?l1" by simp_all
    have "frag P t l (?l1 + n + 1 + 1) (R ^^ lo O R\<^sup>*)"
      using frag_seq [OF copies_frag [OF s c] frag_star [OF l b j]] .
    also have "R ^^ lo O R\<^sup>* = (\<Union>k \<in> {k. lo \<le> k}. R ^^ k)"
    proof -
      have "{k. lo \<le> k} = (\<lambda>k. lo + k) ` UNIV" by (auto simp: image_def) presburger
      then show ?thesis by (simp add: rtrancl_is_UN_relpow relcomp_UNION_distrib relpow_add image_image)
    qed
    finally show ?thesis using None by (simp add: ac_simps)
  next
    case (Some m)
    then have m: "lo \<le> m" using assms(2) by simp
    let ?e = "?l1 + (m - lo) * Suc n"
    have "placed P l (copies_code lo (n, h) l @ opt_code (m - lo) (n, h) ?e ?l1)"
      using 2 Some by (simp add: Let_def)
    from placed_append [OF this] have c: "placed P l (copies_code lo (n, h) l)"
      and o: "placed P ?l1 (opt_code (m - lo) (n, h) ?e ?l1)" by (simp_all add: len)
    have "frag P t l ?e (R ^^ lo O (\<Union>k \<le> m - lo. R ^^ k))"
      using frag_seq [OF copies_frag [OF s c] opt_frag [OF s refl o]] .
    also have "R ^^ lo O (\<Union>k \<le> m - lo. R ^^ k) = (\<Union>k \<in> {k. lo \<le> k \<and> k \<le> m}. R ^^ k)"
    proof -
      have "{k. lo \<le> k \<and> k \<le> m} = (\<lambda>k. lo + k) ` {..m - lo}"
      proof (intro equalityI subsetI)
        fix k assume "k \<in> {k. lo \<le> k \<and> k \<le> m}"
        then show "k \<in> (\<lambda>k. lo + k) ` {..m - lo}" by (intro image_eqI [of _ _ "k - lo"]) auto
      qed (use m in auto)
      then show ?thesis by (simp add: relcomp_UNION_distrib relpow_add image_image)
    qed
    finally show ?thesis using Some by (simp add: ac_simps)
  qed
qed

lemma code_spells: "ast_ok a \<Longrightarrow> spells t (code_size a, code a) (sem t a)"
proof (induction a)
  case Empty
  then show ?case by (auto intro!: spellsI frag_empty simp: gen_ok_def)
next
  case (Concat parts)
  then have s: "list_all2 (spells t) (map (\<lambda>p. (code_size p, code p)) parts) (map (sem t) parts)"
    by (simp add: list_all2_conv_all_nth list_all_length)
  show ?case
    using seq_frag [OF s] gen_ok_code [of "Concat parts"]
    by (auto intro!: spellsI simp: comp_def foldr_map)
next
  case (Alt branches)
  then have s: "list_all2 (spells t) (map (\<lambda>p. (code_size p, code p)) branches) (map (sem t) branches)"
    by (simp add: list_all2_conv_all_nth list_all_length)
  show ?case
    using alt_frag [OF s _ refl] gen_ok_code [of "Alt branches"] Alt.prems
    by (auto intro!: spellsI simp: comp_def)
next
  case (Repeat node lo hi)
  from repeat_spells [where hi = hi and lo = lo, OF Repeat.IH] Repeat.prems show ?case
    by (simp add: Let_def split: option.splits)
qed (auto intro!: single_spells simp: vm_def pushes_def accepts_byte_def byte_at_def in_ranges_def list_ex_iff split: if_splits, fastforce+)

lemma no_match_code: "Match \<notin> set (code a l)"
proof (induction a arbitrary: l)
  case (Concat parts)
  have "list_all (\<lambda>g. \<forall>l. Match \<notin> set (snd g l)) gs \<Longrightarrow> Match \<notin> set (seq_code gs l)" for gs l
    by (induction gs l rule: seq_code.induct) auto
  with Concat show ?case by (simp add: list_all_iff)
next
  case (Alt branches)
  have "list_all (\<lambda>g. \<forall>l. Match \<notin> set (snd g l)) gs \<Longrightarrow> Match \<notin> set (alt_code gs e l)" for gs e l
    by (induction gs e l rule: alt_code.induct) auto
  with Alt show ?case by (simp add: list_all_iff)
next
  case (Repeat node lo hi)
  have "Match \<notin> set (copies_code k (n, code node) l)" "Match \<notin> set (opt_code k (n, code node) e l)" for k n e l
    using Repeat by (induction k arbitrary: l) auto
  with Repeat show ?case by (auto simp: Let_def split: option.splits)
qed auto

text \<open>A compiled pattern accepts at \<open>j\<close> after starting at \<open>i\<close> exactly if the tree spans \<open>i\<close> to \<open>j\<close>.\<close>

lemma match_reached:
  assumes "ast_ok a"
  shows "(\<exists>pc. pc < length (code a 0 @ [Match]) \<and> (code a 0 @ [Match]) ! pc = Match \<and>
            ((0, i), (pc, j)) \<in> (vm (code a 0 @ [Match]) t)\<^sup>*) \<longleftrightarrow> (i, j) \<in> sem t a"
proof -
  let ?P = "code a 0 @ [Match]" and ?n = "code_size a"
  have n: "length (code a 0) = ?n" using gen_ok_code [of a] by (simp add: gen_ok_def)
  have "placed ?P 0 (code a 0)" by (auto simp: placed_def)
  then have f: "frag ?P t 0 ?n (sem t a)" using spells_frag [OF code_spells [OF assms]] by fastforce
  have at: "pc < length ?P \<and> ?P ! pc = Match \<longleftrightarrow> pc = ?n" for pc
    using no_match_code [of a 0] n by (auto simp: nth_append less_Suc_eq in_set_conv_nth)
  have stuck: "((?n, k), c) \<notin> vm ?P t" for k c
    using n by (auto simp: vm_def pushes_def accepts_byte_def nth_append split: option.splits)
  have "(i, j) \<in> sem t a" if reach: "((0, i), (?n, j)) \<in> (vm ?P t)\<^sup>*"
  proof -
    from reach obtain k where "((0, i), (?n, j)) \<in> vm ?P t ^^ k" by (auto simp: rtrancl_is_UN_relpow)
    from frag_exit [OF f this] obtain j' m where "(i, j') \<in> sem t a" "((?n, j'), (?n, j)) \<in> vm ?P t ^^ m" by blast
    then show ?thesis
    proof (cases m)
      case (Suc m')
      with \<open>((?n, j'), (?n, j)) \<in> vm ?P t ^^ m\<close> stuck show ?thesis by (metis relpow_Suc_D2)
    qed simp
  qed
  then have "((0, i), (?n, j)) \<in> (vm ?P t)\<^sup>* \<longleftrightarrow> (i, j) \<in> sem t a" using frag_through [OF f] by blast
  moreover have "(\<exists>pc. pc < length ?P \<and> ?P ! pc = Match \<and> Q pc) \<longleftrightarrow> Q ?n" for Q using at by metis
  ultimately show ?thesis by simp
qed

text \<open>The optimisation for anchored patterns, and that a match ends inside the input.\<close>

lemma foldr_relcomp_empty: "list_all is_empty_ast xs \<Longrightarrow> foldr (\<lambda>p r. sem t p O r) (xs @ ys) Id = foldr (\<lambda>p r. sem t p O r) ys Id"
proof (induction xs)
  case (Cons x xs)
  then show ?case by (cases x) auto
qed simp

lemma anchored_starts: "is_start_anchored a \<Longrightarrow> (i, j) \<in> sem t a \<Longrightarrow> i = 0"
proof (induction a arbitrary: i j rule: is_start_anchored.induct)
  case (1 multiline)
  then show ?case by (auto simp: at_start_def)
next
  case (2 parts)
  then obtain p ps where d: "dropWhile is_empty_ast parts = p # ps" and p: "is_start_anchored p"
    by (auto split: list.splits)
  have "parts = takeWhile is_empty_ast parts @ p # ps" using d by (metis takeWhile_dropWhile_id)
  moreover have "list_all is_empty_ast (takeWhile is_empty_ast parts)"
    by (auto simp: list_all_iff dest: set_takeWhileD)
  ultimately have "sem t (Concat parts) = sem t p O foldr (\<lambda>p r. sem t p O r) ps Id"
    by (metis foldr_relcomp_empty foldr_Cons comp_apply sem.simps(5))
  with 2 d p show ?case by (auto simp: d)
next
  case (3 branches)
  then show ?case by (auto simp: list_all_iff)
qed auto

end
