(* ===== verification/RegexRun.thy ===== *)
theory RegexRun
  imports RegexMachine
begin

text \<open>
  The machine computes, position by position, the set of all instructions a thread can be at. The sparse
  sets behave as sets whatever earlier matches left in them, also when their generation counter wraps, and
  no index is ever out of range.
\<close>

section \<open>Sparse sets are sets\<close>

definition sparse_ok :: "sparse_set \<Rightarrow> bool" where
  "sparse_ok s \<longleftrightarrow> (\<forall>g \<in> set (ss_gen s). g \<le> ss_cur s)"

definition marked :: "sparse_set \<Rightarrow> nat set" where
  "marked s = {pc. pc < length (ss_gen s) \<and> ss_gen s ! pc = ss_cur s}"

definition sparse_holds :: "sparse_set \<Rightarrow> bool" where
  "sparse_holds s \<longleftrightarrow> sparse_ok s \<and> distinct (ss_dense s) \<and> set (ss_dense s) = marked s"

lemma sparse_ok_new: "sparse_ok sparse_new"
  by (simp add: sparse_ok_def sparse_new_def)

lemma ensure_ok [simp]: "sparse_ok s \<Longrightarrow> sparse_ok (sparse_ensure n s)"
  by (auto simp: sparse_ok_def sparse_ensure_def)

lemma ensure_length: "n \<le> length (ss_gen (sparse_ensure n s))"
  by (simp add: sparse_ensure_def)

lemma clear_length [simp]: "length (ss_gen (sparse_clear s)) = length (ss_gen s)"
  by (simp add: sparse_clear_def Let_def)

lemma clear_holds:
  assumes "sparse_ok s"
  shows "sparse_holds (sparse_clear s)" and "marked (sparse_clear s) = {}"
proof -
  have lt: "g < ss_cur s + 1" if "g \<in> set (ss_gen s)" "ss_cur s + 1 \<noteq> 0" for g
    using that assms unatSuc [of "ss_cur s"]
    by (force simp: sparse_ok_def word_less_nat_alt word_le_nat_alt add.commute)
  then have "ss_gen s ! pc \<noteq> ss_cur s + 1" if "pc < length (ss_gen s)" "ss_cur s + 1 \<noteq> 0" for pc
    using that nth_mem by fastforce
  then show m: "marked (sparse_clear s) = {}"
    by (auto simp: marked_def sparse_clear_def Let_def)
  have "sparse_ok (sparse_clear s)"
    using lt by (auto simp: sparse_ok_def sparse_clear_def Let_def intro: order_less_imp_le)
  with m show "sparse_holds (sparse_clear s)"
    by (simp add: sparse_holds_def sparse_clear_def Let_def)
qed

lemma insert_fields [simp]:
  "length (ss_gen (sparse_insert pc s)) = length (ss_gen s)" "ss_cur (sparse_insert pc s) = ss_cur s"
  by (simp_all add: sparse_insert_def)

lemma insert_marked: "pc < length (ss_gen s) \<Longrightarrow> marked (sparse_insert pc s) = insert pc (marked s)"
  by (auto simp: marked_def sparse_insert_def nth_list_update)

lemma insert_holds:
  assumes "sparse_holds s" "pc < length (ss_gen s)" "\<not> sparse_contains s pc"
  shows "sparse_holds (sparse_insert pc s)"
proof -
  have "pc \<notin> marked s" using assms by (simp add: marked_def sparse_contains_def)
  moreover have "sparse_ok (sparse_insert pc s)"
    using assms(1) set_update_subset_insert [of "ss_gen s" pc "ss_cur s"]
    by (auto simp: sparse_holds_def sparse_ok_def sparse_insert_def)
  ultimately show ?thesis
    using assms insert_marked [OF assms(2)] by (auto simp: sparse_holds_def) (auto simp: sparse_insert_def)
qed

lemma contains_marked: "pc < length (ss_gen s) \<Longrightarrow> sparse_contains s pc \<longleftrightarrow> pc \<in> marked s"
  by (simp add: sparse_contains_def marked_def)

section \<open>Following the empty moves\<close>

definition eps :: "inst list \<Rightarrow> bytes \<Rightarrow> nat \<Rightarrow> (nat \<times> nat) set" where
  "eps P t pos = {(pc, q). pc < length P \<and> q \<in> set (pushes t pos pc (P ! pc))}"

text \<open>Programs whose targets are inside and which end in \<open>Match\<close>.\<close>

definition prog_ok :: "inst list \<Rightarrow> bool" where
  "prog_ok P \<longleftrightarrow> P \<noteq> [] \<and> (\<forall>pc < length P. \<forall>t pos. set (pushes t pos pc (P ! pc)) \<subseteq> {..<length P}) \<and>
     (\<forall>pc < length P. \<forall>b. accepts_byte (P ! pc) b \<longrightarrow> pc + 1 < length P)"

lemma prog_okD:
  "prog_ok P \<Longrightarrow> 0 < length P"
  "prog_ok P \<Longrightarrow> pc < length P \<Longrightarrow> q \<in> set (pushes t pos pc (P ! pc)) \<Longrightarrow> q < length P"
  "prog_ok P \<Longrightarrow> pc < length P \<Longrightarrow> accepts_byte (P ! pc) b \<Longrightarrow> pc + 1 < length P"
  unfolding prog_ok_def by blast+

definition inside :: "inst list \<Rightarrow> sparse_set \<Rightarrow> bool" where
  "inside P s \<longleftrightarrow> sparse_holds s \<and> length P \<le> length (ss_gen s) \<and> marked s \<subseteq> {..<length P}"

declare add_threads.simps(2) [simp del]

lemma add_threads_works:
  assumes "prog_ok P" "inside P list" "set stack \<subseteq> {..<length P}"
    and "eps P t pos `` marked list \<subseteq> marked list \<union> set stack"
  shows "\<exists>list'. add_threads P t pos stack list = Some list' \<and> inside P list' \<and>
    marked list \<union> set stack \<subseteq> marked list' \<and> eps P t pos `` marked list' \<subseteq> marked list' \<and>
    marked list' \<subseteq> marked list \<union> (eps P t pos)\<^sup>* `` set stack"
  using assms
proof (induction P t pos stack list rule: add_threads.induct)
  case (1 P t pos list)
  then show ?case by auto
next
  case (2 P t pos pc stack list)
  then have pc: "pc < length P" "pc < length (ss_gen list)" by (auto simp: inside_def)
  show ?case
  proof (cases "pc \<in> marked list")
    case True
    have eq: "add_threads P t pos (pc # stack) list = add_threads P t pos stack list"
      using True pc by (simp add: add_threads.simps(2) contains_marked)
    have "\<not> length (ss_gen list) \<le> pc" "sparse_contains list pc" using True pc by (simp_all add: contains_marked)
    moreover have "set stack \<subseteq> {..<length P}" "eps P t pos `` marked list \<subseteq> marked list \<union> set stack"
      using 2(5,6) True by auto
    ultimately obtain list' where "add_threads P t pos stack list = Some list'" "inside P list'"
      "marked list \<union> set stack \<subseteq> marked list'" "eps P t pos `` marked list' \<subseteq> marked list'"
      "marked list' \<subseteq> marked list \<union> (eps P t pos)\<^sup>* `` set stack"
      using 2(1) [OF _ _ 2(3,4)] by blast
    with eq True show ?thesis by (intro exI [of _ list']) auto
  next
    case False
    let ?push = "pushes t pos pc (P ! pc)" and ?list = "sparse_insert pc list"
    have eq: "add_threads P t pos (pc # stack) list = add_threads P t pos (?push @ stack) ?list"
      using False pc by (simp add: add_threads.simps(2) contains_marked)
    have push: "set ?push = eps P t pos `` {pc}" using pc by (auto simp: eps_def)
    have m: "marked ?list = insert pc (marked list)" using pc by (simp add: insert_marked)
    have "inside P ?list"
      using 2(4) pc False insert_holds [of list pc] by (auto simp: inside_def m contains_marked)
    moreover have "set (?push @ stack) \<subseteq> {..<length P}" using 2(3,5) pc(1) by (auto simp: prog_ok_def)
    moreover have "eps P t pos `` marked ?list \<subseteq> marked ?list \<union> set (?push @ stack)"
      using 2(6) by (auto simp: m push)
    ultimately obtain list' where l': "add_threads P t pos (?push @ stack) ?list = Some list'" "inside P list'"
      and sub: "marked ?list \<union> set (?push @ stack) \<subseteq> marked list'"
      and closed: "eps P t pos `` marked list' \<subseteq> marked list'"
      and sup: "marked list' \<subseteq> marked ?list \<union> (eps P t pos)\<^sup>* `` set (?push @ stack)"
      using 2(2) [OF _ _ _ 2(3)] pc False by (auto simp: contains_marked)
    have "(eps P t pos)\<^sup>* `` set (?push @ stack) \<subseteq> (eps P t pos)\<^sup>* `` set (pc # stack)"
      unfolding set_append push by (auto intro: converse_rtrancl_into_rtrancl)
    moreover have "pc \<in> (eps P t pos)\<^sup>* `` set (pc # stack)" by auto
    ultimately have "marked list' \<subseteq> marked list \<union> (eps P t pos)\<^sup>* `` set (pc # stack)"
      using sup unfolding m by blast
    with eq l' sub closed show ?thesis by (auto simp: m)
  qed
qed

abbreviation closure :: "inst list \<Rightarrow> bytes \<Rightarrow> nat \<Rightarrow> nat set \<Rightarrow> nat set" where
  "closure P t pos X \<equiv> (eps P t pos)\<^sup>* `` X"

lemma closure_least: "X \<subseteq> M \<Longrightarrow> eps P t pos `` M \<subseteq> M \<Longrightarrow> closure P t pos X \<subseteq> M"
  by (metis Image_closed_trancl Image_mono order_refl)

lemma add_thread_works:
  assumes "prog_ok (pg_insts p)" "inside (pg_insts p) list" "pc < length (pg_insts p)"
    and closed: "closure (pg_insts p) t pos (marked list) = marked list"
  shows "\<exists>list'. add_thread p t pc pos list = Some list' \<and> inside (pg_insts p) list' \<and>
    marked list' = closure (pg_insts p) t pos (insert pc (marked list))"
proof -
  let ?P = "pg_insts p"
  have "eps ?P t pos `` marked list \<subseteq> marked list \<union> set [pc]" using closed by blast
  from add_threads_works [OF assms(1,2) _ this] assms(3) obtain list' where l': "add_threads ?P t pos [pc] list = Some list'" "inside ?P list'"
    and sub: "insert pc (marked list) \<subseteq> marked list'" and cl: "eps ?P t pos `` marked list' \<subseteq> marked list'"
    and sup: "marked list' \<subseteq> marked list \<union> closure ?P t pos {pc}"
    by auto
  have "marked list \<union> closure ?P t pos {pc} \<subseteq> closure ?P t pos (insert pc (marked list))" by auto
  with sup closure_least [OF sub cl] have "marked list' = closure ?P t pos (insert pc (marked list))" by auto
  with l' show ?thesis by (simp add: add_thread_def)
qed

section \<open>One position after another\<close>

definition steps_on :: "inst list \<Rightarrow> bytes \<Rightarrow> nat \<Rightarrow> nat set \<Rightarrow> nat set" where
  "steps_on P t pos X = {pc + 1 | pc. pc \<in> X \<and> accepts_byte (P ! pc) (byte_at t pos)}"

lemma closure_closed [simp]: "closure P t pos (closure P t pos X) = closure P t pos X"
  by (auto intro: rtrancl_trans)

lemma closure_Un: "closure P t pos (X \<union> Y) = closure P t pos X \<union> closure P t pos Y"
  by blast

lemma scan_works:
  assumes "prog_ok (pg_insts p)" "inside (pg_insts p) nlist" "set ds \<subseteq> {..<length (pg_insts p)}"
    and "closure (pg_insts p) t (pos + 1) (marked nlist) = marked nlist"
  shows "\<exists>b nlist'. scan p t pos ds nlist = Some (b, nlist') \<and> inside (pg_insts p) nlist' \<and>
    (b \<longleftrightarrow> (\<exists>pc \<in> set ds. pg_insts p ! pc = Match)) \<and>
    (\<not> b \<longrightarrow> marked nlist' = marked nlist \<union> closure (pg_insts p) t (pos + 1) (steps_on (pg_insts p) t pos (set ds)))"
  using assms(2-4)
proof (induction ds arbitrary: nlist)
  case Nil
  then show ?case by (intro exI [of _ False] exI [of _ nlist]) (simp add: steps_on_def)
next
  case (Cons pc ds)
  let ?P = "pg_insts p"
  have pc: "pc < length ?P" using Cons.prems by simp
  have byte: "(if pos < length t then Some (t ! pos) else None) = byte_at t pos" by (simp add: byte_at_def)
  consider "?P ! pc = Match" | "?P ! pc \<noteq> Match" "accepts_byte (?P ! pc) (byte_at t pos)"
    | "?P ! pc \<noteq> Match" "\<not> accepts_byte (?P ! pc) (byte_at t pos)" by blast
  then show ?case
  proof cases
    case 1
    then show ?thesis using pc Cons.prems(1) by (intro exI [of _ True] exI [of _ nlist]) simp
  next
    case 2
    then have "pc + 1 < length ?P" using assms(1) pc unfolding prog_ok_def by blast
    from add_thread_works [OF assms(1) Cons.prems(1) this Cons.prems(3)] obtain l'
      where l': "add_thread p t (pc + 1) (pos + 1) nlist = Some l'" "inside ?P l'"
      and m: "marked l' = closure ?P t (pos + 1) (insert (pc + 1) (marked nlist))" by blast
    have cl: "closure ?P t (pos + 1) (marked l') = marked l'" by (simp add: m)
    have "steps_on ?P t pos (set (pc # ds)) = insert (pc + 1) (steps_on ?P t pos (set ds))"
      using 2 by (auto simp: steps_on_def)
    moreover have "marked l' = marked nlist \<union> closure ?P t (pos + 1) {pc + 1}"
      unfolding m using Cons.prems(3) closure_Un [of ?P t "pos + 1" "{pc + 1}" "marked nlist"] by auto
    ultimately show ?thesis
      using Cons.IH [OF l'(2) _ cl] Cons.prems(2) pc 2 l'(1)
        closure_Un [of ?P t "pos + 1" "{pc + 1}" "steps_on ?P t pos (set ds)"]
      by (simp add: byte Un_assoc)
  next
    case 3
    then have "steps_on ?P t pos (set (pc # ds)) = steps_on ?P t pos (set ds)" by (auto simp: steps_on_def)
    with 3 pc Cons.IH [OF Cons.prems(1) _ Cons.prems(3)] Cons.prems(2) show ?thesis by (simp add: byte)
  qed
qed

text \<open>The threads at a position: those that go on from the position before, and a new one.\<close>

fun threads :: "inst list \<Rightarrow> bool \<Rightarrow> bytes \<Rightarrow> nat \<Rightarrow> nat set" where
  "threads P anchored t 0 = closure P t 0 {0}"
| "threads P anchored t (Suc pos) =
     closure P t (Suc pos) (steps_on P t pos (threads P anchored t pos) \<union> (if anchored then {} else {0}))"

definition carried :: "inst list \<Rightarrow> bool \<Rightarrow> bytes \<Rightarrow> nat \<Rightarrow> nat set" where
  "carried P anchored t pos =
     (case pos of 0 \<Rightarrow> {} | Suc q \<Rightarrow> closure P t pos (steps_on P t q (threads P anchored t q)))"

lemma carried_closed: "closure P t pos (carried P anchored t pos) = carried P anchored t pos"
  by (auto simp: carried_def split: nat.split intro: rtrancl_trans)

lemma threads_carried:
  "threads P anchored t pos =
    (if pos = 0 \<or> \<not> anchored then closure P t pos (insert 0 (carried P anchored t pos)) else carried P anchored t pos)"
proof (cases pos)
  case (Suc q)
  then show ?thesis
    using closure_Un [of P t pos "{0}" "carried P anchored t pos"]
    by (auto simp: carried_def closure_Un intro: rtrancl_trans)
qed (simp add: carried_def)

lemma closure_inside: "prog_ok P \<Longrightarrow> X \<subseteq> {..<length P} \<Longrightarrow> closure P t pos X \<subseteq> {..<length P}"
  by (rule closure_least) (auto simp: eps_def dest: prog_okD(2))

lemma threads_inside: "prog_ok P \<Longrightarrow> threads P anchored t pos \<subseteq> {..<length P}"
proof (induction pos)
  case 0
  then show ?case using closure_inside [of P "{0}" t 0] by (simp add: prog_ok_def)
next
  case (Suc pos)
  then have "steps_on P t pos (threads P anchored t pos) \<subseteq> {..<length P}"
    using prog_okD(3) [OF Suc.prems] by (auto simp: steps_on_def)
  then show ?case using closure_inside [OF Suc.prems] prog_okD(1) [OF Suc.prems] by simp
qed

definition scratch_ok :: "scratch \<Rightarrow> bool" where
  "scratch_ok s \<longleftrightarrow> sparse_ok (sc_clist s) \<and> sparse_ok (sc_nlist s)"

lemma inside_ok: "inside P s \<Longrightarrow> sparse_ok s"
  by (simp add: inside_def sparse_holds_def)

lemma clear_inside: "sparse_ok s \<Longrightarrow> length P \<le> length (ss_gen s) \<Longrightarrow> inside P (sparse_clear s)"
  by (simp add: inside_def clear_holds)

lemma run_loop_works:
  assumes ok: "prog_ok (pg_insts p)" and "inside (pg_insts p) (sc_clist s)"
    and "marked (sc_clist s) = carried (pg_insts p) (pg_start_anchored p) t pos"
    and "sparse_ok (sc_nlist s)" "length (pg_insts p) \<le> length (ss_gen (sc_nlist s))"
  shows "\<exists>s'. run_loop p t [pos..<pos + k] s =
      Some (\<exists>q \<in> {pos..<pos + k}. \<exists>pc \<in> threads (pg_insts p) (pg_start_anchored p) t q. pg_insts p ! pc = Match, s') \<and>
    scratch_ok s'"
  using assms(2-)
proof (induction k arbitrary: pos s)
  case 0
  then show ?case by (auto simp: scratch_ok_def inside_ok)
next
  case (Suc k)
  let ?P = "pg_insts p" and ?a = "pg_start_anchored p"
  let ?T = "threads ?P ?a t pos"
  obtain clist where c: "(if pos = 0 \<or> \<not> ?a then add_thread p t 0 pos (sc_clist s) else Some (sc_clist s)) = Some clist"
    and ci: "inside ?P clist" and cm: "marked clist = ?T"
  proof (cases "pos = 0 \<or> \<not> ?a")
    case True
    have "0 < length ?P" "closure ?P t pos (marked (sc_clist s)) = marked (sc_clist s)"
      using ok Suc.prems(2) carried_closed by (auto simp: prog_ok_def)
    from add_thread_works [OF ok Suc.prems(1) this] True that show ?thesis
      by (auto simp: threads_carried [of _ _ _ pos] Suc.prems(2))
  next
    case False
    with Suc.prems(1,2) that show ?thesis by (simp add: threads_carried [of _ _ _ pos])
  qed
  have dense: "set (ss_dense clist) = ?T" using ci cm by (simp add: inside_def sparse_holds_def)
  have n: "inside ?P (sparse_clear (sc_nlist s))" "marked (sparse_clear (sc_nlist s)) = {}"
    using clear_inside clear_holds Suc.prems(3,4) by auto
  have "?T \<subseteq> {..<length ?P}" using ci cm by (simp add: inside_def)
  with scan_works [OF ok n(1), of "ss_dense clist" t pos] n(2) obtain b nlist
    where sc: "scan p t pos (ss_dense clist) (sparse_clear (sc_nlist s)) = Some (b, nlist)" "inside ?P nlist"
      and b: "b \<longleftrightarrow> (\<exists>pc \<in> ?T. ?P ! pc = Match)"
      and nm: "\<not> b \<Longrightarrow> marked nlist = closure ?P t (pos + 1) (steps_on ?P t pos ?T)"
    by (auto simp: dense)
  have split: "[pos..<pos + Suc k] = pos # [Suc pos..<Suc pos + k]" by (simp add: upt_rec)
  have range: "{pos..<pos + Suc k} = insert pos {Suc pos..<Suc pos + k}" by auto
  show ?case
  proof (cases b)
    case True
    with c sc b ci show ?thesis
      unfolding split range by (auto simp: scratch_ok_def inside_ok)
  next
    case False
    let ?s = "\<lparr>sc_clist = nlist, sc_nlist = clist\<rparr>"
    have "\<exists>s'. run_loop p t [Suc pos..<Suc pos + k] ?s =
        Some (\<exists>q \<in> {Suc pos..<Suc pos + k}. \<exists>pc \<in> threads ?P ?a t q. ?P ! pc = Match, s') \<and> scratch_ok s'"
      by (rule Suc.IH) (use False sc(2) nm ci in \<open>auto simp: carried_def inside_def sparse_holds_def\<close>)
    moreover have "run_loop p t [pos..<pos + Suc k] s = run_loop p t [Suc pos..<Suc pos + k] ?s"
      unfolding split using c sc False by simp
    moreover have "(\<exists>q \<in> {pos..<pos + Suc k}. \<exists>pc \<in> threads ?P ?a t q. ?P ! pc = Match) \<longleftrightarrow>
        (\<exists>q \<in> {Suc pos..<Suc pos + k}. \<exists>pc \<in> threads ?P ?a t q. ?P ! pc = Match)"
      unfolding range using False b by simp
    ultimately show ?thesis by simp
  qed
qed

lemma run_works:
  assumes "prog_ok (pg_insts p)" "scratch_ok s"
  shows "\<exists>s'. run p t s =
      Some (\<exists>q \<le> length t. \<exists>pc \<in> threads (pg_insts p) (pg_start_anchored p) t q. pg_insts p ! pc = Match, s') \<and>
    scratch_ok s'"
proof -
  let ?n = "length (pg_insts p)"
  let ?s = "\<lparr>sc_clist = sparse_clear (sparse_ensure ?n (sc_clist s)), sc_nlist = sparse_ensure ?n (sc_nlist s)\<rparr>"
  have "\<exists>s'. run_loop p t [0..<0 + (length t + 1)] ?s =
      Some (\<exists>q \<in> {0..<0 + (length t + 1)}. \<exists>pc \<in> threads (pg_insts p) (pg_start_anchored p) t q. pg_insts p ! pc = Match, s') \<and>
    scratch_ok s'"
    by (rule run_loop_works [OF assms(1)])
      (use assms(2) in \<open>auto simp: scratch_ok_def clear_inside clear_holds ensure_length carried_def\<close>)
  moreover have "(\<exists>q \<in> {0..<0 + (length t + 1)}. Q q) \<longleftrightarrow> (\<exists>q \<le> length t. Q q)" for Q by (auto simp: less_Suc_eq_le)
  ultimately show ?thesis by (simp only: run_def Let_def) simp
qed

section \<open>Threads are paths\<close>

lemma eps_path: "(pc, q) \<in> (eps P t pos)\<^sup>* \<Longrightarrow> ((pc, pos), (q, pos)) \<in> (vm P t)\<^sup>*"
proof (induction rule: rtrancl_induct)
  case (step y z)
  then have "((y, pos), (z, pos)) \<in> vm P t" by (auto simp: eps_def vm_def)
  with step.IH show ?case by simp
qed simp

text \<open>Where a thread may start.\<close>

abbreviation may_start :: "bool \<Rightarrow> nat \<Rightarrow> bool" where
  "may_start anchored i \<equiv> i = 0 \<or> \<not> anchored"

lemma threads_paths:
  "pc \<in> threads P anchored t pos \<Longrightarrow> prog_ok P \<Longrightarrow>
   \<exists>i \<le> pos. may_start anchored i \<and> ((0, i), (pc, pos)) \<in> (vm P t)\<^sup>*"
proof (induction pos arbitrary: pc)
  case 0
  then show ?case using eps_path by auto
next
  case (Suc pos)
  then obtain q where q: "(q, pc) \<in> (eps P t (Suc pos))\<^sup>*"
    and "q \<in> steps_on P t pos (threads P anchored t pos) \<or> \<not> anchored \<and> q = 0" by (auto split: if_splits)
  then consider r where "q = r + 1" "r \<in> threads P anchored t pos" "accepts_byte (P ! r) (byte_at t pos)" | "\<not> anchored" "q = 0"
    by (auto simp: steps_on_def)
  then show ?case
  proof cases
    case 1
    from Suc.IH [OF 1(2) Suc.prems(2)] obtain i
      where i: "i \<le> pos" "may_start anchored i" "((0, i), (r, pos)) \<in> (vm P t)\<^sup>*" by blast
    have "r < length P" using 1(2) threads_inside [OF Suc.prems(2)] by blast
    then have "((r, pos), (q, Suc pos)) \<in> vm P t" using 1 by (simp add: vm_def)
    with i(3) eps_path [OF q] have "((0, i), (pc, Suc pos)) \<in> (vm P t)\<^sup>*"
      by (blast intro: rtrancl_into_rtrancl rtrancl_trans)
    with i(1,2) show ?thesis by (intro exI [of _ i]) simp
  next
    case 2
    with eps_path [OF q] show ?thesis by auto
  qed
qed

lemma paths_threads:
  assumes "((0, i), (pc, pos)) \<in> (vm P t)\<^sup>*" "may_start anchored i"
  shows "i \<le> pos \<and> pc \<in> threads P anchored t pos"
proof -
  have "i \<le> snd c \<and> fst c \<in> threads P anchored t (snd c)" if "((0, i), c) \<in> (vm P t)\<^sup>*" for c
    using that
  proof (induction rule: rtrancl_induct)
    case base
    show ?case
    proof (cases i)
      case (Suc k)
      with assms(2) have "\<not> anchored" by simp
      with Suc show ?thesis by auto
    qed auto
  next
    case (step c d)
    obtain r k q l where c: "c = (r, k)" and d: "d = (q, l)" by (cases c; cases d) auto
    have r: "r \<in> threads P anchored t k" "i \<le> k" using step.IH by (simp_all add: c)
    consider "(r, q) \<in> eps P t k" "l = k" | "accepts_byte (P ! r) (byte_at t k)" "q = r + 1" "l = Suc k"
      using step.hyps(2) by (auto simp: vm_def eps_def c d)
    then show ?case
    proof cases
      case 1
      with r show ?thesis by (cases k) (auto simp: d intro: rtrancl_into_rtrancl)
    next
      case 2
      then have "q \<in> steps_on P t k (threads P anchored t k)" using r by (auto simp: steps_on_def)
      with 2 r show ?thesis by (auto simp: d)
    qed
  qed
  from this [OF assms(1)] show ?thesis by simp
qed

lemma path_inside: "((pc, i), (q, j)) \<in> (vm P t)\<^sup>* \<Longrightarrow> i \<le> length t \<Longrightarrow> j \<le> length t"
proof -
  have "snd d \<le> length t" if "(c, d) \<in> (vm P t)\<^sup>*" "snd c \<le> length t" for c d
    using that by (induction rule: rtrancl_induct) (auto simp: vm_def byte_at_def accepts_byte_def split: inst.splits if_splits)
  then show "((pc, i), (q, j)) \<in> (vm P t)\<^sup>* \<Longrightarrow> i \<le> length t \<Longrightarrow> j \<le> length t" by fastforce
qed

section \<open>Compiled programs\<close>

fun targets :: "inst \<Rightarrow> nat set" where
  "targets (Jmp a) = {a}"
| "targets (Split a b) = {a, b}"
| "targets _ = {}"

definition targets_upto :: "nat \<Rightarrow> inst list \<Rightarrow> bool" where
  "targets_upto n c \<longleftrightarrow> (\<forall>i \<in> set c. targets i \<subseteq> {..n})"

lemma targets_upto_simps [simp]:
  "targets_upto n []" "targets_upto n (i # c) \<longleftrightarrow> targets i \<subseteq> {..n} \<and> targets_upto n c"
  "targets_upto n (c @ d) \<longleftrightarrow> targets_upto n c \<and> targets_upto n d"
  by (auto simp: targets_upto_def)

lemma targets_upto_mono: "targets_upto m c \<Longrightarrow> m \<le> n \<Longrightarrow> targets_upto n c"
  by (fastforce simp: targets_upto_def)

definition stays :: "gen \<Rightarrow> bool" where
  "stays g \<longleftrightarrow> (\<forall>l n. l + fst g \<le> n \<longrightarrow> targets_upto n (snd g l))"

lemma staysD: "stays (k, g) \<Longrightarrow> l + k \<le> n \<Longrightarrow> targets_upto n (g l)"
  by (simp add: stays_def)

lemma seq_stays: "list_all stays gs \<Longrightarrow> l + sum_list (map fst gs) \<le> n \<Longrightarrow> targets_upto n (seq_code gs l)"
  by (induction gs l rule: seq_code.induct) (auto intro: staysD)

lemma alt_stays:
  "list_all stays gs \<Longrightarrow> l + alt_size (map fst gs) \<le> n \<Longrightarrow> e \<le> n \<Longrightarrow> targets_upto n (alt_code gs e l)"
  by (induction gs e l rule: alt_code.induct) (auto intro: staysD)

lemma copies_stays: "stays (k, g) \<Longrightarrow> l + m * k \<le> n \<Longrightarrow> targets_upto n (copies_code m (k, g) l)"
  by (induction m arbitrary: l) (auto intro: staysD)

lemma opt_stays: "stays (k, g) \<Longrightarrow> l + m * Suc k \<le> n \<Longrightarrow> e \<le> n \<Longrightarrow> targets_upto n (opt_code m (k, g) e l)"
  by (induction m arbitrary: l) (auto intro: staysD)

lemma code_stays: "stays (code_size a, code a)"
proof (induction a)
  case (Concat parts)
  then have "list_all stays (map (\<lambda>p. (code_size p, code p)) parts)" by (simp add: list_all_iff)
  from seq_stays [OF this] show ?case by (simp add: stays_def comp_def)
next
  case (Alt branches)
  then have "list_all stays (map (\<lambda>p. (code_size p, code p)) branches)" by (simp add: list_all_iff)
  from alt_stays [OF this] show ?case by (simp add: stays_def comp_def)
next
  case (Repeat node lo hi)
  from copies_stays [OF Repeat] opt_stays [OF Repeat] staysD [OF Repeat] show ?case
    by (auto simp: stays_def Let_def split: option.split)
qed (auto simp: stays_def)

lemma code_prog_ok: "prog_ok (code a 0 @ [Match])"
proof -
  let ?P = "code a 0 @ [Match]" and ?n = "code_size a"
  have n: "length (code a 0) = ?n" using gen_ok_code [of a] by (simp add: gen_ok_def)
  have t: "targets i \<subseteq> {..?n}" if "i \<in> set ?P" for i
    using that staysD [OF code_stays, of 0 a ?n] by (auto simp: targets_upto_def)
  have last: "?P ! pc = Match" if "pc < length ?P" "\<not> pc < ?n" for pc using that n by (simp add: nth_append)
  have "set (pushes t pos pc (?P ! pc)) \<subseteq> {..<length ?P}" if pc: "pc < length ?P" for t pos pc
    using t [OF nth_mem [OF pc]] last [OF pc] n by (cases "?P ! pc") (auto simp: pushes_def)
  moreover have "pc + 1 < length ?P" if pc: "pc < length ?P" "accepts_byte (?P ! pc) b" for pc b
    using last [OF pc(1)] pc(2) n by (cases "pc < ?n") (auto simp: accepts_byte_def split: option.splits)
  ultimately show ?thesis by (simp add: prog_ok_def)
qed

text \<open>The machine decides whether the tree spans some part of the input.\<close>

theorem compiled_decides:
  assumes "compile_ast a = Inr p" "ast_ok a" "scratch_ok s"
  shows "\<exists>s'. run p t s = Some (\<exists>i j. i \<le> length t \<and> (i, j) \<in> sem t a, s') \<and> scratch_ok s'"
proof -
  let ?P = "code a 0 @ [Match]" and ?a = "is_start_anchored a"
  have p: "pg_insts p = ?P" "pg_start_anchored p = ?a" using assms(1) by (auto simp: compile_ast_eq split: if_splits)
  have "(\<exists>q \<le> length t. \<exists>pc \<in> threads ?P ?a t q. ?P ! pc = Match) \<longleftrightarrow>
    (\<exists>i j. i \<le> length t \<and> (i, j) \<in> sem t a)" (is "?run \<longleftrightarrow> ?spec")
  proof
    assume ?run
    then obtain q pc where q: "q \<le> length t" "pc \<in> threads ?P ?a t q" "?P ! pc = Match" by blast
    from threads_paths [OF q(2) code_prog_ok] obtain i
      where "i \<le> q" "((0, i), (pc, q)) \<in> (vm ?P t)\<^sup>*" by blast
    moreover have "pc < length ?P" using q(2) threads_inside [OF code_prog_ok] by blast
    ultimately show ?spec using match_reached [OF assms(2), of i q t] q(1,3) by (meson le_trans)
  next
    assume ?spec
    then obtain i j where i: "i \<le> length t" "(i, j) \<in> sem t a" by blast
    then obtain pc where pc: "?P ! pc = Match" "((0, i), (pc, j)) \<in> (vm ?P t)\<^sup>*"
      using match_reached [OF assms(2), of i j t] by blast
    have "may_start ?a i" using anchored_starts [OF _ i(2)] by blast
    from paths_threads [OF pc(2) this] path_inside [OF pc(2) i(1)] pc(1) show ?run by blast
  qed
  with run_works [of p s t] code_prog_ok [of a] assms(3) p show ?thesis by simp
qed

end
