(* ===== verification/RegexParser.thy ===== *)
theory RegexParser
  imports RegexRun
begin

text \<open>
  The parser of patterns in \<open>onetdns-filter/src/regex.rs\<close>. The parser of a group calls the parser of
  alternatives again; here the functions below it take that parser as an argument, and \<open>parse_alt\<close> ties
  the knot with one unit of fuel for each level of nesting that the depth limit allows. Loops have one
  unit per byte that is left. Running out would be the error \<open>Endless\<close>, which is shown not to happen.
\<close>

section \<open>State\<close>

record flags =
  fl_ci :: bool
  fl_dotall :: bool
  fl_multiline :: bool
  fl_extended :: bool

record parser =
  ps_s :: bytes
  ps_pos :: nat
  ps_depth :: nat
  ps_flags :: flags

type_synonym 'a rx = "regex_error + 'a \<times> parser"

definition parser_new :: "bytes \<Rightarrow> parser" where
  "parser_new s = \<lparr>ps_s = s, ps_pos = 0, ps_depth = 0,
     ps_flags = \<lparr>fl_ci = False, fl_dotall = False, fl_multiline = False, fl_extended = False\<rparr>\<rparr>"

definition peek :: "parser \<Rightarrow> u8 option" where
  "peek p = (if ps_pos p < length (ps_s p) then Some (ps_s p ! ps_pos p) else None)"

definition bump :: "parser \<Rightarrow> u8 option \<times> parser" where
  "bump p = (case peek p of None \<Rightarrow> (None, p) | Some c \<Rightarrow> (Some c, p\<lparr>ps_pos := ps_pos p + 1\<rparr>))"

definition eat :: "u8 \<Rightarrow> parser \<Rightarrow> bool \<times> parser" where
  "eat b p = (if peek p = Some b then (True, p\<lparr>ps_pos := ps_pos p + 1\<rparr>) else (False, p))"

definition to_read :: "parser \<Rightarrow> nat" where
  "to_read p = length (ps_s p) - ps_pos p"

definition is_ascii_whitespace :: "u8 \<Rightarrow> bool" where
  "is_ascii_whitespace b \<longleftrightarrow> b \<in> {32, 9, 10, 12, 13}"

function skip_comment :: "parser \<Rightarrow> parser" where
  "skip_comment p =
     (case bump p of (None, p') \<Rightarrow> p' | (Some c, p') \<Rightarrow> if c = 10 then p' else skip_comment p')"
  by pat_completeness auto

termination
  by (relation "measure to_read") (auto simp: to_read_def bump_def peek_def split: option.splits if_splits)

declare skip_comment.simps [simp del]

text \<open>Positions only move forward, and the flags and the depth are those of the caller.\<close>

definition ahead :: "parser \<Rightarrow> parser \<Rightarrow> bool" where
  "ahead p p' \<longleftrightarrow> ps_s p' = ps_s p \<and> ps_depth p' = ps_depth p \<and> ps_pos p \<le> ps_pos p' \<and>
     (ps_pos p \<le> length (ps_s p) \<longrightarrow> ps_pos p' \<le> length (ps_s p))"

lemma ahead_refl [simp]: "ahead p p"
  by (simp add: ahead_def)

lemma ahead_trans [trans]: "ahead p q \<Longrightarrow> ahead q r \<Longrightarrow> ahead p r"
  by (auto simp: ahead_def)

lemma bump_ahead: "bump p = (r, p') \<Longrightarrow> ahead p p' \<and> ps_flags p' = ps_flags p"
  by (auto simp: bump_def peek_def ahead_def split: option.splits if_splits)

lemma bump_Some: "bump p = (Some c, p') \<Longrightarrow> peek p = Some c \<and> p' = p\<lparr>ps_pos := ps_pos p + 1\<rparr>"
  by (auto simp: bump_def split: option.splits)

lemma eat_ahead: "eat b p = (r, p') \<Longrightarrow> ahead p p' \<and> ps_flags p' = ps_flags p"
  by (auto simp: eat_def peek_def ahead_def split: if_splits)

lemma skip_comment_ahead: "ahead p (skip_comment p) \<and> ps_flags (skip_comment p) = ps_flags p \<and>
  (peek p \<noteq> None \<longrightarrow> ps_pos p < ps_pos (skip_comment p))"
proof (induction p rule: skip_comment.induct)
  case (1 p)
  obtain r p' where b: "bump p = (r, p')" by (cases "bump p")
  show ?case
  proof (cases r)
    case None
    with b have "p' = p" "peek p = None" by (auto simp: bump_def split: option.splits)
    with b None show ?thesis by (simp add: skip_comment.simps [of p])
  next
    case (Some c)
    with b bump_ahead [OF b] bump_Some [of p c p'] 1 ahead_trans [of p p']
    show ?thesis by (force simp: skip_comment.simps [of p] ahead_def)
  qed
qed

function skip_ws :: "parser \<Rightarrow> parser" where
  "skip_ws p =
     (case peek p of
        None \<Rightarrow> p
      | Some c \<Rightarrow>
          if c = 35 then skip_ws (skip_comment p)
          else if is_ascii_whitespace c then skip_ws (snd (bump p))
          else p)"
  by pat_completeness auto

termination
proof (relation "measure to_read", goal_cases)
  case (2 p c)
  then show ?case using skip_comment_ahead [of p]
    by (auto simp: to_read_def ahead_def peek_def split: if_splits)
next
  case (3 p c)
  then show ?case by (auto simp: to_read_def bump_def peek_def split: option.splits if_splits)
qed simp

declare skip_ws.simps [simp del]

definition skip_x_ws :: "parser \<Rightarrow> parser" where
  "skip_x_ws p = (if \<not> fl_extended (ps_flags p) then p else skip_ws p)"

section \<open>Bounds\<close>

definition sat32 :: "nat \<Rightarrow> nat" where
  "sat32 n = min n 4294967295"

function uint_loop :: "nat \<Rightarrow> parser \<Rightarrow> nat \<times> parser" where
  "uint_loop n p =
     (case peek p of
        None \<Rightarrow> (n, p)
      | Some c \<Rightarrow>
          if is_ascii_digit c
          then uint_loop (sat32 (sat32 (n * 10) + (unat c - 48))) (p\<lparr>ps_pos := ps_pos p + 1\<rparr>)
          else (n, p))"
  by pat_completeness auto

termination
  by (relation "measure (\<lambda>(n, p). to_read p)") (auto simp: to_read_def peek_def split: if_splits)

declare uint_loop.simps [simp del]

definition parse_uint :: "parser \<Rightarrow> nat option \<times> parser" where
  "parse_uint p =
     (let (n, p') = uint_loop 0 p in if ps_pos p' = ps_pos p then (None, p') else (Some n, p'))"

definition try_parse_bounds :: "parser \<Rightarrow> (nat \<times> nat option) option rx" where
  "try_parse_bounds p0 =
     (let start = ps_pos p0; (_, p) = bump p0 in
      case parse_uint p of
        (None, p) \<Rightarrow> Inr (None, p\<lparr>ps_pos := start\<rparr>)
      | (Some lo, p) \<Rightarrow>
          (let (hi, p) =
             (case eat 44 p of
                (True, p) \<Rightarrow>
                  if peek p = Some 125 then (Some None, p)
                  else (case parse_uint p of (None, p) \<Rightarrow> (None, p) | (Some m, p) \<Rightarrow> (Some (Some m), p))
              | (False, p) \<Rightarrow> (Some (Some lo), p)) in
           case hi of
             None \<Rightarrow> Inr (None, p\<lparr>ps_pos := start\<rparr>)
           | Some hi \<Rightarrow>
               (case eat 125 p of
                  (False, p) \<Rightarrow> Inr (None, p\<lparr>ps_pos := start\<rparr>)
                | (True, p) \<Rightarrow>
                    if lo > MAX_REPEAT \<or> (case hi of None \<Rightarrow> False | Some m \<Rightarrow> m > MAX_REPEAT)
                    then Inl TooManyRepeats
                    else if (case hi of None \<Rightarrow> False | Some m \<Rightarrow> m < lo) then Inl ReversedBounds
                    else Inr (Some (lo, hi), p))))"

section \<open>Classes and escapes\<close>

definition WORD_RANGES :: "(u8 \<times> u8) list" where
  "WORD_RANGES = [(48, 57), (65, 90), (97, 122), (95, 95)]"

definition SPACE_RANGES :: "(u8 \<times> u8) list" where
  "SPACE_RANGES = [(9, 13), (32, 32)]"

definition is_flag_char :: "u8 \<Rightarrow> bool" where
  "is_flag_char c \<longleftrightarrow> c \<in> {105, 115, 109, 120}"

text \<open>\<open>next\<close> is a \<open>u16\<close> in the source; it stays below 257.\<close>

fun complement_loop :: "(u8 \<times> u8) list \<Rightarrow> nat \<Rightarrow> (u8 \<times> u8) list \<Rightarrow> nat \<times> (u8 \<times> u8) list" where
  "complement_loop [] next out = (next, out)"
| "complement_loop ((lo, hi) # rest) next out =
     (let out = (if unat lo > next then out @ [(of_nat next, of_nat (unat lo - 1))] else out);
          next = (if unat hi + 1 > next then unat hi + 1 else next) in
      complement_loop rest next out)"

definition complement_ranges :: "(u8 \<times> u8) list \<Rightarrow> (u8 \<times> u8) list" where
  "complement_ranges ranges =
     (let (next, out) = complement_loop (sort_key fst ranges) 0 [] in
      if next \<le> 255 then out @ [(of_nat next, 255)] else out)"

definition fold_byte :: "parser \<Rightarrow> u8 \<Rightarrow> u8" where
  "fold_byte p b = (if fl_ci (ps_flags p) then to_ascii_lowercase b else b)"

definition push_class_range :: "parser \<Rightarrow> (u8 \<times> u8) list \<Rightarrow> u8 \<Rightarrow> u8 \<Rightarrow> (u8 \<times> u8) list" where
  "push_class_range p ranges lo hi =
     (let ranges = ranges @ [(lo, hi)] in
      if fl_ci (ps_flags p) then
        (let ua = max lo 65; ub = min hi 90;
             ranges = (if ua \<le> ub then ranges @ [(ua + 0x20, ub + 0x20)] else ranges);
             la = max lo 97; lb = min hi 122 in
         if la \<le> lb then ranges @ [(la - 0x20, lb - 0x20)] else ranges)
      else ranges)"

text \<open>The result is the byte of a single item, or none for an escape that stands for a set.\<close>

definition class_escape :: "u8 \<Rightarrow> (u8 \<times> u8) list \<Rightarrow> u8 option \<times> (u8 \<times> u8) list" where
  "class_escape e ranges =
     (if e = 100 then (None, ranges @ [(48, 57)])
      else if e = 119 then (None, ranges @ WORD_RANGES)
      else if e = 115 then (None, ranges @ SPACE_RANGES)
      else if e = 68 then (None, ranges @ complement_ranges [(48, 57)])
      else if e = 87 then (None, ranges @ complement_ranges WORD_RANGES)
      else if e = 83 then (None, ranges @ complement_ranges SPACE_RANGES)
      else if e = 110 then (Some 10, ranges)
      else if e = 116 then (Some 9, ranges)
      else if e = 114 then (Some 13, ranges)
      else if e = 102 then (Some 0x0C, ranges)
      else if e = 118 then (Some 0x0B, ranges)
      else if e = 48 then (Some 0, ranges)
      else if e = 98 then (Some 0x08, ranges)
      else (Some e, ranges))"

definition class_atom :: "(u8 \<times> u8) list \<Rightarrow> parser \<Rightarrow> (u8 option \<times> (u8 \<times> u8) list) rx" where
  "class_atom ranges p =
     (case bump p of
        (None, p) \<Rightarrow> Inl UnclosedClass
      | (Some c, p) \<Rightarrow>
          if c = 92 then
            (case bump p of
               (None, p) \<Rightarrow> Inl BadEscape
             | (Some e, p) \<Rightarrow> Inr (class_escape e ranges, p))
          else Inr ((Some c, ranges), p))"

text \<open>One round of the loop of \<open>parse_class\<close>: a byte, a range or an escape. It reads at least one byte.\<close>

definition class_item :: "(u8 \<times> u8) list \<Rightarrow> parser \<Rightarrow> ((u8 \<times> u8) list) rx" where
  "class_item ranges p =
     and_then (class_atom ranges p) (\<lambda>((lo, ranges), p).
       case lo of
         None \<Rightarrow> Inr (ranges, p)
       | Some lo \<Rightarrow>
           if peek p = Some 45 \<and> ps_pos p + 1 < length (ps_s p) \<and> ps_s p ! (ps_pos p + 1) \<noteq> 93 then
             and_then (class_atom ranges (snd (bump p))) (\<lambda>((hi, ranges), p).
               case hi of
                 Some hi \<Rightarrow>
                   if hi \<ge> lo then Inr (push_class_range p ranges lo hi, p) else Inl ReversedRange
               | None \<Rightarrow> Inr (push_class_range p ranges lo lo, p))
           else Inr (push_class_range p ranges lo lo, p))"

fun class_loop :: "nat \<Rightarrow> bool \<Rightarrow> (u8 \<times> u8) list \<Rightarrow> parser \<Rightarrow> ((u8 \<times> u8) list) rx" where
  "class_loop 0 first ranges p = Inl Endless"
| "class_loop (Suc fuel) first ranges p =
     (case peek p of
        None \<Rightarrow> Inl UnclosedClass
      | Some c \<Rightarrow>
          if c = 93 \<and> \<not> first then Inr (ranges, snd (bump p))
          else and_then (class_item ranges p) (\<lambda>(ranges, p). class_loop fuel False ranges p))"

definition parse_class :: "parser \<Rightarrow> ast rx" where
  "parse_class p =
     (let (_, p) = bump p; (negated, p) = eat 94 p in
      and_then (class_loop (to_read p + 1) True [] p) (\<lambda>(ranges, p).
        if ranges = [] then Inl EmptyClass else Inr (Class negated ranges, p)))"

definition class_from :: "(u8 \<times> u8) list \<Rightarrow> bool \<Rightarrow> ast" where
  "class_from ranges negated = Class negated ranges"

definition escape_ast :: "parser \<Rightarrow> u8 \<Rightarrow> ast" where
  "escape_ast p e =
     (if e = 100 then class_from [(48, 57)] False
      else if e = 68 then class_from [(48, 57)] True
      else if e = 119 then class_from WORD_RANGES False
      else if e = 87 then class_from WORD_RANGES True
      else if e = 115 then class_from SPACE_RANGES False
      else if e = 83 then class_from SPACE_RANGES True
      else if e = 98 then WordBoundary True
      else if e = 66 then WordBoundary False
      else if e = 110 then Literal 10
      else if e = 116 then Literal 9
      else if e = 114 then Literal 13
      else if e = 102 then Literal 0x0C
      else if e = 118 then Literal 0x0B
      else if e = 48 then Literal 0
      else Literal (fold_byte p e))"

definition parse_escape :: "parser \<Rightarrow> ast rx" where
  "parse_escape p =
     (let (_, p) = bump p in
      case bump p of (None, p) \<Rightarrow> Inl BadEscape | (Some e, p) \<Rightarrow> Inr (escape_ast p e, p))"

section \<open>Groups and flags\<close>

definition set_flag :: "u8 \<Rightarrow> bool \<Rightarrow> flags \<Rightarrow> flags" where
  "set_flag c on f =
     (if c = 105 then f\<lparr>fl_ci := on\<rparr>
      else if c = 115 then f\<lparr>fl_dotall := on\<rparr>
      else if c = 109 then f\<lparr>fl_multiline := on\<rparr>
      else if c = 120 then f\<lparr>fl_extended := on\<rparr>
      else f)"

text \<open>The loop of \<open>parse_flag_group\<close>: \<open>True\<close> when the flags are for the group, \<open>False\<close> when it has no body.\<close>

function flag_loop :: "bool \<Rightarrow> parser \<Rightarrow> bool rx" where
  "flag_loop negate p =
     (case peek p of
        None \<Rightarrow> Inl UnsupportedFlag
      | Some c \<Rightarrow>
          (let p' = p\<lparr>ps_pos := ps_pos p + 1\<rparr> in
           if c = 45 \<and> \<not> negate then flag_loop True p'
           else if is_flag_char c then
             flag_loop negate (p'\<lparr>ps_flags := set_flag c (\<not> negate) (ps_flags p')\<rparr>)
           else if c = 58 then Inr (True, p')
           else if c = 41 then Inr (False, p')
           else Inl UnsupportedFlag))"
  by pat_completeness auto

termination
  by (relation "measure (\<lambda>(negate, p). to_read p)") (auto simp: to_read_def peek_def split: if_splits)

declare flag_loop.simps [simp del]

definition parse_flag_group :: "parser \<Rightarrow> flags option rx" where
  "parse_flag_group p =
     (let saved = ps_flags p in
      and_then (flag_loop False p) (\<lambda>(scoped, p). Inr (if scoped then Some saved else None, p)))"

definition close_group :: "ast \<times> parser \<Rightarrow> ast rx" where
  "close_group r = (case eat 41 (snd r) of (False, p) \<Rightarrow> Inl Unclosed | (True, p) \<Rightarrow> Inr (fst r, p))"

definition parse_group_inner :: "(parser \<Rightarrow> ast rx) \<Rightarrow> parser \<Rightarrow> ast rx" where
  "parse_group_inner parse_alt p =
     (let (_, p) = bump p in
      case eat 63 p of
        (False, p) \<Rightarrow> and_then (parse_alt p) close_group
      | (True, p) \<Rightarrow>
          (case peek p of
             None \<Rightarrow> Inl UnsupportedGroup
           | Some c \<Rightarrow>
               if c = 58 then and_then (parse_alt (snd (bump p))) close_group
               else if c = 45 \<or> is_flag_char c then
                 and_then (parse_flag_group p) (\<lambda>(saved, p).
                   case saved of
                     None \<Rightarrow> Inr (Empty, p)
                   | Some saved \<Rightarrow>
                       and_then (and_then (parse_alt p) close_group) (\<lambda>(inner, p).
                         Inr (inner, p\<lparr>ps_flags := saved\<rparr>)))
               else Inl UnsupportedGroup))"

definition parse_group :: "(parser \<Rightarrow> ast rx) \<Rightarrow> parser \<Rightarrow> ast rx" where
  "parse_group parse_alt p =
     (let p = p\<lparr>ps_depth := ps_depth p + 1\<rparr> in
      if ps_depth p > MAX_PARSE_DEPTH then Inl TooDeep
      else and_then (parse_group_inner parse_alt p) (\<lambda>(r, p). Inr (r, p\<lparr>ps_depth := ps_depth p - 1\<rparr>)))"

section \<open>Atoms, repetition, sequences, alternatives\<close>

definition parse_atom :: "(parser \<Rightarrow> ast rx) \<Rightarrow> parser \<Rightarrow> ast rx" where
  "parse_atom parse_alt p =
     (case peek p of
        None \<Rightarrow> Inr (Empty, p)
      | Some c \<Rightarrow>
          if c = 40 then parse_group parse_alt p
          else if c = 91 then parse_class p
          else if c = 46 then Inr (AnyChar (fl_dotall (ps_flags p)), snd (bump p))
          else if c = 94 then Inr (StartAnchor (fl_multiline (ps_flags p)), snd (bump p))
          else if c = 36 then Inr (EndAnchor (fl_multiline (ps_flags p)), snd (bump p))
          else if c = 92 then parse_escape p
          else if c = 42 \<or> c = 43 \<or> c = 63 then Inl NothingToRepeat
          else Inr (Literal (fold_byte p c), snd (bump p)))"

definition parse_quantifier :: "parser \<Rightarrow> (nat \<times> nat option) option rx" where
  "parse_quantifier p =
     (case peek p of
        None \<Rightarrow> Inr (None, p)
      | Some c \<Rightarrow>
          if c = 42 then Inr (Some (0, None), snd (bump p))
          else if c = 43 then Inr (Some (1, None), snd (bump p))
          else if c = 63 then Inr (Some (0, Some 1), snd (bump p))
          else if c = 123 then try_parse_bounds p
          else Inr (None, p))"

definition parse_repeat :: "(parser \<Rightarrow> ast rx) \<Rightarrow> parser \<Rightarrow> ast rx" where
  "parse_repeat parse_alt p =
     and_then (parse_atom parse_alt p) (\<lambda>(atom, p).
     and_then (parse_quantifier (skip_x_ws p)) (\<lambda>(bounds, p).
       case bounds of
         None \<Rightarrow> Inr (atom, p)
       | Some (lo, hi) \<Rightarrow> Inr (Repeat atom lo hi, snd (eat 63 p))))"

fun concat_loop :: "nat \<Rightarrow> (parser \<Rightarrow> ast rx) \<Rightarrow> ast list \<Rightarrow> parser \<Rightarrow> (ast list) rx" where
  "concat_loop 0 parse_alt parts p = Inl Endless"
| "concat_loop (Suc fuel) parse_alt parts p =
     (let p = skip_x_ws p in
      if peek p = None \<or> peek p = Some 124 \<or> peek p = Some 41 then Inr (parts, p)
      else and_then (parse_repeat parse_alt p) (\<lambda>(a, p). concat_loop fuel parse_alt (parts @ [a]) p))"

definition parse_concat :: "(parser \<Rightarrow> ast rx) \<Rightarrow> parser \<Rightarrow> ast rx" where
  "parse_concat parse_alt p =
     and_then (concat_loop (to_read p + 1) parse_alt [] p) (\<lambda>(parts, p).
       Inr (case parts of [] \<Rightarrow> Empty | [a] \<Rightarrow> a | _ \<Rightarrow> Concat parts, p))"

fun alt_loop :: "nat \<Rightarrow> (parser \<Rightarrow> ast rx) \<Rightarrow> ast list \<Rightarrow> parser \<Rightarrow> (ast list) rx" where
  "alt_loop 0 parse_alt branches p = Inl Endless"
| "alt_loop (Suc fuel) parse_alt branches p =
     (case eat 124 p of
        (False, p) \<Rightarrow> Inr (branches, p)
      | (True, p) \<Rightarrow>
          and_then (parse_concat parse_alt p) (\<lambda>(b, p). alt_loop fuel parse_alt (branches @ [b]) p))"

fun parse_alt :: "nat \<Rightarrow> parser \<Rightarrow> ast rx" where
  "parse_alt 0 p = Inl Endless"
| "parse_alt (Suc levels) p =
     and_then (parse_concat (parse_alt levels) p) (\<lambda>(b, p).
     and_then (alt_loop (to_read p + 1) (parse_alt levels) [b] p) (\<lambda>(branches, p).
       Inr (case branches of [b] \<Rightarrow> b | _ \<Rightarrow> Alt branches, p)))"

definition parse_pattern :: "bytes \<Rightarrow> regex_error + ast" where
  "parse_pattern pattern =
     and_then (parse_alt (MAX_PARSE_DEPTH + 1) (parser_new pattern)) (\<lambda>(ast, p).
       if ps_pos p \<noteq> length (ps_s p) then Inl UnexpectedByte else Inr ast)"

section \<open>Patterns and sets of patterns\<close>

definition compile_pattern :: "bytes \<Rightarrow> regex_error + prog" where
  "compile_pattern pattern = and_then (parse_pattern pattern) compile_ast"

definition regex_new :: "bytes \<Rightarrow> regex_error + prog" where
  "regex_new pattern = compile_pattern pattern"

definition regex_is_match :: "prog \<Rightarrow> bytes \<Rightarrow> scratch \<Rightarrow> (bool \<times> scratch) option" where
  "regex_is_match p text s = run p text s"

fun parse_all :: "bytes list \<Rightarrow> ast list \<Rightarrow> regex_error + ast list" where
  "parse_all [] asts = Inr asts"
| "parse_all (p # patterns) asts = and_then (parse_pattern p) (\<lambda>a. parse_all patterns (asts @ [a]))"

definition regex_set_new :: "bytes list \<Rightarrow> regex_error + prog option" where
  "regex_set_new patterns =
     and_then (parse_all patterns []) (\<lambda>asts.
       case asts of
         [] \<Rightarrow> Inr None
       | [a] \<Rightarrow> and_then (compile_ast a) (\<lambda>p. Inr (Some p))
       | _ \<Rightarrow> and_then (compile_ast (Alt asts)) (\<lambda>p. Inr (Some p)))"

definition regex_set_is_match :: "prog option \<Rightarrow> bytes \<Rightarrow> scratch \<Rightarrow> (bool \<times> scratch) option" where
  "regex_set_is_match compiled text s = (case compiled of Some p \<Rightarrow> run p text s | None \<Rightarrow> Some (False, s))"

section \<open>The parser always ends\<close>

text \<open>A result that is not \<open>Endless\<close> and whose parser is ahead, strictly if asked, with a value in \<open>Q\<close>.\<close>

definition goes :: "bool \<Rightarrow> ('a \<Rightarrow> bool) \<Rightarrow> parser \<Rightarrow> 'a rx \<Rightarrow> bool" where
  "goes strict Q p r =
     (case r of Inl e \<Rightarrow> e \<noteq> Endless
      | Inr (a, p') \<Rightarrow> ahead p p' \<and> Q a \<and> (strict \<longrightarrow> to_read p' < to_read p))"

lemma goes_Inr [simp]: "goes strict Q p (Inr (a, p')) \<longleftrightarrow> ahead p p' \<and> Q a \<and> (strict \<longrightarrow> to_read p' < to_read p)"
  by (simp add: goes_def)

lemma goes_Inl [simp]: "goes strict Q p (Inl e) \<longleftrightarrow> e \<noteq> Endless"
  by (simp add: goes_def)

lemma ahead_left: "ahead p p' \<Longrightarrow> to_read p' \<le> to_read p"
  by (auto simp: ahead_def to_read_def)

lemma goes_bind:
  assumes "goes s1 Q p r"
    and "\<And>a p'. Q a \<Longrightarrow> ahead p p' \<Longrightarrow> (s1 \<Longrightarrow> to_read p' < to_read p) \<Longrightarrow> goes s2 Q' p' (f (a, p'))"
  shows "goes (s1 \<or> s2) Q' p (and_then r f)"
proof (cases r)
  case (Inr x)
  obtain a p' where x: "x = (a, p')" by (cases x)
  with assms(1) Inr have a: "ahead p p'" "Q a" "s1 \<Longrightarrow> to_read p' < to_read p" by simp_all
  show ?thesis
  proof (cases "f (a, p')")
    case f: (Inr y)
    with assms(2) [OF a(2,1,3)] a ahead_trans ahead_left show ?thesis
      by (cases y) (fastforce simp: Inr x)
  qed (use assms(2) [OF a(2,1,3)] Inr x in simp)
qed (use assms(1) in simp)

lemmas goes_bind_strict = goes_bind [where ?s1.0 = True and ?s2.0 = False, simplified]
lemmas goes_bind_same = goes_bind [where ?s2.0 = False, simplified]

lemma goes_weaken: "goes s1 Q p r \<Longrightarrow> (s2 \<Longrightarrow> s1) \<Longrightarrow> (\<And>a. Q a \<Longrightarrow> Q' a) \<Longrightarrow> goes s2 Q' p r"
  by (auto simp: goes_def split: sum.splits)

lemma goes_from: "ahead p q \<Longrightarrow> goes s Q q r \<Longrightarrow> s \<or> (s' \<longrightarrow> to_read q < to_read p) \<Longrightarrow> goes s' Q p r"
proof (cases r)
  case (Inr x)
  assume "ahead p q" "goes s Q q r" "s \<or> (s' \<longrightarrow> to_read q < to_read p)"
  moreover obtain a p' where "x = (a, p')" by (cases x)
  ultimately show ?thesis
    using Inr ahead_left [of q p'] ahead_left [of p q] ahead_trans [of p q p'] by auto
qed simp

lemma snd_bump_ahead [simp]: "ahead p (snd (bump p))" "ps_flags (snd (bump p)) = ps_flags p"
  using bump_ahead [of p "fst (bump p)" "snd (bump p)"] by simp_all

lemma snd_eat_ahead [simp]: "ahead p (snd (eat b p))"
  using eat_ahead [of b p "fst (eat b p)" "snd (eat b p)"] by simp

lemma peek_left: "peek p \<noteq> None \<Longrightarrow> to_read (snd (bump p)) < to_read p"
  by (auto simp: peek_def bump_def to_read_def split: if_splits)

lemma bump_left: "bump p = (Some c, p') \<Longrightarrow> to_read p' < to_read p"
  using peek_left [of p] bump_Some [of p c p'] by auto

lemma eat_left: "eat b p = (True, p') \<Longrightarrow> to_read p' < to_read p"
  by (auto simp: eat_def peek_def to_read_def split: if_splits)

lemma skip_ws_ahead: "ahead p (skip_ws p)"
proof (induction p rule: skip_ws.induct)
  case (1 p)
  then show ?case
    using skip_comment_ahead [of p] ahead_trans [of p "skip_comment p"] ahead_trans [OF snd_bump_ahead(1) [of p]]
    by (subst skip_ws.simps) (auto split: option.split)
qed

lemma skip_x_ws_ahead [simp]: "ahead p (skip_x_ws p)"
  by (simp add: skip_x_ws_def skip_ws_ahead)

lemma uint_loop_ahead: "ahead p (snd (uint_loop n p))"
proof (induction n p rule: uint_loop.induct)
  case (1 n p)
  have "peek p \<noteq> None \<Longrightarrow> ahead p (p\<lparr>ps_pos := ps_pos p + 1\<rparr>)"
    by (auto simp: ahead_def peek_def split: if_splits)
  with 1 ahead_trans [of p "p\<lparr>ps_pos := ps_pos p + 1\<rparr>"] show ?case
    by (subst uint_loop.simps) (auto split: option.split)
qed

lemma parse_uint_ahead: "parse_uint p = (r, p') \<Longrightarrow> ahead p p'"
  using uint_loop_ahead [of p 0] by (auto simp: parse_uint_def split: prod.splits if_splits)

definition bounds_ok :: "(nat \<times> nat option) option \<Rightarrow> bool" where
  "bounds_ok b \<longleftrightarrow>
     (case b of
        None \<Rightarrow> True
      | Some (lo, hi) \<Rightarrow> lo \<le> MAX_REPEAT \<and> (case hi of None \<Rightarrow> True | Some m \<Rightarrow> lo \<le> m \<and> m \<le> MAX_REPEAT))"

lemma ahead_back: "ahead p p' \<Longrightarrow> ahead p (p'\<lparr>ps_pos := ps_pos p\<rparr>)"
  by (auto simp: ahead_def)

lemma bounds_goes: "goes False bounds_ok p (try_parse_bounds p)"
proof -
  obtain b1 p1 where b1: "bump p = (b1, p1)" by (cases "bump p")
  obtain lo p2 where lo: "parse_uint p1 = (lo, p2)" by (cases "parse_uint p1")
  have p2: "ahead p p2" using bump_ahead [OF b1] parse_uint_ahead [OF lo] ahead_trans by blast
  have ea: "ahead p q'" if "eat b q = (r, q')" "ahead p q" for b q r q'
    using eat_ahead [OF that(1)] that(2) ahead_trans by blast
  have ua: "ahead p q'" if "parse_uint q = (r, q')" "ahead p q" for q r q'
    using parse_uint_ahead [OF that(1)] that(2) ahead_trans by blast
  show ?thesis
    using p2 unfolding try_parse_bounds_def
    by (auto simp: b1 lo bounds_ok_def Let_def intro!: ahead_back split: option.split prod.split bool.split)
      (blast intro: ea ua)+
qed

lemma quantifier_goes: "goes False bounds_ok p (parse_quantifier p)"
  using bounds_goes [of p] by (auto simp: parse_quantifier_def bounds_ok_def MAX_REPEAT_def split: option.split)

lemma class_atom_goes: "goes True (\<lambda>_. True) p (class_atom ranges p)"
proof -
  have two: "ahead p p2 \<and> to_read p2 < to_read p" if "bump p = (Some c, p1)" "bump p1 = (Some e, p2)" for c p1 e p2
    using that bump_ahead bump_left ahead_trans less_trans by metis
  show ?thesis
    unfolding class_atom_def
    by (auto dest: bump_ahead bump_left two split: prod.split option.split)
qed

lemma class_item_goes: "goes True (\<lambda>_. True) p (class_item ranges p)"
proof -
  have range: "goes True (\<lambda>_. True) (snd (bump q))
      (and_then (class_atom rs (snd (bump q))) (\<lambda>((hi, ranges), p).
        case hi of
          Some hi \<Rightarrow> if hi \<ge> lo then Inr (push_class_range p ranges lo hi, p) else Inl ReversedRange
        | None \<Rightarrow> Inr (push_class_range p ranges lo lo, p)))" for q rs lo
    by (rule goes_bind_strict [OF class_atom_goes]) (auto split: option.split)
  have "goes (True \<or> False) (\<lambda>_. True) p (class_item ranges p)"
    unfolding class_item_def
  proof (rule goes_bind [OF class_atom_goes], goal_cases)
    case (1 a p')
    from goes_from [OF snd_bump_ahead(1) range, where s' = False] show ?case
      by (cases a) (auto split: option.split)
  qed
  then show ?thesis by simp
qed

lemma class_loop_goes: "to_read p < fuel \<Longrightarrow> goes False (\<lambda>_. True) p (class_loop fuel first ranges p)"
proof (induction fuel arbitrary: first ranges p)
  case (Suc fuel)
  have "goes (True \<or> False) (\<lambda>_. True) p (and_then (class_item ranges p) (\<lambda>(ranges, p). class_loop fuel False ranges p))"
    by (rule goes_bind [OF class_item_goes]) (use Suc in simp)
  then show ?case by (auto split: option.split elim: goes_weaken)
qed simp

lemma class_goes: "peek p \<noteq> None \<Longrightarrow> goes True ast_ok p (parse_class p)"
proof -
  assume p: "peek p \<noteq> None"
  let ?q = "snd (eat 94 (snd (bump p)))"
  have q: "ahead p ?q" "to_read ?q < to_read p"
    using ahead_trans [OF snd_bump_ahead(1) snd_eat_ahead]
      le_less_trans [OF ahead_left [OF snd_eat_ahead] peek_left [OF p]] by auto
  have "goes (False \<or> False) ast_ok ?q (and_then (class_loop (to_read ?q + 1) True [] ?q) (\<lambda>(ranges, p).
      if ranges = [] then Inl EmptyClass else Inr (Class negated ranges, p)))" for negated
    by (rule goes_bind [OF class_loop_goes]) auto
  from goes_from [OF q(1) this] q(2) show ?thesis
    by (simp add: parse_class_def Let_def split_beta)
qed

lemma escape_goes: "peek p \<noteq> None \<Longrightarrow> goes True ast_ok p (parse_escape p)"
proof -
  assume p: "peek p \<noteq> None"
  have "goes False ast_ok (snd (bump p)) (case bump (snd (bump p)) of (None, p) \<Rightarrow> Inl BadEscape
      | (Some e, p) \<Rightarrow> Inr (escape_ast p e, p))"
    by (auto dest: bump_ahead simp: escape_ast_def class_from_def WORD_RANGES_def SPACE_RANGES_def split: prod.split option.split)
  from goes_from [OF snd_bump_ahead(1) this, where s' = True] peek_left [OF p] show ?thesis
    by (simp add: parse_escape_def Let_def split_beta)
qed

lemma flag_loop_goes: "goes True (\<lambda>_. True) p (flag_loop negate p)"
proof (induction negate p rule: flag_loop.induct)
  case (1 negate p)
  show ?case
  proof (cases "peek p")
    case None
    then show ?thesis by (subst flag_loop.simps) simp
  next
    case (Some c)
    let ?p = "p\<lparr>ps_pos := ps_pos p + 1\<rparr>"
    have "ahead p ?p" "to_read ?p < to_read p" using Some by (auto simp: ahead_def to_read_def peek_def split: if_splits)
    moreover have "ahead p (?p\<lparr>ps_flags := f\<rparr>)" "to_read (?p\<lparr>ps_flags := f\<rparr>) < to_read p" for f
      using Some by (auto simp: ahead_def to_read_def peek_def split: if_splits)
    moreover have "goes True Q q r \<Longrightarrow> ahead p q \<Longrightarrow> goes True Q p r" for Q :: "bool \<Rightarrow> bool" and q r
      by (rule goes_from) auto
    ultimately show ?thesis
      using 1(1) [OF Some refl] 1(2) [OF Some refl] Some
      by (subst flag_loop.simps) (auto simp: Let_def)
  qed
qed

lemma flag_group_goes: "goes True (\<lambda>_. True) p (parse_flag_group p)"
  unfolding parse_flag_group_def Let_def by (rule goes_bind_strict [OF flag_loop_goes]) simp

lemma close_goes: "goes s ast_ok p r \<Longrightarrow> goes s ast_ok p (and_then r close_group)"
  by (erule goes_bind_same) (auto simp: close_group_def dest: eat_ahead split: prod.split bool.split)

text \<open>A parser of alternatives that goes ahead from every state of depth \<open>d\<close>.\<close>

definition goes_at :: "nat \<Rightarrow> (parser \<Rightarrow> ast rx) \<Rightarrow> bool" where
  "goes_at d alt \<longleftrightarrow> (\<forall>p. ps_depth p = d \<longrightarrow> goes False ast_ok p (alt p))"

lemma ahead_depth: "ahead p p' \<Longrightarrow> ps_depth p' = ps_depth p"
  by (simp add: ahead_def)

lemma ahead_flags: "ahead p p' \<Longrightarrow> ahead p (p'\<lparr>ps_flags := f\<rparr>)"
  by (simp add: ahead_def)

lemma group_inner_goes:
  assumes "goes_at (ps_depth p) alt" "peek p \<noteq> None"
  shows "goes True ast_ok p (parse_group_inner alt p)"
proof -
  let ?b = "snd (bump p)"
  have alt: "goes False ast_ok q (and_then (alt q) close_group)" if "ahead p q" for q
    using assms(1) ahead_depth [OF that] by (auto intro: close_goes simp: goes_at_def)
  obtain e q where e: "eat 63 ?b = (e, q)" by (cases "eat 63 ?b")
  have q: "ahead p q" "to_read q < to_read p"
    using ahead_trans [OF snd_bump_ahead(1)] eat_ahead [OF e] ahead_left peek_left [OF assms(2)]
    by (blast, metis le_less_trans)
  have strict: "goes True ast_ok p r" if "goes False ast_ok q' r" "ahead q q'" for q' r
    using goes_from [OF that(2,1), where s' = False] goes_from [OF q(1), where s' = True] q(2) by auto
  have flagged: "goes False ast_ok q (and_then (parse_flag_group q) (\<lambda>(saved, p).
      case saved of
        None \<Rightarrow> Inr (Empty, p)
      | Some saved \<Rightarrow>
          and_then (and_then (alt p) close_group) (\<lambda>(inner, p). Inr (inner, p\<lparr>ps_flags := saved\<rparr>))))"
  proof (rule goes_weaken [OF goes_bind [where ?s2.0 = False and Q' = ast_ok, OF flag_group_goes]], goal_cases)
    case (1 saved p')
    have "goes (False \<or> False) ast_ok p' (and_then (and_then (alt p') close_group) (\<lambda>(inner, p). Inr (inner, p\<lparr>ps_flags := f\<rparr>)))" for f
      by (rule goes_bind [OF alt [OF ahead_trans [OF q(1) 1(2)]]]) (simp add: ahead_flags)
    then show ?case by (auto split: option.split)
  qed auto
  show ?thesis
    using strict [OF alt [OF q(1)]] strict [OF flagged]
      strict [OF alt [OF ahead_trans [OF q(1) snd_bump_ahead(1)]] snd_bump_ahead(1)]
    unfolding parse_group_inner_def by (auto simp: e split_beta Let_def split: bool.split option.split)
qed

lemma group_goes:
  assumes "ps_depth p < MAX_PARSE_DEPTH \<longrightarrow> goes_at (ps_depth p + 1) alt" "peek p \<noteq> None"
  shows "goes True ast_ok p (parse_group alt p)"
proof (cases "ps_depth p < MAX_PARSE_DEPTH")
  case True
  let ?p = "p\<lparr>ps_depth := ps_depth p + 1\<rparr>"
  have "goes True ast_ok ?p (parse_group_inner alt ?p)"
    by (rule group_inner_goes) (use assms True in \<open>auto simp: peek_def split: if_splits\<close>)
  then show ?thesis using True
    by (cases "parse_group_inner alt ?p") (auto simp: parse_group_def ahead_def to_read_def)
qed (simp add: parse_group_def)

lemma atom_goes:
  assumes "ps_depth p < MAX_PARSE_DEPTH \<longrightarrow> goes_at (ps_depth p + 1) alt" "peek p \<noteq> None"
  shows "goes True ast_ok p (parse_atom alt p)"
  using group_goes [OF assms] class_goes [OF assms(2)] escape_goes [OF assms(2)] peek_left [OF assms(2)] assms(2)
  by (auto simp: parse_atom_def)

lemma repeat_goes:
  assumes "ps_depth p < MAX_PARSE_DEPTH \<longrightarrow> goes_at (ps_depth p + 1) alt" "peek p \<noteq> None"
  shows "goes True ast_ok p (parse_repeat alt p)"
proof -
  have "goes (True \<or> False) ast_ok p (parse_repeat alt p)"
    unfolding parse_repeat_def
  proof (rule goes_bind [OF atom_goes [OF assms]], goal_cases)
    case (1 atom p')
    have "goes (False \<or> False) ast_ok (skip_x_ws p') (and_then (parse_quantifier (skip_x_ws p')) (\<lambda>(bounds, p).
        case bounds of None \<Rightarrow> Inr (atom, p) | Some (lo, hi) \<Rightarrow> Inr (Repeat atom lo hi, snd (eat 63 p))))"
      by (rule goes_bind [OF quantifier_goes]) (use 1 in \<open>auto simp: bounds_ok_def split: option.splits prod.split\<close>)
    from goes_from [OF skip_x_ws_ahead this, where s' = False] show ?case by simp
  qed
  then show ?thesis by simp
qed

lemma concat_loop_goes:
  assumes "ps_depth p < MAX_PARSE_DEPTH \<longrightarrow> goes_at (ps_depth p + 1) alt" "to_read p < fuel" "list_all ast_ok parts"
  shows "goes False (list_all ast_ok) p (concat_loop fuel alt parts p)"
  using assms
proof (induction fuel arbitrary: parts p)
  case (Suc fuel)
  let ?p = "skip_x_ws p"
  have d: "ps_depth ?p = ps_depth p" and l: "to_read ?p \<le> to_read p" using ahead_depth ahead_left skip_x_ws_ahead by blast+
  have "goes (True \<or> False) (list_all ast_ok) ?p
      (and_then (parse_repeat alt ?p) (\<lambda>(a, p). concat_loop fuel alt (parts @ [a]) p))" if "peek ?p \<noteq> None"
  proof (rule goes_bind [OF repeat_goes [OF _ that]], goal_cases)
    case (2 a p')
    then show ?case using Suc.IH [of p' "parts @ [a]"] Suc.prems d l ahead_depth [OF 2(2)] by simp
  qed (use Suc.prems d in auto)
  from goes_from [OF skip_x_ws_ahead this, where s' = False] Suc.prems show ?case by (auto simp: Let_def)
qed simp

lemma concat_goes:
  assumes "ps_depth p < MAX_PARSE_DEPTH \<longrightarrow> goes_at (ps_depth p + 1) alt"
  shows "goes False ast_ok p (parse_concat alt p)"
proof -
  have "goes (False \<or> False) ast_ok p (parse_concat alt p)"
    unfolding parse_concat_def
    by (rule goes_bind [OF concat_loop_goes [OF assms]]) (auto split: list.split)
  then show ?thesis by simp
qed

lemma alt_loop_goes:
  assumes "ps_depth p < MAX_PARSE_DEPTH \<longrightarrow> goes_at (ps_depth p + 1) alt" "to_read p < fuel"
    and "branches \<noteq> []" "list_all ast_ok branches"
  shows "goes False (\<lambda>bs. bs \<noteq> [] \<and> list_all ast_ok bs) p (alt_loop fuel alt branches p)"
  using assms
proof (induction fuel arbitrary: branches p)
  case (Suc fuel)
  obtain e q where e: "eat 124 p = (e, q)" by (cases "eat 124 p")
  have q: "ahead p q" using eat_ahead [OF e] by simp
  have "goes (False \<or> False) (\<lambda>bs. bs \<noteq> [] \<and> list_all ast_ok bs) q
      (and_then (parse_concat alt q) (\<lambda>(b, p). alt_loop fuel alt (branches @ [b]) p))" if e
  proof (rule goes_bind [OF concat_goes], goal_cases)
    case (2 b p')
    have "to_read p' < to_read p" using 2 ahead_left eat_left [of 124 p q] e that by fastforce
    then show ?case
      using 2 Suc.IH [of p' "branches @ [b]"] Suc.prems ahead_depth [OF 2(2)] ahead_depth [OF q] by simp
  qed (use Suc.prems ahead_depth [OF q] in simp)
  from goes_from [OF q this, where s' = False] Suc.prems q show ?case by (auto simp: e split: bool.split)
qed simp

lemma parse_alt_goes: "n + d = MAX_PARSE_DEPTH + 1 \<Longrightarrow> d \<le> MAX_PARSE_DEPTH \<Longrightarrow> goes_at d (parse_alt n)"
proof (induction n arbitrary: d)
  case (Suc n)
  have deeper: "goes_at (d + 1) (parse_alt n)" if "d < MAX_PARSE_DEPTH" using Suc that by simp
  have "goes (False \<or> False) ast_ok p (parse_alt (Suc n) p)" if d: "ps_depth p = d" for p
    unfolding parse_alt.simps
  proof (rule goes_bind [OF concat_goes], goal_cases)
    case (2 b p')
    have "goes (False \<or> False) ast_ok p' (and_then (alt_loop (to_read p' + 1) (parse_alt n) [b] p') (\<lambda>(branches, p).
        Inr (case branches of [b] \<Rightarrow> b | _ \<Rightarrow> Alt branches, p)))"
      by (rule goes_bind [OF alt_loop_goes]) (use 2 deeper d ahead_depth [OF 2(2)] in \<open>auto split: list.split\<close>)
    then show ?case by simp
  qed (use deeper d in simp)
  then show ?case by (simp add: goes_at_def)
qed simp

lemma parse_goes: "goes False ast_ok (parser_new pattern) (parse_alt (MAX_PARSE_DEPTH + 1) (parser_new pattern))"
  using parse_alt_goes [of "MAX_PARSE_DEPTH + 1" 0] by (simp add: goes_at_def parser_new_def del: parse_alt.simps)

lemma parse_pattern_ends: "parse_pattern pattern \<noteq> Inl Endless"
  using parse_goes [of pattern]
  by (auto simp: parse_pattern_def and_then_def goes_def simp del: parse_alt.simps split: sum.splits if_splits)

lemma parse_pattern_ok: "parse_pattern pattern = Inr a \<Longrightarrow> ast_ok a"
  using parse_goes [of pattern]
  by (auto simp: parse_pattern_def and_then_def goes_def simp del: parse_alt.simps split: sum.splits if_splits)

section \<open>Patterns decide what they mean\<close>

text \<open>Some part of the text is spanned by the tree.\<close>

definition found :: "ast \<Rightarrow> bytes \<Rightarrow> bool" where
  "found a t \<longleftrightarrow> (\<exists>i j. i \<le> length t \<and> (i, j) \<in> sem t a)"

lemma regex_decides:
  assumes "regex_new pattern = Inr p" "scratch_ok s"
  shows "\<exists>a s'. parse_pattern pattern = Inr a \<and> regex_is_match p t s = Some (found a t, s') \<and> scratch_ok s'"
proof -
  obtain a where "parse_pattern pattern = Inr a" "compile_ast a = Inr p"
    using assms(1) by (auto simp: regex_new_def compile_pattern_def and_then_Inr)
  with compiled_decides [OF this(2) parse_pattern_ok assms(2)] show ?thesis
    by (auto simp: regex_is_match_def found_def)
qed

lemma parse_all_asts: "parse_all patterns asts = Inr r \<longleftrightarrow> (\<exists>as. map parse_pattern patterns = map Inr as \<and> r = asts @ as)"
proof (induction patterns arbitrary: asts)
  case (Cons p patterns)
  then show ?case by (cases "parse_pattern p") (auto simp: Cons_eq_map_conv)
qed auto

lemma found_Alt: "found (Alt asts) t \<longleftrightarrow> (\<exists>a \<in> set asts. found a t)"
  by (auto simp: found_def)

lemma regex_set_decides:
  assumes "regex_set_new patterns = Inr compiled" "scratch_ok s"
  shows "\<exists>asts s'. map parse_pattern patterns = map Inr asts \<and>
    regex_set_is_match compiled t s = Some (\<exists>a \<in> set asts. found a t, s') \<and> scratch_ok s'"
proof -
  obtain asts where asts: "map parse_pattern patterns = map Inr asts"
    and c: "(case asts of [] \<Rightarrow> Inr None | [a] \<Rightarrow> and_then (compile_ast a) (\<lambda>p. Inr (Some p))
       | _ \<Rightarrow> and_then (compile_ast (Alt asts)) (\<lambda>p. Inr (Some p))) = Inr compiled"
    using assms(1) by (auto simp: regex_set_new_def and_then_Inr parse_all_asts)
  have ok: "list_all ast_ok asts"
    using asts parse_pattern_ok by (induction patterns arbitrary: asts) (auto simp: map_eq_Cons_conv Cons_eq_map_conv)
  show ?thesis
  proof (cases asts rule: remdups_adj.cases)
    case 1
    with asts c assms(2) show ?thesis by (auto simp: regex_set_is_match_def)
  next
    case (2 a)
    with c obtain p where "compile_ast a = Inr p" "compiled = Some p" by (auto simp: and_then_Inr)
    with compiled_decides [of a p s t] 2 ok assms(2) asts show ?thesis
      by (intro exI [of _ asts]) (auto simp: regex_set_is_match_def found_def)
  next
    case (3 a b as)
    with c obtain p where "compile_ast (Alt asts) = Inr p" "compiled = Some p" by (auto simp: and_then_Inr)
    with compiled_decides [of "Alt asts" p s t, folded found_def] 3 ok assms(2) show ?thesis
      by (intro exI [of _ asts]) (use asts in \<open>auto simp: regex_set_is_match_def found_Alt\<close>)
  qed
qed

end
