(* ===== verification/RegexRules.thy ===== *)
theory RegexRules
  imports RegexParser
begin

text \<open>
  The regular expression rules of the filter, \<open>onetdns-filter/src/engine.rs\<close>: patterns are compiled one by
  one, bundled into sets of at most 32, and searched bundle by bundle. A bundle that is too large as a
  whole is searched pattern by pattern.
\<close>

record regex_matcher =
  rm_chunks :: "(prog option \<times> (bytes \<times> prog) list) list"
  rm_individual :: "(bytes \<times> prog) list"

definition compile_isolated :: "bytes \<Rightarrow> prog option" where
  "compile_isolated pattern = (case regex_new pattern of Inr re \<Rightarrow> Some re | Inl _ \<Rightarrow> None)"

definition SET_CHUNK :: nat where "SET_CHUNK = 32"

function bundle_up :: "(bytes \<times> prog) list \<Rightarrow> regex_matcher \<Rightarrow> regex_matcher" where
  "bundle_up compiled m =
     (if compiled = [] then m
      else
        (let chunk = take SET_CHUNK compiled; rest = drop SET_CHUNK compiled in
         case regex_set_new (map fst chunk) of
           Inr all \<Rightarrow> bundle_up rest (m\<lparr>rm_chunks := rm_chunks m @ [(all, chunk)]\<rparr>)
         | Inl _ \<Rightarrow> bundle_up rest (m\<lparr>rm_individual := rm_individual m @ chunk\<rparr>)))"
  by pat_completeness auto

termination
  by (relation "measure (\<lambda>(compiled, m). length compiled)") (auto simp: SET_CHUNK_def)

declare bundle_up.simps [simp del]

definition compile_rules :: "bytes list \<Rightarrow> (bytes \<times> prog) list" where
  "compile_rules patterns = List.map_filter (\<lambda>p. map_option (\<lambda>re. (p, re)) (compile_isolated p)) patterns"

definition build_regexes :: "bytes list \<Rightarrow> regex_matcher" where
  "build_regexes patterns = bundle_up (compile_rules patterns) \<lparr>rm_chunks = [], rm_individual = []\<rparr>"

text \<open>\<open>iter().find(|(_, re)| re.is_match(text))\<close>.\<close>

fun find_member :: "(bytes \<times> prog) list \<Rightarrow> bytes \<Rightarrow> scratch \<Rightarrow> (bytes option \<times> scratch) option" where
  "find_member [] text s = Some (None, s)"
| "find_member ((pattern, re) # members) text s =
     (case regex_is_match re text s of
        None \<Rightarrow> None
      | Some (True, s) \<Rightarrow> Some (Some pattern, s)
      | Some (False, s) \<Rightarrow> find_member members text s)"

fun find_chunk ::
  "(prog option \<times> (bytes \<times> prog) list) list \<Rightarrow> bytes \<Rightarrow> scratch \<Rightarrow> (bytes option \<times> scratch) option" where
  "find_chunk [] text s = Some (None, s)"
| "find_chunk ((all, members) # chunks) text s =
     (case regex_set_is_match all text s of
        None \<Rightarrow> None
      | Some (False, s) \<Rightarrow> find_chunk chunks text s
      | Some (True, s) \<Rightarrow>
          (case find_member members text s of
             None \<Rightarrow> None
           | Some (Some pattern, s) \<Rightarrow> Some (Some pattern, s)
           | Some (None, s) \<Rightarrow> find_chunk chunks text s))"

definition matcher_find :: "regex_matcher \<Rightarrow> bytes \<Rightarrow> scratch \<Rightarrow> (bytes option \<times> scratch) option" where
  "matcher_find m text s =
     (case find_chunk (rm_chunks m) text s of
        None \<Rightarrow> None
      | Some (Some pattern, s) \<Rightarrow> Some (Some pattern, s)
      | Some (None, s) \<Rightarrow> find_member (rm_individual m) text s)"

section \<open>Bundling loses no rule\<close>

text \<open>The pattern is valid and occurs in the text.\<close>

definition pattern_found :: "bytes \<Rightarrow> bytes \<Rightarrow> bool" where
  "pattern_found pattern t \<longleftrightarrow> (\<exists>a. parse_pattern pattern = Inr a \<and> found a t)"

definition members_ok :: "(bytes \<times> prog) list \<Rightarrow> bool" where
  "members_ok ms \<longleftrightarrow> (\<forall>(p, re) \<in> set ms. regex_new p = Inr re)"

definition chunk_ok :: "prog option \<times> (bytes \<times> prog) list \<Rightarrow> bool" where
  "chunk_ok c \<longleftrightarrow> members_ok (snd c) \<and> regex_set_new (map fst (snd c)) = Inr (fst c)"

text \<open>The answer of a search over some patterns: one that occurs, or none if none does.\<close>

definition answers :: "bytes set \<Rightarrow> bytes \<Rightarrow> (bytes option \<times> scratch) option \<Rightarrow> bool" where
  "answers ps t r \<longleftrightarrow> (\<exists>m s'. r = Some (m, s') \<and> scratch_ok s' \<and>
     (case m of None \<Rightarrow> \<forall>p \<in> ps. \<not> pattern_found p t | Some p \<Rightarrow> p \<in> ps \<and> pattern_found p t))"

lemma answers_found: "p \<in> ps \<Longrightarrow> pattern_found p t \<Longrightarrow> scratch_ok s \<Longrightarrow> answers ps t (Some (Some p, s))"
  by (simp add: answers_def)

lemma answers_more:
  assumes "\<forall>p \<in> ps. \<not> pattern_found p t" "answers qs t r"
  shows "answers (ps \<union> qs) t r"
proof -
  obtain m s' where "r = Some (m, s')" "scratch_ok s'"
    "case m of None \<Rightarrow> \<forall>p \<in> qs. \<not> pattern_found p t | Some p \<Rightarrow> p \<in> qs \<and> pattern_found p t"
    using assms(2) by (auto simp: answers_def)
  with assms(1) show ?thesis by (cases m) (auto simp: answers_def)
qed

lemma members_answer: "members_ok ms \<Longrightarrow> scratch_ok s \<Longrightarrow> answers (fst ` set ms) t (find_member ms t s)"
proof (induction ms arbitrary: s)
  case Nil
  then show ?case by (simp add: answers_def)
next
  case (Cons m ms)
  obtain p re where m: "m = (p, re)" by (cases m)
  then have "regex_new p = Inr re" using Cons.prems by (simp add: members_ok_def)
  from regex_decides [OF this Cons.prems(2), of t] obtain a s'
    where a: "parse_pattern p = Inr a" "regex_is_match re t s = Some (found a t, s')" "scratch_ok s'" by blast
  have "pattern_found p t \<longleftrightarrow> found a t" using a(1) by (simp add: pattern_found_def)
  with answers_found [of p "fst ` set (m # ms)" t s'] answers_more [of "{p}" t "fst ` set ms"]
    Cons.IH [OF _ a(3)] Cons.prems(1) a show ?case
    by (cases "found a t") (simp_all add: m members_ok_def)
qed

lemma set_answer:
  assumes "chunk_ok c" "scratch_ok s"
  shows "\<exists>s'. regex_set_is_match (fst c) t s = Some (\<exists>p \<in> fst ` set (snd c). pattern_found p t, s') \<and> scratch_ok s'"
proof -
  have "regex_set_new (map fst (snd c)) = Inr (fst c)" using assms(1) by (simp add: chunk_ok_def)
  from regex_set_decides [OF this assms(2), of t] obtain asts s'
    where p: "map parse_pattern (map fst (snd c)) = map Inr asts"
      and r: "regex_set_is_match (fst c) t s = Some (\<exists>a \<in> set asts. found a t, s')" "scratch_ok s'" by blast
  from p have "parse_pattern ` fst ` set (snd c) = Inr ` set asts"
    by (metis list.set_map)
  then have "a \<in> set asts \<longleftrightarrow> Inr a \<in> parse_pattern ` fst ` set (snd c)" for a by auto
  moreover have "(\<exists>p \<in> X. pattern_found p t) \<longleftrightarrow> (\<exists>a. Inr a \<in> parse_pattern ` X \<and> found a t)" for X
    unfolding pattern_found_def image_iff by metis
  ultimately have "(\<exists>p \<in> fst ` set (snd c). pattern_found p t) \<longleftrightarrow> (\<exists>a \<in> set asts. found a t)"
    by (simp only: Bex_def)
  with r show ?thesis by simp
qed

lemma chunks_answer:
  "list_all chunk_ok cs \<Longrightarrow> scratch_ok s \<Longrightarrow> answers (\<Union>c \<in> set cs. fst ` set (snd c)) t (find_chunk cs t s)"
proof (induction cs arbitrary: s)
  case Nil
  then show ?case by (simp add: answers_def)
next
  case (Cons c cs)
  obtain st ms where c: "c = (st, ms)" by (cases c)
  from set_answer [of c s t] Cons.prems obtain s'
    where s': "regex_set_is_match st t s = Some (\<exists>p \<in> fst ` set ms. pattern_found p t, s')" "scratch_ok s'"
    by (auto simp: c)
  have ms: "answers (fst ` set ms) t (find_member ms t s')"
    using members_answer [OF _ s'(2)] Cons.prems(1) by (simp add: c chunk_ok_def)
  show ?case
  proof (cases "\<exists>p \<in> fst ` set ms. pattern_found p t")
    case True
    with ms obtain p s'' where "find_member ms t s' = Some (Some p, s'')" "scratch_ok s''"
      "p \<in> fst ` set ms" "pattern_found p t"
      unfolding answers_def by (metis (no_types, lifting) option.case_eq_if option.collapse)
    with s' True show ?thesis by (auto simp: c intro: answers_found)
  next
    case False
    with s' answers_more [where ps = "fst ` set ms", OF _ Cons.IH [OF _ s'(2)]] Cons.prems(1) show ?thesis
      by (simp add: c)
  qed
qed

lemma bundle_keeps:
  assumes "members_ok ms" "list_all chunk_ok (rm_chunks m)" "members_ok (rm_individual m)"
  shows "list_all chunk_ok (rm_chunks (bundle_up ms m)) \<and> members_ok (rm_individual (bundle_up ms m)) \<and>
    (\<Union>c \<in> set (rm_chunks (bundle_up ms m)). fst ` set (snd c)) \<union> fst ` set (rm_individual (bundle_up ms m)) =
    (\<Union>c \<in> set (rm_chunks m). fst ` set (snd c)) \<union> fst ` set (rm_individual m) \<union> fst ` set ms"
  using assms
proof (induction ms m rule: bundle_up.induct)
  case (1 ms m)
  show ?case
  proof (cases "ms = []")
    case True
    with 1 show ?thesis by (simp add: bundle_up.simps)
  next
    case False
    let ?c = "take SET_CHUNK ms" and ?r = "drop SET_CHUNK ms"
    have ms: "set ms = set ?c \<union> set ?r" by (metis append_take_drop_id set_append)
    have ok: "members_ok ?c" "members_ok ?r" using 1(3) by (auto simp: members_ok_def dest: in_set_takeD in_set_dropD)
    show ?thesis
    proof (cases "regex_set_new (map fst ?c)")
      case (Inl e)
      then have "bundle_up ms m = bundle_up ?r (m\<lparr>rm_individual := rm_individual m @ ?c\<rparr>)"
        using False by (simp add: bundle_up.simps [of ms] Let_def)
      moreover have "members_ok (rm_individual m @ ?c)" using 1(5) ok(1) by (auto simp: members_ok_def)
      ultimately show ?thesis
        using 1(1) [OF False refl refl Inl ok(2)] 1(4) by (simp add: ms image_Un Un_ac)
    next
      case (Inr st)
      then have "bundle_up ms m = bundle_up ?r (m\<lparr>rm_chunks := rm_chunks m @ [(st, ?c)]\<rparr>)"
        using False by (simp add: bundle_up.simps [of ms] Let_def)
      with 1(2) [OF False refl refl Inr] 1(4,5) ok Inr show ?thesis
        by (auto simp: ms image_Un chunk_ok_def)
    qed
  qed
qed

lemma compile_rules_ok: "members_ok (compile_rules patterns)"
  by (auto simp: members_ok_def compile_rules_def List.map_filter_def compile_isolated_def split: sum.splits)

lemma compile_rules_patterns: "fst ` set (compile_rules patterns) = {p \<in> set patterns. \<exists>re. regex_new p = Inr re}"
  by (force simp: compile_rules_def List.map_filter_def compile_isolated_def split: sum.splits)

text \<open>Searching the bundles finds a rule exactly if one of the patterns that compile occurs.\<close>

lemma rules_found:
  assumes "scratch_ok s"
  shows "answers {p \<in> set patterns. \<exists>re. regex_new p = Inr re} t (matcher_find (build_regexes patterns) t s)"
proof -
  let ?m = "build_regexes patterns"
  have m: "list_all chunk_ok (rm_chunks ?m)" "members_ok (rm_individual ?m)"
    and ps: "(\<Union>c \<in> set (rm_chunks ?m). fst ` set (snd c)) \<union> fst ` set (rm_individual ?m) =
      {p \<in> set patterns. \<exists>re. regex_new p = Inr re}"
    using bundle_keeps [OF compile_rules_ok, of "\<lparr>rm_chunks = [], rm_individual = []\<rparr>" patterns]
    by (simp_all add: build_regexes_def members_ok_def compile_rules_patterns)
  from chunks_answer [OF m(1) assms, of t] obtain r s' where
    r: "find_chunk (rm_chunks ?m) t s = Some (r, s')" "scratch_ok s'"
    "case r of None \<Rightarrow> \<forall>p \<in> (\<Union>c \<in> set (rm_chunks ?m). fst ` set (snd c)). \<not> pattern_found p t
     | Some p \<Rightarrow> p \<in> (\<Union>c \<in> set (rm_chunks ?m). fst ` set (snd c)) \<and> pattern_found p t"
    by (auto simp: answers_def)
  show ?thesis
  proof (cases r)
    case None
    with r answers_more [OF _ members_answer [OF m(2) r(2), of t]] show ?thesis
      unfolding ps [symmetric] by (simp add: matcher_find_def)
  next
    case (Some p)
    with r show ?thesis unfolding ps [symmetric] by (simp add: matcher_find_def answers_found)
  qed
qed

end
