(* ===== verification/RegexSamples.thy ===== *)
theory RegexSamples
  imports RegexRules
begin

text \<open>Concrete patterns: \<open>^a|b\<close>, a flag set inside a group, and a flag before an upper case letter.\<close>

definition sample_pattern :: bytes where "sample_pattern = [94, 97, 124, 98]"

definition sample_prog :: prog where
  "sample_prog = \<lparr>pg_insts = [Split 1 4, Start False, Byte 97, Jmp 5, Byte 98, Match], pg_start_anchored = False\<rparr>"

lemma sample_parsed: "parse_pattern sample_pattern = Inr (Alt [Concat [StartAnchor False, Literal 97], Literal 98])"
  by code_simp

lemma sample_compiled: "regex_new sample_pattern = Inr sample_prog"
  by (simp add: regex_new_def compile_pattern_def sample_parsed compile_ast_eq MAX_INSTS_def sample_prog_def)

text \<open>\<open>((?i)a)B\<close>, \<open>(?i:a)B\<close> and \<open>(?i)A\<close>.\<close>

definition leaking_pattern :: bytes where "leaking_pattern = [40, 40, 63, 105, 41, 97, 41, 66]"
definition scoped_pattern :: bytes where "scoped_pattern = [40, 63, 105, 58, 97, 41, 66]"
definition upper_pattern :: bytes where "upper_pattern = [40, 63, 105, 41, 65]"

lemma leaking_parsed: "parse_pattern leaking_pattern = Inr (Concat [Concat [Empty, Literal 97], Literal 98])"
  by code_simp

lemma scoped_parsed: "parse_pattern scoped_pattern = Inr (Concat [Literal 97, Literal 66])"
  by code_simp

lemma upper_parsed: "parse_pattern upper_pattern = Inr (Concat [Empty, Literal 97])"
  by code_simp

lemma leaking_compiled:
  "regex_new leaking_pattern = Inr \<lparr>pg_insts = [Byte 97, Byte 98, Match], pg_start_anchored = False\<rparr>"
  by (simp add: regex_new_def compile_pattern_def leaking_parsed compile_ast_eq MAX_INSTS_def)

lemma upper_compiled: "regex_new upper_pattern = Inr \<lparr>pg_insts = [Byte 97, Match], pg_start_anchored = False\<rparr>"
  by (simp add: regex_new_def compile_pattern_def upper_parsed compile_ast_eq MAX_INSTS_def)

lemma scratch_ok_new: "scratch_ok scratch_new"
  by (simp add: scratch_ok_def scratch_new_def sparse_ok_new)

end
