(* ===== verification/Spec2Isabelle.thy ===== *)
theory Spec2Isabelle
  imports Samples RRset RaftSamples RaftCrash LruRefine Cookie QuicProtect Http2Samples RegexSamples
begin

text \<open>
  A verification library for OnetDNS-server, a DNS server written in Rust.

  \<^bold>\<open>The program.\<close> The server is a workspace of crates under \<open>src/crates\<close> and a binary under
  \<open>src/onetdns-bin\<close>. Bytes from the network are turned into messages by \<open>onetdns-proto\<close>; the layers of
  the binary answer them from filters, caches, authoritative zones, recursion or forwarding, and
  \<open>onetdns-proto\<close> turns the answer into bytes again. Configuration changes are replicated between
  members of a cluster by the Raft state machine of \<open>onetdns-cluster\<close>. Queries may
  arrive over QUIC (\<open>onetdns-quic\<close>) or HTTP/2 (\<open>onetdns-http2\<close>) and are admitted by the access lists and cookies of
  \<open>onetdns-security\<close>; caches and rate limiters keep their entries in the bounded map of \<open>onetdns-core\<close>. This
  library covers the wire format crate, the consensus core, that map, the admission checks, the
  packet layer of QUIC and the HTTP/2 server for DNS over HTTPS.

  \<^bold>\<open>Theories and the code they model.\<close>
  \<^item> \<open>Prelude\<close>: bytes, machine integers, slices, and the shared collections of rules.
  \<^item> \<open>NameMap\<close> (\<open>onetdns-proto/src/name.rs\<close>, \<open>NameMap\<close>): the compression table, an arena with hash
    chains. The locale \<open>offset_table\<close> is its contract with the encoder and is interpreted on the arena.
  \<^item> \<open>Wire\<close> (\<open>wire.rs\<close>): \<open>Reader\<close> as a state-passing reader with errors as values, \<open>Writer\<close> as a record
    with a sticky error, a limit and the compression table.
  \<^item> \<open>Name\<close>, \<open>NameCodec\<close> (\<open>name.rs\<close>): packed names, labels from both ends, text form, canonical keys,
    compressed and uncompressed wire forms. \<open>name_at\<close> is the declarative meaning of a compressed name.
  \<^item> \<open>RData\<close>, \<open>RDataCodec\<close>, \<open>RRset\<close> (\<open>rdata.rs\<close>): record data of every type the source knows, records,
    dynamic-update records without data, service-parameter validation, TTL normalisation.
  \<^item> \<open>Message\<close>, \<open>MessageCodec\<close> (\<open>message.rs\<close>): header, questions, EDNS, whole messages, and the edits
    (padding, keepalive, client subnet).
  \<^item> \<open>Raft\<close> (\<open>onetdns-cluster/src/raft.rs\<close>): one \<open>RaftNode\<close> as a record, every handler as a function from
    node to messages and node. \<open>RaftFrames\<close> states what each operation leaves alone and the contract of
    invariants over operations (locale \<open>event_invariant\<close>); \<open>RaftElection\<close> the cluster as a transition
    system and election safety; \<open>RaftLog\<close> the log invariant; \<open>RaftProgress\<close> timers, batches, replication
    and snapshot transfer.
  \<^item> \<open>RaftStore\<close> (the second half of \<open>raft.rs\<close>): state file, write-ahead log, replay and \<open>persist_at\<close>, with
    the contents of the files after every single write. \<open>RaftDurable\<close> shows that every operation of a node
    asks only for writes the store can make atomically; \<open>RaftCrash\<close> puts the node on its files and lets
    processes crash and start again.
  \<^item> \<open>LruMap\<close> (\<open>onetdns-core/src/lrumap.rs\<close>): the arena with order of use, collision chains and free slots,
    every panic an error value. \<open>LruLists\<close> shows what each pointer operation does; \<open>LruRefine\<close> refines the
    arena to a list of pairs and states the contract of its clients (locale \<open>recency_cache\<close>).
  \<^item> \<open>SipHash\<close>, \<open>Cookie\<close> (\<open>onetdns-security/src/siphash.rs\<close>, \<open>cookie.rs\<close>): the keyed hash and DNS cookies.
  \<^item> \<open>IpNet\<close> (\<open>onetdns-core/src/ipnet.rs\<close>, \<open>onetdns-security/src/acl.rs\<close>, \<open>subnet.rs\<close>): prefixes, access lists,
    aggregation keys.
  \<^item> \<open>QuicFrame\<close>, \<open>QuicCodec\<close> (\<open>onetdns-quic/src/varint.rs\<close>, \<open>frame.rs\<close>): integers and frames. \<open>QuicPacket\<close>,
    \<open>QuicProtect\<close> (\<open>packet.rs\<close>, \<open>protect.rs\<close>): headers, packet numbers, packet and header protection.
  \<^item> \<open>Huffman\<close>, \<open>HuffmanCodec\<close> (\<open>onetdns-http2/src/huffman.rs\<close>): the code table, the trie built from it,
    decoder and encoder. \<open>Hpack\<close>, \<open>HpackCodec\<close> (\<open>hpack.rs\<close>): integers, strings, static and dynamic table,
    the decoder of header blocks and the encoder of responses.
  \<^item> \<open>Http2Frame\<close> (\<open>frame.rs\<close>, \<open>wire.rs\<close>): frame headers, reading and writing frames, padding, header
    fields. \<open>Http2Request\<close>, \<open>Http2RequestSpec\<close> (\<open>server.rs\<close>): header rules, path, base64url, a request and its
    answer.
  \<^item> \<open>Http2Server\<close> (\<open>server.rs\<close>): one connection as a record, each kind of frame as a handler,
    \<open>flush_pending\<close> and the serving loop. \<open>Http2Invariant\<close> shows that every handler keeps the limits;
    \<open>Http2Run\<close> has the reachable states (\<open>conn_reach\<close>) and the contract of invariants over them (locale
    \<open>connection_invariant\<close>, interpreted for the limits and for the credit); \<open>Http2Session\<close> follows whole
    sessions.
  \<^item> \<open>Regex\<close>, \<open>RegexParser\<close> (\<open>onetdns-filter/src/regex.rs\<close>): the tree of a pattern, the compiler with
    back-patching, the machine over sparse sets, and the parser. \<open>RegexCompile\<close> gives trees their meaning and
    shows what the compiler emits; \<open>RegexMachine\<close> shows that the code of a tree spells its meaning;
    \<open>RegexRun\<close> that the machine follows all threads. \<open>RegexRules\<close> (\<open>engine.rs\<close>, \<open>RegexMatcher\<close>): the bundles of
    rules.
  \<^item> \<open>Samples\<close>, \<open>RaftSamples\<close>, \<open>Http2Samples\<close>, \<open>RegexSamples\<close>: concrete messages, nodes, connections and patterns for the witnesses.

  \<^bold>\<open>What is shown.\<close> The parsers accept exactly a declarative format, the encoder's output is read back,
  optimised routines equal their plain counterparts, sizes stay within limits, and errors stick. For
  Raft: at most one leader per term over any execution with message loss, reordering, duplication and
  restarts; committed entries are never rewritten by any operation; votes are durable before they are
  sent; replication answers, batches, timers and snapshot transfer do what the protocol assumes.
  A write of the Raft state is atomic under crashes; a crashed member reads back a state the cluster model
  accounts for, and can always start again. The bounded map never panics and behaves as a list
  in order of use for every digest function. QUIC frames and protected packets are read back as they
  were sent, hostile frames stay within bounds; cookies are accepted exactly in their time window and
  for their address; denied networks stay denied.
  Over HTTP/2 a POST query gets the handler's answer end to end, accepted requests are unambiguous,
  every reachable connection is within its limits and sends no more than the client's credit, and the
  header and base64url decoders accept exactly their formats.
  The regular expressions of the filter match exactly what their syntax trees mean.
  The last numbered section states behaviours the code does not rule out; it is followed by further facts
  about the components.

  \<^bold>\<open>Integers, fuel, effects.\<close> Bytes and the 16- and 32-bit fields of messages are words. Raft's 64-bit
  counters are natural numbers with the checked and saturating additions of the source written out, so
  that overflow is a branch. Loops over buffers are recursive functions with termination proofs; the
  chain walk of \<open>NameMap::get\<close> has one unit of fuel per arena entry, which the refinement shows to be
  enough since chains visit decreasing indexes; the chain walks of the bounded map have one unit per
  slot, and running out would be the error \<open>Endless\<close>, which the refinement excludes. Hash functions, the
  ciphers of QUIC (with the hypothesis \<open>aead_ok\<close>) and SHA-256 (with \<open>sha_ok\<close>) are parameters. Writing the Raft
  state is decided by an environment function, so every failure is covered; two ghost fields record the
  writes, and \<open>restart_states\<close> is what a restart may read: the last write that succeeded or one that
  failed. An HTTP/2 connection reads from a list of bytes and appends the frames it sends to \<open>cn_sent\<close>; a
  write that fails ends the loop, and what was sent is then a prefix of it. The handler of queries is a
  function of the number of the call, the query and the client name, so it may answer equal queries
  differently. The hash maps of a connection are association lists, and \<open>conn_reach\<close> has a rule that
  reorders them, so nothing shown of reachable states depends on the order of iteration. Sizes are those of a 64-bit machine.
  The pattern parser has one unit of fuel per level of nesting that its depth limit allows and loops one
  per byte; running out would be the error \<open>Endless\<close>, which is shown not to occur. The work list of the
  machine is a recursive function that ends because the set of visited instructions grows.

  \<^bold>\<open>Not modelled.\<close> Logging, allocation strategy and the other crates (listed in the manifest): sockets and
  runtimes, TLS, QUIC connections, HTTP/1.1 and the HTTP/2 client, DNSSEC cryptography, storage back ends, configuration and
  control interfaces, DHCP, the domain lists of filters, recursion and forwarding. The token bucket of the rate limiter counts
  in floating point and is left out; addresses are not read from text.

  \<^bold>\<open>Plan.\<close> Next come the HTTP/1.1 path of \<open>server.rs\<close>, the HTTP/2 client (\<open>client.rs\<close>), QUIC transport
  parameters and address validation, the filter tables, and zone lookup.
\<close>

unbundle bit_operations_syntax

section \<open>DNS messages on the wire\<close>

text \<open>
  C1. Encoding with name compression loses nothing. Whatever \<open>try_encode\<close> returns for a message of
  well-formed records is parsed back to the same header and, section by section, the same records;
  names may differ in letter case only, and the additional section has the OPT record the encoder
  wrote for an extended response code.
\<close>

theorem message_decode_encode:
  assumes "message_ok m" and "try_encode hb m = Inr bs"
  shows "\<exists>m'. message_parse bs = Inr m' \<and> same_message m m'"
  using assms by (rule message_roundtrip)

theorem message_decode_encode_witness:
  "\<exists>bs m'. try_encode (\<lambda>_. 0) sample_message = Inr bs \<and> message_parse bs = Inr m' \<and>
     same_message sample_message m'"
  using message_decode_encode [OF sample_ok] sample_encodes [of "\<lambda>_. 0"] by blast

section \<open>Raft: elections and committed entries\<close>

text \<open>
  C2. Election safety. In any execution of a cluster whose network may lose, repeat, delay and
  reorder messages and whose members may crash and restart from their disk, no two members ever
  led in the same term.
\<close>

theorem election_safety:
  assumes "(cluster_step members)\<^sup>*\<^sup>* (cluster_init members env) c"
    and "(i, t) \<in> cl_elected c" and "(j, t) \<in> cl_elected c"
  shows "i = j"
  using election_inv_safe [OF election_inv_reachable [OF assms(1)] assms(2,3)] .

theorem election_safety_witness:
  "{j. (j, 1) \<in> cl_elected solo_cluster} = {1}"
  using election_safety [OF solo_cluster_reachable solo_cluster_elected] solo_cluster_elected by auto



text \<open>
  C4. Durability is atomic. However far the writes of one \<open>persist_at\<close> got when the process died, a
  start reads back either the state before or the state after, whole, and can go on from there; once
  \<open>persist_at\<close> has returned it reads the state after. Conditions: the node moved on as Raft allows,
  and SHA-256 has not collided on a leftover log.
\<close>

theorem persist_is_atomic:
  assumes "sha_ok sha" and "stored sha old files st" and "state_ok view"
    and "rs_snapshot_dirty st \<or> may_follow old view (min (rs_durable_log_len st) (length (st_log view)))"
    and "no_collision sha view files" and "first_frame_fits sha st view"
    and "persist_at sha st view files = (writes, res)"
  shows "(\<forall>g \<in> set (files # writes). \<exists>ld. load_state sha g = Inr ld \<and> ld_state ld \<in> {old, view} \<and>
      stored sha (ld_state ld) g (store_of_loaded ld)) \<and>
    (\<forall>st'. res = Inr st' \<longrightarrow> stored sha view (List.last (files # writes)) st')"
  using persist_at_atomic [OF assms] restart_from_recoverable [OF assms(1)] by blast

theorem persist_is_atomic_witness:
  "\<exists>writes st'. persist_at zero_sha new_store voted_state no_files = (writes, Inr st') \<and>
     stored zero_sha voted_state (List.last (no_files # writes)) st'"
proof -
  obtain writes st' where p: "persist_at zero_sha new_store voted_state no_files = (writes, Inr st')"
    using voted_state_persists by blast
  have "may_follow stable_default voted_state (min (rs_durable_log_len new_store) (length (st_log voted_state)))"
    by (simp add: may_follow_def voted_state_def stable_default_def vote_unchanged_def stable_base_def)
  moreover have "no_collision zero_sha voted_state no_files" by (simp add: no_collision_def no_files_def)
  ultimately show ?thesis
    using persist_is_atomic [OF zero_sha_ok new_store_stored voted_state_ok(1) _ _ voted_frame_fits p] p by blast
qed





section \<open>DNS over HTTPS\<close>

text \<open>
  C7. End to end over HTTP/2: a client that sends the preface, its settings, an acceptable POST request and
  a non-empty query gets, after the server's settings and the returned credit, one HEADERS frame that
  decodes to the answer's headers and DATA frames that together are the answer of the handler, the last
  one ending the stream; the connection then closes in order.
\<close>

theorem h2_post_is_answered:
  assumes "header_size hs \<le> DEFAULT_MAX_FRAME" and "q \<noteq> []" and "length q \<le> DEFAULT_MAX_FRAME"
    and "valid_doh_request_headers hs (length q) = Inr (as_bytes ''POST'', target)"
    and "match_doh_path (hd (split_on 63 target)) path = Some client_id"
    and "handler 0 q client_id = Inr answer" and "da_body answer \<noteq> []" and small: "length (da_body answer) \<le> MAX_H2_RESPONSE"
  shows "\<exists>c fs block. serve_doh path handler (post_session hs q) = (Done, c) \<and>
    cn_sent c = greeting @ credits q @ [(FT_HEADERS, FLAG_END_HEADERS, 1, block)] @ fs \<and>
    decode_headers (new_decoder 4096) block = (new_decoder 4096, Some (response_headers (Dns answer))) \<and>
    body_frames 1 (da_body answer) fs"
proof -
  obtain c fs where "serve_doh path handler (post_session hs q) = (Done, c)" "body_frames 1 (da_body answer) fs"
    "cn_sent c = greeting @ credits q @
      [(FT_HEADERS, FLAG_END_HEADERS, 1, encode_response (response_headers (Dns answer)))] @ fs"
    using post_answered [where handle = handler and client_id = client_id, OF assms] by blast
  then show ?thesis using response_decoded [OF small] by blast
qed

theorem h2_post_is_answered_witness:
  "\<exists>c fs block. serve_doh (as_bytes ''/dns-query'') echo_handler (post_session sample_request [1, 2]) = (Done, c) \<and>
    cn_sent c = greeting @ credits [1, 2] @ [(FT_HEADERS, FLAG_END_HEADERS, 1, block)] @ fs \<and>
    decode_headers (new_decoder 4096) block =
      (new_decoder 4096, Some (response_headers (Dns \<lparr>da_body = [1, 2], da_max_age = 60\<rparr>))) \<and>
    body_frames 1 [1, 2] fs"
proof -
  have route: "match_doh_path (hd (split_on 63 (as_bytes ''/dns-query''))) (as_bytes ''/dns-query'') = Some None"
    by code_simp
  show ?thesis
    using h2_post_is_answered [where hs = sample_request and q = "[1, 2]" and path = "as_bytes ''/dns-query''"
        and handler = echo_handler and client_id = None and answer = "\<lparr>da_body = [1, 2], da_max_age = 60\<rparr>",
        OF _ _ _ sample_request_accepted route] sample_request_size
    by (simp add: echo_handler_def DEFAULT_MAX_FRAME_def MAX_H2_RESPONSE_def)
qed

text \<open>
  C8. Whatever frames a client sends, whatever the handler answers and in whatever order the hash maps are
  walked, a connection stays within its limits: concurrent streams, buffered headers, request bodies,
  waiting answers, the continuation block, the flow-control windows and the dynamic table; and the three
  tables of streams agree on which streams exist.
\<close>

theorem h2_connection_within_limits:
  assumes "conn_reach path handler fs c"
  shows "concurrent_streams c \<le> MAX_H2_STREAMS \<and>
    stream_ids (cn_send_stream_windows c) = stream_ids (cn_streams c) \<union> stream_ids (cn_pending c) \<and> stream_ids (cn_streams c) \<inter> stream_ids (cn_pending c) = {} \<and>
    total_headers c \<le> MAX_H2_BUFFERED_HEADERS \<and> buffered_requests c \<le> MAX_H2_BUFFERED_REQUESTS \<and>
    buffered_responses c \<le> MAX_H2_BUFFERED_RESPONSES \<and> length (cn_cont_block c) \<le> MAX_H2_HEADER_BLOCK \<and>
    (\<forall>(sid, st) \<in> set (cn_streams c). length (st_body st) \<le> MAX_H2_BODY \<and> st_recv_window st = INITIAL_WINDOW) \<and>
    (\<forall>(sid, w) \<in> set (cn_send_stream_windows c). - MAX_WINDOW \<le> w \<and> w \<le> MAX_WINDOW) \<and>
    header_size (dynamic (cn_dec c)) \<le> 4096"
proof -
  have ok: "conn_ok c" using limits.reached [OF assms] .
  then have "\<forall>(sid, w) \<in> set (cn_send_stream_windows c). - MAX_WINDOW \<le> w \<and> w \<le> MAX_WINDOW"
    by (fastforce simp: conn_ok_def core_ok_def windows_ok_def window_in_def)
  with ok show ?thesis
    by (auto simp: conn_ok_def core_ok_def tables_ok_def buffers_ok_def cont_ok_def dec_ok_def decoder_ok_def stream_ok_def)
qed

theorem h2_connection_within_limits_witness:
  "concurrent_streams sample_conn \<le> MAX_H2_STREAMS \<and> buffered_requests sample_conn \<le> MAX_H2_BUFFERED_REQUESTS \<and>
    length (cn_streams sample_conn) = 1 \<and> header_size (dynamic (cn_dec sample_conn)) \<le> 4096"
  using h2_connection_within_limits [OF sample_conn_reached] by (simp add: sample_conn_def session_conn_def)

text \<open>
  C9. Flow control of the connection is exact: at every moment the bytes of DATA sent plus the window that is
  left equal the initial window plus all the client granted, and the window is not negative, so the server
  never sends more than it was allowed.
\<close>

theorem h2_data_within_credit:
  assumes "conn_reach path handler fs c"
  shows "int (data_sent c) + cn_send_conn_window c = conn_credit fs \<and> 0 \<le> cn_send_conn_window c"
  using credit.reached [OF assms] by (simp add: credit_ok_def conn_ok_def core_ok_def windows_ok_def)

theorem h2_data_within_credit_witness:
  "int (data_sent sample_conn) + cn_send_conn_window sample_conn = conn_credit sample_frames \<and> conn_credit sample_frames = 65535"
  using h2_data_within_credit [OF sample_conn_reached]
  by (simp add: sample_frames_def conn_credit_def frame_credit_def frame_types INITIAL_WINDOW_def)

section \<open>The bounded map\<close>

text \<open>
  C10. The arena with its two kinds of links refines a list of pairs, most recently used first. For every
  digest function, capacity below the sentinel and sequence of operations, none panics or walks a
  chain forever, every result is the one the list gives, and the list stays within the capacity. The
  flags \<open>rooms\<close> matter only to insertions whose allocation fails.
\<close>

theorem lru_refines_recency_list:
  fixes h :: "'k \<Rightarrow> u32" and ps :: "('k, 'v) lru_op list"
  assumes "max cap 1 < NIL"
  shows "\<exists>m0 rs m rooms. lru_new h cap = Inr m0 \<and> lru_run ps m0 = Inr (rs, m) \<and>
    length rooms = length ps \<and> (\<forall>i < length ps. \<not> may_lack_memory (ps ! i) \<longrightarrow> rooms ! i) \<and>
    list_run (max cap 1) (zip rooms ps) [] = (rs, lru_items m) \<and> length (lru_items m) \<le> max cap 1"
proof -
  obtain m0 :: "('k, 'v) lru_map"
    where m0: "lru_new h cap = Inr m0" "lru_inv m0" "lru_items m0 = []" "lm_cap m0 = max cap 1"
    by (rule lru_new_ok [OF assms])
  from lru_run_refines [OF m0(2), of ps] obtain rs m rooms
    where "lru_run ps m0 = Inr (rs, m)" "length rooms = length ps"
      "\<forall>i < length ps. \<not> may_lack_memory (ps ! i) \<longrightarrow> rooms ! i"
      "list_run (lm_cap m0) (zip rooms ps) (lru_items m0) = (rs, lru_items m)" "lru_inv m" "lm_cap m = lm_cap m0"
    by blast
  with m0 lru_inv_items(2) [of m] show ?thesis by metis
qed

theorem lru_refines_recency_list_witness:
  "\<exists>m0 rs m rooms. lru_new (\<lambda>k :: nat. 0) 2 = Inr m0 \<and>
     lru_run [OpPut True 1 ''a'', OpPut True 2 ''b'', OpGet 1, OpPut True 3 ''c''] m0 = Inr (rs, m) \<and>
     list_run 2 (zip rooms [OpPut True 1 ''a'', OpPut True 2 ''b'', OpGet 1, OpPut True 3 ''c'']) [] = (rs, lru_items m)"
proof -
  have "max 2 1 < NIL" by (simp add: NIL_def)
  from lru_refines_recency_list [OF this, of "\<lambda>k :: nat. 0"
      "[OpPut True 1 ''a'', OpPut True 2 ''b'', OpGet 1, OpPut True 3 ''c'']"]
  show ?thesis unfolding max_def by auto
qed

text \<open>
  C11. What a cache in order of use is for: after a \<open>put\<close>, any reads and writes that use fewer other keys
  than the capacity leave the entry in place with its value.
\<close>

theorem lru_keeps_recent:
  assumes "lru_inv m" and "lru_put True k v m = Inr m1"
    and "card (accessed ` set as - {k}) < lm_cap m" and "\<forall>w. Write k w \<notin> set as"
  shows "\<exists>m2. perform lru_get (lru_put True) as m1 = Inr m2 \<and> lru_peek k m2 = Inr (Some v)"
  by (rule lru.recent_entry_kept [OF assms])

theorem lru_keeps_recent_witness:
  "\<exists>m m1 m2. lru_new (\<lambda>k :: nat. 0) 3 = Inr m \<and> lru_put True 1 ''a'' m = Inr m1 \<and>
     perform lru_get (lru_put True) [Write 2 ''b'', Read 1, Write 3 ''c'', Write 2 ''d''] m1 = Inr m2 \<and>
     lru_peek 1 m2 = Inr (Some ''a'')"
proof -
  obtain m :: "(nat, string) lru_map"
    where m: "lru_new (\<lambda>k. 0) 3 = Inr m" "lru_inv m" "lru_items m = []" "lm_cap m = max 3 1"
    by (rule lru_new_ok [of 3 "\<lambda>k. 0"]) (simp add: NIL_def)
  obtain m1 room where m1: "lru_put True 1 ''a'' m = Inr m1"
    by (rule lru_put_ok [OF m(2), of True 1 "''a''"])
  from lru_keeps_recent [OF m(2) m1, of "[Write 2 ''b'', Read 1, Write 3 ''c'', Write 2 ''d'']"] m(1,4) m1
  show ?thesis by (auto simp: insert_Diff_if card_insert_if)
qed

section \<open>Filter rules\<close>

text \<open>
  C12. The regular expression engine is exact. Whatever earlier matches left in the scratch sets of the thread,
  running a compiled pattern never leaves a vector, ends, and answers yes exactly if the tree that the
  pattern spells spans some part of the text; the scratch sets are then fit for the next match. The
  optimisation for anchored patterns and the wrapping generation counters make no difference.
\<close>

theorem regex_matches_exactly:
  assumes "regex_new pattern = Inr p" and "scratch_ok s"
  shows "\<exists>ast s'. parse_pattern pattern = Inr ast \<and> scratch_ok s' \<and>
    regex_is_match p input s = Some (\<exists>i j. i \<le> length input \<and> (i, j) \<in> sem input ast, s')"
  using regex_decides [OF assms, of input] by (auto simp: found_def)

theorem regex_matches_exactly_witness:
  "\<exists>s'. scratch_ok s' \<and> regex_is_match sample_prog [99, 98] scratch_new = Some (True, s')"
proof -
  have "(1, 2) \<in> sem [99, 98] (Alt [Concat [StartAnchor False, Literal 97], Literal 98])" by simp
  then have "\<exists>i j. i \<le> length [99, 98 :: u8] \<and> (i, j) \<in> sem [99, 98] (Alt [Concat [StartAnchor False, Literal 97], Literal 98])"
    by (intro exI [of _ 1] exI [of _ 2]) simp
  then show ?thesis
    using regex_matches_exactly [OF sample_compiled scratch_ok_new, of "[99, 98]"] unfolding sample_parsed by auto
qed

text \<open>
  C13. Bundling rules into sets changes nothing: searching the bundles returns a pattern that occurs in the
  text, or nothing if none of the patterns that compile does, whichever bundles were too large.
\<close>

theorem regex_rules_find_any:
  assumes "scratch_ok s"
  shows "\<exists>hit s'. matcher_find (build_regexes patterns) input s = Some (hit, s') \<and> scratch_ok s' \<and>
    (case hit of
       None \<Rightarrow> \<forall>p \<in> set patterns. \<forall>re ast. regex_new p = Inr re \<and> parse_pattern p = Inr ast \<longrightarrow> \<not> found ast input
     | Some p \<Rightarrow> p \<in> set patterns \<and> (\<exists>ast. parse_pattern p = Inr ast \<and> found ast input))"
proof -
  obtain hit s' where "matcher_find (build_regexes patterns) input s = Some (hit, s')" "scratch_ok s'"
    "case hit of None \<Rightarrow> \<forall>p \<in> {p \<in> set patterns. \<exists>re. regex_new p = Inr re}. \<not> pattern_found p input
     | Some p \<Rightarrow> p \<in> {p \<in> set patterns. \<exists>re. regex_new p = Inr re} \<and> pattern_found p input"
    using rules_found [OF assms, of patterns input] by (auto simp: answers_def)
  then show ?thesis by (cases hit) (auto simp: pattern_found_def)
qed

theorem regex_rules_find_any_witness:
  "\<exists>s'. matcher_find (build_regexes [sample_pattern]) [98] scratch_new = Some (Some sample_pattern, s')"
proof -
  let ?ast = "Alt [Concat [StartAnchor False, Literal 97], Literal 98]"
  have "found ?ast [98]" by (auto simp: found_def)
  then show ?thesis
    using regex_rules_find_any [OF scratch_ok_new, of "[sample_pattern]" "[98]"] sample_parsed sample_compiled
    by (auto split: option.splits)
qed

section \<open>Parsers accept exactly the format\<close>

text \<open>
  C14. \<open>Name::parse\<close> decides the declarative format: it accepts a name exactly if labels and strictly
  backward pointers spell one within the length, jump and reading limits, and it then returns those
  labels and stops right after the name's own bytes.
\<close>

theorem name_parse_exact:
  "name_parse r = (Inr n, r') \<longleftrightarrow>
   (\<exists>q ls j. name_at {} (rd_buf r) (rd_pos r) q ls j \<and> labels_ok ls \<and> j \<le> MAX_JUMPS \<and>
      q \<le> rd_limit r \<and> n = name_of ls \<and> r' = r\<lparr>rd_pos := q\<rparr>)"
  by (rule name_parse_iff)


text \<open>
  C16. The compression table refines a finite map: after \<open>clear\<close>, whatever entries an earlier message
  left in the arena, looking up a key returns the offset of the latest insertion of that key and
  nothing else, for every hash function.
\<close>

theorem name_table_refines_map:
  "name_map_get (fold (\<lambda>(k, v) t. name_map_insert t k v) kvs (name_map_clear t)) = map_of (rev kvs)"
proof -
  have "name_map_get (name_map_clear t) = Map.empty"
    using name_map_inv_clear by (intro nm.emp_get) (simp_all add: name_map_is_empty_def name_map_clear_def)
  then show ?thesis using nm.get_inserts [OF name_map_inv_clear] by simp
qed

text \<open>
  C17. Whatever sequence of operations is run on a writer with a limit, the buffer stays within the
  limit, the limit within the DNS maximum, and the compression table keeps its invariant.
\<close>

theorem writer_stays_in_bounds:
  assumes "writer_step\<^sup>*\<^sup>* (writer_with_limit hb n) w"
  shows "length (wr_buf w) \<le> wr_limit w \<and> wr_limit w \<le> MAX_DNS_WIRE_LEN \<and> name_map_inv (wr_names w)"
  using writer_steps_wf [OF assms writer_with_limit_wf] by (simp add: writer_wf_def)

theorem writer_stays_in_bounds_witness:
  "let w = push_u16 (push_u8 (writer_with_limit (\<lambda>_. 0) 2) 1) 2
   in length (wr_buf w) \<le> wr_limit w \<and> wr_limit w \<le> MAX_DNS_WIRE_LEN \<and> name_map_inv (wr_names w)"
proof -
  have "writer_step\<^sup>*\<^sup>* (writer_with_limit (\<lambda>_. 0) 2) (push_u16 (push_u8 (writer_with_limit (\<lambda>_. 0) 2) 1) 2)"
    by (rule rtranclp.rtrancl_into_rtrancl [OF r_into_rtranclp]) (rule writer_step.intros)+
  from writer_stays_in_bounds [OF this] show ?thesis by (simp add: Let_def)
qed

text \<open>
  C18. Printing a name in master-file form, with its escapes, and reading it back gives the lower-cased
  name, for every byte a label may contain.
\<close>

theorem name_text_roundtrip:
  assumes "name_wf n"
  shows "from_str (to_master_lower n) = Inr (to_ascii_lower_name n)"
  using assms by (auto elim!: name_wfE simp: from_str_to_master_lower to_ascii_lower_name_of)

theorem name_text_roundtrip_witness:
  "from_str (to_master_lower (name_of [[65, 46], [98]])) = Inr (to_ascii_lower_name (name_of [[65, 46], [98]]))"
  by (rule name_text_roundtrip [OF name_wf_name_of, OF sample_labels(1)])

section \<open>Raft: votes, replication, snapshots\<close>

text \<open>
  C19. The invariant the source states at its head: a positive vote leaves the node only after term and
  vote are on its disk.
\<close>

theorem vote_is_durable_before_reply:
  assumes "apply_event disk ev n = (outs, n')" and "candidacy_ok n"
    and "\<lparr>out_to = c, out_msg = RequestVoteResp t True\<rparr> \<in> set outs"
  shows "rn_current_term n' = t \<and> rn_voted_for n' = Some c \<and>
    (\<not> rn_storage n' \<or> (\<forall>s \<in> restart_states n'. st_current_term s = t \<and> st_voted_for s = Some c))"
  using event_ok [OF assms(1,2)] assms(3) by (auto simp: election_ok_def vote_kept_def firm_def)

theorem vote_is_durable_before_reply_witness:
  "let n' = snd (apply_event good_disk (Receive 2 (RequestVote 1 2 0 0)) fresh_voter)
   in rn_current_term n' = 1 \<and> rn_voted_for n' = Some 2"
  using vote_is_durable_before_reply [of good_disk "Receive 2 (RequestVote 1 2 0 0)" fresh_voter _ _ 2 1,
      OF surjective_pairing fresh_voter_ok] fresh_voter_reply by (simp add: Let_def)

text \<open>
  C20. A positive answer to an \<open>AppendEntries\<close> means what the leader concludes from it: the follower
  agreed at the preceding index and holds every entry of the message.
\<close>

theorem accepted_append_is_held:
  assumes "handle_append disk t l pi pt es c n = (outs, n')" and "accepts outs"
    and "snapshot_index n < U64_MAX" and "pi + length es \<le> U64_MAX"
  shows "list_all (holds n') es \<and> t = rn_current_term n \<and> pi \<le> last_index n \<and> term_at n pi = pt"
  using assms by (rule handle_append_accepts)

theorem accepted_append_is_held_witness:
  "list_all (holds (snd (handle_append good_disk 2 2 1 1 [\<lparr>le_term = 2, le_index = 2, le_data = [9]\<rparr>] 0 stale_follower)))
     [\<lparr>le_term = 2, le_index = 2, le_data = [9]\<rparr>]"
proof -
  let ?es = "[\<lparr>le_term = 2, le_index = 2, le_data = [9]\<rparr>]"
  have "accepts (fst (handle_append good_disk 2 2 1 1 ?es 0 stale_follower))"
    by (simp add: handle_append_def Let_def MAX_APPEND_ENTRIES_def MAX_ENTRY_BYTES_def MAX_APPEND_BYTES_def
        stale_follower_fields stale_follower_log last_index_def term_at_def snapshot_index_def sat_add_def U64_MAX_def
        finish_append_def MAX_LOG_ENTRIES_def persist_def accepts_def append_response_def)
  moreover have "snapshot_index stale_follower < U64_MAX"
    by (simp add: snapshot_index_def stale_follower_fields U64_MAX_def)
  ultimately show ?thesis
    using accepted_append_is_held [OF surjective_pairing, of good_disk 2 2 1 1 ?es 0 stale_follower]
    by (simp add: U64_MAX_def)
qed



text \<open>
  C22. Sending a snapshot in chunks completes: for a snapshot of at most \<open>j + 1\<close> chunks, within
  \<open>j + 1\<close> exchanges of chunk and answer the follower has it pending, byte for byte.
\<close>

theorem snapshot_transfer_completes:
  assumes "receiving peer s 0 ldr fol" and "length (sn_data s) \<le> Suc j * SNAPSHOT_CHUNK_BYTES"
  shows "\<exists>i \<le> Suc j. pending_snapshot (snd ((exchange peer ^^ i) (ldr, fol))) = Some s"
  using exchanges_deliver [OF assms(1)] assms(2) by simp

theorem snapshot_transfer_completes_witness:
  "\<exists>i \<le> 1. pending_snapshot (snd ((exchange 2 ^^ i)
     (compacted_voter\<lparr>rn_role := Leader\<rparr>, fresh_voter\<lparr>rn_current_term := 4\<rparr>))) = Some \<lparr>sn_index = 5, sn_term = 4, sn_data = [1]\<rparr>"
proof -
  have "receiving 2 \<lparr>sn_index = 5, sn_term = 4, sn_data = [1]\<rparr> 0 (compacted_voter\<lparr>rn_role := Leader\<rparr>) (fresh_voter\<lparr>rn_current_term := 4\<rparr>)"
    by (simp add: receiving_def compacted_voter_def fresh_voter_def from_stable_def stable_default_def MAX_SNAPSHOT_BYTES_def)
  from snapshot_transfer_completes [OF this, of 0] show ?thesis by (simp add: SNAPSHOT_CHUNK_BYTES_def)
qed

text \<open>
  C23. The state file is not trusted: whatever bytes it holds, a state that decodes has a contiguous log
  of bounded entries behind a well-formed snapshot, and ordered indexes.
\<close>

theorem decoded_state_wellformed:
  assumes "decode_state sha bs = Inr s"
  shows "decoded_ok s"
  using assms by (rule decode_state_sound)

theorem decoded_state_wellformed_witness:
  "\<exists>bs s. decode_state zero_sha bs = Inr s \<and> decoded_ok s"
  using decode_encode_state(1) [OF zero_sha_ok voted_state_ok(1) voted_state_encodes] decoded_state_wellformed by blast

text \<open>
  C24. A node that has just reset its timer and hears nothing stands for election, or stops for good,
  within \<open>election_timeout_ceiling\<close> ticks, whatever its random jitter.
\<close>

theorem election_timer_fires:
  assumes "rn_fatal n = None" and "rn_role n \<noteq> Leader" and "election_base (rn_cfg n) \<le> U32_MAX"
  shows "\<exists>k \<le> election_timeout_ceiling n.
    moved_on (rn_current_term n) (ticks k disk (reset_election_timeout n))"
proof -
  let ?m = "reset_election_timeout n"
  note b = reset_timeout_bounds [OF assms(3)]
  have c: "election_timeout_ceiling n \<le> U32_MAX" "2 \<le> election_timeout_ceiling n"
    using b by (auto simp: election_timeout_ceiling_def)
  obtain k where k: "election_timeout_ceiling n = Suc k" using c(2) by (cases "election_timeout_ceiling n") auto
  have "rn_election_elapsed ?m = 0" by (simp add: reset_election_timeout_def next_random_def Let_def)
  then show ?thesis
    using ticks_elect [of ?m k disk] assms b c k by simp
qed

theorem election_timer_fires_witness:
  "\<exists>k \<le> 4. moved_on 0 (ticks k good_disk (reset_election_timeout solo))"
  using election_timer_fires [of solo good_disk]
  by (simp add: solo_eq quick_def U32_MAX_def election_timeout_ceiling_def)

section \<open>HTTP headers and flow control\<close>

text \<open>
  C25. The Huffman decoder, which walks a trie built from the table, is exact: it returns a byte string if
  and only if the bits of the input are the code words of its bytes followed by at most seven one bits.
\<close>

theorem huffman_decodes_exactly:
  "huffman_decode bs = Some out \<longleftrightarrow>
   (\<exists>k \<le> 7. bytes_bits bs = concat (map (\<lambda>b. code_bits (CODES ! unat b)) out) @ replicate k True)"
  unfolding huffman_decode_exact by (simp add: comp_def symbol_code_def)

text \<open>
  C26. A header block cannot be used as an amplifier: whatever bytes it holds, the dynamic table stays
  within the size that was allowed, its recorded size stays exact, and decoded headers are at most
  \<open>MAX_DECODED_HEADER_LIST\<close> bytes as counted by RFC 7541.
\<close>

theorem hpack_decoder_bounded:
  assumes "decoder_ok d" and "decode_headers d block = (d', result)"
  shows "decoder_ok d' \<and> header_size (dynamic d') \<le> allowed_max_size d \<and>
    (\<forall>hs. result = Some hs \<longrightarrow> header_size hs \<le> MAX_DECODED_HEADER_LIST)"
  using decode_block_ok [OF assms(1), of "[]" block 0 None] assms(2)
  by (auto simp: decode_headers_def hpack_result_ok_def decoder_ok_def)

theorem hpack_decoder_bounded_witness:
  "decoder_ok (fst (decode_headers (new_decoder 4096) indexing_block)) \<and>
    snd (decode_headers (new_decoder 4096) indexing_block) = Some [([97], [98])]"
proof
  show "decoder_ok (fst (decode_headers (new_decoder 4096) indexing_block))"
    using hpack_decoder_bounded [of "new_decoder 4096" indexing_block] new_decoder_ok by (metis prod.collapse)
  show "snd (decode_headers (new_decoder 4096) indexing_block) = Some [([97], [98])]"
    using indexing_block_decoded by simp
qed

text \<open>
  C27. A request that passes the header checks is unambiguous: one method, path, scheme and authority, before
  every other field; no connection-specific field; a host, if given, equal to the authority; a content
  length, if given, equal to the length of the body; and a POST says it carries a DNS message.
\<close>

theorem doh_request_unambiguous:
  assumes "valid_doh_request_headers hs n = Inr (method, path)"
  shows "(\<forall>(k, v) \<in> set hs. valid_header_field k v \<and> k \<notin> set hop_by_hop) \<and> well_ordered False hs \<and>
    field_values '':method'' hs = [method] \<and> field_values '':path'' hs = [path] \<and>
    field_values '':scheme'' hs = [as_bytes ''https''] \<and>
    (\<exists>a. a \<noteq> [] \<and> field_values '':authority'' hs = [a] \<and> field_values ''host'' hs \<in> {[], [a]}) \<and>
    map parse_usize (field_values ''content-length'' hs) \<in> {[], [Some n]} \<and>
    (method = as_bytes ''POST'' \<and> map is_dns_type (field_values ''content-type'' hs) = [True] \<or>
     method = as_bytes ''GET'' \<and> n = 0)"
  using accepted_unambiguous [OF assms] unfolding unambiguous_request_def .

theorem doh_request_unambiguous_witness:
  "field_values '':path'' sample_request = [as_bytes ''/dns-query'']"
  using doh_request_unambiguous [OF sample_request_accepted] by blast

text \<open>
  C28. The loop that sends waiting answers ends, and it ends for a reason: an answer still waits only if the
  connection window is used up or the window of its own stream is.
\<close>

theorem h2_flush_sends_all_it_may:
  assumes "conn_reach path handler fs c"
  shows "conn_reach path handler fs (flush_pending c) \<and>
    (\<forall>(sid, b) \<in> set (cn_pending (flush_pending c)).
       cn_send_conn_window (flush_pending c) = 0 \<or>
       (\<exists>w \<le> 0. map_of (cn_send_stream_windows (flush_pending c)) sid = Some w))"
  using reach_flush_pending [OF assms] flush_drained [OF assms] by blast

theorem h2_flush_sends_all_it_may_witness:
  "conn_reach (as_bytes ''/dns-query'') echo_handler sample_frames (flush_pending sample_conn)"
  using h2_flush_sends_all_it_may [OF sample_conn_reached] by blast

section \<open>Patterns\<close>

text \<open>
  C29. The pattern parser is total and typed: on every input it ends with an error or a tree, its recursion never
  exceeds the nesting limit, and a tree has no empty alternative or class and only ordered repetition
  bounds within \<open>MAX_REPEAT\<close>.
\<close>

theorem regex_trees_wellformed:
  "parse_pattern pattern \<noteq> Inl Endless \<and> (case parse_pattern pattern of Inr ast \<Rightarrow> ast_ok ast | Inl _ \<Rightarrow> True)"
  using parse_pattern_ends parse_pattern_ok by (auto split: sum.split)

section \<open>QUIC packets and frames\<close>

text \<open>
  C30. A protected packet is read back. For ciphers that open what they sealed and packet numbers within
  half a window of the expected one, \<open>unprotect_long\<close> returns the identifiers, token, packet number and
  payload that \<open>protect_long\<close> was given and the exact length of the packet, whatever follows it in the
  datagram; \<open>unprotect_short\<close> does so for \<open>protect_short\<close>, with the old keys and across a key update. Short
  payloads come back with the padding that \<open>protect_long\<close> and \<open>protect_short\<close> add.
\<close>

theorem quic_packets_roundtrip:
  assumes "aead_ok s" and "pn_near n largest pn" and "length dcid \<le> 20" and "length scid \<le> 20"
    and "length token \<le> 256" and "pt \<in> {INITIAL, ZERO_RTT, HANDSHAKE}"
    and "n + length (pad_payload n payload) + 16 < 2 ^ 62"
    and "holds_keys keys alt_keys expected_phase sk phase"
  shows "unprotect_long s a sk (protect_long s a sk pt dcid scid token pn n payload @ tail) largest =
      Some \<lparr>lp_ptype = pt, lp_version = VERSION_1, lp_dcid = dcid, lp_scid = scid,
        lp_token = (if pt = INITIAL then token else []), lp_pn = pn, lp_payload = pad_payload n payload,
        lp_consumed = length (protect_long s a sk pt dcid scid token pn n payload)\<rparr> \<and>
    unprotect_short s a keys alt_keys expected_phase (protect_short s a sk dcid pn n payload phase)
        (length dcid) largest =
      Some (\<lparr>sp_dcid = dcid, sp_pn = pn, sp_payload = pad_payload n payload\<rparr>, phase \<noteq> expected_phase)"
  using unprotect_protect_long [OF assms(1,2,6,3,4,5,7)] unprotect_protect_short [OF assms(1-3,8)] by simp

theorem quic_packets_roundtrip_witness:
  "unprotect_long plain_suite Aes128Gcm plain_keys
     (protect_long plain_suite Aes128Gcm plain_keys INITIAL [7] [] [] 300 2 [1] @ [9]) 299 =
   Some \<lparr>lp_ptype = INITIAL, lp_version = VERSION_1, lp_dcid = [7], lp_scid = [], lp_token = [], lp_pn = 300,
     lp_payload = [1, 0],
     lp_consumed = length (protect_long plain_suite Aes128Gcm plain_keys INITIAL [7] [] [] 300 2 [1])\<rparr>"
proof -
  have p: "pad_payload 2 [1] = [1, 0]" by (simp add: pad_payload_def)
  have k: "holds_keys plain_keys None False plain_keys False" by (simp add: holds_keys_def)
  have n: "pn_near 2 299 300" by (simp add: pn_near_def)
  show ?thesis
    using quic_packets_roundtrip [OF plain_suite_ok n _ _ _ _ _ k, of "[7]" "[]" "[]" INITIAL "[1]"] p
    by simp
qed

text \<open>
  C31. What \<open>encode\<close> writes for up to 1024 frames with 62-bit values, bounded acknowledgement tables and no
  two paddings in a row, \<open>parse\<close> reads back, frame by frame.
\<close>

theorem quic_frames_roundtrip:
  assumes "list_all frame_ok fs" and "padding_apart fs" and "length fs \<le> MAX_PARSED_FRAMES"
  shows "parse_frames (concat (map encode_frame fs)) = Some fs"
  unfolding parse_frames_def by (rule parse_frames_encoded [OF assms])

theorem quic_frames_roundtrip_witness:
  "parse_frames (concat (map encode_frame
     [Ack 300 0 1 [(0, 70)], Padding 3, Stream 4 0 True [1, 2], ConnectionClose 10 None []])) =
   Some [Ack 300 0 1 [(0, 70)], Padding 3, Stream 4 0 True [1, 2], ConnectionClose 10 None []]"
  by (rule quic_frames_roundtrip) (simp_all add: MAX_PARSED_FRAMES_def MAX_PARSED_ACK_RANGES_def)

text \<open>
  C32. Parsing hostile bytes is bounded: at most 1024 frames, whose data, acknowledgement ranges and
  padding together are no larger than the input, and every frame that is not skipped has values the
  encoder can write and the parser reads back.
\<close>

theorem quic_frames_bounded:
  assumes "parse_frames buf = Some fs" and "length buf < 2 ^ 62"
  shows "length fs \<le> 1024 \<and> sum_list (map frame_weight fs) \<le> length buf \<and>
    (\<forall>f \<in> set fs. (\<exists>t. f = OtherFrame t) \<or> parse_frames (encode_frame f) = Some [f])"
proof -
  have p: "parse_frames_loop MAX_PARSED_FRAMES buf = Some fs" using assms(1) by (simp add: parse_frames_def)
  have "parse_frames (encode_frame f) = Some [f]" if "frame_ok f" for f
    using parse_frames_encoded [of "[f]" MAX_PARSED_FRAMES] that by (simp add: parse_frames_def MAX_PARSED_FRAMES_def)
  with parse_frames_bound [OF p assms(2)] show ?thesis by (auto simp: MAX_PARSED_FRAMES_def)
qed

theorem quic_frames_bounded_witness:
  "\<exists>fs. parse_frames [1, 0, 0, 6, 0, 1, 9] = Some fs \<and> sum_list (map frame_weight fs) \<le> 7"
proof -
  have "replicate 2 (0 :: u8) = [0, 0]" by (simp add: numeral_2_eq_2)
  then have "parse_frames [1, 0, 0, 6, 0, 1, 9] = Some [Ping, Padding 2, Crypto 0 [9]]"
    using parse_frames_encoded [of "[Ping, Padding 2, Crypto 0 [9]]" MAX_PARSED_FRAMES]
    by (simp add: parse_frames_def MAX_PARSED_FRAMES_def varint_write_def)
  from this quic_frames_bounded [OF this] show ?thesis by auto
qed

section \<open>Clients: cookies and access control\<close>

text \<open>
  C33. A DNS cookie is valid for exactly one server part per time stamp: the one that carries the keyed hash
  of the client part, the stamp and the address, and only while the stamp is at most an hour old or
  five minutes ahead, with clock differences taken modulo 32 bits. Other lengths are refused.
\<close>

theorem cookie_accepted_exactly:
  "parse_and_validate_at keeper cookie ip now =
    (if length cookie = 8 \<or> length cookie \<in> {16..40}
     then Some \<lparr>cc_client = take 8 cookie,
       cc_valid = (\<exists>stamp k0 k1. (k0, k1) = keys_at keeper stamp \<and>
         drop 8 cookie = [1, 0, 0, 0] @ u32_to_be_bytes stamp @ u64_to_le_bytes
           (siphash 2 4 k0 k1 (take 8 cookie @ [1, 0, 0, 0] @ u32_to_be_bytes stamp @ octets ip)) \<and>
         sint (now - stamp) \<in> {- 300..3600})\<rparr>
     else None)"
proof -
  have "server_part_is_ours_at keeper (drop 8 cookie) (take 8 cookie) ip now \<longleftrightarrow>
      (\<exists>stamp k0 k1. (k0, k1) = keys_at keeper stamp \<and>
         drop 8 cookie = [1, 0, 0, 0] @ u32_to_be_bytes stamp @ u64_to_le_bytes
           (siphash 2 4 k0 k1 (take 8 cookie @ [1, 0, 0, 0] @ u32_to_be_bytes stamp @ octets ip)) \<and>
         sint (now - stamp) \<in> {- 300..3600})"
    unfolding server_part_exact server_cookie_hash in_window_def COOKIE_VERSION_def
    by (auto simp: prod_eq_iff)
  then show ?thesis by (auto simp: parse_and_validate_at_def Let_def)
qed

text \<open>
  C34. Denials stand: a client whose address agrees with a denied network on its prefix bits is denied
  whatever is allowed besides, and the flag that lets the fast path skip the check is set exactly when
  the default is to allow and every client is allowed.
\<close>

theorem acl_denials_stand:
  "(is_trivially_allow acl \<longleftrightarrow> ia_default_allow acl \<and> (\<forall>client. acl_check acl client = Allow)) \<and>
   (\<forall>n \<in> set (ia_deny acl). same_prefix (unat (net_prefix n)) (net_network n) (ci_source_ip client) \<longrightarrow>
      acl_check (acl\<lparr>ia_allow := nets, ia_allow_ids := ids, ia_default_allow := b\<rparr>) client = Deny)"
  using trivially_allow_iff [of acl] by (auto simp: acl_denied net_contains_iff)

theorem acl_denials_stand_witness:
  "acl_check ((acl_new [] [\<lparr>net_network = V4 0x0A000000, net_prefix = 8\<rparr>] True)\<lparr>
     ia_allow := [\<lparr>net_network = V4 0, net_prefix = 0\<rparr>], ia_allow_ids := [''a''], ia_default_allow := True\<rparr>)
     (plain_client (V4 0x0A010203) (Some ''a'')) = Deny"
proof -
  let ?n = "\<lparr>net_network = V4 0x0A000000, net_prefix = 8\<rparr>" let ?acl = "acl_new [] [?n] True"
  have "net_contains ?n (V4 0x0A010203)" by (simp add: net_contains_def v4_mask_def Let_def mask_eq_exp_minus_1)
  then have "same_prefix (unat (net_prefix ?n)) (net_network ?n) (ci_source_ip (plain_client (V4 0x0A010203) (Some ''a'')))"
    by (simp add: net_contains_iff)
  moreover have "?n \<in> set (ia_deny ?acl)" by (simp add: acl_new_def)
  ultimately show ?thesis using acl_denials_stand by blast
qed

section \<open>Behaviours the code does not rule out\<close>






text \<open>
  C38. At the stream limit a HEADERS frame is refused without decoding its header block, although the block
  may add to the table both sides share. A client that adds a field there and refers to it in its next
  request is told that its headers are malformed.
\<close>

theorem refused_headers_desynchronise:
  assumes "cn_peer_settings_seen c" and "cn_cont_stream c = None" and "concurrent_streams c = MAX_H2_STREAMS"
    and "fh_type h = FT_HEADERS" and "fh_stream h \<noteq> 0" and "fh_stream h AND 1 \<noteq> 0" and "cn_last_client_stream c < fh_stream h"
    and "dynamic (cn_dec c) = []" and "table_size (cn_dec c) = 0" and "34 \<le> max_size (cn_dec c)"
  shows "\<exists>c'. handle_frame path handler h indexing_block c = (Next, c') \<and>
    snd (decode_headers (cn_dec c') [0xBE]) = None \<and>
    snd (decode_headers (fst (decode_headers (cn_dec c) indexing_block)) [0xBE]) = Some [([97], [98])]"
  using refused_not_decoded [OF assms(1-7)] skipped_block_desync [OF assms(8,10,9)]
  by (simp add: send_rst_stream_def send_frame_def)

theorem refused_headers_desynchronise_witness:
  "\<exists>c'. handle_frame [] echo_handler (frame_of FT_HEADERS FLAG_END_HEADERS indexing_block 257) indexing_block busy_conn = (Next, c') \<and>
    snd (decode_headers (cn_dec c') [0xBE]) = None"
  using refused_headers_desynchronise [of busy_conn "frame_of FT_HEADERS FLAG_END_HEADERS indexing_block 257" "[]" echo_handler]
  by (auto simp: busy_conn_def session_conn_def concurrent_streams_def MAX_H2_STREAMS_def new_decoder_def)

text \<open>
  C39. The encoder writes a 187-byte message that the parser rejects: each new name points at the
  previous one, and the chain grows past \<open>MAX_JUMPS\<close>.
\<close>

theorem encoder_outruns_parser:
  "try_encode hb deep_message = Inr deep_wire \<and> message_parse deep_wire \<noteq> Inr m"
  using deep_encodes deep_rejected by blast


section \<open>Further facts\<close>

text \<open>
  The allocation-free \<open>canonical_suffix_key_into\<close> returns the canonical key of the suffix.
\<close>

theorem suffix_key_is_key_of_suffix:
  assumes "name_wf n" and "name_suffix n k = Some s" and "length (canonical_key s) \<le> length out"
  shows "canonical_suffix_key_into n k out = Some (canonical_key s)"
proof -
  obtain ls where n: "labels_ok ls" "n = name_of ls" using assms(1) by (rule name_wfE)
  have s: "s = name_of (drop (length ls - k) ls)"
    using assms(2) n by (simp add: name_suffix_name_of)
  have "canonical_key s = wire_of (lower_labels (drop (length ls - k) ls))"
    using n(1) by (simp add: s)
  with assms(3) show ?thesis
    using n by (simp add: canonical_suffix_key_name_of length_wire_of)
qed

theorem suffix_key_is_key_of_suffix_witness:
  "canonical_suffix_key_into (name_of [[65, 46], [98]]) 1 (replicate 255 0) = Some (canonical_key (name_of [[98]]))"
  by (rule suffix_key_is_key_of_suffix [OF name_wf_name_of, OF sample_labels(1)])
     (simp_all add: name_suffix_name_of sample_labels wire_of_def lower_labels_def)

text \<open>
  \<open>from_uncompressed_wire\<close> accepts exactly the wire form of a label list within the limits, and
  returns that name.
\<close>

theorem uncompressed_wire_exact:
  "from_uncompressed_wire bs = Some n \<longleftrightarrow> (\<exists>ls. labels_ok ls \<and> bs = wire_of ls \<and> n = name_of ls)"
  by (rule from_uncompressed_wire_iff)

text \<open>
  Errors of the writer stick: after the first one no operation changes anything, and \<open>finish\<close>
  returns that first error.
\<close>

theorem writer_error_sticks:
  assumes "writer_step\<^sup>*\<^sup>* w w'" and "wr_error w \<noteq> None"
  shows "w' = w \<and> writer_finish w' = Inl (the (wr_error w))"
  using writer_steps_failed [OF assms] assms(2) by (auto simp: writer_finish_def)

theorem writer_error_sticks_witness:
  "let w = push_bytes (writer_with_limit (\<lambda>_. 0) 1) [1, 2]
   in wr_error w \<noteq> None \<and> push_u8 w 5 = w \<and> writer_finish (push_u8 w 5) = Inl (the (wr_error w))"
proof -
  let ?w = "push_bytes (writer_with_limit (\<lambda>_. 0) 1) [1, 2]"
  have "wr_error ?w \<noteq> None"
    using push_bytes_ok [OF writer_with_limit_wf, of "\<lambda>_. 0" 1 "[1, 2]"]
    by (simp add: writer_with_limit_def writer_new_def)
  moreover have "writer_step\<^sup>*\<^sup>* ?w (push_u8 ?w 5)" by (intro r_into_rtranclp step_u8)
  ultimately show ?thesis using writer_error_sticks [of ?w "push_u8 ?w 5"] unfolding Let_def by blast
qed

text \<open>
  A replication batch is a prefix of the entries due and respects both limits.
\<close>

theorem append_batch_bounds:
  "length (collect_batch es [] 0) \<le> MAX_APPEND_ENTRIES \<and>
   sum_list (map encoded_size (collect_batch es [] 0)) \<le> MAX_APPEND_BYTES \<and>
   (\<exists>k. collect_batch es [] 0 = take k es)"
  using collect_batch_bounds [of "[]" 0 es] by simp

text \<open>
  A message that came from the parser passes every check \<open>encode_checked_into\<close> makes before it
  writes: a received message can be forwarded without being refused for its contents.
\<close>

theorem parsed_message_passes_precheck:
  assumes "message_parse bs = Inr m"
  shows "precheck m = None"
  using assms by (rule parsed_precheck)

theorem parsed_message_passes_precheck_witness:
  "\<exists>bs m. message_parse bs = Inr m \<and> precheck m = None"
  using message_roundtrip [OF sample_ok] sample_encodes parsed_message_passes_precheck by blast

text \<open>
  A state written as a state file is decoded unchanged, and the file is within the size a start
  accepts.
\<close>

theorem state_file_roundtrip:
  assumes "sha_ok sha" and "state_ok s" and "encode_state sha s = Inr bs"
  shows "decode_state sha bs = Inr s \<and> length bs \<le> MAX_STATE_BYTES"
  using decode_encode_state [OF assms] by blast

theorem state_file_roundtrip_witness:
  "decode_state zero_sha (state_head voted_state @ replicate 32 0) = Inr voted_state"
  using state_file_roundtrip [OF zero_sha_ok voted_state_ok(1) voted_state_encodes] by blast

text \<open>
  An EDNS block written as an OPT record is read back unchanged.
\<close>

theorem edns_roundtrip:
  assumes "try_to_record e = Inr rec"
  shows "try_from_record rec = Inr e"
  using assms by (rule try_from_to_record)

theorem edns_roundtrip_witness:
  "\<exists>rec. try_to_record edns_default = Inr rec \<and> try_from_record rec = Inr edns_default"
proof -
  obtain rec where "try_to_record edns_default = Inr rec"
    by (simp add: try_to_record_def edns_default_def Let_def)
  with edns_roundtrip [OF this] show ?thesis by blast
qed

text \<open>
  A pledge outlives everything: once a node can vote in a term only for one candidate, in memory
  and after a restart, no operation makes that untrue, even when the disk fails.
\<close>

theorem pledge_is_kept:
  assumes "apply_event disk ev n = (outs, n')" and "candidacy_ok n" and "pledged n t c"
  shows "pledged n' t c"
  using event_ok [OF assms(1,2)] assms(3) by (auto simp: election_ok_def vote_kept_def)

theorem pledge_is_kept_witness:
  "pledged (snd (apply_event good_disk (Receive 3 (RequestVote 1 3 9 9)) voted_node)) 1 2"
  by (rule pledge_is_kept [OF surjective_pairing voted_node_ok voted_node_pledged])

text \<open>
  \<open>normalize_ttls\<close> gives all records of an RRset one lifetime, which is at most that of every
  record of the set and at most \<open>MAX_TTL\<close>, and changes nothing else.
\<close>

theorem rrset_ttls_normalized:
  assumes "a \<in> set recs" and "b \<in> set recs" and "rrset_key a = rrset_key b" and "lifetime a" and "lifetime b"
  shows "normalize_ttls recs = map (normalized recs) recs \<and>
    rr_ttl (normalized recs a) = rr_ttl (normalized recs b) \<and>
    rr_ttl (normalized recs a) \<le> rr_ttl b \<and> rr_ttl (normalized recs a) \<le> MAX_TTL"
  using assms normalize_ttls_spec [of recs] normalize_ttls_same_rrset [OF assms] normalized_lowers [of b recs]
  by auto

theorem rrset_ttls_normalized_witness:
  "rr_ttl (normalized two_ttls (two_ttls ! 0)) = rr_ttl (normalized two_ttls (two_ttls ! 1)) \<and>
   rr_ttl (normalized two_ttls (two_ttls ! 0)) \<le> 30"
proof -
  have "rrset_key (two_ttls ! 0) = rrset_key (two_ttls ! 1)"
    by (simp add: two_ttls_def rrset_key_def sample_labels lower_labels_def to_ascii_lowercase_def is_ascii_uppercase_def)
  moreover have "lifetime (two_ttls ! 0)" "lifetime (two_ttls ! 1)"
    by (simp_all add: two_ttls_def ttl_field_is_not_a_lifetime_def)
  moreover have "two_ttls ! 0 \<in> set two_ttls" "two_ttls ! 1 \<in> set two_ttls" by (simp_all add: two_ttls_def)
  moreover have "rr_ttl (two_ttls ! 1) = 30" by (simp add: two_ttls_def)
  ultimately show ?thesis using rrset_ttls_normalized [of "two_ttls ! 0" two_ttls "two_ttls ! 1"]
    by metis
qed

text \<open>
  The canonical key, which hash tables and caches use, decides equality of names ignoring ASCII
  case.
\<close>

theorem canonical_key_decides_equality:
  assumes "name_wf a" and "name_wf b"
  shows "canonical_key a = canonical_key b \<longleftrightarrow> eq_ignore_case a b"
  using assms by (auto elim!: name_wfE simp: eq_ignore_case_name_of lower_key_inj)

theorem canonical_key_decides_equality_witness:
  "canonical_key (name_of [[65, 46], [98]]) = canonical_key (name_of [[97, 46], [66]]) \<longleftrightarrow>
   eq_ignore_case (name_of [[65, 46], [98]]) (name_of [[97, 46], [66]])"
  by (rule canonical_key_decides_equality [OF name_wf_name_of name_wf_name_of, OF sample_labels(1,2)])

text \<open>
  The incremental hasher does not depend on how its input is cut: any sequence of writes gives the
  one-shot hash of the concatenation, whatever partial blocks they leave behind.
\<close>

theorem siphash_incremental:
  "sip_finish C D (fold (sip_write C) ms (sip_new_with_keys k0 k1)) = siphash C D k0 k1 (concat ms)"
  by (rule hash_writes)

text \<open>
  The header block of a response is decoded to its headers by a decoder in any state, and leaves that
  state alone: responses never depend on the shared table.
\<close>

theorem hpack_response_roundtrip:
  assumes "header_size hs \<le> MAX_DECODED_HEADER_LIST"
  shows "decode_headers d (encode_response hs) = (d, Some hs)"
  using assms by (rule decode_response)

theorem hpack_response_roundtrip_witness:
  "decode_headers (new_decoder 4096) (encode_response sample_request) = (new_decoder 4096, Some sample_request)"
  using hpack_response_roundtrip [of sample_request] sample_request_size
  by (simp add: DEFAULT_MAX_FRAME_def MAX_DECODED_HEADER_LIST_def)

text \<open>
  The query parameter of a GET request is decoded strictly: bytes are returned if and only if every
  character is of the URL alphabet and the bits are those of the bytes followed by fewer than six zero
  bits, so each query has one spelling.
\<close>

theorem base64url_decodes_exactly:
  "base64url_decode input = Some out \<longleftrightarrow>
   input \<noteq> [] \<and> (\<exists>k < 6. sextets input = Some (bytes_bits out @ replicate k False))"
  by (rule base64url_decode_bits)

text \<open>
  Masks decide prefixes: a network made by \<open>from_str\<close> contains exactly the addresses of the same family
  with the same leading bits, at every prefix length, and two addresses share the key of the subnet
  limiter exactly if they agree on its prefix.
\<close>

theorem prefix_membership_exact:
  assumes "net_of a p = Some net"
  shows "(net_contains net b \<longleftrightarrow> same_prefix (unat (net_prefix net)) a b) \<and>
    (subnet_key (subnet_new p4 p6) a = subnet_key (subnet_new p4 p6) b \<longleftrightarrow>
       same_prefix (case a of V4 _ \<Rightarrow> unat p4 | V6 _ \<Rightarrow> unat p6) a b)"
  using net_of_contains [OF assms] subnet_key_exact by blast

theorem prefix_membership_exact_witness:
  "\<exists>net. net_of (V4 0x0A010203) (Some 8) = Some net \<and> net_contains net (V4 0x0AFF0001) \<and>
     \<not> net_contains net (V4 0x0B010203) \<and>
     subnet_key (subnet_new 24 56) (V4 0x0A010203) = subnet_key (subnet_new 24 56) (V4 0x0A0102FF)"
proof -
  let ?net = "\<lparr>net_network = V4 0x0A000000, net_prefix = 8\<rparr>"
  have n: "net_of (V4 0x0A010203) (Some 8) = Some ?net" by (simp add: net_of_def v4_mask_def mask_eq_exp_minus_1)
  have "net_contains ?net (V4 0x0AFF0001)" "\<not> net_contains ?net (V4 0x0B010203)"
    by (simp_all add: net_contains_def v4_mask_def Let_def mask_eq_exp_minus_1)
  moreover have "subnet_key (subnet_new 24 56) (V4 0x0A010203) = subnet_key (subnet_new 24 56) (V4 0x0A0102FF)"
    by (simp add: subnet_new_def mask_eq_exp_minus_1)
  ultimately show ?thesis using n prefix_membership_exact [OF n] by blast
qed

end
